(* ===== verification/Prelude.thy ===== *)
theory Prelude
  imports Main "HOL-Library.Word"
begin

text \<open>
  The vocabulary every theory of the development shares: the machine integers of the target
  (a 32-bit Cortex-M4), the error codes of \<^verbatim>\<open>rt-thread/include/rtdef.h\<close>, faults
  (a failed \<^verbatim>\<open>RT_ASSERT\<close>, a NULL dereference) as values of a sum type, the byte
  copy \<^verbatim>\<open>rt_memcpy\<close> on lists, and the generic lemmas on lists, bits and words the
  component proofs use.
\<close>

unbundle bit_operations_syntax

named_theorems kdefs \<open>unfolding rules of the kernel's elementary state updates\<close>
named_theorems wbits \<open>bit-level rewrite rules for machine words\<close>

section \<open>Machine integers and error codes\<close>

type_synonym u8 = "8 word"
type_synonym u16 = "16 word"
type_synonym u32 = "32 word"

text \<open>\<^verbatim>\<open>rt_err_t\<close> is a signed integer; a failing call returns the negated code.\<close>

abbreviation (input) RT_EOK :: int where "RT_EOK \<equiv> 0"
abbreviation (input) RT_ERROR :: int where "RT_ERROR \<equiv> 1"
abbreviation (input) RT_ETIMEOUT :: int where "RT_ETIMEOUT \<equiv> 2"
abbreviation (input) RT_EFULL :: int where "RT_EFULL \<equiv> 3"
abbreviation (input) RT_EEMPTY :: int where "RT_EEMPTY \<equiv> 4"
abbreviation (input) RT_ENOMEM :: int where "RT_ENOMEM \<equiv> 5"
abbreviation (input) RT_EBUSY :: int where "RT_EBUSY \<equiv> 7"
abbreviation (input) RT_EINVAL :: int where "RT_EINVAL \<equiv> 10"

text \<open>\<^verbatim>\<open>RT_ALIGN(size, 4)\<close> and \<^verbatim>\<open>RT_ALIGN_DOWN(size, 4)\<close> at the
  width of \<^verbatim>\<open>rt_size_t\<close>: the addition wraps.\<close>

definition RT_ALIGN :: "u32 \<Rightarrow> u32 \<Rightarrow> u32" where
  "RT_ALIGN sz align = (sz + align - 1) AND NOT (align - 1)"

definition RT_ALIGN_DOWN :: "u32 \<Rightarrow> u32 \<Rightarrow> u32" where
  "RT_ALIGN_DOWN sz align = sz AND NOT (align - 1)"

section \<open>Faults\<close>

text \<open>
  What stops the system: \<^verbatim>\<open>rt_assert_handler\<close> spins forever
  (\<^verbatim>\<open>RT_DEBUG\<close> is defined in \<^verbatim>\<open>rtconfig.h\<close>), a NULL pointer that is
  followed, an access outside an array, and, for the one recursion without a structural
  bound, fuel that has run out.
\<close>

datatype fault = AssertFail | NullDeref | BadAccess | OutOfFuel

type_synonym 'a res = "fault + 'a"

definition bind_res :: "'a res \<Rightarrow> ('a \<Rightarrow> 'b res) \<Rightarrow> 'b res" where
  "bind_res m f = (case m of Inl e \<Rightarrow> Inl e | Inr x \<Rightarrow> f x)"

lemma bind_res_simps [simp]:
  "bind_res (Inl e) f = Inl e"
  "bind_res (Inr x) f = f x"
  by (simp_all add: bind_res_def)

lemma bind_res_eq_Inr:
  "bind_res m f = Inr y \<longleftrightarrow> (\<exists>x. m = Inr x \<and> f x = Inr y)"
  by (cases m) auto

text \<open>\<^verbatim>\<open>RT_ASSERT\<close> followed by the rest of the function.\<close>

definition assert_then :: "bool \<Rightarrow> 'a res \<Rightarrow> 'a res" where
  "assert_then b k = (if b then k else Inl AssertFail)"

lemma assert_then_simps [simp]:
  "assert_then True k = k" "assert_then False k = Inl AssertFail"
  by (simp_all add: assert_then_def)

lemma assert_then_eq_Inr: "assert_then b k = Inr x \<longleftrightarrow> b \<and> k = Inr x"
  by (simp add: assert_then_def)

section \<open>Byte copies\<close>

text \<open>\<^verbatim>\<open>rt_memcpy(&dst[d], &src[s], n)\<close> on disjoint arrays.\<close>

definition memcpy_at :: "'a list \<Rightarrow> nat \<Rightarrow> 'a list \<Rightarrow> nat \<Rightarrow> nat \<Rightarrow> 'a list" where
  "memcpy_at dst d src s n = take d dst @ take n (drop s src) @ drop (d + n) dst"

lemma length_memcpy_at [simp]:
  "d + n \<le> length dst \<Longrightarrow> s + n \<le> length src \<Longrightarrow> length (memcpy_at dst d src s n) = length dst"
  by (simp add: memcpy_at_def)

lemma memcpy_at_0 [simp]: "memcpy_at dst d src s 0 = dst"
  by (simp add: memcpy_at_def)

lemma nth_memcpy_at:
  assumes "d + n \<le> length dst" "s + n \<le> length src" "i < length dst"
  shows "memcpy_at dst d src s n ! i =
    (if d \<le> i \<and> i < d + n then src ! (s + (i - d)) else dst ! i)"
proof -
  have len: "length (take n (drop s src)) = n" "length (take d dst) = d"
    using assms by simp_all
  consider "i < d" | "d \<le> i" "i < d + n" | "d + n \<le> i" by linarith
  then show ?thesis
  proof cases
    case 1
    then show ?thesis using assms by (simp add: memcpy_at_def nth_append)
  next
    case 2
    then have "i - d < n" by simp
    with 2 show ?thesis
      using assms unfolding memcpy_at_def nth_append len by (simp add: len)
  next
    case 3
    then have "\<not> i - d < n" by simp
    with 3 show ?thesis
      using assms unfolding memcpy_at_def nth_append len by simp
  qed
qed

section \<open>Lists\<close>

text \<open>The position where a node goes when it is put in front of the first element that
  satisfies \<open>P\<close>, at the end when there is none: the insertion loops of the kernel.\<close>

fun insert_when :: "('a \<Rightarrow> bool) \<Rightarrow> 'a \<Rightarrow> 'a list \<Rightarrow> 'a list" where
  "insert_when P x [] = [x]"
| "insert_when P x (y # ys) = (if P y then x # y # ys else y # insert_when P x ys)"

lemma set_insert_when [simp]: "set (insert_when P x xs) = insert x (set xs)"
  by (induction xs) auto

lemma length_insert_when [simp]: "length (insert_when P x xs) = Suc (length xs)"
  by (induction xs) auto

lemma distinct_insert_when [simp]:
  "distinct (insert_when P x xs) \<longleftrightarrow> x \<notin> set xs \<and> distinct xs"
  by (induction xs) auto

lemma insert_when_not_Nil [simp]: "insert_when P x xs \<noteq> []"
  by (cases xs) auto

lemma insert_when_split:
  "\<exists>ys zs. xs = ys @ zs \<and> insert_when P x xs = ys @ x # zs
     \<and> (\<forall>y \<in> set ys. \<not> P y) \<and> (zs = [] \<or> P (hd zs))"
proof (induction xs)
  case Nil
  then show ?case by simp
next
  case (Cons a xs)
  then obtain ys zs where *: "xs = ys @ zs" "insert_when P x xs = ys @ x # zs"
    "\<forall>y \<in> set ys. \<not> P y" "zs = [] \<or> P (hd zs)" by blast
  show ?case
  proof (cases "P a")
    case True
    then show ?thesis by (intro exI [of _ "[]"] exI [of _ "a # xs"]) simp
  next
    case False
    with * show ?thesis by (intro exI [of _ "a # ys"] exI [of _ zs]) simp
  qed
qed

lemma sorted_insert_when:
  fixes k :: "'a \<Rightarrow> 'k::linorder"
  assumes "sorted (map k xs)"
  shows "sorted (map k (insert_when (\<lambda>y. k x < k y) x xs))"
  using assms by (induction xs) (auto simp: not_less)

lemma remove1_notin [simp]: "x \<notin> set xs \<Longrightarrow> remove1 x xs = xs"
  by (rule remove1_idem)

lemma set_remove1_distinct: "distinct xs \<Longrightarrow> set (remove1 x xs) = set xs - {x}"
  by (rule set_remove1_eq)

lemma sorted_map_remove1: "sorted (map k xs) \<Longrightarrow> sorted (map k (remove1 x xs))"
  by (induction xs) (auto dest: set_remove1_subset [THEN subsetD])

section \<open>Words\<close>

lemma word_bit_eqI32: "(\<And>n. n < 32 \<Longrightarrow> bit (a::u32) n = bit b n) \<Longrightarrow> a = b"
  by (rule bit_word_eqI) simp

lemma bit_push_one [wbits]: "bit (push_bit n (1::u32)) k \<longleftrightarrow> n = k \<and> k < 32"
  by (auto simp: bit_simps)

lemma bit_set_one [wbits]:
  "n < 32 \<Longrightarrow> bit (w OR push_bit n (1::u32)) k \<longleftrightarrow> k = n \<or> bit w k"
  by (auto simp: bit_simps)

lemma bit_clear_one [wbits]:
  "bit (w AND NOT (push_bit n (1::u32))) k \<longleftrightarrow> k \<noteq> n \<and> bit w k"
  by (auto simp: bit_simps dest: bit_imp_le_length)

lemma word_nonzero_bit: "(w::u32) \<noteq> 0 \<longleftrightarrow> (\<exists>n<32. bit w n)"
proof
  assume "w \<noteq> 0"
  then have "\<exists>n. bit w n" by (metis bit_word_eqI bit_0_eq bot_apply bot_bool_def)
  then obtain n where "bit w n" ..
  moreover from this have "n < 32" using bit_imp_le_length by fastforce
  ultimately show "\<exists>n<32. bit w n" by blast
qed auto

lemma unat_lt_32: "unat (w::u32) < 4294967296"
  using unsigned_less [of w] by simp

end
