(* ===== verification/BitUtil.thy ===== *)
theory BitUtil
  imports Prelude
begin

text \<open>
  Bit counting and byte-order helpers: the whole of
  \<^verbatim>\<open>libraries/nu_packages/NuUtils/inc/nu_bitutil.h\<close> and the three find-first-set
  routines of the kernel, \<^verbatim>\<open>__rt_ffs\<close> in \<^verbatim>\<open>libcpu/arm/cortex-m4/cpuport.c\<close>
  (the one this BSP builds) and the two table-driven fallbacks in
  \<^verbatim>\<open>src/kservice.c\<close>.  The specification is in terms of the lowest and highest set
  bit; the scheduler and the memory-actor allocator of the PDMA driver rest on it.
\<close>

section \<open>Counting zeros and ones\<close>

text \<open>The Cortex-M instruction \<^verbatim>\<open>CLZ\<close>, reading the register from its top bit.\<close>

primrec clz_from :: "nat \<Rightarrow> u32 \<Rightarrow> nat" where
  "clz_from 0 x = 0"
| "clz_from (Suc n) x = (if bit x n then 0 else Suc (clz_from n x))"

definition CLZ :: "u32 \<Rightarrow> nat" where
  "CLZ x = clz_from 32 x"

definition nu_clz :: "u32 \<Rightarrow> nat" where
  "nu_clz x = (if x \<noteq> 0 then CLZ x else 32)"

definition nu_clo :: "u32 \<Rightarrow> nat" where
  "nu_clo x = nu_clz (NOT x)"

definition nu_ctz :: "u32 \<Rightarrow> nat" where
  "nu_ctz x =
     (let c = 32; c = (if x \<noteq> 0 then CLZ (x AND - x) else c)
      in if x \<noteq> 0 then 31 - c else c)"

definition nu_cto :: "u32 \<Rightarrow> nat" where
  "nu_cto x = nu_ctz (NOT x)"

section \<open>Find first set\<close>

text \<open>\<^verbatim>\<open>__builtin_ffs\<close>, as the compiler documents it: one plus the index of the least
  significant 1-bit, or zero.\<close>

definition rt_ffs :: "u32 \<Rightarrow> nat" where
  "rt_ffs value = (case find (bit value) [0..<32] of None \<Rightarrow> 0 | Some n \<Rightarrow> Suc n)"

definition lowest_bit_bitmap37 :: "nat list" where
  "lowest_bit_bitmap37 =
    [0, 1, 2, 27, 3, 24, 28, 32,
     4, 17, 25, 31, 29, 12, 32, 14,
     5, 8, 18, 32, 26, 23, 32, 16,
     30, 11, 13, 7, 32, 22, 15, 10,
     6, 21, 9, 20, 19]"

definition rt_ffs_tiny :: "u32 \<Rightarrow> nat" where
  "rt_ffs_tiny value =
     lowest_bit_bitmap37 ! unat (((value AND (value - 1)) XOR value) mod 37)"

definition lowest_bit_bitmap256 :: "nat list" where
  "lowest_bit_bitmap256 =
    [0, 0, 1, 0, 2, 0, 1, 0, 3, 0, 1, 0, 2, 0, 1, 0,
     4, 0, 1, 0, 2, 0, 1, 0, 3, 0, 1, 0, 2, 0, 1, 0,
     5, 0, 1, 0, 2, 0, 1, 0, 3, 0, 1, 0, 2, 0, 1, 0,
     4, 0, 1, 0, 2, 0, 1, 0, 3, 0, 1, 0, 2, 0, 1, 0,
     6, 0, 1, 0, 2, 0, 1, 0, 3, 0, 1, 0, 2, 0, 1, 0,
     4, 0, 1, 0, 2, 0, 1, 0, 3, 0, 1, 0, 2, 0, 1, 0,
     5, 0, 1, 0, 2, 0, 1, 0, 3, 0, 1, 0, 2, 0, 1, 0,
     4, 0, 1, 0, 2, 0, 1, 0, 3, 0, 1, 0, 2, 0, 1, 0,
     7, 0, 1, 0, 2, 0, 1, 0, 3, 0, 1, 0, 2, 0, 1, 0,
     4, 0, 1, 0, 2, 0, 1, 0, 3, 0, 1, 0, 2, 0, 1, 0,
     5, 0, 1, 0, 2, 0, 1, 0, 3, 0, 1, 0, 2, 0, 1, 0,
     4, 0, 1, 0, 2, 0, 1, 0, 3, 0, 1, 0, 2, 0, 1, 0,
     6, 0, 1, 0, 2, 0, 1, 0, 3, 0, 1, 0, 2, 0, 1, 0,
     4, 0, 1, 0, 2, 0, 1, 0, 3, 0, 1, 0, 2, 0, 1, 0,
     5, 0, 1, 0, 2, 0, 1, 0, 3, 0, 1, 0, 2, 0, 1, 0,
     4, 0, 1, 0, 2, 0, 1, 0, 3, 0, 1, 0, 2, 0, 1, 0]"

definition rt_ffs_table :: "u32 \<Rightarrow> nat" where
  "rt_ffs_table value =
    (if value = 0 then 0
     else if value AND 0xff \<noteq> 0 then lowest_bit_bitmap256 ! unat (value AND 0xff) + 1
     else if value AND 0xff00 \<noteq> 0
       then lowest_bit_bitmap256 ! unat (drop_bit 8 (value AND 0xff00)) + 9
     else if value AND 0xff0000 \<noteq> 0
       then lowest_bit_bitmap256 ! unat (drop_bit 16 (value AND 0xff0000)) + 17
     else lowest_bit_bitmap256 ! unat (drop_bit 24 (value AND 0xff000000)) + 25)"

section \<open>Byte order\<close>

text \<open>A byte array is a list; \<^verbatim>\<open>*pos++\<close> walks it from index 0.  Reading builds the
  value with wrapping sums of shifted bytes, as the code does.\<close>

definition nu_get16_le :: "u8 list \<Rightarrow> u16" where
  "nu_get16_le pos = ucast (pos ! 0) + push_bit 8 (ucast (pos ! 1))"

definition nu_set16_le :: "u8 list \<Rightarrow> u16 \<Rightarrow> u8 list" where
  "nu_set16_le pos val = pos[0 := ucast (val AND 0xFF), 1 := ucast (drop_bit 8 val)]"

definition nu_get32_le :: "u8 list \<Rightarrow> u32" where
  "nu_get32_le pos = ucast (pos ! 0) + push_bit 8 (ucast (pos ! 1))
     + push_bit 16 (ucast (pos ! 2)) + push_bit 24 (ucast (pos ! 3))"

definition nu_get24_le :: "u8 list \<Rightarrow> u32" where
  "nu_get24_le pos = ucast (pos ! 0) + push_bit 8 (ucast (pos ! 1))
     + push_bit 16 (ucast (pos ! 2))"

definition nu_set24_le :: "u8 list \<Rightarrow> u32 \<Rightarrow> u8 list" where
  "nu_set24_le pos val = pos[0 := ucast (val AND 0xFF),
     1 := ucast (drop_bit 8 val AND 0xFF), 2 := ucast (drop_bit 16 val AND 0xFF)]"

definition nu_set32_le :: "u8 list \<Rightarrow> u32 \<Rightarrow> u8 list" where
  "nu_set32_le pos val = pos[0 := ucast (val AND 0xFF),
     1 := ucast (drop_bit 8 val AND 0xFF), 2 := ucast (drop_bit 16 val AND 0xFF),
     3 := ucast (drop_bit 24 val AND 0xFF)]"

definition nu_get16_be :: "u8 list \<Rightarrow> u16" where
  "nu_get16_be pos = push_bit 8 (ucast (pos ! 0)) + ucast (pos ! 1)"

definition nu_set16_be :: "u8 list \<Rightarrow> u16 \<Rightarrow> u8 list" where
  "nu_set16_be pos val = pos[0 := ucast (drop_bit 8 val), 1 := ucast (val AND 0xFF)]"

definition nu_get24_be :: "u8 list \<Rightarrow> u32" where
  "nu_get24_be pos =
     push_bit 8 (push_bit 8 (ucast (pos ! 0)) + ucast (pos ! 1)) + ucast (pos ! 2)"

definition nu_set24_be :: "u8 list \<Rightarrow> u32 \<Rightarrow> u8 list" where
  "nu_set24_be pos val = pos[0 := ucast (drop_bit 16 val), 1 := ucast (drop_bit 8 val),
     2 := ucast (val AND 0xFF)]"

definition nu_get32_be :: "u8 list \<Rightarrow> u32" where
  "nu_get32_be pos =
     push_bit 8 (push_bit 8 (push_bit 8 (ucast (pos ! 0)) + ucast (pos ! 1))
       + ucast (pos ! 2)) + ucast (pos ! 3)"

definition nu_set32_be :: "u8 list \<Rightarrow> u32 \<Rightarrow> u8 list" where
  "nu_set32_be pos val = pos[0 := ucast (drop_bit 24 val), 1 := ucast (drop_bit 16 val),
     2 := ucast (drop_bit 8 val), 3 := ucast (val AND 0xFF)]"

section \<open>The lowest set bit\<close>

definition lowest_set :: "u32 \<Rightarrow> nat \<Rightarrow> bool" where
  "lowest_set x n \<longleftrightarrow> bit x n \<and> (\<forall>m<n. \<not> bit x m)"

lemma lowest_set_ex: "x \<noteq> 0 \<Longrightarrow> \<exists>n<32. lowest_set x n"
proof -
  assume "x \<noteq> 0"
  then obtain k where "bit x k" by (auto simp: word_nonzero_bit)
  then have "lowest_set x (LEAST n. bit x n)"
    unfolding lowest_set_def by (metis LeastI not_less_Least)
  then show ?thesis using bit_imp_le_length unfolding lowest_set_def by fastforce
qed

lemma lowest_set_lt: "lowest_set x n \<Longrightarrow> n < 32"
  using bit_imp_le_length unfolding lowest_set_def by fastforce

lemma lowest_set_unique: "lowest_set x n \<Longrightarrow> lowest_set x m \<Longrightarrow> n = m"
  unfolding lowest_set_def by (metis linorder_neqE_nat)

lemma lowest_set_nonzero: "lowest_set x n \<Longrightarrow> x \<noteq> 0"
  by (auto simp: lowest_set_def)

lemma lowest_set_decomp:
  assumes "lowest_set x n"
  obtains y where "x = push_bit n y" "bit y 0"
proof
  have "k \<ge> n" if "bit x k" for k
    using assms that unfolding lowest_set_def by (metis not_le)
  then show "x = push_bit n (drop_bit n x)"
    by (intro word_bit_eqI32) (auto simp: bit_simps)
  show "bit (drop_bit n x) 0"
    using assms unfolding lowest_set_def by (simp add: bit_simps)
qed

lemma bit_minus_odd: "bit (y::u32) 0 \<Longrightarrow> bit (- y) k \<longleftrightarrow> k < 32 \<and> (k = 0 \<or> \<not> bit y k)"
proof -
  assume odd: "bit y 0"
  have "NOT y + 1 = NOT y OR 1"
    by (rule disjunctive_add_eq_or, rule word_bit_eqI32)
      (use odd in \<open>auto simp: bit_simps\<close>)
  then have "- y = NOT y OR 1" by (simp add: minus_eq_not_plus_1)
  then show ?thesis by (auto simp: bit_simps)
qed

lemma isolate_lowest_minus:
  assumes "lowest_set x n"
  shows "x AND - x = push_bit n 1"
proof -
  obtain y where x: "x = push_bit n y" and odd: "bit y 0"
    by (rule lowest_set_decomp [OF assms])
  have m: "- x = push_bit n (- y)" by (simp add: x push_bit_eq_mult)
  have "bit (push_bit n y AND push_bit n (- y)) k \<longleftrightarrow> bit (push_bit n 1 :: u32) k" for k
    unfolding bit_push_one using bit_minus_odd [OF odd, of "k - n"] odd
    by (auto simp: bit_and_iff bit_push_bit_iff)
  then show ?thesis unfolding m by (intro bit_word_eqI) (simp add: x)
qed

lemma isolate_lowest_xor:
  assumes "lowest_set x n"
  shows "(x AND (x - 1)) XOR x = push_bit n 1"
proof -
  have eq: "x - 1 = NOT (- x)" by (simp add: not_eq_complement)
  have "(x AND (x - 1)) XOR x = x AND - x"
    unfolding eq by (rule word_bit_eqI32) (auto simp: bit_and_iff bit_xor_iff bit_not_iff)
  then show ?thesis using isolate_lowest_minus [OF assms] by simp
qed

lemma clz_from_push_one: "k < n \<Longrightarrow> n \<le> 32 \<Longrightarrow> clz_from n (push_bit k 1) = n - 1 - k"
  by (induction n) (auto simp: bit_push_one less_Suc_eq simp del: push_bit_of_1)

lemma clz_from_le: "clz_from n x \<le> n"
  by (induction n) auto

lemma clz_from_top: "clz_from n x < n \<Longrightarrow> bit x (n - 1 - clz_from n x)"
  by (induction n) auto

lemma clz_from_above: "n - clz_from n x \<le> m \<Longrightarrow> m < n \<Longrightarrow> \<not> bit x m"
proof (induction n)
  case (Suc n)
  then show ?case using clz_from_le [of n x]
    by (cases "m = n") (auto split: if_splits)
qed simp

lemma clz_from_full: "clz_from n x = n \<longleftrightarrow> (\<forall>m<n. \<not> bit x m)"
proof (induction n)
  case (Suc n)
  have "clz_from n x \<noteq> Suc n" using clz_from_le [of n x] by simp
  with Suc show ?case by (auto simp: less_Suc_eq)
qed simp

section \<open>Properties\<close>

text \<open>Counting trailing zeros with the isolate-lowest-bit trick: on a nonzero word the result is
  the index of the lowest set bit, and 32 on zero.\<close>

lemma nu_ctz_correct: "nu_ctz x = (if x = 0 then 32 else (LEAST n. bit x n))"
proof (cases "x = 0")
  case False
  then obtain n where n: "lowest_set x n" "n < 32" using lowest_set_ex by blast
  then have "(LEAST n. bit x n) = n"
    unfolding lowest_set_def by (intro Least_equality) (auto simp: not_le [symmetric])
  then show ?thesis
    using n False isolate_lowest_minus [OF n(1)] clz_from_push_one [of n 32]
    by (simp add: nu_ctz_def CLZ_def del: push_bit_of_1)
qed (simp add: nu_ctz_def)

lemma rt_ffs_0: "rt_ffs 0 = 0"
proof -
  have "find (bit (0::u32)) [0..<32] = None" by (subst find_None_iff) simp
  then show ?thesis by (simp add: rt_ffs_def)
qed

lemma rt_ffs_lowest:
  assumes "lowest_set x n"
  shows "rt_ffs x = Suc n"
proof -
  have "n < 32" by (rule lowest_set_lt [OF assms])
  then have "find (bit x) [0..<32] = Some n"
    using assms unfolding lowest_set_def find_Some_iff by (intro exI [of _ n]) auto
  then show ?thesis by (simp add: rt_ffs_def)
qed

lemma rt_ffs_eq_0: "rt_ffs x = 0 \<longleftrightarrow> x = 0"
  using lowest_set_ex [of x] rt_ffs_lowest [of x] rt_ffs_0 by (cases "x = 0") auto

lemma rt_ffs_SucD: "rt_ffs x = Suc n \<Longrightarrow> lowest_set x n"
  using lowest_set_ex [of x] rt_ffs_lowest [of x] rt_ffs_0 by (cases "x = 0") auto

section \<open>The three find-first-set routines\<close>

lemma bitmap37_ok:
  "list_all (\<lambda>n. lowest_bit_bitmap37 ! unat (push_bit n (1::u32) mod 37) = Suc n) [0..<32]"
  by code_simp

lemma bitmap256_ok:
  "list_all (\<lambda>k. rt_ffs (word_of_nat k) = lowest_bit_bitmap256 ! k + 1) [1..<256]"
  by code_simp

lemma bitmap256_lowest:
  assumes "take_bit 8 x \<noteq> 0"
  shows "lowest_set (take_bit 8 x) (lowest_bit_bitmap256 ! unat (take_bit 8 x))"
proof -
  let ?k = "unat (take_bit 8 x)"
  have "?k = take_bit 8 (unat x)" by (simp add: unsigned_take_bit_eq)
  then have "?k < 256" using take_bit_nat_less_exp [of 8 "unat x"] by simp
  moreover have "?k \<noteq> 0" using assms by (simp add: unat_eq_0)
  ultimately have "?k \<in> set [1..<256]" by simp
  with bitmap256_ok have "rt_ffs (word_of_nat ?k) = lowest_bit_bitmap256 ! ?k + 1"
    unfolding list_all_iff by (rule bspec)
  then show ?thesis using rt_ffs_SucD [of "take_bit 8 x"] by simp
qed

lemma lowest_set_shift:
  assumes "take_bit s x = 0" "lowest_set (take_bit 8 (drop_bit s x)) m"
  shows "lowest_set x (m + s)"
proof -
  have low: "\<not> bit x k" if "k < s" for k
    using assms(1) that by (metis bit_0_eq bit_take_bit_iff bot_apply bot_bool_def)
  have "m < 8" "bit x (m + s)"
    using assms(2) by (auto simp: lowest_set_def bit_simps add.commute)
  moreover have "\<not> bit x k" if "k < m + s" for k
  proof (cases "k < s")
    case False
    then have "k - s < m" using that by linarith
    then show ?thesis
      using assms(2) \<open>m < 8\<close> False by (force simp: lowest_set_def bit_simps)
  qed (rule low)
  ultimately show ?thesis by (simp add: lowest_set_def)
qed

lemma take_bit_byte_step:
  "take_bit s (x::u32) = 0 \<Longrightarrow> take_bit 8 (drop_bit s x) = 0 \<Longrightarrow> take_bit (s + 8) x = 0"
proof (rule word_bit_eqI32)
  fix k assume z: "take_bit s x = 0" "take_bit 8 (drop_bit s x) = 0"
  have "\<not> bit x k" if "k < s + 8"
  proof (cases "k < s")
    case True
    then show ?thesis using z(1) by (metis bit_0_eq bit_take_bit_iff bot_apply bot_bool_def)
  next
    case False
    then have "\<not> bit (take_bit 8 (drop_bit s x)) (k - s)" using z(2) by simp
    then show ?thesis using False that by (auto simp: bit_simps)
  qed
  then show "bit (take_bit (s + 8) x) k = bit 0 k" by (auto simp: bit_simps)
qed

lemma byte_masks:
  fixes x :: u32
  shows "x AND 0xff = take_bit 8 x"
    "drop_bit 8 (x AND 0xff00) = take_bit 8 (drop_bit 8 x)"
    "drop_bit 16 (x AND 0xff0000) = take_bit 8 (drop_bit 16 x)"
    "drop_bit 24 (x AND 0xff000000) = take_bit 8 (drop_bit 24 x)"
    "x AND 0xff00 \<noteq> 0 \<longleftrightarrow> take_bit 8 (drop_bit 8 x) \<noteq> 0"
    "x AND 0xff0000 \<noteq> 0 \<longleftrightarrow> take_bit 8 (drop_bit 16 x) \<noteq> 0"
proof -
  have m: "(0xff::u32) = mask 8" "(0xff00::u32) = push_bit 8 (mask 8)"
    "(0xff0000::u32) = push_bit 16 (mask 8)" "(0xff000000::u32) = push_bit 24 (mask 8)"
    by (simp_all add: mask_eq_exp_minus_1)
  show "x AND 0xff = take_bit 8 x" by (simp add: m take_bit_eq_mask)
  show b8: "drop_bit 8 (x AND 0xff00) = take_bit 8 (drop_bit 8 x)"
    and b16: "drop_bit 16 (x AND 0xff0000) = take_bit 8 (drop_bit 16 x)"
    and "drop_bit 24 (x AND 0xff000000) = take_bit 8 (drop_bit 24 x)"
    unfolding m by (rule word_bit_eqI32; auto simp: bit_simps)+
  have p8: "x AND 0xff00 = push_bit 8 (take_bit 8 (drop_bit 8 x))"
    and p16: "x AND 0xff0000 = push_bit 16 (take_bit 8 (drop_bit 16 x))"
    unfolding m by (rule word_bit_eqI32; auto simp: bit_simps)+
  show "x AND 0xff00 \<noteq> 0 \<longleftrightarrow> take_bit 8 (drop_bit 8 x) \<noteq> 0"
    using b8 p8 by (metis drop_bit_of_0 push_bit_of_0)
  show "x AND 0xff0000 \<noteq> 0 \<longleftrightarrow> take_bit 8 (drop_bit 16 x) \<noteq> 0"
    using b16 p16 by (metis drop_bit_of_0 push_bit_of_0)
qed

lemma rt_ffs_table_lowest:
  assumes "x \<noteq> 0"
  shows "\<exists>n. lowest_set x n \<and> rt_ffs_table x = Suc n"
proof -
  let ?b = "\<lambda>s. take_bit 8 (drop_bit s x)"
  have eight: "take_bit 8 x = ?b 0" by simp
  consider (0) "?b 0 \<noteq> 0" | (1) "?b 0 = 0" "?b 8 \<noteq> 0"
    | (2) "?b 0 = 0" "?b 8 = 0" "?b 16 \<noteq> 0" | (3) "?b 0 = 0" "?b 8 = 0" "?b 16 = 0" by blast
  then show ?thesis
  proof cases
    case 0
    then show ?thesis using assms lowest_set_shift [OF _ bitmap256_lowest, of 0 x]
      unfolding rt_ffs_table_def byte_masks by (auto simp: add.commute)
  next
    case 1
    then show ?thesis
      using assms lowest_set_shift [OF _ bitmap256_lowest, of 8 x]
      unfolding rt_ffs_table_def byte_masks by (auto simp: add.commute)
  next
    case 2
    then have "take_bit 16 x = 0" using take_bit_byte_step [of 8 x] by simp
    with 2 show ?thesis
      using assms lowest_set_shift [OF _ bitmap256_lowest, of 16 x]
      unfolding rt_ffs_table_def byte_masks by (auto simp: add.commute)
  next
    case 3
    then have "take_bit 16 x = 0" using take_bit_byte_step [of 8 x] by simp
    with 3 have z: "take_bit 24 x = 0" using take_bit_byte_step [of 16 x] by simp
    have "?b 24 \<noteq> 0"
    proof
      assume "?b 24 = 0"
      with z have "take_bit 32 x = 0" using take_bit_byte_step [of 24 x] by simp
      then show False using assms by (simp add: take_bit_word_eq_self)
    qed
    with 3 z show ?thesis
      using assms lowest_set_shift [OF _ bitmap256_lowest, of 24 x]
      unfolding rt_ffs_table_def byte_masks by (auto simp: add.commute)
  qed
qed

text \<open>C27: the two table-driven find-first-set routines of \<^verbatim>\<open>kservice.c\<close> (the
  37-entry remainder table and the 256-entry byte table) return, on every 32-bit word, what
  the routine this BSP builds returns.\<close>

theorem rt_ffs_variants_agree: "rt_ffs_tiny x = rt_ffs x \<and> rt_ffs_table x = rt_ffs x"
proof (cases "x = 0")
  case True
  then show ?thesis
    by (simp add: rt_ffs_0 rt_ffs_tiny_def rt_ffs_table_def lowest_bit_bitmap37_def)
next
  case False
  then obtain n where n: "lowest_set x n" "n < 32" using lowest_set_ex by blast
  have "rt_ffs_tiny x = Suc n"
    using bitmap37_ok n by (simp add: rt_ffs_tiny_def isolate_lowest_xor list_all_iff)
  moreover have "rt_ffs_table x = Suc n"
    using rt_ffs_table_lowest [OF False] lowest_set_unique [OF n(1)] by auto
  ultimately show ?thesis by (simp add: rt_ffs_lowest [OF n(1)])
qed

section \<open>Byte order round trips\<close>

lemma bit_u8D: "bit (b::u8) n \<Longrightarrow> n < 8"
  using bit_imp_le_length [of b n] by simp

lemma low_byte: "ucast (w AND 0xFF) = (ucast w :: u8)" for w :: u32
  unfolding byte_masks(1) by (rule bit_word_eqI) (auto simp: bit_simps)

lemma low_byte16: "ucast (w AND 0xFF) = (ucast w :: u8)" for w :: u16
proof -
  have "w AND 0xFF = take_bit 8 w" by (simp add: take_bit_eq_mask mask_eq_exp_minus_1)
  then show ?thesis by (simp only:) (rule bit_word_eqI, auto simp: bit_simps)
qed

lemma byte_sum32:
  fixes a b c d :: u8
  shows "(ucast a :: u32) + push_bit 8 (ucast b) + push_bit 16 (ucast c) + push_bit 24 (ucast d)
    = ucast a OR push_bit 8 (ucast b) OR push_bit 16 (ucast c) OR push_bit 24 (ucast d)"
proof -
  have 1: "(ucast a :: u32) + push_bit 8 (ucast b) = ucast a OR push_bit 8 (ucast b)"
    by (rule disjunctive_add_eq_or, rule word_bit_eqI32) (auto simp: bit_simps dest: bit_u8D)
  have 2: "(ucast a OR push_bit 8 (ucast b)) + push_bit 16 (ucast c) =
    (ucast a OR push_bit 8 (ucast b)) OR (push_bit 16 (ucast c) :: u32)"
    by (rule disjunctive_add_eq_or, rule word_bit_eqI32) (auto simp: bit_simps dest: bit_u8D)
  have 3: "(ucast a OR push_bit 8 (ucast b) OR push_bit 16 (ucast c)) + push_bit 24 (ucast d) =
    (ucast a OR push_bit 8 (ucast b) OR push_bit 16 (ucast c)) OR (push_bit 24 (ucast d) :: u32)"
    by (rule disjunctive_add_eq_or, rule word_bit_eqI32) (auto simp: bit_simps dest: bit_u8D)
  show ?thesis by (simp add: 1 2 3 or.assoc)
qed

lemma byte_sum32_swap:
  fixes a b c d :: u8
  shows "push_bit 8 (push_bit 8 (push_bit 8 (ucast a) + ucast b) + ucast c) + (ucast d :: u32)
    = ucast d + push_bit 8 (ucast c) + push_bit 16 (ucast b) + push_bit 24 (ucast a)"
  by (simp add: push_bit_add ac_simps)

lemma nu_get32_be_le: "4 \<le> length pos \<Longrightarrow> nu_get32_be pos = nu_get32_le (rev (take 4 pos))"
  unfolding nu_get32_be_def nu_get32_le_def byte_sum32_swap by (simp add: rev_nth)

lemma get32_le_bits:
  "nu_get32_le pos = ucast (pos ! 0) OR push_bit 8 (ucast (pos ! 1))
     OR push_bit 16 (ucast (pos ! 2)) OR push_bit 24 (ucast (pos ! 3))"
  by (simp add: nu_get32_le_def byte_sum32)

lemma get24_le_get32: "length pos \<ge> 3 \<Longrightarrow> nu_get24_le pos = nu_get32_le (take 3 pos @ [0])"
  by (simp add: nu_get32_le_def nu_get24_le_def nth_append)

lemma get24_be_get32: "length pos \<ge> 3 \<Longrightarrow> nu_get24_be pos = nu_get32_be (0 # take 3 pos)"
  by (simp add: nu_get32_be_def nu_get24_be_def numeral_2_eq_2 numeral_3_eq_3)

lemma get16_bits:
  "nu_get16_le pos = ucast (pos ! 0) OR push_bit 8 (ucast (pos ! 1))"
  "nu_get16_be pos = nu_get16_le [pos ! 1, pos ! 0]"
proof -
  have *: "(ucast a :: u16) + push_bit 8 (ucast b) = ucast a OR push_bit 8 (ucast b)" for a b :: u8
    by (rule disjunctive_add_eq_or, rule bit_word_eqI) (auto simp: bit_simps dest: bit_u8D)
  show "nu_get16_le pos = ucast (pos ! 0) OR push_bit 8 (ucast (pos ! 1))"
    unfolding nu_get16_le_def by (rule *)
  show "nu_get16_be pos = nu_get16_le [pos ! 1, pos ! 0]"
    by (simp add: nu_get16_be_def nu_get16_le_def add.commute)
qed

text \<open>The array cells the setters write, read back one by one.\<close>

lemmas set_defs = nu_set16_le_def nu_set24_le_def nu_set32_le_def
  nu_set16_be_def nu_set24_be_def nu_set32_be_def

lemma length_set:
  "length (nu_set16_le pos h) = length pos" "length (nu_set16_be pos h) = length pos"
  "length (nu_set24_le pos v) = length pos" "length (nu_set24_be pos v) = length pos"
  "length (nu_set32_le pos v) = length pos" "length (nu_set32_be pos v) = length pos"
  by (simp_all add: set_defs)

lemma drop_set:
  "2 \<le> n \<Longrightarrow> drop n (nu_set16_le pos h) = drop n pos" "2 \<le> n \<Longrightarrow> drop n (nu_set16_be pos h) = drop n pos"
  "3 \<le> n \<Longrightarrow> drop n (nu_set24_le pos v) = drop n pos" "3 \<le> n \<Longrightarrow> drop n (nu_set24_be pos v) = drop n pos"
  "4 \<le> n \<Longrightarrow> drop n (nu_set32_le pos v) = drop n pos" "4 \<le> n \<Longrightarrow> drop n (nu_set32_be pos v) = drop n pos"
  by (simp_all add: set_defs)

lemma nu_pos4_cases:
  obtains "length pos < 3" | a b c where "pos = [a, b, c]" | a b c d xs where "pos = a # b # c # d # xs"
proof (cases pos)
  case (Cons a p1)
  then show ?thesis using that
    by (cases p1; cases "tl p1"; cases "tl (tl p1)") auto
qed (use that in auto)

lemma set32_le_cells:
  assumes "4 \<le> length pos" "i < 4"
  shows "nu_set32_le pos v ! i = ucast (drop_bit (8 * i) v)"
proof -
  have "i = 0 \<or> i = 1 \<or> i = 2 \<or> i = 3" "pos \<noteq> []" using assms by auto
  then show ?thesis using assms(1) by (auto simp: nu_set32_le_def low_byte)
qed

lemma set24_le_cells:
  assumes "3 \<le> length pos" "i < 3"
  shows "nu_set24_le pos v ! i = ucast (drop_bit (8 * i) v)"
proof -
  have "i = 0 \<or> i = 1 \<or> i = 2" "pos \<noteq> []" using assms by auto
  then show ?thesis using assms(1) by (auto simp: nu_set24_le_def low_byte)
qed

lemma set32_be_rev: "4 \<le> length pos \<Longrightarrow>
  rev (take 4 (nu_set32_be pos v)) = take 4 (nu_set32_le pos v)"
  unfolding nu_set32_be_def nu_set32_le_def
  by (cases pos rule: nu_pos4_cases) (simp_all add: low_byte)

lemma join32: "(ucast (ucast v :: u8) :: u32) OR push_bit 8 (ucast (ucast (drop_bit 8 v) :: u8))
    OR push_bit 16 (ucast (ucast (drop_bit 16 v) :: u8))
    OR push_bit 24 (ucast (ucast (drop_bit 24 v) :: u8)) = v" (is "?l = v")
proof (rule word_bit_eqI32)
  fix n :: nat assume "n < 32"
  then consider "n < 8" | "8 \<le> n" "n < 16" | "16 \<le> n" "n < 24" | "24 \<le> n" "n < 32" by linarith
  then show "bit ?l n = bit v n" by cases (auto simp: bit_simps)
qed

lemma get_set32_le: "4 \<le> length pos \<Longrightarrow> nu_get32_le (nu_set32_le pos v) = v"
  by (simp add: get32_le_bits set32_le_cells join32)

lemma get32_le_take: "4 \<le> length pos \<Longrightarrow> nu_get32_le (take 4 pos) = nu_get32_le pos"
  by (simp add: nu_get32_le_def)

lemma get_set32_be: "4 \<le> length pos \<Longrightarrow> nu_get32_be (nu_set32_be pos v) = v"
  by (simp add: nu_get32_be_le set32_be_rev get32_le_take get_set32_le length_set)

lemma get_set16:
  assumes "2 \<le> length pos"
  shows "nu_get16_le (nu_set16_le pos h) = h" "nu_get16_be (nu_set16_be pos h) = h"
proof -
  have "pos \<noteq> []" using assms by auto
  then have cells: "nu_set16_le pos h ! 0 = ucast h" "nu_set16_le pos h ! 1 = ucast (drop_bit 8 h)"
    "nu_set16_be pos h ! 1 = ucast h" "nu_set16_be pos h ! 0 = ucast (drop_bit 8 h)"
    using assms by (simp_all add: nu_set16_le_def nu_set16_be_def low_byte16)
  have "(ucast (ucast h :: u8) :: u16) OR push_bit 8 (ucast (ucast (drop_bit 8 h) :: u8)) = h"
    by (rule bit_word_eqI) (auto simp: bit_simps)
  then show "nu_get16_le (nu_set16_le pos h) = h" "nu_get16_be (nu_set16_be pos h) = h"
    unfolding get16_bits using cells by simp_all
qed

lemma get_set24:
  assumes "3 \<le> length pos" "v < 2 ^ 24"
  shows "nu_get24_le (nu_set24_le pos v) = v" "nu_get24_be (nu_set24_be pos v) = v"
proof -
  have "unat v < 2 ^ 24" using assms(2) by (simp add: word_less_nat_alt)
  then have low: "take_bit 24 v = v"
    by (simp add: word_unat_eq_iff unsigned_take_bit_eq take_bit_nat_eq_self)
  have "(ucast (drop_bit 24 (take_bit 24 v)) :: u8) = 0"
    by (rule bit_word_eqI) (auto simp: bit_simps)
  then have z: "ucast (drop_bit 24 v) = (0 :: u8)" by (simp only: low)
  show le: "nu_get24_le (nu_set24_le pos v) = v"
    using assms(1) z join32 [of v]
    by (simp add: get24_le_get32 get32_le_bits nth_append set24_le_cells length_set)
  have "rev (take 3 (nu_set24_be pos v)) = take 3 (nu_set24_le pos v)"
    using assms(1) unfolding nu_set24_be_def nu_set24_le_def
    by (cases pos rule: nu_pos4_cases) (simp_all add: low_byte)
  then show "nu_get24_be (nu_set24_be pos v) = v"
    using assms(1) le
    by (simp add: get24_be_get32 get24_le_get32 nu_get32_be_le length_set)
qed

text \<open>C29: what the byte-order setters write, the getters read back, in both byte orders, for
  every 16-bit, 24-bit and 32-bit value, and no byte past the field is touched.\<close>

theorem byte_order_roundtrip:
  assumes "4 \<le> length pos"
  shows "nu_get16_le (nu_set16_le pos h) = h \<and> nu_get16_be (nu_set16_be pos h) = h
    \<and> (t < 2 ^ 24 \<longrightarrow> nu_get24_le (nu_set24_le pos t) = t \<and> nu_get24_be (nu_set24_be pos t) = t)
    \<and> nu_get32_le (nu_set32_le pos v) = v \<and> nu_get32_be (nu_set32_be pos v) = v
    \<and> drop 4 (nu_set32_le pos v) = drop 4 pos \<and> drop 4 (nu_set32_be pos v) = drop 4 pos
    \<and> drop 3 (nu_set24_le pos t) = drop 3 pos \<and> drop 3 (nu_set24_be pos t) = drop 3 pos
    \<and> drop 2 (nu_set16_le pos h) = drop 2 pos \<and> drop 2 (nu_set16_be pos h) = drop 2 pos"
  using assms by (simp add: get_set16 get_set24 get_set32_le get_set32_be drop_set)

theorem byte_order_roundtrip_witness:
  "nu_get32_be (nu_set32_be [1, 2, 3, 4, 5] 0xA1B2C3D4) = 0xA1B2C3D4
   \<and> nu_get24_le (nu_set24_le [1, 2, 3, 4, 5] 0xB2C3D4) = 0xB2C3D4"
  using byte_order_roundtrip [of "[1, 2, 3, 4, 5]" 0 "0xB2C3D4" "0xA1B2C3D4"] by simp

end
