(* ===== verification/KState.thy ===== *)
theory KState
  imports BitUtil
begin

text \<open>
  The state of the RT-Thread kernel as \<^verbatim>\<open>rt-thread/include/rtdef.h\<close> declares it, on the
  single-core configuration of \<^verbatim>\<open>src/rtconfig.h\<close> (32 priorities, one timer list).  A kernel
  object is named by an identifier instead of an address; an identifier always stands for a non-NULL
  pointer.  Every list that links a thread through \<^verbatim>\<open>thread->tlist\<close> (the ready
  queues, the suspend lists of the IPC objects, the defunct list) is one entry of
  \<open>queues\<close>: the threads in the order of the doubly linked nodes of
  \<^verbatim>\<open>rtservice.h\<close>.
\<close>

section \<open>Identifiers\<close>

type_synonym tid = nat

text \<open>A timer is embedded in a thread or a user object.  The last three kinds of identifier are not
  registered objects but structures of the device drivers on which threads wait.\<close>

datatype timid = TThread tid | TUser nat

datatype oid = OThread tid | OSem nat | OMutex nat | OEvent nat | OMailBox nat | OMsgQueue nat
  | OMemPool nat | OMemory nat | OTimer timid | ODevice nat
  | ODataQueue nat | OCompletion nat | OWaitQueue nat

datatype qid = QReady nat | QSuspend oid | QSender oid | QDefunct

text \<open>Timer callbacks: \<^verbatim>\<open>_thread_timeout\<close> with its thread as parameter, or
  a function of the application.\<close>

datatype tfun = F_thread_timeout tid | F_user nat

section \<open>Structures\<close>

record object =
  obj_name :: "u8 list"
  obj_type :: u8
  obj_flag :: u8

record timer =
  timeout_func :: tfun
  timer_init_tick :: u32
  timeout_tick :: u32

record thread =
  stat :: u8
  current_priority :: nat
  init_priority :: nat
  number_mask :: u32
  error :: int
  taken_object_list :: "nat list"
  pending_object :: "nat option"
  event_set :: u32
  event_info :: u8
  init_tick :: u32
  remaining_tick :: u32

record mutex =
  ceiling_priority :: nat
  mutex_priority :: nat
  hold :: nat
  owner :: "tid option"

record mailbox =
  mb_pool :: "u32 list"
  mb_size :: nat
  mb_entry :: nat
  in_offset :: nat
  out_offset :: nat

text \<open>A message queue's pool is an array of nodes, linked by \<^verbatim>\<open>next\<close>; a node is
  named by its index, NULL is None.\<close>

record mq_node =
  mq_next :: "nat option"
  mq_data :: "u8 list"

record msgqueue =
  mq_pool :: "mq_node list"
  msg_size :: nat
  max_msgs :: nat
  mq_entry :: nat
  msg_queue_head :: "nat option"
  msg_queue_tail :: "nat option"
  msg_queue_free :: "nat option"

record kernel =
  objs :: "oid \<Rightarrow> object"
  containers :: "u8 \<Rightarrow> oid list"
  threads :: "tid \<Rightarrow> thread"
  timers :: "timid \<Rightarrow> timer"
  timer_list :: "timid list"
  timer_tmp :: "timid list"
  queues :: "qid \<Rightarrow> tid list"
  ready_group :: u32
  cur :: "tid option"
  cur_prio :: nat
  lock_nest :: int
  irq_nest :: nat
  tick :: u32
  sems :: "nat \<Rightarrow> u16"
  mutexes :: "nat \<Rightarrow> mutex"
  events :: "nat \<Rightarrow> u32"
  mboxes :: "nat \<Rightarrow> mailbox"
  mqs :: "nat \<Rightarrow> msgqueue"
  rt_errno :: int

section \<open>Constants\<close>

abbreviation (input) RT_THREAD_PRIORITY_MAX :: nat where "RT_THREAD_PRIORITY_MAX \<equiv> 32"
abbreviation (input) RT_NAME_MAX :: nat where "RT_NAME_MAX \<equiv> 8"

text \<open>\<^verbatim>\<open>RT_TICK_MAX / 2\<close>, the horizon of the wrap-aware tick comparisons.\<close>

abbreviation (input) RT_TICK_HALF :: u32 where "RT_TICK_HALF \<equiv> 0x7fffffff"

abbreviation (input) RT_Object_Class_Thread :: u8 where "RT_Object_Class_Thread \<equiv> 0x01"
abbreviation (input) RT_Object_Class_Semaphore :: u8 where "RT_Object_Class_Semaphore \<equiv> 0x02"
abbreviation (input) RT_Object_Class_Mutex :: u8 where "RT_Object_Class_Mutex \<equiv> 0x03"
abbreviation (input) RT_Object_Class_Event :: u8 where "RT_Object_Class_Event \<equiv> 0x04"
abbreviation (input) RT_Object_Class_MailBox :: u8 where "RT_Object_Class_MailBox \<equiv> 0x05"
abbreviation (input) RT_Object_Class_MessageQueue :: u8 where "RT_Object_Class_MessageQueue \<equiv> 0x06"
abbreviation (input) RT_Object_Class_MemPool :: u8 where "RT_Object_Class_MemPool \<equiv> 0x08"
abbreviation (input) RT_Object_Class_Device :: u8 where "RT_Object_Class_Device \<equiv> 0x09"
abbreviation (input) RT_Object_Class_Timer :: u8 where "RT_Object_Class_Timer \<equiv> 0x0a"
abbreviation (input) RT_Object_Class_Memory :: u8 where "RT_Object_Class_Memory \<equiv> 0x0c"
abbreviation (input) RT_Object_Class_Static :: u8 where "RT_Object_Class_Static \<equiv> 0x80"

abbreviation (input) RT_THREAD_INIT :: u8 where "RT_THREAD_INIT \<equiv> 0x00"
abbreviation (input) RT_THREAD_READY :: u8 where "RT_THREAD_READY \<equiv> 0x01"
abbreviation (input) RT_THREAD_SUSPEND :: u8 where "RT_THREAD_SUSPEND \<equiv> 0x02"
abbreviation (input) RT_THREAD_RUNNING :: u8 where "RT_THREAD_RUNNING \<equiv> 0x03"
abbreviation (input) RT_THREAD_CLOSE :: u8 where "RT_THREAD_CLOSE \<equiv> 0x04"
abbreviation (input) RT_THREAD_STAT_YIELD :: u8 where "RT_THREAD_STAT_YIELD \<equiv> 0x08"

abbreviation (input) RT_TIMER_FLAG_ACTIVATED :: u8 where "RT_TIMER_FLAG_ACTIVATED \<equiv> 0x1"
abbreviation (input) RT_TIMER_FLAG_PERIODIC :: u8 where "RT_TIMER_FLAG_PERIODIC \<equiv> 0x2"

abbreviation (input) RT_IPC_FLAG_FIFO :: u8 where "RT_IPC_FLAG_FIFO \<equiv> 0x00"
abbreviation (input) RT_IPC_FLAG_PRIO :: u8 where "RT_IPC_FLAG_PRIO \<equiv> 0x01"

section \<open>Field updates\<close>

definition upd_thread :: "tid \<Rightarrow> (thread \<Rightarrow> thread) \<Rightarrow> kernel \<Rightarrow> kernel" where
  "upd_thread t f s = s\<lparr>threads := (threads s)(t := f (threads s t))\<rparr>"

definition upd_obj :: "oid \<Rightarrow> (object \<Rightarrow> object) \<Rightarrow> kernel \<Rightarrow> kernel" where
  "upd_obj i f s = s\<lparr>objs := (objs s)(i := f (objs s i))\<rparr>"

definition upd_timer :: "timid \<Rightarrow> (timer \<Rightarrow> timer) \<Rightarrow> kernel \<Rightarrow> kernel" where
  "upd_timer m f s = s\<lparr>timers := (timers s)(m := f (timers s m))\<rparr>"

definition upd_mutex :: "nat \<Rightarrow> (mutex \<Rightarrow> mutex) \<Rightarrow> kernel \<Rightarrow> kernel" where
  "upd_mutex m f s = s\<lparr>mutexes := (mutexes s)(m := f (mutexes s m))\<rparr>"

definition upd_mbox :: "nat \<Rightarrow> (mailbox \<Rightarrow> mailbox) \<Rightarrow> kernel \<Rightarrow> kernel" where
  "upd_mbox m f s = s\<lparr>mboxes := (mboxes s)(m := f (mboxes s m))\<rparr>"

definition upd_mq :: "nat \<Rightarrow> (msgqueue \<Rightarrow> msgqueue) \<Rightarrow> kernel \<Rightarrow> kernel" where
  "upd_mq m f s = s\<lparr>mqs := (mqs s)(m := f (mqs s m))\<rparr>"

definition upd_queue :: "qid \<Rightarrow> (tid list \<Rightarrow> tid list) \<Rightarrow> kernel \<Rightarrow> kernel" where
  "upd_queue q f s = s\<lparr>queues := (queues s)(q := f (queues s q))\<rparr>"

text \<open>\<^verbatim>\<open>rt_list_remove(&thread->tlist)\<close>: the node leaves whatever list it is in and
  is linked to itself; on a node in no list it does nothing.\<close>

definition list_remove_thread :: "tid \<Rightarrow> kernel \<Rightarrow> kernel" where
  "list_remove_thread t s = s\<lparr>queues := \<lambda>q. remove1 t (queues s q)\<rparr>"

lemmas upd_defs [kdefs] = upd_thread_def upd_obj_def upd_timer_def upd_mutex_def upd_mbox_def
  upd_mq_def upd_queue_def list_remove_thread_def

section \<open>The thread status byte\<close>

text \<open>\<^verbatim>\<open>stat & RT_THREAD_STAT_MASK\<close> and
  \<^verbatim>\<open>v | (stat & ~RT_THREAD_STAT_MASK)\<close>.\<close>

definition stat_get :: "u8 \<Rightarrow> u8" where
  "stat_get x = x AND 0x07"

definition stat_put :: "u8 \<Rightarrow> u8 \<Rightarrow> u8" where
  "stat_put v x = v OR (x AND NOT 0x07)"

text \<open>\<^verbatim>\<open>stat &= ~RT_THREAD_STAT_YIELD_MASK\<close>.\<close>

definition stat_clear_yield :: "u8 \<Rightarrow> u8" where
  "stat_clear_yield x = x AND NOT RT_THREAD_STAT_YIELD"

abbreviation tstat :: "kernel \<Rightarrow> tid \<Rightarrow> u8" where
  "tstat s t \<equiv> stat_get (stat (threads s t))"

abbreviation tprio :: "kernel \<Rightarrow> tid \<Rightarrow> nat" where
  "tprio s t \<equiv> current_priority (threads s t)"

lemma stat_get_put: "stat_get (stat_put v x) = v AND 0x07"
  by (simp add: stat_get_def stat_put_def, rule bit_word_eqI, auto simp: bit_simps)

lemma stat_get_put_simps [simp]:
  "stat_get (stat_put RT_THREAD_READY x) = RT_THREAD_READY"
  "stat_get (stat_put RT_THREAD_SUSPEND x) = RT_THREAD_SUSPEND"
  "stat_get (stat_put RT_THREAD_RUNNING x) = RT_THREAD_RUNNING"
  by (simp_all add: stat_get_put)

lemma stat_get_const [simp]:
  "stat_get RT_THREAD_INIT = RT_THREAD_INIT" "stat_get RT_THREAD_READY = RT_THREAD_READY"
  "stat_get RT_THREAD_SUSPEND = RT_THREAD_SUSPEND"
  "stat_get RT_THREAD_RUNNING = RT_THREAD_RUNNING" "stat_get RT_THREAD_CLOSE = RT_THREAD_CLOSE"
  by (simp_all add: stat_get_def)

lemma stat_get_clear_yield [simp]: "stat_get (stat_clear_yield x) = stat_get x"
proof -
  have "NOT (8::u8) AND 7 = 7" by simp
  then show ?thesis by (simp add: stat_get_def stat_clear_yield_def and.assoc)
qed

lemma stat_get_set_yield [simp]: "stat_get (x OR RT_THREAD_STAT_YIELD) = stat_get x"
proof -
  have "(x OR 8) AND 7 = (x AND 7) OR (8 AND 7)" by (rule bit.conj_disj_distrib2)
  then show ?thesis by (simp add: stat_get_def)
qed

lemma stat_put_yield [simp]:
  "stat_put RT_THREAD_READY x AND RT_THREAD_STAT_YIELD = x AND RT_THREAD_STAT_YIELD"
  "stat_put RT_THREAD_SUSPEND x AND RT_THREAD_STAT_YIELD = x AND RT_THREAD_STAT_YIELD"
  "stat_put RT_THREAD_RUNNING x AND RT_THREAD_STAT_YIELD = x AND RT_THREAD_STAT_YIELD"
  by (simp_all add: stat_put_def bit.conj_disj_distrib2 and.assoc)

lemma clear_yield_yield [simp]:
  "stat_clear_yield x AND RT_THREAD_STAT_YIELD = 0"
  by (simp add: stat_clear_yield_def and.assoc)

section \<open>Object types\<close>

definition rt_object_get_type :: "oid \<Rightarrow> kernel \<Rightarrow> u8" where
  "rt_object_get_type i s = obj_type (objs s i) AND NOT RT_Object_Class_Static"

definition rt_object_is_systemobject :: "oid \<Rightarrow> kernel \<Rightarrow> bool" where
  "rt_object_is_systemobject i s \<longleftrightarrow> obj_type (objs s i) AND RT_Object_Class_Static \<noteq> 0"

section \<open>Context checks\<close>

definition RT_DEBUG_NOT_IN_INTERRUPT :: "kernel \<Rightarrow> bool" where
  "RT_DEBUG_NOT_IN_INTERRUPT s \<longleftrightarrow> irq_nest s = 0"

definition RT_DEBUG_IN_THREAD_CONTEXT :: "kernel \<Rightarrow> bool" where
  "RT_DEBUG_IN_THREAD_CONTEXT s \<longleftrightarrow> cur s \<noteq> None \<and> RT_DEBUG_NOT_IN_INTERRUPT s"

definition RT_DEBUG_SCHEDULER_AVAILABLE :: "bool \<Rightarrow> kernel \<Rightarrow> bool" where
  "RT_DEBUG_SCHEDULER_AVAILABLE need_check s \<longleftrightarrow>
     (need_check \<longrightarrow> lock_nest s = 0 \<and> RT_DEBUG_IN_THREAD_CONTEXT s)"

end
