(* ===== verification/Sched.thy ===== *)
theory Sched
  imports KState
begin

text \<open>
  The priority scheduler, \<^verbatim>\<open>rt-thread/src/scheduler.c\<close> (the single-core branches).
  A context switch is the assignment to \<^verbatim>\<open>rt_current_thread\<close>; the signal check that
  runs when a thread is switched back in belongs to \<^verbatim>\<open>signal.c\<close>, which is not
  modelled.  The second half states the scheduler's invariant and proves that
  \<^verbatim>\<open>rt_schedule\<close> keeps it and leaves a highest-priority thread running.
\<close>

section \<open>Ready queues\<close>

text \<open>The index of the lowest set bit, and the head of that queue; with no bit set the index is
  -1 and with an empty queue the list head itself would be taken for a thread: both read outside the
  table's threads.\<close>

definition scheduler_get_highest_priority_thread :: "kernel \<Rightarrow> (tid \<times> nat) res" where
  "scheduler_get_highest_priority_thread s =
     (if rt_ffs (ready_group s) = 0 then Inl BadAccess
      else let highest_ready_priority = rt_ffs (ready_group s) - 1
        in case queues s (QReady highest_ready_priority) of
             [] \<Rightarrow> Inl BadAccess
           | t # _ \<Rightarrow> Inr (t, highest_ready_priority))"

definition rt_schedule_insert_thread :: "tid \<Rightarrow> kernel \<Rightarrow> kernel res" where
  "rt_schedule_insert_thread t s =
     (if cur s = Some t
      then Inr (upd_thread t (\<lambda>th. th\<lparr>stat := stat_put RT_THREAD_RUNNING (stat th)\<rparr>) s)
      else let s = upd_thread t (\<lambda>th. th\<lparr>stat := stat_put RT_THREAD_READY (stat th)\<rparr>) s;
               th = threads s t
        in if current_priority th \<ge> RT_THREAD_PRIORITY_MAX then Inl BadAccess
           else let s = (if stat th AND RT_THREAD_STAT_YIELD \<noteq> 0
                         then upd_queue (QReady (current_priority th)) (\<lambda>q. q @ [t]) s
                         else upd_queue (QReady (current_priority th)) (\<lambda>q. t # q) s)
             in Inr (s\<lparr>ready_group := ready_group s OR number_mask th\<rparr>))"

definition rt_schedule_remove_thread :: "tid \<Rightarrow> kernel \<Rightarrow> kernel res" where
  "rt_schedule_remove_thread t s =
     (let s = list_remove_thread t s;
          th = threads s t
      in if current_priority th \<ge> RT_THREAD_PRIORITY_MAX then Inl BadAccess
         else Inr (if queues s (QReady (current_priority th)) = []
                   then s\<lparr>ready_group := ready_group s AND NOT (number_mask th)\<rparr> else s))"

section \<open>Scheduling\<close>

definition rt_system_scheduler_init :: "kernel \<Rightarrow> kernel" where
  "rt_system_scheduler_init s = s\<lparr>lock_nest := 0,
     queues := (\<lambda>q. case q of
         QReady p \<Rightarrow> if p < RT_THREAD_PRIORITY_MAX then [] else queues s q | _ \<Rightarrow> queues s q),
     ready_group := 0\<rparr>"

definition rt_system_scheduler_start :: "kernel \<Rightarrow> kernel res" where
  "rt_system_scheduler_start s =
     bind_res (scheduler_get_highest_priority_thread s) (\<lambda>(to_thread, _).
     let s = s\<lparr>cur := Some to_thread\<rparr>
     in bind_res (rt_schedule_remove_thread to_thread s) (\<lambda>s.
        Inr (upd_thread to_thread (\<lambda>th. th\<lparr>stat := RT_THREAD_RUNNING\<rparr>) s)))"

text \<open>The choice between the running thread and the head of the highest ready queue: the thread
  to run, and whether the running thread has to be queued again.\<close>

definition schedule_choice :: "thread \<Rightarrow> tid \<Rightarrow> tid \<Rightarrow> nat \<Rightarrow> tid \<times> bool" where
  "schedule_choice cth c to_thread highest_ready_priority =
     (if stat_get (stat cth) = RT_THREAD_RUNNING then
        if current_priority cth < highest_ready_priority then (c, False)
        else if current_priority cth = highest_ready_priority
                \<and> stat cth AND RT_THREAD_STAT_YIELD = 0 then (c, False)
        else (to_thread, True)
      else (to_thread, False))"

definition rt_schedule :: "kernel \<Rightarrow> kernel res" where
  "rt_schedule s =
     (if lock_nest s = 0 \<and> ready_group s \<noteq> 0 then
        bind_res (scheduler_get_highest_priority_thread s) (\<lambda>(head, highest_ready_priority).
        case cur s of None \<Rightarrow> Inl NullDeref
        | Some c \<Rightarrow>
          let (to_thread, need_insert_from_thread) =
                schedule_choice (threads s c) c head highest_ready_priority;
              s = (if tstat s c = RT_THREAD_RUNNING
                   then upd_thread c (\<lambda>th. th\<lparr>stat := stat_clear_yield (stat th)\<rparr>) s
                   else s)
          in if to_thread \<noteq> c then
               let s = s\<lparr>cur_prio := highest_ready_priority, cur := Some to_thread\<rparr>
               in bind_res (if need_insert_from_thread then rt_schedule_insert_thread c s else Inr s)
                    (\<lambda>s. bind_res (rt_schedule_remove_thread to_thread s) (\<lambda>s.
                       Inr (upd_thread to_thread
                         (\<lambda>th. th\<lparr>stat := stat_put RT_THREAD_RUNNING (stat th)\<rparr>) s)))
             else
               bind_res (rt_schedule_remove_thread c s) (\<lambda>s.
                 Inr (upd_thread c (\<lambda>th. th\<lparr>stat := stat_put RT_THREAD_RUNNING (stat th)\<rparr>) s)))
      else Inr s)"

section \<open>Scheduler lock\<close>

definition rt_enter_critical :: "kernel \<Rightarrow> kernel" where
  "rt_enter_critical s = s\<lparr>lock_nest := lock_nest s + 1\<rparr>"

definition rt_exit_critical :: "kernel \<Rightarrow> kernel res" where
  "rt_exit_critical s =
     (let s = s\<lparr>lock_nest := lock_nest s - 1\<rparr>
      in if lock_nest s \<le> 0 then
           let s = s\<lparr>lock_nest := 0\<rparr>
           in if cur s \<noteq> None then rt_schedule s else Inr s
         else Inr s)"

definition rt_critical_level :: "kernel \<Rightarrow> int" where
  "rt_critical_level s = lock_nest s"

section \<open>The scheduler's invariant\<close>

text \<open>A thread is in at most one list, at one place in it.\<close>

definition queues_ok :: "kernel \<Rightarrow> bool" where
  "queues_ok s \<longleftrightarrow> (\<forall>q. distinct (queues s q)) \<and>
     (\<forall>q q' t. t \<in> set (queues s q) \<longrightarrow> t \<in> set (queues s q') \<longrightarrow> q = q')"

text \<open>The ready queues hold exactly the READY threads, each in the queue of its priority.\<close>

definition ready_ok :: "kernel \<Rightarrow> bool" where
  "ready_ok s \<longleftrightarrow> (\<forall>p t. t \<in> set (queues s (QReady p)) \<longleftrightarrow>
     tstat s t = RT_THREAD_READY \<and> tprio s t = p)"

text \<open>The bitmap has the bit of every nonempty queue, and no other.\<close>

definition bitmap_ok :: "kernel \<Rightarrow> bool" where
  "bitmap_ok s \<longleftrightarrow> (\<forall>p<32. bit (ready_group s) p \<longleftrightarrow> queues s (QReady p) \<noteq> [])"

definition wait_ok :: "kernel \<Rightarrow> bool" where
  "wait_ok s \<longleftrightarrow> (\<forall>i t. t \<in> set (queues s (QSuspend i)) \<or> t \<in> set (queues s (QSender i))
       \<longrightarrow> tstat s t = RT_THREAD_SUSPEND)
     \<and> (\<forall>t. t \<in> set (queues s QDefunct) \<longrightarrow> tstat s t = RT_THREAD_CLOSE)"

definition started :: "kernel \<Rightarrow> tid \<Rightarrow> bool" where
  "started s t \<longleftrightarrow> tstat s t \<in> {RT_THREAD_READY, RT_THREAD_SUSPEND, RT_THREAD_RUNNING}"

definition mask_ok :: "kernel \<Rightarrow> bool" where
  "mask_ok s \<longleftrightarrow> (\<forall>t. started s t \<longrightarrow>
     tprio s t < 32 \<and> number_mask (threads s t) = push_bit (tprio s t) 1)"

text \<open>Only the current thread is RUNNING, and it is never queued as READY.\<close>

definition cur_ok :: "kernel \<Rightarrow> bool" where
  "cur_ok s \<longleftrightarrow> (\<forall>t. tstat s t = RT_THREAD_RUNNING \<longrightarrow> cur s = Some t)
     \<and> (\<forall>c. cur s = Some c \<longrightarrow> tstat s c \<noteq> RT_THREAD_READY)"

definition sched_inv :: "kernel \<Rightarrow> bool" where
  "sched_inv s \<longleftrightarrow> queues_ok s \<and> ready_ok s \<and> bitmap_ok s \<and> wait_ok s \<and> mask_ok s \<and> cur_ok s"

section \<open>Loose threads\<close>

text \<open>Inside an operation a thread is for a while in no list although its status says otherwise.
  \<open>loose_inv X\<close> is the invariant with the threads of \<open>X\<close> exempt: they are in no
  list, and nothing is claimed of their status.\<close>

definition loose_inv :: "tid set \<Rightarrow> kernel \<Rightarrow> bool" where
  "loose_inv X s \<longleftrightarrow> queues_ok s \<and> bitmap_ok s
     \<and> (\<forall>t\<in>X. \<forall>q. t \<notin> set (queues s q))
     \<and> (\<forall>p t. t \<notin> X \<longrightarrow> (t \<in> set (queues s (QReady p)) \<longleftrightarrow>
          tstat s t = RT_THREAD_READY \<and> tprio s t = p))
     \<and> wait_ok s
     \<and> (\<forall>t. started s t \<or> t \<in> X \<longrightarrow>
          tprio s t < 32 \<and> number_mask (threads s t) = push_bit (tprio s t) 1)
     \<and> (\<forall>t. t \<notin> X \<longrightarrow> tstat s t = RT_THREAD_RUNNING \<longrightarrow> cur s = Some t)"

lemma loose_inv_empty:
  "sched_inv s \<longleftrightarrow> loose_inv {} s \<and> (\<forall>c. cur s = Some c \<longrightarrow> tstat s c \<noteq> RT_THREAD_READY)"
  by (auto simp: loose_inv_def sched_inv_def ready_ok_def mask_ok_def cur_ok_def)

definition sched_rm :: "tid \<Rightarrow> kernel \<Rightarrow> kernel" where
  "sched_rm t s =
     (let s = list_remove_thread t s
      in if queues s (QReady (tprio s t)) = []
         then s\<lparr>ready_group := ready_group s AND NOT (number_mask (threads s t))\<rparr> else s)"

lemma remove_thread_eq:
  "tprio s t < 32 \<Longrightarrow> rt_schedule_remove_thread t s = Inr (sched_rm t s)"
  by (simp add: rt_schedule_remove_thread_def sched_rm_def Let_def list_remove_thread_def)

definition sched_ins :: "tid \<Rightarrow> kernel \<Rightarrow> kernel" where
  "sched_ins t s =
     (let s = upd_thread t (\<lambda>th. th\<lparr>stat := stat_put RT_THREAD_READY (stat th)\<rparr>) s;
          th = threads s t;
          s = upd_queue (QReady (current_priority th))
                (\<lambda>q. if stat th AND RT_THREAD_STAT_YIELD \<noteq> 0 then q @ [t] else t # q) s
      in s\<lparr>ready_group := ready_group s OR number_mask th\<rparr>)"

lemma insert_thread_eq:
  "tprio s t < 32 \<Longrightarrow> cur s \<noteq> Some t \<Longrightarrow> rt_schedule_insert_thread t s = Inr (sched_ins t s)"
  by (simp add: rt_schedule_insert_thread_def sched_ins_def Let_def upd_thread_def)

lemma insert_thread_cur:
  "cur s = Some t \<Longrightarrow> rt_schedule_insert_thread t s =
     Inr (upd_thread t (\<lambda>th. th\<lparr>stat := stat_put RT_THREAD_RUNNING (stat th)\<rparr>) s)"
  by (simp add: rt_schedule_insert_thread_def)

lemma sched_rm_frame [simp]:
  "threads (sched_rm t s) = threads s" "cur (sched_rm t s) = cur s"
  "queues (sched_rm t s) = (\<lambda>q. remove1 t (queues s q))"
  "timers (sched_rm t s) = timers s" "timer_list (sched_rm t s) = timer_list s"
  "timer_tmp (sched_rm t s) = timer_tmp s" "objs (sched_rm t s) = objs s"
  "tick (sched_rm t s) = tick s" "lock_nest (sched_rm t s) = lock_nest s" "cur_prio (sched_rm t s) = cur_prio s"
  by (simp_all add: sched_rm_def list_remove_thread_def Let_def)

lemma started_upd [simp]:
  "started (s\<lparr>queues := qs\<rparr>) t = started s t" "started (s\<lparr>ready_group := g\<rparr>) t = started s t"
  "started (s\<lparr>cur := c\<rparr>) t = started s t" "started (s\<lparr>cur_prio := p\<rparr>) t = started s t"
  by (simp_all add: started_def)

lemma loose_inv_remove:
  assumes inv: "loose_inv X s" and t: "started s t \<or> t \<in> X"
  shows "loose_inv (insert t X) (sched_rm t s)"
proof -
  let ?p = "tprio s t"
  have p: "?p < 32" "number_mask (threads s t) = push_bit ?p 1"
    using inv t by (auto simp: loose_inv_def)
  have q: "queues_ok s" using inv by (simp add: loose_inv_def)
  then have d: "set (remove1 t (queues s q)) = set (queues s q) - {t}" for q
    by (simp add: queues_ok_def)
  have only: "queues s (QReady p') \<noteq> [] \<longleftrightarrow> remove1 t (queues s (QReady p')) \<noteq> []"
    if "p' \<noteq> ?p" for p'
  proof (cases "t \<in> set (queues s (QReady p'))")
    case True
    then have "t \<notin> X" "tprio s t = p'" using inv unfolding loose_inv_def by blast+
    with that show ?thesis by simp
  qed simp
  have rg: "ready_group (sched_rm t s) = (if remove1 t (queues s (QReady ?p)) = []
      then ready_group s AND NOT (push_bit ?p 1) else ready_group s)"
    by (simp add: sched_rm_def list_remove_thread_def Let_def p)
  have b: "bit (ready_group s) k \<longleftrightarrow> queues s (QReady k) \<noteq> []" if "k < 32" for k
    using inv that by (simp add: loose_inv_def bitmap_ok_def)
  have "bit (ready_group (sched_rm t s)) k \<longleftrightarrow> remove1 t (queues s (QReady k)) \<noteq> []"
    if "k < 32" for k
  proof (cases "k = ?p")
    case True
    then show ?thesis using b [OF that] unfolding rg by (auto simp: wbits simp del: push_bit_of_1)
  next
    case False
    then show ?thesis using b [OF that] only [OF False] unfolding rg
      by (auto simp: wbits simp del: push_bit_of_1)
  qed
  then have bm: "bitmap_ok (sched_rm t s)" by (simp add: bitmap_ok_def)
  have "queues_ok (sched_rm t s)" using q by (auto simp: queues_ok_def d)
  moreover have "wait_ok (sched_rm t s)" using inv by (auto simp: loose_inv_def wait_ok_def d)
  moreover have "started (sched_rm t s) u = started s u" for u by (simp add: started_def)
  ultimately show ?thesis
    using inv p bm unfolding loose_inv_def by (simp add: d)
qed

lemma loose_inv_insert:
  assumes inv: "loose_inv X s" and t: "t \<in> X" "cur s \<noteq> Some t"
  shows "loose_inv (X - {t}) (sched_ins t s)"
proof -
  let ?p = "tprio s t"
  have p: "?p < 32" "number_mask (threads s t) = push_bit ?p 1"
    using inv t by (auto simp: loose_inv_def)
  have nq: "t \<notin> set (queues s q)" for q using inv t by (auto simp: loose_inv_def)
  have bm: "bitmap_ok (sched_ins t s)"
    using inv p unfolding loose_inv_def bitmap_ok_def
    by (auto simp: sched_ins_def upd_thread_def upd_queue_def Let_def wbits simp del: push_bit_of_1)
  have sets: "set (queues (sched_ins t s) q) =
      (if q = QReady ?p then insert t (set (queues s q)) else set (queues s q))" for q
    by (simp add: sched_ins_def Let_def upd_thread_def upd_queue_def)
  have dist: "distinct (queues (sched_ins t s) q)" for q
    using inv nq [of q] by (auto simp: sched_ins_def Let_def upd_thread_def upd_queue_def
        loose_inv_def queues_ok_def)
  have "queues_ok (sched_ins t s)"
    using inv nq unfolding queues_ok_def by (auto simp: sets dist loose_inv_def queues_ok_def)
  moreover have th: "threads (sched_ins t s) =
      (threads s)(t := (threads s t)\<lparr>stat := stat_put RT_THREAD_READY (stat (threads s t))\<rparr>)"
    "cur (sched_ins t s) = cur s"
    by (simp_all add: sched_ins_def Let_def upd_thread_def upd_queue_def)
  moreover have "wait_ok (sched_ins t s)"
    using inv nq unfolding wait_ok_def by (auto simp: sets th loose_inv_def wait_ok_def)
  ultimately show ?thesis
    using inv p bm t nq unfolding loose_inv_def started_def by (auto simp: sets)
qed

lemma loose_inv_upd:
  assumes "loose_inv X s" "t \<in> X"
    and "current_priority (f (threads s t)) = tprio s t"
    and "number_mask (f (threads s t)) = number_mask (threads s t)"
  shows "loose_inv X (upd_thread t f s)"
  using assms unfolding loose_inv_def upd_thread_def queues_ok_def bitmap_ok_def wait_ok_def started_def
  by auto

lemma running_not_queued:
  assumes "loose_inv X s" "tstat s t = RT_THREAD_RUNNING"
  shows "t \<notin> set (queues s q)"
proof
  assume m: "t \<in> set (queues s q)"
  then have "t \<notin> X" using assms(1) unfolding loose_inv_def by blast
  then have "t \<notin> set (queues s (QReady p))" for p
    using assms unfolding loose_inv_def by simp
  moreover have "t \<notin> set (queues s (QSuspend i))" "t \<notin> set (queues s (QSender i))"
    "t \<notin> set (queues s QDefunct)" for i
    using assms unfolding loose_inv_def wait_ok_def by fastforce+
  ultimately show False using m by (cases q) simp_all
qed

lemma loose_inv_loosen:
  assumes inv: "loose_inv X s" and run: "tstat s t = RT_THREAD_RUNNING" "t \<notin> X"
  shows "loose_inv (insert t X) s"
proof -
  have "t \<notin> set (queues s q)" for q by (rule running_not_queued [OF inv run(1)])
  moreover have "started s t" using run by (simp add: started_def)
  ultimately show ?thesis using inv unfolding loose_inv_def by auto
qed

lemma loose_inv_settle:
  assumes "loose_inv X s" "tstat s t \<noteq> RT_THREAD_READY"
    and "tstat s t = RT_THREAD_RUNNING \<Longrightarrow> cur s = Some t"
  shows "loose_inv (X - {t}) s"
  using assms unfolding loose_inv_def by auto

lemma loose_inv_cur:
  assumes "loose_inv X s" "\<forall>c. cur s = Some c \<longrightarrow> c \<in> X \<or> tstat s c \<noteq> RT_THREAD_RUNNING"
  shows "loose_inv X (s\<lparr>cur_prio := p, cur := c'\<rparr>)"
  using assms unfolding loose_inv_def queues_ok_def bitmap_ok_def wait_ok_def started_def by auto

section \<open>What a scheduling step changes\<close>

text \<open>Only the status bytes, the ready queues, the bitmap and the current thread.\<close>

definition sched_frame :: "kernel \<Rightarrow> kernel \<Rightarrow> bool" where
  "sched_frame s s' \<longleftrightarrow>
     s' = s\<lparr>threads := threads s', queues := queues s', ready_group := ready_group s',
            cur := cur s', cur_prio := cur_prio s'\<rparr>
     \<and> (\<forall>t. threads s' t = (threads s t)\<lparr>stat := stat (threads s' t)\<rparr>)
     \<and> (\<forall>t v. v \<noteq> RT_THREAD_READY \<longrightarrow> v \<noteq> RT_THREAD_RUNNING \<longrightarrow>
         (tstat s' t = v \<longleftrightarrow> tstat s t = v))
     \<and> (\<forall>q. (\<forall>p. q \<noteq> QReady p) \<longrightarrow> queues s' q = queues s q)"

lemma sched_frame_refl: "sched_frame s s"
  by (simp add: sched_frame_def)

lemma highest_ok:
  assumes inv: "loose_inv {} s" and g: "ready_group s \<noteq> 0"
  obtains h n rest where
    "scheduler_get_highest_priority_thread s = Inr (h, n)" "queues s (QReady n) = h # rest"
    "tstat s h = RT_THREAD_READY" "tprio s h = n" "n < 32"
    "\<forall>t. tstat s t = RT_THREAD_READY \<longrightarrow> n \<le> tprio s t"
proof -
  obtain n where n: "lowest_set (ready_group s) n" "n < 32" using lowest_set_ex [OF g] by blast
  have b: "bit (ready_group s) k \<longleftrightarrow> queues s (QReady k) \<noteq> []" if "k < 32" for k
    using inv that by (simp add: loose_inv_def bitmap_ok_def)
  obtain h rest where q: "queues s (QReady n) = h # rest"
    using n b [of n] unfolding lowest_set_def by (cases "queues s (QReady n)") auto
  have hq: "h \<in> set (queues s (QReady n))" using q by simp
  have mem: "t \<in> set (queues s (QReady p)) \<longleftrightarrow> tstat s t = RT_THREAD_READY \<and> tprio s t = p" for p t
    using inv by (simp add: loose_inv_def)
  have low: "n \<le> tprio s t" if "tstat s t = RT_THREAD_READY" for t
  proof (rule ccontr)
    assume "\<not> n \<le> tprio s t"
    then have "tprio s t < n" by simp
    moreover have "queues s (QReady (tprio s t)) \<noteq> []" using mem [of t "tprio s t"] that by auto
    ultimately show False using n b [of "tprio s t"] unfolding lowest_set_def by auto
  qed
  show thesis
  proof (rule that)
    show "scheduler_get_highest_priority_thread s = Inr (h, n)"
      using q by (simp add: scheduler_get_highest_priority_thread_def rt_ffs_lowest [OF n(1)])
  qed (use q n low mem [of h n] hq in simp_all)
qed

lemma no_ready_when_empty:
  assumes "loose_inv {} s" "ready_group s = 0"
  shows "tstat s t \<noteq> RT_THREAD_READY"
proof
  assume "tstat s t = RT_THREAD_READY"
  then have "t \<in> set (queues s (QReady (tprio s t)))" "tprio s t < 32"
    using assms(1) by (simp_all add: loose_inv_def started_def)
  then have "queues s (QReady (tprio s t)) \<noteq> []" "tprio s t < 32" by auto
  then show False using assms unfolding loose_inv_def bitmap_ok_def by auto
qed

text \<open>The running thread is entitled to the processor: nothing READY is more urgent.\<close>

definition runs_highest :: "kernel \<Rightarrow> bool" where
  "runs_highest s \<longleftrightarrow> (\<exists>c. cur s = Some c \<and> tstat s c = RT_THREAD_RUNNING
     \<and> (\<forall>t. tstat s t = RT_THREAD_READY \<longrightarrow> tprio s c \<le> tprio s t))"

text \<open>The state after a switch from \<open>c\<close> to \<open>h\<close>; \<open>again\<close>: the thread
  that leaves was RUNNING and goes back to its ready queue.\<close>

definition switch_state :: "tid \<Rightarrow> tid \<Rightarrow> nat \<Rightarrow> bool \<Rightarrow> kernel \<Rightarrow> kernel" where
  "switch_state c h n again s =
     (let s = (if again then upd_thread c (\<lambda>th. th\<lparr>stat := stat_clear_yield (stat th)\<rparr>) s
               else s);
          s = s\<lparr>cur_prio := n, cur := Some h\<rparr>;
          s = (if again then sched_ins c s else s)
      in upd_thread h (\<lambda>th. th\<lparr>stat := stat_put RT_THREAD_RUNNING (stat th)\<rparr>) (sched_rm h s))"

lemma sched_ins_frame:
  "threads (sched_ins t s) =
     (threads s)(t := (threads s t)\<lparr>stat := stat_put RT_THREAD_READY (stat (threads s t))\<rparr>)"
  "cur (sched_ins t s) = cur s"
  "(\<forall>p. q \<noteq> QReady p) \<Longrightarrow> queues (sched_ins t s) q = queues s q"
  by (simp_all add: sched_ins_def Let_def upd_thread_def upd_queue_def)

lemma switch_state_inv:
  assumes inv: "loose_inv {} s" and c: "cur s = Some c" and h: "tstat s h = RT_THREAD_READY"
    and again: "again \<longleftrightarrow> tstat s c = RT_THREAD_RUNNING"
  shows "loose_inv {} (switch_state c h n again s)"
proof -
  have ch: "c \<noteq> h" if again using that again h by auto
  have put: "loose_inv {} (upd_thread h (\<lambda>th. th\<lparr>stat := stat_put RT_THREAD_RUNNING (stat th)\<rparr>) (sched_rm h s'))"
    if "loose_inv {} s'" "cur s' = Some h" "tstat s' h = RT_THREAD_READY" for s'
  proof -
    have "loose_inv {h} (sched_rm h s')"
      using loose_inv_remove [OF that(1), of h] that(3) by (simp add: started_def)
    then have "loose_inv {h} (upd_thread h (\<lambda>th. th\<lparr>stat := stat_put RT_THREAD_RUNNING (stat th)\<rparr>) (sched_rm h s'))"
      by (rule loose_inv_upd) simp_all
    from loose_inv_settle [OF this, of h] that(2) show ?thesis by (simp add: upd_thread_def)
  qed
  show ?thesis
  proof (cases again)
    case True
    let ?s1 = "upd_thread c (\<lambda>th. th\<lparr>stat := stat_clear_yield (stat th)\<rparr>) s"
    let ?s2 = "?s1\<lparr>cur_prio := n, cur := Some h\<rparr>"
    have "loose_inv {c} s" using loose_inv_loosen [OF inv] again True by simp
    then have "loose_inv {c} ?s1" by (rule loose_inv_upd) simp_all
    then have "loose_inv {c} ?s2" by (rule loose_inv_cur) (simp add: upd_thread_def c)
    then have "loose_inv {} (sched_ins c ?s2)"
      using loose_inv_insert [of "{c}" ?s2 c] ch [OF True] by simp
    then show ?thesis
      using put [of "sched_ins c ?s2"] True ch [OF True] h
      by (simp add: switch_state_def sched_ins_frame upd_thread_def)
  next
    case False
    let ?s2 = "s\<lparr>cur_prio := n, cur := Some h\<rparr>"
    have "loose_inv {} ?s2" by (rule loose_inv_cur [OF inv]) (use c again False in auto)
    then show ?thesis using put [of ?s2] False h by (simp add: switch_state_def)
  qed
qed

lemma switch_state_frame:
  assumes inv: "loose_inv {} s" and h: "tstat s h = RT_THREAD_READY"
    and again: "again \<longrightarrow> tstat s c = RT_THREAD_RUNNING"
  shows "sched_frame s (switch_state c h n again s)"
proof -
  let ?s = "switch_state c h n again s"
  have ch: "c \<noteq> h" if again using that again h by auto
  have only: "?s = s\<lparr>threads := threads ?s, queues := queues ?s, ready_group := ready_group ?s,
            cur := cur ?s, cur_prio := cur_prio ?s\<rparr>"
    by (simp add: switch_state_def Let_def sched_rm_def sched_ins_def kdefs)
  have th: "threads ?s t = (threads s t)\<lparr>stat := stat (threads ?s t)\<rparr>" for t
    by (simp add: switch_state_def Let_def sched_ins_frame upd_thread_def)
  have st: "tstat ?s t = v \<longleftrightarrow> tstat s t = v"
    if "v \<noteq> RT_THREAD_READY" "v \<noteq> RT_THREAD_RUNNING" for t v
    using that h again ch by (auto simp: switch_state_def Let_def sched_ins_frame upd_thread_def)
  have nq: "h \<notin> set (queues s q)" if "\<forall>p. q \<noteq> QReady p" for q
    using inv h that unfolding loose_inv_def wait_ok_def by (cases q) auto
  have "queues ?s q = queues s q" if "\<forall>p. q \<noteq> QReady p" for q
    using nq [OF that] that
    by (simp add: switch_state_def Let_def sched_ins_frame upd_thread_def)
  then show ?thesis using only th st unfolding sched_frame_def by blast
qed

lemma switch_state_runs:
  assumes inv: "loose_inv {} s" and h: "tstat s h = RT_THREAD_READY" "tprio s h = n"
    and low: "\<forall>t. tstat s t = RT_THREAD_READY \<longrightarrow> n \<le> tprio s t"
    and again: "again \<longrightarrow> tstat s c = RT_THREAD_RUNNING \<and> n \<le> tprio s c"
  shows "runs_highest (switch_state c h n again s)"
  using assms
  by (auto simp: runs_highest_def switch_state_def Let_def sched_ins_frame upd_thread_def)

lemma switch_state_cur:
  "cur (switch_state c h n again s) = Some h"
  "tstat (switch_state c h n again s) h = RT_THREAD_RUNNING"
  by (simp_all add: switch_state_def Let_def sched_ins_frame upd_thread_def)

text \<open>Keeping the running thread clears its yield flag, and changes nothing else.\<close>

definition stay_on :: "tid \<Rightarrow> kernel \<Rightarrow> kernel" where
  "stay_on c s = upd_thread c (\<lambda>th. th\<lparr>stat := stat_put RT_THREAD_RUNNING (stat th)\<rparr>)
      (sched_rm c (upd_thread c (\<lambda>th. th\<lparr>stat := stat_clear_yield (stat th)\<rparr>) s))"

lemma stay_on_fields:
  "cur (stay_on c s) = cur s" "tstat (stay_on c s) c = RT_THREAD_RUNNING"
  "t \<noteq> c \<Longrightarrow> threads (stay_on c s) t = threads s t" "tprio (stay_on c s) t = tprio s t"
  "threads (stay_on c s) c =
     (threads s c)\<lparr>stat := stat_put RT_THREAD_RUNNING (stat_clear_yield (stat (threads s c)))\<rparr>"
  "queues (stay_on c s) = (\<lambda>q. remove1 c (queues s q))"
  by (simp_all add: stay_on_def upd_thread_def)

lemma stay_on_inv:
  assumes inv: "loose_inv {} s" and c: "cur s = Some c" "tstat s c = RT_THREAD_RUNNING"
  shows "loose_inv {} (stay_on c s)"
proof -
  let ?s1 = "upd_thread c (\<lambda>th. th\<lparr>stat := stat_clear_yield (stat th)\<rparr>) s"
  have "loose_inv {c} s" using loose_inv_loosen [OF inv c(2)] by simp
  then have "loose_inv {c} ?s1" by (rule loose_inv_upd) simp_all
  from loose_inv_remove [OF this, of c] have "loose_inv {c} (sched_rm c ?s1)" by simp
  then have "loose_inv {c} (stay_on c s)" unfolding stay_on_def by (rule loose_inv_upd) simp_all
  from loose_inv_settle [OF this, of c] show ?thesis by (simp add: stay_on_fields c)
qed

lemma stay_on_frame:
  assumes inv: "loose_inv {} s" and c: "cur s = Some c" "tstat s c = RT_THREAD_RUNNING"
  shows "sched_frame s (stay_on c s)"
proof -
  let ?s = "stay_on c s"
  have "c \<notin> set (queues s q)" for q by (rule running_not_queued [OF inv c(2)])
  then have q: "queues ?s = queues s" by (simp add: stay_on_fields)
  have e: "?s = s\<lparr>threads := threads ?s, queues := queues ?s, ready_group := ready_group ?s,
            cur := cur ?s, cur_prio := cur_prio ?s\<rparr>"
    by (simp add: stay_on_def sched_rm_def Let_def kdefs)
  have t: "threads ?s t = (threads s t)\<lparr>stat := stat (threads ?s t)\<rparr>" for t
    by (cases "t = c") (simp_all add: stay_on_fields)
  have v: "tstat ?s t = v \<longleftrightarrow> tstat s t = v"
    if "v \<noteq> RT_THREAD_READY" "v \<noteq> RT_THREAD_RUNNING" for t v
    using that c by (cases "t = c") (auto simp: stay_on_fields)
  show ?thesis
    unfolding sched_frame_def by (intro conjI allI impI, fact e, rule t, rule v, assumption+, simp add: q)
qed

lemma stay_on_runs:
  assumes "cur s = Some c" "\<forall>t. tstat s t = RT_THREAD_READY \<longrightarrow> n \<le> tprio s t" "tprio s c \<le> n"
  shows "runs_highest (stay_on c s)"
proof -
  have "tprio (stay_on c s) c \<le> tprio (stay_on c s) t" if "tstat (stay_on c s) t = RT_THREAD_READY" for t
    using assms that by (cases "t = c") (auto simp: stay_on_fields intro: order_trans)
  then show ?thesis using assms(1) by (auto simp: runs_highest_def stay_on_fields)
qed

section \<open>The scheduler picks a most urgent thread\<close>

lemma rt_schedule_switch_eq:
  assumes "lock_nest s = 0" "ready_group s \<noteq> 0" "cur s = Some c"
    "scheduler_get_highest_priority_thread s = Inr (h, n)"
    "schedule_choice (threads s c) c h n = (h, again)" "h \<noteq> c"
    "tprio s h < 32" "tprio s c < 32 \<or> \<not> again" "tstat s c = RT_THREAD_RUNNING \<longleftrightarrow> again"
  shows "rt_schedule s = Inr (switch_state c h n again s)"
  using assms
  by (cases again) (simp_all add: rt_schedule_def switch_state_def Let_def upd_thread_def insert_thread_eq
      remove_thread_eq sched_ins_frame)

lemma rt_schedule_stay_eq:
  assumes "lock_nest s = 0" "ready_group s \<noteq> 0" "cur s = Some c"
    "scheduler_get_highest_priority_thread s = Inr (h, n)"
    "schedule_choice (threads s c) c h n = (c, again)"
    "tprio s c < 32" "tstat s c = RT_THREAD_RUNNING"
  shows "rt_schedule s = Inr (stay_on c s)"
  using assms
  by (simp add: rt_schedule_def Let_def upd_thread_def remove_thread_eq stay_on_def)

lemma rt_schedule_off: "lock_nest s \<noteq> 0 \<or> ready_group s = 0 \<Longrightarrow> rt_schedule s = Inr s"
  by (auto simp: rt_schedule_def)

lemma rt_schedule_main:
  assumes inv: "loose_inv {} s" and l: "lock_nest s = 0" and c: "cur s = Some c"
    and go: "tstat s c = RT_THREAD_RUNNING \<or> ready_group s \<noteq> 0"
    and nr: "tstat s c \<noteq> RT_THREAD_READY"
  shows "\<exists>s'. rt_schedule s = Inr s' \<and> loose_inv {} s' \<and> runs_highest s' \<and> sched_frame s s'"
proof (cases "ready_group s = 0")
  case True
  then show ?thesis
    using inv c go rt_schedule_off [of s] no_ready_when_empty [OF inv True] sched_frame_refl
    by (auto simp: runs_highest_def)
next
  case g: False
  obtain h n rest where h: "scheduler_get_highest_priority_thread s = Inr (h, n)"
    "tstat s h = RT_THREAD_READY" "tprio s h = n" "n < 32"
    "\<forall>t. tstat s t = RT_THREAD_READY \<longrightarrow> n \<le> tprio s t"
    by (rule highest_ok [OF inv g]) blast
  have hc: "h \<noteq> c" using h(2) nr by auto
  have cp: "tprio s c < 32" if "tstat s c = RT_THREAD_RUNNING"
    using inv that by (auto simp: loose_inv_def started_def)
  consider (stay) "schedule_choice (threads s c) c h n = (c, False)"
      "tstat s c = RT_THREAD_RUNNING" "tprio s c \<le> n"
    | (switch) "schedule_choice (threads s c) c h n = (h, tstat s c = RT_THREAD_RUNNING)"
      "tstat s c = RT_THREAD_RUNNING \<longrightarrow> n \<le> tprio s c"
    by (cases "tstat s c = RT_THREAD_RUNNING \<and> (tprio s c < n \<or>
          tprio s c = n \<and> stat (threads s c) AND RT_THREAD_STAT_YIELD = 0)")
      (auto simp: schedule_choice_def)
  then show ?thesis
  proof cases
    case stay
    show ?thesis
      using rt_schedule_stay_eq [OF l g c h(1) stay(1) cp [OF stay(2)] stay(2)]
        stay_on_inv [OF inv c stay(2)] stay_on_frame [OF inv c stay(2)]
        stay_on_runs [OF c h(5) stay(3)] by blast
  next
    case switch
    have "rt_schedule s = Inr (switch_state c h n (tstat s c = RT_THREAD_RUNNING) s)"
      using rt_schedule_switch_eq [OF l g c h(1) switch(1) hc] cp h(3,4) by auto
    then show ?thesis
      using switch_state_inv [OF inv c h(2), of _ n] switch_state_runs [OF inv h(2,3,5), of _ c]
        switch_state_frame [OF inv h(2), of _ c n] switch(2) by auto
  qed
qed

section \<open>A small system\<close>

text \<open>A concrete kernel the witnesses run on: the idle thread 0 at priority 31, thread 1 running at
  priority 10, thread 2 ready at 10 and thread 3 ready at 20; every other control block is in the
  INIT state.\<close>

definition demo_thread :: "u8 \<Rightarrow> nat \<Rightarrow> thread" where
  "demo_thread st p = \<lparr>stat = st, current_priority = p, init_priority = p,
     number_mask = (if st = RT_THREAD_INIT then 0 else push_bit p 1), error = 0,
     taken_object_list = [], pending_object = None, event_set = 0, event_info = 0,
     init_tick = 10, remaining_tick = 10\<rparr>"

definition demo_kernel :: kernel where
  "demo_kernel = \<lparr>
     objs = (\<lambda>i. case i of
         OThread _ \<Rightarrow> \<lparr>obj_name = [116, 0, 0, 0, 0, 0, 0, 0], obj_type = 0x81, obj_flag = 0\<rparr>
       | OTimer _ \<Rightarrow> \<lparr>obj_name = [116, 0, 0, 0, 0, 0, 0, 0], obj_type = 0x8a, obj_flag = 0\<rparr>
       | OSem _ \<Rightarrow> \<lparr>obj_name = [115, 0, 0, 0, 0, 0, 0, 0], obj_type = 0x82, obj_flag = RT_IPC_FLAG_PRIO\<rparr>
       | OMutex _ \<Rightarrow> \<lparr>obj_name = [109, 0, 0, 0, 0, 0, 0, 0], obj_type = 0x83, obj_flag = RT_IPC_FLAG_PRIO\<rparr>
       | OEvent _ \<Rightarrow> \<lparr>obj_name = [101, 0, 0, 0, 0, 0, 0, 0], obj_type = 0x84, obj_flag = RT_IPC_FLAG_PRIO\<rparr>
       | OMailBox _ \<Rightarrow> \<lparr>obj_name = [98, 0, 0, 0, 0, 0, 0, 0], obj_type = 0x85, obj_flag = RT_IPC_FLAG_FIFO\<rparr>
       | OMsgQueue _ \<Rightarrow> \<lparr>obj_name = [113, 0, 0, 0, 0, 0, 0, 0], obj_type = 0x86, obj_flag = RT_IPC_FLAG_FIFO\<rparr>
       | ODevice _ \<Rightarrow> \<lparr>obj_name = [117, 0, 0, 0, 0, 0, 0, 0], obj_type = 0x89, obj_flag = 0\<rparr>
       | _ \<Rightarrow> \<lparr>obj_name = [0, 0, 0, 0, 0, 0, 0, 0], obj_type = 0, obj_flag = 0\<rparr>),
     containers = (\<lambda>_. []),
     threads = (\<lambda>t. if t = 0 then demo_thread RT_THREAD_READY 31
                 else if t = 1 then demo_thread RT_THREAD_RUNNING 10
                 else if t = 2 then demo_thread RT_THREAD_READY 10
                 else if t = 3 then demo_thread RT_THREAD_READY 20
                 else demo_thread RT_THREAD_INIT 0),
     timers = (\<lambda>m. \<lparr>timeout_func = (case m of TThread t \<Rightarrow> F_thread_timeout t | TUser n \<Rightarrow> F_user n),
                 timer_init_tick = 0, timeout_tick = 0\<rparr>),
     timer_list = [], timer_tmp = [],
     queues = (\<lambda>q. if q = QReady 10 then [2] else if q = QReady 20 then [3]
                 else if q = QReady 31 then [0] else []),
     ready_group = push_bit 10 1 OR push_bit 20 1 OR push_bit 31 1,
     cur = Some 1, cur_prio = 10, lock_nest = 0, irq_nest = 0, tick = 0xfffffff0,
     sems = (\<lambda>_. 1),
     mutexes = (\<lambda>_. \<lparr>ceiling_priority = 0xff, mutex_priority = 0xff, hold = 0, owner = None\<rparr>),
     events = (\<lambda>_. 0),
     mboxes = (\<lambda>_. \<lparr>mb_pool = [0, 0], mb_size = 2, mb_entry = 0, in_offset = 0, out_offset = 0\<rparr>),
     mqs = (\<lambda>_. \<lparr>mq_pool = [\<lparr>mq_next = Some 1, mq_data = [0]\<rparr>, \<lparr>mq_next = None, mq_data = [0]\<rparr>],
                msg_size = 4, max_msgs = 2, mq_entry = 0, msg_queue_head = None,
                msg_queue_tail = None, msg_queue_free = Some 0\<rparr>),
     rt_errno = 0\<rparr>"

lemma demo_stat: "tstat demo_kernel t = (if t = 0 \<or> t = 2 \<or> t = 3 then RT_THREAD_READY
    else if t = 1 then RT_THREAD_RUNNING else RT_THREAD_INIT)"
  by (simp add: demo_kernel_def demo_thread_def)

lemma demo_prio: "tprio demo_kernel t = (if t = 0 then 31 else if t = 3 then 20
    else if t = 1 \<or> t = 2 then 10 else 0)"
  by (simp add: demo_kernel_def demo_thread_def)

lemma demo_queues: "queues demo_kernel q = (if q = QReady 10 then [2] else if q = QReady 20 then [3]
    else if q = QReady 31 then [0] else [])"
  by (simp add: demo_kernel_def)

lemma demo_cur: "cur demo_kernel = Some 1" "lock_nest demo_kernel = 0" "irq_nest demo_kernel = 0"
  by (simp_all add: demo_kernel_def)

lemma demo_sched_inv: "sched_inv demo_kernel"
proof -
  have "queues_ok demo_kernel" by (simp add: queues_ok_def demo_queues)
  moreover have "ready_ok demo_kernel" by (auto simp: ready_ok_def demo_stat demo_prio demo_queues)
  moreover have "bit (ready_group demo_kernel) p \<longleftrightarrow> p = 10 \<or> p = 20 \<or> p = 31" if "p < 32" for p
    using that by (auto simp: demo_kernel_def bit_or_iff bit_push_one simp del: push_bit_of_1 push_bit_numeral_minus_1)
  then have "bitmap_ok demo_kernel" by (auto simp: bitmap_ok_def demo_queues)
  moreover have "wait_ok demo_kernel" by (simp add: wait_ok_def demo_queues)
  moreover have "mask_ok demo_kernel"
    by (simp add: mask_ok_def started_def demo_stat demo_prio) (simp add: demo_kernel_def demo_thread_def)
  moreover have "cur_ok demo_kernel" by (simp add: cur_ok_def demo_stat demo_cur)
  ultimately show ?thesis by (simp add: sched_inv_def)
qed

text \<open>C1: the scheduler: from any state satisfying its invariant, with the scheduler unlocked and
  a thread that is running or at least one that is ready, \<^verbatim>\<open>rt_schedule\<close> does not
  fault, keeps the invariant, and leaves as current a RUNNING thread such that no READY thread has a
  higher priority.\<close>

theorem rt_schedule_runs_highest:
  assumes "sched_inv s" "lock_nest s = 0" "cur s = Some c"
    and "tstat s c = RT_THREAD_RUNNING \<or> ready_group s \<noteq> 0"
  shows "\<exists>s'. rt_schedule s = Inr s' \<and> sched_inv s' \<and> runs_highest s'"
proof -
  obtain s' where s': "rt_schedule s = Inr s'" "loose_inv {} s'" "runs_highest s'"
    using rt_schedule_main [of s c] assms by (auto simp: loose_inv_empty)
  then have "\<forall>c. cur s' = Some c \<longrightarrow> tstat s' c \<noteq> RT_THREAD_READY"
    by (auto simp: runs_highest_def)
  with s' show ?thesis by (auto simp: loose_inv_empty)
qed

theorem rt_schedule_runs_highest_witness:
  "\<exists>s'. rt_schedule demo_kernel = Inr s' \<and> sched_inv s' \<and> runs_highest s'"
  using rt_schedule_runs_highest [of demo_kernel 1] demo_sched_inv
  by (simp add: demo_cur demo_stat)

end
