(* ===== verification/Timer.thy ===== *)
theory Timer
  imports Sched
begin

text \<open>
  Software timers and the system tick: \<^verbatim>\<open>rt-thread/src/timer.c\<close> and
  \<^verbatim>\<open>src/clock.c\<close> with one list of hard timers
  (\<^verbatim>\<open>RT_TIMER_SKIP_LIST_LEVEL\<close> is 1, no soft timers).  Ticks are 32-bit words that
  wrap; a timer lies ahead of another when the wrapped difference is below
  \<^verbatim>\<open>RT_TICK_MAX / 2\<close>.
\<close>

section \<open>Timer objects\<close>

definition flag_clear :: "u8 \<Rightarrow> u8 \<Rightarrow> u8" where
  "flag_clear b x = x AND NOT b"

abbreviation timer_flag :: "kernel \<Rightarrow> timid \<Rightarrow> u8" where
  "timer_flag s m \<equiv> obj_flag (objs s (OTimer m))"

definition timer_active :: "kernel \<Rightarrow> timid \<Rightarrow> bool" where
  "timer_active s m \<longleftrightarrow> timer_flag s m AND RT_TIMER_FLAG_ACTIVATED \<noteq> 0"

definition timer_periodic :: "kernel \<Rightarrow> timid \<Rightarrow> bool" where
  "timer_periodic s m \<longleftrightarrow> timer_flag s m AND RT_TIMER_FLAG_PERIODIC \<noteq> 0"

definition set_timer_flag :: "timid \<Rightarrow> (u8 \<Rightarrow> u8) \<Rightarrow> kernel \<Rightarrow> kernel" where
  "set_timer_flag m f s = upd_obj (OTimer m) (\<lambda>x. x\<lparr>obj_flag := f (obj_flag x)\<rparr>) s"

definition deactivate :: "timid \<Rightarrow> kernel \<Rightarrow> kernel" where
  "deactivate m s = set_timer_flag m (flag_clear RT_TIMER_FLAG_ACTIVATED) s"

definition timer_init :: "timid \<Rightarrow> tfun \<Rightarrow> u32 \<Rightarrow> u8 \<Rightarrow> kernel \<Rightarrow> kernel" where
  "timer_init m timeout time flag s =
     (let s = set_timer_flag m (\<lambda>_. flag) s;
          s = deactivate m s
      in upd_timer m (\<lambda>t. t\<lparr>timeout_func := timeout, timeout_tick := 0, timer_init_tick := time\<rparr>) s)"

text \<open>\<^verbatim>\<open>rt_list_remove(&timer->row[0])\<close>: the node is in the timer list, in the
  temporary list of \<^verbatim>\<open>rt_timer_check\<close>, or in none.\<close>

definition timer_remove :: "timid \<Rightarrow> kernel \<Rightarrow> kernel" where
  "timer_remove m s =
     s\<lparr>timer_list := remove1 m (timer_list s), timer_tmp := remove1 m (timer_tmp s)\<rparr>"

definition timer_list_next_timeout :: "kernel \<Rightarrow> u32 option" where
  "timer_list_next_timeout s =
     (case timer_list s of [] \<Rightarrow> None | m # _ \<Rightarrow> Some (timeout_tick (timers s m)))"

definition rt_timer_next_timeout_tick :: "kernel \<Rightarrow> u32" where
  "rt_timer_next_timeout_tick s =
     (case timer_list_next_timeout s of Some t \<Rightarrow> t | None \<Rightarrow> 0xffffffff)"

section \<open>Starting and stopping\<close>

text \<open>The test that ends the walk along the list: the timer met is later than the new one.
  Timers with the same tick are passed over, so equal timeouts stay in starting order.\<close>

definition later :: "u32 \<Rightarrow> u32 \<Rightarrow> bool" where
  "later t new \<longleftrightarrow> t - new \<noteq> 0 \<and> t - new < RT_TICK_HALF"

definition rt_timer_start :: "timid \<Rightarrow> kernel \<Rightarrow> (int \<times> kernel) res" where
  "rt_timer_start m s =
     assert_then (rt_object_get_type (OTimer m) s = RT_Object_Class_Timer) (
     let s = timer_remove m s;
         s = deactivate m s;
         s = upd_timer m (\<lambda>t. t\<lparr>timeout_tick := tick s + timer_init_tick t\<rparr>) s;
         s = s\<lparr>timer_list := insert_when
               (\<lambda>x. later (timeout_tick (timers s x)) (timeout_tick (timers s m))) m (timer_list s)\<rparr>
     in Inr (RT_EOK, set_timer_flag m (\<lambda>f. f OR RT_TIMER_FLAG_ACTIVATED) s))"

definition rt_timer_stop :: "timid \<Rightarrow> kernel \<Rightarrow> (int \<times> kernel) res" where
  "rt_timer_stop m s =
     assert_then (rt_object_get_type (OTimer m) s = RT_Object_Class_Timer) (
     if \<not> timer_active s m then Inr (- RT_ERROR, s)
     else Inr (RT_EOK, deactivate m (timer_remove m s)))"

datatype timer_cmd = CTRL_SET_TIME u32 | CTRL_GET_TIME | CTRL_SET_ONESHOT | CTRL_SET_PERIODIC
  | CTRL_GET_STATE | CTRL_GET_REMAIN_TIME

text \<open>\<^verbatim>\<open>rt_timer_control\<close>: the value the command writes through
  \<^verbatim>\<open>arg\<close>, when it writes one.\<close>

definition rt_timer_control :: "timid \<Rightarrow> timer_cmd \<Rightarrow> kernel \<Rightarrow> (u32 option \<times> kernel) res" where
  "rt_timer_control m cmd s =
     assert_then (rt_object_get_type (OTimer m) s = RT_Object_Class_Timer) (
     case cmd of
       CTRL_GET_TIME \<Rightarrow> Inr (Some (timer_init_tick (timers s m)), s)
     | CTRL_SET_TIME t \<Rightarrow> assert_then (t < RT_TICK_HALF)
         (Inr (None, upd_timer m (\<lambda>x. x\<lparr>timer_init_tick := t\<rparr>) s))
     | CTRL_SET_ONESHOT \<Rightarrow> Inr (None, set_timer_flag m (flag_clear RT_TIMER_FLAG_PERIODIC) s)
     | CTRL_SET_PERIODIC \<Rightarrow> Inr (None, set_timer_flag m (\<lambda>f. f OR RT_TIMER_FLAG_PERIODIC) s)
     | CTRL_GET_STATE \<Rightarrow> Inr (Some (if timer_active s m then 1 else 0), s)
     | CTRL_GET_REMAIN_TIME \<Rightarrow> Inr (Some (timeout_tick (timers s m)), s))"

section \<open>The tick\<close>

definition rt_tick_get :: "kernel \<Rightarrow> u32" where
  "rt_tick_get s = tick s"

definition rt_tick_set :: "u32 \<Rightarrow> kernel \<Rightarrow> kernel" where
  "rt_tick_set t s = s\<lparr>tick := t\<rparr>"

text \<open>\<^verbatim>\<open>RT_TICK_PER_SECOND\<close> is 1000; the products are unsigned 32-bit.  A negative
  argument means waiting forever.\<close>

definition rt_tick_from_millisecond :: "int \<Rightarrow> u32" where
  "rt_tick_from_millisecond ms =
     (if ms < 0 then word_of_int (- 1)
      else word_of_int (1000 * (ms div 1000)) + word_of_int ((1000 * (ms mod 1000) + 999) div 1000))"

text \<open>The loop of \<^verbatim>\<open>rt_timer_check\<close>.  \<open>call\<close> runs a timeout
  function; the loop is bounded by \<open>fuel\<close>, since a periodic timer of period 0, or a callback
  that starts expired timers, keeps it going.\<close>

fun timer_check_loop :: "(tfun \<Rightarrow> kernel \<Rightarrow> kernel res) \<Rightarrow> nat \<Rightarrow> u32 \<Rightarrow> kernel \<Rightarrow> kernel res" where
  "timer_check_loop call 0 current_tick s = Inl OutOfFuel"
| "timer_check_loop call (Suc fuel) current_tick s =
     (case timer_list s of
        [] \<Rightarrow> Inr s
      | m # _ \<Rightarrow>
        if current_tick - timeout_tick (timers s m) < RT_TICK_HALF then
          let s = timer_remove m s;
              s = (if \<not> timer_periodic s m then deactivate m s else s);
              s = s\<lparr>timer_tmp := m # timer_tmp s\<rparr>
          in bind_res (call (timeout_func (timers s m)) s) (\<lambda>s.
             if timer_tmp s = [] then timer_check_loop call fuel (tick s) s
             else let s = timer_remove m s
               in if timer_periodic s m \<and> timer_active s m
                  then bind_res (rt_timer_start m (deactivate m s)) (\<lambda>(_, s).
                         timer_check_loop call fuel (tick s) s)
                  else timer_check_loop call fuel (tick s) s)
        else Inr s)"

definition rt_timer_check :: "(tfun \<Rightarrow> kernel \<Rightarrow> kernel res) \<Rightarrow> nat \<Rightarrow> kernel \<Rightarrow> kernel res" where
  "rt_timer_check call fuel s = timer_check_loop call fuel (rt_tick_get s) (s\<lparr>timer_tmp := []\<rparr>)"

definition rt_tick_increase :: "(tfun \<Rightarrow> kernel \<Rightarrow> kernel res) \<Rightarrow> nat \<Rightarrow> kernel \<Rightarrow> kernel res" where
  "rt_tick_increase call fuel s =
     (let s = s\<lparr>tick := tick s + 1\<rparr>
      in case cur s of None \<Rightarrow> Inl NullDeref
      | Some c \<Rightarrow>
        let s = upd_thread c (\<lambda>th. th\<lparr>remaining_tick := remaining_tick th - 1\<rparr>) s
        in bind_res
             (if remaining_tick (threads s c) = 0
              then rt_schedule (upd_thread c (\<lambda>th. th\<lparr>remaining_tick := init_tick th,
                     stat := stat th OR RT_THREAD_STAT_YIELD\<rparr>) s)
              else Inr s)
             (rt_timer_check call fuel))"

section \<open>The timer list\<close>

text \<open>Ticks still to go until a timer's timeout.\<close>

definition due :: "kernel \<Rightarrow> timid \<Rightarrow> u32" where
  "due s m = timeout_tick (timers s m) - tick s"

definition timer_ok :: "kernel \<Rightarrow> bool" where
  "timer_ok s \<longleftrightarrow> distinct (timer_list s) \<and> sorted (map (due s) (timer_list s))
     \<and> (\<forall>m \<in> set (timer_list s). due s m < RT_TICK_HALF)"

text \<open>A timer is flagged active exactly when it is in the list.\<close>

definition timer_flags_ok :: "kernel \<Rightarrow> bool" where
  "timer_flags_ok s \<longleftrightarrow> (\<forall>m. timer_active s m \<longleftrightarrow> m \<in> set (timer_list s))"

lemma word_sub_lt_half:
  fixes a b :: u32
  assumes "a < RT_TICK_HALF" "b < RT_TICK_HALF"
  shows "a - b \<noteq> 0 \<and> a - b < RT_TICK_HALF \<longleftrightarrow> b < a"
proof -
  have n: "unat a < 0x7fffffff" "unat b < 0x7fffffff"
    using assms by (simp_all add: word_less_nat_alt)
  have "unat (a - b) = (if unat b \<le> unat a then unat a - unat b else unat a + 2 ^ 32 - unat b)"
    by (simp add: unat_sub_if')
  moreover have "a - b = 0 \<longleftrightarrow> unat (a - b) = 0" by (simp add: unat_eq_0)
  ultimately show ?thesis using n by (auto simp: word_less_nat_alt)
qed

lemma word_neg_lt_half:
  fixes a :: u32
  assumes "a < RT_TICK_HALF"
  shows "- a < RT_TICK_HALF \<longleftrightarrow> a = 0"
proof (cases "a = 0")
  case False
  have "unat (- a) = 2 ^ 32 - unat a" using False unat_sub_if' [of 0 a] by (simp add: unat_eq_0)
  moreover have "unat a < 0x7fffffff" using assms by (simp add: word_less_nat_alt)
  ultimately show ?thesis using False by (simp add: word_less_nat_alt)
qed simp

lemma later_due:
  assumes "due s x < RT_TICK_HALF" "timeout - tick s < RT_TICK_HALF"
  shows "later (timeout_tick (timers s x)) timeout \<longleftrightarrow> timeout - tick s < due s x"
  using word_sub_lt_half [OF assms] unfolding later_def due_def by simp

lemma flag_bits [simp]:
  "flag_clear RT_TIMER_FLAG_ACTIVATED x AND RT_TIMER_FLAG_ACTIVATED = 0"
  "flag_clear RT_TIMER_FLAG_ACTIVATED x AND RT_TIMER_FLAG_PERIODIC = x AND RT_TIMER_FLAG_PERIODIC"
  "flag_clear RT_TIMER_FLAG_PERIODIC x AND RT_TIMER_FLAG_PERIODIC = 0"
  "flag_clear RT_TIMER_FLAG_PERIODIC x AND RT_TIMER_FLAG_ACTIVATED = x AND RT_TIMER_FLAG_ACTIVATED"
  "(x OR RT_TIMER_FLAG_ACTIVATED) AND RT_TIMER_FLAG_ACTIVATED = RT_TIMER_FLAG_ACTIVATED"
  "(x OR RT_TIMER_FLAG_ACTIVATED) AND RT_TIMER_FLAG_PERIODIC = x AND RT_TIMER_FLAG_PERIODIC"
  by (simp_all add: flag_clear_def and.assoc bit.conj_disj_distrib2)

lemma timer_fields [simp]:
  "timer_list (timer_remove m s) = remove1 m (timer_list s)"
  "timer_tmp (timer_remove m s) = remove1 m (timer_tmp s)"
  "timers (timer_remove m s) = timers s" "objs (timer_remove m s) = objs s"
  "tick (timer_remove m s) = tick s" "threads (timer_remove m s) = threads s"
  "queues (timer_remove m s) = queues s" "ready_group (timer_remove m s) = ready_group s"
  "cur (timer_remove m s) = cur s" "lock_nest (timer_remove m s) = lock_nest s"
  "timer_list (set_timer_flag m f s) = timer_list s" "timer_tmp (set_timer_flag m f s) = timer_tmp s"
  "timers (set_timer_flag m f s) = timers s" "tick (set_timer_flag m f s) = tick s"
  "threads (set_timer_flag m f s) = threads s" "queues (set_timer_flag m f s) = queues s"
  "ready_group (set_timer_flag m f s) = ready_group s" "cur (set_timer_flag m f s) = cur s"
  "lock_nest (set_timer_flag m f s) = lock_nest s"
  "timer_list (deactivate m s) = timer_list s" "timer_tmp (deactivate m s) = timer_tmp s"
  "timers (deactivate m s) = timers s" "tick (deactivate m s) = tick s"
  "threads (deactivate m s) = threads s" "queues (deactivate m s) = queues s"
  "ready_group (deactivate m s) = ready_group s" "cur (deactivate m s) = cur s"
  "lock_nest (deactivate m s) = lock_nest s"
  by (simp_all add: timer_remove_def deactivate_def set_timer_flag_def upd_obj_def)

lemma objs_set_timer_flag [simp]:
  "objs (set_timer_flag m f s) = (objs s)(OTimer m :=
     (objs s (OTimer m))\<lparr>obj_flag := f (timer_flag s m)\<rparr>)"
  "objs (deactivate m s) = (objs s)(OTimer m :=
     (objs s (OTimer m))\<lparr>obj_flag := flag_clear RT_TIMER_FLAG_ACTIVATED (timer_flag s m)\<rparr>)"
  by (simp_all add: deactivate_def set_timer_flag_def upd_obj_def)

lemma get_type_timer_ops [simp]:
  "rt_object_get_type i (timer_remove m s) = rt_object_get_type i s"
  "rt_object_get_type i (set_timer_flag m f s) = rt_object_get_type i s"
  "rt_object_get_type i (deactivate m s) = rt_object_get_type i s"
  by (simp_all add: rt_object_get_type_def)

lemma timer_active_simps [simp]:
  "timer_active (deactivate m s) x \<longleftrightarrow> x \<noteq> m \<and> timer_active s x"
  "timer_active (timer_remove m s) x = timer_active s x"
  "timer_active (set_timer_flag m (\<lambda>f. f OR RT_TIMER_FLAG_ACTIVATED) s) x \<longleftrightarrow> x = m \<or> timer_active s x"
  by (auto simp: timer_active_def)

lemma timer_periodic_simps [simp]:
  "timer_periodic (deactivate m s) x = timer_periodic s x"
  "timer_periodic (timer_remove m s) x = timer_periodic s x"
  "timer_periodic (set_timer_flag m (\<lambda>f. f OR RT_TIMER_FLAG_ACTIVATED) s) x = timer_periodic s x"
  by (auto simp: timer_periodic_def)

text \<open>The state \<^verbatim>\<open>rt_timer_start\<close> leaves.\<close>

definition started_timer :: "timid \<Rightarrow> kernel \<Rightarrow> kernel" where
  "started_timer m s =
     (let s = upd_timer m (\<lambda>t. t\<lparr>timeout_tick := tick s + timer_init_tick t\<rparr>)
                (deactivate m (timer_remove m s))
      in set_timer_flag m (\<lambda>f. f OR RT_TIMER_FLAG_ACTIVATED)
          (s\<lparr>timer_list := insert_when
             (\<lambda>x. later (timeout_tick (timers s x)) (timeout_tick (timers s m))) m (timer_list s)\<rparr>))"

lemma rt_timer_start_eq:
  "rt_object_get_type (OTimer m) s = RT_Object_Class_Timer \<Longrightarrow>
     rt_timer_start m s = Inr (RT_EOK, started_timer m s)"
  by (simp add: rt_timer_start_def started_timer_def Let_def)

lemma started_timer_fields:
  "tick (started_timer m s) = tick s"
  "timers (started_timer m s) =
     (timers s)(m := (timers s m)\<lparr>timeout_tick := tick s + timer_init_tick (timers s m)\<rparr>)"
  "due (started_timer m s) x = (if x = m then timer_init_tick (timers s m) else due s x)"
  "timer_tmp (started_timer m s) = remove1 m (timer_tmp s)"
  "set (timer_list (started_timer m s)) = insert m (set (remove1 m (timer_list s)))"
  "timer_active (started_timer m s) x \<longleftrightarrow> x = m \<or> timer_active s x"
  "timer_periodic (started_timer m s) x = timer_periodic s x"
  "threads (started_timer m s) = threads s" "queues (started_timer m s) = queues s"
  "ready_group (started_timer m s) = ready_group s" "cur (started_timer m s) = cur s"
  "lock_nest (started_timer m s) = lock_nest s"
  "rt_object_get_type i (started_timer m s) = rt_object_get_type i s"
  by (auto simp: started_timer_def Let_def upd_timer_def due_def timer_active_def timer_periodic_def
      rt_object_get_type_def)

lemma insert_when_cong:
  "(\<And>x. x \<in> set xs \<Longrightarrow> P x = Q x) \<Longrightarrow> insert_when P m xs = insert_when Q m xs"
  by (induction xs) auto

lemma started_timer_list:
  assumes ok: "timer_ok s" and half: "timer_init_tick (timers s m) < RT_TICK_HALF"
  shows "timer_list (started_timer m s) =
    insert_when (\<lambda>x. timer_init_tick (timers s m) < due s x) m (remove1 m (timer_list s))"
proof -
  let ?s = "upd_timer m (\<lambda>t. t\<lparr>timeout_tick := tick s + timer_init_tick t\<rparr>)
                (deactivate m (timer_remove m s))"
  have "later (timeout_tick (timers ?s x)) (timeout_tick (timers ?s m)) \<longleftrightarrow>
      timer_init_tick (timers s m) < due s x" if "x \<in> set (remove1 m (timer_list s))" for x
  proof -
    have "x \<noteq> m" "x \<in> set (timer_list s)" using that ok by (auto simp: timer_ok_def)
    then show ?thesis
      using ok half later_due [of s x "tick s + timer_init_tick (timers s m)"]
      by (simp add: timer_ok_def upd_timer_def)
  qed
  from insert_when_cong [OF this]
  have "insert_when (\<lambda>x. later (timeout_tick (timers ?s x)) (timeout_tick (timers ?s m))) m
      (remove1 m (timer_list s)) =
    insert_when (\<lambda>x. timer_init_tick (timers s m) < due s x) m (remove1 m (timer_list s))" .
  moreover have "timer_list (started_timer m s) =
      insert_when (\<lambda>x. later (timeout_tick (timers ?s x)) (timeout_tick (timers ?s m))) m
      (remove1 m (timer_list s))"
    by (simp add: started_timer_def Let_def upd_timer_def)
  ultimately show ?thesis by simp
qed

lemma started_timer_ok:
  assumes ok: "timer_ok s" and half: "timer_init_tick (timers s m) < RT_TICK_HALF"
  shows "timer_ok (started_timer m s)"
proof -
  let ?s = "started_timer m s" and ?l = "remove1 m (timer_list s)"
  have d: "distinct ?l" "m \<notin> set ?l" using ok by (auto simp: timer_ok_def)
  have "map (due ?s) ?l = map (due s) ?l"
    using d by (intro map_cong) (auto simp: started_timer_fields)
  then have "sorted (map (due ?s) ?l)"
    using ok sorted_map_remove1 [of "due s" "timer_list s" m] by (simp only: timer_ok_def)
  moreover have "timer_list ?s = insert_when (\<lambda>x. due ?s m < due ?s x) m ?l"
    unfolding started_timer_list [OF ok half] using d
    by (intro insert_when_cong) (auto simp: started_timer_fields)
  ultimately have "sorted (map (due ?s) (timer_list ?s))" "distinct (timer_list ?s)"
    using d sorted_insert_when [of "due ?s" ?l m] by simp_all
  moreover have "\<forall>x \<in> set (timer_list ?s). due ?s x < RT_TICK_HALF"
    using ok half set_remove1_subset [of m "timer_list s"]
    by (auto simp: started_timer_fields timer_ok_def)
  ultimately show ?thesis by (simp add: timer_ok_def)
qed

lemma timer_remove_ok: "timer_ok s \<Longrightarrow> timer_ok (timer_remove m s)"
  by (auto simp: timer_ok_def due_def [abs_def] sorted_map_remove1 dest: set_remove1_subset [THEN subsetD])

lemma timer_ok_cong:
  "timers s = timers s' \<Longrightarrow> timer_list s = timer_list s' \<Longrightarrow> tick s = tick s' \<Longrightarrow> timer_ok s = timer_ok s'"
  by (simp add: timer_ok_def due_def [abs_def])

section \<open>The check for expired timers\<close>

text \<open>The state in which a timeout function is called, and the state after the loop body has
  dealt with the timer.\<close>

definition fire :: "timid \<Rightarrow> kernel \<Rightarrow> kernel" where
  "fire m s =
     (let s = timer_remove m s;
          s = (if \<not> timer_periodic s m then deactivate m s else s)
      in s\<lparr>timer_tmp := m # timer_tmp s\<rparr>)"

definition finish :: "timid \<Rightarrow> kernel \<Rightarrow> kernel" where
  "finish m s =
     (let s = timer_remove m s
      in if timer_periodic s m \<and> timer_active s m then started_timer m (deactivate m s) else s)"

text \<open>What a timeout function must leave alone: the timers, their lists and the tick.\<close>

definition timer_view :: "kernel \<Rightarrow> kernel \<Rightarrow> bool" where
  "timer_view s' s \<longleftrightarrow> timers s' = timers s \<and> timer_list s' = timer_list s
     \<and> timer_tmp s' = timer_tmp s \<and> tick s' = tick s
     \<and> (\<forall>m. objs s' (OTimer m) = objs s (OTimer m))"

lemma timer_view_refl: "timer_view s s"
  by (simp add: timer_view_def)

lemma timer_view_fields:
  assumes "timer_view s' s"
  shows "timer_active s' m = timer_active s m" "timer_periodic s' m = timer_periodic s m"
    "due s' m = due s m" "rt_object_get_type (OTimer m) s' = rt_object_get_type (OTimer m) s"
    "timer_list s' = timer_list s" "timer_tmp s' = timer_tmp s" "timers s' = timers s" "tick s' = tick s"
  using assms
  by (simp_all add: timer_view_def timer_active_def timer_periodic_def due_def rt_object_get_type_def)

text \<open>The timers that may sit in the list: typed as timers, and when periodic with a period the
  tick comparison can order.\<close>

definition timer_typed :: "kernel \<Rightarrow> bool" where
  "timer_typed s \<longleftrightarrow> (\<forall>m \<in> set (timer_list s). rt_object_get_type (OTimer m) s = RT_Object_Class_Timer
     \<and> (timer_periodic s m \<longrightarrow>
          0 < timer_init_tick (timers s m) \<and> timer_init_tick (timers s m) < RT_TICK_HALF))"

definition timers_inv :: "kernel \<Rightarrow> bool" where
  "timers_inv s \<longleftrightarrow> timer_ok s \<and> timer_flags_ok s \<and> timer_typed s"

text \<open>Outside \<^verbatim>\<open>rt_timer_check\<close> its temporary list is empty.\<close>

definition timers_idle :: "kernel \<Rightarrow> bool" where
  "timers_idle s \<longleftrightarrow> timers_inv s \<and> timer_tmp s = []"

text \<open>One round of the loop: the timer at the head, due now, leaves the list, and comes back one
  period later when it is periodic; the other timers keep their place.\<close>

lemma fire_fields:
  assumes "timer_list s = m # rest" "timer_tmp s = []" "distinct (timer_list s)"
  shows "timer_list (fire m s) = rest" "timer_tmp (fire m s) = [m]" "timers (fire m s) = timers s"
    "tick (fire m s) = tick s" "timer_periodic (fire m s) x = timer_periodic s x"
    "timer_active (fire m s) x \<longleftrightarrow> timer_active s x \<and> (x = m \<longrightarrow> timer_periodic s m)"
    "due (fire m s) x = due s x"
    "rt_object_get_type i (fire m s) = rt_object_get_type i s"
  using assms
  by (auto simp: fire_def Let_def due_def timer_periodic_def timer_active_def rt_object_get_type_def)

lemma round_oneshot:
  assumes inv: "timers_idle s" and l: "timer_list s = m # rest" and v: "timer_view s' (fire m s)"
    and one: "\<not> timer_periodic s m"
  shows "timers_idle (finish m s')" "timer_list (finish m s') = rest"
    "due (finish m s') x = due s x" "timer_periodic (finish m s') x = timer_periodic s x"
    "timers (finish m s') = timers s" "tick (finish m s') = tick s"
proof -
  have d: "distinct (m # rest)" "timer_tmp s = []" using inv l by (simp_all add: timers_idle_def timers_inv_def timer_ok_def)
  note f = fire_fields [of s m rest, unfolded l, OF refl d(2) d(1)]
  note w = timer_view_fields [OF v]
  have e: "finish m s' = timer_remove m s'" using one by (simp add: finish_def Let_def w f)
  have m: "m \<notin> set rest" using d by simp
  have fl: "timer_list (finish m s') = rest" "due (finish m s') x = due s x"
    "timer_periodic (finish m s') x = timer_periodic s x" "timer_tmp (finish m s') = []"
    "timer_active (finish m s') x \<longleftrightarrow> timer_active s x \<and> x \<noteq> m" "timers (finish m s') = timers s"
    "tick (finish m s') = tick s"
    "rt_object_get_type (OTimer x) (finish m s') = rt_object_get_type (OTimer x) s" for x
    unfolding e using m one by (auto simp: w f due_def)
  have du: "due (finish m s') = due s" by (rule ext) (rule fl)
  show "timers_idle (finish m s')"
    using inv m unfolding timers_idle_def timers_inv_def timer_ok_def timer_flags_ok_def timer_typed_def
    by (auto simp: fl l du)
  show "timer_list (finish m s') = rest" "due (finish m s') x = due s x"
    "timer_periodic (finish m s') x = timer_periodic s x"
    "timers (finish m s') = timers s" "tick (finish m s') = tick s" by (rule fl)+
qed

lemma round_periodic:
  assumes inv: "timers_idle s" and l: "timer_list s = m # rest" and v: "timer_view s' (fire m s)"
    and per: "timer_periodic s m"
  shows "timers_idle (finish m s')"
    "set (timer_list (finish m s')) = insert m (set rest)"
    "due (finish m s') x = (if x = m then timer_init_tick (timers s m) else due s x)"
    "timer_periodic (finish m s') x = timer_periodic s x"
    "timer_init_tick (timers (finish m s') x) = timer_init_tick (timers s x)" "tick (finish m s') = tick s"
proof -
  have d: "distinct (m # rest)" "timer_tmp s = []" using inv l by (simp_all add: timers_idle_def timers_inv_def timer_ok_def)
  note f = fire_fields [of s m rest, unfolded l, OF refl d(2) d(1)]
  note w = timer_view_fields [OF v]
  have m: "m \<notin> set rest" using d by simp
  have act: "timer_active s m" using inv l by (simp add: timers_idle_def timers_inv_def timer_flags_ok_def)
  let ?u = "deactivate m (timer_remove m s')"
  have e: "finish m s' = started_timer m ?u" using per act by (simp add: finish_def Let_def w f)
  have half: "timer_init_tick (timers s m) < RT_TICK_HALF"
    using inv l per by (simp add: timers_idle_def timers_inv_def timer_typed_def)
  have du: "due ?u = due s" by (rule ext) (simp add: due_def w f)
  have u: "timer_list ?u = rest" "timer_tmp ?u = []" "timers ?u = timers s" "tick ?u = tick s"
    using m by (simp_all add: w f)
  have "timer_ok ?u" using inv l m by (simp add: timer_ok_def du u timers_idle_def timers_inv_def w f)
  then have ok: "timer_ok (finish m s')" unfolding e using half by (intro started_timer_ok) (simp_all add: w f)
  have fl: "set (timer_list (finish m s')) = insert m (set rest)"
    "due (finish m s') x = (if x = m then timer_init_tick (timers s m) else due s x)"
    "timer_periodic (finish m s') x = timer_periodic s x" "timer_tmp (finish m s') = []"
    "timer_active (finish m s') x \<longleftrightarrow> timer_active s x"
    "timer_init_tick (timers (finish m s') x) = timer_init_tick (timers s x)"
    "rt_object_get_type (OTimer x) (finish m s') = rt_object_get_type (OTimer x) s"
    "tick (finish m s') = tick s" for x
    unfolding e started_timer_fields using m act per by (auto simp: u du w f)
  show "timers_idle (finish m s')"
    using inv l m ok unfolding timers_idle_def timers_inv_def timer_flags_ok_def timer_typed_def by (auto simp: fl)
  show "set (timer_list (finish m s')) = insert m (set rest)"
    "due (finish m s') x = (if x = m then timer_init_tick (timers s m) else due s x)"
    "timer_periodic (finish m s') x = timer_periodic s x"
    "timer_init_tick (timers (finish m s') x) = timer_init_tick (timers s x)"
    "tick (finish m s') = tick s" by (rule fl)+
qed

lemma expired_iff:
  assumes "timer_ok s" "m \<in> set (timer_list s)"
  shows "tick s - timeout_tick (timers s m) < RT_TICK_HALF \<longleftrightarrow> due s m = 0"
  using assms word_neg_lt_half [of "due s m"] by (simp add: timer_ok_def due_def)

lemma check_round:
  assumes inv: "timers_idle s" and l: "timer_list s = m # rest" and due: "due s m = 0"
    and call: "call (timeout_func (timers s m)) (fire m s) = Inr s'" and v: "timer_view s' (fire m s)"
  shows "timer_check_loop call (Suc k) (tick s) s = timer_check_loop call k (tick s) (finish m s')"
proof -
  have ok: "timer_ok s" "timer_tmp s = []" "rt_object_get_type (OTimer m) s = RT_Object_Class_Timer"
    using inv l by (simp_all add: timers_idle_def timers_inv_def timer_typed_def)
  have d: "distinct (m # rest)" using ok l by (simp add: timer_ok_def)
  note f = fire_fields [of s m rest, unfolded l, OF refl ok(2) d]
  note w = timer_view_fields [OF v]
  have ex: "tick s - timeout_tick (timers s m) < RT_TICK_HALF"
    using expired_iff [OF ok(1), of m] l due by simp
  have body: "timer_check_loop call (Suc k) (tick s) s =
      (if timer_tmp s' = [] then timer_check_loop call k (tick s') s'
       else let s = timer_remove m s'
         in if timer_periodic s m \<and> timer_active s m
            then bind_res (rt_timer_start m (deactivate m s)) (\<lambda>(_, s).
                   timer_check_loop call k (tick s) s)
            else timer_check_loop call k (tick s) s)"
    using ex call by (cases "timer_periodic s m") (simp_all add: l Let_def fire_def)
  have ty: "rt_object_get_type (OTimer m) (deactivate m (timer_remove m s')) = RT_Object_Class_Timer"
    using ok(3) by (simp add: w f)
  have view: "timer_tmp s' = [m]" "tick s' = tick s" by (simp_all add: w f)
  have fin: "tick (finish m s') = tick s"
    by (simp add: finish_def Let_def w f started_timer_fields)
  show ?thesis
  proof (cases "timer_periodic s' m \<and> timer_active s' m")
    case True
    then have "finish m s' = started_timer m (deactivate m (timer_remove m s'))"
      by (simp add: finish_def)
    with True fin show ?thesis
      unfolding body using view by (simp add: Let_def rt_timer_start_eq [OF ty])
  next
    case False
    then have "finish m s' = timer_remove m s'" by (auto simp: finish_def Let_def)
    with False show ?thesis
      unfolding body using view by (auto simp add: Let_def)
  qed
qed

text \<open>The contract of the timeout functions: \<open>I\<close> is an invariant of the rest of the
  kernel.  Called on a due timer at the head of the list, the function returns, leaves the timers
  alone, and \<open>I\<close> holds again once the loop has dealt with the timer.\<close>

locale timer_callbacks =
  fixes call :: "tfun \<Rightarrow> kernel \<Rightarrow> kernel res" and I :: "kernel \<Rightarrow> bool"
  assumes callback: "I s \<Longrightarrow> timers_idle s \<Longrightarrow> timer_list s = m # rest \<Longrightarrow> due s m = 0 \<Longrightarrow>
    \<exists>s'. call (timeout_func (timers s m)) (fire m s) = Inr s' \<and> timer_view s' (fire m s) \<and> I (finish m s')"
begin

definition after_check :: "kernel \<Rightarrow> kernel \<Rightarrow> bool" where
  "after_check s s' \<longleftrightarrow> I s' \<and> timers_idle s' \<and> tick s' = tick s
     \<and> set (timer_list s') = {m \<in> set (timer_list s). due s m \<noteq> 0 \<or> timer_periodic s m}
     \<and> (\<forall>m \<in> set (timer_list s').
          due s' m = (if due s m = 0 then timer_init_tick (timers s m) else due s m))
     \<and> (\<forall>m. timer_periodic s' m = timer_periodic s m
          \<and> timer_init_tick (timers s' m) = timer_init_tick (timers s m))"

lemma check_loop:
  assumes "I s" "timers_idle s" "card {m \<in> set (timer_list s). due s m = 0} < fuel"
  shows "\<exists>s'. timer_check_loop call fuel (tick s) s = Inr s' \<and> after_check s s'"
  using assms
proof (induction fuel arbitrary: s)
  case (Suc fuel)
  have ok: "timer_ok s" using Suc.prems(2) by (simp add: timers_idle_def timers_inv_def)
  show ?case
  proof (cases "timer_list s")
    case Nil
    then show ?thesis using Suc.prems by (simp add: after_check_def)
  next
    case (Cons m rest)
    have d: "distinct (m # rest)" "sorted (map (due s) (m # rest))"
      using ok Cons by (simp_all add: timer_ok_def)
    show ?thesis
    proof (cases "due s m = 0")
      case False
      then have "\<not> tick s - timeout_tick (timers s m) < RT_TICK_HALF"
        using expired_iff [OF ok, of m] Cons by simp
      moreover have "due s x \<noteq> 0" if "x \<in> set (timer_list s)" for x
        using that d Cons False by (auto simp: word_neq_0_conv [symmetric] intro: less_le_trans)
      ultimately show ?thesis using Suc.prems Cons by (auto simp: after_check_def Cons)
    next
      case True
      obtain s' where s': "call (timeout_func (timers s m)) (fire m s) = Inr s'"
        "timer_view s' (fire m s)" "I (finish m s')"
        using callback [OF Suc.prems(1,2) Cons True] by blast
      let ?f = "finish m s'"
      note step = check_round [where call = call, OF Suc.prems(2) Cons True s'(1,2), of fuel]
      have fin: "finite {x \<in> set (timer_list s). due s x = 0}" "m \<in> {x \<in> set (timer_list s). due s x = 0}"
        using True Cons by simp_all
      have per: "0 < timer_init_tick (timers s m)" if "timer_periodic s m"
        using Suc.prems(2) that Cons by (simp add: timers_idle_def timers_inv_def timer_typed_def)
      note one = round_oneshot [OF Suc.prems(2) Cons s'(2)]
      note per' = round_periodic [OF Suc.prems(2) Cons s'(2)]
      have set: "{x \<in> set (timer_list ?f). due ?f x = 0} = {x \<in> set (timer_list s). due s x = 0} - {m}"
        using d one per' per Cons by (cases "timer_periodic s m") auto
      have inv: "timers_idle ?f" "tick ?f = tick s" using one per' by (cases "timer_periodic s m"; simp)+
      have "card {x \<in> set (timer_list ?f). due ?f x = 0} < fuel"
        unfolding set card_Diff_singleton [OF fin(2)] using Suc.prems(3) fin card_gt_0_iff [of "{x \<in> set (timer_list s). due s x = 0}"]
        by fastforce
      from Suc.IH [OF s'(3) inv(1) this] obtain s2 where
        s2: "timer_check_loop call fuel (tick s) ?f = Inr s2" "after_check ?f s2"
        by (auto simp: inv)
      have "after_check s s2"
      proof (cases "timer_periodic s m")
        case p: True
        have "set (timer_list ?f) = set (timer_list s)" using per'(2) [OF p] Cons by simp
        then show ?thesis
          using s2(2) per' [OF p] per [OF p] True inv p unfolding after_check_def by auto
      next
        case o: False
        then show ?thesis
          using s2(2) one [OF o] True inv d Cons unfolding after_check_def by auto
      qed
      with s2 step show ?thesis by auto
    qed
  qed
qed simp

lemma check:
  assumes "I s" "timers_idle s" "length (timer_list s) < fuel"
  shows "\<exists>s'. rt_timer_check call fuel s = Inr s' \<and> after_check s s'"
proof -
  have "card {m \<in> set (timer_list s). due s m = 0} \<le> card (set (timer_list s))"
    by (intro card_mono) auto
  also have "\<dots> \<le> length (timer_list s)" by (rule card_length)
  finally have "card {m \<in> set (timer_list s). due s m = 0} < fuel" using assms(3) by simp
  moreover have "s\<lparr>timer_tmp := []\<rparr> = s" using assms(2) by (cases s) (simp add: timers_idle_def timers_inv_def)
  ultimately show ?thesis
    using check_loop [OF assms(1,2)] by (simp add: rt_timer_check_def rt_tick_get_def)
qed

end

text \<open>With every timer still ahead, the tick can advance.\<close>

lemma timers_idle_tick:
  assumes inv: "timers_idle s" and ahead: "\<forall>m \<in> set (timer_list s). due s m \<noteq> 0"
  shows "timers_idle (s\<lparr>tick := tick s + 1\<rparr>)"
    "due (s\<lparr>tick := tick s + 1\<rparr>) m = due s m - 1"
proof -
  let ?s = "s\<lparr>tick := tick s + 1\<rparr>"
  have d: "due ?s m = due s m - 1" for m by (simp add: due_def algebra_simps)
  have mono: "x - 1 \<le> y - 1" "x - 1 < RT_TICK_HALF" if "x \<le> y" "x \<noteq> 0" "x < RT_TICK_HALF" for x y :: u32
  proof -
    have "unat (x - 1) = unat x - 1" "y \<noteq> 0 \<Longrightarrow> unat (y - 1) = unat y - 1"
      using that by (simp_all add: unat_minus_one)
    moreover have "y \<noteq> 0" using that by (auto simp: word_neq_0_conv [symmetric])
    ultimately show "x - 1 \<le> y - 1" "x - 1 < RT_TICK_HALF"
      using that by (simp_all add: word_le_nat_alt word_less_nat_alt diff_le_mono)
  qed
  have ok: "timer_ok s" using inv by (simp add: timers_idle_def timers_inv_def)
  have "sorted (map (due ?s) (timer_list s))"
    using ok ahead unfolding timer_ok_def sorted_map
    by (auto simp: d sorted_wrt_map intro!: mono elim!: sorted_wrt_mono_rel [rotated])
  moreover have "\<forall>m \<in> set (timer_list s). due ?s m < RT_TICK_HALF"
    using ok ahead by (auto simp: d timer_ok_def intro: mono(2))
  ultimately have "timer_ok ?s" using ok by (simp add: timer_ok_def)
  then show "timers_idle ?s"
    using inv by (simp add: timers_idle_def timers_inv_def timer_flags_ok_def timer_typed_def timer_active_def
        timer_periodic_def rt_object_get_type_def)
  show "due ?s m = due s m - 1" by (rule d)
qed

text \<open>C20: starting a timer with any period below \<^verbatim>\<open>RT_TICK_MAX / 2\<close> puts it
  into the timer list by its distance from the current tick, also across the wrap of the 32-bit tick
  counter: the list stays sorted by distance, the timer is due exactly its period ahead, it is active,
  and the other timers keep their distance and their relative order.\<close>

theorem rt_timer_start_sorted:
  assumes "timer_ok s" "timer_init_tick (timers s m) < RT_TICK_HALF"
    and "rt_object_get_type (OTimer m) s = RT_Object_Class_Timer"
  shows "\<exists>s'. rt_timer_start m s = Inr (RT_EOK, s') \<and> timer_ok s' \<and> timer_active s' m
    \<and> m \<in> set (timer_list s') \<and> due s' m = timer_init_tick (timers s m)
    \<and> (\<forall>x. x \<noteq> m \<longrightarrow> due s' x = due s x)
    \<and> remove1 m (timer_list s') = remove1 m (timer_list s)"
proof -
  let ?P = "\<lambda>x. timer_init_tick (timers s m) < due s x"
  have "remove1 m (insert_when ?P m xs) = xs" if "m \<notin> set xs" for xs
    using that by (induction xs) auto
  moreover have "m \<notin> set (remove1 m (timer_list s))" using assms(1) by (simp add: timer_ok_def)
  ultimately have "remove1 m (timer_list (started_timer m s)) = remove1 m (timer_list s)"
    by (simp add: started_timer_list [OF assms(1,2)])
  then show ?thesis
    using rt_timer_start_eq [OF assms(3)] started_timer_ok [OF assms(1,2)]
    by (simp add: started_timer_fields)
qed

text \<open>The witness starts a 32-tick timer 16 ticks before the counter wraps.\<close>

theorem rt_timer_start_sorted_witness:
  "\<exists>s'. rt_timer_start (TUser 0) (upd_timer (TUser 0) (\<lambda>t. t\<lparr>timer_init_tick := 32\<rparr>) demo_kernel)
      = Inr (RT_EOK, s') \<and> timer_ok s' \<and> timeout_tick (timers s' (TUser 0)) = 16"
proof -
  let ?s = "upd_timer (TUser 0) (\<lambda>t. t\<lparr>timer_init_tick := 32\<rparr>) demo_kernel"
  have "timer_ok ?s" "timer_init_tick (timers ?s (TUser 0)) = 32" "tick ?s = 0xfffffff0"
    "rt_object_get_type (OTimer (TUser 0)) ?s = RT_Object_Class_Timer"
    by (simp_all add: timer_ok_def upd_timer_def demo_kernel_def rt_object_get_type_def)
  with rt_timer_start_sorted [of ?s "TUser 0"] obtain s' where
    "rt_timer_start (TUser 0) ?s = Inr (RT_EOK, s')" "timer_ok s'" "due s' (TUser 0) = 32" by auto
  moreover from this(1) have "tick s' = 0xfffffff0"
    using \<open>tick ?s = 0xfffffff0\<close>
    by (auto simp: rt_timer_start_def assert_then_eq_Inr Let_def upd_timer_def)
  ultimately show ?thesis by (auto simp: due_def diff_eq_eq)
qed

end
