(* ===== verification/KService.thy ===== *)
theory KService
  imports BitUtil
begin

text \<open>
  The memory and string services of \<^verbatim>\<open>rt-thread/src/kservice.c\<close> (neither
  \<^verbatim>\<open>RT_KSERVICE_USING_STDLIB\<close> nor the tiny variants are configured, so the blocked
  loops are the ones built).  Memory is a function from addresses to bytes; a machine word is the four
  bytes at its address.  The word-at-a-time loops are proved equal to the bytewise specification.
  \<^verbatim>\<open>char\<close> is unsigned on this target.
\<close>

type_synonym memory = "nat \<Rightarrow> u8"

section \<open>Specifications\<close>

definition fill :: "memory \<Rightarrow> nat \<Rightarrow> nat \<Rightarrow> u8 \<Rightarrow> memory" where
  "fill m a n d = (\<lambda>x. if a \<le> x \<and> x < a + n then d else m x)"

definition copied :: "memory \<Rightarrow> nat \<Rightarrow> nat \<Rightarrow> nat \<Rightarrow> memory" where
  "copied m dst src n = (\<lambda>x. if dst \<le> x \<and> x < dst + n then m (src + (x - dst)) else m x)"

section \<open>rt_memset\<close>

text \<open>A word store: four equal bytes of the buffer.\<close>

definition store_word :: "memory \<Rightarrow> nat \<Rightarrow> u8 list \<Rightarrow> memory" where
  "store_word m a w = m(a := w ! 0, a + 1 := w ! 1, a + 2 := w ! 2, a + 3 := w ! 3)"

definition load_word :: "memory \<Rightarrow> nat \<Rightarrow> u8 list" where
  "load_word m a = [m a, m (a + 1), m (a + 2), m (a + 3)]"

fun memset_byte_loop :: "memory \<Rightarrow> nat \<Rightarrow> u8 \<Rightarrow> nat \<Rightarrow> memory" where
  "memset_byte_loop m p d 0 = m"
| "memset_byte_loop m p d (Suc count) = memset_byte_loop (m(p := d)) (p + 1) d count"

fun memset_word_loop :: "memory \<Rightarrow> nat \<Rightarrow> u8 \<Rightarrow> nat \<Rightarrow> memory \<times> nat \<times> nat" where
  "memset_word_loop m p d count =
     (if count \<ge> 4 then memset_word_loop (store_word m p [d, d, d, d]) (p + 4) d (count - 4)
      else (m, p, count))"

declare memset_word_loop.simps [simp del]

fun memset_block_loop :: "memory \<Rightarrow> nat \<Rightarrow> u8 \<Rightarrow> nat \<Rightarrow> memory \<times> nat \<times> nat" where
  "memset_block_loop m p d count =
     (if count \<ge> 16 then
        memset_block_loop
          (store_word (store_word (store_word (store_word m p [d, d, d, d])
             (p + 4) [d, d, d, d]) (p + 8) [d, d, d, d]) (p + 12) [d, d, d, d])
          (p + 16) d (count - 16)
      else (m, p, count))"

declare memset_block_loop.simps [simp del]

definition rt_memset :: "memory \<Rightarrow> nat \<Rightarrow> u8 \<Rightarrow> nat \<Rightarrow> memory" where
  "rt_memset m s c count =
     (if count \<ge> 4 \<and> s mod 4 = 0 then
        let (m, p, count) = memset_block_loop m s c count;
            (m, p, count) = memset_word_loop m p c count
        in memset_byte_loop m p c count
      else memset_byte_loop m s c count)"

lemma mod_block:
  assumes "b \<le> (n::nat)"
  shows "(n - b) mod b = n mod b" "b + (n - b - n mod b) = n - n mod b"
proof -
  show e: "(n - b) mod b = n mod b" using assms by (simp add: le_mod_geq)
  have "(n - b) mod b \<le> n - b" by (rule mod_less_eq_dividend)
  then show "b + (n - b - n mod b) = n - n mod b" using assms e by linarith
qed

lemma fill_fill: "fill (fill m a n d) (a + n) k d = fill m a (n + k) d"
  by (rule ext) (auto simp: fill_def)

lemma fill_0 [simp]: "fill m a 0 d = m"
  by (rule ext) (auto simp: fill_def)

lemma store_word_fill: "store_word m p [d, d, d, d] = fill m p 4 d"
proof (rule ext)
  fix x
  have "p \<le> x \<and> x < p + 4 \<longleftrightarrow> x = p \<or> x = p + 1 \<or> x = p + 2 \<or> x = p + 3" by linarith
  then show "store_word m p [d, d, d, d] x = fill m p 4 d x"
    by (simp add: store_word_def fill_def)
qed

lemma memset_byte_loop_fill: "memset_byte_loop m p d n = fill m p n d"
proof (induction n arbitrary: m p)
  case (Suc n)
  have "m(p := d) = fill m p 1 d" by (rule ext) (auto simp: fill_def)
  then show ?case using Suc fill_fill [of m p 1 d n] by (simp add: add.commute)
qed simp

lemma memset_word_loop_fill:
  "memset_word_loop m p d n = (fill m p (n - n mod 4) d, p + (n - n mod 4), n mod 4)"
proof (induction m p d n rule: memset_word_loop.induct)
  case (1 m p d n)
  show ?case
  proof (cases "n \<ge> 4")
    case True
    note e = mod_block [OF True]
    then show ?thesis
      using 1 True fill_fill [of m p 4 d "n - 4 - n mod 4"] e
      by (subst memset_word_loop.simps) (simp add: store_word_fill add.assoc)
  next
    case False
    then show ?thesis by (subst memset_word_loop.simps) simp
  qed
qed

lemma memset_block_loop_fill:
  "memset_block_loop m p d n = (fill m p (n - n mod 16) d, p + (n - n mod 16), n mod 16)"
proof (induction m p d n rule: memset_block_loop.induct)
  case (1 m p d n)
  show ?case
  proof (cases "n \<ge> 16")
    case True
    note e = mod_block [OF True]
    have "store_word (store_word (store_word (store_word m p [d, d, d, d])
        (p + 4) [d, d, d, d]) (p + 8) [d, d, d, d]) (p + 12) [d, d, d, d] = fill m p 16 d"
      using fill_fill [of m p 4 d 4] fill_fill [of m p 8 d 4] fill_fill [of m p 12 d 4]
      by (simp add: store_word_fill)
    then show ?thesis
      using 1 True fill_fill [of m p 16 d "n - 16 - n mod 16"] e
      by (subst memset_block_loop.simps) (simp add: add.assoc)
  next
    case False
    then show ?thesis by (subst memset_block_loop.simps) simp
  qed
qed

lemma rt_memset_fill: "rt_memset m s c n = fill m s n c"
proof -
  let ?k = "n mod 16"
  have "n - ?k + (?k - ?k mod 4) + ?k mod 4 = n" by simp
  then show ?thesis
    using fill_fill [of m s "n - ?k" c "?k - ?k mod 4"]
      fill_fill [of m s "n - ?k + (?k - ?k mod 4)" c "?k mod 4"]
    by (simp add: rt_memset_def memset_byte_loop_fill memset_word_loop_fill memset_block_loop_fill
        add.assoc)
qed

section \<open>rt_memcpy and rt_memmove\<close>

fun memcpy_byte_loop :: "memory \<Rightarrow> nat \<Rightarrow> nat \<Rightarrow> nat \<Rightarrow> memory" where
  "memcpy_byte_loop m d s 0 = m"
| "memcpy_byte_loop m d s (Suc len) = memcpy_byte_loop (m(d := m s)) (d + 1) (s + 1) len"

definition copy_word :: "memory \<Rightarrow> nat \<Rightarrow> nat \<Rightarrow> memory" where
  "copy_word m d s = store_word m d (load_word m s)"

fun memcpy_word_loop :: "memory \<Rightarrow> nat \<Rightarrow> nat \<Rightarrow> nat \<Rightarrow> memory \<times> nat \<times> nat \<times> nat" where
  "memcpy_word_loop m d s len =
     (if len \<ge> 4 then memcpy_word_loop (copy_word m d s) (d + 4) (s + 4) (len - 4)
      else (m, d, s, len))"

declare memcpy_word_loop.simps [simp del]

fun memcpy_block_loop :: "memory \<Rightarrow> nat \<Rightarrow> nat \<Rightarrow> nat \<Rightarrow> memory \<times> nat \<times> nat \<times> nat" where
  "memcpy_block_loop m d s len =
     (if len \<ge> 16 then
        memcpy_block_loop
          (copy_word (copy_word (copy_word (copy_word m d s) (d + 4) (s + 4)) (d + 8) (s + 8))
             (d + 12) (s + 12))
          (d + 16) (s + 16) (len - 16)
      else (m, d, s, len))"

declare memcpy_block_loop.simps [simp del]

definition rt_memcpy :: "memory \<Rightarrow> nat \<Rightarrow> nat \<Rightarrow> nat \<Rightarrow> memory" where
  "rt_memcpy m dst src count =
     (if count \<ge> 16 \<and> src mod 4 = 0 \<and> dst mod 4 = 0 then
        let (m, d, s, len) = memcpy_block_loop m dst src count;
            (m, d, s, len) = memcpy_word_loop m d s len
        in memcpy_byte_loop m d s len
      else memcpy_byte_loop m dst src count)"

text \<open>The backward loop: both pointers start past the end and are decremented first.\<close>

fun memmove_back_loop :: "memory \<Rightarrow> nat \<Rightarrow> nat \<Rightarrow> nat \<Rightarrow> memory" where
  "memmove_back_loop m tmp s 0 = m"
| "memmove_back_loop m tmp s (Suc n) =
     memmove_back_loop (m(tmp - 1 := m (s - 1))) (tmp - 1) (s - 1) n"

definition rt_memmove :: "memory \<Rightarrow> nat \<Rightarrow> nat \<Rightarrow> nat \<Rightarrow> memory" where
  "rt_memmove m dest src n =
     (if src < dest \<and> dest < src + n then memmove_back_loop m (dest + n) (src + n) n
      else memcpy_byte_loop m dest src n)"

lemma copied_0 [simp]: "copied m d s 0 = m"
  by (rule ext) (auto simp: copied_def)

lemma copied_copied:
  assumes "d \<le> s \<or> s + (k + n) \<le> d"
  shows "copied (copied m d s k) (d + k) (s + k) n = copied m d s (k + n)"
proof (rule ext)
  fix x
  have "s + (x - d) < d \<or> d + k \<le> s + (x - d)" if "d + k \<le> x" "x < d + k + n"
    using assms that by linarith
  then show "copied (copied m d s k) (d + k) (s + k) n x = copied m d s (k + n) x"
    by (auto simp: copied_def)
qed

lemma copy_word_copied: "copy_word m d s = copied m d s 4"
proof (rule ext)
  fix x
  have "d \<le> x \<and> x < d + 4 \<longleftrightarrow> x = d \<or> x = d + 1 \<or> x = d + 2 \<or> x = d + 3" by linarith
  then show "copy_word m d s x = copied m d s 4 x"
    by (auto simp: copy_word_def store_word_def load_word_def copied_def)
qed

lemma memcpy_byte_loop_copied:
  "d \<le> s \<or> s + n \<le> d \<Longrightarrow> memcpy_byte_loop m d s n = copied m d s n"
proof (induction n arbitrary: m d s)
  case (Suc n)
  have "m(d := m s) = copied m d s 1" by (rule ext) (auto simp: copied_def)
  then show ?case using Suc copied_copied [of d s 1 n m] by auto
qed simp

lemma memcpy_word_loop_copied:
  "d \<le> s \<or> s + n \<le> d \<Longrightarrow> memcpy_word_loop m d s n =
     (copied m d s (n - n mod 4), d + (n - n mod 4), s + (n - n mod 4), n mod 4)"
proof (induction m d s n rule: memcpy_word_loop.induct)
  case (1 m d s n)
  show ?case
  proof (cases "n \<ge> 4")
    case True
    note e = mod_block [OF True]
    have "d \<le> s \<or> s + (4 + (n - 4 - n mod 4)) \<le> d" using 1(2) e by linarith
    moreover have "d + 4 \<le> s + 4 \<or> s + 4 + (n - 4) \<le> d + 4" using 1(2) True by linarith
    ultimately show ?thesis
      using 1(1) True copied_copied [of d s 4 "n - 4 - n mod 4" m] e
      by (subst memcpy_word_loop.simps) (simp add: copy_word_copied add.assoc)
  next
    case False
    then show ?thesis by (subst memcpy_word_loop.simps) simp
  qed
qed

lemma memcpy_block_loop_copied:
  "d \<le> s \<or> s + n \<le> d \<Longrightarrow> memcpy_block_loop m d s n =
     (copied m d s (n - n mod 16), d + (n - n mod 16), s + (n - n mod 16), n mod 16)"
proof (induction m d s n rule: memcpy_block_loop.induct)
  case (1 m d s n)
  show ?case
  proof (cases "n \<ge> 16")
    case True
    note e = mod_block [OF True]
    have w: "d \<le> s \<or> s + 16 \<le> d" using 1(2) True by linarith
    have "copy_word (copy_word (copy_word (copy_word m d s) (d + 4) (s + 4)) (d + 8) (s + 8))
        (d + 12) (s + 12) = copied m d s 16"
      using w copied_copied [of d s 4 4 m] copied_copied [of d s 8 4 m]
        copied_copied [of d s 12 4 m] by (auto simp: copy_word_copied)
    moreover have "d \<le> s \<or> s + (16 + (n - 16 - n mod 16)) \<le> d" using 1(2) e by linarith
    moreover have "d + 16 \<le> s + 16 \<or> s + 16 + (n - 16) \<le> d + 16" using 1(2) True by linarith
    ultimately show ?thesis
      using 1(1) True e copied_copied [of d s 16 "n - 16 - n mod 16" m]
      by (subst memcpy_block_loop.simps) (simp add: add.assoc)
  next
    case False
    then show ?thesis by (subst memcpy_block_loop.simps) simp
  qed
qed

lemma rt_memcpy_copied:
  assumes "d \<le> s \<or> s + n \<le> d"
  shows "rt_memcpy m d s n = copied m d s n"
proof -
  define k where "k = n mod 16"
  define a where "a = n - k"
  define r where "r = k mod 4"
  define b where "b = k - r"
  have n: "n = a + b + r" "k = b + r"
    by (simp_all add: a_def b_def r_def k_def)
  have blk: "memcpy_block_loop m d s n = (copied m d s a, d + a, s + a, k)"
    using memcpy_block_loop_copied [OF assms, of m] by (simp only: k_def [symmetric] a_def [symmetric])
  have "d + a \<le> s + a \<or> s + a + k \<le> d + a" using assms n by linarith
  from memcpy_word_loop_copied [OF this]
  have wrd: "memcpy_word_loop m' (d + a) (s + a) k =
      (copied m' (d + a) (s + a) b, d + a + b, s + a + b, r)" for m'
    by (simp only: r_def [symmetric] b_def [symmetric])
  have "d + a + b \<le> s + a + b \<or> s + a + b + r \<le> d + a + b" using assms n by linarith
  note byt = memcpy_byte_loop_copied [OF this]
  have "d \<le> s \<or> s + (a + b) \<le> d" "d \<le> s \<or> s + (a + b + r) \<le> d" using assms n by linarith+
  then have "copied (copied (copied m d s a) (d + a) (s + a) b) (d + a + b) (s + a + b) r = copied m d s n"
    using copied_copied [of d s a b m] copied_copied [of d s "a + b" r m] n by (simp add: add.assoc)
  then show ?thesis
    using assms by (simp add: rt_memcpy_def blk wrd byt memcpy_byte_loop_copied)
qed

lemma memmove_back_loop_copied:
  "s < d \<Longrightarrow> memmove_back_loop m (d + n) (s + n) n = copied m d s n"
proof (induction n arbitrary: m)
  case (Suc n)
  let ?m = "m(d + n := m (s + n))"
  have "memmove_back_loop m (d + Suc n) (s + Suc n) (Suc n) = copied ?m d s n"
    using Suc by simp
  also have "\<dots> = copied m d s (Suc n)"
  proof (rule ext)
    fix x
    have "s + (x - d) \<noteq> d + n" if "d \<le> x" "x < d + n" using Suc.prems that by linarith
    then show "copied ?m d s n x = copied m d s (Suc n) x"
      by (auto simp: copied_def less_Suc_eq)
  qed
  finally show ?case .
qed simp

lemma rt_memmove_copied: "rt_memmove m d s n = copied m d s n"
  using memmove_back_loop_copied [of s d m n] memcpy_byte_loop_copied [of d s n m]
  by (auto simp: rt_memmove_def not_less)

section \<open>Properties of the memory services\<close>

text \<open>\<^verbatim>\<open>rt_memset\<close> and \<^verbatim>\<open>rt_memcpy\<close> with their word-blocked
  loops set, respectively copy, exactly the bytes asked for, whatever the alignment and the length,
  and change no other byte.  For the copy the ranges must not overlap with the destination above the
  source.\<close>

lemma memset_memcpy_exact:
  assumes "dst \<le> src \<or> src + n \<le> dst"
  shows "(\<forall>x. rt_memset m p c k x = (if p \<le> x \<and> x < p + k then c else m x))
    \<and> (\<forall>x. rt_memcpy m dst src n x =
          (if dst \<le> x \<and> x < dst + n then m (src + (x - dst)) else m x))"
  using assms by (simp add: rt_memset_fill fill_def rt_memcpy_copied copied_def)

lemma memset_memcpy_exact_example:
  "rt_memcpy (\<lambda>x. word_of_nat x) 100 20 21 120 = 40"
  using memset_memcpy_exact [of 100 20 21 "\<lambda>x. word_of_nat x"] by simp

text \<open>C26: \<^verbatim>\<open>rt_memmove\<close> delivers the original source bytes at the destination for
  every overlap of the two ranges, and changes no other byte.\<close>

theorem memmove_any_overlap:
  "rt_memmove m dest src n x =
     (if dest \<le> x \<and> x < dest + n then m (src + (x - dest)) else m x)"
  by (simp add: rt_memmove_copied copied_def)

section \<open>Strings\<close>

text \<open>A C string argument is the array of bytes the pointer points at; reading past the array is
  the result None.  First the bytes \<^verbatim>\<open>rt_strncpy\<close> writes at
  \<^verbatim>\<open>dst\<close>.\<close>

fun rt_strncpy :: "u8 list \<Rightarrow> nat \<Rightarrow> u8 list option" where
  "rt_strncpy src 0 = Some []"
| "rt_strncpy [] (Suc n) = None"
| "rt_strncpy (c # src) (Suc n) =
     (if c = 0 then Some (0 # replicate n 0)
      else map_option (\<lambda>d. c # d) (rt_strncpy src n))"

text \<open>The bytes \<^verbatim>\<open>rt_strcpy\<close> writes.\<close>

fun rt_strcpy :: "u8 list \<Rightarrow> u8 list option" where
  "rt_strcpy [] = None"
| "rt_strcpy (c # src) = (if c \<noteq> 0 then map_option (\<lambda>d. c # d) (rt_strcpy src) else Some [0])"

text \<open>The difference is kept in a \<^verbatim>\<open>signed char\<close>.\<close>

definition schar :: "int \<Rightarrow> int" where
  "schar x = (x + 128) mod 256 - 128"

fun rt_strncmp :: "u8 list \<Rightarrow> u8 list \<Rightarrow> nat \<Rightarrow> int option" where
  "rt_strncmp cs ct 0 = Some 0"
| "rt_strncmp (a # cs) (b # ct) (Suc count) =
     (let res = schar (uint a - uint b)
      in if res \<noteq> 0 \<or> a = 0 then Some res else rt_strncmp cs ct count)"
| "rt_strncmp _ _ (Suc count) = None"

fun rt_strcmp :: "u8 list \<Rightarrow> u8 list \<Rightarrow> int option" where
  "rt_strcmp (a # cs) (b # ct) =
     (if a \<noteq> 0 \<and> a = b then rt_strcmp cs ct else Some (uint a - uint b))"
| "rt_strcmp _ _ = None"

definition to_lower :: "int \<Rightarrow> int" where
  "to_lower c = (if 65 \<le> c \<and> c \<le> 90 then c + 32 else c)"

fun rt_strcasecmp :: "u8 list \<Rightarrow> u8 list \<Rightarrow> int option" where
  "rt_strcasecmp (a # as) (b # bs) =
     (let ca = to_lower (uint a); cb = to_lower (uint b)
      in if ca = cb \<and> ca \<noteq> 0 then rt_strcasecmp as bs else Some (ca - cb))"
| "rt_strcasecmp _ _ = None"

fun rt_strlen :: "u8 list \<Rightarrow> nat option" where
  "rt_strlen [] = None"
| "rt_strlen (c # s) = (if c \<noteq> 0 then map_option Suc (rt_strlen s) else Some 0)"

text \<open>The byte is read before the bound is looked at.\<close>

fun rt_strnlen :: "u8 list \<Rightarrow> nat \<Rightarrow> nat option" where
  "rt_strnlen [] maxlen = None"
| "rt_strnlen (c # s) maxlen =
     (if c \<noteq> 0 \<and> 0 < maxlen then map_option Suc (rt_strnlen s (maxlen - 1)) else Some 0)"

fun rt_memcmp :: "u8 list \<Rightarrow> u8 list \<Rightarrow> nat \<Rightarrow> int option" where
  "rt_memcmp cs ct 0 = Some 0"
| "rt_memcmp (a # cs) (b # ct) (Suc count) =
     (if uint a - uint b \<noteq> 0 then Some (uint a - uint b) else rt_memcmp cs ct count)"
| "rt_memcmp _ _ (Suc count) = None"

text \<open>The offset at which \<^verbatim>\<open>rt_strstr\<close> finds the second string; \<open>l1\<close> is
  the length left.\<close>

fun strstr_loop :: "u8 list \<Rightarrow> u8 list \<Rightarrow> nat \<Rightarrow> nat \<Rightarrow> nat \<Rightarrow> nat option option" where
  "strstr_loop s1 s2 l1 l2 off =
     (if l2 \<le> l1 \<and> 0 < l2 then
        case rt_memcmp s1 s2 l2 of
          None \<Rightarrow> None
        | Some r \<Rightarrow> if r = 0 then Some (Some off)
                    else strstr_loop (tl s1) s2 (l1 - 1) l2 (Suc off)
      else Some None)"

declare strstr_loop.simps [simp del]

definition rt_strstr :: "u8 list \<Rightarrow> u8 list \<Rightarrow> nat option option" where
  "rt_strstr s1 s2 =
     (case rt_strlen s2 of None \<Rightarrow> None
      | Some l2 \<Rightarrow> if l2 = 0 then Some (Some 0)
        else case rt_strlen s1 of None \<Rightarrow> None
        | Some l1 \<Rightarrow> strstr_loop s1 s2 l1 l2 0)"

text \<open>The string an array holds.\<close>

definition cstr :: "u8 list \<Rightarrow> u8 list" where
  "cstr s = takeWhile (\<lambda>c. c \<noteq> 0) s"

lemma cstr_simps [simp]: "cstr [] = []" "cstr (c # s) = (if c = 0 then [] else c # cstr s)"
  by (simp_all add: cstr_def)

lemma rt_strlen_cstr: "0 \<in> set s \<Longrightarrow> rt_strlen s = Some (length (cstr s))"
  by (induction s) auto

lemma rt_strnlen_cstr: "0 \<in> set s \<or> n < length s \<Longrightarrow> rt_strnlen s n = Some (min n (length (cstr s)))"
proof (induction s arbitrary: n)
  case (Cons c s)
  show ?case
  proof (cases "c \<noteq> 0 \<and> 0 < n")
    case True
    then have "rt_strnlen s (n - 1) = Some (min (n - 1) (length (cstr s)))"
      using Cons.prems by (intro Cons.IH) auto
    with True show ?thesis by (auto simp: min_def)
  qed auto
qed simp

lemma rt_strncpy_cstr:
  "0 \<in> set s \<or> n \<le> length s \<Longrightarrow> rt_strncpy s n = Some (take n (cstr s @ replicate n 0))"
proof (induction s n rule: rt_strncpy.induct)
  case (3 c src n)
  then have "c \<noteq> 0 \<Longrightarrow> rt_strncpy src n = Some (take n (cstr src @ replicate n 0))" by auto
  moreover have "take n (cstr src @ 0 # replicate n 0) = take n (cstr src @ replicate n (0::u8))"
    by (simp add: replicate_append_same [symmetric] flip: append_assoc replicate_Suc)
  ultimately show ?case by auto
qed auto

lemma rt_strcpy_cstr: "0 \<in> set s \<Longrightarrow> rt_strcpy s = Some (cstr s @ [0])"
  by (induction s) auto

lemma schar_zero: "schar (uint (a::u8) - uint b) = 0 \<longleftrightarrow> a = b"
proof -
  let ?x = "uint a - uint b"
  have "uint a < 256" "uint b < 256" using uint_lt2p [of a] uint_lt2p [of b] by simp_all
  then have x: "\<bar>?x\<bar> < 256" using uint_ge_0 [of a] uint_ge_0 [of b] by linarith
  have "schar ?x = 0 \<longleftrightarrow> (?x + 128) mod 256 = 128 mod 256" by (simp add: schar_def)
  also have "\<dots> \<longleftrightarrow> 256 dvd ?x" using mod_eq_dvd_iff [of "?x + 128" 256 128] by simp
  also have "\<dots> \<longleftrightarrow> ?x = 0" using x dvd_imp_le_int [of ?x 256] by auto
  finally show ?thesis by (simp add: word_uint_eq_iff)
qed

lemma schar_0 [simp]: "schar 0 = 0"
  by (simp add: schar_def)

lemma rt_strncmp_eq:
  "0 \<in> set s \<or> n \<le> length s \<Longrightarrow> 0 \<in> set t \<or> n \<le> length t \<Longrightarrow>
     \<exists>r. rt_strncmp s t n = Some r \<and> (r = 0 \<longleftrightarrow> take n (cstr s) = take n (cstr t))"
proof (induction n arbitrary: s t)
  case (Suc n)
  then obtain a cs b ct where st: "s = a # cs" "t = b # ct" by (cases s; cases t) auto
  show ?case
  proof (cases "a = b \<and> a \<noteq> 0")
    case True
    with Suc.prems st have "0 \<in> set cs \<or> n \<le> length cs" "0 \<in> set ct \<or> n \<le> length ct" by auto
    from Suc.IH [OF this] True show ?thesis by (simp add: st)
  next
    case False
    then have "rt_strncmp s t (Suc n) = Some (schar (uint a - uint b))"
      by (auto simp: st Let_def schar_zero)
    moreover have "a = b \<longleftrightarrow> take (Suc n) (cstr s) = take (Suc n) (cstr t)"
      using False by (auto simp: st)
    ultimately show ?thesis by (simp add: schar_zero)
  qed
qed simp

lemma rt_strcmp_eq:
  "0 \<in> set s \<Longrightarrow> 0 \<in> set t \<Longrightarrow> \<exists>r. rt_strcmp s t = Some r \<and> (r = 0 \<longleftrightarrow> cstr s = cstr t)
     \<and> (r < 0 \<longleftrightarrow> (cstr s, cstr t) \<in> lexord {(a, b). a < b})"
proof (induction s arbitrary: t)
  case (Cons a cs)
  then obtain b ct where t: "t = b # ct" by (cases t) auto
  show ?case
  proof (cases "a = b \<and> a \<noteq> 0")
    case True
    with Cons.prems t have "0 \<in> set cs" "0 \<in> set ct" by auto
    from Cons.IH [OF this] True show ?thesis by (simp add: t)
  next
    case False
    have "rt_strcmp (a # cs) t = Some (uint a - uint b)" using False by (auto simp: t)
    moreover have "uint a - uint b = 0 \<longleftrightarrow> a = b" by (simp add: word_uint_eq_iff)
    moreover have "uint a - uint b < 0 \<longleftrightarrow> a < b" by (simp add: word_less_def)
    moreover have "a < b \<longleftrightarrow> (cstr (a # cs), cstr t) \<in> lexord {(a, b). a < b}"
      using False by (cases "a = 0"; cases "b = 0") (simp_all add: t word_gt_0)
    moreover have "a = b \<longleftrightarrow> cstr (a # cs) = cstr t"
      using False by (cases "a = 0"; cases "b = 0") (simp_all add: t)
    ultimately show ?thesis by simp
  qed
qed simp

section \<open>Properties of the string services\<close>

text \<open>The string functions agree with the strings the arrays hold: a copy of \<open>n\<close>
  bytes is the string cut or padded with NUL to exactly \<open>n\<close> bytes, and
  \<^verbatim>\<open>rt_strncmp\<close> returns zero exactly when the first \<open>n\<close> characters agree,
  \<^verbatim>\<open>rt_strcmp\<close> zero when the strings are equal and a negative number when the first is
  lexicographically smaller.\<close>

lemma string_services:
  assumes "0 \<in> set s" "0 \<in> set t"
  shows "rt_strncpy s n = Some (take n (cstr s @ replicate n 0))
    \<and> rt_strlen s = Some (length (cstr s)) \<and> rt_strcpy s = Some (cstr s @ [0])
    \<and> (\<exists>r. rt_strncmp s t n = Some r \<and> (r = 0 \<longleftrightarrow> take n (cstr s) = take n (cstr t)))
    \<and> (\<exists>r. rt_strcmp s t = Some r \<and> (r = 0 \<longleftrightarrow> cstr s = cstr t)
         \<and> (r < 0 \<longleftrightarrow> (cstr s, cstr t) \<in> lexord {(a, b). a < b}))"
  using assms by (intro conjI rt_strncmp_eq rt_strcmp_eq)
    (simp_all add: rt_strncpy_cstr rt_strlen_cstr rt_strcpy_cstr)

lemma string_services_example:
  "rt_strncpy [97, 98, 99, 0] 2 = Some (take 2 (cstr [97, 98, 99, 0] @ replicate 2 0))"
  by (rule string_services [where t = "[0]", THEN conjunct1]) simp_all

text \<open>\<^verbatim>\<open>rt_strncmp\<close> keeps the difference of the two bytes in a
  \<^verbatim>\<open>signed char\<close>, so for bytes more than 127 apart its sign is the opposite of
  the order \<^verbatim>\<open>rt_strcmp\<close> reports.\<close>

lemma strncmp_sign_wraps:
  assumes "uint a - uint b > 127"
  shows "(\<exists>r. rt_strncmp [a, 0] [b, 0] 1 = Some r \<and> r < 0)
    \<and> (\<exists>r. rt_strcmp [a, 0] [b, 0] = Some r \<and> r > 0)"
proof -
  have "uint a < 256" using uint_lt2p [of a] by simp
  then have "uint a - uint b < 256" using uint_ge_0 [of b] by linarith
  moreover have "a \<noteq> b" using assms by auto
  moreover from calculation have "(uint a - uint b + 128) mod 256 = uint a - uint b - 128"
    using assms minus_mod_self2 [of "uint a - uint b + 128" 256]
      mod_pos_pos_trivial [of "uint a - uint b - 128" 256] by simp
  then have "schar (uint a - uint b) = uint a - uint b - 256" by (simp add: schar_def)
  ultimately show ?thesis using assms by simp
qed

lemma strncmp_sign_wraps_example:
  "\<exists>r. rt_strncmp [200, 0] [50, 0] 1 = Some r \<and> r < 0"
  using strncmp_sign_wraps [of 200 50] by (auto simp del: rt_strncmp.simps)

end
