(* ===== verification/Object.thy ===== *)
theory Object
  imports Timer KService
begin

text \<open>
  Kernel objects, \<^verbatim>\<open>rt-thread/src/object.c\<close>: a container of objects per class,
  registration with a name of at most 8 bytes, lookup by name.  The block a dynamic object is allocated
  in comes from the heap and is an argument (None: out of memory).
\<close>

section \<open>Containers\<close>

text \<open>The classes \<^verbatim>\<open>_object_container\<close> has an entry for in this configuration.\<close>

definition rt_object_get_information :: "u8 \<Rightarrow> bool" where
  "rt_object_get_information type \<longleftrightarrow> type \<in> {RT_Object_Class_Thread, RT_Object_Class_Semaphore,
     RT_Object_Class_Mutex, RT_Object_Class_Event, RT_Object_Class_MailBox,
     RT_Object_Class_MessageQueue, RT_Object_Class_MemPool, RT_Object_Class_Device,
     RT_Object_Class_Timer, RT_Object_Class_Memory}"

definition rt_object_get_length :: "u8 \<Rightarrow> kernel \<Rightarrow> nat" where
  "rt_object_get_length type s =
     (if rt_object_get_information type then length (containers s type) else 0)"

definition rt_object_get_pointers :: "u8 \<Rightarrow> int \<Rightarrow> kernel \<Rightarrow> oid list" where
  "rt_object_get_pointers type maxlen s =
     (if maxlen \<le> 0 \<or> \<not> rt_object_get_information type then []
      else take (nat maxlen) (containers s type))"

definition container_push :: "u8 \<Rightarrow> oid \<Rightarrow> kernel \<Rightarrow> kernel" where
  "container_push type i s = s\<lparr>containers := (containers s)(type := i # containers s type)\<rparr>"

definition container_remove :: "oid \<Rightarrow> kernel \<Rightarrow> kernel" where
  "container_remove i s = s\<lparr>containers := \<lambda>c. remove1 i (containers s c)\<rparr>"

section \<open>Registration\<close>

definition rt_object_init :: "oid \<Rightarrow> u8 \<Rightarrow> u8 list \<Rightarrow> kernel \<Rightarrow> kernel res" where
  "rt_object_init i type name s =
     assert_then (rt_object_get_information type) (
     let s = rt_enter_critical s
     in assert_then (i \<notin> set (containers s type)) (
        bind_res (rt_exit_critical s) (\<lambda>s.
        case rt_strncpy name RT_NAME_MAX of None \<Rightarrow> Inl BadAccess
        | Some n \<Rightarrow>
          Inr (container_push type i
            (upd_obj i (\<lambda>x. x\<lparr>obj_type := type OR RT_Object_Class_Static, obj_name := n\<rparr>) s)))))"

definition rt_object_detach :: "oid \<Rightarrow> kernel \<Rightarrow> kernel" where
  "rt_object_detach i s = container_remove i (upd_obj i (\<lambda>x. x\<lparr>obj_type := 0\<rparr>) s)"

definition rt_object_allocate ::
  "oid option \<Rightarrow> u8 \<Rightarrow> u8 list \<Rightarrow> kernel \<Rightarrow> (oid option \<times> kernel) res" where
  "rt_object_allocate block type name s =
     assert_then (RT_DEBUG_NOT_IN_INTERRUPT s) (
     assert_then (rt_object_get_information type) (
     case block of None \<Rightarrow> Inr (None, s)
     | Some i \<Rightarrow>
       (case rt_strncpy name RT_NAME_MAX of None \<Rightarrow> Inl BadAccess
        | Some n \<Rightarrow> Inr (Some i, container_push type i
            (upd_obj i (\<lambda>_. \<lparr>obj_name = n, obj_type = type, obj_flag = 0\<rparr>) s)))))"

definition rt_object_delete :: "oid \<Rightarrow> kernel \<Rightarrow> kernel res" where
  "rt_object_delete i s =
     assert_then (obj_type (objs s i) AND RT_Object_Class_Static = 0)
       (Inr (container_remove i (upd_obj i (\<lambda>x. x\<lparr>obj_type := 0\<rparr>) s)))"

section \<open>Lookup\<close>

text \<open>The first object of the container whose name agrees, with the outcome of the comparison
  that failed to stay in bounds as None.\<close>

fun find_by_name :: "kernel \<Rightarrow> u8 list \<Rightarrow> oid list \<Rightarrow> oid option option" where
  "find_by_name s name [] = Some None"
| "find_by_name s name (i # is) =
     (case rt_strncmp (obj_name (objs s i)) name RT_NAME_MAX of None \<Rightarrow> None
      | Some r \<Rightarrow> if r = 0 then Some (Some i) else find_by_name s name is)"

definition rt_object_find :: "u8 list \<Rightarrow> u8 \<Rightarrow> kernel \<Rightarrow> (oid option \<times> kernel) res" where
  "rt_object_find name type s =
     (if \<not> rt_object_get_information type then Inr (None, s)
      else assert_then (RT_DEBUG_NOT_IN_INTERRUPT s) (
        let s = rt_enter_critical s
        in case find_by_name s name (containers s type) of None \<Rightarrow> Inl BadAccess
           | Some r \<Rightarrow> bind_res (rt_exit_critical s) (\<lambda>s. Inr (r, s))))"

section \<open>Timer objects\<close>

definition rt_timer_init :: "timid \<Rightarrow> u8 list \<Rightarrow> tfun \<Rightarrow> u32 \<Rightarrow> u8 \<Rightarrow> kernel \<Rightarrow> kernel res" where
  "rt_timer_init m name timeout time flag s =
     assert_then (time < RT_TICK_HALF) (
     bind_res (rt_object_init (OTimer m) RT_Object_Class_Timer name s) (\<lambda>s.
       Inr (timer_init m timeout time flag s)))"

definition rt_timer_detach :: "timid \<Rightarrow> kernel \<Rightarrow> (int \<times> kernel) res" where
  "rt_timer_detach m s =
     assert_then (rt_object_get_type (OTimer m) s = RT_Object_Class_Timer) (
     assert_then (rt_object_is_systemobject (OTimer m) s) (
       Inr (RT_EOK, rt_object_detach (OTimer m) (deactivate m (timer_remove m s)))))"

definition rt_timer_create :: "timid option \<Rightarrow> u8 list \<Rightarrow> tfun \<Rightarrow> u32 \<Rightarrow> u8 \<Rightarrow> kernel
    \<Rightarrow> (timid option \<times> kernel) res" where
  "rt_timer_create block name timeout time flag s =
     assert_then (time < RT_TICK_HALF) (
     bind_res (rt_object_allocate (map_option OTimer block) RT_Object_Class_Timer name s) (\<lambda>(_, s).
       case block of None \<Rightarrow> Inr (None, s)
       | Some m \<Rightarrow> Inr (Some m, timer_init m timeout time flag s)))"

definition rt_timer_delete :: "timid \<Rightarrow> kernel \<Rightarrow> (int \<times> kernel) res" where
  "rt_timer_delete m s =
     assert_then (rt_object_get_type (OTimer m) s = RT_Object_Class_Timer) (
     assert_then (\<not> rt_object_is_systemobject (OTimer m) s) (
       bind_res (rt_object_delete (OTimer m) (deactivate m (timer_remove m s))) (\<lambda>s.
         Inr (RT_EOK, s))))"

section \<open>Registered objects are found\<close>

text \<open>A state in which leaving a critical section cannot fault: the scheduler is not started, or
  its invariant holds with a running thread.\<close>

definition schedulable :: "kernel \<Rightarrow> bool" where
  "schedulable s \<longleftrightarrow> lock_nest s \<ge> 0 \<and> (cur s = None \<or>
     sched_inv s \<and> (\<exists>c. cur s = Some c \<and> tstat s c = RT_THREAD_RUNNING))"

lemma sched_frame_fields:
  assumes "sched_frame s s'"
  shows "objs s' = objs s" "containers s' = containers s" "timers s' = timers s"
    "timer_list s' = timer_list s" "timer_tmp s' = timer_tmp s" "lock_nest s' = lock_nest s"
    "irq_nest s' = irq_nest s" "tick s' = tick s" "sems s' = sems s" "mutexes s' = mutexes s"
    "events s' = events s" "mboxes s' = mboxes s" "mqs s' = mqs s"
proof -
  obtain th qs g c p where "s' = s\<lparr>threads := th, queues := qs, ready_group := g, cur := c, cur_prio := p\<rparr>"
    using assms unfolding sched_frame_def by blast
  then show "objs s' = objs s" "containers s' = containers s" "timers s' = timers s"
    "timer_list s' = timer_list s" "timer_tmp s' = timer_tmp s" "lock_nest s' = lock_nest s"
    "irq_nest s' = irq_nest s" "tick s' = tick s" "sems s' = sems s" "mutexes s' = mutexes s"
    "events s' = events s" "mboxes s' = mboxes s" "mqs s' = mqs s" by simp_all
qed

lemma sched_inv_lock: "sched_inv (s\<lparr>lock_nest := n\<rparr>) = sched_inv s"
  by (simp add: sched_inv_def queues_ok_def ready_ok_def bitmap_ok_def wait_ok_def mask_ok_def
      started_def cur_ok_def)

lemma critical_section:
  assumes "schedulable s"
  shows "\<exists>s'. rt_exit_critical (rt_enter_critical s) = Inr s' \<and> schedulable s'
    \<and> objs s' = objs s \<and> containers s' = containers s \<and> irq_nest s' = irq_nest s"
proof (cases "lock_nest s = 0 \<and> cur s \<noteq> None")
  case True
  then obtain c where c: "cur s = Some c" "tstat s c = RT_THREAD_RUNNING" "sched_inv s"
    using assms by (auto simp: schedulable_def)
  let ?s = "s\<lparr>lock_nest := 0\<rparr>"
  have "sched_inv ?s" using c(3) by (simp add: sched_inv_lock)
  then have inv: "loose_inv {} ?s" by (simp only: loose_inv_empty)
  obtain s' where s': "rt_schedule ?s = Inr s'" "loose_inv {} s'" "runs_highest s'" "sched_frame ?s s'"
    using rt_schedule_main [OF inv, of c] c by auto
  then have "sched_inv s'" by (auto simp: loose_inv_empty runs_highest_def)
  moreover have "rt_exit_critical (rt_enter_critical s) = Inr s'"
    using True s'(1) by (simp add: rt_exit_critical_def rt_enter_critical_def Let_def)
  ultimately show ?thesis
    using s'(3) sched_frame_fields [OF s'(4)] by (auto simp: schedulable_def runs_highest_def)
next
  case False
  then show ?thesis using assms
    by (auto simp: rt_exit_critical_def rt_enter_critical_def Let_def schedulable_def sched_inv_lock)
qed

lemma static_bits:
  "bit (RT_Object_Class_Static :: u8) n \<longleftrightarrow> n = 7" "bit (- 129 :: u8) n \<longleftrightarrow> n < 8 \<and> n \<noteq> 7"
proof -
  have e: "(0x80::u8) = push_bit 7 1" and e': "(- 129::u8) = NOT (push_bit 7 1)" by simp_all
  show "bit (0x80 :: u8) n \<longleftrightarrow> n = 7"
    unfolding e by (auto simp: bit_push_bit_iff simp del: push_bit_of_1)
  show "bit (- 129 :: u8) n \<longleftrightarrow> n < 8 \<and> n \<noteq> 7"
    unfolding e' bit_not_iff by (auto simp: bit_push_bit_iff simp del: push_bit_of_1)
qed

lemma type_static [simp]:
  "type < RT_Object_Class_Static \<Longrightarrow> (type OR RT_Object_Class_Static) AND - 129 = (type :: u8)"
proof -
  assume "type < RT_Object_Class_Static"
  then have "unat type < 2 ^ 7" by (simp add: word_less_nat_alt)
  then have "take_bit 7 type = type" by (simp add: word_unat_eq_iff unsigned_take_bit_eq take_bit_nat_eq_self)
  then have hi: "bit type n \<longrightarrow> n < 7" for n by (metis bit_take_bit_iff)
  then show "(type OR RT_Object_Class_Static) AND - 129 = type"
    by (intro bit_word_eqI, unfold bit_and_iff bit_or_iff static_bits) auto
qed

lemma type_static_set: "(type OR RT_Object_Class_Static) AND RT_Object_Class_Static \<noteq> (0::u8)"
proof -
  have "(type OR 0x80) AND 0x80 = (0x80::u8)" by (simp add: bit.conj_disj_distrib2)
  then show ?thesis by simp
qed

lemma cstr_padded: "cstr (take n (cstr s @ replicate k 0)) = take n (cstr s)"
proof (induction s arbitrary: n)
  case (Cons c s)
  then show ?case by (cases n; cases k) auto
next
  case Nil
  have "cstr (replicate m 0) = []" for m by (cases m) auto
  then show ?case by simp
qed

lemma schedulable_frame:
  "threads s' = threads s \<Longrightarrow> queues s' = queues s \<Longrightarrow> ready_group s' = ready_group s \<Longrightarrow>
   cur s' = cur s \<Longrightarrow> lock_nest s' = lock_nest s \<Longrightarrow> schedulable s' = schedulable s"
  by (simp add: schedulable_def sched_inv_def queues_ok_def ready_ok_def bitmap_ok_def wait_ok_def
      mask_ok_def started_def cur_ok_def)

lemma information_small: "rt_object_get_information type \<Longrightarrow> type < RT_Object_Class_Static"
  by (auto simp: rt_object_get_information_def)

lemma object_init_type:
  assumes "rt_object_init i type name s = Inr s'" "type < RT_Object_Class_Static"
  shows "rt_object_get_type i s' = type \<and> rt_object_is_systemobject i s'"
  using assms type_static [OF assms(2)] type_static_set [of type]
  by (auto simp: rt_object_init_def Let_def assert_then_def bind_res_def container_push_def upd_obj_def
      rt_object_get_type_def rt_object_is_systemobject_def split: if_splits sum.splits option.splits)

lemma object_init_runs:
  assumes "schedulable s" "rt_object_get_information type" "i \<notin> set (containers s type)" "0 \<in> set name \<or> 8 \<le> length name"
  shows "\<exists>s'. rt_object_init i type name s = Inr s'"
  using critical_section [OF assms(1)] assms(2,3) rt_strncpy_cstr [OF assms(4)]
  by (auto simp: rt_object_init_def Let_def rt_enter_critical_def)

text \<open>C28: an object that is initialised is registered under its class with the static bit set,
  and is what a lookup of its name returns (the most recent registration wins), whatever
  rescheduling the two critical sections cause; neither call faults on a name terminated or at least
  8 bytes long.\<close>

theorem rt_object_init_find:
  assumes "schedulable s" "irq_nest s = 0" "rt_object_get_information type"
    and "i \<notin> set (containers s type)" "0 \<in> set name \<or> 8 \<le> length name"
  shows "\<exists>s1 s2. rt_object_init i type name s = Inr s1 \<and> rt_object_get_type i s1 = type
    \<and> rt_object_is_systemobject i s1 \<and> rt_object_find name type s1 = Inr (Some i, s2)"
proof -
  obtain sx where sx: "rt_exit_critical (rt_enter_critical s) = Inr sx" "schedulable sx"
    "objs sx = objs s" "containers sx = containers s" "irq_nest sx = irq_nest s"
    using critical_section [OF assms(1)] by blast
  let ?n = "take 8 (cstr name @ replicate 8 (0::u8))"
  have n: "rt_strncpy name 8 = Some ?n" using rt_strncpy_cstr [OF assms(5)] .
  let ?s1 = "container_push type i
      (upd_obj i (\<lambda>x. x\<lparr>obj_type := type OR RT_Object_Class_Static, obj_name := ?n\<rparr>) sx)"
  have init: "rt_object_init i type name s = Inr ?s1"
    using assms(3,4) sx(1) n by (simp add: rt_object_init_def Let_def rt_enter_critical_def)
  have "schedulable ?s1"
    using sx(2) schedulable_frame [of ?s1 sx] by (simp add: container_push_def upd_obj_def)
  then obtain s2 where s2: "rt_exit_critical (rt_enter_critical ?s1) = Inr s2"
    using critical_section by blast
  obtain r where "rt_strncmp ?n name 8 = Some r" "r = 0"
    using rt_strncmp_eq [of ?n 8 name] assms(5) cstr_padded [of 8 name 8] by (auto simp: min_def)
  then have "find_by_name (rt_enter_critical ?s1) name (containers (rt_enter_critical ?s1) type) = Some (Some i)"
    by (simp add: rt_enter_critical_def container_push_def upd_obj_def)
  then have "rt_object_find name type ?s1 = Inr (Some i, s2)"
    using s2 assms(2,3) sx(5)
    by (simp add: rt_object_find_def RT_DEBUG_NOT_IN_INTERRUPT_def container_push_def upd_obj_def Let_def)
  moreover have "rt_object_get_type i ?s1 = type" "rt_object_is_systemobject i ?s1"
    using information_small [OF assms(3)] type_static_set [of type]
    by (simp_all add: rt_object_get_type_def rt_object_is_systemobject_def container_push_def upd_obj_def)
  ultimately show ?thesis using init by blast
qed

theorem rt_object_init_find_witness:
  "\<exists>s1 s2. rt_object_init (OSem 7) RT_Object_Class_Semaphore [115, 0] demo_kernel = Inr s1
     \<and> rt_object_find [115, 0] RT_Object_Class_Semaphore s1 = Inr (Some (OSem 7), s2)"
proof -
  have "schedulable demo_kernel"
    using demo_sched_inv by (auto simp: schedulable_def demo_cur demo_stat)
  from rt_object_init_find [OF this, of RT_Object_Class_Semaphore "OSem 7" "[115, 0]"]
  show ?thesis by (auto simp: demo_cur rt_object_get_information_def) (auto simp: demo_kernel_def)
qed

end
