(* ===== verification/Thread.thy ===== *)
theory Thread
  imports Object
begin

text \<open>
  Threads, \<^verbatim>\<open>rt-thread/src/thread.c\<close>, and the defunct list of
  \<^verbatim>\<open>src/idle.c\<close>.  A call that blocks is modelled in two parts: up to and including
  the \<^verbatim>\<open>rt_schedule\<close> that switches away, and what runs when the thread is current
  again.  \<^verbatim>\<open>rt_thread_detach\<close> and \<^verbatim>\<open>rt_thread_delete\<close>, which drop the
  thread from a mutex, follow in theory \<open>Mutex\<close>.
\<close>

section \<open>Suspend and resume\<close>

definition rt_thread_self :: "kernel \<Rightarrow> tid option" where
  "rt_thread_self s = cur s"

definition rt_thread_suspend :: "tid \<Rightarrow> kernel \<Rightarrow> (int \<times> kernel) res" where
  "rt_thread_suspend t s =
     assert_then (rt_object_get_type (OThread t) s = RT_Object_Class_Thread) (
     assert_then (rt_thread_self s = Some t) (
     if tstat s t \<noteq> RT_THREAD_READY \<and> tstat s t \<noteq> RT_THREAD_RUNNING then Inr (- RT_ERROR, s)
     else
       bind_res (rt_schedule_remove_thread t s) (\<lambda>s.
       let s = upd_thread t (\<lambda>th. th\<lparr>stat := stat_put RT_THREAD_SUSPEND (stat th)\<rparr>) s
       in bind_res (rt_timer_stop (TThread t) s) (\<lambda>(_, s). Inr (RT_EOK, s)))))"

definition rt_thread_resume :: "tid \<Rightarrow> kernel \<Rightarrow> (int \<times> kernel) res" where
  "rt_thread_resume t s =
     assert_then (rt_object_get_type (OThread t) s = RT_Object_Class_Thread) (
     if tstat s t \<noteq> RT_THREAD_SUSPEND then Inr (- RT_ERROR, s)
     else
       let s = list_remove_thread t s
       in bind_res (rt_timer_stop (TThread t) s) (\<lambda>(_, s).
          bind_res (rt_schedule_insert_thread t s) (\<lambda>s. Inr (RT_EOK, s))))"

section \<open>Exit and timeout\<close>

definition rt_thread_defunct_enqueue :: "tid \<Rightarrow> kernel \<Rightarrow> kernel" where
  "rt_thread_defunct_enqueue t s = upd_queue QDefunct (\<lambda>q. t # q) s"

definition rt_thread_defunct_dequeue :: "kernel \<Rightarrow> tid option \<times> kernel" where
  "rt_thread_defunct_dequeue s =
     (case queues s QDefunct of [] \<Rightarrow> (None, s) | t # _ \<Rightarrow> (Some t, list_remove_thread t s))"

definition thread_exit :: "kernel \<Rightarrow> kernel res" where
  "thread_exit s =
     (case rt_thread_self s of None \<Rightarrow> Inl AssertFail
      | Some t \<Rightarrow>
        bind_res (rt_schedule_remove_thread t s) (\<lambda>s.
        bind_res (rt_timer_detach (TThread t) s) (\<lambda>(_, s).
        rt_schedule (rt_thread_defunct_enqueue t
          (upd_thread t (\<lambda>th. th\<lparr>stat := RT_THREAD_CLOSE\<rparr>) s)))))"

definition thread_timeout :: "tid \<Rightarrow> kernel \<Rightarrow> kernel res" where
  "thread_timeout t s =
     assert_then (tstat s t = RT_THREAD_SUSPEND) (
     assert_then (rt_object_get_type (OThread t) s = RT_Object_Class_Thread) (
     let s = upd_thread t (\<lambda>th. th\<lparr>error := - RT_ETIMEOUT\<rparr>) s;
         s = list_remove_thread t s
     in bind_res (rt_schedule_insert_thread t s) rt_schedule))"

text \<open>What a timer calls: \<^verbatim>\<open>_thread_timeout\<close>, or a function \<open>usr\<close> of the
  application.\<close>

definition timeout_call :: "(nat \<Rightarrow> kernel \<Rightarrow> kernel res) \<Rightarrow> tfun \<Rightarrow> kernel \<Rightarrow> kernel res" where
  "timeout_call usr f s = (case f of F_thread_timeout t \<Rightarrow> thread_timeout t s | F_user n \<Rightarrow> usr n s)"

section \<open>Creation and startup\<close>

definition thread_init :: "tid \<Rightarrow> u8 list \<Rightarrow> nat \<Rightarrow> u32 \<Rightarrow> kernel \<Rightarrow> (int \<times> kernel) res" where
  "thread_init t name priority tck s =
     assert_then (priority < RT_THREAD_PRIORITY_MAX) (
     let s = upd_thread t (\<lambda>th. th\<lparr>init_priority := priority, current_priority := priority,
               number_mask := 0, taken_object_list := [], pending_object := None,
               event_set := 0, event_info := 0, init_tick := tck, remaining_tick := tck,
               error := RT_EOK, stat := RT_THREAD_INIT\<rparr>) s
     in bind_res (rt_timer_init (TThread t) name (F_thread_timeout t) 0 0 s) (\<lambda>s. Inr (RT_EOK, s)))"

definition rt_thread_init :: "tid \<Rightarrow> u8 list \<Rightarrow> nat \<Rightarrow> u32 \<Rightarrow> kernel \<Rightarrow> (int \<times> kernel) res" where
  "rt_thread_init t name priority tck s =
     bind_res (rt_object_init (OThread t) RT_Object_Class_Thread name s)
       (thread_init t name priority tck)"

text \<open>\<open>block\<close> and \<open>stack\<close>: what the two heap allocations return.  The embedded
  timer's name is the thread's.\<close>

definition rt_thread_create :: "tid option \<Rightarrow> bool \<Rightarrow> u8 list \<Rightarrow> nat \<Rightarrow> u32 \<Rightarrow> kernel
    \<Rightarrow> (tid option \<times> kernel) res" where
  "rt_thread_create block stack name priority tck s =
     bind_res (rt_object_allocate (map_option OThread block) RT_Object_Class_Thread name s) (\<lambda>(_, s).
       case block of None \<Rightarrow> Inr (None, s)
       | Some t \<Rightarrow>
         if \<not> stack then bind_res (rt_object_delete (OThread t) s) (\<lambda>s. Inr (None, s))
         else bind_res (thread_init t name priority tck s) (\<lambda>(_, s). Inr (Some t, s)))"

definition rt_thread_startup :: "tid \<Rightarrow> kernel \<Rightarrow> (int \<times> kernel) res" where
  "rt_thread_startup t s =
     assert_then (tstat s t = RT_THREAD_INIT) (
     assert_then (rt_object_get_type (OThread t) s = RT_Object_Class_Thread) (
     let s = upd_thread t (\<lambda>th. th\<lparr>number_mask := push_bit (current_priority th) 1,
               stat := RT_THREAD_SUSPEND\<rparr>) s
     in bind_res (rt_thread_resume t s) (\<lambda>(_, s).
        bind_res (if rt_thread_self s \<noteq> None then rt_schedule s else Inr s) (\<lambda>s.
          Inr (RT_EOK, s)))))"

section \<open>Yielding, sleeping, changing priority\<close>

definition rt_thread_yield :: "kernel \<Rightarrow> (int \<times> kernel) res" where
  "rt_thread_yield s =
     (case rt_thread_self s of None \<Rightarrow> Inl NullDeref
      | Some t \<Rightarrow>
        bind_res (rt_schedule (upd_thread t (\<lambda>th. th\<lparr>remaining_tick := init_tick th,
            stat := stat th OR RT_THREAD_STAT_YIELD\<rparr>) s)) (\<lambda>s. Inr (RT_EOK, s)))"

text \<open>A blocking call either returns a value at once or has switched away.\<close>

datatype 'a outcome = Return 'a | Blocked

text \<open>The part \<^verbatim>\<open>rt_thread_sleep\<close> and \<^verbatim>\<open>rt_thread_delay_until\<close> share:
  suspend the caller and arm its timer.\<close>

definition suspend_for :: "tid \<Rightarrow> u32 \<Rightarrow> kernel \<Rightarrow> kernel res" where
  "suspend_for t tck s =
     bind_res (rt_thread_suspend t s) (\<lambda>(_, s).
     bind_res (rt_timer_control (TThread t) (CTRL_SET_TIME tck) s) (\<lambda>(_, s).
     bind_res (rt_timer_start (TThread t) s) (\<lambda>(_, s). Inr s)))"

definition rt_thread_sleep :: "u32 \<Rightarrow> kernel \<Rightarrow> (int outcome \<times> kernel) res" where
  "rt_thread_sleep tck s =
     (if tck = 0 then Inr (Return (- RT_EINVAL), s)
      else case rt_thread_self s of None \<Rightarrow> Inl AssertFail
      | Some t \<Rightarrow>
        assert_then (rt_object_get_type (OThread t) s = RT_Object_Class_Thread) (
        assert_then (RT_DEBUG_SCHEDULER_AVAILABLE True s) (
        bind_res (suspend_for t tck (upd_thread t (\<lambda>th. th\<lparr>error := RT_EOK\<rparr>) s)) (\<lambda>s.
        bind_res (rt_schedule s) (\<lambda>s. Inr (Blocked, s))))))"

definition rt_thread_sleep_resume :: "tid \<Rightarrow> kernel \<Rightarrow> int \<times> kernel" where
  "rt_thread_sleep_resume t s =
     (let s = (if error (threads s t) = - RT_ETIMEOUT
               then upd_thread t (\<lambda>th. th\<lparr>error := RT_EOK\<rparr>) s else s)
      in (error (threads s t), s))"

definition rt_thread_delay :: "u32 \<Rightarrow> kernel \<Rightarrow> (int outcome \<times> kernel) res" where
  "rt_thread_delay tck s = rt_thread_sleep tck s"

text \<open>\<open>tck\<close> is the value \<^verbatim>\<open>*tick\<close> points at; the new value is returned
  beside the outcome.\<close>

definition rt_thread_delay_until :: "u32 \<Rightarrow> u32 \<Rightarrow> kernel \<Rightarrow> (int outcome \<times> u32 \<times> kernel) res" where
  "rt_thread_delay_until tck inc_tick s =
     (case rt_thread_self s of None \<Rightarrow> Inl AssertFail
      | Some t \<Rightarrow>
        assert_then (rt_object_get_type (OThread t) s = RT_Object_Class_Thread) (
        let s = upd_thread t (\<lambda>th. th\<lparr>error := RT_EOK\<rparr>) s;
            cur_tick = rt_tick_get s
        in if cur_tick - tck < inc_tick then
             let tck = tck + inc_tick; left_tick = tck - cur_tick
             in bind_res (suspend_for t left_tick s) (\<lambda>s.
                bind_res (rt_schedule s) (\<lambda>s. Inr (Blocked, tck, s)))
           else Inr (Return (error (threads s t)), cur_tick, s)))"

definition rt_thread_mdelay :: "int \<Rightarrow> kernel \<Rightarrow> (int outcome \<times> kernel) res" where
  "rt_thread_mdelay ms s = rt_thread_sleep (rt_tick_from_millisecond ms) s"

text \<open>\<^verbatim>\<open>rt_thread_control\<close> with \<^verbatim>\<open>RT_THREAD_CTRL_CHANGE_PRIORITY\<close>.\<close>

definition rt_thread_change_priority :: "tid \<Rightarrow> nat \<Rightarrow> kernel \<Rightarrow> (int \<times> kernel) res" where
  "rt_thread_change_priority t prio s =
     assert_then (rt_object_get_type (OThread t) s = RT_Object_Class_Thread) (
     if tstat s t = RT_THREAD_READY then
       bind_res (rt_schedule_remove_thread t s) (\<lambda>s.
       let s = upd_thread t (\<lambda>th. th\<lparr>current_priority := prio, number_mask := push_bit prio 1\<rparr>) s
       in bind_res (rt_schedule_insert_thread t s) (\<lambda>s. Inr (RT_EOK, s)))
     else Inr (RT_EOK, upd_thread t (\<lambda>th. th\<lparr>current_priority := prio,
                                            number_mask := push_bit prio 1\<rparr>) s))"

section \<open>The idle thread's clean-up\<close>

text \<open>\<open>cleanup\<close> is \<^verbatim>\<open>thread->cleanup\<close>, a function of the application (the
  identity where the pointer is NULL); the two heap blocks go back to the heap.  The loop ends when
  the defunct list is empty; a cleanup function that keeps adding to it needs more fuel than any.\<close>

fun rt_defunct_execute :: "(tid \<Rightarrow> kernel \<Rightarrow> kernel res) \<Rightarrow> nat \<Rightarrow> kernel \<Rightarrow> kernel res" where
  "rt_defunct_execute cleanup 0 s = Inl OutOfFuel"
| "rt_defunct_execute cleanup (Suc fuel) s =
     (let (thread, s) = rt_thread_defunct_dequeue s
      in case thread of None \<Rightarrow> Inr s
      | Some t \<Rightarrow>
        let object_is_systemobject = rt_object_is_systemobject (OThread t) s;
            s = (if object_is_systemobject then rt_object_detach (OThread t) s else s)
        in bind_res (cleanup t s) (\<lambda>s.
           if \<not> object_is_systemobject
           then bind_res (rt_object_delete (OThread t) s) (rt_defunct_execute cleanup fuel)
           else rt_defunct_execute cleanup fuel s))"

section \<open>The kernel invariant\<close>

text \<open>A control block in use is typed as a thread, and its timer is a one-shot timer that calls
  \<^verbatim>\<open>_thread_timeout\<close> on it.\<close>

definition thread_typed :: "kernel \<Rightarrow> tid \<Rightarrow> bool" where
  "thread_typed s t \<longleftrightarrow> rt_object_get_type (OThread t) s = RT_Object_Class_Thread
     \<and> rt_object_get_type (OTimer (TThread t)) s = RT_Object_Class_Timer
     \<and> timeout_func (timers s (TThread t)) = F_thread_timeout t
     \<and> \<not> timer_periodic s (TThread t)"

text \<open>The scheduler's invariant, the timers', and the link between them: a thread whose timer is
  running is suspended.  \<open>X\<close>: the threads an operation has taken out of their lists.\<close>

definition loose_kinv :: "tid set \<Rightarrow> kernel \<Rightarrow> bool" where
  "loose_kinv X s \<longleftrightarrow> loose_inv X s \<and> timers_inv s
     \<and> (\<forall>t. started s t \<or> t \<in> X \<longrightarrow> thread_typed s t)
     \<and> (\<forall>t. TThread t \<in> set (timer_list s) \<longrightarrow> tstat s t = RT_THREAD_SUSPEND)"

definition kinv :: "kernel \<Rightarrow> bool" where
  "kinv s \<longleftrightarrow> loose_kinv {} s \<and> (\<forall>c. cur s = Some c \<longrightarrow> tstat s c \<noteq> RT_THREAD_READY)"

lemma kinv_sched_inv: "kinv s \<Longrightarrow> sched_inv s"
  by (simp add: kinv_def loose_kinv_def loose_inv_empty)

lemma timers_inv_cong:
  "timers s' = timers s \<Longrightarrow> timer_list s' = timer_list s \<Longrightarrow> timer_tmp s' = timer_tmp s \<Longrightarrow>
   tick s' = tick s \<Longrightarrow> objs s' = objs s \<Longrightarrow> timers_inv s' = timers_inv s"
  by (simp add: timers_inv_def timer_ok_def timer_flags_ok_def timer_typed_def due_def [abs_def]
      timer_active_def timer_periodic_def rt_object_get_type_def)

lemma thread_typed_cong:
  "timers s' = timers s \<Longrightarrow> objs s' = objs s \<Longrightarrow> thread_typed s' t = thread_typed s t"
  by (simp add: thread_typed_def timer_periodic_def rt_object_get_type_def)

lemma timers_inv_stop:
  assumes "timers_inv s"
  shows "timers_inv (deactivate m (timer_remove m s))"
proof -
  have d: "distinct (timer_list s)" using assms by (simp add: timers_inv_def timer_ok_def)
  have "timer_ok (timer_remove m s)" using assms timer_remove_ok by (simp add: timers_inv_def)
  then have "timer_ok (deactivate m (timer_remove m s))"
    by (subst timer_ok_cong [of _ "timer_remove m s"]) simp_all
  moreover have "timer_flags_ok (deactivate m (timer_remove m s))"
    using assms d by (auto simp: timers_inv_def timer_flags_ok_def)
  moreover have "timer_typed (deactivate m (timer_remove m s))"
    using assms set_remove1_subset [of m "timer_list s"] by (auto simp: timers_inv_def timer_typed_def)
  ultimately show ?thesis using assms by (simp add: timers_inv_def)
qed

lemma timers_inv_start:
  assumes inv: "timers_inv s" and ty: "rt_object_get_type (OTimer m) s = RT_Object_Class_Timer"
    and half: "timer_init_tick (timers s m) < RT_TICK_HALF"
    and per: "timer_periodic s m \<longrightarrow> 0 < timer_init_tick (timers s m)"
  shows "timers_inv (started_timer m s)"
proof -
  have d: "distinct (timer_list s)" using inv by (simp add: timers_inv_def timer_ok_def)
  have "timer_ok (started_timer m s)" using inv half by (intro started_timer_ok) (simp_all add: timers_inv_def)
  moreover have "timer_flags_ok (started_timer m s)"
    using inv d by (auto simp: timers_inv_def timer_flags_ok_def started_timer_fields)
  moreover have "timer_typed (started_timer m s)"
    using inv d ty half per by (auto simp: timers_inv_def timer_typed_def started_timer_fields)
  ultimately show ?thesis using inv by (simp add: timers_inv_def started_timer_fields)
qed

lemma timers_inv_set_time:
  assumes "timers_inv s" "\<not> timer_periodic s m"
  shows "timers_inv (upd_timer m (\<lambda>x. x\<lparr>timer_init_tick := k\<rparr>) s)"
proof -
  let ?s = "upd_timer m (\<lambda>x. x\<lparr>timer_init_tick := k\<rparr>) s"
  have "due ?s = due s" by (rule ext) (simp add: due_def upd_timer_def)
  then show ?thesis
    using assms by (auto simp: timers_inv_def timer_ok_def timer_flags_ok_def timer_typed_def
        timer_active_def timer_periodic_def rt_object_get_type_def upd_timer_def)
qed

section \<open>How the building blocks act on the invariant\<close>

lemma K_rm:
  "loose_kinv X s \<Longrightarrow> started s t \<or> t \<in> X \<Longrightarrow> loose_kinv (insert t X) (sched_rm t s)"
  unfolding loose_kinv_def
  by (auto simp: started_def loose_inv_remove timers_inv_cong [of "sched_rm t s" s]
      thread_typed_cong [of "sched_rm t s" s] loose_inv_remove [unfolded started_def])

text \<open>Unlinking a thread that is not READY touches no ready queue.\<close>

lemma loose_inv_unlink:
  assumes inv: "loose_inv X s" and t: "started s t" and nr: "t \<in> X \<or> tstat s t \<noteq> RT_THREAD_READY"
  shows "loose_inv (insert t X) (list_remove_thread t s)"
proof -
  have nq: "t \<notin> set (queues s (QReady p))" for p
    using inv nr unfolding loose_inv_def by blast
  have d: "set (remove1 t (queues s q)) = set (queues s q) - {t}" for q
    using inv by (simp add: loose_inv_def queues_ok_def)
  have r: "remove1 t (queues s (QReady p)) = queues s (QReady p)" for p using nq by simp
  have "queues_ok (list_remove_thread t s)"
    using inv by (auto simp: loose_inv_def queues_ok_def list_remove_thread_def d)
  moreover have "bitmap_ok (list_remove_thread t s)"
    using inv by (simp add: loose_inv_def bitmap_ok_def list_remove_thread_def r)
  moreover have "wait_ok (list_remove_thread t s)"
    using inv by (auto simp: loose_inv_def wait_ok_def list_remove_thread_def d)
  moreover have th: "threads (list_remove_thread t s) = threads s" "cur (list_remove_thread t s) = cur s"
    "queues (list_remove_thread t s) = (\<lambda>q. remove1 t (queues s q))"
    by (simp_all add: list_remove_thread_def)
  moreover have "tprio s t < 32" "number_mask (threads s t) = push_bit (tprio s t) 1"
    using inv t by (auto simp: loose_inv_def)
  ultimately show ?thesis
    using inv unfolding loose_inv_def started_def th by (simp add: d r nq)
qed

lemma K_unlink:
  "loose_kinv X s \<Longrightarrow> started s t \<Longrightarrow> t \<in> X \<or> tstat s t \<noteq> RT_THREAD_READY \<Longrightarrow>
     loose_kinv (insert t X) (list_remove_thread t s)"
  using loose_inv_unlink [of X s t]
    timers_inv_cong [of "list_remove_thread t s" s] thread_typed_cong [of "list_remove_thread t s" s]
  unfolding loose_kinv_def started_def by (auto simp: list_remove_thread_def)

lemma K_upd:
  assumes "loose_kinv X s" "t \<in> X"
    and "current_priority (f (threads s t)) = tprio s t"
    and "number_mask (f (threads s t)) = number_mask (threads s t)"
    and "TThread t \<in> set (timer_list s) \<Longrightarrow> stat_get (stat (f (threads s t))) = RT_THREAD_SUSPEND"
  shows "loose_kinv X (upd_thread t f s)"
proof -
  have "loose_inv X (upd_thread t f s)" using assms loose_inv_upd by (simp add: loose_kinv_def)
  moreover have "timers_inv (upd_thread t f s)"
    using assms(1) timers_inv_cong [of "upd_thread t f s" s]
    by (simp add: loose_kinv_def upd_thread_def)
  moreover have "thread_typed (upd_thread t f s) u = thread_typed s u" for u
    by (rule thread_typed_cong) (simp_all add: upd_thread_def)
  ultimately show ?thesis
    using assms unfolding loose_kinv_def by (auto simp: started_def upd_thread_def)
qed

text \<open>A field the scheduler does not look at can change on any thread.\<close>

lemma K_upd_other:
  assumes "loose_kinv X s"
    and "current_priority (f (threads s t)) = tprio s t"
    and "number_mask (f (threads s t)) = number_mask (threads s t)"
    and "stat_get (stat (f (threads s t))) = tstat s t"
  shows "loose_kinv X (upd_thread t f s)"
proof -
  have th: "tprio (upd_thread t f s) u = tprio s u" "tstat (upd_thread t f s) u = tstat s u"
    "number_mask (threads (upd_thread t f s) u) = number_mask (threads s u)"
    "queues (upd_thread t f s) = queues s" "ready_group (upd_thread t f s) = ready_group s"
    "cur (upd_thread t f s) = cur s" "timer_list (upd_thread t f s) = timer_list s" for u
    using assms(2-4) by (simp_all add: upd_thread_def)
  have "thread_typed (upd_thread t f s) u = thread_typed s u" for u
    by (rule thread_typed_cong) (simp_all add: upd_thread_def)
  moreover have "timers_inv (upd_thread t f s) = timers_inv s"
    by (rule timers_inv_cong) (simp_all add: upd_thread_def)
  ultimately show ?thesis
    using assms(1) unfolding loose_kinv_def loose_inv_def queues_ok_def bitmap_ok_def wait_ok_def started_def
    by (simp add: th)
qed

lemma sched_ins_other:
  "timers (sched_ins t s) = timers s" "timer_list (sched_ins t s) = timer_list s"
  "timer_tmp (sched_ins t s) = timer_tmp s" "tick (sched_ins t s) = tick s" "objs (sched_ins t s) = objs s"
  by (simp_all add: sched_ins_def Let_def kdefs)

lemma K_ins:
  assumes "loose_kinv X s" "t \<in> X" "cur s \<noteq> Some t" "TThread t \<notin> set (timer_list s)"
  shows "loose_kinv (X - {t}) (sched_ins t s)"
proof -
  have "loose_inv (X - {t}) (sched_ins t s)" using assms loose_inv_insert by (simp add: loose_kinv_def)
  moreover have "timers_inv (sched_ins t s)"
    using assms(1) by (subst timers_inv_cong [of _ s]) (simp_all add: sched_ins_other loose_kinv_def)
  moreover have "thread_typed (sched_ins t s) u = thread_typed s u" for u
    by (rule thread_typed_cong) (simp_all add: sched_ins_other)
  ultimately show ?thesis
    using assms unfolding loose_kinv_def by (auto simp: started_def sched_ins_frame sched_ins_other)
qed

lemma K_settle:
  assumes "loose_kinv X s" "tstat s t \<noteq> RT_THREAD_READY"
    and "tstat s t = RT_THREAD_RUNNING \<Longrightarrow> cur s = Some t"
  shows "loose_kinv (X - {t}) s"
  using assms loose_inv_settle [of X s t] unfolding loose_kinv_def by auto

lemma K_loosen:
  assumes "loose_kinv X s" "tstat s t = RT_THREAD_RUNNING" "t \<notin> X"
  shows "loose_kinv (insert t X) s"
  using assms loose_inv_loosen [of X s t] unfolding loose_kinv_def by (auto simp: started_def)

lemma K_timer_stop:
  assumes "loose_kinv X s"
  shows "loose_kinv X (deactivate m (timer_remove m s))"
proof -
  let ?s = "deactivate m (timer_remove m s)"
  have "thread_typed ?s u = thread_typed s u" for u by (simp add: thread_typed_def)
  moreover have "loose_inv X ?s"
    using assms unfolding loose_kinv_def loose_inv_def queues_ok_def bitmap_ok_def wait_ok_def started_def
    by simp
  moreover have "timers_inv ?s" using assms timers_inv_stop by (simp add: loose_kinv_def)
  ultimately show ?thesis
    using assms set_remove1_subset [of m "timer_list s"] unfolding loose_kinv_def
    by (auto simp: started_def)
qed

lemma K_timer_start:
  assumes k: "loose_kinv X s" and t: "thread_typed s t" "tstat s t = RT_THREAD_SUSPEND"
    and half: "timer_init_tick (timers s (TThread t)) < RT_TICK_HALF"
  shows "loose_kinv X (started_timer (TThread t) s)"
proof -
  let ?s = "started_timer (TThread t) s"
  have "timers_inv ?s"
    using k t half by (intro timers_inv_start) (simp_all add: loose_kinv_def thread_typed_def)
  moreover have "loose_inv X ?s"
    using k unfolding loose_kinv_def loose_inv_def queues_ok_def bitmap_ok_def wait_ok_def started_def
    by (simp add: started_timer_fields)
  moreover have "thread_typed ?s u = thread_typed s u" for u
    by (simp add: thread_typed_def started_timer_fields)
  ultimately show ?thesis
    using k t set_remove1_subset [of "TThread t" "timer_list s"]
    unfolding loose_kinv_def by (auto simp: started_def started_timer_fields)
qed

lemma K_timer_set:
  assumes k: "loose_kinv X s" and t: "thread_typed s t"
  shows "loose_kinv X (upd_timer (TThread t) (\<lambda>x. x\<lparr>timer_init_tick := n\<rparr>) s)" (is "loose_kinv X ?s")
proof -
  have "timers_inv ?s" using k t by (intro timers_inv_set_time) (simp_all add: loose_kinv_def thread_typed_def)
  moreover have "loose_inv X ?s"
    using k unfolding loose_kinv_def loose_inv_def queues_ok_def bitmap_ok_def wait_ok_def started_def
    by (simp add: upd_timer_def)
  moreover have "thread_typed ?s u = thread_typed s u" for u
    by (simp add: thread_typed_def upd_timer_def timer_periodic_def rt_object_get_type_def)
  ultimately show ?thesis
    using k unfolding loose_kinv_def by (auto simp: started_def upd_timer_def)
qed

section \<open>Operations keep the invariant\<close>

lemma rt_timer_stop_eq:
  assumes "rt_object_get_type (OTimer m) s = RT_Object_Class_Timer" "timers_inv s"
  shows "rt_timer_stop m s = Inr (if timer_active s m then RT_EOK else - RT_ERROR,
     if timer_active s m then deactivate m (timer_remove m s) else s)"
  using assms by (simp add: rt_timer_stop_def)

lemma timer_inactive_notin: "timers_inv s \<Longrightarrow> \<not> timer_active s m \<Longrightarrow> m \<notin> set (timer_list s)"
  by (simp add: timers_inv_def timer_flags_ok_def)

text \<open>Stopping a thread's timer, whatever its state.\<close>

lemma thread_timer_stop:
  assumes k: "loose_kinv X s" and t: "thread_typed s t"
  obtains r s' where "rt_timer_stop (TThread t) s = Inr (r, s')" "loose_kinv X s'"
    "TThread t \<notin> set (timer_list s')" "threads s' = threads s" "queues s' = queues s"
    "cur s' = cur s" "lock_nest s' = lock_nest s" "ready_group s' = ready_group s"
    "\<And>u. thread_typed s' u = thread_typed s u" "tick s' = tick s"
    "s' = s \<or> s' = deactivate (TThread t) (timer_remove (TThread t) s)"
proof -
  have inv: "timers_inv s" using k by (simp add: loose_kinv_def)
  have ty: "rt_object_get_type (OTimer (TThread t)) s = RT_Object_Class_Timer"
    using t by (simp add: thread_typed_def)
  note eq = rt_timer_stop_eq [OF ty inv]
  show thesis
  proof (cases "timer_active s (TThread t)")
    case True
    let ?s = "deactivate (TThread t) (timer_remove (TThread t) s)"
    have "distinct (timer_list s)" using inv by (simp add: timers_inv_def timer_ok_def)
    then have "TThread t \<notin> set (timer_list ?s)" by simp
    with True eq K_timer_stop [OF k, of "TThread t"] show ?thesis
      by (intro that [of RT_EOK ?s]) (simp_all add: thread_typed_def)
  next
    case False
    with eq k timer_inactive_notin [OF inv False] show ?thesis
      by (intro that [of "- RT_ERROR" s]) simp_all
  qed
qed

lemma suspend_ok:
  assumes k: "loose_kinv {} s" and c: "cur s = Some c" "tstat s c = RT_THREAD_RUNNING"
  obtains s' where "rt_thread_suspend c s = Inr (RT_EOK, s')" "loose_kinv {} s'"
    "tstat s' c = RT_THREAD_SUSPEND" "\<And>q. queues s' q = queues s q" "\<And>q. c \<notin> set (queues s' q)"
    "cur s' = Some c" "lock_nest s' = lock_nest s" "TThread c \<notin> set (timer_list s')"
    "\<And>u. thread_typed s' u = thread_typed s u" "tick s' = tick s"
    "\<And>u. u \<noteq> c \<Longrightarrow> threads s' u = threads s u"
    "threads s' c = (threads s c)\<lparr>stat := stat_put RT_THREAD_SUSPEND (stat (threads s c))\<rparr>"
proof -
  have st: "started s c" using c by (simp add: started_def)
  then have ty: "thread_typed s c" using k by (simp add: loose_kinv_def)
  have p: "tprio s c < 32" using k st by (simp add: loose_kinv_def loose_inv_def)
  have li: "loose_inv {} s" using k by (simp add: loose_kinv_def)
  have nq: "c \<notin> set (queues s q)" for q by (rule running_not_queued [OF li c(2)])
  let ?s1 = "sched_rm c s"
  let ?s2 = "upd_thread c (\<lambda>th. th\<lparr>stat := stat_put RT_THREAD_SUSPEND (stat th)\<rparr>) ?s1"
  have "loose_kinv {c} ?s1" using K_rm [OF k, of c] st by simp
  then have k2: "loose_kinv {c} ?s2" by (rule K_upd) simp_all
  have s2: "tstat ?s2 c = RT_THREAD_SUSPEND" "queues ?s2 = queues s" "cur ?s2 = Some c"
    "lock_nest ?s2 = lock_nest s" "tick ?s2 = tick s"
    using nq by (simp_all add: upd_thread_def c)
  have "loose_kinv ({c} - {c}) ?s2" by (rule K_settle [OF k2]) (simp_all add: s2)
  then have k3: "loose_kinv {} ?s2" by simp
  have ty2: "thread_typed ?s2 u = thread_typed s u" for u
    by (rule thread_typed_cong) (simp_all add: upd_thread_def)
  obtain r s' where s': "rt_timer_stop (TThread c) ?s2 = Inr (r, s')" "loose_kinv {} s'"
    "TThread c \<notin> set (timer_list s')" "threads s' = threads ?s2" "queues s' = queues ?s2"
    "cur s' = cur ?s2" "lock_nest s' = lock_nest ?s2"
    "\<And>u. thread_typed s' u = thread_typed ?s2 u" "tick s' = tick ?s2"
    by (rule thread_timer_stop [OF k3, of c]) (use ty ty2 in auto)
  show thesis
  proof (rule that [of s'])
    show "rt_thread_suspend c s = Inr (RT_EOK, s')"
      using c ty p s'(1) by (simp add: rt_thread_suspend_def rt_thread_self_def thread_typed_def
          remove_thread_eq Let_def)
  qed (use s' s2 ty2 nq in \<open>simp_all add: upd_thread_def\<close>)
qed

text \<open>Waking a suspended thread.\<close>

lemma resume_ok:
  assumes k: "loose_kinv {} s" and t: "tstat s t = RT_THREAD_SUSPEND"
  obtains s' where "rt_thread_resume t s = Inr (RT_EOK, s')" "loose_kinv {} s'"
    "tstat s' t = (if cur s = Some t then RT_THREAD_RUNNING else RT_THREAD_READY)"
    "\<And>q. (\<forall>p. q \<noteq> QReady p) \<Longrightarrow> queues s' q = remove1 t (queues s q)"
    "cur s' = cur s" "lock_nest s' = lock_nest s" "TThread t \<notin> set (timer_list s')"
    "\<And>u. thread_typed s' u = thread_typed s u"
    "\<And>u. u \<noteq> t \<Longrightarrow> threads s' u = threads s u"
    "threads s' t = (threads s t)\<lparr>stat := stat (threads s' t)\<rparr>"
proof -
  have st: "started s t" using t by (simp add: started_def)
  then have ty: "thread_typed s t" using k by (simp add: loose_kinv_def)
  let ?s1 = "list_remove_thread t s"
  have s1: "threads ?s1 = threads s" "cur ?s1 = cur s" "lock_nest ?s1 = lock_nest s"
    "queues ?s1 = (\<lambda>q. remove1 t (queues s q))" by (simp_all add: list_remove_thread_def)
  have k1: "loose_kinv {t} ?s1" using K_unlink [OF k st] t by simp
  have ty1: "thread_typed ?s1 u = thread_typed s u" for u
    by (rule thread_typed_cong) (simp_all add: list_remove_thread_def)
  obtain r s2 where s2: "rt_timer_stop (TThread t) ?s1 = Inr (r, s2)" "loose_kinv {t} s2"
    "TThread t \<notin> set (timer_list s2)" "threads s2 = threads ?s1" "queues s2 = queues ?s1"
    "cur s2 = cur ?s1" "lock_nest s2 = lock_nest ?s1"
    "\<And>u. thread_typed s2 u = thread_typed ?s1 u"
    by (rule thread_timer_stop [OF k1, of t]) (use ty ty1 in auto)
  have p: "tprio s2 t < 32" using k st by (simp add: s2 s1 loose_kinv_def loose_inv_def)
  show thesis
  proof (cases "cur s = Some t")
    case True
    let ?s3 = "upd_thread t (\<lambda>th. th\<lparr>stat := stat_put RT_THREAD_RUNNING (stat th)\<rparr>) s2"
    have "loose_kinv {t} ?s3" using s2(2) by (rule K_upd) (use s2(3) in simp_all)
    from K_settle [OF this, of t] have "loose_kinv {} ?s3"
      using True by (simp add: upd_thread_def s2 s1)
    moreover have "rt_thread_resume t s = Inr (RT_EOK, ?s3)"
      using t ty s2(1) True by (simp add: rt_thread_resume_def thread_typed_def Let_def
          insert_thread_cur s2(6) s1)
    moreover have "thread_typed ?s3 u = thread_typed s2 u" for u
      by (rule thread_typed_cong) (simp_all add: upd_thread_def)
    ultimately show ?thesis
      using True by (intro that [of ?s3]) (simp_all add: upd_thread_def s2 s1 ty1)
  next
    case False
    let ?s3 = "sched_ins t s2"
    have "loose_kinv {} ?s3" using K_ins [OF s2(2), of t] False s2(3) by (simp add: s2 s1)
    moreover have "rt_thread_resume t s = Inr (RT_EOK, ?s3)"
      using t ty s2(1) False p by (simp add: rt_thread_resume_def thread_typed_def Let_def
          insert_thread_eq s2(6) s1)
    moreover have "thread_typed ?s3 u = thread_typed s2 u" for u
      by (rule thread_typed_cong) (simp_all add: sched_ins_other)
    moreover have "lock_nest ?s3 = lock_nest s2" by (simp add: sched_ins_def Let_def kdefs)
    ultimately show ?thesis
      using False by (intro that [of ?s3]) (simp_all add: sched_ins_frame sched_ins_other s2 s1 ty1)
  qed
qed

lemma thread_typed_frame: "sched_frame s s' \<Longrightarrow> thread_typed s' t = thread_typed s t"
  by (rule thread_typed_cong) (auto dest: sched_frame_fields)

lemma sched_frame_stat:
  "sched_frame s s' \<Longrightarrow> v \<noteq> 1 \<Longrightarrow> v \<noteq> 3 \<Longrightarrow> tstat s' t = v \<longleftrightarrow> tstat s t = v"
  unfolding sched_frame_def by blast

lemma started_frame: "sched_frame s s' \<Longrightarrow> started s' t = started s t"
proof -
  assume "sched_frame s s'"
  note v = sched_frame_stat [OF this]
  show ?thesis unfolding started_def using v [of 2 t] v [of "tstat s' t" t] v [of "tstat s t" t] by auto
qed

lemma kinv_frame:
  assumes "loose_kinv {} s" "sched_frame s s'" "loose_inv {} s'"
  shows "loose_kinv {} s'"
proof -
  have "timers_inv s'" using assms sched_frame_fields [OF assms(2)]
    by (subst timers_inv_cong [of _ s]) (simp_all add: loose_kinv_def)
  moreover have "tstat s' t = RT_THREAD_SUSPEND \<longleftrightarrow> tstat s t = RT_THREAD_SUSPEND" for t
    using sched_frame_stat [OF assms(2), of 2 t] by simp
  ultimately show ?thesis
    using assms sched_frame_fields [OF assms(2)]
    unfolding loose_kinv_def by (simp add: thread_typed_frame started_frame)
qed

lemma schedule_ok:
  assumes k: "loose_kinv {} s" and c: "cur s = Some c" "tstat s c \<noteq> RT_THREAD_READY"
  obtains s' where "rt_schedule s = Inr s'" "kinv s'" "sched_frame s s'" "cur s' \<noteq> None"
    "lock_nest s = 0 \<Longrightarrow> tstat s c = RT_THREAD_RUNNING \<or> ready_group s \<noteq> 0 \<Longrightarrow> runs_highest s'"
proof (cases "lock_nest s = 0 \<and> (tstat s c = RT_THREAD_RUNNING \<or> ready_group s \<noteq> 0)")
  case True
  have "loose_inv {} s" using k by (simp add: loose_kinv_def)
  then obtain s' where s': "rt_schedule s = Inr s'" "loose_inv {} s'" "runs_highest s'" "sched_frame s s'"
    using rt_schedule_main [of s c] True c by auto
  then have "kinv s'" using kinv_frame [OF k s'(4,2)] by (auto simp: kinv_def runs_highest_def)
  with s' show ?thesis by (intro that [of s']) (auto simp: runs_highest_def)
next
  case False
  then have "rt_schedule s = Inr s" by (intro rt_schedule_off) auto
  then show ?thesis using k c False by (intro that [of s]) (auto simp: kinv_def sched_frame_refl)
qed

lemma sched_frame_error: "sched_frame s s' \<Longrightarrow> error (threads s' t) = error (threads s t)"
  unfolding sched_frame_def by (metis (no_types, lifting) thread.ext_inject thread.surjective thread.update_convs(1))

lemma sched_frame_awake:
  assumes "sched_frame s s'" "tstat s t \<in> {RT_THREAD_READY, RT_THREAD_RUNNING}"
  shows "tstat s' t \<in> {RT_THREAD_READY, RT_THREAD_RUNNING}"
proof -
  note v = sched_frame_stat [OF assms(1)]
  show ?thesis using assms(2) v [of "tstat s' t" t] by (cases "tstat s' t = 1 \<or> tstat s' t = 3") auto
qed

text \<open>A thread is awake after a timeout.\<close>

definition timed_out :: "kernel \<Rightarrow> tid \<Rightarrow> bool" where
  "timed_out s t \<longleftrightarrow> error (threads s t) = - RT_ETIMEOUT
     \<and> tstat s t \<in> {RT_THREAD_READY, RT_THREAD_RUNNING}"

lemma timeout_ok:
  assumes k: "loose_kinv {} s" and t: "tstat s t = RT_THREAD_SUSPEND" "TThread t \<notin> set (timer_list s)"
    and c: "cur s = Some c" "tstat s c \<noteq> RT_THREAD_READY"
  obtains s' where "thread_timeout t s = Inr s'" "kinv s'" "cur s' \<noteq> None" "timed_out s' t"
    "timer_view s' s" "lock_nest s' = lock_nest s"
    "\<And>u. timed_out s u \<Longrightarrow> timed_out s' u"
    "lock_nest s = 0 \<Longrightarrow> tstat s c = RT_THREAD_RUNNING \<Longrightarrow> runs_highest s'"
proof -
  have st: "started s t" using t by (simp add: started_def)
  then have ty: "thread_typed s t" using k by (simp add: loose_kinv_def)
  let ?s1 = "upd_thread t (\<lambda>th. th\<lparr>error := - RT_ETIMEOUT\<rparr>) s"
  let ?s2 = "list_remove_thread t ?s1"
  have k1: "loose_kinv {} ?s1" using k by (rule K_upd_other) simp_all
  have st1: "started ?s1 t" "tstat ?s1 t = RT_THREAD_SUSPEND" using t by (simp_all add: started_def upd_thread_def)
  have k2: "loose_kinv {t} ?s2" using K_unlink [OF k1 st1(1)] st1(2) by simp
  have p: "tprio s t < 32" using k st by (simp add: loose_kinv_def loose_inv_def)
  have s2: "threads ?s2 = (threads s)(t := (threads s t)\<lparr>error := - RT_ETIMEOUT\<rparr>)" "cur ?s2 = cur s"
    "timer_list ?s2 = timer_list s" "lock_nest ?s2 = lock_nest s"
    by (simp_all add: upd_thread_def list_remove_thread_def)
  have "\<exists>s3. rt_schedule_insert_thread t ?s2 = Inr s3 \<and> loose_kinv {} s3 \<and> cur s3 = cur s
      \<and> tstat s3 c \<noteq> RT_THREAD_READY \<and> timed_out s3 t \<and> (\<forall>u. u \<noteq> t \<longrightarrow> threads s3 u = threads s u)
      \<and> timer_view s3 s \<and> lock_nest s3 = lock_nest s
      \<and> (tstat s c = RT_THREAD_RUNNING \<longrightarrow> tstat s3 c = RT_THREAD_RUNNING)"
  proof (cases "t = c")
    case True
    let ?s3 = "upd_thread t (\<lambda>th. th\<lparr>stat := stat_put RT_THREAD_RUNNING (stat th)\<rparr>) ?s2"
    have "loose_kinv {t} ?s3" using k2 by (rule K_upd) (use t(2) s2 in simp_all)
    moreover have "cur ?s3 = Some t" "tstat ?s3 t = RT_THREAD_RUNNING"
      using True c by (simp_all add: upd_thread_def list_remove_thread_def)
    ultimately have "loose_kinv {} ?s3" using K_settle [of "{t}" ?s3 t] by simp
    then show ?thesis
      using True c by (intro exI [of _ ?s3]) (auto simp: insert_thread_cur s2 upd_thread_def timed_out_def
          timer_view_def list_remove_thread_def)
  next
    case False
    let ?s3 = "sched_ins t ?s2"
    have "loose_kinv {} ?s3" using K_ins [OF k2, of t] False c t(2) by (simp add: s2)
    moreover have "lock_nest ?s3 = lock_nest ?s2" by (simp add: sched_ins_def Let_def kdefs)
    moreover have "timer_view ?s3 s"
      by (simp add: timer_view_def sched_ins_other upd_thread_def list_remove_thread_def)
    ultimately show ?thesis
      using False c p by (intro exI [of _ ?s3])
        (auto simp: insert_thread_eq s2 sched_ins_frame timed_out_def)
  qed
  then obtain s3 where s3: "rt_schedule_insert_thread t ?s2 = Inr s3" "loose_kinv {} s3" "cur s3 = Some c"
    "tstat s3 c \<noteq> RT_THREAD_READY" "timed_out s3 t" "\<forall>u. u \<noteq> t \<longrightarrow> threads s3 u = threads s u"
    "timer_view s3 s" "lock_nest s3 = lock_nest s" "tstat s c = RT_THREAD_RUNNING \<longrightarrow> tstat s3 c = RT_THREAD_RUNNING"
    using c by auto
  obtain s' where s': "rt_schedule s3 = Inr s'" "kinv s'" "sched_frame s3 s'" "cur s' \<noteq> None"
    "lock_nest s3 = 0 \<Longrightarrow> tstat s3 c = RT_THREAD_RUNNING \<or> ready_group s3 \<noteq> 0 \<Longrightarrow> runs_highest s'"
    by (rule schedule_ok [OF s3(2-4)]) blast
  have keep: "timed_out s' u" if "timed_out s3 u" for u
    using that sched_frame_awake [OF s'(3)] sched_frame_error [OF s'(3)] by (auto simp: timed_out_def)
  show thesis
  proof (rule that [of s'])
    show "thread_timeout t s = Inr s'"
      using t ty s3(1) s'(1) by (simp add: thread_timeout_def thread_typed_def Let_def)
    show "timer_view s' s" using s3(7) sched_frame_fields [OF s'(3)] by (simp add: timer_view_def)
    show "timed_out s u \<Longrightarrow> timed_out s' u" for u
      using keep [of u] s3(5,6) keep [of t] by (cases "u = t") (auto simp: timed_out_def)
    show "lock_nest s' = lock_nest s" using s3(8) sched_frame_fields [OF s'(3)] by simp
    show "runs_highest s'" if "lock_nest s = 0" "tstat s c = RT_THREAD_RUNNING" using that s3(8,9) s'(5) by simp
  qed (use s' s3(5) keep in auto)
qed

section \<open>The tick wakes sleeping threads\<close>

text \<open>The contract of the timeout functions, discharged for \<^verbatim>\<open>_thread_timeout\<close>:
  with only thread timers in the list, whatever the application's functions are.  \<open>s0\<close> is the
  state the check started in; a thread whose timer has left the list since has timed out.\<close>

definition check_inv :: "kernel \<Rightarrow> kernel \<Rightarrow> bool" where
  "check_inv s0 s \<longleftrightarrow> kinv s \<and> cur s \<noteq> None \<and> set (timer_list s) \<subseteq> range TThread
     \<and> lock_nest s = lock_nest s0
     \<and> (\<forall>t. TThread t \<in> set (timer_list s0) \<longrightarrow> TThread t \<notin> set (timer_list s) \<longrightarrow> timed_out s t)"

lemma loose_kinv_tmp: "loose_kinv X (s\<lparr>timer_tmp := l\<rparr>) = loose_kinv X s"
  by (simp add: loose_kinv_def loose_inv_def queues_ok_def bitmap_ok_def wait_ok_def started_def
      timers_inv_def timer_ok_def timer_flags_ok_def timer_typed_def due_def [abs_def] timer_active_def
      timer_periodic_def rt_object_get_type_def thread_typed_def)

interpretation thread_timers: timer_callbacks "timeout_call usr" "check_inv s0" for usr s0
proof
  fix s m rest
  assume I: "check_inv s0 s" and idle: "timers_idle s" and l: "timer_list s = m # rest" and due: "due s m = 0"
  then obtain t where m: "m = TThread t" by (auto simp: check_inv_def)
  have k: "loose_kinv {} s" and c: "\<exists>c. cur s = Some c \<and> tstat s c \<noteq> RT_THREAD_READY"
    using I by (auto simp: check_inv_def kinv_def)
  then obtain c where c: "cur s = Some c" "tstat s c \<noteq> RT_THREAD_READY" by blast
  have ts: "tstat s t = RT_THREAD_SUSPEND" using k l m by (simp add: loose_kinv_def)
  then have ty: "thread_typed s t" using k by (simp add: loose_kinv_def started_def)
  have d: "m \<notin> set rest" "distinct (timer_list s)"
    using idle l by (simp_all add: timers_idle_def timers_inv_def timer_ok_def)
  let ?s1 = "deactivate m (timer_remove m s)"
  have f: "fire m s = ?s1\<lparr>timer_tmp := [m]\<rparr>"
    using ty idle by (simp add: fire_def m thread_typed_def timers_idle_def Let_def)
  have k1: "loose_kinv {} (fire m s)" unfolding f loose_kinv_tmp by (rule K_timer_stop [OF k])
  have fl: "timer_list (fire m s) = rest" "cur (fire m s) = cur s" "threads (fire m s) = threads s"
    "lock_nest (fire m s) = lock_nest s"
    using d l by (simp_all add: f)
  have pre: "tstat (fire m s) t = RT_THREAD_SUSPEND" "TThread t \<notin> set (timer_list (fire m s))"
    "cur (fire m s) = Some c" "tstat (fire m s) c \<noteq> RT_THREAD_READY"
    using ts c d m fl by simp_all
  obtain s' where s': "thread_timeout t (fire m s) = Inr s'" "kinv s'" "cur s' \<noteq> None"
    "timed_out s' t" "timer_view s' (fire m s)" "lock_nest s' = lock_nest (fire m s)"
    "\<And>u. timed_out (fire m s) u \<Longrightarrow> timed_out s' u"
    by (rule timeout_ok [OF k1 pre]) blast
  have fin: "finish m s' = timer_remove m s'"
    using ty timer_view_fields(2) [OF s'(5)] f
    by (simp add: finish_def Let_def m thread_typed_def timer_periodic_def)
  have tl: "timer_list s' = rest" using s'(5) fl by (simp add: timer_view_def)
  have "finish m s' = s'\<lparr>timer_tmp := remove1 m (timer_tmp s')\<rparr>"
    unfolding fin timer_remove_def using d tl by (cases s') simp
  then have kf: "kinv (finish m s')" "timer_list (finish m s') = rest" "cur (finish m s') = cur s'"
    "threads (finish m s') = threads s'" "lock_nest (finish m s') = lock_nest s'"
    using s'(2) tl by (simp_all add: kinv_def loose_kinv_tmp)
  have "timed_out (finish m s') u" if "TThread u \<in> set (timer_list s0)" "TThread u \<notin> set rest" for u
  proof (cases "u = t")
    case True
    then show ?thesis using s'(4) kf by (simp add: timed_out_def)
  next
    case False
    then have "timed_out s u" using I that l m by (auto simp: check_inv_def)
    then have "timed_out (fire m s) u" by (simp add: timed_out_def fl)
    then show ?thesis using s'(7) [of u] kf by (simp add: timed_out_def)
  qed
  then have "check_inv s0 (finish m s')"
    using I s'(3,6) l kf fl by (auto simp: check_inv_def)
  then show "\<exists>s'. timeout_call usr (timeout_func (timers s m)) (fire m s) = Inr s'
      \<and> timer_view s' (fire m s) \<and> check_inv s0 (finish m s')"
    using s'(1,5) ty m by (intro exI [of _ s']) (simp add: timeout_call_def thread_typed_def)
qed

lemma kinv_fields_cong:
  assumes "threads s' = threads s" "queues s' = queues s" "ready_group s' = ready_group s"
    "cur s' = cur s" "objs s' = objs s" "timers s' = timers s" "timer_list s' = timer_list s"
    "timers_inv s' = timers_inv s"
  shows "loose_kinv X s' = loose_kinv X s"
  using assms thread_typed_cong [of s' s]
  by (simp add: loose_kinv_def loose_inv_def queues_ok_def bitmap_ok_def wait_ok_def started_def)

lemma tick_ok:
  assumes k: "kinv s" and idle: "timers_idle s" and th: "set (timer_list s) \<subseteq> range TThread"
    and c: "cur s = Some c" and ahead: "\<forall>m \<in> set (timer_list s). due s m \<noteq> 0"
    and fuel: "length (timer_list s) < fuel"
  obtains s' where "rt_tick_increase (timeout_call usr) fuel s = Inr s'" "kinv s'" "timers_idle s'"
    "tick s' = tick s + 1" "cur s' \<noteq> None" "lock_nest s' = lock_nest s"
    "set (timer_list s') = {m \<in> set (timer_list s). due s m \<noteq> 1}"
    "\<And>m. m \<in> set (timer_list s') \<Longrightarrow> due s' m = due s m - 1 \<and> due s' m \<noteq> 0"
    "\<And>t. TThread t \<in> set (timer_list s) \<Longrightarrow> due s (TThread t) = 1 \<Longrightarrow> timed_out s' t"
proof -
  let ?s1 = "s\<lparr>tick := tick s + 1\<rparr>"
  let ?s2 = "upd_thread c (\<lambda>th. th\<lparr>remaining_tick := remaining_tick th - 1\<rparr>) ?s1"
  let ?s3 = "upd_thread c (\<lambda>th. th\<lparr>remaining_tick := init_tick th,
                     stat := stat th OR RT_THREAD_STAT_YIELD\<rparr>) ?s2"
  have i1: "timers_idle ?s1" "due ?s1 m = due s m - 1" for m
    using timers_idle_tick [OF idle ahead] by auto
  have k1: "loose_kinv {} ?s1"
    using k idle i1(1) kinv_fields_cong [of ?s1 s "{}"] by (simp add: kinv_def timers_idle_def)
  have k2: "loose_kinv {} ?s2" using k1 by (rule K_upd_other) simp_all
  have k3: "loose_kinv {} ?s3" using k2 by (rule K_upd_other) simp_all
  have nr: "tstat s c \<noteq> RT_THREAD_READY" using k c by (simp add: kinv_def)
  have view: "timer_list x = timer_list s" "timers x = timers s" "timer_tmp x = timer_tmp s"
    "tick x = tick s + 1" "objs x = objs s" "cur x = Some c" "tstat x c = tstat s c" "lock_nest x = lock_nest s"
    if "x = ?s2 \<or> x = ?s3" for x
    using that c by (auto simp: upd_thread_def)
  have "\<exists>s4. (if remaining_tick (threads ?s2 c) = 0 then rt_schedule ?s3 else Inr ?s2) = Inr s4
      \<and> kinv s4 \<and> cur s4 \<noteq> None \<and> timer_list s4 = timer_list s \<and> timers s4 = timers s
      \<and> timer_tmp s4 = timer_tmp s \<and> tick s4 = tick s + 1 \<and> objs s4 = objs s \<and> lock_nest s4 = lock_nest s"
  proof (cases "remaining_tick (threads ?s2 c) = 0")
    case True
    obtain s4 where "rt_schedule ?s3 = Inr s4" "kinv s4" "sched_frame ?s3 s4" "cur s4 \<noteq> None"
      by (rule schedule_ok [OF k3, of c]) (use view [of ?s3] nr in simp_all)
    with True view [of ?s3] sched_frame_fields [of ?s3 s4] show ?thesis by simp
  next
    case False
    have "kinv ?s2" using k2 view [of ?s2] nr by (simp add: kinv_def)
    with False view [of ?s2] show ?thesis by simp
  qed
  then obtain s4 where s4: "(if remaining_tick (threads ?s2 c) = 0 then rt_schedule ?s3 else Inr ?s2) = Inr s4"
    "kinv s4" "cur s4 \<noteq> None" "timer_list s4 = timer_list s" "timers s4 = timers s"
    "timer_tmp s4 = timer_tmp s" "tick s4 = tick s + 1" "objs s4 = objs s" "lock_nest s4 = lock_nest s" by blast
  have d4: "due s4 m = due s m - 1" for m using i1(2) [of m] s4 by (simp add: due_def)
  have idle4: "timers_idle s4"
    using i1(1) timers_inv_cong [of s4 ?s1] s4 by (simp add: timers_idle_def)
  have "check_inv s4 s4" using s4 th by (simp add: check_inv_def)
  from thread_timers.check [OF this idle4, of fuel usr] fuel s4(4)
  obtain s' where s': "rt_timer_check (timeout_call usr) fuel s4 = Inr s'"
    "thread_timers.after_check s4 s4 s'" by auto
  have per: "\<not> timer_periodic s4 m" if mem: "m \<in> set (timer_list s4)" for m
  proof -
    obtain t where m: "m = TThread t" using mem th s4(4) by auto
    then have "tstat s4 t = RT_THREAD_SUSPEND" using s4(2) mem by (simp add: kinv_def loose_kinv_def)
    then show ?thesis using s4(2) m by (simp add: kinv_def loose_kinv_def started_def thread_typed_def)
  qed
  have one: "due s4 m = 0 \<longleftrightarrow> due s m = 1" for m by (simp add: d4)
  have l': "set (timer_list s') = {m \<in> set (timer_list s). due s m \<noteq> 1}"
    using s'(2) per s4(4) one unfolding thread_timers.after_check_def by auto
  show thesis
  proof (rule that [of s'])
    show "rt_tick_increase (timeout_call usr) fuel s = Inr s'"
      using c s4(1) s'(1) by (simp add: rt_tick_increase_def Let_def)
    show "kinv s'" "timers_idle s'" "tick s' = tick s + 1" "cur s' \<noteq> None" "lock_nest s' = lock_nest s"
      using s'(2) s4 by (simp_all add: thread_timers.after_check_def check_inv_def)
    show "set (timer_list s') = {m \<in> set (timer_list s). due s m \<noteq> 1}" by (rule l')
    show "due s' m = due s m - 1 \<and> due s' m \<noteq> 0" if "m \<in> set (timer_list s')" for m
    proof -
      have "due s4 m \<noteq> 0" "m \<in> set (timer_list s4)" using that l' one s4(4) by auto
      then show ?thesis using that s'(2) d4 [of m] unfolding thread_timers.after_check_def by auto
    qed
    show "timed_out s' t" if "TThread t \<in> set (timer_list s)" "due s (TThread t) = 1" for t
      using that s'(2) l' s4(4) unfolding thread_timers.after_check_def check_inv_def by auto
  qed
qed

lemma demo_typed: "thread_typed demo_kernel t"
  by (simp add: thread_typed_def rt_object_get_type_def timer_periodic_def demo_kernel_def)

lemma demo_timers: "timer_list demo_kernel = []" "timers_idle demo_kernel"
  by (simp_all add: demo_kernel_def timers_idle_def timers_inv_def timer_ok_def timer_flags_ok_def
      timer_typed_def timer_active_def split: timid.splits)

lemma demo_kinv: "kinv demo_kernel"
  using demo_sched_inv demo_timers demo_typed
  by (auto simp: kinv_def loose_kinv_def loose_inv_empty timers_idle_def)

section \<open>Sleeping for a number of ticks\<close>

lemma suspend_for_ok:
  assumes k: "loose_kinv {} s" and c: "cur s = Some c" "tstat s c = RT_THREAD_RUNNING"
    and n: "n < RT_TICK_HALF"
  obtains s' where "suspend_for c n s = Inr s'" "loose_kinv {} s'"
    "tstat s' c = RT_THREAD_SUSPEND" "\<And>q. queues s' q = queues s q" "cur s' = Some c"
    "lock_nest s' = lock_nest s" "ready_group s' \<noteq> 0 \<longleftrightarrow> (\<exists>p<32. queues s (QReady p) \<noteq> [])"
    "set (timer_list s') = insert (TThread c) (set (timer_list s))"
    "due s' (TThread c) = n" "\<And>m. m \<noteq> TThread c \<Longrightarrow> due s' m = due s m"
    "timer_tmp s' = remove1 (TThread c) (timer_tmp s)" "tick s' = tick s"
proof -
  obtain s1 where s1: "rt_thread_suspend c s = Inr (RT_EOK, s1)" "loose_kinv {} s1"
    "tstat s1 c = RT_THREAD_SUSPEND" "\<And>q. queues s1 q = queues s q" "\<And>q. c \<notin> set (queues s1 q)"
    "cur s1 = Some c" "lock_nest s1 = lock_nest s" "TThread c \<notin> set (timer_list s1)"
    "\<And>u. thread_typed s1 u = thread_typed s u" "tick s1 = tick s"
    by (rule suspend_ok [OF k c]) blast
  have ty: "thread_typed s c" using k c by (simp add: loose_kinv_def started_def)
  have nt: "TThread c \<notin> set (timer_list s)"
    using k c by (auto simp: loose_kinv_def)
  have tl: "timer_list s1 = timer_list s \<and> timers s1 = timers s \<and> timer_tmp s1 = timer_tmp s"
  proof -
    have "\<not> timer_active s (TThread c)"
      using k nt by (simp add: loose_kinv_def timers_inv_def timer_flags_ok_def)
    then have "\<not> timer_active x (TThread c)" if "objs x = objs s" for x
      using that by (simp add: timer_active_def)
    then show ?thesis
      using s1(1) c ty by (auto simp: rt_thread_suspend_def rt_thread_self_def thread_typed_def
          assert_then_eq_Inr bind_res_eq_Inr rt_schedule_remove_thread_def Let_def rt_timer_stop_def
          kdefs split: if_splits)
  qed
  let ?s2 = "upd_timer (TThread c) (\<lambda>x. x\<lparr>timer_init_tick := n\<rparr>) s1"
  have ty1: "thread_typed s1 c" using ty s1(9) by simp
  have k2: "loose_kinv {} ?s2" by (rule K_timer_set [OF s1(2) ty1])
  have ty2: "thread_typed ?s2 c"
    using ty1 by (simp add: thread_typed_def upd_timer_def timer_periodic_def rt_object_get_type_def)
  let ?s3 = "started_timer (TThread c) ?s2"
  have s2: "tstat ?s2 c = RT_THREAD_SUSPEND" "timer_init_tick (timers ?s2 (TThread c)) = n"
    using s1(3) by (simp_all add: upd_timer_def)
  have k3: "loose_kinv {} ?s3" by (rule K_timer_start [OF k2 ty2 s2(1)]) (use s2 n in simp)
  have d: "due ?s2 m = due s1 m" for m by (simp add: due_def upd_timer_def)
  have q3: "queues ?s3 q = queues s q" for q by (simp add: started_timer_fields upd_timer_def s1)
  have rg: "ready_group ?s3 \<noteq> 0 \<longleftrightarrow> (\<exists>p<32. queues s (QReady p) \<noteq> [])"
  proof -
    have "bitmap_ok ?s3" using k3 by (simp only: loose_kinv_def loose_inv_def)
    then show ?thesis unfolding word_nonzero_bit bitmap_ok_def q3 by blast
  qed
  show thesis
  proof (rule that [of ?s3])
    have "rt_object_get_type (OTimer (TThread c)) ?s2 = RT_Object_Class_Timer"
      using ty2 by (simp add: thread_typed_def)
    then show "suspend_for c n s = Inr ?s3"
      using s1(1) ty1 n by (simp add: suspend_for_def rt_timer_control_def thread_typed_def
          rt_timer_start_eq)
    show "set (timer_list ?s3) = insert (TThread c) (set (timer_list s))"
      using tl nt by (simp add: started_timer_fields upd_timer_def)
    show "due ?s3 m = due s m" if "m \<noteq> TThread c" for m
      using that tl s1(10) by (simp add: started_timer_fields d) (simp add: due_def)
    show "timer_tmp ?s3 = remove1 (TThread c) (timer_tmp s)"
      using tl by (simp add: started_timer_fields upd_timer_def)
    show "loose_kinv {} ?s3" by (rule k3)
    show "ready_group ?s3 \<noteq> 0 \<longleftrightarrow> (\<exists>p<32. queues s (QReady p) \<noteq> [])" by (rule rg)
    show "queues ?s3 q = queues s q" for q by (rule q3)
  qed (use s1 s2 in \<open>simp_all add: started_timer_fields upd_timer_def\<close>)
qed

text \<open>A run of ticks during which nothing else happens.\<close>

fun ticks :: "(tfun \<Rightarrow> kernel \<Rightarrow> kernel res) \<Rightarrow> nat \<Rightarrow> nat \<Rightarrow> kernel \<Rightarrow> kernel res" where
  "ticks call fuel 0 s = Inr s"
| "ticks call fuel (Suc n) s = bind_res (rt_tick_increase call fuel s) (ticks call fuel n)"

text \<open>The states a run of ticks goes through.\<close>

definition tickable :: "nat \<Rightarrow> kernel \<Rightarrow> bool" where
  "tickable fuel s \<longleftrightarrow> kinv s \<and> timers_idle s \<and> set (timer_list s) \<subseteq> range TThread \<and> cur s \<noteq> None
     \<and> (\<forall>m \<in> set (timer_list s). due s m \<noteq> 0) \<and> length (timer_list s) < fuel"

lemma tickable_tick:
  assumes "tickable fuel s"
  obtains s' where "rt_tick_increase (timeout_call usr) fuel s = Inr s'" "tickable fuel s'"
    "set (timer_list s') = {m \<in> set (timer_list s). due s m \<noteq> 1}"
    "\<And>m. m \<in> set (timer_list s') \<Longrightarrow> due s' m = due s m - 1"
    "\<And>t. TThread t \<in> set (timer_list s) \<Longrightarrow> due s (TThread t) = 1 \<Longrightarrow> timed_out s' t"
proof -
  obtain c where c: "cur s = Some c" using assms by (auto simp: tickable_def)
  have a: "kinv s" "timers_idle s" "set (timer_list s) \<subseteq> range TThread"
    "\<forall>m \<in> set (timer_list s). due s m \<noteq> 0" "length (timer_list s) < fuel"
    using assms by (simp_all add: tickable_def)
  obtain s' where s': "rt_tick_increase (timeout_call usr) fuel s = Inr s'" "kinv s'" "timers_idle s'"
    "cur s' \<noteq> None" "set (timer_list s') = {m \<in> set (timer_list s). due s m \<noteq> 1}"
    "\<And>m. m \<in> set (timer_list s') \<Longrightarrow> due s' m = due s m - 1 \<and> due s' m \<noteq> 0"
    "\<And>t. TThread t \<in> set (timer_list s) \<Longrightarrow> due s (TThread t) = 1 \<Longrightarrow> timed_out s' t"
    by (rule tick_ok [OF a(1-3) c a(4,5), of usr]) blast
  have dist: "distinct (timer_list s)" "distinct (timer_list s')"
    using a(2) s'(3) by (simp_all add: timers_idle_def timers_inv_def timer_ok_def)
  have "set (timer_list s') \<subseteq> set (timer_list s)" using s'(5) by blast
  then have "length (timer_list s') \<le> length (timer_list s)"
    using card_mono [of "set (timer_list s)" "set (timer_list s')"]
    by (simp add: distinct_card [OF dist(1)] distinct_card [OF dist(2)])
  then have "tickable fuel s'" using s' a by (auto simp: tickable_def)
  with s' show thesis by (intro that [of s']) auto
qed

lemma tickable_suspended:
  "tickable fuel s \<Longrightarrow> TThread t \<in> set (timer_list s) \<Longrightarrow> tstat s t = RT_THREAD_SUSPEND"
  unfolding tickable_def kinv_def loose_kinv_def by blast

lemma ticks_sleeping:
  assumes "tickable fuel s" "TThread t \<in> set (timer_list s)" "due s (TThread t) = word_of_nat n"
    "n < 2 ^ 32" "k \<le> n"
  shows "\<exists>s'. ticks (timeout_call usr) fuel k s = Inr s' \<and> tickable fuel s'
    \<and> (k < n \<longrightarrow> tstat s' t = RT_THREAD_SUSPEND) \<and> (k = n \<longrightarrow> timed_out s' t)"
  using assms
proof (induction k arbitrary: s n)
  case 0
  have "due s (TThread t) \<noteq> 0" using 0(1,2) by (simp add: tickable_def)
  then have "n \<noteq> 0" using 0(3) by (intro notI) simp
  then show ?case using 0(1) tickable_suspended [OF 0(1,2)] by simp
next
  case (Suc k)
  obtain s1 where s1: "rt_tick_increase (timeout_call usr) fuel s = Inr s1" "tickable fuel s1"
    "set (timer_list s1) = {m \<in> set (timer_list s). due s m \<noteq> 1}"
    "\<And>m. m \<in> set (timer_list s1) \<Longrightarrow> due s1 m = due s m - 1"
    "\<And>t. TThread t \<in> set (timer_list s) \<Longrightarrow> due s (TThread t) = 1 \<Longrightarrow> timed_out s1 t"
    by (rule tickable_tick [OF Suc.prems(1), of usr]) blast
  show ?case
  proof (cases "n = 1")
    case True
    then have "k = 0" "due s (TThread t) = 1" using Suc.prems by simp_all
    then show ?thesis using s1(1,2) s1(5) [OF Suc.prems(2)] True by simp
  next
    case False
    then obtain n' where n: "n = Suc n'" "n' \<noteq> 0" using Suc.prems(5) by (cases n) auto
    have "unat (word_of_nat n :: u32) = n" using Suc.prems(4) by (simp add: unat_of_nat)
    then have "due s (TThread t) \<noteq> 1" using Suc.prems(3) False by (metis unat_1)
    then have mem: "TThread t \<in> set (timer_list s1)" using s1(3) Suc.prems(2) by simp
    moreover have "due s1 (TThread t) = word_of_nat n'" using s1(4) [OF mem] Suc.prems(3) n by simp
    ultimately show ?thesis
      using Suc.IH [OF s1(2) mem, of n'] Suc.prems(4,5) n s1(1) by simp
  qed
qed

lemma rt_thread_sleep_ok:
  assumes k0: "loose_kinv {} s" and c: "cur s = Some c" "tstat s c = RT_THREAD_RUNNING"
    and ctx: "lock_nest s = 0" "irq_nest s = 0" "ready_group s \<noteq> 0"
    and n: "n \<noteq> 0" "n < RT_TICK_HALF"
  obtains s2 where "rt_thread_sleep n s = Inr (Blocked, s2)" "kinv s2" "cur s2 \<noteq> None" "runs_highest s2"
    "set (timer_list s2) = insert (TThread c) (set (timer_list s))"
    "due s2 (TThread c) = n" "\<And>m. m \<noteq> TThread c \<Longrightarrow> due s2 m = due s m"
    "timer_tmp s2 = remove1 (TThread c) (timer_tmp s)"
proof -
  have ty: "thread_typed s c" using k0 c(2) by (simp add: loose_kinv_def started_def)
  let ?s0 = "upd_thread c (\<lambda>th. th\<lparr>error := RT_EOK\<rparr>) s"
  have k1: "loose_kinv {} ?s0" using k0 by (rule K_upd_other) simp_all
  have s0: "cur ?s0 = Some c" "tstat ?s0 c = RT_THREAD_RUNNING" "lock_nest ?s0 = 0"
    "queues ?s0 = queues s" "timer_list ?s0 = timer_list s" "due ?s0 m = due s m"
    "timer_tmp ?s0 = timer_tmp s" for m
    using c ctx by (simp_all add: upd_thread_def due_def)
  obtain s1 where s1: "suspend_for c n ?s0 = Inr s1" "loose_kinv {} s1"
    "tstat s1 c = RT_THREAD_SUSPEND" "cur s1 = Some c"
    "lock_nest s1 = lock_nest ?s0" "ready_group s1 \<noteq> 0 \<longleftrightarrow> (\<exists>p<32. queues ?s0 (QReady p) \<noteq> [])"
    "set (timer_list s1) = insert (TThread c) (set (timer_list ?s0))"
    "due s1 (TThread c) = n" "\<And>m. m \<noteq> TThread c \<Longrightarrow> due s1 m = due ?s0 m"
    "timer_tmp s1 = remove1 (TThread c) (timer_tmp ?s0)"
    by (rule suspend_for_ok [OF k1 s0(1,2) n(2)]) blast
  have "bitmap_ok s" using k0 by (simp only: loose_kinv_def loose_inv_def)
  moreover obtain p where p: "p < 32" "bit (ready_group s) p"
    using ctx(3) unfolding word_nonzero_bit by blast
  ultimately have "queues ?s0 (QReady p) \<noteq> []" by (simp add: bitmap_ok_def s0(4))
  then have rg: "ready_group s1 \<noteq> 0" using s1(6) p(1) by blast
  have l1: "lock_nest s1 = 0" using s1(5) s0(3) by simp
  obtain s2 where s2: "rt_schedule s1 = Inr s2" "kinv s2" "sched_frame s1 s2" "cur s2 \<noteq> None" "runs_highest s2"
    by (rule schedule_ok [OF s1(2,4)]) (use s1(3) l1 rg in auto)
  note fr = sched_frame_fields [OF s2(3)]
  have avail: "RT_DEBUG_SCHEDULER_AVAILABLE True s"
    using c ctx by (simp add: RT_DEBUG_SCHEDULER_AVAILABLE_def RT_DEBUG_IN_THREAD_CONTEXT_def
        RT_DEBUG_NOT_IN_INTERRUPT_def)
  have "rt_thread_sleep n s = Inr (Blocked, s2)"
    using n(1) c(1) ty s1(1) s2(1) avail
    by (simp add: rt_thread_sleep_def rt_thread_self_def thread_typed_def)
  moreover have dd: "due s2 m = due s1 m" for m using fr by (simp add: due_def)
  moreover have "due s2 m = due s m" if "m \<noteq> TThread c" for m
    using s1(9) [OF that] by (simp only: dd s0)
  ultimately show thesis
    using s2(2,4,5) s1(7,8,10) by (intro that [of s2]) (simp_all add: fr s0 dd)
qed

lemma sleep_tickable:
  assumes "timers_idle s" "set (timer_list s) \<subseteq> range TThread"
    "\<forall>m \<in> set (timer_list s). due s m \<noteq> 0" "Suc (length (timer_list s)) < fuel"
    and k: "kinv s2" "cur s2 \<noteq> None" and l: "set (timer_list s2) = insert (TThread c) (set (timer_list s))"
    and d: "due s2 (TThread c) \<noteq> 0" "\<And>m. m \<noteq> TThread c \<Longrightarrow> due s2 m = due s m"
    and t: "timer_tmp s2 = remove1 (TThread c) (timer_tmp s)"
  shows "tickable fuel s2"
proof -
  have ti: "timers_inv s2" using k(1) by (simp add: kinv_def loose_kinv_def)
  then have "distinct (timer_list s2)" by (simp add: timers_inv_def timer_ok_def)
  then have "length (timer_list s2) = card (insert (TThread c) (set (timer_list s)))"
    using l distinct_card by metis
  also have "\<dots> \<le> Suc (length (timer_list s))"
    using card_length [of "timer_list s"] by (simp add: card_insert_if)
  finally have len: "length (timer_list s2) < fuel" using assms(4) by simp
  have idle: "timers_idle s2" using ti t assms(1) by (simp add: timers_idle_def)
  have "due s2 m \<noteq> 0" if "m \<in> set (timer_list s2)" for m
    using that d assms(3) l by (cases "m = TThread c") auto
  with len idle k assms(2) show ?thesis by (auto simp: tickable_def l)
qed



text \<open>C4: a thread that sleeps for \<open>n\<close> ticks (\<open>n\<close> below the timer horizon)
  is suspended by the call, another thread runs, and if only ticks happen it stays suspended for
  \<open>n - 1\<close> ticks and is awake, with its error set to timeout, after exactly \<open>n\<close>: the
  32-bit tick counter may wrap in between.\<close>

theorem rt_thread_sleep_exact:
  assumes "kinv s" "timers_idle s" "set (timer_list s) \<subseteq> range TThread"
    and "\<forall>m \<in> set (timer_list s). due s m \<noteq> 0" "Suc (length (timer_list s)) < fuel"
    and "cur s = Some c" "tstat s c = RT_THREAD_RUNNING" "lock_nest s = 0" "irq_nest s = 0"
    and "ready_group s \<noteq> 0" "0 < n" "n < 0x7fffffff" "k \<le> n"
  shows "\<exists>s1 s2. rt_thread_sleep (word_of_nat n) s = Inr (Blocked, s1) \<and> runs_highest s1
    \<and> ticks (timeout_call usr) fuel k s1 = Inr s2 \<and> kinv s2
    \<and> (k < n \<longrightarrow> tstat s2 c = RT_THREAD_SUSPEND) \<and> (k = n \<longrightarrow> timed_out s2 c)"
proof -
  let ?n = "word_of_nat n :: u32"
  have un: "unat ?n = n" using assms(12) by (simp add: unat_of_nat)
  then have nz: "?n \<noteq> 0" using assms(11) by (metis neq0_conv unat_0)
  have half: "?n < RT_TICK_HALF" using un assms(12) by (simp add: word_less_nat_alt)
  have k0: "loose_kinv {} s" using assms(1) by (simp add: kinv_def)
  obtain s2 where s2: "rt_thread_sleep ?n s = Inr (Blocked, s2)" "kinv s2" "cur s2 \<noteq> None" "runs_highest s2"
    "set (timer_list s2) = insert (TThread c) (set (timer_list s))"
    "due s2 (TThread c) = ?n" "\<And>m. m \<noteq> TThread c \<Longrightarrow> due s2 m = due s m"
    "timer_tmp s2 = remove1 (TThread c) (timer_tmp s)"
    by (rule rt_thread_sleep_ok [OF k0 assms(6-10) nz half]) blast
  have tk: "tickable fuel s2"
    by (rule sleep_tickable [OF assms(2-5) s2(2,3,5) _ s2(7,8)]) (use s2(6) nz in simp)
  have mem: "TThread c \<in> set (timer_list s2)" "n < 2 ^ 32" using s2(5) assms(12) by simp_all
  from ticks_sleeping [OF tk mem(1) s2(6) mem(2) assms(13), of usr]
  show ?thesis using s2(1,4) unfolding tickable_def by blast
qed

theorem rt_thread_sleep_exact_witness:
  "\<exists>s1 s2. rt_thread_sleep 20 demo_kernel = Inr (Blocked, s1)
    \<and> ticks (timeout_call (\<lambda>n s. Inr s)) 5 20 s1 = Inr s2 \<and> timed_out s2 1"
  using rt_thread_sleep_exact [of demo_kernel 5 1 20 20 "\<lambda>n s. Inr s"] demo_kinv demo_timers
  by (simp add: demo_cur demo_stat) (auto simp: demo_kernel_def)

section \<open>Yielding\<close>

text \<open>A run of calls of \<^verbatim>\<open>rt_thread_yield\<close>, each made by the thread then
  current.\<close>

fun yields :: "nat \<Rightarrow> kernel \<Rightarrow> kernel res" where
  "yields 0 s = Inr s"
| "yields (Suc n) s = bind_res (rt_thread_yield s) (\<lambda>(_, s). yields n s)"

lemma yield_swap:
  assumes k: "kinv s" and l: "lock_nest s = 0" and a: "cur s = Some a" "tstat s a = RT_THREAD_RUNNING"
    and q: "queues s (QReady (tprio s a)) = b # rest"
    and top: "\<forall>p < tprio s a. queues s (QReady p) = []"
  obtains s' where "rt_thread_yield s = Inr (RT_EOK, s')" "kinv s'" "lock_nest s' = 0"
    "cur s' = Some b" "tstat s' b = RT_THREAD_RUNNING" "tprio s' b = tprio s a"
    "queues s' (QReady (tprio s a)) = a # rest" "\<forall>p < tprio s a. queues s' (QReady p) = []"
proof -
  let ?p = "tprio s a"
  have k0: "loose_kinv {} s" using k by (simp add: kinv_def)
  let ?s1 = "upd_thread a (\<lambda>th. th\<lparr>remaining_tick := init_tick th,
            stat := stat th OR RT_THREAD_STAT_YIELD\<rparr>) s"
  have k1: "loose_kinv {} ?s1" using k0 by (rule K_upd_other) simp_all
  then have i1: "loose_inv {} ?s1" by (simp add: loose_kinv_def)
  have s1: "cur ?s1 = Some a" "tstat ?s1 t = tstat s t" "tprio ?s1 t = tprio s t" "queues ?s1 = queues s"
    "lock_nest ?s1 = 0" "ready_group ?s1 = ready_group s"
    "stat (threads ?s1 a) AND RT_THREAD_STAT_YIELD = RT_THREAD_STAT_YIELD" for t
    using a l by (simp_all add: upd_thread_def bit.conj_disj_distrib2)
  have p: "?p < 32" using k0 a(2) by (simp add: loose_kinv_def loose_inv_def started_def)
  have b: "tstat s b = RT_THREAD_READY" "tprio s b = ?p"
  proof -
    have "b \<in> set (queues s (QReady ?p))" using q by simp
    moreover have "ready_ok s" using kinv_sched_inv [OF k] by (simp add: sched_inv_def)
    ultimately show "tstat s b = RT_THREAD_READY" "tprio s b = ?p" by (simp_all add: ready_ok_def)
  qed
  have ab: "b \<noteq> a" using a b by auto
  have bm: "bitmap_ok s" using kinv_sched_inv [OF k] by (simp add: sched_inv_def)
  have low: "lowest_set (ready_group s) ?p"
    unfolding lowest_set_def using bm p q top by (auto simp: bitmap_ok_def)
  have high: "scheduler_get_highest_priority_thread ?s1 = Inr (b, ?p)"
    using q by (simp add: scheduler_get_highest_priority_thread_def s1(4,6) rt_ffs_lowest [OF low])
  have choice: "schedule_choice (threads ?s1 a) a b ?p = (b, True)"
    unfolding schedule_choice_def using a(2) s1(2,3) s1(7) by simp
  let ?s2 = "switch_state a b ?p True ?s1"
  have sch: "rt_schedule ?s1 = Inr ?s2"
    by (rule rt_schedule_switch_eq) (use s1 high choice ab b p a lowest_set_nonzero [OF low] in simp_all)
  have i2: "loose_inv {} ?s2"
    by (rule switch_state_inv [OF i1 s1(1)]) (use s1 b a in simp_all)
  have f2: "sched_frame ?s1 ?s2"
    by (rule switch_state_frame [OF i1]) (use s1 b a in simp_all)
  have c2: "cur ?s2 = Some b" "tstat ?s2 b = RT_THREAD_RUNNING" by (rule switch_state_cur)+
  have k2: "kinv ?s2" using kinv_frame [OF k1 f2 i2] c2 by (simp add: kinv_def)
  have nq: "a \<notin> set (queues s q')" for q'
  proof -
    have "loose_inv {} s" using k0 by (simp add: loose_kinv_def)
    then show ?thesis using a(2) by (rule running_not_queued)
  qed
  have q2: "queues ?s2 (QReady p') = remove1 b (if p' = ?p then a # queues s (QReady p') else queues s (QReady p'))" for p'
    using ab by (simp add: switch_state_def Let_def sched_ins_def upd_thread_def upd_queue_def)
  have p2: "tprio ?s2 b = ?p"
    using f2 b(2) s1(3) unfolding sched_frame_def
    by (metis (no_types, lifting) thread.select_convs(2) thread.surjective thread.update_convs(1))
  show thesis
  proof (rule that [of ?s2])
    show "rt_thread_yield s = Inr (RT_EOK, ?s2)"
      using a sch by (simp add: rt_thread_yield_def rt_thread_self_def)
    show "lock_nest ?s2 = 0" using sched_frame_fields [OF f2] s1(5) by simp
    show "queues ?s2 (QReady ?p) = a # rest" using q2 [of ?p] q ab by simp
    show "\<forall>p'<?p. queues ?s2 (QReady p') = []" using q2 top by simp
  qed (use k2 c2 p2 in simp_all)
qed

text \<open>C21: yielding does not rotate a ready queue.  \<^verbatim>\<open>rt_schedule\<close> clears the
  yield flag before it puts the thread back, so the thread goes to the head of its queue and not to
  its tail.  With a running thread and two or more ready threads at the highest ready priority, any
  number of yields alternates between the running thread and the first ready one; the others stay
  where they are and never run.\<close>

theorem rt_thread_yield_starves:
  assumes "kinv s" "lock_nest s = 0" "cur s = Some a" "tstat s a = RT_THREAD_RUNNING"
    and "queues s (QReady (tprio s a)) = b # rest" "\<forall>p < tprio s a. queues s (QReady p) = []"
  shows "\<exists>s'. yields n s = Inr s' \<and> cur s' = Some (if even n then a else b)
    \<and> queues s' (QReady (tprio s a)) = (if even n then b else a) # rest"
  using assms
proof (induction n arbitrary: s a b)
  case (Suc n)
  obtain s1 where s1: "rt_thread_yield s = Inr (RT_EOK, s1)" "kinv s1" "lock_nest s1 = 0"
    "cur s1 = Some b" "tstat s1 b = RT_THREAD_RUNNING" "tprio s1 b = tprio s a"
    "queues s1 (QReady (tprio s a)) = a # rest" "\<forall>p < tprio s a. queues s1 (QReady p) = []"
    by (rule yield_swap [OF Suc.prems]) blast
  have "\<exists>s'. yields n s1 = Inr s' \<and> cur s' = Some (if even n then b else a)
    \<and> queues s' (QReady (tprio s1 b)) = (if even n then a else b) # rest"
    by (rule Suc.IH) (use s1 in simp_all)
  then show ?case using s1(1,6) by auto
qed simp

text \<open>The witness: thread 4 is ready beside thread 2 at the priority of the running thread 1;
  after a thousand yields it has not run.\<close>

definition demo3 :: kernel where
  "demo3 = demo_kernel\<lparr>threads := (threads demo_kernel)(4 := demo_thread RT_THREAD_READY 10),
     queues := (queues demo_kernel)(QReady 10 := [2, 4])\<rparr>"

lemma demo3_fields:
  "tstat demo3 t = (if t = 4 then RT_THREAD_READY else tstat demo_kernel t)"
  "tprio demo3 t = (if t = 4 then 10 else tprio demo_kernel t)"
  "queues demo3 q = (if q = QReady 10 then [2, 4] else queues demo_kernel q)"
  "cur demo3 = Some 1" "lock_nest demo3 = 0" "ready_group demo3 = ready_group demo_kernel"
  "number_mask (threads demo3 t) = (if t = 4 then push_bit 10 1 else number_mask (threads demo_kernel t))"
  by (simp_all add: demo3_def demo_cur) (simp_all add: demo_thread_def)

lemma demo3_kinv: "kinv demo3"
proof -
  have "queues_ok demo3" by (simp add: queues_ok_def demo3_fields demo_queues)
  moreover have "ready_ok demo3"
    by (auto simp: ready_ok_def demo3_fields demo_stat demo_prio demo_queues)
  moreover have "bitmap_ok demo3"
    using demo_sched_inv by (simp add: sched_inv_def bitmap_ok_def demo3_fields demo_queues)
  moreover have "wait_ok demo3" by (simp add: wait_ok_def demo3_fields demo_queues)
  moreover have "mask_ok demo3"
    using demo_sched_inv by (auto simp: sched_inv_def mask_ok_def started_def demo3_fields)
  moreover have "cur_ok demo3" by (auto simp: cur_ok_def demo3_fields demo_stat)
  ultimately have "sched_inv demo3" by (simp add: sched_inv_def)
  moreover have "timers_inv demo3 = timers_inv demo_kernel"
    by (rule timers_inv_cong) (simp_all add: demo3_def)
  moreover have "thread_typed demo3 t" for t
    using demo_typed thread_typed_cong [of demo3 demo_kernel t] by (simp add: demo3_def)
  moreover have "timer_list demo3 = []" using demo_timers by (simp add: demo3_def)
  ultimately show ?thesis
    using demo_kinv by (auto simp: kinv_def loose_kinv_def loose_inv_empty demo3_fields demo_stat)
qed

theorem rt_thread_yield_starves_witness:
  "\<exists>s'. yields 1000 demo3 = Inr s' \<and> cur s' = Some 1 \<and> queues s' (QReady 10) = [2, 4]"
  using rt_thread_yield_starves [of demo3 1 2 "[4]" 1000] demo3_kinv
  by (simp add: demo3_fields demo_stat demo_prio demo_queues)

end
