(* ===== verification/Ipc.thy ===== *)
theory Ipc
  imports Thread
begin

text \<open>
  The part every IPC object of \<^verbatim>\<open>rt-thread/src/ipc.c\<close> shares: queueing the calling
  thread on a suspend list (in arrival or in priority order), waking the first or all the threads of a
  list, and arming the caller's timer.  The lemmas give each step's effect on the kernel invariant and
  say what it leaves alone.
\<close>

section \<open>Suspend lists\<close>

definition ipc_object_init :: "oid \<Rightarrow> kernel \<Rightarrow> kernel" where
  "ipc_object_init i s = s\<lparr>queues := (queues s)(QSuspend i := [])\<rparr>"

definition ipc_list_suspend :: "qid \<Rightarrow> tid \<Rightarrow> u8 \<Rightarrow> kernel \<Rightarrow> kernel res" where
  "ipc_list_suspend q t flag s =
     bind_res (rt_thread_suspend t s) (\<lambda>(_, s).
       if flag = RT_IPC_FLAG_FIFO then Inr (upd_queue q (\<lambda>l. l @ [t]) s)
       else if flag = RT_IPC_FLAG_PRIO
         then Inr (upd_queue q (\<lambda>l. insert_when (\<lambda>u. tprio s t < tprio s u) t l) s)
       else Inl AssertFail)"

text \<open>The head of an empty list is not a thread.\<close>

definition ipc_list_resume :: "qid \<Rightarrow> kernel \<Rightarrow> kernel res" where
  "ipc_list_resume q s =
     (case queues s q of [] \<Rightarrow> Inl BadAccess
      | t # _ \<Rightarrow> bind_res (rt_thread_resume t s) (\<lambda>(_, s). Inr s))"

text \<open>The loop of \<^verbatim>\<open>_ipc_list_resume_all\<close>; it would run forever on a thread that
  does not leave the list, hence the fuel: one round per thread and one to see the list empty.\<close>

fun resume_all_loop :: "nat \<Rightarrow> qid \<Rightarrow> kernel \<Rightarrow> kernel res" where
  "resume_all_loop 0 q s = Inl OutOfFuel"
| "resume_all_loop (Suc fuel) q s =
     (case queues s q of [] \<Rightarrow> Inr s
      | t # _ \<Rightarrow>
        bind_res (rt_thread_resume t (upd_thread t (\<lambda>th. th\<lparr>error := - RT_ERROR\<rparr>) s)) (\<lambda>(_, s).
          resume_all_loop fuel q s))"

definition ipc_list_resume_all :: "qid \<Rightarrow> kernel \<Rightarrow> kernel res" where
  "ipc_list_resume_all q s = resume_all_loop (Suc (length (queues s q))) q s"

text \<open>\<^verbatim>\<open>if (timeout > 0) { rt_timer_control(SET_TIME); rt_timer_start }\<close>.\<close>

definition arm_timeout :: "tid \<Rightarrow> int \<Rightarrow> kernel \<Rightarrow> kernel res" where
  "arm_timeout t timeout s =
     (if timeout > 0 then
        bind_res (rt_timer_control (TThread t) (CTRL_SET_TIME (word_of_int timeout)) s) (\<lambda>(_, s).
        bind_res (rt_timer_start (TThread t) s) (\<lambda>(_, s). Inr s))
      else Inr s)"

section \<open>What scheduling steps leave alone\<close>

text \<open>Everything but the status bytes, the error codes, the lists and the timers.\<close>

definition thread_same :: "thread \<Rightarrow> thread \<Rightarrow> bool" where
  "thread_same a b \<longleftrightarrow> current_priority a = current_priority b \<and> init_priority a = init_priority b
     \<and> number_mask a = number_mask b \<and> taken_object_list a = taken_object_list b
     \<and> pending_object a = pending_object b \<and> event_set a = event_set b \<and> event_info a = event_info b
     \<and> init_tick a = init_tick b \<and> remaining_tick a = remaining_tick b"

lemma thread_same_upd [simp]:
  "thread_same a a" "thread_same (a\<lparr>stat := x\<rparr>) a" "thread_same (a\<lparr>error := e\<rparr>) a"
  by (simp_all add: thread_same_def)

definition ipc_same :: "kernel \<Rightarrow> kernel \<Rightarrow> bool" where
  "ipc_same s' s \<longleftrightarrow> sems s' = sems s \<and> mutexes s' = mutexes s \<and> events s' = events s
     \<and> mboxes s' = mboxes s \<and> mqs s' = mqs s \<and> containers s' = containers s
     \<and> lock_nest s' = lock_nest s \<and> irq_nest s' = irq_nest s \<and> tick s' = tick s
     \<and> (\<forall>i. obj_type (objs s' i) = obj_type (objs s i))
     \<and> (\<forall>i. (\<forall>m. i \<noteq> OTimer m) \<longrightarrow> objs s' i = objs s i)
     \<and> (\<forall>t. thread_same (threads s' t) (threads s t))"

lemma ipc_same_refl [simp]: "ipc_same s s"
  by (simp add: ipc_same_def)

lemma ipc_same_trans: "ipc_same s2 s1 \<Longrightarrow> ipc_same s1 s0 \<Longrightarrow> ipc_same s2 s0"
  by (simp add: ipc_same_def thread_same_def)

lemma ipc_same_get_type: "ipc_same s' s \<Longrightarrow> rt_object_get_type i s' = rt_object_get_type i s"
  by (simp add: ipc_same_def rt_object_get_type_def)

lemma same_remove: "rt_schedule_remove_thread t s = Inr s' \<Longrightarrow> ipc_same s' s"
  by (auto simp: rt_schedule_remove_thread_def Let_def list_remove_thread_def ipc_same_def split: if_splits)

lemma same_insert: "rt_schedule_insert_thread t s = Inr s' \<Longrightarrow> ipc_same s' s"
  by (auto simp: rt_schedule_insert_thread_def Let_def kdefs ipc_same_def split: if_splits)

lemma same_stat: "ipc_same (upd_thread t (\<lambda>th. th\<lparr>stat := f (stat th)\<rparr>) s) s"
    "ipc_same (upd_thread t (\<lambda>th. th\<lparr>error := e\<rparr>) s) s"
  by (simp_all add: upd_thread_def ipc_same_def)

lemma same_unlink: "ipc_same (list_remove_thread t s) s" "ipc_same (upd_queue q f s) s"
  by (simp_all add: list_remove_thread_def upd_queue_def ipc_same_def)

lemma same_timer_stop: "rt_timer_stop m s = Inr (r, s') \<Longrightarrow> ipc_same s' s"
  by (auto simp: rt_timer_stop_def assert_then_eq_Inr ipc_same_def deactivate_def set_timer_flag_def
      upd_obj_def timer_remove_def split: if_splits)

lemma same_timer_start: "rt_timer_start m s = Inr (r, s') \<Longrightarrow> ipc_same s' s"
  by (auto simp: rt_timer_start_def assert_then_eq_Inr ipc_same_def deactivate_def set_timer_flag_def
      upd_obj_def timer_remove_def upd_timer_def Let_def)

lemma same_timer_set: "rt_timer_control m (CTRL_SET_TIME n) s = Inr (r, s') \<Longrightarrow> ipc_same s' s"
  by (auto simp: rt_timer_control_def assert_then_eq_Inr ipc_same_def upd_timer_def)

lemma same_suspend: "rt_thread_suspend t s = Inr (r, s') \<Longrightarrow> ipc_same s' s"
  by (auto simp: rt_thread_suspend_def assert_then_eq_Inr bind_res_eq_Inr Let_def split: if_splits
      dest!: same_remove same_timer_stop intro: ipc_same_trans [OF _ ipc_same_trans [OF same_stat(1)]])

lemma same_resume: "rt_thread_resume t s = Inr (r, s') \<Longrightarrow> ipc_same s' s"
  by (auto simp: rt_thread_resume_def assert_then_eq_Inr bind_res_eq_Inr Let_def split: if_splits
      dest!: same_insert same_timer_stop intro: ipc_same_trans same_unlink)

lemma same_sched_frame: "sched_frame s s' \<Longrightarrow> ipc_same s' s"
proof -
  assume f: "sched_frame s s'"
  have "thread_same (threads s' t) (threads s t)" for t
  proof -
    have "threads s' t = (threads s t)\<lparr>stat := stat (threads s' t)\<rparr>"
      using f unfolding sched_frame_def by blast
    then show ?thesis by (metis thread_same_upd(2))
  qed
  then show ?thesis using sched_frame_fields [OF f] by (simp add: ipc_same_def)
qed

lemma same_list_suspend: "ipc_list_suspend q t flag s = Inr s' \<Longrightarrow> ipc_same s' s"
  by (auto simp: ipc_list_suspend_def bind_res_eq_Inr split: if_splits
      dest!: same_suspend intro: ipc_same_trans same_unlink)

lemma same_list_resume: "ipc_list_resume q s = Inr s' \<Longrightarrow> ipc_same s' s"
  by (auto simp: ipc_list_resume_def bind_res_eq_Inr split: list.splits dest!: same_resume)

lemma same_arm: "arm_timeout t n s = Inr s' \<Longrightarrow> ipc_same s' s"
  by (auto simp: arm_timeout_def bind_res_eq_Inr split: if_splits
      dest!: same_timer_set same_timer_start intro: ipc_same_trans)

lemma ipc_same_prio: "ipc_same s' s \<Longrightarrow> tprio s' t = tprio s t"
  by (simp add: ipc_same_def thread_same_def)

section \<open>Blocking and waking keep the invariant\<close>

definition waits_in :: "qid \<Rightarrow> bool" where
  "waits_in q \<longleftrightarrow> (\<exists>i. q = QSuspend i \<or> q = QSender i)"

lemma waits_in_simps [simp]: "waits_in (QSuspend i)" "waits_in (QSender i)" "\<not> waits_in (QReady p)"
  "\<not> waits_in QDefunct"
  by (auto simp: waits_in_def)

definition enqueue :: "u8 \<Rightarrow> kernel \<Rightarrow> tid \<Rightarrow> tid list \<Rightarrow> tid list" where
  "enqueue flag s t l = (if flag = RT_IPC_FLAG_FIFO then l @ [t]
     else insert_when (\<lambda>u. tprio s t < tprio s u) t l)"

lemma enqueue_set [simp]: "set (enqueue flag s t l) = insert t (set l)"
  "distinct (enqueue flag s t l) \<longleftrightarrow> t \<notin> set l \<and> distinct l"
  by (auto simp: enqueue_def)

lemma enqueue_cong:
  "(\<And>u. tprio s' u = tprio s u) \<Longrightarrow> enqueue flag s' t l = enqueue flag s t l"
  by (simp add: enqueue_def)

lemma loose_kinv_enqueue:
  assumes k: "loose_kinv {} s" and t: "tstat s t = RT_THREAD_SUSPEND" "\<And>q. t \<notin> set (queues s q)"
    and q: "waits_in q" and f: "set (f (queues s q)) = insert t (set (queues s q))" "distinct (f (queues s q))"
  shows "loose_kinv {} (upd_queue q f s)"
proof -
  let ?s = "upd_queue q f s"
  have qq: "queues ?s q' = (if q' = q then f (queues s q) else queues s q')" for q'
    by (simp add: upd_queue_def)
  have nr: "q \<noteq> QReady p" "QReady p \<noteq> q" "q \<noteq> QDefunct" "QDefunct \<noteq> q" for p using q by auto
  have th: "threads ?s = threads s" "cur ?s = cur s" "ready_group ?s = ready_group s"
    "timer_list ?s = timer_list s" by (simp_all add: upd_queue_def)
  have st: "started ?s u = started s u" for u by (simp add: started_def th)
  have set: "set (queues ?s q') = (if q' = q then insert t (set (queues s q)) else set (queues s q'))" for q'
    by (simp add: qq f)
  have li: "loose_inv {} s" using k by (simp add: loose_kinv_def)
  have "queues_ok ?s" using li t(2) f(2) unfolding queues_ok_def set
    by (auto simp: loose_inv_def queues_ok_def qq)
  moreover have "bitmap_ok ?s" using li nr by (simp add: loose_inv_def bitmap_ok_def qq th)
  moreover have "wait_ok ?s" using li t(1) nr unfolding wait_ok_def set
    by (auto simp: loose_inv_def wait_ok_def th)
  ultimately have "loose_inv {} ?s"
    using li nr unfolding loose_inv_def th set st by simp
  moreover have "timers_inv ?s = timers_inv s" by (rule timers_inv_cong) (simp_all add: upd_queue_def)
  moreover have "thread_typed ?s u = thread_typed s u" for u
    by (rule thread_typed_cong) (simp_all add: upd_queue_def)
  ultimately show ?thesis using k unfolding loose_kinv_def th st by simp
qed

lemma ipc_list_suspend_ok:
  assumes k: "loose_kinv {} s" and c: "cur s = Some c" "tstat s c = RT_THREAD_RUNNING"
    and q: "waits_in q" and flag: "flag = RT_IPC_FLAG_FIFO \<or> flag = RT_IPC_FLAG_PRIO"
  obtains s' where "ipc_list_suspend q c flag s = Inr s'" "loose_kinv {} s'"
    "tstat s' c = RT_THREAD_SUSPEND" "cur s' = Some c" "TThread c \<notin> set (timer_list s')"
    "queues s' = (queues s)(q := enqueue flag s c (queues s q))" "ipc_same s' s"
    "\<And>u. thread_typed s' u = thread_typed s u" "\<And>u. u \<noteq> c \<Longrightarrow> threads s' u = threads s u"
proof -
  obtain s1 where s1: "rt_thread_suspend c s = Inr (RT_EOK, s1)" "loose_kinv {} s1"
    "tstat s1 c = RT_THREAD_SUSPEND" "\<And>q. queues s1 q = queues s q" "\<And>q. c \<notin> set (queues s1 q)"
    "cur s1 = Some c" "TThread c \<notin> set (timer_list s1)"
    "\<And>u. thread_typed s1 u = thread_typed s u" "\<And>u. u \<noteq> c \<Longrightarrow> threads s1 u = threads s u"
    by (rule suspend_ok [OF k c]) blast
  have sm: "ipc_same s1 s" by (rule same_suspend [OF s1(1)])
  let ?s2 = "upd_queue q (enqueue flag s1 c) s1"
  have "enqueue flag s1 c = enqueue flag s c"
    by (rule ext) (simp add: enqueue_def ipc_same_prio [OF sm])
  then have qs: "queues ?s2 = (queues s)(q := enqueue flag s c (queues s q))"
    by (auto simp: upd_queue_def s1(4))
  have "distinct (queues s1 q)" using s1(2) by (simp add: loose_kinv_def loose_inv_def queues_ok_def)
  then have k2: "loose_kinv {} ?s2"
    using s1(5) by (intro loose_kinv_enqueue [OF s1(2,3,5) q]) simp_all
  have eq: "ipc_list_suspend q c flag s = Inr ?s2"
    using flag s1(1) by (auto simp: ipc_list_suspend_def upd_queue_def enqueue_def)
  show thesis
  proof (rule that [OF eq k2])
    show "ipc_same ?s2 s" using same_list_suspend [OF eq] .
    show "thread_typed ?s2 u = thread_typed s u" for u
      using s1(8) [of u] thread_typed_cong [of ?s2 s1 u] by (simp add: upd_queue_def)
  qed (use qs s1 in \<open>simp_all add: upd_queue_def\<close>)
qed

lemma arm_timeout_ok:
  assumes k: "loose_kinv {} s" and t: "tstat s t = RT_THREAD_SUSPEND" and n: "timeout < 0x7fffffff"
  obtains s' where "arm_timeout t timeout s = Inr s'" "loose_kinv {} s'" "threads s' = threads s"
    "queues s' = queues s" "cur s' = cur s" "ready_group s' = ready_group s"
    "set (timer_list s') = (if timeout > 0 then insert (TThread t) (set (timer_list s)) else set (timer_list s))"
    "timeout > 0 \<Longrightarrow> due s' (TThread t) = word_of_int timeout"
    "\<And>m. m \<noteq> TThread t \<Longrightarrow> due s' m = due s m"
proof (cases "timeout > 0")
  case False
  then show thesis using k by (intro that [of s]) (simp_all add: arm_timeout_def)
next
  case True
  let ?n = "word_of_int timeout :: u32"
  have "unat ?n = nat timeout" using True n by (simp add: unat_eq_nat_uint uint_word_of_int)
  then have half: "?n < RT_TICK_HALF" using True n by (simp add: word_less_nat_alt nat_less_iff)
  have ty: "thread_typed s t" using k t by (simp add: loose_kinv_def started_def)
  let ?s1 = "upd_timer (TThread t) (\<lambda>x. x\<lparr>timer_init_tick := ?n\<rparr>) s"
  have k1: "loose_kinv {} ?s1" by (rule K_timer_set [OF k ty])
  have ty1: "thread_typed ?s1 t"
    using ty by (simp add: thread_typed_def upd_timer_def timer_periodic_def rt_object_get_type_def)
  let ?s2 = "started_timer (TThread t) ?s1"
  have k2: "loose_kinv {} ?s2"
    by (rule K_timer_start [OF k1 ty1]) (use t half in \<open>simp_all add: upd_timer_def\<close>)
  have "distinct (timer_list s)" using k by (simp add: loose_kinv_def timers_inv_def timer_ok_def)
  then have l: "set (timer_list ?s2) = insert (TThread t) (set (timer_list s))"
    by (auto simp: started_timer_fields upd_timer_def)
  have g: "rt_object_get_type (OTimer (TThread t)) s = RT_Object_Class_Timer"
    "rt_object_get_type (OTimer (TThread t)) ?s1 = RT_Object_Class_Timer"
    using ty ty1 by (simp_all add: thread_typed_def)
  have eq: "arm_timeout t timeout s = Inr ?s2"
    using True half g by (simp add: arm_timeout_def rt_timer_control_def rt_timer_start_eq)
  have d: "due ?s2 m = (if m = TThread t then ?n else due s m)" for m
    by (simp add: started_timer_fields) (simp add: due_def upd_timer_def)
  show thesis
  proof (rule that [OF eq k2])
    show "due ?s2 (TThread t) = word_of_int timeout" by (simp add: d)
    show "due ?s2 m = due s m" if "m \<noteq> TThread t" for m using that by (simp add: d)
    show "set (timer_list ?s2) = (if timeout > 0 then insert (TThread t) (set (timer_list s)) else set (timer_list s))"
      using True l by simp
  qed (simp_all add: started_timer_fields upd_timer_def)
qed

text \<open>The second half of a blocking step: the caller is queued; arm its timer and switch away.\<close>

lemma arm_switch_ok:
  assumes k: "loose_kinv {} s" and c: "cur s = Some c" "tstat s c = RT_THREAD_SUSPEND" and n: "timeout < 0x7fffffff"
  obtains s2 s3 where "arm_timeout c timeout s = Inr s2" "rt_schedule s2 = Inr s3" "kinv s3"
    "ipc_same s2 s" "ipc_same s3 s" "cur s3 \<noteq> None" "tstat s3 c = RT_THREAD_SUSPEND"
    "lock_nest s = 0 \<Longrightarrow> ready_group s \<noteq> 0 \<Longrightarrow> runs_highest s3"
    "\<And>q. \<forall>p. q \<noteq> QReady p \<Longrightarrow> queues s3 q = queues s q"
proof -
  obtain s2 where s2: "arm_timeout c timeout s = Inr s2" "loose_kinv {} s2" "threads s2 = threads s"
    "queues s2 = queues s" "cur s2 = cur s" "ready_group s2 = ready_group s"
    by (rule arm_timeout_ok [OF k c(2) n]) blast
  have c2: "cur s2 = Some c" "tstat s2 c \<noteq> RT_THREAD_READY" using c s2 by simp_all
  have sm: "ipc_same s2 s" by (rule same_arm [OF s2(1)])
  obtain s3 where s3: "rt_schedule s2 = Inr s3" "kinv s3" "sched_frame s2 s3" "cur s3 \<noteq> None"
    "lock_nest s2 = 0 \<Longrightarrow> tstat s2 c = RT_THREAD_RUNNING \<or> ready_group s2 \<noteq> 0 \<Longrightarrow> runs_highest s3"
    by (rule schedule_ok [OF s2(2) c2]) blast
  show thesis
  proof (rule that [OF s2(1) s3(1,2) sm])
    show "ipc_same s3 s" by (rule ipc_same_trans [OF same_sched_frame [OF s3(3)] sm])
    show "tstat s3 c = RT_THREAD_SUSPEND"
      using sched_frame_stat [OF s3(3), of 2 c] c(2) s2(3) by simp
    show "runs_highest s3" if "lock_nest s = 0" "ready_group s \<noteq> 0"
      using s3(5) s2(6) that sm by (simp add: ipc_same_def)
    show "queues s3 q = queues s q" if "\<forall>p. q \<noteq> QReady p" for q
      using s3(3) that s2(4) unfolding sched_frame_def by metis
  qed (use s3 in auto)
qed

text \<open>The bitmap follows the ready queues.\<close>

lemma ready_group_same:
  assumes "loose_kinv {} s" "loose_kinv {} s'" "\<And>p. queues s' (QReady p) = queues s (QReady p)" "ready_group s \<noteq> 0"
  shows "ready_group s' \<noteq> 0"
proof -
  have b: "bitmap_ok s" "bitmap_ok s'" using assms(1,2) by (simp_all only: loose_kinv_def loose_inv_def)
  obtain p where p: "p < 32" "bit (ready_group s) p" using assms(4) unfolding word_nonzero_bit by blast
  then have "bit (ready_group s') p" using b assms(3) by (simp add: bitmap_ok_def)
  then show ?thesis using p(1) unfolding word_nonzero_bit by blast
qed

text \<open>The whole of a blocking step: queue the caller, arm its timer, switch away.\<close>

lemma block_ok:
  assumes k: "loose_kinv {} s" and c: "cur s = Some c" "tstat s c = RT_THREAD_RUNNING"
    and q: "waits_in q" and flag: "flag = RT_IPC_FLAG_FIFO \<or> flag = RT_IPC_FLAG_PRIO"
    and n: "timeout < 0x7fffffff"
  obtains s1 s2 s3 where "ipc_list_suspend q c flag s = Inr s1" "arm_timeout c timeout s1 = Inr s2"
    "rt_schedule s2 = Inr s3" "kinv s3" "ipc_same s1 s" "ipc_same s2 s" "ipc_same s3 s" "cur s3 \<noteq> None"
    "tstat s3 c = RT_THREAD_SUSPEND" "lock_nest s = 0 \<Longrightarrow> ready_group s \<noteq> 0 \<Longrightarrow> runs_highest s3"
    "queues s3 q = enqueue flag s c (queues s q)"
    "\<And>q'. q' \<noteq> q \<Longrightarrow> \<forall>p. q' \<noteq> QReady p \<Longrightarrow> queues s3 q' = queues s q'"
proof -
  obtain s1 where s1: "ipc_list_suspend q c flag s = Inr s1" "loose_kinv {} s1"
    "tstat s1 c = RT_THREAD_SUSPEND" "cur s1 = Some c" "TThread c \<notin> set (timer_list s1)"
    "queues s1 = (queues s)(q := enqueue flag s c (queues s q))" "ipc_same s1 s"
    by (rule ipc_list_suspend_ok [OF k c q flag]) blast
  obtain s2 s3 where s3: "arm_timeout c timeout s1 = Inr s2" "rt_schedule s2 = Inr s3" "kinv s3"
    "ipc_same s2 s1" "ipc_same s3 s1" "cur s3 \<noteq> None" "tstat s3 c = RT_THREAD_SUSPEND"
    "lock_nest s1 = 0 \<Longrightarrow> ready_group s1 \<noteq> 0 \<Longrightarrow> runs_highest s3"
    "\<And>q. \<forall>p. q \<noteq> QReady p \<Longrightarrow> queues s3 q = queues s1 q"
    by (rule arm_switch_ok [OF s1(2,4,3) n]) blast
  have nr: "q \<noteq> QReady p" for p using q by auto
  have rg: "ready_group s1 \<noteq> 0" if "ready_group s \<noteq> 0"
    by (rule ready_group_same [OF k s1(2) _ that]) (use nr s1(6) in \<open>metis fun_upd_other\<close>)
  show thesis
  proof (rule that [OF s1(1) s3(1-3) s1(7) ipc_same_trans [OF s3(4) s1(7)] ipc_same_trans [OF s3(5) s1(7)] s3(6,7)])
    show "runs_highest s3" if "lock_nest s = 0" "ready_group s \<noteq> 0"
      using s3(8) rg that s1(7) by (simp add: ipc_same_def)
    show "queues s3 q = enqueue flag s c (queues s q)" using s3(9) [of q] nr s1(6) by simp
    show "queues s3 q' = queues s q'" if "q' \<noteq> q" "\<forall>p. q' \<noteq> QReady p" for q'
      using s3(9) [OF that(2)] that(1) s1(6) by simp
  qed
qed

text \<open>Waking the head of a suspend list.\<close>

lemma waiter_suspended:
  assumes "loose_kinv {} s" "waits_in q" "t \<in> set (queues s q)"
  shows "tstat s t = RT_THREAD_SUSPEND"
proof -
  have "wait_ok s" using assms(1) by (simp only: loose_kinv_def loose_inv_def)
  then show ?thesis using assms(2,3) unfolding wait_ok_def waits_in_def by blast
qed

lemma only_in:
  assumes "loose_kinv {} s" "t \<in> set (queues s q)" "q' \<noteq> q"
  shows "t \<notin> set (queues s q')"
proof -
  have "queues_ok s" using assms(1) by (simp only: loose_kinv_def loose_inv_def)
  then show ?thesis using assms(2,3) unfolding queues_ok_def by blast
qed

lemma ipc_list_resume_ok:
  assumes k: "loose_kinv {} s" and q: "waits_in q" "queues s q = t # rest"
  obtains s' where "ipc_list_resume q s = Inr s'" "loose_kinv {} s'"
    "tstat s' t = (if cur s = Some t then RT_THREAD_RUNNING else RT_THREAD_READY)"
    "cur s' = cur s" "TThread t \<notin> set (timer_list s')" "queues s' q = rest"
    "\<And>q'. q' \<noteq> q \<Longrightarrow> \<forall>p. q' \<noteq> QReady p \<Longrightarrow> queues s' q' = queues s q'"
    "ipc_same s' s" "\<And>u. u \<noteq> t \<Longrightarrow> threads s' u = threads s u"
proof -
  have st: "tstat s t = RT_THREAD_SUSPEND" using waiter_suspended [OF k q(1), of t] q(2) by simp
  obtain s' where s': "rt_thread_resume t s = Inr (RT_EOK, s')" "loose_kinv {} s'"
    "tstat s' t = (if cur s = Some t then RT_THREAD_RUNNING else RT_THREAD_READY)"
    "\<And>q. (\<forall>p. q \<noteq> QReady p) \<Longrightarrow> queues s' q = remove1 t (queues s q)"
    "cur s' = cur s" "TThread t \<notin> set (timer_list s')"
    "\<And>u. u \<noteq> t \<Longrightarrow> threads s' u = threads s u"
    by (rule resume_ok [OF k st]) blast
  have eq: "ipc_list_resume q s = Inr s'" using q s'(1) by (simp add: ipc_list_resume_def)
  have nr: "\<forall>p. q \<noteq> QReady p" using q(1) by auto
  show thesis
  proof (rule that [OF eq s'(2,3,5,6)])
    show "queues s' q = rest" using s'(4) [OF nr] q(2) by simp
    show "queues s' q' = queues s q'" if "q' \<noteq> q" "\<forall>p. q' \<noteq> QReady p" for q'
      using s'(4) [OF that(2)] only_in [OF k, of t q q'] that(1) q(2) by simp
    show "ipc_same s' s" by (rule same_list_resume [OF eq])
    show "threads s' u = threads s u" if "u \<noteq> t" for u using s'(7) that by simp
  qed
qed

text \<open>Waking every waiter with an error.\<close>

definition woken_error :: "kernel \<Rightarrow> tid \<Rightarrow> bool" where
  "woken_error s t \<longleftrightarrow> error (threads s t) = - RT_ERROR
     \<and> tstat s t \<in> {RT_THREAD_READY, RT_THREAD_RUNNING}"

lemma resume_all_loop_ok:
  assumes "loose_kinv {} s" "waits_in q" "length (queues s q) < fuel"
  shows "\<exists>s'. resume_all_loop fuel q s = Inr s' \<and> loose_kinv {} s' \<and> queues s' q = []
    \<and> cur s' = cur s \<and> ipc_same s' s
    \<and> (\<forall>q'. q' \<noteq> q \<longrightarrow> (\<forall>p. q' \<noteq> QReady p) \<longrightarrow> queues s' q' = queues s q')
    \<and> (\<forall>t \<in> set (queues s q). woken_error s' t)
    \<and> (\<forall>t. t \<notin> set (queues s q) \<longrightarrow> threads s' t = threads s t)
    \<and> (\<forall>c. cur s = Some c \<longrightarrow> tstat s c \<noteq> RT_THREAD_READY \<longrightarrow> tstat s' c \<noteq> RT_THREAD_READY)"
  using assms
proof (induction fuel arbitrary: s)
  case (Suc fuel)
  show ?case
  proof (cases "queues s q")
    case Nil
    then show ?thesis using Suc.prems by simp
  next
    case (Cons t rest)
    let ?s1 = "upd_thread t (\<lambda>th. th\<lparr>error := - RT_ERROR\<rparr>) s"
    have k1: "loose_kinv {} ?s1" using Suc.prems(1) by (rule K_upd_other) simp_all
    have q1: "queues ?s1 q = t # rest" "queues ?s1 = queues s" "cur ?s1 = cur s"
      using Cons by (simp_all add: upd_thread_def)
    obtain s2 where s2: "ipc_list_resume q ?s1 = Inr s2" "loose_kinv {} s2"
      "tstat s2 t = (if cur ?s1 = Some t then RT_THREAD_RUNNING else RT_THREAD_READY)"
      "cur s2 = cur ?s1" "queues s2 q = rest"
      "\<And>q'. q' \<noteq> q \<Longrightarrow> \<forall>p. q' \<noteq> QReady p \<Longrightarrow> queues s2 q' = queues ?s1 q'"
      "ipc_same s2 ?s1" "\<And>u. u \<noteq> t \<Longrightarrow> threads s2 u = threads ?s1 u"
      by (rule ipc_list_resume_ok [OF k1 Suc.prems(2) q1(1)]) blast
    have st: "tstat ?s1 t = RT_THREAD_SUSPEND"
      by (rule waiter_suspended [OF k1 Suc.prems(2)]) (simp only: q1(1) list.set_intros)
    obtain r where r: "rt_thread_resume t ?s1 = Inr (r, s2)"
      using s2(1) unfolding ipc_list_resume_def q1(1) by (auto simp: bind_res_eq_Inr)
    have e2: "error (threads s2 t) = - RT_ERROR"
    proof -
      obtain s2' where "rt_thread_resume t ?s1 = Inr (RT_EOK, s2')"
        "threads s2' t = (threads ?s1 t)\<lparr>stat := stat (threads s2' t)\<rparr>"
        by (rule resume_ok [OF k1 st]) blast
      then have "threads s2 t = (threads ?s1 t)\<lparr>stat := stat (threads s2 t)\<rparr>" using r by simp
      then have "error (threads s2 t) = error (threads ?s1 t)" by (metis thread.ext_inject thread.surjective thread.update_convs(1))
      then show ?thesis by (simp add: upd_thread_def)
    qed
    have "distinct (t # rest)" using k1 q1(1) by (metis loose_inv_def loose_kinv_def queues_ok_def)
    then have tn: "t \<notin> set rest" by simp
    obtain s' where s': "resume_all_loop fuel q s2 = Inr s'" "loose_kinv {} s'" "queues s' q = []"
      "cur s' = cur s2" "ipc_same s' s2"
      "\<forall>q'. q' \<noteq> q \<longrightarrow> (\<forall>p. q' \<noteq> QReady p) \<longrightarrow> queues s' q' = queues s2 q'"
      "\<forall>t \<in> set rest. woken_error s' t" "\<forall>t. t \<notin> set rest \<longrightarrow> threads s' t = threads s2 t"
      "\<forall>c. cur s2 = Some c \<longrightarrow> tstat s2 c \<noteq> RT_THREAD_READY \<longrightarrow> tstat s' c \<noteq> RT_THREAD_READY"
      using Suc.IH [OF s2(2) Suc.prems(2)] Suc.prems(3) Cons s2(5) by auto
    have th: "threads s' u = threads s u" if "u \<noteq> t" "u \<notin> set rest" for u
      using s'(8) s2(8) [OF that(1)] that by (simp add: upd_thread_def)
    show ?thesis
    proof (intro exI [of _ s'] conjI)
      show "resume_all_loop (Suc fuel) q s = Inr s'" using Cons r s'(1) by simp
      show "ipc_same s' s" using s'(5) s2(7) same_stat(2) by (blast intro: ipc_same_trans)
      show "\<forall>q'. q' \<noteq> q \<longrightarrow> (\<forall>p. q' \<noteq> QReady p) \<longrightarrow> queues s' q' = queues s q'"
        using s'(6) s2(6) by (simp add: q1)
      have "woken_error s' t"
        using s'(8) tn e2 s2(3) by (auto simp: woken_error_def)
      then show "\<forall>u \<in> set (queues s q). woken_error s' u" using s'(7) Cons by simp
      show "\<forall>u. u \<notin> set (queues s q) \<longrightarrow> threads s' u = threads s u" using th Cons by simp
      show "\<forall>c. cur s = Some c \<longrightarrow> tstat s c \<noteq> RT_THREAD_READY \<longrightarrow> tstat s' c \<noteq> RT_THREAD_READY"
      proof (intro allI impI)
        fix c assume c: "cur s = Some c" "tstat s c \<noteq> RT_THREAD_READY"
        have "tstat s2 c \<noteq> RT_THREAD_READY"
          using c s2(3,4) s2(8) [of c] by (cases "c = t") (auto simp: upd_thread_def)
        then show "tstat s' c \<noteq> RT_THREAD_READY" using s'(9) s2(4) c(1) q1(3) by simp
      qed
    qed (use s' s2 q1 in simp_all)
  qed
qed simp

lemma ipc_list_resume_all_ok:
  assumes "loose_kinv {} s" "waits_in q"
  obtains s' where "ipc_list_resume_all q s = Inr s'" "loose_kinv {} s'" "queues s' q = []"
    "cur s' = cur s" "ipc_same s' s"
    "\<And>q'. q' \<noteq> q \<Longrightarrow> \<forall>p. q' \<noteq> QReady p \<Longrightarrow> queues s' q' = queues s q'"
    "\<forall>t \<in> set (queues s q). woken_error s' t"
    "\<And>t. t \<notin> set (queues s q) \<Longrightarrow> threads s' t = threads s t"
    "\<And>c. cur s = Some c \<Longrightarrow> tstat s c \<noteq> RT_THREAD_READY \<Longrightarrow> tstat s' c \<noteq> RT_THREAD_READY"
  using resume_all_loop_ok [OF assms, of "Suc (length (queues s q))"]
  unfolding ipc_list_resume_all_def by auto

end
