(* ===== verification/Sem.thy ===== *)
theory Sem
  imports Ipc
begin

text \<open>
  Counting semaphores, the first part of \<^verbatim>\<open>rt-thread/src/ipc.c\<close>.  The wait queue of
  semaphore \<open>n\<close> is \<open>QSuspend (OSem n)\<close>.
\<close>

section \<open>Operations\<close>

definition sem_setup :: "nat \<Rightarrow> u32 \<Rightarrow> u8 \<Rightarrow> kernel \<Rightarrow> kernel" where
  "sem_setup n value flag s =
     (let s = ipc_object_init (OSem n) s;
          s = s\<lparr>sems := (sems s)(n := ucast value)\<rparr>
      in upd_obj (OSem n) (\<lambda>x. x\<lparr>obj_flag := flag\<rparr>) s)"

definition rt_sem_init :: "nat \<Rightarrow> u8 list \<Rightarrow> u32 \<Rightarrow> u8 \<Rightarrow> kernel \<Rightarrow> (int \<times> kernel) res" where
  "rt_sem_init n name value flag s =
     assert_then (value < 0x10000) (
     assert_then (flag = RT_IPC_FLAG_FIFO \<or> flag = RT_IPC_FLAG_PRIO) (
     bind_res (rt_object_init (OSem n) RT_Object_Class_Semaphore name s) (\<lambda>s.
       Inr (RT_EOK, sem_setup n value flag s))))"

definition rt_sem_detach :: "nat \<Rightarrow> kernel \<Rightarrow> (int \<times> kernel) res" where
  "rt_sem_detach n s =
     assert_then (rt_object_get_type (OSem n) s = RT_Object_Class_Semaphore) (
     assert_then (rt_object_is_systemobject (OSem n) s) (
     bind_res (ipc_list_resume_all (QSuspend (OSem n)) s) (\<lambda>s.
       Inr (RT_EOK, rt_object_detach (OSem n) s))))"

definition rt_sem_create :: "nat option \<Rightarrow> u8 list \<Rightarrow> u32 \<Rightarrow> u8 \<Rightarrow> kernel \<Rightarrow> (nat option \<times> kernel) res" where
  "rt_sem_create block name value flag s =
     assert_then (value < 0x10000) (
     assert_then (flag = RT_IPC_FLAG_FIFO \<or> flag = RT_IPC_FLAG_PRIO) (
     assert_then (RT_DEBUG_NOT_IN_INTERRUPT s) (
     bind_res (rt_object_allocate (map_option OSem block) RT_Object_Class_Semaphore name s) (\<lambda>(_, s).
       case block of None \<Rightarrow> Inr (None, s)
       | Some n \<Rightarrow> Inr (Some n, sem_setup n value flag s)))))"

definition rt_sem_delete :: "nat \<Rightarrow> kernel \<Rightarrow> (int \<times> kernel) res" where
  "rt_sem_delete n s =
     assert_then (rt_object_get_type (OSem n) s = RT_Object_Class_Semaphore) (
     assert_then (\<not> rt_object_is_systemobject (OSem n) s) (
     assert_then (RT_DEBUG_NOT_IN_INTERRUPT s) (
     bind_res (ipc_list_resume_all (QSuspend (OSem n)) s) (\<lambda>s.
     bind_res (rt_object_delete (OSem n) s) (\<lambda>s. Inr (RT_EOK, s))))))"

definition rt_sem_take :: "nat \<Rightarrow> int \<Rightarrow> kernel \<Rightarrow> (int outcome \<times> kernel) res" where
  "rt_sem_take n timeout s =
     assert_then (rt_object_get_type (OSem n) s = RT_Object_Class_Semaphore) (
     if sems s n > 0 then Inr (Return RT_EOK, s\<lparr>sems := (sems s)(n := sems s n - 1)\<rparr>)
     else if timeout = 0 then Inr (Return (- RT_ETIMEOUT), s)
     else
       assert_then (RT_DEBUG_SCHEDULER_AVAILABLE True s) (
       case rt_thread_self s of None \<Rightarrow> Inl NullDeref
       | Some thread \<Rightarrow>
         let s = upd_thread thread (\<lambda>th. th\<lparr>error := RT_EOK\<rparr>) s
         in bind_res (ipc_list_suspend (QSuspend (OSem n)) thread (obj_flag (objs s (OSem n))) s) (\<lambda>s.
            bind_res (arm_timeout thread timeout s) (\<lambda>s.
            bind_res (rt_schedule s) (\<lambda>s. Inr (Blocked, s))))))"

text \<open>What the taker returns when it runs again.\<close>

definition rt_sem_take_resume :: "tid \<Rightarrow> kernel \<Rightarrow> int" where
  "rt_sem_take_resume thread s =
     (if error (threads s thread) \<noteq> RT_EOK then error (threads s thread) else RT_EOK)"

definition rt_sem_trytake :: "nat \<Rightarrow> kernel \<Rightarrow> (int outcome \<times> kernel) res" where
  "rt_sem_trytake n s = rt_sem_take n 0 s"

definition rt_sem_release :: "nat \<Rightarrow> kernel \<Rightarrow> (int \<times> kernel) res" where
  "rt_sem_release n s =
     assert_then (rt_object_get_type (OSem n) s = RT_Object_Class_Semaphore) (
     if queues s (QSuspend (OSem n)) \<noteq> [] then
       bind_res (ipc_list_resume (QSuspend (OSem n)) s) (\<lambda>s.
       bind_res (rt_schedule s) (\<lambda>s. Inr (RT_EOK, s)))
     else if sems s n < 0xffff then Inr (RT_EOK, s\<lparr>sems := (sems s)(n := sems s n + 1)\<rparr>)
     else Inr (- RT_EFULL, s))"

text \<open>\<^verbatim>\<open>RT_IPC_CMD_RESET\<close>; any other command returns
  \<^verbatim>\<open>-RT_ERROR\<close>.\<close>

definition rt_sem_control :: "nat \<Rightarrow> int \<Rightarrow> u32 \<Rightarrow> kernel \<Rightarrow> (int \<times> kernel) res" where
  "rt_sem_control n cmd value s =
     assert_then (rt_object_get_type (OSem n) s = RT_Object_Class_Semaphore) (
     if cmd = 1 then
       bind_res (ipc_list_resume_all (QSuspend (OSem n)) s) (\<lambda>s.
       let s = s\<lparr>sems := (sems s)(n := ucast value)\<rparr>
       in bind_res (rt_schedule s) (\<lambda>s. Inr (RT_EOK, s)))
     else Inr (- RT_ERROR, s))"

section \<open>Running in thread context\<close>

text \<open>A thread executes kernel calls: it is current and RUNNING, outside interrupts, with the
  scheduler unlocked.\<close>

definition running :: "kernel \<Rightarrow> tid \<Rightarrow> bool" where
  "running s c \<longleftrightarrow> kinv s \<and> cur s = Some c \<and> tstat s c = RT_THREAD_RUNNING
     \<and> lock_nest s = 0 \<and> irq_nest s = 0"

lemma runningD:
  assumes "running s c"
  shows "loose_kinv {} s" "cur s = Some c" "tstat s c = RT_THREAD_RUNNING" "lock_nest s = 0"
    "irq_nest s = 0" "RT_DEBUG_SCHEDULER_AVAILABLE True s" "rt_thread_self s = Some c"
  using assms by (auto simp: running_def kinv_def RT_DEBUG_SCHEDULER_AVAILABLE_def
      RT_DEBUG_IN_THREAD_CONTEXT_def RT_DEBUG_NOT_IN_INTERRUPT_def rt_thread_self_def)

lemma demo_running: "running demo_kernel 1"
  using demo_kinv by (simp add: running_def demo_cur demo_stat)

text \<open>Fields outside the scheduler's view can change.\<close>

lemma kinv_other_fields:
  "loose_kinv X (s\<lparr>sems := a\<rparr>) = loose_kinv X s"
  "loose_kinv X (s\<lparr>events := c\<rparr>) = loose_kinv X s"
  "loose_kinv X (s\<lparr>mutexes := b\<rparr>) = loose_kinv X s"
  "loose_kinv X (s\<lparr>mboxes := d\<rparr>) = loose_kinv X s"
  "loose_kinv X (s\<lparr>mqs := e\<rparr>) = loose_kinv X s"
  "loose_kinv X (s\<lparr>rt_errno := f\<rparr>) = loose_kinv X s"
  by (rule kinv_fields_cong, simp_all, rule timers_inv_cong, simp_all)+

section \<open>Correctness\<close>

text \<open>A semaphore with units left has no waiters.\<close>

definition sem_inv :: "kernel \<Rightarrow> bool" where
  "sem_inv s \<longleftrightarrow> (\<forall>n. sems s n \<noteq> 0 \<longrightarrow> queues s (QSuspend (OSem n)) = [])"

definition sem_valid :: "nat \<Rightarrow> kernel \<Rightarrow> bool" where
  "sem_valid n s \<longleftrightarrow> rt_object_get_type (OSem n) s = RT_Object_Class_Semaphore
     \<and> obj_flag (objs s (OSem n)) \<in> {RT_IPC_FLAG_FIFO, RT_IPC_FLAG_PRIO}"

lemma sem_take_block:
  assumes r: "running s c" and v: "sem_valid n s" and z: "sems s n = 0" and t: "timeout \<noteq> 0"
    "timeout < 0x7fffffff"
  obtains s' where "rt_sem_take n timeout s = Inr (Blocked, s')" "kinv s'"
    "tstat s' c = RT_THREAD_SUSPEND" "ready_group s \<noteq> 0 \<Longrightarrow> runs_highest s'" "sems s' = sems s"
    "queues s' (QSuspend (OSem n)) =
       enqueue (obj_flag (objs s (OSem n))) s c (queues s (QSuspend (OSem n)))"
    "\<And>q. q \<noteq> QSuspend (OSem n) \<Longrightarrow> \<forall>p. q \<noteq> QReady p \<Longrightarrow> queues s' q = queues s q"
proof -
  note d = runningD [OF r]
  let ?s0 = "upd_thread c (\<lambda>th. th\<lparr>error := RT_EOK\<rparr>) s"
  have k0: "loose_kinv {} ?s0" using d(1) by (rule K_upd_other) simp_all
  have c0: "cur ?s0 = Some c" "tstat ?s0 c = RT_THREAD_RUNNING" "lock_nest ?s0 = 0"
    "ready_group ?s0 = ready_group s" "queues ?s0 = queues s" "objs ?s0 = objs s" "sems ?s0 = sems s"
    using d by (simp_all add: upd_thread_def)
  have fl: "obj_flag (objs s (OSem n)) = RT_IPC_FLAG_FIFO \<or> obj_flag (objs s (OSem n)) = RT_IPC_FLAG_PRIO"
    using v by (simp add: sem_valid_def)
  have q: "waits_in (QSuspend (OSem n))" by simp
  obtain s1 s2 s3 where b: "ipc_list_suspend (QSuspend (OSem n)) c (obj_flag (objs s (OSem n))) ?s0 = Inr s1"
    "arm_timeout c timeout s1 = Inr s2" "rt_schedule s2 = Inr s3" "kinv s3" "ipc_same s3 ?s0"
    "tstat s3 c = RT_THREAD_SUSPEND" "lock_nest ?s0 = 0 \<Longrightarrow> ready_group ?s0 \<noteq> 0 \<Longrightarrow> runs_highest s3"
    "queues s3 (QSuspend (OSem n)) = enqueue (obj_flag (objs s (OSem n))) ?s0 c (queues ?s0 (QSuspend (OSem n)))"
    "\<And>q'. q' \<noteq> QSuspend (OSem n) \<Longrightarrow> \<forall>p. q' \<noteq> QReady p \<Longrightarrow> queues s3 q' = queues ?s0 q'"
    by (rule block_ok [OF k0 c0(1,2) q fl t(2)]) blast
  have en: "enqueue f ?s0 c l = enqueue f s c l" for f l
    by (rule enqueue_cong) (simp add: upd_thread_def)
  have "rt_sem_take n timeout s = Inr (Blocked, s3)"
    using v z t d(6,7) b(1-3) by (simp add: rt_sem_take_def sem_valid_def Let_def c0)
  then show thesis
    by (rule that) (use b c0 en in \<open>simp_all add: ipc_same_def\<close>)
qed

text \<open>C5: taking a semaphore.  In thread context, with the kernel invariant, on a valid
  semaphore and a timeout below the timer horizon, \<^verbatim>\<open>rt_sem_take\<close> never faults, keeps
  the kernel invariant and the rule that units left means no waiters, and: with a unit available it takes
  exactly one and returns; with none and no timeout it returns
  \<^verbatim>\<open>-RT_ETIMEOUT\<close> and changes nothing; otherwise the caller is suspended in the wait
  queue, behind the waiters that come before it in the queue's order.\<close>

theorem rt_sem_take_correct:
  assumes "running s c" "sem_valid n s" "sem_inv s" "timeout < 0x7fffffff"
  shows "\<exists>r s'. rt_sem_take n timeout s = Inr (r, s') \<and> kinv s' \<and> sem_inv s' \<and>
    (if sems s n \<noteq> 0 then r = Return RT_EOK \<and> s' = s\<lparr>sems := (sems s)(n := sems s n - 1)\<rparr>
     else if timeout = 0 then r = Return (- RT_ETIMEOUT) \<and> s' = s
     else r = Blocked \<and> sems s' = sems s \<and> tstat s' c = RT_THREAD_SUSPEND
       \<and> (ready_group s \<noteq> 0 \<longrightarrow> runs_highest s')
       \<and> queues s' (QSuspend (OSem n)) =
           enqueue (obj_flag (objs s (OSem n))) s c (queues s (QSuspend (OSem n))))"
proof (cases "sems s n = 0 \<and> timeout \<noteq> 0")
  case True
  obtain s' where s': "rt_sem_take n timeout s = Inr (Blocked, s')" "kinv s'"
    "tstat s' c = RT_THREAD_SUSPEND" "ready_group s \<noteq> 0 \<Longrightarrow> runs_highest s'" "sems s' = sems s"
    "queues s' (QSuspend (OSem n)) =
       enqueue (obj_flag (objs s (OSem n))) s c (queues s (QSuspend (OSem n)))"
    "\<And>q. q \<noteq> QSuspend (OSem n) \<Longrightarrow> \<forall>p. q \<noteq> QReady p \<Longrightarrow> queues s' q = queues s q"
    by (rule sem_take_block [OF assms(1,2) _ _ assms(4)]) (use True in auto)
  have "sem_inv s'" unfolding sem_inv_def
  proof (intro allI impI)
    fix m assume m: "sems s' m \<noteq> 0"
    then have "m \<noteq> n" using True s'(5) by auto
    then have "queues s' (QSuspend (OSem m)) = queues s (QSuspend (OSem m))"
      using s'(7) [of "QSuspend (OSem m)"] by simp
    then show "queues s' (QSuspend (OSem m)) = []" using m assms(3) s'(5) by (simp add: sem_inv_def)
  qed
  with True s' show ?thesis by auto
next
  case False
  have "rt_sem_take n timeout s = (if sems s n \<noteq> 0
      then Inr (Return RT_EOK, s\<lparr>sems := (sems s)(n := sems s n - 1)\<rparr>)
      else Inr (Return (- RT_ETIMEOUT), s))"
    using False assms(2) by (auto simp: rt_sem_take_def sem_valid_def word_gt_0)
  moreover have "kinv (s\<lparr>sems := x\<rparr>)" for x
    using assms(1) by (simp add: running_def kinv_def kinv_other_fields)
  moreover have "kinv s" using assms(1) by (simp add: running_def)
  ultimately show ?thesis using False assms(3) by (auto simp: sem_inv_def)
qed

theorem rt_sem_take_correct_witness:
  "\<exists>s'. rt_sem_take 0 5 demo_kernel = Inr (Return RT_EOK, s') \<and> kinv s'"
  using rt_sem_take_correct [of demo_kernel 1 0 5] demo_running
  by (auto simp: sem_valid_def sem_inv_def demo_queues) (auto simp: demo_kernel_def rt_object_get_type_def)



end
