(* ===== verification/IpcWake.thy ===== *)
theory IpcWake
  imports Sem
begin

text \<open>
  What the IPC objects with stored data (mailbox, message queue) share: the end of an operation that
  made data or room available, and the waiting loop's recalculation of the remaining time.
\<close>

section \<open>Waking the first waiter\<close>

text \<open>\<^verbatim>\<open>if (!rt_list_isempty(list)) { _ipc_list_resume(list); ... rt_schedule(); }\<close>.\<close>

definition ipc_wake :: "qid \<Rightarrow> kernel \<Rightarrow> kernel res" where
  "ipc_wake q s =
     (if queues s q \<noteq> [] then bind_res (ipc_list_resume q s) rt_schedule else Inr s)"

lemma wake_ok:
  assumes r: "running s c" and q: "waits_in q"
  obtains s' where "ipc_wake q s = Inr s'" "kinv s'" "ipc_same s' s" "queues s' q = tl (queues s q)"
    "\<And>q'. q' \<noteq> q \<Longrightarrow> \<forall>p. q' \<noteq> QReady p \<Longrightarrow> queues s' q' = queues s q'"
    "\<And>t rest. queues s q = t # rest \<Longrightarrow> tstat s' t \<in> {RT_THREAD_READY, RT_THREAD_RUNNING}
       \<and> TThread t \<notin> set (timer_list s') \<and> runs_highest s'"
    "queues s q = [] \<Longrightarrow> s' = s"
proof (cases "queues s q")
  case Nil
  then show thesis
    by (intro that [of s]) (use r in \<open>simp_all add: ipc_wake_def running_def\<close>)
next
  case (Cons t rest)
  note d = runningD [OF r]
  obtain s1 where s1: "ipc_list_resume q s = Inr s1" "loose_kinv {} s1"
    "tstat s1 t = (if cur s = Some t then RT_THREAD_RUNNING else RT_THREAD_READY)"
    "cur s1 = cur s" "TThread t \<notin> set (timer_list s1)" "queues s1 q = rest"
    "\<And>q'. q' \<noteq> q \<Longrightarrow> \<forall>p. q' \<noteq> QReady p \<Longrightarrow> queues s1 q' = queues s q'"
    "ipc_same s1 s" "\<And>u. u \<noteq> t \<Longrightarrow> threads s1 u = threads s u"
    by (rule ipc_list_resume_ok [OF d(1) q Cons]) blast
  have tc: "t \<noteq> c" using waiter_suspended [OF d(1) q, of t] Cons d(3) by auto
  then have c1: "cur s1 = Some c" "tstat s1 c = RT_THREAD_RUNNING" "lock_nest s1 = 0"
    using s1(4,8,9) d by (auto simp: ipc_same_def)
  obtain s2 where s2: "rt_schedule s1 = Inr s2" "kinv s2" "sched_frame s1 s2"
    "lock_nest s1 = 0 \<Longrightarrow> tstat s1 c = RT_THREAD_RUNNING \<or> ready_group s1 \<noteq> 0 \<Longrightarrow> runs_highest s2"
    by (rule schedule_ok [OF s1(2) c1(1)]) (use c1 in auto)
  note fr = sched_frame_fields [OF s2(3)]
  have q2: "queues s2 q' = queues s1 q'" if "\<forall>p. q' \<noteq> QReady p" for q'
    using s2(3) that unfolding sched_frame_def by blast
  have nr: "\<forall>p. q \<noteq> QReady p" using q by auto
  show thesis
  proof (rule that [of s2])
    show "ipc_wake q s = Inr s2" using Cons s1(1) s2(1) by (simp add: ipc_wake_def)
    show "ipc_same s2 s" by (rule ipc_same_trans [OF same_sched_frame [OF s2(3)] s1(8)])
    show "queues s2 q = tl (queues s q)" using q2 [OF nr] s1(6) Cons by simp
    show "queues s2 q' = queues s q'" if "q' \<noteq> q" "\<forall>p. q' \<noteq> QReady p" for q'
      using q2 [OF that(2)] s1(7) [OF that] by simp
    show "tstat s2 t' \<in> {RT_THREAD_READY, RT_THREAD_RUNNING} \<and> TThread t' \<notin> set (timer_list s2) \<and> runs_highest s2"
      if "queues s q = t' # rest'" for t' rest'
      using that Cons sched_frame_awake [OF s2(3), of t] s1(3,5) s2(4) c1 fr by auto
  qed (use s2 Cons in auto)
qed

section \<open>The time left\<close>

text \<open>\<^verbatim>\<open>tick_delta = rt_tick_get() - tick_delta; timeout -= tick_delta;\<close> and the
  clamp at zero, in 32-bit arithmetic.\<close>

definition time_left :: "int \<Rightarrow> u32 \<Rightarrow> kernel \<Rightarrow> int" where
  "time_left timeout tick_delta s =
     (if timeout > 0 then
        let timeout = sint (word_of_int timeout - (rt_tick_get s - tick_delta) :: u32)
        in if timeout < 0 then 0 else timeout
      else timeout)"

section \<open>Blocking\<close>

text \<open>\<^verbatim>\<open>_ipc_list_suspend\<close>, the thread timer, \<^verbatim>\<open>rt_schedule\<close>.\<close>

definition ipc_block :: "qid \<Rightarrow> tid \<Rightarrow> int \<Rightarrow> u8 \<Rightarrow> kernel \<Rightarrow> kernel res" where
  "ipc_block q thread timeout flag s =
     bind_res (ipc_list_suspend q thread flag s) (\<lambda>s.
     bind_res (arm_timeout thread timeout s) (\<lambda>s. rt_schedule s))"

definition reset_error :: "tid \<Rightarrow> kernel \<Rightarrow> kernel" where
  "reset_error thread s = upd_thread thread (\<lambda>th. th\<lparr>error := RT_EOK\<rparr>) s"

lemma reset_error_fields [simp]:
  "cur (reset_error t s) = cur s" "lock_nest (reset_error t s) = lock_nest s" "irq_nest (reset_error t s) = irq_nest s"
  "ready_group (reset_error t s) = ready_group s" "queues (reset_error t s) = queues s"
  "objs (reset_error t s) = objs s" "mboxes (reset_error t s) = mboxes s" "mqs (reset_error t s) = mqs s"
  "tstat (reset_error t s) u = tstat s u" "tprio (reset_error t s) u = tprio s u" "tick (reset_error t s) = tick s"
  by (simp_all add: reset_error_def upd_thread_def)

lemma running_reset_error:
  assumes "running s c"
  shows "running (reset_error t s) c"
proof -
  have "loose_kinv {} (reset_error t s)"
    unfolding reset_error_def using runningD(1) [OF assms] by (rule K_upd_other) simp_all
  then show ?thesis using assms by (simp add: running_def kinv_def)
qed

lemma ipc_block_ok:
  assumes r: "running s c" and q: "waits_in q"
    and flag: "flag = RT_IPC_FLAG_FIFO \<or> flag = RT_IPC_FLAG_PRIO" and n: "timeout < 0x7fffffff"
  obtains s' where "ipc_block q c timeout flag (reset_error c s) = Inr s'" "kinv s'"
    "ipc_same s' s" "tstat s' c = RT_THREAD_SUSPEND" "ready_group s \<noteq> 0 \<Longrightarrow> runs_highest s'"
    "queues s' q = enqueue flag s c (queues s q)"
    "\<And>q'. q' \<noteq> q \<Longrightarrow> \<forall>p. q' \<noteq> QReady p \<Longrightarrow> queues s' q' = queues s q'"
proof -
  note d = runningD [OF running_reset_error [OF r, of c]]
  obtain s1 s2 s3 where b: "ipc_list_suspend q c flag (reset_error c s) = Inr s1" "arm_timeout c timeout s1 = Inr s2"
    "rt_schedule s2 = Inr s3" "kinv s3" "ipc_same s1 (reset_error c s)" "ipc_same s2 (reset_error c s)"
    "ipc_same s3 (reset_error c s)" "cur s3 \<noteq> None" "tstat s3 c = RT_THREAD_SUSPEND"
    "lock_nest (reset_error c s) = 0 \<Longrightarrow> ready_group (reset_error c s) \<noteq> 0 \<Longrightarrow> runs_highest s3"
    "queues s3 q = enqueue flag (reset_error c s) c (queues (reset_error c s) q)"
    "\<And>q'. q' \<noteq> q \<Longrightarrow> \<forall>p. q' \<noteq> QReady p \<Longrightarrow> queues s3 q' = queues (reset_error c s) q'"
    by (rule block_ok [OF d(1,2,3) q flag n]) blast
  have "ipc_same (reset_error c s) s" unfolding reset_error_def by (rule same_stat(2))
  then have "ipc_same s3 s" by (rule ipc_same_trans [OF b(7)])
  moreover have "enqueue flag (reset_error c s) c l = enqueue flag s c l" for l
    by (rule enqueue_cong) simp
  ultimately show thesis
    by (intro that [of s3]) (use b d(4) in \<open>simp_all add: ipc_block_def\<close>)
qed

text \<open>What a wake-up means for the queue it is on.\<close>

definition woke_first :: "qid \<Rightarrow> kernel \<Rightarrow> kernel \<Rightarrow> bool" where
  "woke_first q s s' \<longleftrightarrow> queues s' q = tl (queues s q) \<and>
     (\<forall>t rest. queues s q = t # rest \<longrightarrow>
        tstat s' t \<in> {RT_THREAD_READY, RT_THREAD_RUNNING} \<and> TThread t \<notin> set (timer_list s') \<and> runs_highest s')"

lemma wake_first_ok:
  assumes r: "running s c" and q: "waits_in q"
  obtains s' where "ipc_wake q s = Inr s'" "kinv s'" "ipc_same s' s" "woke_first q s s'"
    "\<And>q'. q' \<noteq> q \<Longrightarrow> \<forall>p. q' \<noteq> QReady p \<Longrightarrow> queues s' q' = queues s q'"
proof -
  obtain s' where w: "ipc_wake q s = Inr s'" "kinv s'" "ipc_same s' s" "queues s' q = tl (queues s q)"
    "\<And>q'. q' \<noteq> q \<Longrightarrow> \<forall>p. q' \<noteq> QReady p \<Longrightarrow> queues s' q' = queues s q'"
    "\<And>t rest. queues s q = t # rest \<Longrightarrow> tstat s' t \<in> {RT_THREAD_READY, RT_THREAD_RUNNING}
       \<and> TThread t \<notin> set (timer_list s') \<and> runs_highest s'"
    "queues s q = [] \<Longrightarrow> s' = s"
    by (rule wake_ok [OF r q]) blast
  have "woke_first q s s'" unfolding woke_first_def using w(4,6) by blast
  then show thesis using w by (intro that [of s'])
qed

text \<open>The caller waits: it is suspended in \<open>q\<close> in the object's order and another thread
  runs, a most urgent one if any thread was ready.\<close>

definition waiting_in :: "qid \<Rightarrow> u8 \<Rightarrow> tid \<Rightarrow> kernel \<Rightarrow> kernel \<Rightarrow> bool" where
  "waiting_in q flag c s s' \<longleftrightarrow> tstat s' c = RT_THREAD_SUSPEND
     \<and> queues s' q = enqueue flag s c (queues s q) \<and> (ready_group s \<noteq> 0 \<longrightarrow> runs_highest s')"

lemma ipc_block_waits:
  assumes r: "running s c" and q: "waits_in q"
    and flag: "flag \<in> {RT_IPC_FLAG_FIFO, RT_IPC_FLAG_PRIO}" and n: "timeout < 0x7fffffff"
  obtains s' where "ipc_block q c timeout flag (reset_error c s) = Inr s'" "kinv s'" "ipc_same s' s"
    "waiting_in q flag c s s'"
    "\<And>q'. q' \<noteq> q \<Longrightarrow> \<forall>p. q' \<noteq> QReady p \<Longrightarrow> queues s' q' = queues s q'"
proof -
  have fl: "flag = RT_IPC_FLAG_FIFO \<or> flag = RT_IPC_FLAG_PRIO" using flag by simp
  obtain s' where s': "ipc_block q c timeout flag (reset_error c s) = Inr s'" "kinv s'"
    "ipc_same s' s" "tstat s' c = RT_THREAD_SUSPEND" "ready_group s \<noteq> 0 \<Longrightarrow> runs_highest s'"
    "queues s' q = enqueue flag s c (queues s q)"
    "\<And>q'. q' \<noteq> q \<Longrightarrow> \<forall>p. q' \<noteq> QReady p \<Longrightarrow> queues s' q' = queues s q'"
    by (rule ipc_block_ok [OF r q fl n]) blast
  then show thesis by (intro that [of s']) (simp_all add: waiting_in_def)
qed

section \<open>A kernel with a waiter\<close>

text \<open>For the examples: thread 3 of the demonstration kernel waits in \<open>q\<close>.\<close>

definition demo_wait :: "qid \<Rightarrow> (thread \<Rightarrow> thread) \<Rightarrow> kernel" where
  "demo_wait q f = demo_kernel\<lparr>threads := (threads demo_kernel)(3 := (f (threads demo_kernel 3))\<lparr>stat := RT_THREAD_SUSPEND\<rparr>),
     queues := (queues demo_kernel)(QReady 20 := [], q := [3]),
     ready_group := push_bit 10 1 OR push_bit 31 1\<rparr>"

lemma demo_wait_fields:
  "cur (demo_wait q f) = Some 1" "lock_nest (demo_wait q f) = 0" "irq_nest (demo_wait q f) = 0"
  "objs (demo_wait q f) = objs demo_kernel" "timer_list (demo_wait q f) = []"
  "queues (demo_wait q f) q' = (if q' = q then [3] else if q' = QReady 20 then [] else queues demo_kernel q')"
  "threads (demo_wait q f) 3 = (f (threads demo_kernel 3))\<lparr>stat := RT_THREAD_SUSPEND\<rparr>"
  "t \<noteq> 3 \<Longrightarrow> threads (demo_wait q f) t = threads demo_kernel t"
  "sems (demo_wait q f) = sems demo_kernel" "events (demo_wait q f) = (\<lambda>_. 0)"
  "mboxes (demo_wait q f) = mboxes demo_kernel" "mqs (demo_wait q f) = mqs demo_kernel"
  by (simp_all add: demo_wait_def demo_cur demo_timers fun_upd_other) (simp_all add: demo_kernel_def)

lemma demo_wait_running:
  assumes q: "waits_in q" and f: "\<And>x. current_priority (f x) = current_priority x"
    "\<And>x. number_mask (f x) = number_mask x"
  shows "running (demo_wait q f) 1"
proof -
  let ?s = "demo_wait q f"
  have nr: "q \<noteq> QReady p" "QReady p \<noteq> q" "q \<noteq> QDefunct" "QDefunct \<noteq> q" for p using q by auto
  have g: "tstat ?s t = (if t = 3 then RT_THREAD_SUSPEND else tstat demo_kernel t)"
    "tprio ?s t = tprio demo_kernel t" "number_mask (threads ?s t) = number_mask (threads demo_kernel t)" for t
    by (cases "t = 3", simp_all add: demo_wait_fields f)+
  note h = g demo_wait_fields(1-6)
  have "sched_inv demo_kernel" by (rule demo_sched_inv)
  then have m: "mask_ok demo_kernel" by (simp add: sched_inv_def)
  have "queues_ok ?s" using nr by (simp add: queues_ok_def h demo_queues)
  moreover have "ready_ok ?s" using nr by (auto simp: ready_ok_def h demo_stat demo_prio demo_queues)
  moreover have "bit (ready_group ?s) p \<longleftrightarrow> p = 10 \<or> p = 31" if "p < 32" for p
    using that by (auto simp: demo_wait_def bit_or_iff bit_push_one simp del: push_bit_of_1 push_bit_numeral_minus_1)
  then have "bitmap_ok ?s" using nr by (auto simp: bitmap_ok_def h demo_queues)
  moreover have "wait_ok ?s" using nr by (auto simp: wait_ok_def h demo_queues)
  moreover have "mask_ok ?s" using m by (auto simp: mask_ok_def started_def h demo_stat)
  moreover have "cur_ok ?s" by (simp add: cur_ok_def h demo_stat)
  ultimately have "sched_inv ?s" by (simp add: sched_inv_def)
  then have l: "loose_inv {} ?s" by (simp add: loose_inv_empty)
  have ty: "thread_typed ?s t = thread_typed demo_kernel t" for t
    by (rule thread_typed_cong) (simp_all add: demo_wait_def)
  have "timers_inv ?s = timers_inv demo_kernel"
    by (rule timers_inv_cong) (simp_all add: demo_wait_def)
  then show ?thesis
    using l demo_kinv demo_typed by (simp add: running_def kinv_def loose_kinv_def ty h demo_stat)
qed

end
