(* ===== verification/Block.thy ===== *)
theory Block
  imports IpcWake
begin

text \<open>
  Waiting outside the IPC objects: memory pools, data queues, completions and wait queues suspend the
  caller themselves and link it into a list of their own.  Also the error number of the current thread
  (\<^verbatim>\<open>rt-thread/src/kservice.c\<close>).
\<close>

section \<open>The error number\<close>

definition rt_get_errno :: "kernel \<Rightarrow> int" where
  "rt_get_errno s =
     (if irq_nest s \<noteq> 0 then rt_errno s
      else case rt_thread_self s of None \<Rightarrow> rt_errno s | Some t \<Rightarrow> error (threads s t))"

definition rt_set_errno :: "int \<Rightarrow> kernel \<Rightarrow> kernel" where
  "rt_set_errno e s =
     (if irq_nest s \<noteq> 0 then s\<lparr>rt_errno := e\<rparr>
      else case rt_thread_self s of None \<Rightarrow> s\<lparr>rt_errno := e\<rparr>
      | Some t \<Rightarrow> upd_thread t (\<lambda>th. th\<lparr>error := e\<rparr>) s)"

text \<open>Where the error number is: \<^verbatim>\<open>_rt_errno\<close> returns its address.\<close>

definition errno_location :: "kernel \<Rightarrow> tid option" where
  "errno_location s =
     (if irq_nest s \<noteq> 0 then None
      else case rt_thread_self s of Some t \<Rightarrow> Some t | None \<Rightarrow> None)"

definition rt_errno_strs :: "string list" where
  "rt_errno_strs = [''OK'', ''ERROR'', ''ETIMOUT'', ''ERSFULL'', ''ERSEPTY'', ''ENOMEM'', ''ENOSYS'', ''EBUSY'',
     ''EIO'', ''EINTRPT'', ''EINVAL'', ''EUNKNOW'']"

text \<open>On a 32-bit \<^verbatim>\<open>rt_err_t\<close> the negation of the least number is the
  number itself, and the table is then read in front of its start.\<close>

definition rt_strerror :: "int \<Rightarrow> string res" where
  "rt_strerror err =
     (let err = (if err < 0 then signed_take_bit 31 (- err) else err)
      in if err > RT_EINVAL + 1 then Inr (rt_errno_strs ! nat (RT_EINVAL + 1))
         else if err < 0 then Inl BadAccess
         else Inr (rt_errno_strs ! nat err))"

lemma rt_errno_roundtrip: "rt_get_errno (rt_set_errno e s) = e"
  by (auto simp: rt_get_errno_def rt_set_errno_def rt_thread_self_def upd_thread_def split: option.splits)

section \<open>Suspending in a list\<close>

definition suspend_in :: "qid \<Rightarrow> (tid list \<Rightarrow> tid list) \<Rightarrow> tid \<Rightarrow> kernel \<Rightarrow> kernel res" where
  "suspend_in q f t s = bind_res (rt_thread_suspend t s) (\<lambda>(_, s). Inr (upd_queue q f s))"

definition block_in :: "qid \<Rightarrow> (tid list \<Rightarrow> tid list) \<Rightarrow> tid \<Rightarrow> int \<Rightarrow> kernel \<Rightarrow> kernel res" where
  "block_in q f t timeout s =
     bind_res (suspend_in q f t s) (\<lambda>s. bind_res (arm_timeout t timeout s) rt_schedule)"

text \<open>\<^verbatim>\<open>rt_list_insert_before(head, node)\<close> puts a node at the end,
  \<^verbatim>\<open>rt_list_insert_after\<close> at the front.\<close>

definition adds :: "tid \<Rightarrow> (tid list \<Rightarrow> tid list) \<Rightarrow> bool" where
  "adds t f \<longleftrightarrow> (\<forall>l. set (f l) = insert t (set l) \<and> (distinct (f l) \<longleftrightarrow> t \<notin> set l \<and> distinct l))"

lemma adds_ends [simp]: "adds t (\<lambda>l. l @ [t])" "adds t ((#) t)"
  by (auto simp: adds_def)

lemma suspend_in_ok:
  assumes k: "loose_kinv {} s" and c: "cur s = Some c" "tstat s c = RT_THREAD_RUNNING"
    and q: "waits_in q" and f: "adds c f"
  obtains s' where "suspend_in q f c s = Inr s'" "loose_kinv {} s'"
    "tstat s' c = RT_THREAD_SUSPEND" "cur s' = Some c" "queues s' = (queues s)(q := f (queues s q))" "ipc_same s' s"
proof -
  obtain s1 where s1: "rt_thread_suspend c s = Inr (RT_EOK, s1)" "loose_kinv {} s1"
    "tstat s1 c = RT_THREAD_SUSPEND" "\<And>q. queues s1 q = queues s q" "\<And>q. c \<notin> set (queues s1 q)"
    "cur s1 = Some c" "TThread c \<notin> set (timer_list s1)"
    "\<And>u. thread_typed s1 u = thread_typed s u" "\<And>u. u \<noteq> c \<Longrightarrow> threads s1 u = threads s u"
    by (rule suspend_ok [OF k c]) blast
  have "distinct (queues s1 q)" using s1(2) by (simp add: loose_kinv_def loose_inv_def queues_ok_def)
  then have k2: "loose_kinv {} (upd_queue q f s1)"
    using s1(5) f by (intro loose_kinv_enqueue [OF s1(2,3,5) q]) (simp_all add: adds_def)
  show thesis
  proof (rule that [of "upd_queue q f s1", OF _ k2])
    show "ipc_same (upd_queue q f s1) s"
      by (rule ipc_same_trans [OF same_unlink(2) same_suspend [OF s1(1)]])
    show "queues (upd_queue q f s1) = (queues s)(q := f (queues s q))"
      by (auto simp: upd_queue_def s1(4))
  qed (use s1 in \<open>simp_all add: suspend_in_def upd_queue_def\<close>)
qed

text \<open>The caller waits in \<open>q\<close>.\<close>

definition waiting_at :: "qid \<Rightarrow> (tid list \<Rightarrow> tid list) \<Rightarrow> tid \<Rightarrow> kernel \<Rightarrow> kernel \<Rightarrow> bool" where
  "waiting_at q f c s s' \<longleftrightarrow> tstat s' c = RT_THREAD_SUSPEND
     \<and> queues s' q = f (queues s q) \<and> (ready_group s \<noteq> 0 \<longrightarrow> runs_highest s')"

lemma block_in_ok:
  assumes r: "running s c" and q: "waits_in q" and f: "adds c f" and n: "timeout < 0x7fffffff"
  obtains s' where "block_in q f c timeout s = Inr s'" "kinv s'" "ipc_same s' s" "waiting_at q f c s s'" "cur s' \<noteq> None"
    "\<And>q'. q' \<noteq> q \<Longrightarrow> \<forall>p. q' \<noteq> QReady p \<Longrightarrow> queues s' q' = queues s q'"
proof -
  note d = runningD [OF r]
  obtain s1 where s1: "suspend_in q f c s = Inr s1" "loose_kinv {} s1"
    "tstat s1 c = RT_THREAD_SUSPEND" "cur s1 = Some c" "queues s1 = (queues s)(q := f (queues s q))" "ipc_same s1 s"
    by (rule suspend_in_ok [OF d(1-3) q f]) blast
  obtain s2 s3 where s3: "arm_timeout c timeout s1 = Inr s2" "rt_schedule s2 = Inr s3" "kinv s3"
    "ipc_same s2 s1" "ipc_same s3 s1" "cur s3 \<noteq> None" "tstat s3 c = RT_THREAD_SUSPEND"
    "lock_nest s1 = 0 \<Longrightarrow> ready_group s1 \<noteq> 0 \<Longrightarrow> runs_highest s3"
    "\<And>q. \<forall>p. q \<noteq> QReady p \<Longrightarrow> queues s3 q = queues s1 q"
    by (rule arm_switch_ok [OF s1(2,4,3) n]) blast
  have nr: "q \<noteq> QReady p" for p using q by auto
  have rg: "ready_group s1 \<noteq> 0" if "ready_group s \<noteq> 0"
    by (rule ready_group_same [OF d(1) s1(2) _ that]) (use nr s1(5) in \<open>metis fun_upd_other\<close>)
  have l: "lock_nest s1 = 0" using s1(6) d(4) by (simp add: ipc_same_def)
  show thesis
  proof (rule that [of s3])
    show "block_in q f c timeout s = Inr s3" using s1(1) s3(1,2) by (simp add: block_in_def)
    show "ipc_same s3 s" by (rule ipc_same_trans [OF s3(5) s1(6)])
    show "waiting_at q f c s s3"
      using s3(7,8) s3(9) [of q] rg nr s1(5) l by (simp add: waiting_at_def)
    show "queues s3 q' = queues s q'" if "q' \<noteq> q" "\<forall>p. q' \<noteq> QReady p" for q'
      using s3(9) [OF that(2)] that(1) s1(5) by simp
  qed (use s3 in auto)
qed

lemma running_set_errno:
  assumes "running s c"
  shows "running (rt_set_errno e s) c"
proof -
  note d = runningD [OF assms]
  have "loose_kinv {} (upd_thread c (\<lambda>th. th\<lparr>error := e\<rparr>) s)" using d(1) by (rule K_upd_other) simp_all
  then show ?thesis using d by (simp add: rt_set_errno_def running_def kinv_def upd_thread_def)
qed

end
