(* ===== verification/Pool.thy ===== *)
theory Pool
  imports Main
begin

text \<open>
  The contract of a pool of equal blocks: what is taken was free, and what is given back is free again.
  The memory pool (\<open>MemPool\<close>) provides it; the clients' guarantee, that no block is ever
  held twice and none is lost, is proved here.
\<close>

datatype pool_op = Take | GiveBack nat

locale block_pool =
  fixes inv :: "'s \<Rightarrow> bool"
    and free :: "'s \<Rightarrow> 'b set"
    and blocks :: "'s \<Rightarrow> 'b set"
    and get :: "'s \<Rightarrow> ('b \<times> 's) option"
    and put :: "'b \<Rightarrow> 's \<Rightarrow> 's"
  assumes get_empty: "inv s \<Longrightarrow> free s = {} \<Longrightarrow> get s = None"
    and get_ok: "inv s \<Longrightarrow> free s \<noteq> {} \<Longrightarrow>
       \<exists>b s'. get s = Some (b, s') \<and> inv s' \<and> b \<in> free s \<and> free s' = free s - {b} \<and> blocks s' = blocks s"
    and put_ok: "inv s \<Longrightarrow> b \<in> blocks s \<Longrightarrow> b \<notin> free s \<Longrightarrow>
       inv (put b s) \<and> free (put b s) = insert b (free s) \<and> blocks (put b s) = blocks s"
begin

text \<open>A run of requests by clients that hold a list of blocks: they take, or give back the
  \<open>k\<close>-th block they hold.\<close>

fun run :: "pool_op list \<Rightarrow> 'b list \<Rightarrow> 's \<Rightarrow> 'b list \<times> 's" where
  "run [] held s = (held, s)"
| "run (Take # ops) held s =
     (case get s of None \<Rightarrow> run ops held s | Some (b, s') \<Rightarrow> run ops (b # held) s')"
| "run (GiveBack k # ops) held s =
     (if k < length held then run ops (take k held @ drop (Suc k) held) (put (held ! k) s)
      else run ops held s)"

text \<open>Held and free blocks partition the pool.\<close>

definition split :: "'b list \<Rightarrow> 's \<Rightarrow> bool" where
  "split held s \<longleftrightarrow> inv s \<and> distinct held \<and> set held \<inter> free s = {} \<and> set held \<union> free s = blocks s"

lemma split_take:
  assumes "split held s" "free s \<noteq> {}"
  obtains b s' where "get s = Some (b, s')" "split (b # held) s'" "blocks s' = blocks s"
proof -
  have i: "inv s" and h: "distinct held" "set held \<inter> free s = {}" "set held \<union> free s = blocks s"
    using assms(1) by (auto simp: split_def)
  obtain b s' where b: "get s = Some (b, s')" "inv s'" "b \<in> free s" "free s' = free s - {b}" "blocks s' = blocks s"
    using get_ok [OF i assms(2)] by blast
  have "split (b # held) s'" unfolding split_def b(4,5) using b(2,3) h by auto
  then show thesis using b(1,5) that by blast
qed

lemma split_give:
  assumes "split held s" "k < length held"
  shows "split (take k held @ drop (Suc k) held) (put (held ! k) s)" "blocks (put (held ! k) s) = blocks s"
proof -
  have i: "inv s" and h: "distinct held" "set held \<inter> free s = {}" "set held \<union> free s = blocks s"
    using assms(1) by (auto simp: split_def)
  have e: "held = take k held @ held ! k # drop (Suc k) held" using assms(2) by (rule id_take_nth_drop)
  let ?r = "take k held @ drop (Suc k) held"
  have "distinct (take k held @ held ! k # drop (Suc k) held)" using h(1) unfolding e [symmetric] .
  then have d: "distinct ?r" "held ! k \<notin> set ?r" by auto
  have "set held = set (take k held @ held ! k # drop (Suc k) held)" unfolding e [symmetric] ..
  then have d3: "set held = insert (held ! k) (set ?r)" by auto
  have b: "held ! k \<in> blocks s" "held ! k \<notin> free s" using h(2,3) assms(2) nth_mem [of k held] by blast+
  note p = put_ok [OF i b]
  show "blocks (put (held ! k) s) = blocks s" using p by blast
  show "split ?r (put (held ! k) s)" unfolding split_def using p d d3 h(2,3) by auto
qed

lemma run_safe:
  "split held s \<Longrightarrow> run ops held s = (held', s') \<Longrightarrow> split held' s' \<and> blocks s' = blocks s"
proof (induction ops held s rule: run.induct)
  case (2 ops held s)
  show ?case
  proof (cases "free s = {}")
    case True
    then have "get s = None" using get_empty 2(3) by (simp add: split_def)
    then show ?thesis using 2(1,3,4) by simp
  next
    case False
    obtain b t where b: "get s = Some (b, t)" "split (b # held) t" "blocks t = blocks s"
      by (rule split_take [OF 2(3) False])
    then show ?thesis using 2(2) [OF b(1) refl b(2)] 2(4) by simp
  qed
next
  case (3 k ops held s)
  then show ?case using split_give [of held s k] by (cases "k < length held") simp_all
qed simp

end

end
