(* ===== verification/Addr32.thy ===== *)
theory Addr32
  imports Prelude
begin

text \<open>
  Addresses and sizes as the memory managers compute them: natural numbers below \<open>2 ^ 32\<close> with
  the wrap-around of the 32-bit machine written out, and the rounding macros of
  \<^verbatim>\<open>rtdef.h\<close>.
\<close>

section \<open>Arithmetic\<close>

definition add32 :: "nat \<Rightarrow> nat \<Rightarrow> nat" where
  "add32 a b = (a + b) mod 2 ^ 32"

definition sub32 :: "nat \<Rightarrow> nat \<Rightarrow> nat" where
  "sub32 a b = (a + 2 ^ 32 - b) mod 2 ^ 32"

definition align4 :: "nat \<Rightarrow> nat" where
  "align4 n = unat (RT_ALIGN (word_of_nat n) 4)"

lemma add32_small [simp]: "a + b < 2 ^ 32 \<Longrightarrow> add32 a b = a + b"
  by (simp add: add32_def)

lemma sub32_small [simp]: "b \<le> a \<Longrightarrow> a < 2 ^ 32 \<Longrightarrow> sub32 a b = a - b"
  by (simp add: sub32_def) (metis Nat.add_diff_assoc2 add_diff_cancel_right' diff_less_mono2 mod_add_self2 mod_less less_imp_diff_less)

lemma unat_of_small: "n < 2 ^ 32 \<Longrightarrow> unat (word_of_nat n :: u32) = n"
  by (simp add: unat_of_nat take_bit_nat_def)

section \<open>Alignment\<close>

lemma word_and_not_3: "(x::u32) AND NOT 3 = push_bit 2 (drop_bit 2 x)"
proof (rule bit_word_eqI)
  fix n
  have m: "(3 :: u32) = mask 2" by (simp add: mask_eq_exp_minus_1)
  show "bit (x AND NOT 3) n = bit (push_bit 2 (drop_bit 2 x)) n" if "n < LENGTH(32)"
  proof (cases "2 \<le> n")
    case True
    then obtain k where "n = 2 + k" using le_Suc_ex by blast
    then show ?thesis unfolding m using that by (auto simp: bit_simps)
  qed (use that in \<open>auto simp: m bit_simps\<close>)
qed

lemma unat_and_not_3: "unat ((x::u32) AND NOT 3) = 4 * (unat x div 4)"
proof -
  have "unat (push_bit 2 (drop_bit 2 x)) = take_bit 32 (push_bit 2 (unat x div 4))"
    by (simp add: unsigned_push_bit_eq drop_bit_eq_div unat_div)
  also have "\<dots> = 4 * (unat x div 4)"
  proof -
    have "4 * (unat x div 4) < 2 ^ 32" using unat_lt_32 [of x] by simp
    then show ?thesis by (simp add: push_bit_eq_mult take_bit_nat_eq_self mult.commute)
  qed
  finally show ?thesis unfolding word_and_not_3 .
qed

lemma align4_eq: "align4 n = 4 * ((n + 3) mod 2 ^ 32 div 4)"
proof -
  have "word_of_nat n + 4 - 1 = (word_of_nat (n + 3) :: u32)" by simp
  then have "unat (word_of_nat n + 4 - 1 :: u32) = (n + 3) mod 2 ^ 32"
    by (simp only: unat_of_nat take_bit_nat_def len_num1 len_bit0 len_bit1 mult_1 mult_1_right) simp
  then show ?thesis unfolding align4_def RT_ALIGN_def using unat_and_not_3 [of "word_of_nat n + 4 - 1"] by simp
qed

lemma align4_mod [simp]: "align4 n mod 4 = 0"
  by (simp add: align4_eq)

lemma align4_small: "n \<le> 2 ^ 32 - 4 \<Longrightarrow> align4 n = 4 * ((n + 3) div 4)"
  by (simp add: align4_eq)

lemma unat_and_not_small: "n < 2 ^ 32 \<Longrightarrow> unat (word_of_nat n AND NOT 3 :: u32) = 4 * (n div 4)"
  by (simp only: unat_and_not_3 unat_of_small)

end
