(* ===== verification/MemPool.thy ===== *)
theory MemPool
  imports Block Pool Addr32
begin

text \<open>
  Memory pools, \<^verbatim>\<open>rt-thread/src/mempool.c\<close>: equal blocks in one area, each with a
  header word that links it to the next free block while it is free and points to the pool while it is in
  use.  The area is part of an array of words addressed by byte; NULL is 0.
\<close>

section \<open>Operations\<close>

text \<open>\<open>mp_self\<close> is the address of the control block, \<open>mp_id\<close> names its kernel
  object and its list of waiters.\<close>

record mempool =
  mp_id :: nat
  mp_self :: u32
  start_address :: nat
  mp_size :: nat
  block_size :: nat
  block_list :: nat
  block_total_count :: nat
  block_free_count :: nat
  mp_mem :: "nat \<Rightarrow> u32"

text \<open>\<^verbatim>\<open>block_ptr + offset * (block_size + sizeof(rt_uint8_t *))\<close> and the two
  loops over it.\<close>

definition mp_at :: "nat \<Rightarrow> nat \<Rightarrow> nat \<Rightarrow> nat" where
  "mp_at block_ptr stride offset = (block_ptr + offset * stride) mod 2 ^ 32"

definition mp_link_all :: "nat \<Rightarrow> nat \<Rightarrow> nat \<Rightarrow> (nat \<Rightarrow> u32) \<Rightarrow> (nat \<Rightarrow> u32)" where
  "mp_link_all block_ptr stride count mem =
     (let mem = fold (\<lambda>offset mem. mem(mp_at block_ptr stride offset := word_of_nat (mp_at block_ptr stride (offset + 1))))
            [0..<count] mem
      in mem(mp_at block_ptr stride (sub32 count 1) := 0))"

definition rt_mp_init ::
  "nat \<Rightarrow> u32 \<Rightarrow> u8 list \<Rightarrow> nat \<Rightarrow> nat \<Rightarrow> nat \<Rightarrow> (nat \<Rightarrow> u32) \<Rightarrow> kernel \<Rightarrow> (mempool \<times> kernel) res" where
  "rt_mp_init i mp name start sz blk_size mem s =
     assert_then (start \<noteq> 0) (
     assert_then (sz > 0 \<and> blk_size > 0) (
     bind_res (rt_object_init (OMemPool i) RT_Object_Class_MemPool name s) (\<lambda>s.
     let sz = unat (RT_ALIGN_DOWN (word_of_nat sz) 4);
         blk_size = align4 blk_size;
         stride = add32 blk_size 4
     in if stride = 0 then Inl BadAccess
        else let count = sz div stride
             in Inr (\<lparr>mp_id = i, mp_self = mp, start_address = start, mp_size = sz, block_size = blk_size,
                      block_list = start, block_total_count = count, block_free_count = count,
                      mp_mem = mp_link_all start stride count mem\<rparr>,
                     ipc_object_init (OMemPool i) s))))"

definition rt_mp_detach :: "mempool \<Rightarrow> kernel \<Rightarrow> (int \<times> kernel) res" where
  "rt_mp_detach m s =
     assert_then (rt_object_get_type (OMemPool (mp_id m)) s = RT_Object_Class_MemPool) (
     assert_then (rt_object_is_systemobject (OMemPool (mp_id m)) s) (
     bind_res (ipc_list_resume_all (QSuspend (OMemPool (mp_id m))) s) (\<lambda>s.
       Inr (RT_EOK, rt_object_detach (OMemPool (mp_id m)) s))))"

text \<open>\<open>block\<close> is the identifier and address of the control block if there was memory
  for it, \<open>room\<close> the address and contents of what \<^verbatim>\<open>rt_malloc\<close> found.\<close>

definition rt_mp_create ::
  "(nat \<times> u32) option \<Rightarrow> (nat \<times> (nat \<Rightarrow> u32)) option \<Rightarrow> u8 list \<Rightarrow> nat \<Rightarrow> nat \<Rightarrow> kernel
    \<Rightarrow> (mempool option \<times> kernel) res" where
  "rt_mp_create block room name block_count blk_size s =
     assert_then (RT_DEBUG_NOT_IN_INTERRUPT s) (
     assert_then (block_count > 0 \<and> blk_size > 0) (
     bind_res (rt_object_allocate (map_option (\<lambda>(i, _). OMemPool i) block) RT_Object_Class_MemPool name s) (\<lambda>(_, s).
       case block of None \<Rightarrow> Inr (None, s)
       | Some (i, mp) \<Rightarrow>
         let blk_size = align4 blk_size;
             stride = add32 blk_size 4
         in (case room of
               None \<Rightarrow> bind_res (rt_object_delete (OMemPool i) s) (\<lambda>s. Inr (None, s))
             | Some (start, mem) \<Rightarrow>
                 Inr (Some \<lparr>mp_id = i, mp_self = mp, start_address = start, mp_size = stride * block_count mod 2 ^ 32,
                        block_size = blk_size, block_list = start, block_total_count = block_count,
                        block_free_count = block_count, mp_mem = mp_link_all start stride block_count mem\<rparr>,
                      ipc_object_init (OMemPool i) s)))))"

definition rt_mp_delete :: "mempool \<Rightarrow> kernel \<Rightarrow> (int \<times> kernel) res" where
  "rt_mp_delete m s =
     assert_then (RT_DEBUG_NOT_IN_INTERRUPT s) (
     assert_then (rt_object_get_type (OMemPool (mp_id m)) s = RT_Object_Class_MemPool) (
     assert_then (\<not> rt_object_is_systemobject (OMemPool (mp_id m)) s) (
     bind_res (ipc_list_resume_all (QSuspend (OMemPool (mp_id m))) s) (\<lambda>s.
     bind_res (rt_object_delete (OMemPool (mp_id m)) s) (\<lambda>s. Inr (RT_EOK, s))))))"

text \<open>Taking the first free block.\<close>

definition mp_get :: "mempool \<Rightarrow> (nat \<times> mempool) res" where
  "mp_get m =
     (let m = m\<lparr>block_free_count := sub32 (block_free_count m) 1\<rparr>;
          block_ptr = block_list m
      in assert_then (block_ptr \<noteq> 0) (
         let m = m\<lparr>block_list := unat (mp_mem m block_ptr)\<rparr>;
             m = m\<lparr>mp_mem := (mp_mem m)(block_ptr := mp_self m)\<rparr>
         in Inr (add32 block_ptr 4, m)))"

text \<open>One round of the waiting loop: the caller is put in front of the other waiters.\<close>

definition mp_alloc_loop :: "tid option \<Rightarrow> int \<Rightarrow> mempool \<Rightarrow> kernel \<Rightarrow> (nat option outcome \<times> mempool \<times> kernel) res" where
  "mp_alloc_loop thread time m s =
     (if block_free_count m = 0 then
        if time = 0 then Inr (Return None, m, rt_set_errno (- RT_ETIMEOUT) s)
        else assert_then (RT_DEBUG_NOT_IN_INTERRUPT s) (
          case thread of None \<Rightarrow> Inl NullDeref
          | Some t \<Rightarrow>
            bind_res (block_in (QSuspend (OMemPool (mp_id m))) ((#) t) t time (reset_error t s)) (\<lambda>s. Inr (Blocked, m, s)))
      else bind_res (mp_get m) (\<lambda>(a, m). Inr (Return (Some a), m, s)))"

definition rt_mp_alloc :: "int \<Rightarrow> mempool \<Rightarrow> kernel \<Rightarrow> (nat option outcome \<times> mempool \<times> kernel) res" where
  "rt_mp_alloc time m s = mp_alloc_loop (rt_thread_self s) time m s"

text \<open>When the caller runs again; \<open>before_sleep\<close> is the tick at which it blocked.\<close>

definition rt_mp_alloc_resume ::
  "tid \<Rightarrow> int \<Rightarrow> u32 \<Rightarrow> mempool \<Rightarrow> kernel \<Rightarrow> (nat option outcome \<times> mempool \<times> kernel) res" where
  "rt_mp_alloc_resume thread time before_sleep m s =
     (if error (threads s thread) \<noteq> RT_EOK then Inr (Return None, m, s)
      else mp_alloc_loop (Some thread) (time_left time before_sleep s) m s)"

text \<open>Freeing.  A block whose header does not point to this pool belongs to another one and is
  outside the model.\<close>

definition mp_put :: "nat \<Rightarrow> mempool \<Rightarrow> mempool" where
  "mp_put block_ptr m =
     (let m = m\<lparr>block_free_count := add32 (block_free_count m) 1\<rparr>;
          m = m\<lparr>mp_mem := (mp_mem m)(block_ptr := word_of_nat (block_list m))\<rparr>
      in m\<lparr>block_list := block_ptr\<rparr>)"

definition rt_mp_free :: "nat option \<Rightarrow> mempool \<Rightarrow> kernel \<Rightarrow> (mempool \<times> kernel) res" where
  "rt_mp_free block m s =
     (case block of None \<Rightarrow> Inr (m, s)
      | Some a \<Rightarrow>
        let block_ptr = sub32 a 4
        in if mp_mem m block_ptr \<noteq> mp_self m then Inl BadAccess
           else
             let m = mp_put block_ptr m;
                 q = QSuspend (OMemPool (mp_id m))
             in case queues s q of [] \<Rightarrow> Inr (m, s)
                | t # _ \<Rightarrow>
                  bind_res (rt_thread_resume t (reset_error t s)) (\<lambda>(_, s).
                  bind_res (rt_schedule s) (\<lambda>s. Inr (m, s))))"

section \<open>The free list\<close>

fun chain :: "(nat \<Rightarrow> u32) \<Rightarrow> nat \<Rightarrow> nat list \<Rightarrow> bool" where
  "chain h p [] \<longleftrightarrow> p = 0"
| "chain h p (b # bs) \<longleftrightarrow> p = b \<and> chain h (unat (h b)) bs"

lemma chain_frame: "\<forall>b \<in> set bs. h' b = h b \<Longrightarrow> chain h' p bs = chain h p bs"
  by (induction bs arbitrary: p) auto

definition stride :: "mempool \<Rightarrow> nat" where
  "stride m = block_size m + 4"

definition mp_blocks :: "mempool \<Rightarrow> nat set" where
  "mp_blocks m = (\<lambda>i. start_address m + i * stride m) ` {..<block_total_count m}"

text \<open>\<open>fl\<close> lists the headers of the free blocks; all other headers point to the pool.\<close>

definition mp_rep :: "mempool \<Rightarrow> nat list \<Rightarrow> bool" where
  "mp_rep m fl \<longleftrightarrow> 0 < start_address m \<and> 0 < block_size m
     \<and> start_address m + block_total_count m * stride m < 2 ^ 32
     \<and> chain (mp_mem m) (block_list m) fl \<and> distinct fl \<and> set fl \<subseteq> mp_blocks m \<and> block_free_count m = length fl
     \<and> (\<forall>b \<in> mp_blocks m - set fl. mp_mem m b = mp_self m)"

definition mp_inv :: "mempool \<Rightarrow> bool" where
  "mp_inv m \<longleftrightarrow> (\<exists>fl. mp_rep m fl)"

fun walk :: "(nat \<Rightarrow> u32) \<Rightarrow> nat \<Rightarrow> nat \<Rightarrow> nat list" where
  "walk h 0 p = []"
| "walk h (Suc n) p = p # walk h n (unat (h p))"

lemma chain_walk: "chain h p fl \<Longrightarrow> walk h (length fl) p = fl"
  by (induction fl arbitrary: p) auto

text \<open>The free blocks, read off the memory.\<close>

definition mp_free_list :: "mempool \<Rightarrow> nat list" where
  "mp_free_list m = walk (mp_mem m) (block_free_count m) (block_list m)"

lemma mp_free_list: "mp_rep m fl \<Longrightarrow> mp_free_list m = fl"
  by (simp add: mp_free_list_def mp_rep_def chain_walk)

lemma mp_inv_rep: "mp_inv m \<Longrightarrow> mp_rep m (mp_free_list m)"
  by (auto simp: mp_inv_def mp_free_list)

lemma mp_block_addr:
  assumes "mp_rep m fl" "b \<in> mp_blocks m"
  shows "0 < b" "b + 4 + block_size m \<le> start_address m + block_total_count m * stride m" "b + 4 < 2 ^ 32"
proof -
  obtain i where i: "i < block_total_count m" "b = start_address m + i * stride m"
    using assms(2) by (auto simp: mp_blocks_def)
  have d: "0 < start_address m" "0 < block_size m" "start_address m + block_total_count m * stride m < 2 ^ 32"
    using assms(1) by (auto simp: mp_rep_def)
  have "Suc i * stride m \<le> block_total_count m * stride m" using i(1) by (intro mult_le_mono1) simp
  then show "b + 4 + block_size m \<le> start_address m + block_total_count m * stride m"
    using i(2) by (simp add: stride_def)
  then show "b + 4 < 2 ^ 32" using d by simp
  show "0 < b" using d(1) i(2) by simp
qed

text \<open>Blocks do not overlap.\<close>

lemma mp_blocks_apart:
  assumes "b \<in> mp_blocks m" "c \<in> mp_blocks m" "b \<noteq> c"
  shows "b + stride m \<le> c \<or> c + stride m \<le> b"
proof -
  have step: "i * stride m + stride m \<le> j * stride m" if "i < j" for i j
  proof -
    have "Suc i * stride m \<le> j * stride m" using that by (intro mult_le_mono1) simp
    then show ?thesis by simp
  qed
  obtain i j where "b = start_address m + i * stride m" "c = start_address m + j * stride m"
    using assms by (auto simp: mp_blocks_def)
  then show ?thesis using step [of i j] step [of j i] assms(3) by (cases i j rule: linorder_cases) auto
qed

lemma mp_get_ok:
  assumes r: "mp_rep m (b # fl)"
  obtains m' where "mp_get m = Inr (b + 4, m')" "mp_rep m' fl" "mp_blocks m' = mp_blocks m" "mp_self m' = mp_self m"
    "mp_id m' = mp_id m" "mp_mem m' = (mp_mem m)(b := mp_self m)" "start_address m' = start_address m" "block_size m' = block_size m"
    "block_total_count m' = block_total_count m"
proof -
  have d: "chain (mp_mem m) (block_list m) (b # fl)" "distinct (b # fl)" "set (b # fl) \<subseteq> mp_blocks m"
    "block_free_count m = Suc (length fl)" "\<forall>c \<in> mp_blocks m - set (b # fl). mp_mem m c = mp_self m"
    using r by (auto simp: mp_rep_def)
  have bl: "block_list m = b" "b \<in> mp_blocks m" using d(1,3) by simp_all
  note a = mp_block_addr [OF r bl(2)]
  have len: "Suc (length fl) < 2 ^ 32"
  proof -
    have "card (set (b # fl)) \<le> card (mp_blocks m)" by (rule card_mono [OF _ d(3)]) (simp add: mp_blocks_def)
    also have "\<dots> \<le> block_total_count m"
      unfolding mp_blocks_def using card_image_le [of "{..<block_total_count m}"] by simp
    also have "\<dots> \<le> block_total_count m * stride m" by (simp add: stride_def)
    finally show ?thesis using distinct_card [OF d(2)] r by (simp add: mp_rep_def)
  qed
  let ?m = "m\<lparr>block_free_count := length fl, block_list := unat (mp_mem m b), mp_mem := (mp_mem m)(b := mp_self m)\<rparr>"
  have s1: "sub32 (block_free_count m) 1 = length fl" using d(4) len by simp
  have eq: "mp_get m = Inr (b + 4, ?m)"
    unfolding mp_get_def Let_def s1 using a bl(1) by simp
  have bs: "mp_blocks ?m = mp_blocks m" by (simp add: mp_blocks_def stride_def)
  have "chain ((mp_mem m)(b := mp_self m)) (unat (mp_mem m b)) fl"
    using d(1,2) chain_frame [of fl "(mp_mem m)(b := mp_self m)" "mp_mem m"] by auto
  moreover have "0 < start_address m \<and> 0 < block_size m \<and> start_address m + block_total_count m * stride m < 2 ^ 32"
    using r by (simp add: mp_rep_def)
  ultimately have "mp_rep ?m fl"
    using d(2,3,5) unfolding mp_rep_def bs by (auto simp: stride_def)
  then show thesis by (rule that [OF eq _ bs]) simp_all
qed

lemma mp_put_ok:
  assumes r: "mp_rep m fl" and b: "b \<in> mp_blocks m" "b \<notin> set fl"
  shows "mp_rep (mp_put b m) (b # fl)" "mp_blocks (mp_put b m) = mp_blocks m"
proof -
  have d: "chain (mp_mem m) (block_list m) fl" "distinct fl" "set fl \<subseteq> mp_blocks m"
    "block_free_count m = length fl" "\<forall>c \<in> mp_blocks m - set fl. mp_mem m c = mp_self m"
    "0 < start_address m \<and> 0 < block_size m \<and> start_address m + block_total_count m * stride m < 2 ^ 32"
    using r by (auto simp: mp_rep_def)
  have len: "length fl + 1 < 2 ^ 32"
  proof -
    have "card (set (b # fl)) \<le> card (mp_blocks m)" by (rule card_mono) (use d(3) b in \<open>auto simp: mp_blocks_def\<close>)
    also have "\<dots> \<le> block_total_count m"
      unfolding mp_blocks_def using card_image_le [of "{..<block_total_count m}"] by simp
    also have "\<dots> \<le> block_total_count m * stride m" by (simp add: stride_def)
    finally show ?thesis using distinct_card [of "b # fl"] d(2,6) b(2) by simp
  qed
  have p32: "block_list m < 2 ^ 32"
  proof (cases fl)
    case (Cons c cs)
    then show ?thesis using d(1,3) mp_block_addr(3) [OF r, of c] by simp
  qed (use d(1) in simp)
  let ?m = "m\<lparr>block_free_count := Suc (length fl), mp_mem := (mp_mem m)(b := word_of_nat (block_list m)), block_list := b\<rparr>"
  have eq: "mp_put b m = ?m" using d(4) len by (simp add: mp_put_def Let_def)
  show bs: "mp_blocks (mp_put b m) = mp_blocks m" by (simp add: eq mp_blocks_def stride_def)
  have "chain ((mp_mem m)(b := word_of_nat (block_list m))) (block_list m) fl"
    using d(1) b(2) chain_frame [of fl "(mp_mem m)(b := word_of_nat (block_list m))" "mp_mem m"] by auto
  then have "chain (mp_mem ?m) b (b # fl)" using p32 by (simp add: unat_of_small)
  then show "mp_rep (mp_put b m) (b # fl)"
    using d b unfolding mp_rep_def bs unfolding eq by (auto simp: stride_def)
qed

section \<open>The contract\<close>

text \<open>Areas are named by the address the user gets.\<close>

definition mp_areas :: "mempool \<Rightarrow> nat set" where
  "mp_areas m = (\<lambda>b. b + 4) ` mp_blocks m"

definition mp_free_areas :: "mempool \<Rightarrow> nat set" where
  "mp_free_areas m = (\<lambda>b. b + 4) ` set (mp_free_list m)"

definition mp_take :: "mempool \<Rightarrow> (nat \<times> mempool) option" where
  "mp_take m = (if block_free_count m = 0 then None
     else case mp_get m of Inl _ \<Rightarrow> None | Inr r \<Rightarrow> Some r)"

definition mp_give :: "nat \<Rightarrow> mempool \<Rightarrow> mempool" where
  "mp_give a m = mp_put (sub32 a 4) m"

lemma areas_free: "mp_free_areas m = {} \<longleftrightarrow> mp_free_list m = []"
  by (simp add: mp_free_areas_def)

lemma free_count: "mp_inv m \<Longrightarrow> block_free_count m = 0 \<longleftrightarrow> mp_free_list m = []"
  using mp_inv_rep [of m] by (auto simp: mp_rep_def)

interpretation mpp: block_pool mp_inv mp_free_areas mp_areas mp_take mp_give
proof unfold_locales
  fix m :: mempool and b :: nat assume i: "mp_inv m"
  note r = mp_inv_rep [OF i]
  show "mp_take m = None" if "mp_free_areas m = {}"
    using that free_count [OF i] by (simp add: mp_take_def areas_free)
  show "\<exists>b m'. mp_take m = Some (b, m') \<and> mp_inv m' \<and> b \<in> mp_free_areas m \<and> mp_free_areas m' = mp_free_areas m - {b}
      \<and> mp_areas m' = mp_areas m" if ne: "mp_free_areas m \<noteq> {}"
  proof -
    obtain c fl where fl: "mp_free_list m = c # fl" using ne unfolding areas_free by (cases "mp_free_list m") auto
    have rc: "mp_rep m (c # fl)" using r fl by simp
    obtain m' where m': "mp_get m = Inr (c + 4, m')" "mp_rep m' fl" "mp_blocks m' = mp_blocks m"
      by (rule mp_get_ok [OF rc]) blast
    have "mp_take m = Some (c + 4, m')" using m'(1) free_count [OF i] fl by (simp add: mp_take_def)
    moreover have "mp_free_areas m' = mp_free_areas m - {c + 4}"
      using mp_free_list [OF m'(2)] fl rc by (auto simp: mp_free_areas_def mp_rep_def)
    moreover have "c + 4 \<in> mp_free_areas m" using fl by (simp add: mp_free_areas_def)
    ultimately show ?thesis using m'(2,3) by (auto simp: mp_inv_def mp_areas_def)
  qed
  show "mp_inv (mp_give b m) \<and> mp_free_areas (mp_give b m) = insert b (mp_free_areas m)
      \<and> mp_areas (mp_give b m) = mp_areas m" if b: "b \<in> mp_areas m" "b \<notin> mp_free_areas m"
  proof -
    obtain c where c: "c \<in> mp_blocks m" "b = c + 4" using b(1) by (auto simp: mp_areas_def)
    have nf: "c \<notin> set (mp_free_list m)" using b(2) c(2) by (auto simp: mp_free_areas_def)
    have g: "mp_give b m = mp_put c m" using c(2) mp_block_addr(3) [OF r c(1)] by (simp add: mp_give_def)
    note p = mp_put_ok [OF r c(1) nf]
    show ?thesis unfolding g using p mp_free_list [OF p(1)] c(2)
      by (auto simp: mp_inv_def mp_areas_def mp_free_areas_def)
  qed
qed

section \<open>Initialisation\<close>

lemma link_fold:
  fixes mem :: "nat \<Rightarrow> u32"
  assumes "0 < str" "start + count * str < 2 ^ 32" "k \<le> count"
  shows "fold (\<lambda>offset mem. mem(mp_at start str offset := word_of_nat (mp_at start str (offset + 1)))) [0..<k] mem
    = (\<lambda>a. if \<exists>i<k. a = start + i * str then word_of_nat (a + str) else mem a)"
  using assms(3)
proof (induction k)
  case (Suc k)
  have "Suc k * str \<le> count * str" using Suc.prems by (intro mult_le_mono1)
  then have at: "mp_at start str k = start + k * str" "mp_at start str (k + 1) = start + k * str + str"
    using assms(2) by (simp_all add: mp_at_def)
  let ?F = "\<lambda>offset mem. mem(mp_at start str offset := word_of_nat (mp_at start str (offset + 1)) :: u32)"
  have "fold ?F [0..<Suc k] mem = ?F k (fold ?F [0..<k] mem)" by simp
  also have "fold ?F [0..<k] mem = (\<lambda>a. if \<exists>i<k. a = start + i * str then word_of_nat (a + str) else mem a)"
    by (rule Suc.IH) (use Suc.prems in simp)
  also have "?F k \<dots> = (\<lambda>a. if \<exists>i<Suc k. a = start + i * str then word_of_nat (a + str) else mem a)"
    unfolding at by (rule ext) (auto simp: less_Suc_eq simp del: of_nat_add)
  finally show ?case .
qed simp

lemma chain_up:
  "\<lbrakk>\<And>i. i < n \<Longrightarrow> h (a + i * str) = word_of_nat (if Suc i = n then 0 else a + i * str + str);
     a + n * str < 2 ^ 32\<rbrakk> \<Longrightarrow> chain h (if n = 0 then 0 else a) (map (\<lambda>i. a + i * str) [0..<n])"
proof (induction n arbitrary: a)
  case (Suc n)
  have h0: "h a = word_of_nat (if n = 0 then 0 else a + str)" using Suc.prems(1) [of 0] by simp
  have "chain h (if n = 0 then 0 else a + str) (map (\<lambda>i. a + str + i * str) [0..<n])"
  proof (rule Suc.IH)
    fix i assume "i < n"
    then show "h (a + str + i * str) = word_of_nat (if Suc i = n then 0 else a + str + i * str + str)"
      using Suc.prems(1) [of "Suc i"] by (simp add: algebra_simps)
  qed (use Suc.prems(2) in simp)
  moreover have "unat (h a) = (if n = 0 then 0 else a + str)"
    using h0 Suc.prems(2) by (cases n) (simp_all add: unat_of_small del: of_nat_add)
  moreover have "map (\<lambda>i. a + i * str) [0..<Suc n] = a # map (\<lambda>i. a + str + i * str) [0..<n]"
    by (simp only: upt_conv_Cons [OF zero_less_Suc] map_Suc_upt [symmetric] list.map map_map) (simp add: comp_def algebra_simps)
  ultimately show ?case by simp
qed simp

lemma mp_link_all_ok:
  assumes "0 < start" "0 < bs" "0 < count" "start + count * (bs + 4) < 2 ^ 32"
    and m: "start_address m = start" "block_size m = bs" "block_list m = start" "block_total_count m = count"
      "block_free_count m = count" "mp_mem m = mp_link_all start (bs + 4) count mem"
  shows "mp_rep m (map (\<lambda>i. start + i * (bs + 4)) [0..<count])"
proof -
  let ?str = "bs + 4"
  have "count \<le> count * ?str" by simp
  then have c32: "count < 2 ^ 32" using assms(4) by linarith
  have "(count - 1) * ?str \<le> count * ?str" by (intro mult_le_mono1) simp
  then have "start + (count - 1) * ?str < 2 ^ 32" using assms(4) by linarith
  then have la: "mp_at start ?str (sub32 count 1) = start + (count - 1) * ?str"
    using assms(3) c32 unfolding mp_at_def by (subst sub32_small) (simp, simp, rule mod_less)
  have h: "mp_mem m (start + i * ?str) = word_of_nat (if Suc i = count then 0 else start + i * ?str + ?str)"
    if "i < count" for i
  proof -
    have "start + i * ?str = start + (count - 1) * ?str \<longleftrightarrow> Suc i = count" using that assms(3) by auto
    moreover have "\<exists>j<count. start + i * ?str = start + j * ?str" using that by blast
    ultimately show ?thesis
      unfolding m(6) mp_link_all_def Let_def la using link_fold [of ?str start count count mem] assms(4) by simp
  qed
  have "chain (mp_mem m) (if count = 0 then 0 else start) (map (\<lambda>i. start + i * ?str) [0..<count])"
    by (rule chain_up [OF h assms(4)])
  moreover have "distinct (map (\<lambda>i. start + i * ?str) [0..<count])" by (simp add: distinct_map inj_on_def)
  moreover have "mp_blocks m = set (map (\<lambda>i. start + i * ?str) [0..<count])"
    using m(1,2,4) by (simp add: mp_blocks_def stride_def lessThan_atLeast0)
  ultimately show ?thesis unfolding mp_rep_def using assms m by (simp add: stride_def)
qed

text \<open>A new pool.  With an area that does not wrap around the address space and room for at
  least one block, \<^verbatim>\<open>rt_mp_init\<close> makes a pool in which all blocks are free, in
  address order; the blocks lie inside the area, behind one header word each, and fewer bytes than one
  block and its header are wasted.\<close>

lemma rt_mp_init_correct:
  assumes "0 < start" "start + sz < 2 ^ 32" "0 < bs" "bs \<le> 2 ^ 32 - 8" "4 * ((bs + 3) div 4) + 4 \<le> 4 * (sz div 4)"
    and obj: "rt_object_init (OMemPool i) RT_Object_Class_MemPool name s = Inr s'"
  shows "\<exists>m s'. rt_mp_init i mp name start sz bs mem s = Inr (m, s') \<and> mp_inv m \<and> block_size m = 4 * ((bs + 3) div 4)
    \<and> mp_free_list m = map (\<lambda>k. start + k * stride m) [0..<block_total_count m] \<and> 0 < block_total_count m
    \<and> start + block_total_count m * stride m \<le> start + sz \<and> sz < block_total_count m * stride m + stride m + 4
    \<and> queues s' (QSuspend (OMemPool i)) = []"
proof -
  define b where "b = 4 * ((bs + 3) div 4)"
  define z where "z = 4 * (sz div 4)"
  have ab: "align4 bs = b" using assms(4) by (simp add: align4_small b_def)
  have z: "unat (RT_ALIGN_DOWN (word_of_nat sz) 4) = z"
    unfolding RT_ALIGN_DOWN_def using unat_and_not_small [of sz] assms(2) by (simp add: z_def)
  have zs: "z \<le> sz" "sz < z + 4" "b + 4 \<le> z" using assms(5) unfolding z_def b_def by simp_all
  have b0: "0 < b" using assms(3) unfolding b_def by simp
  have st: "add32 b 4 = b + 4" using zs assms(2) by simp
  let ?n = "z div (b + 4)"
  have n0: "0 < ?n" using zs(3) by (simp add: div_greater_zero_iff)
  have nz: "?n * (b + 4) \<le> z" "z < ?n * (b + 4) + (b + 4)" using dividend_less_div_times [of "b + 4" z] by simp_all
  let ?m = "\<lparr>mp_id = i, mp_self = mp, start_address = start, mp_size = z, block_size = b, block_list = start,
     block_total_count = ?n, block_free_count = ?n, mp_mem = mp_link_all start (b + 4) ?n mem\<rparr>"
  have n32: "start + ?n * (b + 4) < 2 ^ 32" using nz(1) zs assms(2) by linarith
  have r: "mp_rep ?m (map (\<lambda>k. start + k * (b + 4)) [0..<?n])"
    by (rule mp_link_all_ok [OF assms(1) b0 n0 n32]) simp_all
  have "rt_mp_init i mp name start sz bs mem s = Inr (?m, ipc_object_init (OMemPool i) s')"
    using assms(1,3) obj z zs b0 unfolding rt_mp_init_def Let_def z ab st by simp
  moreover have "mp_inv ?m" using r by (auto simp: mp_inv_def)
  moreover have "?n * (b + 4) \<le> sz" "sz < ?n * (b + 4) + (b + 4) + 4" using nz zs by linarith+
  ultimately show ?thesis
    unfolding b_def [symmetric] using mp_free_list [OF r] n0
    by (intro exI [of _ ?m] exI [of _ "ipc_object_init (OMemPool i) s'"]) (simp add: stride_def ipc_object_init_def)
qed

text \<open>An area too small for one block is not refused: \<^verbatim>\<open>rt_mp_init\<close> writes
  the end mark of the list in front of the area, leaves the list pointing at the area, and returns.\<close>

lemma rt_mp_init_underflow:
  assumes "rt_mp_init i mp name start sz bs mem s = Inr (m, s')" "block_total_count m = 0"
    and "block_size m + 4 \<le> start" "start < 2 ^ 32"
  shows "mp_mem m = mem(start - (block_size m + 4) := 0) \<and> block_list m = start"
proof -
  let ?b = "align4 bs"
  have i: "add32 ?b 4 \<noteq> 0" "start_address m = start" "block_size m = ?b" "block_list m = start"
    "mp_mem m = mp_link_all start (add32 ?b 4) (block_total_count m) mem"
    using assms(1) by (auto simp: rt_mp_init_def assert_then_def bind_res_eq_Inr Let_def split: if_splits)
  have b: "?b + 4 \<le> start" using assms(3) i(3) by simp
  then have s: "add32 ?b 4 = ?b + 4" using assms(4) by simp
  let ?str = "?b + 4"
  have "(start + (2 ^ 32 - 1) * ?str) mod 2 ^ 32 = start - ?str"
  proof -
    have "start + (2 ^ 32 - 1) * ?str = (start - ?str) + ?str * 2 ^ 32" using b by (simp add: algebra_simps)
    then show ?thesis using assms(4) by (simp only: mod_mult_self1) simp
  qed
  then have "mp_at start ?str (sub32 0 1) = start - ?str" by (simp add: mp_at_def sub32_def)
  then show ?thesis using i(4) i(5) assms(2) s i(3) by (simp add: mp_link_all_def)
qed

section \<open>Allocation and release in the running kernel\<close>

text \<open>Waking the first waiter directly, with its error code.\<close>

lemma wake_thread_ok:
  assumes r: "running s c" and q: "waits_in q" and t: "queues s q = t # rest"
  obtains s1 s2 where "rt_thread_resume t s = Inr (RT_EOK, s1)" "rt_schedule s1 = Inr s2" "kinv s2" "ipc_same s2 s"
    "woke_first q s s2" "error (threads s2 t) = error (threads s t)"
    "\<And>q'. q' \<noteq> q \<Longrightarrow> \<forall>p. q' \<noteq> QReady p \<Longrightarrow> queues s2 q' = queues s q'"
proof -
  note d = runningD [OF r]
  obtain s2 where s2: "ipc_wake q s = Inr s2" "kinv s2" "ipc_same s2 s" "woke_first q s s2"
    "\<And>q'. q' \<noteq> q \<Longrightarrow> \<forall>p. q' \<noteq> QReady p \<Longrightarrow> queues s2 q' = queues s q'"
    by (rule wake_first_ok [OF r q]) blast
  have st: "tstat s t = RT_THREAD_SUSPEND" using waiter_suspended [OF d(1) q, of t] t by simp
  obtain s1 where s1: "rt_thread_resume t s = Inr (RT_EOK, s1)" "loose_kinv {} s1" "cur s1 = cur s"
    "threads s1 t = (threads s t)\<lparr>stat := stat (threads s1 t)\<rparr>"
    "\<And>u. u \<noteq> t \<Longrightarrow> threads s1 u = threads s u"
    by (rule resume_ok [OF d(1) st]) blast
  have sc: "rt_schedule s1 = Inr s2"
    using s2(1) t s1(1) by (simp add: ipc_wake_def ipc_list_resume_def)
  have tc: "t \<noteq> c" using st d(3) by auto
  have c1: "cur s1 = Some c" "tstat s1 c \<noteq> RT_THREAD_READY" using s1(3) s1(5) [of c] d tc by simp_all
  obtain s2' where "rt_schedule s1 = Inr s2'" "sched_frame s1 s2'" by (rule schedule_ok [OF s1(2) c1]) blast
  then have f: "sched_frame s1 s2" using sc by simp
  have "error (threads s1 t) = error (threads s t)"
    using s1(4) by (metis thread.ext_inject thread.surjective thread.update_convs(1))
  then have "error (threads s2 t) = error (threads s t)" using sched_frame_error [OF f] by simp
  then show thesis using that s1(1) sc s2(2-5) by blast
qed

lemma mp_alloc_loop_ok:
  assumes r: "running s c" and i: "mp_inv m" and t: "time < 0x7fffffff"
  shows "\<exists>r m' s'. mp_alloc_loop (Some c) time m s = Inr (r, m', s') \<and> kinv s' \<and> mp_inv m' \<and>
    (case mp_free_list m of
       b # fl \<Rightarrow> r = Return (Some (b + 4)) \<and> s' = s \<and> b \<in> mp_blocks m \<and> mp_free_list m' = fl
         \<and> mp_blocks m' = mp_blocks m \<and> mp_mem m' = (mp_mem m)(b := mp_self m)
     | [] \<Rightarrow> m' = m \<and> ipc_same s' s \<and>
         (if time = 0 then r = Return None \<and> rt_get_errno s' = - RT_ETIMEOUT
          else r = Blocked \<and> waiting_at (QSuspend (OMemPool (mp_id m))) ((#) c) c s s'))"
proof (cases "mp_free_list m")
  case (Cons b fl)
  have rp: "mp_rep m (b # fl)" using mp_inv_rep [OF i] Cons by simp
  obtain m' where m': "mp_get m = Inr (b + 4, m')" "mp_rep m' fl" "mp_blocks m' = mp_blocks m"
    "mp_mem m' = (mp_mem m)(b := mp_self m)"
    by (rule mp_get_ok [OF rp]) blast
  have "mp_alloc_loop (Some c) time m s = Inr (Return (Some (b + 4)), m', s)"
    using m'(1) free_count [OF i] Cons by (simp add: mp_alloc_loop_def)
  moreover have "b \<in> mp_blocks m" using rp by (simp add: mp_rep_def)
  moreover have "kinv s" using r by (simp add: running_def)
  ultimately show ?thesis using Cons m'(3,4) mp_free_list [OF m'(2)] m'(2) by (auto simp: mp_inv_def)
next
  case Nil
  have z: "block_free_count m = 0" using free_count [OF i] Nil by simp
  note d = runningD [OF r]
  show ?thesis
  proof (cases "time = 0")
    case True
    have "running (rt_set_errno (- RT_ETIMEOUT) s) c" by (rule running_set_errno [OF r])
    moreover have "ipc_same (rt_set_errno (- RT_ETIMEOUT) s) s"
      using d(5,7) same_stat(2) by (simp add: rt_set_errno_def)
    ultimately show ?thesis using True z Nil i rt_errno_roundtrip by (auto simp: mp_alloc_loop_def running_def)
  next
    case False
    let ?q = "QSuspend (OMemPool (mp_id m))" and ?s0 = "reset_error c s"
    have r0: "running ?s0 c" by (rule running_reset_error [OF r])
    obtain s' where s': "block_in ?q ((#) c) c time ?s0 = Inr s'" "kinv s'" "ipc_same s' ?s0"
      "waiting_at ?q ((#) c) c ?s0 s'"
      by (rule block_in_ok [OF r0 _ _ t, of ?q "(#) c"]) simp_all
    have "ipc_same ?s0 s" unfolding reset_error_def by (rule same_stat(2))
    then have "ipc_same s' s" by (rule ipc_same_trans [OF s'(3)])
    moreover have "mp_alloc_loop (Some c) time m s = Inr (Blocked, m, s')"
      using z False d(5) s'(1) by (simp add: mp_alloc_loop_def RT_DEBUG_NOT_IN_INTERRUPT_def)
    moreover have "waiting_at ?q ((#) c) c s s'" using s'(4) by (simp add: waiting_at_def)
    ultimately show ?thesis using False Nil i s'(2) by auto
  qed
qed

text \<open>C36: allocating from a pool.  In thread context \<^verbatim>\<open>rt_mp_alloc\<close> never
  faults: with a free block it hands out the first of the free list, whose header then names the pool, and
  touches nothing else; with none and no timeout it sets the error number and returns NULL; otherwise the
  caller waits, in front of the earlier waiters (the list is last in, first out), and a most urgent thread
  runs.  A waiter that is woken with no error takes a block on the same terms.\<close>

theorem rt_mp_alloc_correct:
  assumes "running s c" "mp_inv m" "time < 0x7fffffff"
  shows "(\<exists>r m' s'. rt_mp_alloc time m s = Inr (r, m', s') \<and> kinv s' \<and> mp_inv m' \<and>
    (case mp_free_list m of
       b # fl \<Rightarrow> r = Return (Some (b + 4)) \<and> s' = s \<and> b \<in> mp_blocks m \<and> mp_free_list m' = fl
         \<and> mp_blocks m' = mp_blocks m \<and> mp_mem m' = (mp_mem m)(b := mp_self m)
     | [] \<Rightarrow> m' = m \<and> ipc_same s' s \<and>
         (if time = 0 then r = Return None \<and> rt_get_errno s' = - RT_ETIMEOUT
          else r = Blocked \<and> waiting_at (QSuspend (OMemPool (mp_id m))) ((#) c) c s s')))
    \<and> (error (threads s c) = RT_EOK \<and> mp_free_list m \<noteq> [] \<longrightarrow>
      (\<exists>m'. rt_mp_alloc_resume c time before m s = Inr (Return (Some (hd (mp_free_list m) + 4)), m', s)
        \<and> mp_free_list m' = tl (mp_free_list m)))"
proof (intro conjI impI)
  show "\<exists>r m' s'. rt_mp_alloc time m s = Inr (r, m', s') \<and> kinv s' \<and> mp_inv m' \<and>
    (case mp_free_list m of
       b # fl \<Rightarrow> r = Return (Some (b + 4)) \<and> s' = s \<and> b \<in> mp_blocks m \<and> mp_free_list m' = fl
         \<and> mp_blocks m' = mp_blocks m \<and> mp_mem m' = (mp_mem m)(b := mp_self m)
     | [] \<Rightarrow> m' = m \<and> ipc_same s' s \<and>
         (if time = 0 then r = Return None \<and> rt_get_errno s' = - RT_ETIMEOUT
          else r = Blocked \<and> waiting_at (QSuspend (OMemPool (mp_id m))) ((#) c) c s s'))"
    unfolding rt_mp_alloc_def runningD(7) [OF assms(1)] by (rule mp_alloc_loop_ok [OF assms])
  assume e: "error (threads s c) = RT_EOK \<and> mp_free_list m \<noteq> []"
  then obtain b fl where fl: "mp_free_list m = b # fl" by (cases "mp_free_list m") auto
  have z: "block_free_count m \<noteq> 0" using free_count [OF assms(2)] fl by simp
  show "\<exists>m'. rt_mp_alloc_resume c time before m s = Inr (Return (Some (hd (mp_free_list m) + 4)), m', s)
        \<and> mp_free_list m' = tl (mp_free_list m)"
    using mp_alloc_loop_ok [OF assms] e fl z by (auto simp: rt_mp_alloc_resume_def mp_alloc_loop_def)
qed

text \<open>Giving a block back.  The address of a block in use is accepted without a fault; the
  block becomes the first free one and no other memory changes.  If threads wait, the first of the list is
  woken with no error and its timer stopped, and a most urgent thread runs.\<close>

lemma rt_mp_free_correct:
  assumes "running s c" "mp_inv m" "b \<in> mp_blocks m" "b \<notin> set (mp_free_list m)"
  shows "\<exists>m' s'. rt_mp_free (Some (b + 4)) m s = Inr (m', s') \<and> kinv s' \<and> ipc_same s' s \<and> mp_inv m'
    \<and> mp_free_list m' = b # mp_free_list m \<and> mp_blocks m' = mp_blocks m
    \<and> (\<forall>a. a \<noteq> b \<longrightarrow> mp_mem m' a = mp_mem m a)
    \<and> woke_first (QSuspend (OMemPool (mp_id m))) s s'
    \<and> (\<forall>t rest. queues s (QSuspend (OMemPool (mp_id m))) = t # rest \<longrightarrow> error (threads s' t) = RT_EOK)"
proof -
  let ?q = "QSuspend (OMemPool (mp_id m))"
  note rp = mp_inv_rep [OF assms(2)]
  note p = mp_put_ok [OF rp assms(3,4)] and a = mp_block_addr [OF rp assms(3)]
  have h: "mp_mem m b = mp_self m" using rp assms(3,4) by (auto simp: mp_rep_def)
  have ptr: "sub32 (b + 4) 4 = b" using a(3) by simp
  have f: "mp_free_list (mp_put b m) = b # mp_free_list m" "mp_inv (mp_put b m)" "mp_id (mp_put b m) = mp_id m"
    "\<And>x. x \<noteq> b \<Longrightarrow> mp_mem (mp_put b m) x = mp_mem m x"
    using mp_free_list [OF p(1)] p(1) by (auto simp: mp_inv_def mp_put_def Let_def)
  show ?thesis
  proof (cases "queues s ?q")
    case Nil
    have "rt_mp_free (Some (b + 4)) m s = Inr (mp_put b m, s)"
      using Nil h ptr f(3) by (simp add: rt_mp_free_def Let_def)
    then show ?thesis using Nil f p(2) assms(1) by (auto simp: running_def woke_first_def)
  next
    case (Cons t rest)
    let ?s0 = "reset_error t s"
    have r0: "running ?s0 c" by (rule running_reset_error [OF assms(1)])
    have q0: "queues ?s0 ?q = t # rest" using Cons by simp
    obtain s1 s2 where s2: "rt_thread_resume t ?s0 = Inr (RT_EOK, s1)" "rt_schedule s1 = Inr s2" "kinv s2" "ipc_same s2 ?s0"
      "woke_first ?q ?s0 s2" "error (threads s2 t) = error (threads ?s0 t)"
      by (rule wake_thread_ok [OF r0 _ q0]) simp_all
    have "ipc_same ?s0 s" unfolding reset_error_def by (rule same_stat(2))
    then have sm: "ipc_same s2 s" by (rule ipc_same_trans [OF s2(4)])
    have e: "error (threads s2 t) = RT_EOK" using s2(6) by (simp add: reset_error_def upd_thread_def)
    have "rt_mp_free (Some (b + 4)) m s = Inr (mp_put b m, s2)"
      using Cons h ptr f(3) s2(1,2) by (simp add: rt_mp_free_def Let_def)
    moreover have "woke_first ?q s s2" using s2(5) by (simp add: woke_first_def)
    ultimately show ?thesis using Cons f p(2) s2(3) sm e by auto
  qed
qed

text \<open>C35: clients of a pool.  Over any sequence of allocations and releases by clients that
  give back only what they hold, the held blocks are distinct blocks of the pool, none of them is free, and
  held and free blocks together are all blocks: nothing is handed out twice and nothing is lost.\<close>

theorem mp_history_safe:
  assumes "mp_inv m" "mp_free_areas m = mp_areas m" "mpp.run ops [] m = (held, m')"
  shows "mp_inv m' \<and> distinct held \<and> set held \<inter> mp_free_areas m' = {} \<and> set held \<union> mp_free_areas m' = mp_areas m"
proof -
  have "mpp.split [] m" using assms(1,2) by (simp add: mpp.split_def)
  from mpp.run_safe [OF this assms(3)] show ?thesis by (auto simp: mpp.split_def)
qed

section \<open>Examples\<close>

text \<open>Two blocks of eight bytes at 0x100; the pool of which the first is in use.\<close>

definition demo_mp :: mempool where
  "demo_mp = \<lparr>mp_id = 0, mp_self = 0x80, start_address = 0x100, mp_size = 24, block_size = 8, block_list = 0x100,
     block_total_count = 2, block_free_count = 2, mp_mem = (\<lambda>_. 0)(0x100 := 0x10c)\<rparr>"

definition demo_mp1 :: mempool where
  "demo_mp1 = demo_mp\<lparr>block_list := 0x10c, block_free_count := 1, mp_mem := (\<lambda>_. 0)(0x100 := 0x80)\<rparr>"

lemma demo_mp_blocks: "mp_blocks demo_mp = {0x100, 0x10c}" "mp_blocks demo_mp1 = {0x100, 0x10c}"
proof -
  have "{..<2::nat} = {0, 1}" by auto
  then show "mp_blocks demo_mp = {0x100, 0x10c}" "mp_blocks demo_mp1 = {0x100, 0x10c}"
    by (simp_all add: mp_blocks_def demo_mp_def demo_mp1_def stride_def)
qed

lemma demo_mp_rep: "mp_rep demo_mp [0x100, 0x10c]" "mp_rep demo_mp1 [0x10c]"
  unfolding mp_rep_def demo_mp_blocks by (auto simp: demo_mp_def demo_mp1_def stride_def)

lemma demo_mp: "mp_inv demo_mp" "mp_inv demo_mp1" "mp_free_list demo_mp = [0x100, 0x10c]" "mp_free_list demo_mp1 = [0x10c]"
  using demo_mp_rep mp_free_list [OF demo_mp_rep(1)] mp_free_list [OF demo_mp_rep(2)] by (auto simp: mp_inv_def)

lemma rt_mp_init_correct_example:
  "\<exists>m s'. rt_mp_init 0 0x80 [112, 0] 0x100 30 5 (\<lambda>_. 0) demo_kernel = Inr (m, s') \<and> mp_inv m \<and> block_size m = 8"
proof -
  have "schedulable demo_kernel"
    using demo_sched_inv by (auto simp: schedulable_def demo_cur demo_stat)
  then obtain s' where s': "rt_object_init (OMemPool 0) RT_Object_Class_MemPool [112, 0] demo_kernel = Inr s'"
    using object_init_runs [of demo_kernel RT_Object_Class_MemPool "OMemPool 0" "[112, 0]"]
    by (auto simp: rt_object_get_information_def) (auto simp: demo_kernel_def)
  show ?thesis
    using rt_mp_init_correct [of "0x100" 30 5, OF _ _ _ _ _ s', of "0x80" "\<lambda>_. 0"] by simp blast
qed

lemma rt_mp_init_underflow_example:
  "\<exists>m s'. rt_mp_init 0 0x80 [112, 0] 0x100 4 5 (\<lambda>_. 7) demo_kernel = Inr (m, s') \<and> mp_mem m 0xf4 = 0"
proof -
  have "schedulable demo_kernel"
    using demo_sched_inv by (auto simp: schedulable_def demo_cur demo_stat)
  then obtain s' where s': "rt_object_init (OMemPool 0) RT_Object_Class_MemPool [112, 0] demo_kernel = Inr s'"
    using object_init_runs [of demo_kernel RT_Object_Class_MemPool "OMemPool 0" "[112, 0]"]
    by (auto simp: rt_object_get_information_def) (auto simp: demo_kernel_def)
  have "unat (RT_ALIGN_DOWN (word_of_nat 4) 4) = 4" using unat_and_not_small [of 4] by (simp add: RT_ALIGN_DOWN_def)
  then have "\<exists>m s'. rt_mp_init 0 0x80 [112, 0] 0x100 4 5 (\<lambda>_. 7) demo_kernel = Inr (m, s') \<and> block_total_count m = 0
      \<and> block_size m = 8"
    using s' by (simp add: rt_mp_init_def Let_def align4_eq)
  then obtain m t where m: "rt_mp_init 0 0x80 [112, 0] 0x100 4 5 (\<lambda>_. 7) demo_kernel = Inr (m, t)"
    "block_total_count m = 0" "block_size m = 8" by blast
  show ?thesis using rt_mp_init_underflow [OF m(1,2)] m by simp
qed

theorem rt_mp_alloc_correct_witness:
  "\<exists>m' s'. rt_mp_alloc 5 demo_mp demo_kernel = Inr (Return (Some 0x104), m', s') \<and> mp_free_list m' = [0x10c]"
  using rt_mp_alloc_correct [OF demo_running demo_mp(1), of 5 0] demo_mp(3) by simp blast

lemma rt_mp_free_correct_example:
  "\<exists>m' s'. rt_mp_free (Some 0x104) demo_mp1 (demo_wait (QSuspend (OMemPool 0)) id) = Inr (m', s')
     \<and> mp_free_list m' = [0x100, 0x10c] \<and> error (threads s' 3) = RT_EOK"
proof -
  have r: "running (demo_wait (QSuspend (OMemPool 0)) id) 1" by (rule demo_wait_running) simp_all
  have "mp_id demo_mp1 = 0" by (simp add: demo_mp1_def demo_mp_def)
  then show ?thesis
    using rt_mp_free_correct [OF r demo_mp(2), of "0x100"] demo_mp(4) demo_mp_blocks(2) by (auto simp: demo_wait_fields)
qed

theorem mp_history_safe_witness:
  "case mpp.run [Take, Take, GiveBack 1, Take] [] demo_mp of (held, m') \<Rightarrow>
     distinct held \<and> set held \<union> mp_free_areas m' = {0x104, 0x110}"
proof -
  have a: "mp_areas demo_mp = {0x104, 0x110}" by (simp add: mp_areas_def demo_mp_blocks)
  have f: "mp_free_areas demo_mp = mp_areas demo_mp" unfolding a by (simp add: mp_free_areas_def demo_mp)
  obtain held m' where r: "mpp.run [Take, Take, GiveBack 1, Take] [] demo_mp = (held, m')" by fastforce
  show ?thesis using mp_history_safe [OF demo_mp(1) f r] unfolding r a by simp
qed

end
