(* ===== verification/Event.thy ===== *)
theory Event
  imports IpcWake
begin

text \<open>
  Event sets, \<^verbatim>\<open>rt_event_init\<close> to \<^verbatim>\<open>rt_event_control\<close> of
  \<^verbatim>\<open>rt-thread/src/ipc.c\<close>.  A waiting thread's request is in its control block
  (\<open>event_set\<close>, \<open>event_info\<close>).
\<close>

section \<open>Operations\<close>

abbreviation (input) RT_EVENT_FLAG_AND :: u8 where "RT_EVENT_FLAG_AND \<equiv> 0x01"
abbreviation (input) RT_EVENT_FLAG_OR :: u8 where "RT_EVENT_FLAG_OR \<equiv> 0x02"
abbreviation (input) RT_EVENT_FLAG_CLEAR :: u8 where "RT_EVENT_FLAG_CLEAR \<equiv> 0x04"

definition event_setup :: "nat \<Rightarrow> u8 \<Rightarrow> kernel \<Rightarrow> kernel" where
  "event_setup n flag s =
     (let s = upd_obj (OEvent n) (\<lambda>x. x\<lparr>obj_flag := flag\<rparr>) s;
          s = ipc_object_init (OEvent n) s
      in s\<lparr>events := (events s)(n := 0)\<rparr>)"

definition rt_event_init :: "nat \<Rightarrow> u8 list \<Rightarrow> u8 \<Rightarrow> kernel \<Rightarrow> (int \<times> kernel) res" where
  "rt_event_init n name flag s =
     assert_then (flag = RT_IPC_FLAG_FIFO \<or> flag = RT_IPC_FLAG_PRIO) (
     bind_res (rt_object_init (OEvent n) RT_Object_Class_Event name s) (\<lambda>s.
       Inr (RT_EOK, event_setup n flag s)))"

definition rt_event_detach :: "nat \<Rightarrow> kernel \<Rightarrow> (int \<times> kernel) res" where
  "rt_event_detach n s =
     assert_then (rt_object_get_type (OEvent n) s = RT_Object_Class_Event) (
     assert_then (rt_object_is_systemobject (OEvent n) s) (
     bind_res (ipc_list_resume_all (QSuspend (OEvent n)) s) (\<lambda>s.
       Inr (RT_EOK, rt_object_detach (OEvent n) s))))"

definition rt_event_create :: "nat option \<Rightarrow> u8 list \<Rightarrow> u8 \<Rightarrow> kernel \<Rightarrow> (nat option \<times> kernel) res" where
  "rt_event_create block name flag s =
     assert_then (flag = RT_IPC_FLAG_FIFO \<or> flag = RT_IPC_FLAG_PRIO) (
     assert_then (RT_DEBUG_NOT_IN_INTERRUPT s) (
     bind_res (rt_object_allocate (map_option OEvent block) RT_Object_Class_Event name s) (\<lambda>(_, s).
       case block of None \<Rightarrow> Inr (None, s) | Some n \<Rightarrow> Inr (Some n, event_setup n flag s))))"

definition rt_event_delete :: "nat \<Rightarrow> kernel \<Rightarrow> (int \<times> kernel) res" where
  "rt_event_delete n s =
     assert_then (rt_object_get_type (OEvent n) s = RT_Object_Class_Event) (
     assert_then (\<not> rt_object_is_systemobject (OEvent n) s) (
     assert_then (RT_DEBUG_NOT_IN_INTERRUPT s) (
     bind_res (ipc_list_resume_all (QSuspend (OEvent n)) s) (\<lambda>s.
     bind_res (rt_object_delete (OEvent n) s) (\<lambda>s. Inr (RT_EOK, s))))))"

text \<open>The walk along the waiters.  The node of a resumed thread leaves the list only after the
  walk has moved on, so the walk is along the list as it was.  The flag is
  \<^verbatim>\<open>need_schedule\<close>; Some result is an early return.\<close>

fun event_send_loop :: "nat \<Rightarrow> tid list \<Rightarrow> bool \<Rightarrow> kernel \<Rightarrow> (int option \<times> bool \<times> kernel) res" where
  "event_send_loop n [] need_schedule s = Inr (None, need_schedule, s)"
| "event_send_loop n (thread # ts) need_schedule s =
     (let th = threads s thread in
      if event_info th AND RT_EVENT_FLAG_AND = 0 \<and> event_info th AND RT_EVENT_FLAG_OR = 0
      then Inr (Some (- RT_EINVAL), need_schedule, s)
      else
        let (status, s) =
          (if event_info th AND RT_EVENT_FLAG_AND \<noteq> 0
           then (event_set th AND events s n = event_set th, s)
           else if event_set th AND events s n \<noteq> 0
             then (True, upd_thread thread (\<lambda>th. th\<lparr>event_set := event_set th AND events s n\<rparr>) s)
           else (False, s))
        in if status then
             let th = threads s thread;
                 s = (if event_info th AND RT_EVENT_FLAG_CLEAR \<noteq> 0
                      then s\<lparr>events := (events s)(n := events s n AND NOT (event_set th))\<rparr> else s)
             in bind_res (rt_thread_resume thread s) (\<lambda>(_, s). event_send_loop n ts True s)
           else event_send_loop n ts need_schedule s)"

definition rt_event_send :: "nat \<Rightarrow> u32 \<Rightarrow> kernel \<Rightarrow> (int \<times> kernel) res" where
  "rt_event_send n eset s =
     assert_then (rt_object_get_type (OEvent n) s = RT_Object_Class_Event) (
     if eset = 0 then Inr (- RT_ERROR, s)
     else
       let s = s\<lparr>events := (events s)(n := events s n OR eset)\<rparr>
       in bind_res (event_send_loop n (queues s (QSuspend (OEvent n))) False s)
            (\<lambda>(ret, need_schedule, s).
          case ret of Some r \<Rightarrow> Inr (r, s)
          | None \<Rightarrow>
            bind_res (if need_schedule then rt_schedule s else Inr s) (\<lambda>s. Inr (RT_EOK, s))))"

text \<open>Receiving, up to the switch to another thread; the received eset is part of the result when
  the call returns at once.\<close>

definition rt_event_recv :: "nat \<Rightarrow> u32 \<Rightarrow> u8 \<Rightarrow> int \<Rightarrow> kernel \<Rightarrow> (int outcome \<times> u32 option \<times> kernel) res" where
  "rt_event_recv n eset option timeout s =
     assert_then (rt_object_get_type (OEvent n) s = RT_Object_Class_Event) (
     assert_then (RT_DEBUG_SCHEDULER_AVAILABLE True s) (
     if eset = 0 then Inr (Return (- RT_ERROR), None, s)
     else case rt_thread_self s of None \<Rightarrow> Inl NullDeref
     | Some thread \<Rightarrow>
       let s = upd_thread thread (\<lambda>th. th\<lparr>error := RT_EOK\<rparr>) s
       in assert_then (option AND RT_EVENT_FLAG_AND \<noteq> 0 \<or> option AND RT_EVENT_FLAG_OR \<noteq> 0) (
          if (if option AND RT_EVENT_FLAG_AND \<noteq> 0 then events s n AND eset = eset
              else events s n AND eset \<noteq> 0) then
            let recved = events s n AND eset;
                s = upd_thread thread (\<lambda>th. th\<lparr>event_set := recved, event_info := option\<rparr>) s;
                s = (if option AND RT_EVENT_FLAG_CLEAR \<noteq> 0
                     then s\<lparr>events := (events s)(n := events s n AND NOT eset)\<rparr> else s)
            in Inr (Return (error (threads s thread)), Some recved, s)
          else if timeout = 0
            then Inr (Return (- RT_ETIMEOUT), None, upd_thread thread (\<lambda>th. th\<lparr>error := - RT_ETIMEOUT\<rparr>) s)
          else
            let s = upd_thread thread (\<lambda>th. th\<lparr>event_set := eset, event_info := option\<rparr>) s
            in bind_res (ipc_list_suspend (QSuspend (OEvent n)) thread (obj_flag (objs s (OEvent n))) s) (\<lambda>s.
               bind_res (arm_timeout thread timeout s) (\<lambda>s.
               bind_res (rt_schedule s) (\<lambda>s. Inr (Blocked, None, s)))))))"

definition rt_event_recv_resume :: "tid \<Rightarrow> kernel \<Rightarrow> int \<times> u32 option" where
  "rt_event_recv_resume thread s =
     (let th = threads s thread
      in if error th \<noteq> RT_EOK then (error th, None) else (error th, Some (event_set th)))"

definition rt_event_control :: "nat \<Rightarrow> int \<Rightarrow> kernel \<Rightarrow> (int \<times> kernel) res" where
  "rt_event_control n cmd s =
     assert_then (rt_object_get_type (OEvent n) s = RT_Object_Class_Event) (
     if cmd = 1 then
       bind_res (ipc_list_resume_all (QSuspend (OEvent n)) s) (\<lambda>s.
       bind_res (rt_schedule (s\<lparr>events := (events s)(n := 0)\<rparr>)) (\<lambda>s. Inr (RT_EOK, s)))
     else Inr (- RT_ERROR, s))"

section \<open>What sending means\<close>

text \<open>A request is met by an event set: all its bits for an AND request, one of them for an OR
  request.\<close>

definition met :: "thread \<Rightarrow> u32 \<Rightarrow> bool" where
  "met th v \<longleftrightarrow> (if event_info th AND RT_EVENT_FLAG_AND \<noteq> 0 then event_set th AND v = event_set th
                else event_set th AND v \<noteq> 0)"

text \<open>What the waiter is given, and what is left of the event set.\<close>

definition granted :: "thread \<Rightarrow> u32 \<Rightarrow> u32" where
  "granted th v = event_set th AND v"

definition left_over :: "thread \<Rightarrow> u32 \<Rightarrow> u32" where
  "left_over th v = (if event_info th AND RT_EVENT_FLAG_CLEAR \<noteq> 0 then v AND NOT (granted th v) else v)"

text \<open>The waiters are served in the order of the queue, each with what those before it left.\<close>

fun serve :: "(tid \<Rightarrow> thread) \<Rightarrow> tid list \<Rightarrow> u32 \<Rightarrow> (tid \<times> u32) list \<times> tid list \<times> u32" where
  "serve th [] v = ([], [], v)"
| "serve th (t # ts) v =
     (if met (th t) v
      then let (woken, waiting, v') = serve th ts (left_over (th t) v)
           in ((t, granted (th t) v) # woken, waiting, v')
      else let (woken, waiting, v') = serve th ts v in (woken, t # waiting, v'))"

definition request_ok :: "thread \<Rightarrow> bool" where
  "request_ok th \<longleftrightarrow> event_info th AND RT_EVENT_FLAG_AND \<noteq> 0 \<or> event_info th AND RT_EVENT_FLAG_OR \<noteq> 0"

text \<open>Nobody waits for what is already there.\<close>

definition event_inv :: "kernel \<Rightarrow> bool" where
  "event_inv s \<longleftrightarrow> (\<forall>n. \<forall>t \<in> set (queues s (QSuspend (OEvent n))).
     request_ok (threads s t) \<and> \<not> met (threads s t) (events s n))"

definition event_valid :: "nat \<Rightarrow> kernel \<Rightarrow> bool" where
  "event_valid n s \<longleftrightarrow> rt_object_get_type (OEvent n) s = RT_Object_Class_Event
     \<and> obj_flag (objs s (OEvent n)) \<in> {RT_IPC_FLAG_FIFO, RT_IPC_FLAG_PRIO}"

lemma met_mono: "met th (v AND w) \<Longrightarrow> met th v"
proof -
  assume m: "met th (v AND w)"
  show "met th v"
  proof (cases "event_info th AND RT_EVENT_FLAG_AND \<noteq> 0")
    case True
    then have e: "event_set th AND (v AND w) = event_set th" using m by (simp add: met_def)
    have "bit v n" if "bit (event_set th) n" for n
      using arg_cong [OF e, of "\<lambda>x. bit x n"] that by (simp add: bit_and_iff)
    then have "event_set th AND v = event_set th" by (auto intro: bit_word_eqI simp: bit_simps)
    then show ?thesis using True by (simp add: met_def)
  next
    case False
    then have "event_set th AND (v AND w) \<noteq> 0" using m by (simp add: met_def)
    then have "event_set th AND v \<noteq> 0" by (auto simp flip: and.assoc)
    then show ?thesis using False by (simp add: met_def)
  qed
qed

lemma left_over_mask: "\<exists>w. left_over th v = v AND w"
  by (auto simp: left_over_def intro: exI [of _ "- 1"])

lemma serve_mask: "serve th ts v = (woken, waiting, v') \<Longrightarrow> \<exists>w. v' = v AND w"
proof (induction th ts v arbitrary: woken waiting v' rule: serve.induct)
  case (1 th v)
  then show ?case by (auto intro: exI [of _ "- 1"])
next
  case (2 th t ts v)
  obtain w where w: "left_over (th t) v = v AND w" using left_over_mask by blast
  show ?case
  proof (cases "met (th t) v")
    case True
    obtain a b u where r: "serve th ts (left_over (th t) v) = (a, b, u)" by (cases "serve th ts (left_over (th t) v)")
    then obtain w' where "u = left_over (th t) v AND w'" using 2(1) [OF True r] by blast
    then show ?thesis using 2(3) True r w by (auto simp: and.assoc)
  next
    case False
    obtain a b u where r: "serve th ts v = (a, b, u)" by (cases "serve th ts v")
    then show ?thesis using 2(2) [OF False r] 2(3) False by auto
  qed
qed

lemma serve_waiting:
  "serve th ts v = (woken, waiting, v') \<Longrightarrow> \<forall>t \<in> set waiting. t \<in> set ts \<and> \<not> met (th t) v'"
proof (induction th ts v arbitrary: woken waiting v' rule: serve.induct)
  case (2 th t ts v)
  show ?case
  proof (cases "met (th t) v")
    case True
    obtain a b u where r: "serve th ts (left_over (th t) v) = (a, b, u)" by (cases "serve th ts (left_over (th t) v)")
    then show ?thesis using 2(1) [OF True r] 2(3) True by auto
  next
    case False
    obtain a b u where r: "serve th ts v = (a, b, u)" by (cases "serve th ts v")
    obtain w where "u = v AND w" using serve_mask [OF r] by blast
    then have "\<not> met (th t) u" using False met_mono by blast
    then show ?thesis using 2(2) [OF False r] 2(3) False r by auto
  qed
qed simp

lemma serve_woken: "serve th ts v = (woken, waiting, v') \<Longrightarrow> fst ` set woken \<subseteq> set ts"
proof (induction th ts v arbitrary: woken waiting v' rule: serve.induct)
  case (2 th t ts v)
  obtain a b u where r: "serve th ts (if met (th t) v then left_over (th t) v else v) = (a, b, u)"
    by (cases "serve th ts (if met (th t) v then left_over (th t) v else v)")
  have "fst ` set a \<subseteq> set ts"
    using 2(1) [of a b u] 2(2) [of a b u] r by (cases "met (th t) v") simp_all
  then have "\<forall>x \<in> set a. fst x \<in> set ts" by blast
  then show ?case using 2(3) r by (auto split: if_splits)
qed simp

lemma serve_cong:
  "(\<And>t. t \<in> set ts \<Longrightarrow> th' t = th t) \<Longrightarrow> serve th' ts v = serve th ts v"
  by (induction ts arbitrary: v) auto


section \<open>Sending\<close>

text \<open>One step of the walk.\<close>

lemma K_events: "loose_kinv X (s\<lparr>events := e\<rparr>) = loose_kinv X s"
  by (rule kinv_other_fields)

lemma send_loop_met:
  assumes k: "loose_kinv {} s" and t: "tstat s t = RT_THREAD_SUSPEND" "cur s \<noteq> Some t"
    and ok: "request_ok (threads s t)" and m: "met (threads s t) (events s n)"
  obtains s' where "event_send_loop n (t # ts) ns s = event_send_loop n ts True s'" "loose_kinv {} s'"
    "events s' = (events s)(n := left_over (threads s t) (events s n))"
    "cur s' = cur s" "lock_nest s' = lock_nest s" "tstat s' t = RT_THREAD_READY"
    "event_set (threads s' t) = granted (threads s t) (events s n)" "error (threads s' t) = error (threads s t)"
    "\<And>u. u \<noteq> t \<Longrightarrow> threads s' u = threads s u"
    "\<And>q. \<forall>p. q \<noteq> QReady p \<Longrightarrow> queues s' q = remove1 t (queues s q)"
proof -
  let ?v = "events s n" let ?th = "threads s t"
  let ?and = "event_info ?th AND RT_EVENT_FLAG_AND \<noteq> 0"
  let ?s1 = "if ?and then s else upd_thread t (\<lambda>th. th\<lparr>event_set := event_set th AND ?v\<rparr>) s"
  let ?s2 = "if event_info ?th AND RT_EVENT_FLAG_CLEAR \<noteq> 0
     then ?s1\<lparr>events := (events ?s1)(n := events ?s1 n AND NOT (event_set (threads ?s1 t)))\<rparr> else ?s1"
  have g: "event_set (threads ?s1 t) = granted ?th ?v"
    using m by (auto simp: met_def granted_def upd_thread_def)
  have i1: "event_info (threads ?s1 t) = event_info ?th" "events ?s1 = events s" by (simp_all add: upd_thread_def)
  have step: "event_send_loop n (t # ts) ns s =
      bind_res (rt_thread_resume t ?s2) (\<lambda>(_, s). event_send_loop n ts True s)"
    using ok m i1 unfolding request_ok_def met_def by (auto simp: Let_def)
  have "loose_kinv {} (upd_thread t (\<lambda>th. th\<lparr>event_set := event_set th AND ?v\<rparr>) s)"
    using k by (rule K_upd_other) simp_all
  then have k2: "loose_kinv {} ?s2" using k by (simp add: K_events)
  have f2: "events ?s2 = (events s)(n := left_over ?th ?v)" "tstat ?s2 t = RT_THREAD_SUSPEND"
    "cur ?s2 = cur s" "lock_nest ?s2 = lock_nest s" "event_set (threads ?s2 t) = granted ?th ?v"
    "error (threads ?s2 t) = error ?th" "\<And>u. u \<noteq> t \<Longrightarrow> threads ?s2 u = threads s u" "queues ?s2 = queues s"
    using t g by (auto simp: left_over_def upd_thread_def i1)
  obtain s' where s': "rt_thread_resume t ?s2 = Inr (RT_EOK, s')" "loose_kinv {} s'"
    "tstat s' t = (if cur ?s2 = Some t then RT_THREAD_RUNNING else RT_THREAD_READY)"
    "\<And>q. (\<forall>p. q \<noteq> QReady p) \<Longrightarrow> queues s' q = remove1 t (queues ?s2 q)"
    "cur s' = cur ?s2" "lock_nest s' = lock_nest ?s2"
    "\<And>u. u \<noteq> t \<Longrightarrow> threads s' u = threads ?s2 u"
    "threads s' t = (threads ?s2 t)\<lparr>stat := stat (threads s' t)\<rparr>"
    by (rule resume_ok [OF k2 f2(2)]) blast
  obtain x where x: "threads s' t = (threads ?s2 t)\<lparr>stat := x\<rparr>" using s'(8) by blast
  have sm: "ipc_same s' ?s2" by (rule same_resume [OF s'(1)])
  show thesis
  proof (rule that [of s'])
    show "event_send_loop n (t # ts) ns s = event_send_loop n ts True s'"
      unfolding step s'(1) by simp
    show "events s' = (events s)(n := left_over ?th ?v)" using sm f2(1) by (simp add: ipc_same_def)
    show "tstat s' t = RT_THREAD_READY" using s'(3) t(2) f2(3) by simp
    show "event_set (threads s' t) = granted ?th ?v" "error (threads s' t) = error ?th"
      unfolding x using f2(5,6) by simp_all
    show "threads s' u = threads s u" if "u \<noteq> t" for u using s'(7) [OF that] f2(7) [OF that] by simp
    show "queues s' q = remove1 t (queues s q)" if "\<forall>p. q \<noteq> QReady p" for q
      using s'(4) [OF that] f2(8) by simp
  qed (use s'(2,5,6) f2(3,4) in simp_all)
qed

lemma send_loop_not_met:
  assumes "request_ok (threads s t)" "\<not> met (threads s t) (events s n)"
  shows "event_send_loop n (t # ts) ns s = event_send_loop n ts ns s"
  using assms unfolding request_ok_def met_def by (auto simp: Let_def)

definition woken_with :: "kernel \<Rightarrow> kernel \<Rightarrow> tid \<times> u32 \<Rightarrow> bool" where
  "woken_with s s' x \<longleftrightarrow> tstat s' (fst x) \<in> {RT_THREAD_READY, RT_THREAD_RUNNING}
     \<and> event_set (threads s' (fst x)) = snd x \<and> error (threads s' (fst x)) = error (threads s (fst x))"

lemma send_loop_ok:
  assumes "loose_kinv {} s" "distinct ts"
    and "\<forall>t \<in> set ts. tstat s t = RT_THREAD_SUSPEND \<and> cur s \<noteq> Some t \<and> request_ok (threads s t)"
    and "serve (threads s) ts (events s n) = (woken, waiting, v')"
    and "cur s = Some c" "tstat s c = RT_THREAD_RUNNING"
  shows "\<exists>s'. event_send_loop n ts ns s = Inr (None, ns \<or> woken \<noteq> [], s') \<and> loose_kinv {} s'
    \<and> events s' = (events s)(n := v') \<and> cur s' = cur s \<and> lock_nest s' = lock_nest s
    \<and> tstat s' c = RT_THREAD_RUNNING
    \<and> (\<forall>x \<in> set woken. woken_with s s' x)
    \<and> (\<forall>u. u \<notin> fst ` set woken \<longrightarrow> threads s' u = threads s u)
    \<and> (\<forall>q. (\<forall>p. q \<noteq> QReady p) \<longrightarrow> queues s' q = filter (\<lambda>t. t \<notin> fst ` set woken) (queues s q))"
  using assms
proof (induction ts arbitrary: s ns woken waiting v')
  case Nil
  then show ?case by (auto simp: fun_eq_iff)
next
  case (Cons t ts)
  show ?case
  proof (cases "met (threads s t) (events s n)")
    case False
    obtain a b u where r: "serve (threads s) ts (events s n) = (a, b, u)" by (cases "serve (threads s) ts (events s n)")
    then have "woken = a" "v' = u" using Cons.prems(4) False by auto
    then show ?thesis
      using Cons.IH [of s a b u ns] Cons.prems r False send_loop_not_met [of s t n ts ns] by simp
  next
    case True
    let ?v1 = "left_over (threads s t) (events s n)"
    obtain a b u where r: "serve (threads s) ts ?v1 = (a, b, u)" by (cases "serve (threads s) ts ?v1")
    have w: "woken = (t, granted (threads s t) (events s n)) # a" "v' = u" using Cons.prems(4) True r by auto
    have tp: "tstat s t = RT_THREAD_SUSPEND" "cur s \<noteq> Some t" "request_ok (threads s t)" using Cons.prems(3) by auto
    obtain s1 where s1: "event_send_loop n (t # ts) ns s = event_send_loop n ts True s1" "loose_kinv {} s1"
      "events s1 = (events s)(n := ?v1)" "cur s1 = cur s" "lock_nest s1 = lock_nest s" "tstat s1 t = RT_THREAD_READY"
      "event_set (threads s1 t) = granted (threads s t) (events s n)" "error (threads s1 t) = error (threads s t)"
      "\<And>u. u \<noteq> t \<Longrightarrow> threads s1 u = threads s u"
      "\<And>q. \<forall>p. q \<noteq> QReady p \<Longrightarrow> queues s1 q = remove1 t (queues s q)"
      by (rule send_loop_met [OF Cons.prems(1) tp True]) blast
    have nt: "t \<notin> set ts" "distinct ts" using Cons.prems(2) by auto
    have ct: "c \<noteq> t" using tp(2) Cons.prems(5) by auto
    have e1: "threads s1 x = threads s x" if "x \<in> set ts" for x using that nt s1(9) [of x] by auto
    have r1: "serve (threads s1) ts (events s1 n) = (a, b, u)"
      using r serve_cong [of ts "threads s1" "threads s"] e1 by (simp add: s1(3))
    have p1: "\<forall>x \<in> set ts. tstat s1 x = RT_THREAD_SUSPEND \<and> cur s1 \<noteq> Some x \<and> request_ok (threads s1 x)"
      using Cons.prems(3) e1 s1(4) by simp
    have c1: "cur s1 = Some c" "tstat s1 c = RT_THREAD_RUNNING" using Cons.prems(5,6) s1(4,9) ct by simp_all
    obtain s2 where s2: "event_send_loop n ts True s1 = Inr (None, True, s2)" "loose_kinv {} s2"
      "events s2 = (events s1)(n := u)" "cur s2 = cur s1" "lock_nest s2 = lock_nest s1" "tstat s2 c = RT_THREAD_RUNNING"
      "\<forall>x \<in> set a. woken_with s1 s2 x" "\<forall>y. y \<notin> fst ` set a \<longrightarrow> threads s2 y = threads s1 y"
      "\<forall>q. (\<forall>p. q \<noteq> QReady p) \<longrightarrow> queues s2 q = filter (\<lambda>t. t \<notin> fst ` set a) (queues s1 q)"
      using Cons.IH [OF s1(2) nt(2) p1 r1 c1, of True] by (auto simp: fun_upd_def)
    have ta: "t \<notin> fst ` set a" using serve_woken [OF r] nt by blast
    then have t2: "threads s2 t = threads s1 t" using s2(8) by blast
    have "woken_with s s2 x" if "x \<in> set woken" for x
    proof (cases "fst x = t")
      case True
      then have "x = (t, granted (threads s t) (events s n))" using that ta w(1) by force
      then show ?thesis using s1(6,7,8) by (simp add: woken_with_def t2)
    next
      case False
      then have "x \<in> set a" using that w(1) by auto
      then have "woken_with s1 s2 x" using s2(7) by blast
      moreover have "threads s1 (fst x) = threads s (fst x)" using s1(9) [OF False] .
      ultimately show ?thesis by (simp add: woken_with_def)
    qed
    moreover have "threads s2 y = threads s y" if "y \<notin> fst ` set woken" for y
      using that w(1) s2(8) s1(9) [of y] by auto
    moreover have "queues s2 q = filter (\<lambda>t. t \<notin> fst ` set woken) (queues s q)" if "\<forall>p. q \<noteq> QReady p" for q
    proof -
      have "distinct (queues s q)"
        using Cons.prems(1) by (simp add: loose_kinv_def loose_inv_def queues_ok_def)
      then have "remove1 t (queues s q) = filter (\<lambda>x. x \<noteq> t) (queues s q)"
        by (simp add: distinct_remove1_removeAll removeAll_filter_not_eq) (rule filter_cong; auto)
      then show ?thesis using s2(9) s1(10) that w(1) by (auto intro: filter_cong)
    qed
    moreover have "event_send_loop n (t # ts) ns s = Inr (None, ns \<or> woken \<noteq> [], s2)"
      unfolding s1(1) s2(1) using w(1) by simp
    moreover have "events s2 = (events s)(n := v')" using s1(3) s2(3) w(2) by simp
    ultimately show ?thesis
      using s1(4,5) s2(2,4,5,6) by (intro exI [of _ s2] conjI ballI allI impI) simp_all
  qed
qed

lemma serve_filter:
  "distinct ts \<Longrightarrow> serve th ts v = (woken, waiting, v') \<Longrightarrow> waiting = filter (\<lambda>t. t \<notin> fst ` set woken) ts"
proof (induction ts arbitrary: v woken waiting v')
  case (Cons t ts)
  let ?v = "if met (th t) v then left_over (th t) v else v"
  obtain a b u where r: "serve th ts ?v = (a, b, u)" by (cases "serve th ts ?v")
  have d: "t \<notin> set ts" "distinct ts" using Cons.prems(1) by auto
  have b: "b = filter (\<lambda>t. t \<notin> fst ` set a) ts" by (rule Cons.IH [OF d(2) r])
  have ta: "t \<notin> fst ` set a" using serve_woken [OF r] d by blast
  show ?case
  proof (cases "met (th t) v")
    case True
    then have w: "woken = (t, granted (th t) v) # a" "waiting = b" using Cons.prems(2) r by auto
    have "filter (\<lambda>x. x \<notin> fst ` set woken) ts = filter (\<lambda>x. x \<notin> fst ` set a) ts"
      by (rule filter_cong) (use d w in auto)
    then show ?thesis using w b by simp
  next
    case False
    then have w: "woken = a" "waiting = t # b" using Cons.prems(2) r by auto
    then show ?thesis using b ta by simp
  qed
qed simp

lemma schedule_after:
  assumes "loose_kinv {} s" "cur s = Some c" "tstat s c = RT_THREAD_RUNNING" "lock_nest s = 0"
  obtains s' where "rt_schedule s = Inr s'" "kinv s'" "ipc_same s' s" "runs_highest s'"
    "\<And>q. \<forall>p. q \<noteq> QReady p \<Longrightarrow> queues s' q = queues s q"
    "\<And>t. tstat s t \<in> {RT_THREAD_READY, RT_THREAD_RUNNING} \<Longrightarrow> tstat s' t \<in> {RT_THREAD_READY, RT_THREAD_RUNNING}"
    "\<And>t. error (threads s' t) = error (threads s t)"
proof -
  obtain s2 where s2: "rt_schedule s = Inr s2" "kinv s2" "sched_frame s s2"
    "lock_nest s = 0 \<Longrightarrow> tstat s c = RT_THREAD_RUNNING \<or> ready_group s \<noteq> 0 \<Longrightarrow> runs_highest s2"
    by (rule schedule_ok [OF assms(1,2)]) (use assms in auto)
  show thesis
  proof (rule that [OF s2(1,2) same_sched_frame [OF s2(3)]])
    show "runs_highest s2" using s2(4) assms by simp
    show "queues s2 q = queues s q" if "\<forall>p. q \<noteq> QReady p" for q
      using s2(3) that unfolding sched_frame_def by blast
    show "tstat s2 t \<in> {RT_THREAD_READY, RT_THREAD_RUNNING}"
      if "tstat s t \<in> {RT_THREAD_READY, RT_THREAD_RUNNING}" for t
      using sched_frame_awake [OF s2(3)] that by blast
    show "error (threads s2 t) = error (threads s t)" for t
    proof -
      obtain x where "threads s2 t = (threads s t)\<lparr>stat := x\<rparr>"
        using s2(3) unfolding sched_frame_def by blast
      then show ?thesis by simp
    qed
  qed
qed

lemma met_cong: "thread_same a b \<Longrightarrow> met a v = met b v" "thread_same a b \<Longrightarrow> request_ok a = request_ok b"
  by (simp_all add: met_def request_ok_def thread_same_def)

section \<open>Correctness\<close>

lemma rt_event_send_ok:
  assumes "running s c" "event_valid n s" "event_inv s" "eset \<noteq> 0"
  shows "case serve (threads s) (queues s (QSuspend (OEvent n))) (events s n OR eset) of
    (woken, waiting, left) \<Rightarrow>
      \<exists>s'. rt_event_send n eset s = Inr (RT_EOK, s') \<and> kinv s' \<and> event_inv s'
        \<and> events s' = (events s)(n := left) \<and> queues s' (QSuspend (OEvent n)) = waiting
        \<and> (\<forall>x \<in> set woken. woken_with s s' x)
        \<and> (if woken = [] then cur s' = cur s \<and> threads s' = threads s else runs_highest s')"
proof -
  note d = runningD [OF assms(1)]
  let ?q = "QSuspend (OEvent n)" let ?ts = "queues s ?q"
  let ?s0 = "s\<lparr>events := (events s)(n := events s n OR eset)\<rparr>"
  obtain woken waiting v where sv: "serve (threads s) ?ts (events s n OR eset) = (woken, waiting, v)"
    by (cases "serve (threads s) ?ts (events s n OR eset)")
  have k0: "loose_kinv {} ?s0" using d(1) by (simp add: K_events)
  have dt: "distinct ?ts" using d(1) by (simp add: loose_kinv_def loose_inv_def queues_ok_def)
  have wt: "tstat s t = RT_THREAD_SUSPEND" if "t \<in> set (queues s (QSuspend i))" for t i
    by (rule waiter_suspended [OF d(1) waits_in_simps(1) that])
  have ws: "\<forall>t \<in> set ?ts. tstat ?s0 t = RT_THREAD_SUSPEND \<and> cur ?s0 \<noteq> Some t \<and> request_ok (threads ?s0 t)"
    using wt d(2,3) assms(3) by (auto simp: event_inv_def)
  obtain s1 where s1: "event_send_loop n ?ts False ?s0 = Inr (None, woken \<noteq> [], s1)" "loose_kinv {} s1"
    "events s1 = (events s)(n := v)" "cur s1 = Some c" "lock_nest s1 = 0" "tstat s1 c = RT_THREAD_RUNNING"
    "\<forall>x \<in> set woken. woken_with ?s0 s1 x" "\<forall>u. u \<notin> fst ` set woken \<longrightarrow> threads s1 u = threads s u"
    "\<forall>q. (\<forall>p. q \<noteq> QReady p) \<longrightarrow> queues s1 q = filter (\<lambda>t. t \<notin> fst ` set woken) (queues s q)"
    using send_loop_ok [OF k0 dt ws, of n woken waiting v c False] sv d by auto
  have wait: "queues s1 ?q = waiting" using s1(9) serve_filter [OF dt sv] by simp
  have ev1: "request_ok (threads s1 t) \<and> \<not> met (threads s1 t) (events s1 m)"
    if t: "t \<in> set (queues s1 (QSuspend (OEvent m)))" for t m
  proof -
    have t': "t \<notin> fst ` set woken" "t \<in> set (queues s (QSuspend (OEvent m)))" using t s1(9) by auto
    then have th: "threads s1 t = threads s t" using s1(8) by blast
    have "\<not> met (threads s t) (events s1 m)"
    proof (cases "m = n")
      case True
      then have "t \<in> set waiting" using t wait by simp
      then show ?thesis using serve_waiting [OF sv] True s1(3) by simp
    next
      case False
      then show ?thesis using t'(2) assms(3) s1(3) by (simp add: event_inv_def)
    qed
    then show ?thesis using th t'(2) assms(3) by (simp add: event_inv_def)
  qed
  have code: "rt_event_send n eset s =
      bind_res (if woken \<noteq> [] then rt_schedule s1 else Inr s1) (\<lambda>s. Inr (RT_EOK, s))"
    using assms(2,4) s1(1) by (simp add: rt_event_send_def event_valid_def)
  show ?thesis
  proof (cases "woken = []")
    case True
    have "kinv s1" using s1(2,4,6) by (simp add: kinv_def)
    moreover have "event_inv s1" using ev1 by (simp add: event_inv_def)
    moreover have "threads s1 = threads s" using s1(8) True by auto
    ultimately show ?thesis using code True sv s1(3,4) d(2) wait by simp
  next
    case False
    obtain s2 where s2: "rt_schedule s1 = Inr s2" "kinv s2" "ipc_same s2 s1" "runs_highest s2"
      "\<And>q. \<forall>p. q \<noteq> QReady p \<Longrightarrow> queues s2 q = queues s1 q"
      "\<And>t. tstat s1 t \<in> {RT_THREAD_READY, RT_THREAD_RUNNING} \<Longrightarrow> tstat s2 t \<in> {RT_THREAD_READY, RT_THREAD_RUNNING}"
      "\<And>t. error (threads s2 t) = error (threads s1 t)"
      by (rule schedule_after [OF s1(2,4,6,5)]) blast
    have same: "thread_same (threads s2 t) (threads s1 t)" "events s2 = events s1" for t
      using s2(3) by (simp_all add: ipc_same_def)
    have "event_inv s2" using ev1 met_cong [OF same(1)] by (simp add: event_inv_def s2(5) same(2))
    moreover have "woken_with s s2 x" if "x \<in> set woken" for x
    proof -
      have "woken_with ?s0 s1 x" using that s1(7) by blast
      then show ?thesis using s2(6) [of "fst x"] s2(7) same(1) [of "fst x"]
        by (simp add: woken_with_def thread_same_def)
    qed
    ultimately show ?thesis using code False sv s2 s1(3) wait same(2) by simp
  qed
qed

text \<open>C9: sending to an event set.  In thread context, on a valid event set, with the kernel
  invariant and the rule that nobody waits for what is already there,
  \<^verbatim>\<open>rt_event_send\<close> never faults and keeps both.  The waiters whose requests are met by
  the old and the new events together are served in the order of the queue, each with the bits it asked for
  out of what those before it left; exactly they leave the queue, awake, with these bits in their control
  blocks; the event set keeps what none of them cleared, and when any was woken a most urgent thread runs.\<close>

theorem rt_event_send_correct:
  assumes "running s c" "event_valid n s" "event_inv s" "eset \<noteq> 0"
  shows "case serve (threads s) (queues s (QSuspend (OEvent n))) (events s n OR eset) of
    (woken, waiting, left) \<Rightarrow>
      \<exists>s'. rt_event_send n eset s = Inr (RT_EOK, s') \<and> kinv s' \<and> event_inv s'
        \<and> events s' = (events s)(n := left) \<and> queues s' (QSuspend (OEvent n)) = waiting
        \<and> (\<forall>x \<in> set woken. woken_with s s' x) \<and> (woken \<noteq> [] \<longrightarrow> runs_highest s')"
  using rt_event_send_ok [OF assms] by (auto split: prod.splits if_splits)

lemma rt_event_recv_ok:
  assumes "running s c" "event_valid n s" "event_inv s" "eset \<noteq> 0" "timeout < 0x7fffffff"
    and opt: "option AND RT_EVENT_FLAG_AND \<noteq> 0 \<or> option AND RT_EVENT_FLAG_OR \<noteq> 0"
  shows "\<exists>r recved s'. rt_event_recv n eset option timeout s = Inr (r, recved, s') \<and> kinv s' \<and> event_inv s' \<and>
    (r \<noteq> Blocked \<longrightarrow> cur s' = cur s \<and> (\<forall>t. tstat s' t = tstat s t \<and> tprio s' t = tprio s t)) \<and>
    (let req = (threads s c)\<lparr>event_set := eset, event_info := option\<rparr>
     in if met req (events s n) then r = Return RT_EOK \<and> recved = Some (eset AND events s n)
         \<and> events s' = (events s)(n := left_over req (events s n)) \<and> queues s' = queues s
       else if timeout = 0 then r = Return (- RT_ETIMEOUT) \<and> recved = None \<and> events s' = events s \<and> queues s' = queues s
       else r = Blocked \<and> recved = None \<and> events s' = events s \<and> tstat s' c = RT_THREAD_SUSPEND
         \<and> event_set (threads s' c) = eset \<and> event_info (threads s' c) = option
         \<and> queues s' (QSuspend (OEvent n)) =
             enqueue (obj_flag (objs s (OEvent n))) s c (queues s (QSuspend (OEvent n)))
         \<and> (ready_group s \<noteq> 0 \<longrightarrow> runs_highest s'))"
proof -
  note d = runningD [OF assms(1)]
  let ?q = "QSuspend (OEvent n)"
  let ?req = "(threads s c)\<lparr>event_set := eset, event_info := option\<rparr>"
  have nw: "c \<notin> set (queues s (QSuspend i))" for i
    using waiter_suspended [OF d(1) waits_in_simps(1), of c i] d(3) by auto
  have mt: "met ?req (events s n) \<longleftrightarrow> (if option AND RT_EVENT_FLAG_AND \<noteq> 0 then events s n AND eset = eset
              else events s n AND eset \<noteq> 0)"
    by (simp add: met_def and.commute)
  have upd: "loose_kinv {} (upd_thread c f s)" if "\<And>x. stat (f x) = stat x" "\<And>x. current_priority (f x) = current_priority x"
    "\<And>x. number_mask (f x) = number_mask x" for f
    using d(1) by (rule K_upd_other) (use that in simp_all)
  let ?f = "\<lambda>th. th\<lparr>error := RT_EOK, event_set := eset, event_info := option\<rparr>"
  consider (now) "met ?req (events s n)" | (timeout) "\<not> met ?req (events s n)" "timeout = 0"
    | (block) "\<not> met ?req (events s n)" "timeout \<noteq> 0" by blast
  then show ?thesis
  proof cases
    case now
    let ?s1 = "upd_thread c (\<lambda>th. th\<lparr>error := RT_EOK\<rparr>) s"
    let ?s2 = "upd_thread c (\<lambda>th. th\<lparr>event_set := events s n AND eset, event_info := option\<rparr>) ?s1"
    let ?s3 = "?s2\<lparr>events := (events s)(n := left_over ?req (events s n))\<rparr>"
    have e: "events ?s2 = events s" "event_info (threads ?s2 c) = option" "error (threads ?s2 c) = RT_EOK"
      by (simp_all add: upd_thread_def)
    let ?s4 = "if option AND RT_EVENT_FLAG_CLEAR \<noteq> 0
      then ?s2\<lparr>events := (events ?s2)(n := events ?s2 n AND NOT eset)\<rparr> else ?s2"
    have "events s n AND NOT eset = events s n AND NOT (eset AND events s n)"
      by (rule bit_word_eqI) (auto simp: bit_simps)
    then have s4: "?s4 = ?s3" by (auto simp: left_over_def granted_def upd_thread_def intro!: kernel.equality)
    have code: "rt_event_recv n eset option timeout s = Inr (Return RT_EOK, Some (events s n AND eset), ?s3)"
    proof -
      have "rt_event_recv n eset option timeout s =
          Inr (Return (error (threads ?s4 c)), Some (events s n AND eset), ?s4)"
        using assms(2,4) opt now d(6,7) unfolding mt
        by (cases "option AND RT_EVENT_FLAG_AND = 0")
          (simp_all add: rt_event_recv_def event_valid_def Let_def upd_thread_def)
      then show ?thesis unfolding s4 by (simp add: e)
    qed
    have "loose_kinv {} ?s1" by (rule upd) simp_all
    then have "loose_kinv {} ?s2" by (rule K_upd_other) simp_all
    then have "kinv ?s3" using d(2,3) by (simp add: kinv_def K_events upd_thread_def)
    moreover have "event_inv ?s3"
      unfolding event_inv_def
    proof (intro allI ballI)
      fix m t assume t: "t \<in> set (queues ?s3 (QSuspend (OEvent m)))"
      then have t': "t \<in> set (queues s (QSuspend (OEvent m)))" by (simp add: upd_thread_def)
      then have "threads ?s3 t = threads s t" using nw by (auto simp: upd_thread_def)
      moreover obtain w where "left_over ?req (events s n) = events s n AND w" using left_over_mask by blast
      then have "\<not> met (threads s t) (events ?s3 m)"
        using t' assms(3) met_mono [of "threads s t" "events s n"] by (auto simp: event_inv_def)
      ultimately show "request_ok (threads ?s3 t) \<and> \<not> met (threads ?s3 t) (events ?s3 m)"
        using t' assms(3) by (simp add: event_inv_def)
    qed
    ultimately show ?thesis using code now by (simp add: and.commute upd_thread_def)
  next
    case timeout
    let ?s1 = "upd_thread c (\<lambda>th. th\<lparr>error := - RT_ETIMEOUT\<rparr>) (upd_thread c (\<lambda>th. th\<lparr>error := RT_EOK\<rparr>) s)"
    have s1: "?s1 = upd_thread c (\<lambda>th. th\<lparr>error := - RT_ETIMEOUT\<rparr>) s" by (simp add: upd_thread_def)
    have code: "rt_event_recv n eset option timeout s = Inr (Return (- RT_ETIMEOUT), None, ?s1)"
      using assms(2,4) opt timeout d(6,7) unfolding mt
      by (cases "option AND RT_EVENT_FLAG_AND = 0")
        (simp_all add: rt_event_recv_def event_valid_def Let_def upd_thread_def)
    have "loose_kinv {} (upd_thread c (\<lambda>th. th\<lparr>error := - RT_ETIMEOUT\<rparr>) s)" by (rule upd) simp_all
    then have "kinv ?s1" unfolding s1 using d(2,3) by (simp add: kinv_def upd_thread_def)
    moreover have "event_inv ?s1"
      using assms(3) nw by (auto simp: event_inv_def upd_thread_def)
    ultimately show ?thesis using code timeout by (simp add: upd_thread_def)
  next
    case block
    let ?s1 = "upd_thread c (\<lambda>th. th\<lparr>event_set := eset, event_info := option\<rparr>)
        (upd_thread c (\<lambda>th. th\<lparr>error := RT_EOK\<rparr>) s)"
    have k1: "loose_kinv {} ?s1" by (rule K_upd_other, rule upd) simp_all
    have c1: "cur ?s1 = Some c" "tstat ?s1 c = RT_THREAD_RUNNING" "lock_nest ?s1 = 0"
      "ready_group ?s1 = ready_group s" "queues ?s1 = queues s" "objs ?s1 = objs s" "events ?s1 = events s"
      "event_set (threads ?s1 c) = eset" "event_info (threads ?s1 c) = option"
      "\<And>u. u \<noteq> c \<Longrightarrow> threads ?s1 u = threads s u"
      using d by (simp_all add: upd_thread_def)
    have fl: "obj_flag (objs s (OEvent n)) = RT_IPC_FLAG_FIFO \<or> obj_flag (objs s (OEvent n)) = RT_IPC_FLAG_PRIO"
      using assms(2) by (simp add: event_valid_def)
    obtain sa sb sc where b: "ipc_list_suspend ?q c (obj_flag (objs s (OEvent n))) ?s1 = Inr sa"
      "arm_timeout c timeout sa = Inr sb" "rt_schedule sb = Inr sc" "kinv sc" "ipc_same sc ?s1"
      "tstat sc c = RT_THREAD_SUSPEND" "lock_nest ?s1 = 0 \<Longrightarrow> ready_group ?s1 \<noteq> 0 \<Longrightarrow> runs_highest sc"
      "queues sc ?q = enqueue (obj_flag (objs s (OEvent n))) ?s1 c (queues ?s1 ?q)"
      "\<And>q'. q' \<noteq> ?q \<Longrightarrow> \<forall>p. q' \<noteq> QReady p \<Longrightarrow> queues sc q' = queues ?s1 q'"
      by (rule block_ok [OF k1 c1(1,2) waits_in_simps(1) fl assms(5)]) blast
    have en: "enqueue f ?s1 c l = enqueue f s c l" for f l
      by (rule enqueue_cong) (simp add: upd_thread_def)
    have e0: "events (upd_thread t f s) = events s" for t f s by (simp add: upd_thread_def)
    have code: "rt_event_recv n eset option timeout s = Inr (Blocked, None, sc)"
      using assms(2,4) opt block d(6,7) b(1-3) c1(6) unfolding mt
      by (cases "option AND RT_EVENT_FLAG_AND = 0")
        (simp_all add: rt_event_recv_def event_valid_def Let_def c1 e0)
    have same: "thread_same (threads sc t) (threads ?s1 t)" "events sc = events s" for t
      using b(5) c1(7) by (simp_all add: ipc_same_def)
    have "event_inv sc"
      unfolding event_inv_def
    proof (intro allI ballI)
      fix m t assume t: "t \<in> set (queues sc (QSuspend (OEvent m)))"
      have "request_ok (threads ?s1 t) \<and> \<not> met (threads ?s1 t) (events s m)"
      proof (cases "t = c")
        case True
        have "m = n"
        proof (rule ccontr)
          assume "m \<noteq> n"
          then have "queues sc (QSuspend (OEvent m)) = queues s (QSuspend (OEvent m))"
            using b(9) [of "QSuspend (OEvent m)"] c1(5) by simp
          then show False using t True nw by simp
        qed
        moreover have "request_ok (threads ?s1 c)" "met (threads ?s1 c) = met ?req"
          using opt c1(8,9) by (auto simp: request_ok_def met_def fun_eq_iff)
        ultimately show ?thesis using block(1) True by simp
      next
        case False
        have "t \<in> set (queues s (QSuspend (OEvent m)))"
          using t b(8) b(9) [of "QSuspend (OEvent m)"] c1(5) False by (cases "m = n") auto
        then show ?thesis using assms(3) c1(10) [OF False] by (simp add: event_inv_def)
      qed
      then show "request_ok (threads sc t) \<and> \<not> met (threads sc t) (events sc m)"
        using met_cong [OF same(1)] same(2) by simp
    qed
    moreover have "event_set (threads sc c) = eset" "event_info (threads sc c) = option"
      using same(1) [of c] c1(8,9) by (simp_all add: thread_same_def)
    ultimately show ?thesis using code block b c1 en same(2) by simp
  qed
qed

text \<open>C10: receiving.  With the same assumptions and a timeout below the timer horizon,
  \<^verbatim>\<open>rt_event_recv\<close> never faults and keeps both invariants: a request that is met returns at
  once with the bits received, which a CLEAR request takes out of the event set; one that is not returns
  \<^verbatim>\<open>-RT_ETIMEOUT\<close> without waiting, or suspends the caller in the queue's order with its
  request in its control block.\<close>

theorem rt_event_recv_correct:
  assumes "running s c" "event_valid n s" "event_inv s" "eset \<noteq> 0" "timeout < 0x7fffffff"
    and opt: "option AND RT_EVENT_FLAG_AND \<noteq> 0 \<or> option AND RT_EVENT_FLAG_OR \<noteq> 0"
  shows "\<exists>r recved s'. rt_event_recv n eset option timeout s = Inr (r, recved, s') \<and> kinv s' \<and> event_inv s' \<and>
    (let req = (threads s c)\<lparr>event_set := eset, event_info := option\<rparr>
     in if met req (events s n) then r = Return RT_EOK \<and> recved = Some (eset AND events s n)
         \<and> events s' = (events s)(n := left_over req (events s n)) \<and> queues s' = queues s
       else if timeout = 0 then r = Return (- RT_ETIMEOUT) \<and> recved = None \<and> events s' = events s \<and> queues s' = queues s
       else r = Blocked \<and> recved = None \<and> events s' = events s \<and> tstat s' c = RT_THREAD_SUSPEND
         \<and> event_set (threads s' c) = eset \<and> event_info (threads s' c) = option
         \<and> queues s' (QSuspend (OEvent n)) =
             enqueue (obj_flag (objs s (OEvent n))) s c (queues s (QSuspend (OEvent n)))
         \<and> (ready_group s \<noteq> 0 \<longrightarrow> runs_highest s'))"
  using rt_event_recv_ok [OF assms] by blast

text \<open>Concrete runs: a thread waits for the two lowest bits, both of which it will clear, and gets
  them with a third one left over; a thread asks for one of two bits and finds one of them.\<close>

definition demo_event :: kernel where
  "demo_event = demo_wait (QSuspend (OEvent 0)) (\<lambda>th. th\<lparr>event_set := 3, event_info := 5\<rparr>)"

lemma demo_event_inv: "event_inv demo_event"
  by (auto simp: event_inv_def demo_event_def demo_wait_fields demo_queues request_ok_def met_def)

lemma demo_event_valid: "event_valid n demo_event"
  by (simp add: event_valid_def rt_object_get_type_def demo_event_def demo_wait_fields demo_kernel_def)

theorem rt_event_send_correct_witness:
  "\<exists>s'. rt_event_send 0 7 demo_event = Inr (RT_EOK, s') \<and> kinv s' \<and> events s' 0 = 4
     \<and> event_set (threads s' 3) = 3 \<and> queues s' (QSuspend (OEvent 0)) = []"
proof -
  have r: "running demo_event 1" unfolding demo_event_def by (rule demo_wait_running) simp_all
  have "serve (threads demo_event) (queues demo_event (QSuspend (OEvent 0))) (events demo_event 0 OR 7) = ([(3, 3)], [], 4)"
    by (simp add: demo_event_def demo_wait_fields met_def granted_def left_over_def)
  then show ?thesis
    using rt_event_send_correct [OF r demo_event_valid demo_event_inv, of 7 0] by (auto simp: woken_with_def)
qed

theorem rt_event_recv_correct_witness:
  "\<exists>s'. rt_event_recv 1 6 6 0 (demo_event\<lparr>events := \<lambda>n. if n = 1 then 12 else 0\<rparr>) = Inr (Return RT_EOK, Some 4, s')
     \<and> events s' 1 = 8"
proof -
  let ?s = "demo_event\<lparr>events := \<lambda>n. if n = 1 then 12 else 0\<rparr>"
  have "running demo_event 1" unfolding demo_event_def by (rule demo_wait_running) simp_all
  then have r: "running ?s 1" by (simp add: running_def kinv_def K_events)
  have v: "event_valid 1 ?s" using demo_event_valid [of 1] by (simp add: event_valid_def rt_object_get_type_def)
  have i: "event_inv ?s" using demo_event_inv
    by (auto simp: event_inv_def demo_event_def demo_wait_fields demo_queues request_ok_def met_def)
  show ?thesis using rt_event_recv_correct [OF r v i, of 6 0 6] by (auto simp: met_def left_over_def granted_def)
qed

end
