(* ===== verification/Ring.thy ===== *)
theory Ring
  imports Prelude
begin

text \<open>
  What the circular buffers of the system share: segments of an array taken round its end, circular
  writes, and the interface of a bounded first-in first-out store.  The byte ring buffer
  (\<open>RingBuffer\<close>), the mailbox (\<open>Mailbox\<close>), the message queue
  (\<open>MsgQueue\<close>) and the drivers' data queue (\<open>DataQueue\<close>) each interpret the locale \<open>bounded_fifo\<close> on their own operations.
\<close>

section \<open>Circular segments\<close>

text \<open>The \<open>n\<close> elements of an array from position \<open>r\<close>, round its end.\<close>

definition ring_seg :: "'a list \<Rightarrow> nat \<Rightarrow> nat \<Rightarrow> 'a list" where
  "ring_seg buf r n = map (\<lambda>i. buf ! ((r + i) mod length buf)) [0..<n]"

text \<open>Writing a block from position \<open>w\<close>, round the end.\<close>

definition ring_write :: "'a list \<Rightarrow> nat \<Rightarrow> 'a list \<Rightarrow> 'a list" where
  "ring_write buf w ys = map (\<lambda>k. let j = (k + length buf - w) mod length buf
     in if j < length ys then ys ! j else buf ! k) [0..<length buf]"

lemma length_ring_seg [simp]: "length (ring_seg buf r n) = n"
  by (simp add: ring_seg_def)

lemma length_ring_write [simp]: "length (ring_write buf w ys) = length buf"
  by (simp add: ring_write_def)

lemma ring_seg_0 [simp]: "ring_seg buf r 0 = []"
  by (simp add: ring_seg_def)

lemma ring_seg_mod [simp]: "ring_seg buf (r mod length buf) n = ring_seg buf r n"
  by (simp add: ring_seg_def mod_add_left_eq)

lemma nth_ring_seg: "i < n \<Longrightarrow> ring_seg buf r n ! i = buf ! ((r + i) mod length buf)"
  by (simp add: ring_seg_def)

lemma ring_seg_append:
  "ring_seg buf r (m + n) = ring_seg buf r m @ ring_seg buf (r + m) n"
  by (rule nth_equalityI) (auto simp: nth_append nth_ring_seg add.assoc)

lemma take_ring_seg: "m \<le> n \<Longrightarrow> take m (ring_seg buf r n) = ring_seg buf r m"
  using ring_seg_append [of buf r m "n - m"] by simp

lemma drop_ring_seg: "m \<le> n \<Longrightarrow> drop m (ring_seg buf r n) = ring_seg buf (r + m) (n - m)"
  using ring_seg_append [of buf r m "n - m"] by simp

lemma ring_seg_flat: "r + n \<le> length buf \<Longrightarrow> ring_seg buf r n = take n (drop r buf)"
  by (rule nth_equalityI) (auto simp: nth_ring_seg)

text \<open>The distance from \<open>w\<close> to a position, round the end.\<close>

lemma ring_dist:
  assumes "w < (N::nat)" "j < N"
  shows "((w + j) mod N + N - w) mod N = j"
proof (cases "w + j < N")
  case True
  then show ?thesis using assms by simp
next
  case False
  then have "(w + j) mod N = w + j - N" using assms by (simp add: mod_if)
  then show ?thesis using False assms by simp
qed

lemma ring_pos:
  assumes "w \<le> (N::nat)" "k < N"
  shows "(k + N - w) mod N = (if w \<le> k then k - w else k + N - w)"
proof (cases "w \<le> k")
  case True
  then have "k + N - w = (k - w) + N" by simp
  then have "(k + N - w) mod N = (k - w) mod N" by (simp only: mod_add_self2)
  then show ?thesis using True assms by simp
next
  case False
  then show ?thesis using assms by simp
qed

lemma ring_seg_write_same:
  assumes "w < length buf" "length ys \<le> length buf"
  shows "ring_seg (ring_write buf w ys) w (length ys) = ys"
proof (rule nth_equalityI)
  fix i assume "i < length (ring_seg (ring_write buf w ys) w (length ys))"
  then have i: "i < length ys" by simp
  then have "i < length buf" using assms by simp
  moreover have "(w + i) mod length buf < length buf" using assms by (intro mod_less_divisor) linarith
  ultimately show "ring_seg (ring_write buf w ys) w (length ys) ! i = ys ! i"
    using i assms by (simp add: nth_ring_seg ring_write_def ring_dist Let_def)
qed simp

lemma ring_seg_write_other:
  assumes "r < length buf" "n + length ys \<le> length buf"
  shows "ring_seg (ring_write buf ((r + n) mod length buf) ys) r n = ring_seg buf r n"
proof (rule nth_equalityI)
  let ?N = "length buf" let ?w = "(r + n) mod ?N"
  fix i assume "i < length (ring_seg (ring_write buf ?w ys) r n)"
  then have i: "i < n" by simp
  have N: "0 < ?N" using assms by linarith
  have w: "?w < ?N" using N by simp
  have "(?w + (?N - n + i)) mod ?N = (r + i) mod ?N"
  proof -
    have "(?w + (?N - n + i)) mod ?N = (r + n + (?N - n + i)) mod ?N" by (simp add: mod_add_left_eq)
    also have "r + n + (?N - n + i) = r + i + ?N" using assms i by simp
    finally show ?thesis by simp
  qed
  moreover have j: "?N - n + i < ?N" using i assms by linarith
  ultimately have d: "((r + i) mod ?N + ?N - ?w) mod ?N = ?N - n + i"
    using ring_dist [OF w j] by simp
  have "\<not> ?N - n + i < length ys" using assms by simp
  moreover have "(r + i) mod ?N < ?N" using N by simp
  ultimately show "ring_seg (ring_write buf ?w ys) r n ! i = ring_seg buf r n ! i"
    using i d by (simp add: nth_ring_seg ring_write_def Let_def)
qed simp

text \<open>So a block written behind a segment extends it.\<close>

lemma ring_seg_write:
  assumes "r < length buf" "n + length ys \<le> length buf"
  shows "ring_seg (ring_write buf ((r + n) mod length buf) ys) r (n + length ys) = ring_seg buf r n @ ys"
proof -
  let ?w = "(r + n) mod length buf"
  have w: "?w < length buf" using assms by (intro mod_less_divisor) linarith
  have "ring_seg (ring_write buf ?w ys) (r + n) (length ys) = ys"
    using ring_seg_write_same [OF w, of ys] ring_seg_mod [of "ring_write buf ?w ys" "r + n" "length ys"] assms
    by simp
  then show ?thesis using assms by (simp add: ring_seg_append ring_seg_write_other)
qed

text \<open>The two block copies of a write that reaches the end, and the one of a write that does
  not.\<close>

lemma ring_write_flat:
  assumes "w + n \<le> length buf" "n \<le> length ys"
  shows "memcpy_at buf w ys 0 n = ring_write buf w (take n ys)"
proof (rule nth_equalityI)
  fix k assume "k < length (memcpy_at buf w ys 0 n)"
  then have k: "k < length buf" using assms by simp
  have d: "(k + length buf - w) mod length buf = (if w \<le> k then k - w else k + length buf - w)"
    by (rule ring_pos) (use k assms in simp_all)
  show "memcpy_at buf w ys 0 n ! k = ring_write buf w (take n ys) ! k"
    using k assms by (auto simp: nth_memcpy_at ring_write_def d Let_def)
qed (use assms in simp)

lemma ring_write_wrap:
  assumes "w < length buf" "length buf - w \<le> n" "n \<le> length buf" "n \<le> length ys"
  shows "memcpy_at (memcpy_at buf w ys 0 (length buf - w)) 0 ys (length buf - w) (n - (length buf - w))
     = ring_write buf w (take n ys)" (is "memcpy_at ?b 0 ys ?m ?l = _")
proof (rule nth_equalityI)
  have len: "length ?b = length buf" using assms by simp
  then show "length (memcpy_at ?b 0 ys ?m ?l) = length (ring_write buf w (take n ys))" using assms by simp
  fix k assume "k < length (memcpy_at ?b 0 ys ?m ?l)"
  then have k: "k < length buf" using assms len by simp
  have d: "(k + length buf - w) mod length buf = (if w \<le> k then k - w else k + length buf - w)"
    by (rule ring_pos) (use k assms in simp_all)
  show "memcpy_at ?b 0 ys ?m ?l ! k = ring_write buf w (take n ys) ! k"
    using k assms by (auto simp: nth_memcpy_at ring_write_def d Let_def len algebra_simps)
qed

lemma ring_write_single:
  assumes "w < length buf"
  shows "buf[w := x] = ring_write buf w [x]"
proof (rule nth_equalityI)
  fix k assume "k < length (buf[w := x])"
  then have k: "k < length buf" by simp
  then have d: "(k + length buf - w) mod length buf = (if w \<le> k then k - w else k + length buf - w)"
    by (intro ring_pos) (use assms in simp_all)
  show "buf[w := x] ! k = ring_write buf w [x] ! k"
    using k assms by (auto simp: ring_write_def d Let_def nth_list_update)
qed simp

section \<open>The interface of a bounded queue\<close>

datatype 'a fifo_op = Put 'a | Get

locale bounded_fifo =
  fixes inv :: "'s \<Rightarrow> bool"
    and contents :: "'s \<Rightarrow> 'a list"
    and capacity :: "'s \<Rightarrow> nat"
    and put :: "'a \<Rightarrow> 's \<Rightarrow> 's option"
    and get :: "'s \<Rightarrow> ('a \<times> 's) option"
    and item :: "'a \<Rightarrow> bool"
  assumes bounded: "inv s \<Longrightarrow> length (contents s) \<le> capacity s"
    and put_full: "inv s \<Longrightarrow> length (contents s) = capacity s \<Longrightarrow> put x s = None"
    and put_ok: "inv s \<Longrightarrow> item x \<Longrightarrow> length (contents s) < capacity s \<Longrightarrow>
       \<exists>s'. put x s = Some s' \<and> inv s' \<and> contents s' = contents s @ [x] \<and> capacity s' = capacity s"
    and get_empty: "inv s \<Longrightarrow> contents s = [] \<Longrightarrow> get s = None"
    and get_ok: "inv s \<Longrightarrow> contents s = x # xs \<Longrightarrow>
       \<exists>s'. get s = Some (x, s') \<and> inv s' \<and> contents s' = xs \<and> capacity s' = capacity s"
begin

text \<open>A run of operations, with what was accepted and what came out.\<close>

fun run :: "'a fifo_op list \<Rightarrow> 's \<Rightarrow> 'a list \<times> 'a list \<times> 's" where
  "run [] s = ([], [], s)"
| "run (Put x # ops) s =
     (case put x s of
        None \<Rightarrow> run ops s
      | Some s' \<Rightarrow> let (ins, outs, s'') = run ops s' in (x # ins, outs, s''))"
| "run (Get # ops) s =
     (case get s of
        None \<Rightarrow> run ops s
      | Some (x, s') \<Rightarrow> let (ins, outs, s'') = run ops s' in (ins, x # outs, s''))"

text \<open>The same operations on a list of bounded length.\<close>

fun list_run :: "nat \<Rightarrow> 'a fifo_op list \<Rightarrow> 'a list \<Rightarrow> 'a list \<times> 'a list \<times> 'a list" where
  "list_run n [] q = ([], [], q)"
| "list_run n (Put x # ops) q =
     (if length q < n then let (ins, outs, q') = list_run n ops (q @ [x]) in (x # ins, outs, q')
      else list_run n ops q)"
| "list_run n (Get # ops) q =
     (case q of [] \<Rightarrow> list_run n ops q
      | x # q' \<Rightarrow> let (ins, outs, q'') = list_run n ops q' in (ins, x # outs, q''))"

definition items :: "'a fifo_op list \<Rightarrow> bool" where
  "items ops \<longleftrightarrow> (\<forall>x. Put x \<in> set ops \<longrightarrow> item x)"

lemma items_simps [simp]:
  "items []" "items (Put x # ops) \<longleftrightarrow> item x \<and> items ops" "items (Get # ops) \<longleftrightarrow> items ops"
  by (auto simp: items_def)

lemma run_refines:
  assumes "inv s" "items ops"
  shows "\<exists>ins outs s'. run ops s = (ins, outs, s') \<and> inv s' \<and> capacity s' = capacity s
    \<and> list_run (capacity s) ops (contents s) = (ins, outs, contents s')"
  using assms
proof (induction ops s rule: run.induct)
  case (2 x ops s)
  show ?case
  proof (cases "length (contents s) < capacity s")
    case True
    obtain s' where s': "put x s = Some s'" "inv s'" "contents s' = contents s @ [x]" "capacity s' = capacity s"
      using put_ok [OF 2(3) _ True] 2(4) by auto
    with 2(2) [OF s'(1,2)] 2(4) True show ?thesis by (auto simp: Let_def)
  next
    case False
    then have "put x s = None" using put_full bounded 2(3) by (metis le_neq_implies_less)
    with 2(1) [OF this 2(3)] 2(4) False show ?thesis by simp
  qed
next
  case (3 ops s)
  show ?case
  proof (cases "contents s")
    case Nil
    then have "get s = None" using get_empty 3(3) by blast
    with 3(1) [OF this 3(3)] 3(4) Nil show ?thesis by simp
  next
    case (Cons x xs)
    obtain s' where s': "get s = Some (x, s')" "inv s'" "contents s' = xs" "capacity s' = capacity s"
      using get_ok [OF 3(3) Cons] by blast
    with 3(2) [OF s'(1) refl s'(2)] 3(4) Cons show ?thesis by (auto simp: Let_def)
  qed
qed simp

lemma list_run_order:
  "list_run n ops q = (ins, outs, q') \<Longrightarrow> outs @ q' = q @ ins"
  by (induction n ops q arbitrary: ins outs q' rule: list_run.induct)
    (auto simp: Let_def split: if_splits list.splits prod.splits)

text \<open>First in, first out: nothing accepted is lost, reordered or duplicated.\<close>

lemma run_order:
  assumes "inv s" "items ops" "run ops s = (ins, outs, s')"
  shows "inv s' \<and> outs @ contents s' = contents s @ ins \<and> length (contents s') \<le> capacity s"
  using run_refines [OF assms(1,2)] assms(3) list_run_order [of "capacity s" ops "contents s"] bounded [of s'] by auto

end

end
