(* ===== verification/Mailbox.thy ===== *)
theory Mailbox
  imports IpcWake Ring
begin

text \<open>
  Mailboxes, \<^verbatim>\<open>rt_mb_init\<close> to \<^verbatim>\<open>rt_mb_control\<close> of
  \<^verbatim>\<open>rt-thread/src/ipc.c\<close>: a circular array of words with a queue of waiting
  receivers and one of waiting senders.  A blocking call is one pass through its waiting loop; the
  matching \<open>resume\<close> definition is what the call does when it runs again, and may block
  once more.
\<close>

section \<open>The circular array\<close>

abbreviation (input) RT_MB_ENTRY_MAX :: nat where "RT_MB_ENTRY_MAX \<equiv> 65535"

text \<open>Storing a mail: the write offset is a 16-bit counter, the entry count saturates.\<close>

definition mb_store :: "u32 \<Rightarrow> mailbox \<Rightarrow> (bool \<times> mailbox) res" where
  "mb_store value mb =
     (if in_offset mb < length (mb_pool mb) then
        let mb = mb\<lparr>mb_pool := (mb_pool mb)[in_offset mb := value]\<rparr>;
            mb = mb\<lparr>in_offset := Suc (in_offset mb) mod 65536\<rparr>;
            mb = (if mb_size mb \<le> in_offset mb then mb\<lparr>in_offset := 0\<rparr> else mb)
        in Inr (if mb_entry mb < RT_MB_ENTRY_MAX then (True, mb\<lparr>mb_entry := Suc (mb_entry mb)\<rparr>)
                else (False, mb))
      else Inl BadAccess)"

text \<open>An urgent mail goes in front of the oldest one.\<close>

definition mb_store_urgent :: "u32 \<Rightarrow> mailbox \<Rightarrow> mailbox res" where
  "mb_store_urgent value mb =
     (let mb = (if out_offset mb > 0 then mb\<lparr>out_offset := out_offset mb - 1\<rparr>
                else mb\<lparr>out_offset := mb_size mb - 1\<rparr>)
      in if out_offset mb < length (mb_pool mb) then
           let mb = mb\<lparr>mb_pool := (mb_pool mb)[out_offset mb := value]\<rparr>
           in Inr (mb\<lparr>mb_entry := Suc (mb_entry mb) mod 65536\<rparr>)
         else Inl BadAccess)"

definition mb_fetch :: "mailbox \<Rightarrow> (u32 \<times> mailbox) res" where
  "mb_fetch mb =
     (if out_offset mb < length (mb_pool mb) then
        let value = mb_pool mb ! out_offset mb;
            mb = mb\<lparr>out_offset := Suc (out_offset mb) mod 65536\<rparr>;
            mb = (if mb_size mb \<le> out_offset mb then mb\<lparr>out_offset := 0\<rparr> else mb)
        in Inr (value, if mb_entry mb > 0 then mb\<lparr>mb_entry := mb_entry mb - 1\<rparr> else mb)
      else Inl BadAccess)"

section \<open>Operations\<close>

definition mb_setup :: "nat \<Rightarrow> u32 list \<Rightarrow> u32 \<Rightarrow> kernel \<Rightarrow> kernel" where
  "mb_setup n pool sz s =
     upd_queue (QSender (OMailBox n)) (\<lambda>_. [])
       (upd_mbox n (\<lambda>_. \<lparr>mb_pool = pool, mb_size = unat (ucast sz :: u16), mb_entry = 0,
          in_offset = 0, out_offset = 0\<rparr>) s)"

definition rt_mb_init :: "nat \<Rightarrow> u8 list \<Rightarrow> u32 list \<Rightarrow> u32 \<Rightarrow> u8 \<Rightarrow> kernel \<Rightarrow> (int \<times> kernel) res" where
  "rt_mb_init n name msgpool sz flag s =
     assert_then (flag = RT_IPC_FLAG_FIFO \<or> flag = RT_IPC_FLAG_PRIO) (
     bind_res (rt_object_init (OMailBox n) RT_Object_Class_MailBox name s) (\<lambda>s.
       let s = upd_obj (OMailBox n) (\<lambda>x. x\<lparr>obj_flag := flag\<rparr>) s;
           s = ipc_object_init (OMailBox n) s
       in Inr (RT_EOK, mb_setup n msgpool sz s)))"

definition rt_mb_detach :: "nat \<Rightarrow> kernel \<Rightarrow> (int \<times> kernel) res" where
  "rt_mb_detach n s =
     assert_then (rt_object_get_type (OMailBox n) s = RT_Object_Class_MailBox) (
     assert_then (rt_object_is_systemobject (OMailBox n) s) (
     bind_res (ipc_list_resume_all (QSuspend (OMailBox n)) s) (\<lambda>s.
     bind_res (ipc_list_resume_all (QSender (OMailBox n)) s) (\<lambda>s.
       Inr (RT_EOK, rt_object_detach (OMailBox n) s)))))"

text \<open>\<open>block\<close> is the object the allocation returns, \<open>pool\<close> the memory for
  \<^verbatim>\<open>mb->size\<close> words, when there is any.\<close>

definition rt_mb_create :: "nat option \<Rightarrow> u32 list option \<Rightarrow> u8 list \<Rightarrow> u32 \<Rightarrow> u8 \<Rightarrow> kernel
    \<Rightarrow> (nat option \<times> kernel) res" where
  "rt_mb_create block pool name sz flag s =
     assert_then (flag = RT_IPC_FLAG_FIFO \<or> flag = RT_IPC_FLAG_PRIO) (
     assert_then (RT_DEBUG_NOT_IN_INTERRUPT s) (
     bind_res (rt_object_allocate (map_option OMailBox block) RT_Object_Class_MailBox name s) (\<lambda>(_, s).
       case block of None \<Rightarrow> Inr (None, s)
       | Some n \<Rightarrow>
         let s = upd_obj (OMailBox n) (\<lambda>x. x\<lparr>obj_flag := flag\<rparr>) s;
             s = ipc_object_init (OMailBox n) s
         in case pool of
              None \<Rightarrow> bind_res (rt_object_delete (OMailBox n) s) (\<lambda>s. Inr (None, s))
            | Some p \<Rightarrow> Inr (Some n, mb_setup n p sz s))))"

definition rt_mb_delete :: "nat \<Rightarrow> kernel \<Rightarrow> (int \<times> kernel) res" where
  "rt_mb_delete n s =
     assert_then (rt_object_get_type (OMailBox n) s = RT_Object_Class_MailBox) (
     assert_then (\<not> rt_object_is_systemobject (OMailBox n) s) (
     assert_then (RT_DEBUG_NOT_IN_INTERRUPT s) (
     bind_res (ipc_list_resume_all (QSuspend (OMailBox n)) s) (\<lambda>s.
     bind_res (ipc_list_resume_all (QSender (OMailBox n)) s) (\<lambda>s.
     bind_res (rt_object_delete (OMailBox n) s) (\<lambda>s. Inr (RT_EOK, s)))))))"

text \<open>The end of a send: the mail is stored and the first receiver woken.\<close>

definition mb_send_finish :: "nat \<Rightarrow> u32 \<Rightarrow> kernel \<Rightarrow> (int outcome \<times> kernel) res" where
  "mb_send_finish n value s =
     bind_res (mb_store value (mboxes s n)) (\<lambda>(stored, mb).
       let s = upd_mbox n (\<lambda>_. mb) s
       in if stored then bind_res (ipc_wake (QSuspend (OMailBox n)) s) (\<lambda>s. Inr (Return RT_EOK, s))
          else Inr (Return (- RT_EFULL), s))"

text \<open>The waiting loop from its condition on; \<open>thread\<close> is
  \<^verbatim>\<open>rt_thread_self()\<close>.\<close>

definition mb_send_loop :: "nat \<Rightarrow> u32 \<Rightarrow> int \<Rightarrow> tid option \<Rightarrow> kernel \<Rightarrow> (int outcome \<times> kernel) res" where
  "mb_send_loop n value timeout thread s =
     (if mb_entry (mboxes s n) = mb_size (mboxes s n) then
        case thread of None \<Rightarrow> Inl NullDeref
        | Some thread \<Rightarrow>
          let s = reset_error thread s
          in if timeout = 0 then Inr (Return (- RT_EFULL), s)
             else bind_res (ipc_block (QSender (OMailBox n)) thread timeout (obj_flag (objs s (OMailBox n))) s)
                    (\<lambda>s. Inr (Blocked, s))
      else mb_send_finish n value s)"

definition rt_mb_send_wait :: "nat \<Rightarrow> u32 \<Rightarrow> int \<Rightarrow> kernel \<Rightarrow> (int outcome \<times> kernel) res" where
  "rt_mb_send_wait n value timeout s =
     assert_then (rt_object_get_type (OMailBox n) s = RT_Object_Class_MailBox) (
     assert_then (RT_DEBUG_SCHEDULER_AVAILABLE (timeout \<noteq> 0) s) (
     if mb_entry (mboxes s n) = mb_size (mboxes s n) \<and> timeout = 0 then Inr (Return (- RT_EFULL), s)
     else mb_send_loop n value timeout (rt_thread_self s) s))"

text \<open>What the sender does when it runs again; \<open>tick_delta\<close> is the tick at which it
  was suspended.\<close>

definition rt_mb_send_wait_resume :: "nat \<Rightarrow> u32 \<Rightarrow> int \<Rightarrow> u32 \<Rightarrow> tid \<Rightarrow> kernel \<Rightarrow> (int outcome \<times> kernel) res" where
  "rt_mb_send_wait_resume n value timeout tick_delta thread s =
     (if error (threads s thread) \<noteq> RT_EOK then Inr (Return (error (threads s thread)), s)
      else mb_send_loop n value (time_left timeout tick_delta s) (Some thread) s)"

definition rt_mb_send :: "nat \<Rightarrow> u32 \<Rightarrow> kernel \<Rightarrow> (int outcome \<times> kernel) res" where
  "rt_mb_send n value s = rt_mb_send_wait n value 0 s"

definition rt_mb_urgent :: "nat \<Rightarrow> u32 \<Rightarrow> kernel \<Rightarrow> (int \<times> kernel) res" where
  "rt_mb_urgent n value s =
     assert_then (rt_object_get_type (OMailBox n) s = RT_Object_Class_MailBox) (
     if mb_entry (mboxes s n) = mb_size (mboxes s n) then Inr (- RT_EFULL, s)
     else bind_res (mb_store_urgent value (mboxes s n)) (\<lambda>mb.
          bind_res (ipc_wake (QSuspend (OMailBox n)) (upd_mbox n (\<lambda>_. mb) s)) (\<lambda>s. Inr (RT_EOK, s))))"

text \<open>Receiving; the mail is part of the result when the call returns one.\<close>

definition mb_recv_finish :: "nat \<Rightarrow> kernel \<Rightarrow> (int outcome \<times> u32 option \<times> kernel) res" where
  "mb_recv_finish n s =
     bind_res (mb_fetch (mboxes s n)) (\<lambda>(value, mb).
     bind_res (ipc_wake (QSender (OMailBox n)) (upd_mbox n (\<lambda>_. mb) s)) (\<lambda>s.
       Inr (Return RT_EOK, Some value, s)))"

definition mb_recv_loop :: "nat \<Rightarrow> int \<Rightarrow> tid option \<Rightarrow> kernel \<Rightarrow> (int outcome \<times> u32 option \<times> kernel) res" where
  "mb_recv_loop n timeout thread s =
     (if mb_entry (mboxes s n) = 0 then
        case thread of None \<Rightarrow> Inl NullDeref
        | Some thread \<Rightarrow>
          let s = reset_error thread s
          in if timeout = 0 then
               Inr (Return (- RT_ETIMEOUT), None, upd_thread thread (\<lambda>th. th\<lparr>error := - RT_ETIMEOUT\<rparr>) s)
             else bind_res (ipc_block (QSuspend (OMailBox n)) thread timeout (obj_flag (objs s (OMailBox n))) s)
                    (\<lambda>s. Inr (Blocked, None, s))
      else mb_recv_finish n s)"

definition rt_mb_recv :: "nat \<Rightarrow> int \<Rightarrow> kernel \<Rightarrow> (int outcome \<times> u32 option \<times> kernel) res" where
  "rt_mb_recv n timeout s =
     assert_then (rt_object_get_type (OMailBox n) s = RT_Object_Class_MailBox) (
     assert_then (RT_DEBUG_SCHEDULER_AVAILABLE (timeout \<noteq> 0) s) (
     if mb_entry (mboxes s n) = 0 \<and> timeout = 0 then Inr (Return (- RT_ETIMEOUT), None, s)
     else mb_recv_loop n timeout (rt_thread_self s) s))"

definition rt_mb_recv_resume :: "nat \<Rightarrow> int \<Rightarrow> u32 \<Rightarrow> tid \<Rightarrow> kernel \<Rightarrow> (int outcome \<times> u32 option \<times> kernel) res" where
  "rt_mb_recv_resume n timeout tick_delta thread s =
     (if error (threads s thread) \<noteq> RT_EOK then Inr (Return (error (threads s thread)), None, s)
      else mb_recv_loop n (time_left timeout tick_delta s) (Some thread) s)"

definition rt_mb_control :: "nat \<Rightarrow> int \<Rightarrow> kernel \<Rightarrow> (int \<times> kernel) res" where
  "rt_mb_control n cmd s =
     assert_then (rt_object_get_type (OMailBox n) s = RT_Object_Class_MailBox) (
     if cmd = 1 then
       bind_res (ipc_list_resume_all (QSuspend (OMailBox n)) s) (\<lambda>s.
       bind_res (ipc_list_resume_all (QSender (OMailBox n)) s) (\<lambda>s.
       bind_res (rt_schedule (upd_mbox n (\<lambda>mb. mb\<lparr>mb_entry := 0, in_offset := 0, out_offset := 0\<rparr>) s)) (\<lambda>s.
         Inr (RT_EOK, s))))
     else Inr (- RT_ERROR, s))"

section \<open>The array holds a queue of mails\<close>

definition mb_inv :: "mailbox \<Rightarrow> bool" where
  "mb_inv mb \<longleftrightarrow> length (mb_pool mb) = mb_size mb \<and> 0 < mb_size mb \<and> mb_size mb \<le> 65535
     \<and> mb_entry mb \<le> mb_size mb \<and> out_offset mb < mb_size mb
     \<and> in_offset mb = (out_offset mb + mb_entry mb) mod mb_size mb"

definition mails :: "mailbox \<Rightarrow> u32 list" where
  "mails mb = ring_seg (mb_pool mb) (out_offset mb) (mb_entry mb)"

lemma length_mails [simp]: "length (mails mb) = mb_entry mb"
  by (simp add: mails_def)

lemma next_offset: "i < (n::nat) \<Longrightarrow> n \<le> 65535 \<Longrightarrow>
  (if n \<le> Suc i mod 65536 then 0 else Suc i mod 65536) = Suc i mod n"
  by (cases "Suc i = n") auto

lemma mb_store_ok:
  assumes i: "mb_inv mb" and e: "mb_entry mb \<noteq> mb_size mb"
  obtains mb' where "mb_store v mb = Inr (True, mb')" "mb_inv mb'" "mails mb' = mails mb @ [v]"
    "mb_size mb' = mb_size mb"
proof -
  let ?N = "mb_size mb" let ?w = "in_offset mb"
  note d = i [unfolded mb_inv_def]
  have w: "?w < ?N" using d by simp
  have e': "mb_entry mb < ?N" using d e by simp
  let ?mb = "mb\<lparr>mb_pool := (mb_pool mb)[?w := v], in_offset := Suc ?w mod ?N, mb_entry := Suc (mb_entry mb)\<rparr>"
  have nx: "(if ?N \<le> Suc ?w mod 65536 then 0 else Suc ?w mod 65536) = Suc ?w mod ?N"
    by (rule next_offset) (use w d in simp_all)
  show thesis
  proof (rule that [of ?mb])
    have "mb_entry mb < 65535" using e' d by simp
    then show "mb_store v mb = Inr (True, ?mb)"
      using w d nx by (auto simp: mb_store_def Let_def)
    have "Suc ?w mod ?N = (out_offset mb + Suc (mb_entry mb)) mod ?N"
      using d by (simp add: mod_Suc_eq)
    then show "mb_inv ?mb" using d e' by (simp add: mb_inv_def)
    have "mails ?mb = ring_seg (ring_write (mb_pool mb) ((out_offset mb + mb_entry mb) mod length (mb_pool mb)) [v])
        (out_offset mb) (mb_entry mb + length [v])"
      using d w by (simp add: mails_def ring_write_single)
    also have "\<dots> = ring_seg (mb_pool mb) (out_offset mb) (mb_entry mb) @ [v]"
      by (rule ring_seg_write) (use d e' in simp_all)
    finally show "mails ?mb = mails mb @ [v]" by (simp add: mails_def)
  qed simp
qed

lemma mb_fetch_ok:
  assumes i: "mb_inv mb" and e: "mb_entry mb \<noteq> 0"
  obtains v mb' where "mb_fetch mb = Inr (v, mb')" "mb_inv mb'" "mails mb = v # mails mb'"
    "mb_size mb' = mb_size mb"
proof -
  let ?N = "mb_size mb" let ?r = "out_offset mb"
  note d = i [unfolded mb_inv_def]
  obtain k where k: "mb_entry mb = Suc k" using e by (cases "mb_entry mb") auto
  let ?mb = "mb\<lparr>out_offset := Suc ?r mod ?N, mb_entry := mb_entry mb - 1\<rparr>"
  have nx: "(if ?N \<le> Suc ?r mod 65536 then 0 else Suc ?r mod 65536) = Suc ?r mod ?N"
    by (rule next_offset) (use d in simp_all)
  show thesis
  proof (rule that [of "mb_pool mb ! ?r" ?mb])
    show "mb_fetch mb = Inr (mb_pool mb ! ?r, ?mb)"
      using d k nx by (auto simp: mb_fetch_def Let_def)
    have "(Suc ?r mod ?N + k) mod ?N = (?r + Suc k) mod ?N" by (simp add: mod_add_left_eq)
    then show "mb_inv ?mb" using d k by (simp add: mb_inv_def)
    have "ring_seg (mb_pool mb) ?r (1 + k) = ring_seg (mb_pool mb) ?r 1 @ ring_seg (mb_pool mb) (?r + 1) k"
      by (rule ring_seg_append)
    moreover have "ring_seg (mb_pool mb) ?r 1 = [mb_pool mb ! ?r]" using d by (simp add: ring_seg_def)
    moreover have "ring_seg (mb_pool mb) (Suc ?r mod ?N) k = ring_seg (mb_pool mb) (Suc ?r) k"
      using d ring_seg_mod [of "mb_pool mb" "Suc ?r" k] by simp
    ultimately show "mails mb = mb_pool mb ! ?r # mails ?mb" using k by (simp add: mails_def)
  qed simp
qed

lemma mb_store_urgent_ok:
  assumes i: "mb_inv mb" and e: "mb_entry mb \<noteq> mb_size mb"
  obtains mb' where "mb_store_urgent v mb = Inr mb'" "mb_inv mb'" "mails mb' = v # mails mb"
    "mb_size mb' = mb_size mb"
proof -
  let ?N = "mb_size mb" let ?k = "mb_entry mb"
  note d = i [unfolded mb_inv_def]
  define r where "r = (if out_offset mb > 0 then out_offset mb - 1 else ?N - 1)"
  have r: "r < ?N" "Suc r mod ?N = out_offset mb"
    using d by (auto simp: r_def)
  have k: "?k < ?N" using d e by simp
  let ?mb = "mb\<lparr>mb_pool := (mb_pool mb)[r := v], out_offset := r, mb_entry := Suc ?k\<rparr>"
  show thesis
  proof (rule that [of ?mb])
    have "Suc ?k mod 65536 = Suc ?k" using k d by simp
    then show "mb_store_urgent v mb = Inr ?mb"
      using d r(1) unfolding mb_store_urgent_def by (auto simp: r_def Let_def)
    have "(out_offset mb + ?k) mod ?N = (r + Suc ?k) mod ?N"
      using r(2) mod_add_left_eq [of "Suc r" ?N ?k] by simp
    then show "mb_inv ?mb" using d k r by (simp add: mb_inv_def)
    have "ring_seg ((mb_pool mb)[r := v]) r (1 + ?k) =
        ring_seg ((mb_pool mb)[r := v]) r 1 @ ring_seg ((mb_pool mb)[r := v]) (r + 1) ?k"
      by (rule ring_seg_append)
    moreover have "ring_seg ((mb_pool mb)[r := v]) r 1 = [v]" using d r by (simp add: ring_seg_def)
    moreover have "ring_seg ((mb_pool mb)[r := v]) (Suc r) ?k = ring_seg (mb_pool mb) (out_offset mb) ?k"
    proof (rule nth_equalityI)
      fix j assume "j < length (ring_seg ((mb_pool mb)[r := v]) (Suc r) ?k)"
      then have j: "j < ?k" by simp
      have p: "(Suc r + j) mod ?N = (out_offset mb + j) mod ?N"
        using r(2) mod_add_left_eq [of "Suc r" ?N j] by simp
      have "(Suc r + j) mod ?N \<noteq> r"
      proof (cases "Suc r + j < ?N")
        case False
        then have "(Suc r + j) mod ?N = Suc r + j - ?N" using r(1) j k by (simp add: le_mod_geq)
        then show ?thesis using r(1) j k False by linarith
      qed simp
      then show "ring_seg ((mb_pool mb)[r := v]) (Suc r) ?k ! j = ring_seg (mb_pool mb) (out_offset mb) ?k ! j"
        using j d p by (simp add: nth_ring_seg nth_list_update)
    qed simp
    ultimately show "mails ?mb = v # mails mb" by (simp add: mails_def)
  qed simp
qed

text \<open>The bounded queue of the interface.\<close>

definition mb_put :: "u32 \<Rightarrow> mailbox \<Rightarrow> mailbox option" where
  "mb_put v mb = (if mb_entry mb = mb_size mb then None
     else case mb_store v mb of Inr (True, mb') \<Rightarrow> Some mb' | _ \<Rightarrow> None)"

definition mb_get :: "mailbox \<Rightarrow> (u32 \<times> mailbox) option" where
  "mb_get mb = (if mb_entry mb = 0 then None
     else case mb_fetch mb of Inr r \<Rightarrow> Some r | Inl _ \<Rightarrow> None)"

interpretation mbq: bounded_fifo mb_inv mails mb_size mb_put mb_get "\<lambda>_. True"
proof
  fix mb v assume i: "mb_inv mb"
  show "length (mails mb) \<le> mb_size mb" using i by (simp add: mb_inv_def)
  show "mb_put v mb = None" if "length (mails mb) = mb_size mb" using that by (simp add: mb_put_def)
  show "\<exists>mb'. mb_put v mb = Some mb' \<and> mb_inv mb' \<and> mails mb' = mails mb @ [v] \<and> mb_size mb' = mb_size mb"
    if l: "length (mails mb) < mb_size mb"
  proof -
    have e: "mb_entry mb \<noteq> mb_size mb" using l by simp
    show ?thesis by (rule mb_store_ok [OF i e, of v]) (use e in \<open>simp add: mb_put_def\<close>)
  qed
  show "mb_get mb = None" if "mails mb = []"
    using that length_mails [of mb] by (simp add: mb_get_def)
  show "\<exists>mb'. mb_get mb = Some (x, mb') \<and> mb_inv mb' \<and> mails mb' = xs \<and> mb_size mb' = mb_size mb"
    if c: "mails mb = x # xs" for x xs
  proof -
    have e: "mb_entry mb \<noteq> 0" using c length_mails [of mb] by auto
    show ?thesis by (rule mb_fetch_ok [OF i e]) (use e c in \<open>simp add: mb_get_def\<close>)
  qed
qed

section \<open>Correctness\<close>

definition mb_valid :: "nat \<Rightarrow> kernel \<Rightarrow> bool" where
  "mb_valid n s \<longleftrightarrow> rt_object_get_type (OMailBox n) s = RT_Object_Class_MailBox
     \<and> obj_flag (objs s (OMailBox n)) \<in> {RT_IPC_FLAG_FIFO, RT_IPC_FLAG_PRIO} \<and> mb_inv (mboxes s n)"

lemma mb_valid_same:
  "ipc_same s' s \<Longrightarrow> mb_valid n s' = mb_valid n s"
  by (simp add: mb_valid_def rt_object_get_type_def ipc_same_def)

lemma upd_mbox_fields [simp]:
  "cur (upd_mbox n f s) = cur s" "lock_nest (upd_mbox n f s) = lock_nest s" "irq_nest (upd_mbox n f s) = irq_nest s"
  "queues (upd_mbox n f s) = queues s" "objs (upd_mbox n f s) = objs s" "threads (upd_mbox n f s) = threads s"
  "mboxes (upd_mbox n f s) = (mboxes s)(n := f (mboxes s n))" "ready_group (upd_mbox n f s) = ready_group s"
  by (simp_all add: upd_mbox_def)

lemma running_upd_mbox: "running (upd_mbox n f s) c = running s c"
  by (simp add: running_def kinv_def upd_mbox_def kinv_other_fields)

lemma ipc_same_mboxes: "ipc_same s' (upd_mbox n (\<lambda>_. mb) s) \<Longrightarrow> mboxes s' = (mboxes s)(n := mb)"
  by (simp add: ipc_same_def)

lemma mb_send_finish_ok:
  assumes r: "running s c" and v: "mb_valid n s" and e: "mb_entry (mboxes s n) \<noteq> mb_size (mboxes s n)"
  obtains s' where "mb_send_finish n value s = Inr (Return RT_EOK, s')" "kinv s'" "mb_valid n s'"
    "mails (mboxes s' n) = mails (mboxes s n) @ [value]" "woke_first (QSuspend (OMailBox n)) s s'"
    "queues s' (QSender (OMailBox n)) = queues s (QSender (OMailBox n))"
proof -
  have i: "mb_inv (mboxes s n)" using v by (simp add: mb_valid_def)
  obtain mb where mb: "mb_store value (mboxes s n) = Inr (True, mb)" "mb_inv mb"
    "mails mb = mails (mboxes s n) @ [value]" "mb_size mb = mb_size (mboxes s n)"
    by (rule mb_store_ok [OF i e]) blast
  let ?s = "upd_mbox n (\<lambda>_. mb) s"
  have r1: "running ?s c" using r by (simp add: running_upd_mbox)
  obtain s' where s': "ipc_wake (QSuspend (OMailBox n)) ?s = Inr s'" "kinv s'" "ipc_same s' ?s"
    "woke_first (QSuspend (OMailBox n)) ?s s'"
    "\<And>q'. q' \<noteq> QSuspend (OMailBox n) \<Longrightarrow> \<forall>p. q' \<noteq> QReady p \<Longrightarrow> queues s' q' = queues ?s q'"
    by (rule wake_first_ok [OF r1 waits_in_simps(1)]) blast
  show thesis
  proof (rule that [of s'])
    show "mb_send_finish n value s = Inr (Return RT_EOK, s')"
      using mb(1) s'(1) by (simp add: mb_send_finish_def Let_def)
    show "mails (mboxes s' n) = mails (mboxes s n) @ [value]" using ipc_same_mboxes [OF s'(3)] mb by simp
    have "mb_valid n ?s" using v mb by (simp add: mb_valid_def rt_object_get_type_def)
    then show "mb_valid n s'" using mb_valid_same [OF s'(3)] by simp
    show "woke_first (QSuspend (OMailBox n)) s s'" using s'(4) by (simp add: woke_first_def)
    show "queues s' (QSender (OMailBox n)) = queues s (QSender (OMailBox n))"
      using s'(5) [of "QSender (OMailBox n)"] by simp
  qed (use s' in simp)
qed

lemma mb_recv_finish_ok:
  assumes r: "running s c" and v: "mb_valid n s" and e: "mb_entry (mboxes s n) \<noteq> 0"
  obtains x s' where "mb_recv_finish n s = Inr (Return RT_EOK, Some x, s')" "kinv s'" "mb_valid n s'"
    "mails (mboxes s n) = x # mails (mboxes s' n)" "woke_first (QSender (OMailBox n)) s s'"
    "queues s' (QSuspend (OMailBox n)) = queues s (QSuspend (OMailBox n))"
    "mb_size (mboxes s' n) = mb_size (mboxes s n)"
proof -
  have i: "mb_inv (mboxes s n)" using v by (simp add: mb_valid_def)
  obtain x mb where mb: "mb_fetch (mboxes s n) = Inr (x, mb)" "mb_inv mb"
    "mails (mboxes s n) = x # mails mb" "mb_size mb = mb_size (mboxes s n)"
    by (rule mb_fetch_ok [OF i e]) blast
  let ?s = "upd_mbox n (\<lambda>_. mb) s"
  have r1: "running ?s c" using r by (simp add: running_upd_mbox)
  obtain s' where s': "ipc_wake (QSender (OMailBox n)) ?s = Inr s'" "kinv s'" "ipc_same s' ?s"
    "woke_first (QSender (OMailBox n)) ?s s'"
    "\<And>q'. q' \<noteq> QSender (OMailBox n) \<Longrightarrow> \<forall>p. q' \<noteq> QReady p \<Longrightarrow> queues s' q' = queues ?s q'"
    by (rule wake_first_ok [OF r1 waits_in_simps(2)]) blast
  show thesis
  proof (rule that [of x s'])
    show "mb_recv_finish n s = Inr (Return RT_EOK, Some x, s')"
      using mb(1) s'(1) by (simp add: mb_recv_finish_def Let_def)
    show "mails (mboxes s n) = x # mails (mboxes s' n)" "mb_size (mboxes s' n) = mb_size (mboxes s n)"
      using ipc_same_mboxes [OF s'(3)] mb by simp_all
    have "mb_valid n ?s" using v mb by (simp add: mb_valid_def rt_object_get_type_def)
    then show "mb_valid n s'" using mb_valid_same [OF s'(3)] by simp
    show "woke_first (QSender (OMailBox n)) s s'" using s'(4) by (simp add: woke_first_def)
    show "queues s' (QSuspend (OMailBox n)) = queues s (QSuspend (OMailBox n))"
      using s'(5) [of "QSuspend (OMailBox n)"] by simp
  qed (use s' in simp)
qed

text \<open>C11: sending.  In thread context, with the kernel invariant, on a valid mailbox whose
  array is a queue of mails, and a timeout below the timer horizon,
  \<^verbatim>\<open>rt_mb_send_wait\<close> never faults and keeps the invariants.  With room the mail goes
  behind all others and the first waiting receiver is woken; without, a call that may not wait returns
  \<^verbatim>\<open>-RT_EFULL\<close> and changes nothing, and any other suspends the caller among the
  senders, the mails untouched.\<close>

theorem rt_mb_send_correct:
  assumes "running s c" "mb_valid n s" "timeout < 0x7fffffff"
  shows "\<exists>r s'. rt_mb_send_wait n value timeout s = Inr (r, s') \<and> kinv s' \<and> mb_valid n s' \<and>
    (if length (mails (mboxes s n)) < mb_size (mboxes s n) then
       r = Return RT_EOK \<and> mails (mboxes s' n) = mails (mboxes s n) @ [value]
         \<and> woke_first (QSuspend (OMailBox n)) s s'
     else if timeout = 0 then r = Return (- RT_EFULL) \<and> s' = s
     else r = Blocked \<and> mboxes s' = mboxes s
         \<and> waiting_in (QSender (OMailBox n)) (obj_flag (objs s (OMailBox n))) c s s')"
proof -
  note d = runningD [OF assms(1)]
  have ty: "rt_object_get_type (OMailBox n) s = RT_Object_Class_MailBox"
    and fl: "obj_flag (objs s (OMailBox n)) \<in> {RT_IPC_FLAG_FIFO, RT_IPC_FLAG_PRIO}"
    and i: "mb_inv (mboxes s n)" using assms(2) by (simp_all add: mb_valid_def)
  have ctx: "RT_DEBUG_SCHEDULER_AVAILABLE b s" for b
    using d(6) by (simp add: RT_DEBUG_SCHEDULER_AVAILABLE_def)
  have le: "mb_entry (mboxes s n) \<le> mb_size (mboxes s n)" using i by (simp add: mb_inv_def)
  consider (room) "mb_entry (mboxes s n) \<noteq> mb_size (mboxes s n)"
    | (full) "mb_entry (mboxes s n) = mb_size (mboxes s n)" "timeout = 0"
    | (wait) "mb_entry (mboxes s n) = mb_size (mboxes s n)" "timeout \<noteq> 0" by blast
  then show ?thesis
  proof cases
    case room
    show ?thesis
      by (rule mb_send_finish_ok [OF assms(1,2) room, of "value"])
        (use room ty ctx le in \<open>auto simp: rt_mb_send_wait_def mb_send_loop_def\<close>)
  next
    case full
    then show ?thesis using ty ctx assms(1,2) by (simp add: rt_mb_send_wait_def running_def)
  next
    case wait
    obtain s' where s': "ipc_block (QSender (OMailBox n)) c timeout (obj_flag (objs s (OMailBox n))) (reset_error c s) = Inr s'"
      "kinv s'" "ipc_same s' s" "waiting_in (QSender (OMailBox n)) (obj_flag (objs s (OMailBox n))) c s s'"
      by (rule ipc_block_waits [OF assms(1) waits_in_simps(2) fl assms(3)]) blast
    have "rt_mb_send_wait n value timeout s = Inr (Blocked, s')"
      using wait ty ctx d(7) s'(1) by (simp add: rt_mb_send_wait_def mb_send_loop_def Let_def)
    moreover have "mb_valid n s'" using mb_valid_same [OF s'(3)] assms(2) by simp
    moreover have "mboxes s' = mboxes s" using s'(3) by (simp add: ipc_same_def)
    ultimately show ?thesis using s' wait by simp
  qed
qed

text \<open>C12: receiving, with the same assumptions: a mail that is there is the oldest one and makes
  room for the first waiting sender, which is woken; otherwise the call returns
  \<^verbatim>\<open>-RT_ETIMEOUT\<close> and changes nothing, or the caller is suspended among the
  receivers.\<close>

theorem rt_mb_recv_correct:
  assumes "running s c" "mb_valid n s" "timeout < 0x7fffffff"
  shows "\<exists>r value s'. rt_mb_recv n timeout s = Inr (r, value, s') \<and> kinv s' \<and> mb_valid n s' \<and>
    (case mails (mboxes s n) of
       x # rest \<Rightarrow> r = Return RT_EOK \<and> value = Some x \<and> mails (mboxes s' n) = rest
         \<and> woke_first (QSender (OMailBox n)) s s'
     | [] \<Rightarrow> value = None \<and> (if timeout = 0 then r = Return (- RT_ETIMEOUT) \<and> s' = s
         else r = Blocked \<and> mboxes s' = mboxes s
           \<and> waiting_in (QSuspend (OMailBox n)) (obj_flag (objs s (OMailBox n))) c s s'))"
proof -
  note d = runningD [OF assms(1)]
  have ty: "rt_object_get_type (OMailBox n) s = RT_Object_Class_MailBox"
    and fl: "obj_flag (objs s (OMailBox n)) \<in> {RT_IPC_FLAG_FIFO, RT_IPC_FLAG_PRIO}"
    using assms(2) by (simp_all add: mb_valid_def)
  have ctx: "RT_DEBUG_SCHEDULER_AVAILABLE b s" for b
    using d(6) by (simp add: RT_DEBUG_SCHEDULER_AVAILABLE_def)
  consider (mail) "mb_entry (mboxes s n) \<noteq> 0" | (none) "mb_entry (mboxes s n) = 0" "timeout = 0"
    | (wait) "mb_entry (mboxes s n) = 0" "timeout \<noteq> 0" by blast
  then show ?thesis
  proof cases
    case mail
    show ?thesis
      by (rule mb_recv_finish_ok [OF assms(1,2) mail])
        (use mail ty ctx in \<open>auto simp: rt_mb_recv_def mb_recv_loop_def\<close>)
  next
    case none
    then have "mails (mboxes s n) = []" by (simp add: mails_def)
    then show ?thesis using none ty ctx assms(1,2) by (simp add: rt_mb_recv_def running_def)
  next
    case wait
    obtain s' where s': "ipc_block (QSuspend (OMailBox n)) c timeout (obj_flag (objs s (OMailBox n))) (reset_error c s) = Inr s'"
      "kinv s'" "ipc_same s' s" "waiting_in (QSuspend (OMailBox n)) (obj_flag (objs s (OMailBox n))) c s s'"
      by (rule ipc_block_waits [OF assms(1) waits_in_simps(1) fl assms(3)]) blast
    have "rt_mb_recv n timeout s = Inr (Blocked, None, s')"
      using wait ty ctx d(7) s'(1) by (simp add: rt_mb_recv_def mb_recv_loop_def Let_def)
    moreover have "mb_valid n s'" using mb_valid_same [OF s'(3)] assms(2) by simp
    moreover have "mails (mboxes s n) = []" using wait by (simp add: mails_def)
    moreover have "mboxes s' = mboxes s" using s'(3) by (simp add: ipc_same_def)
    ultimately show ?thesis using s' wait by simp
  qed
qed

text \<open>A suspended call that runs again with an error returns it; with its wait over it goes through
  the same steps as a new call with the time left.\<close>

lemma mb_send_resume:
  assumes "running s c"
  shows "rt_mb_send_wait_resume n value timeout tick_delta c s =
    (if error (threads s c) \<noteq> RT_EOK then Inr (Return (error (threads s c)), s)
     else mb_send_loop n value (time_left timeout tick_delta s) (rt_thread_self s) s)"
  using runningD(7) [OF assms] by (simp add: rt_mb_send_wait_resume_def)


text \<open>The array of a mailbox is a bounded first-in first-out queue: over any sequence of
  mails stored (when there is room) and fetched (when there is one), what came out followed by what is still
  held is what was held followed by what was accepted.\<close>

lemma rt_mb_fifo:
  assumes "mb_inv mb"
  shows "case mbq.run ops mb of (accepted, outs, mb') \<Rightarrow>
    mb_inv mb' \<and> outs @ mails mb' = mails mb @ accepted \<and> length (mails mb') \<le> mb_size mb"
proof -
  have "mbq.items ops" by (simp add: mbq.items_def)
  then show ?thesis using mbq.run_order [OF assms] by (auto split: prod.splits)
qed

section \<open>Examples\<close>

definition demo_mb :: mailbox where
  "demo_mb = \<lparr>mb_pool = [7, 8], mb_size = 2, mb_entry = 2, in_offset = 1, out_offset = 1\<rparr>"

lemma demo_mb: "mb_inv demo_mb" "mails demo_mb = [8, 7]"
  by (simp add: mb_inv_def demo_mb_def) (simp add: demo_mb_def mails_def ring_seg_def upt_rec)

lemma rt_mb_fifo_example:
  "case mbq.run [Put 1, Get, Put 2] demo_mb of (accepted, outs, mb') \<Rightarrow>
     outs @ mails mb' = [8, 7] @ accepted"
  using rt_mb_fifo [of demo_mb "[Put 1, Get, Put 2]"] demo_mb by (auto split: prod.splits)

text \<open>A full mailbox with a suspended sender.\<close>

definition demo_full :: kernel where
  "demo_full = upd_mbox 0 (\<lambda>_. demo_mb) (demo_wait (QSender (OMailBox 0)) id)"

lemma demo_full: "running demo_full 1" "mb_valid 0 demo_full" "mboxes demo_full 0 = demo_mb"
  "queues demo_full (QSender (OMailBox 0)) = [3]"
proof -
  have "running (demo_wait (QSender (OMailBox 0)) id) 1" by (rule demo_wait_running) simp_all
  then show "running demo_full 1" by (simp add: demo_full_def running_upd_mbox)
  show m: "mboxes demo_full 0 = demo_mb" by (simp add: demo_full_def)
  show "mb_valid 0 demo_full" using demo_mb(1) m
    by (simp add: mb_valid_def rt_object_get_type_def) (simp add: demo_full_def demo_wait_fields demo_kernel_def)
  show "queues demo_full (QSender (OMailBox 0)) = [3]" by (simp add: demo_full_def demo_wait_fields)
qed

theorem rt_mb_send_correct_witness:
  "\<exists>s'. rt_mb_send_wait 0 9 5 demo_full = Inr (Blocked, s') \<and> queues s' (QSender (OMailBox 0)) = [3, 1]"
  using rt_mb_send_correct [of demo_full 1 0 5 9] demo_full
  by (auto simp: demo_mb_def waiting_in_def enqueue_def demo_full_def demo_wait_fields demo_kernel_def)

theorem rt_mb_recv_correct_witness:
  "\<exists>s'. rt_mb_recv 0 0 demo_full = Inr (Return RT_EOK, Some 8, s') \<and> mails (mboxes s' 0) = [7]"
  using rt_mb_recv_correct [of demo_full 1 0 0] demo_full demo_mb(2) by auto


end
