(* ===== verification/MsgQueue.thy ===== *)
theory MsgQueue
  imports IpcWake Ring
begin

text \<open>
  Message queues, \<^verbatim>\<open>rt_mq_init\<close> to \<^verbatim>\<open>rt_mq_control\<close> of
  \<^verbatim>\<open>rt-thread/src/ipc.c\<close>.  The nodes of the pool are linked into the list of messages and
  the list of free nodes.  Sending and receiving leave the critical section while they copy, with the node
  in hand: the copies are steps of their own, and the interleavings of many senders and receivers are a
  step relation.
\<close>

section \<open>Nodes\<close>

abbreviation (input) RT_MQ_ENTRY_MAX :: nat where "RT_MQ_ENTRY_MAX \<equiv> 65535"

definition mq_node_at :: "msgqueue \<Rightarrow> nat \<Rightarrow> mq_node res" where
  "mq_node_at mq i = (if i < length (mq_pool mq) then Inr (mq_pool mq ! i) else Inl BadAccess)"

definition mq_set_next :: "nat \<Rightarrow> nat option \<Rightarrow> msgqueue \<Rightarrow> msgqueue" where
  "mq_set_next i p mq = mq\<lparr>mq_pool := (mq_pool mq)[i := (mq_pool mq ! i)\<lparr>mq_next := p\<rparr>]\<rparr>"

text \<open>\<^verbatim>\<open>msg = mq->msg_queue_free; mq->msg_queue_free = msg->next\<close>.\<close>

definition mq_alloc :: "msgqueue \<Rightarrow> (nat \<times> msgqueue) res" where
  "mq_alloc mq = (case msg_queue_free mq of None \<Rightarrow> Inl NullDeref
     | Some i \<Rightarrow> bind_res (mq_node_at mq i) (\<lambda>x. Inr (i, mq\<lparr>msg_queue_free := mq_next x\<rparr>)))"

text \<open>\<^verbatim>\<open>rt_memcpy(msg + 1, buffer, size)\<close>.\<close>

definition mq_fill :: "nat \<Rightarrow> u8 list \<Rightarrow> nat \<Rightarrow> msgqueue \<Rightarrow> msgqueue" where
  "mq_fill i buffer sz mq =
     mq\<lparr>mq_pool := (mq_pool mq)[i := (mq_pool mq ! i)\<lparr>mq_data := memcpy_at (mq_data (mq_pool mq ! i)) 0 buffer 0 sz\<rparr>]\<rparr>"

text \<open>Counting the message, whether it was counted.\<close>

definition mq_count :: "msgqueue \<Rightarrow> bool \<times> msgqueue" where
  "mq_count mq = (if mq_entry mq < RT_MQ_ENTRY_MAX then (True, mq\<lparr>mq_entry := Suc (mq_entry mq)\<rparr>) else (False, mq))"

definition mq_link :: "nat \<Rightarrow> msgqueue \<Rightarrow> bool \<times> msgqueue" where
  "mq_link i mq =
     (let mq = (case msg_queue_tail mq of None \<Rightarrow> mq | Some j \<Rightarrow> mq_set_next j (Some i) mq);
          mq = mq\<lparr>msg_queue_tail := Some i\<rparr>;
          mq = (if msg_queue_head mq = None then mq\<lparr>msg_queue_head := Some i\<rparr> else mq)
      in mq_count mq)"

definition mq_link_front :: "nat \<Rightarrow> msgqueue \<Rightarrow> bool \<times> msgqueue" where
  "mq_link_front i mq =
     (let mq = mq_set_next i (msg_queue_head mq) mq;
          mq = mq\<lparr>msg_queue_head := Some i\<rparr>;
          mq = (if msg_queue_tail mq = None then mq\<lparr>msg_queue_tail := Some i\<rparr> else mq)
      in mq_count mq)"

text \<open>The head leaves the list; a NULL head would be followed.\<close>

definition mq_behead :: "msgqueue \<Rightarrow> (nat \<times> msgqueue) res" where
  "mq_behead mq = (case msg_queue_head mq of None \<Rightarrow> Inl NullDeref
     | Some i \<Rightarrow> bind_res (mq_node_at mq i) (\<lambda>x.
         let mq = mq\<lparr>msg_queue_head := mq_next x\<rparr>;
             mq = (if msg_queue_tail mq = Some i then mq\<lparr>msg_queue_tail := None\<rparr> else mq)
         in Inr (i, mq)))"

definition mq_unlink :: "msgqueue \<Rightarrow> (nat \<times> msgqueue) res" where
  "mq_unlink mq = bind_res (mq_behead mq) (\<lambda>(i, mq).
     Inr (i, if mq_entry mq > 0 then mq\<lparr>mq_entry := mq_entry mq - 1\<rparr> else mq))"

text \<open>\<^verbatim>\<open>rt_memcpy(buffer, msg + 1, size > mq->msg_size ? mq->msg_size : size)\<close>,
  as the bytes copied.\<close>

definition mq_copy_out :: "nat \<Rightarrow> nat \<Rightarrow> msgqueue \<Rightarrow> u8 list" where
  "mq_copy_out i sz mq = take (if sz > msg_size mq then msg_size mq else sz) (mq_data (mq_pool mq ! i))"

definition mq_free_node :: "nat \<Rightarrow> msgqueue \<Rightarrow> msgqueue" where
  "mq_free_node i mq = (mq_set_next i (msg_queue_free mq) mq)\<lparr>msg_queue_free := Some i\<rparr>"

text \<open>The initial free list, built from the first node on.\<close>

primrec mq_free_all :: "nat \<Rightarrow> msgqueue \<Rightarrow> msgqueue" where
  "mq_free_all 0 mq = mq"
| "mq_free_all (Suc temp) mq = mq_free_node temp (mq_free_all temp mq)"

text \<open>Releasing all messages; the loop would run forever on a circular list, hence the fuel.\<close>

fun mq_flush_loop :: "nat \<Rightarrow> msgqueue \<Rightarrow> msgqueue res" where
  "mq_flush_loop 0 mq = Inl OutOfFuel"
| "mq_flush_loop (Suc fuel) mq =
     (if msg_queue_head mq = None then Inr mq
      else bind_res (mq_behead mq) (\<lambda>(i, mq). mq_flush_loop fuel (mq_free_node i mq)))"

section \<open>Operations\<close>

text \<open>\<open>blocks\<close> are the message areas of the pool's memory, one for each node.\<close>

definition mq_setup :: "nat \<Rightarrow> u8 list list \<Rightarrow> u16 \<Rightarrow> u16 \<Rightarrow> kernel \<Rightarrow> kernel" where
  "mq_setup n blocks sz max_n s =
     upd_queue (QSender (OMsgQueue n)) (\<lambda>_. [])
       (upd_mq n (\<lambda>_. mq_free_all (unat max_n)
          \<lparr>mq_pool = map (\<lambda>b. \<lparr>mq_next = None, mq_data = b\<rparr>) blocks, msg_size = unat sz, max_msgs = unat max_n,
           mq_entry = 0, msg_queue_head = None, msg_queue_tail = None, msg_queue_free = None\<rparr>) s)"

definition rt_mq_init :: "nat \<Rightarrow> u8 list \<Rightarrow> u8 list list \<Rightarrow> u32 \<Rightarrow> u32 \<Rightarrow> u8 \<Rightarrow> kernel \<Rightarrow> (int \<times> kernel) res" where
  "rt_mq_init n name blocks sz pool_size flag s =
     assert_then (flag = RT_IPC_FLAG_FIFO \<or> flag = RT_IPC_FLAG_PRIO) (
     bind_res (rt_object_init (OMsgQueue n) RT_Object_Class_MessageQueue name s) (\<lambda>s.
       let s = upd_obj (OMsgQueue n) (\<lambda>x. x\<lparr>obj_flag := flag\<rparr>) s;
           s = ipc_object_init (OMsgQueue n) s;
           sz = ucast (RT_ALIGN sz 4) :: u16;
           max_n = ucast (pool_size div (ucast sz + 4)) :: u16
       in Inr (RT_EOK, mq_setup n blocks sz max_n s)))"

definition rt_mq_detach :: "nat \<Rightarrow> kernel \<Rightarrow> (int \<times> kernel) res" where
  "rt_mq_detach n s =
     assert_then (rt_object_get_type (OMsgQueue n) s = RT_Object_Class_MessageQueue) (
     assert_then (rt_object_is_systemobject (OMsgQueue n) s) (
     bind_res (ipc_list_resume_all (QSuspend (OMsgQueue n)) s) (\<lambda>s.
     bind_res (ipc_list_resume_all (QSender (OMsgQueue n)) s) (\<lambda>s.
       Inr (RT_EOK, rt_object_detach (OMsgQueue n) s)))))"

definition rt_mq_create :: "nat option \<Rightarrow> u8 list list option \<Rightarrow> u8 list \<Rightarrow> u32 \<Rightarrow> u32 \<Rightarrow> u8 \<Rightarrow> kernel
    \<Rightarrow> (nat option \<times> kernel) res" where
  "rt_mq_create block pool name sz max_n flag s =
     assert_then (flag = RT_IPC_FLAG_FIFO \<or> flag = RT_IPC_FLAG_PRIO) (
     assert_then (RT_DEBUG_NOT_IN_INTERRUPT s) (
     bind_res (rt_object_allocate (map_option OMsgQueue block) RT_Object_Class_MessageQueue name s) (\<lambda>(_, s).
       case block of None \<Rightarrow> Inr (None, s)
       | Some n \<Rightarrow>
         let s = upd_obj (OMsgQueue n) (\<lambda>x. x\<lparr>obj_flag := flag\<rparr>) s;
             s = ipc_object_init (OMsgQueue n) s
         in case pool of
              None \<Rightarrow> bind_res (rt_object_delete (OMsgQueue n) s) (\<lambda>s. Inr (None, s))
            | Some blocks \<Rightarrow> Inr (Some n, mq_setup n blocks (ucast (RT_ALIGN sz 4)) (ucast max_n) s))))"

definition rt_mq_delete :: "nat \<Rightarrow> kernel \<Rightarrow> (int \<times> kernel) res" where
  "rt_mq_delete n s =
     assert_then (rt_object_get_type (OMsgQueue n) s = RT_Object_Class_MessageQueue) (
     assert_then (\<not> rt_object_is_systemobject (OMsgQueue n) s) (
     assert_then (RT_DEBUG_NOT_IN_INTERRUPT s) (
     bind_res (ipc_list_resume_all (QSuspend (OMsgQueue n)) s) (\<lambda>s.
     bind_res (ipc_list_resume_all (QSender (OMsgQueue n)) s) (\<lambda>s.
     bind_res (rt_object_delete (OMsgQueue n) s) (\<lambda>s. Inr (RT_EOK, s)))))))"

text \<open>The end of a send: the node is taken, filled and linked, and the first receiver woken.\<close>

definition mq_put :: "u8 list \<Rightarrow> nat \<Rightarrow> msgqueue \<Rightarrow> (bool \<times> msgqueue) res" where
  "mq_put buffer sz mq = bind_res (mq_alloc mq) (\<lambda>(i, mq).
     Inr (mq_link i (mq_fill i buffer sz (mq_set_next i None mq))))"

definition mq_send_finish :: "nat \<Rightarrow> u8 list \<Rightarrow> nat \<Rightarrow> kernel \<Rightarrow> (int outcome \<times> kernel) res" where
  "mq_send_finish n buffer sz s =
     bind_res (mq_put buffer sz (mqs s n)) (\<lambda>(counted, mq).
       let s = upd_mq n (\<lambda>_. mq) s
       in if counted then bind_res (ipc_wake (QSuspend (OMsgQueue n)) s) (\<lambda>s. Inr (Return RT_EOK, s))
          else Inr (Return (- RT_EFULL), s))"

definition mq_send_loop :: "nat \<Rightarrow> u8 list \<Rightarrow> nat \<Rightarrow> int \<Rightarrow> tid option \<Rightarrow> kernel \<Rightarrow> (int outcome \<times> kernel) res" where
  "mq_send_loop n buffer sz timeout thread s =
     (if msg_queue_free (mqs s n) = None then
        case thread of None \<Rightarrow> Inl NullDeref
        | Some thread \<Rightarrow>
          let s = reset_error thread s
          in if timeout = 0 then Inr (Return (- RT_EFULL), s)
             else bind_res (ipc_block (QSender (OMsgQueue n)) thread timeout (obj_flag (objs s (OMsgQueue n))) s)
                    (\<lambda>s. Inr (Blocked, s))
      else mq_send_finish n buffer sz s)"

definition rt_mq_send_wait :: "nat \<Rightarrow> u8 list \<Rightarrow> nat \<Rightarrow> int \<Rightarrow> kernel \<Rightarrow> (int outcome \<times> kernel) res" where
  "rt_mq_send_wait n buffer sz timeout s =
     assert_then (rt_object_get_type (OMsgQueue n) s = RT_Object_Class_MessageQueue) (
     assert_then (sz \<noteq> 0) (
     assert_then (RT_DEBUG_SCHEDULER_AVAILABLE (timeout \<noteq> 0) s) (
     if sz > msg_size (mqs s n) then Inr (Return (- RT_ERROR), s)
     else if msg_queue_free (mqs s n) = None \<and> timeout = 0 then Inr (Return (- RT_EFULL), s)
     else mq_send_loop n buffer sz timeout (rt_thread_self s) s)))"

definition rt_mq_send_wait_resume :: "nat \<Rightarrow> u8 list \<Rightarrow> nat \<Rightarrow> int \<Rightarrow> u32 \<Rightarrow> tid \<Rightarrow> kernel
    \<Rightarrow> (int outcome \<times> kernel) res" where
  "rt_mq_send_wait_resume n buffer sz timeout tick_delta thread s =
     (if error (threads s thread) \<noteq> RT_EOK then Inr (Return (error (threads s thread)), s)
      else mq_send_loop n buffer sz (time_left timeout tick_delta s) (Some thread) s)"

definition rt_mq_send :: "nat \<Rightarrow> u8 list \<Rightarrow> nat \<Rightarrow> kernel \<Rightarrow> (int outcome \<times> kernel) res" where
  "rt_mq_send n buffer sz s = rt_mq_send_wait n buffer sz 0 s"

definition rt_mq_urgent :: "nat \<Rightarrow> u8 list \<Rightarrow> nat \<Rightarrow> kernel \<Rightarrow> (int \<times> kernel) res" where
  "rt_mq_urgent n buffer sz s =
     assert_then (rt_object_get_type (OMsgQueue n) s = RT_Object_Class_MessageQueue) (
     assert_then (sz \<noteq> 0) (
     if sz > msg_size (mqs s n) then Inr (- RT_ERROR, s)
     else if msg_queue_free (mqs s n) = None then Inr (- RT_EFULL, s)
     else bind_res (mq_alloc (mqs s n)) (\<lambda>(i, mq).
       let (counted, mq) = mq_link_front i (mq_fill i buffer sz mq);
           s = upd_mq n (\<lambda>_. mq) s
       in if counted then bind_res (ipc_wake (QSuspend (OMsgQueue n)) s) (\<lambda>s. Inr (RT_EOK, s))
          else Inr (- RT_EFULL, s))))"

text \<open>Receiving: the head is unlinked, copied out and freed, and the first sender woken.\<close>

definition mq_get :: "nat \<Rightarrow> msgqueue \<Rightarrow> (u8 list \<times> msgqueue) res" where
  "mq_get sz mq = bind_res (mq_unlink mq) (\<lambda>(i, mq). Inr (mq_copy_out i sz mq, mq_free_node i mq))"

definition mq_recv_finish :: "nat \<Rightarrow> nat \<Rightarrow> kernel \<Rightarrow> (int outcome \<times> u8 list option \<times> kernel) res" where
  "mq_recv_finish n sz s =
     bind_res (mq_get sz (mqs s n)) (\<lambda>(bytes, mq).
     bind_res (ipc_wake (QSender (OMsgQueue n)) (upd_mq n (\<lambda>_. mq) s)) (\<lambda>s.
       Inr (Return RT_EOK, Some bytes, s)))"

definition mq_recv_loop :: "nat \<Rightarrow> nat \<Rightarrow> int \<Rightarrow> tid option \<Rightarrow> kernel \<Rightarrow> (int outcome \<times> u8 list option \<times> kernel) res" where
  "mq_recv_loop n sz timeout thread s =
     (if mq_entry (mqs s n) = 0 then
        case thread of None \<Rightarrow> Inl NullDeref
        | Some thread \<Rightarrow>
          let s = reset_error thread s
          in if timeout = 0 then
               Inr (Return (- RT_ETIMEOUT), None, upd_thread thread (\<lambda>th. th\<lparr>error := - RT_ETIMEOUT\<rparr>) s)
             else bind_res (ipc_block (QSuspend (OMsgQueue n)) thread timeout (obj_flag (objs s (OMsgQueue n))) s)
                    (\<lambda>s. Inr (Blocked, None, s))
      else mq_recv_finish n sz s)"

definition rt_mq_recv :: "nat \<Rightarrow> nat \<Rightarrow> int \<Rightarrow> kernel \<Rightarrow> (int outcome \<times> u8 list option \<times> kernel) res" where
  "rt_mq_recv n sz timeout s =
     assert_then (rt_object_get_type (OMsgQueue n) s = RT_Object_Class_MessageQueue) (
     assert_then (sz \<noteq> 0) (
     assert_then (RT_DEBUG_SCHEDULER_AVAILABLE (timeout \<noteq> 0) s) (
     if mq_entry (mqs s n) = 0 \<and> timeout = 0 then Inr (Return (- RT_ETIMEOUT), None, s)
     else mq_recv_loop n sz timeout (rt_thread_self s) s)))"

definition rt_mq_recv_resume :: "nat \<Rightarrow> nat \<Rightarrow> int \<Rightarrow> u32 \<Rightarrow> tid \<Rightarrow> kernel
    \<Rightarrow> (int outcome \<times> u8 list option \<times> kernel) res" where
  "rt_mq_recv_resume n sz timeout tick_delta thread s =
     (if error (threads s thread) \<noteq> RT_EOK then Inr (Return (error (threads s thread)), None, s)
      else mq_recv_loop n sz (time_left timeout tick_delta s) (Some thread) s)"

definition rt_mq_control :: "nat \<Rightarrow> int \<Rightarrow> kernel \<Rightarrow> (int \<times> kernel) res" where
  "rt_mq_control n cmd s =
     assert_then (rt_object_get_type (OMsgQueue n) s = RT_Object_Class_MessageQueue) (
     if cmd = 1 then
       bind_res (ipc_list_resume_all (QSuspend (OMsgQueue n)) s) (\<lambda>s.
       bind_res (ipc_list_resume_all (QSender (OMsgQueue n)) s) (\<lambda>s.
       bind_res (mq_flush_loop (Suc (length (mq_pool (mqs s n)))) (mqs s n)) (\<lambda>mq.
       bind_res (rt_schedule (upd_mq n (\<lambda>_. mq\<lparr>mq_entry := 0\<rparr>) s)) (\<lambda>s. Inr (RT_EOK, s)))))
     else Inr (- RT_ERROR, s))"

section \<open>The lists of nodes\<close>

fun mq_path :: "mq_node list \<Rightarrow> nat option \<Rightarrow> nat list \<Rightarrow> bool" where
  "mq_path pool h [] \<longleftrightarrow> h = None"
| "mq_path pool h (i # is) \<longleftrightarrow> h = Some i \<and> i < length pool \<and> mq_path pool (mq_next (pool ! i)) is"

text \<open>The nodes from a head on, as many as there can be.\<close>

fun mq_chain :: "nat \<Rightarrow> mq_node list \<Rightarrow> nat option \<Rightarrow> nat list" where
  "mq_chain 0 pool h = []"
| "mq_chain (Suc k) pool h = (case h of None \<Rightarrow> [] | Some i \<Rightarrow> i # mq_chain k pool (mq_next (pool ! i)))"

lemma mq_path_chain: "mq_path pool h is \<Longrightarrow> length is \<le> k \<Longrightarrow> mq_chain k pool h = is"
proof (induction "is" arbitrary: h k)
  case Nil
  then show ?case by (cases k) auto
next
  case (Cons i "is")
  then show ?case by (cases k) auto
qed

text \<open>Nodes outside a list can change.\<close>

lemma mq_path_upd: "i \<notin> set is \<Longrightarrow> mq_path (pool[i := x]) h is = mq_path pool h is"
  by (induction pool h "is" rule: mq_path.induct) auto

lemma mq_path_data: "mq_next x = mq_next (pool ! i) \<Longrightarrow> mq_path (pool[i := x]) h is = mq_path pool h is"
proof (induction pool h "is" rule: mq_path.induct)
  case (2 pool h j "is")
  then show ?case by (cases "i = j"; cases "i < length pool") auto
qed simp

lemma mq_path_snoc:
  "mq_path pool h is \<Longrightarrow> distinct is \<Longrightarrow> is \<noteq> [] \<Longrightarrow> i < length pool \<Longrightarrow> i \<notin> set is \<Longrightarrow>
     mq_next (pool ! i) = None \<Longrightarrow>
     mq_path (pool[last is := (pool ! last is)\<lparr>mq_next := Some i\<rparr>]) h (is @ [i])"
proof (induction pool h "is" rule: mq_path.induct)
  case (2 pool h j "is")
  show ?case
  proof (cases "is = []")
    case True
    then show ?thesis using 2 by auto
  next
    case False
    then have n: "j \<noteq> last is" using 2(3) last_in_set by fastforce
    have "mq_path (pool[last is := (pool ! last is)\<lparr>mq_next := Some i\<rparr>]) (mq_next (pool ! j)) (is @ [i])"
      by (rule 2(1)) (use 2 False in auto)
    then show ?thesis using 2(2) False n by simp
  qed
qed simp

text \<open>The shape of a message queue with the nodes \<open>hs\<close> in hand.\<close>

definition mq_shape :: "msgqueue \<Rightarrow> nat list \<Rightarrow> nat list \<Rightarrow> nat list \<Rightarrow> bool" where
  "mq_shape mq qs fs hs \<longleftrightarrow> mq_path (mq_pool mq) (msg_queue_head mq) qs
     \<and> mq_path (mq_pool mq) (msg_queue_free mq) fs
     \<and> msg_queue_tail mq = (if qs = [] then None else Some (last qs))
     \<and> distinct (qs @ fs @ hs) \<and> set (qs @ fs @ hs) = {..<length (mq_pool mq)}
     \<and> mq_entry mq = length qs \<and> length (mq_pool mq) = max_msgs mq \<and> max_msgs mq \<le> 65535
     \<and> (\<forall>x \<in> set (mq_pool mq). length (mq_data x) = msg_size mq)"

lemma mq_shapeI:
  "mq_path (mq_pool mq) (msg_queue_head mq) qs \<Longrightarrow> mq_path (mq_pool mq) (msg_queue_free mq) fs \<Longrightarrow>
   \<forall>x \<in> set (mq_pool mq). length (mq_data x) = msg_size mq \<Longrightarrow> distinct (qs @ fs @ hs) \<Longrightarrow>
   set (qs @ fs @ hs) = {..<length (mq_pool mq)} \<Longrightarrow>
   msg_queue_tail mq = (if qs = [] then None else Some (last qs)) \<Longrightarrow> mq_entry mq = length qs \<Longrightarrow>
   length (mq_pool mq) = max_msgs mq \<Longrightarrow> max_msgs mq \<le> 65535 \<Longrightarrow> mq_shape mq qs fs hs"
  by (simp add: mq_shape_def)

definition mq_nodes :: "msgqueue \<Rightarrow> nat list" where
  "mq_nodes mq = mq_chain (length (mq_pool mq)) (mq_pool mq) (msg_queue_head mq)"

definition messages :: "msgqueue \<Rightarrow> u8 list list" where
  "messages mq = map (\<lambda>i. mq_data (mq_pool mq ! i)) (mq_nodes mq)"

definition mq_inv :: "nat list \<Rightarrow> msgqueue \<Rightarrow> bool" where
  "mq_inv hs mq \<longleftrightarrow> (\<exists>fs. mq_shape mq (mq_nodes mq) fs hs)"

lemma shape_count: "mq_shape mq qs fs hs \<Longrightarrow> length qs + length fs + length hs = max_msgs mq"
proof -
  assume s: "mq_shape mq qs fs hs"
  then have "card (set (qs @ fs @ hs)) = length (qs @ fs @ hs)" by (intro distinct_card) (simp add: mq_shape_def)
  then show ?thesis using s by (simp add: mq_shape_def)
qed

lemma shape_nodes: "mq_shape mq qs fs hs \<Longrightarrow> mq_nodes mq = qs"
  using shape_count [of mq qs fs hs] by (simp add: mq_nodes_def mq_shape_def mq_path_chain)

lemma shape_inv: "mq_shape mq qs fs hs \<Longrightarrow> mq_inv hs mq"
  using shape_nodes mq_inv_def by metis

lemma shape_messages: "mq_shape mq qs fs hs \<Longrightarrow> messages mq = map (\<lambda>i. mq_data (mq_pool mq ! i)) qs"
  by (simp add: messages_def shape_nodes)

lemma invE:
  assumes "mq_inv hs mq"
  obtains qs fs where "mq_shape mq qs fs hs" "messages mq = map (\<lambda>i. mq_data (mq_pool mq ! i)) qs"
  using assms shape_messages unfolding mq_inv_def by metis

lemma length_messages: "mq_inv hs mq \<Longrightarrow> length (messages mq) = mq_entry mq"
  by (erule invE) (simp add: mq_shape_def)

lemma data_len: "mq_shape mq qs fs hs \<Longrightarrow> i < length (mq_pool mq) \<Longrightarrow> length (mq_data (mq_pool mq ! i)) = msg_size mq"
  by (simp add: mq_shape_def)

lemma shape_all:
  "mq_shape mq qs fs hs \<Longrightarrow> i \<in> set qs \<union> set fs \<union> set hs \<Longrightarrow> i < length (mq_pool mq)"
  unfolding mq_shape_def by (metis Un_assoc lessThan_iff set_append)

section \<open>Each critical region keeps the shape\<close>

lemma alloc_ok:
  assumes i: "mq_inv hs mq" and f: "msg_queue_free mq \<noteq> None"
  obtains k mq' where "mq_alloc mq = Inr (k, mq')" "mq_inv (k # hs) mq'" "messages mq' = messages mq"
    "msg_size mq' = msg_size mq" "max_msgs mq' = max_msgs mq" "mq_pool mq' = mq_pool mq"
proof -
  obtain qs fs where s: "mq_shape mq qs fs hs" "messages mq = map (\<lambda>i. mq_data (mq_pool mq ! i)) qs"
    by (rule invE [OF i]) blast
  obtain k fs' where fs: "fs = k # fs'" using s f by (cases fs) (auto simp: mq_shape_def)
  let ?m = "mq\<lparr>msg_queue_free := mq_next (mq_pool mq ! k)\<rparr>"
  have sh: "mq_shape ?m qs fs' (k # hs)" using s(1) fs by (auto simp: mq_shape_def)
  show thesis
    by (rule that [of k ?m])
      (use s fs in \<open>auto simp: mq_alloc_def mq_node_at_def mq_shape_def shape_inv [OF sh] shape_messages [OF sh]\<close>)
qed

lemma no_free_full: "mq_inv [] mq \<Longrightarrow> msg_queue_free mq = None \<longleftrightarrow> length (messages mq) = max_msgs mq"
proof -
  assume i: "mq_inv [] mq"
  obtain qs fs where s: "mq_shape mq qs fs []" "messages mq = map (\<lambda>i. mq_data (mq_pool mq ! i)) qs"
    by (rule invE [OF i]) blast
  then have "msg_queue_free mq = None \<longleftrightarrow> fs = []" by (cases fs) (auto simp: mq_shape_def)
  then show ?thesis using shape_count [OF s(1)] s(2) by auto
qed

text \<open>Whoever holds a node can write it.\<close>

lemma held_write:
  assumes i: "mq_inv hs mq" and k: "k \<in> set hs" and x: "length (mq_data x) = msg_size mq"
  shows "mq_inv hs (mq\<lparr>mq_pool := (mq_pool mq)[k := x]\<rparr>)"
    "messages (mq\<lparr>mq_pool := (mq_pool mq)[k := x]\<rparr>) = messages mq"
proof -
  obtain qs fs where s: "mq_shape mq qs fs hs" "messages mq = map (\<lambda>i. mq_data (mq_pool mq ! i)) qs"
    by (rule invE [OF i]) blast
  have n: "k \<notin> set qs" "k \<notin> set fs" using s(1) k by (auto simp: mq_shape_def)
  have sh: "mq_shape (mq\<lparr>mq_pool := (mq_pool mq)[k := x]\<rparr>) qs fs hs"
    using s(1) n x by (auto simp: mq_shape_def mq_path_upd dest!: set_update_subset_insert [THEN subsetD])
  show "mq_inv hs (mq\<lparr>mq_pool := (mq_pool mq)[k := x]\<rparr>)" by (rule shape_inv [OF sh])
  show "messages (mq\<lparr>mq_pool := (mq_pool mq)[k := x]\<rparr>) = messages mq"
    unfolding shape_messages [OF sh] s(2)
  proof (intro map_cong refl)
    fix a assume "a \<in> set qs"
    then have "k \<noteq> a" using n by blast
    then show "mq_data (mq_pool (mq\<lparr>mq_pool := (mq_pool mq)[k := x]\<rparr>) ! a) = mq_data (mq_pool mq ! a)" by simp
  qed
qed

lemma data_set_next [simp]: "mq_data (pool[k := (pool ! k)\<lparr>mq_next := p\<rparr>] ! x) = mq_data (pool ! x)"
  by (cases "k < length pool") (auto simp: nth_list_update list_update_beyond)

lemma data_all_next:
  "\<forall>x \<in> set pool. length (mq_data x) = m \<Longrightarrow>
     \<forall>x \<in> set (pool[k := (pool ! k)\<lparr>mq_next := p\<rparr>]). length (mq_data x) = m"
  by (simp add: all_set_conv_all_nth)

text \<open>A node from the hand goes to one of the lists.\<close>

lemma from_hand:
  assumes "distinct (qs @ fs @ hs)" "set (qs @ fs @ hs) = N" "k \<in> set hs"
  shows "distinct ((qs @ [k]) @ fs @ remove1 k hs)" "set ((qs @ [k]) @ fs @ remove1 k hs) = N"
    "distinct ((k # qs) @ fs @ remove1 k hs)" "set ((k # qs) @ fs @ remove1 k hs) = N"
    "distinct (qs @ (k # fs) @ remove1 k hs)" "set (qs @ (k # fs) @ remove1 k hs) = N"
proof -
  have r: "set (remove1 k hs) = set hs - {k}" "distinct (remove1 k hs)" using assms(1) by simp_all
  show "distinct ((qs @ [k]) @ fs @ remove1 k hs)" "distinct ((k # qs) @ fs @ remove1 k hs)"
    "distinct (qs @ (k # fs) @ remove1 k hs)" using assms(1,3) r by auto
  show "set ((qs @ [k]) @ fs @ remove1 k hs) = N" "set ((k # qs) @ fs @ remove1 k hs) = N"
    "set (qs @ (k # fs) @ remove1 k hs) = N" unfolding assms(2) [symmetric] set_append r list.set using assms(3) by blast+
qed

lemma shape_hand:
  assumes "mq_shape mq qs fs hs" "k \<in> set hs"
  shows "k \<notin> set qs" "k \<notin> set fs" "k < length (mq_pool mq)" "length qs < max_msgs mq"
    "distinct (qs @ fs @ hs)" "set (qs @ fs @ hs) = {..<length (mq_pool mq)}"
proof -
  have d: "distinct (qs @ fs @ hs)" using assms(1) by (simp add: mq_shape_def)
  then show "k \<notin> set qs" "k \<notin> set fs" "distinct (qs @ fs @ hs)" using assms(2) by auto
  show "set (qs @ fs @ hs) = {..<length (mq_pool mq)}" using assms(1) by (simp add: mq_shape_def)
  show "k < length (mq_pool mq)" by (rule shape_all [OF assms(1)]) (use assms(2) in simp)
  have "hs \<noteq> []" using assms(2) by auto
  then show "length qs < max_msgs mq" using shape_count [OF assms(1)] by (cases hs) auto
qed

lemma link_ok:
  assumes i: "mq_inv hs mq" and k: "k \<in> set hs" and nx: "mq_next (mq_pool mq ! k) = None"
  obtains mq' where "mq_link k mq = (True, mq')" "mq_inv (remove1 k hs) mq'"
    "messages mq' = messages mq @ [mq_data (mq_pool mq ! k)]" "msg_size mq' = msg_size mq"
    "max_msgs mq' = max_msgs mq" "\<And>h. h \<in> set hs \<Longrightarrow> mq_pool mq' ! h = mq_pool mq ! h"
proof -
  obtain qs fs where s: "mq_shape mq qs fs hs" "messages mq = map (\<lambda>i. mq_data (mq_pool mq ! i)) qs"
    by (rule invE [OF i]) blast
  note d = s(1) [unfolded mq_shape_def] and h = shape_hand [OF s(1) k]
  let ?j = "last qs"
  let ?pool = "if qs = [] then mq_pool mq else (mq_pool mq)[?j := (mq_pool mq ! ?j)\<lparr>mq_next := Some k\<rparr>]"
  let ?m = "mq\<lparr>mq_pool := ?pool, msg_queue_tail := Some k,
     msg_queue_head := (if qs = [] then Some k else msg_queue_head mq), mq_entry := Suc (mq_entry mq)\<rparr>"
  have hd: "msg_queue_head mq = None \<longleftrightarrow> qs = []" using d by (cases qs) auto
  have e: "mq_entry mq < 65535" using h(4) d by simp
  have code: "mq_link k mq = (True, ?m)"
    using d hd e by (cases qs) (auto simp: mq_link_def mq_count_def mq_set_next_def Let_def)
  have j: "qs \<noteq> [] \<Longrightarrow> ?j \<notin> set fs" "qs \<noteq> [] \<Longrightarrow> ?j \<notin> set hs" using d by (auto dest: last_in_set)
  have dat: "mq_data (?pool ! x) = mq_data (mq_pool mq ! x)" for x
    by simp
  have p1: "mq_path ?pool (msg_queue_head ?m) (qs @ [k])"
  proof (cases "qs = []")
    case True
    then show ?thesis using nx h(3) by simp
  next
    case False
    then show ?thesis using mq_path_snoc [of "mq_pool mq" "msg_queue_head mq" qs k] d h(1,3) nx by simp
  qed
  have p2: "mq_path ?pool (msg_queue_free ?m) fs" using d j(1) by (auto simp: mq_path_upd)
  have p3: "\<forall>x \<in> set ?pool. length (mq_data x) = msg_size mq"
    using d data_all_next [of "mq_pool mq" "msg_size mq" ?j "Some k"] by (cases "qs = []") simp_all
  have p4: "distinct ((qs @ [k]) @ fs @ remove1 k hs)" by (rule from_hand(1) [OF h(5,6) k])
  have p5: "set ((qs @ [k]) @ fs @ remove1 k hs) = {..<length ?pool}"
    using from_hand(2) [OF h(5,6) k] by simp
  have sh: "mq_shape ?m (qs @ [k]) fs (remove1 k hs)"
  proof (rule mq_shapeI)
    show "mq_path (mq_pool ?m) (msg_queue_head ?m) (qs @ [k])" using p1 by simp
    show "mq_path (mq_pool ?m) (msg_queue_free ?m) fs" using p2 by simp
    show "\<forall>x \<in> set (mq_pool ?m). length (mq_data x) = msg_size ?m" using p3 by simp
    show "set ((qs @ [k]) @ fs @ remove1 k hs) = {..<length (mq_pool ?m)}" using p5 by simp
  qed (use d p4 in simp_all)
  show thesis
  proof (rule that [OF code shape_inv [OF sh]])
    show "messages ?m = messages mq @ [mq_data (mq_pool mq ! k)]"
      unfolding shape_messages [OF sh] s(2) using dat by simp
    show "mq_pool ?m ! x = mq_pool mq ! x" if "x \<in> set hs" for x
    proof (cases "qs = []")
      case False
      then have "?j \<noteq> x" using j(2) that by blast
      then show ?thesis using False by simp
    qed simp
  qed simp_all
qed

lemma link_front_ok:
  assumes i: "mq_inv hs mq" and k: "k \<in> set hs"
  obtains mq' where "mq_link_front k mq = (True, mq')" "mq_inv (remove1 k hs) mq'"
    "messages mq' = mq_data (mq_pool mq ! k) # messages mq" "msg_size mq' = msg_size mq"
    "max_msgs mq' = max_msgs mq" "\<And>h. h \<in> set hs \<Longrightarrow> h \<noteq> k \<Longrightarrow> mq_pool mq' ! h = mq_pool mq ! h"
proof -
  obtain qs fs where s: "mq_shape mq qs fs hs" "messages mq = map (\<lambda>i. mq_data (mq_pool mq ! i)) qs"
    by (rule invE [OF i]) blast
  note d = s(1) [unfolded mq_shape_def] and h = shape_hand [OF s(1) k]
  let ?pool = "(mq_pool mq)[k := (mq_pool mq ! k)\<lparr>mq_next := msg_queue_head mq\<rparr>]"
  let ?m = "mq\<lparr>mq_pool := ?pool, msg_queue_head := Some k,
     msg_queue_tail := (if qs = [] then Some k else msg_queue_tail mq), mq_entry := Suc (mq_entry mq)\<rparr>"
  have e: "mq_entry mq < 65535" using h(4) d by simp
  have code: "mq_link_front k mq = (True, ?m)"
    using d e by (cases qs) (auto simp: mq_link_front_def mq_count_def mq_set_next_def Let_def)
  have dat: "mq_data (?pool ! x) = mq_data (mq_pool mq ! x)" for x
    by simp
  have p1: "mq_path ?pool (msg_queue_head ?m) (k # qs)" using d h(1,3) by (simp add: mq_path_upd)
  have p2: "mq_path ?pool (msg_queue_free ?m) fs" using d h(2) by (simp add: mq_path_upd)
  have p3: "\<forall>x \<in> set ?pool. length (mq_data x) = msg_size mq"
    using d by (intro data_all_next) simp
  have p4: "distinct ((k # qs) @ fs @ remove1 k hs)" by (rule from_hand(3) [OF h(5,6) k])
  have p5: "set ((k # qs) @ fs @ remove1 k hs) = {..<length ?pool}"
    using from_hand(4) [OF h(5,6) k] by simp
  have sh: "mq_shape ?m (k # qs) fs (remove1 k hs)"
  proof (rule mq_shapeI)
    show "mq_path (mq_pool ?m) (msg_queue_head ?m) (k # qs)" using p1 h(3) by simp
    show "mq_path (mq_pool ?m) (msg_queue_free ?m) fs" using p2 by simp
    show "\<forall>x \<in> set (mq_pool ?m). length (mq_data x) = msg_size ?m" using p3 by simp
    show "set ((k # qs) @ fs @ remove1 k hs) = {..<length (mq_pool ?m)}" using p5 by simp
  qed (use d p4 in simp_all)
  show thesis
  proof (rule that [OF code shape_inv [OF sh]])
    show "messages ?m = mq_data (mq_pool mq ! k) # messages mq"
      unfolding shape_messages [OF sh] s(2) using dat by simp
  qed simp_all
qed

lemma behead_path:
  assumes "mq_path (mq_pool mq) (msg_queue_head mq) (k # qs)" "distinct (k # qs)"
    "msg_queue_tail mq = Some (last (k # qs))"
  shows "mq_behead mq = Inr (k, mq\<lparr>msg_queue_head := mq_next (mq_pool mq ! k),
     msg_queue_tail := (if qs = [] then None else msg_queue_tail mq)\<rparr>)"
proof -
  have "qs \<noteq> [] \<Longrightarrow> last qs \<noteq> k" using assms(2) last_in_set by fastforce
  then show ?thesis using assms by (auto simp: mq_behead_def mq_node_at_def Let_def)
qed

lemma behead_shape:
  assumes "mq_shape mq (k # qs) fs hs"
  shows "mq_behead mq = Inr (k, mq\<lparr>msg_queue_head := mq_next (mq_pool mq ! k),
     msg_queue_tail := (if qs = [] then None else msg_queue_tail mq)\<rparr>)"
  by (rule behead_path) (use assms in \<open>simp_all add: mq_shape_def\<close>)

lemma unlink_ok:
  assumes i: "mq_inv hs mq" and e: "mq_entry mq \<noteq> 0"
  obtains k mq' where "mq_unlink mq = Inr (k, mq')" "mq_inv (k # hs) mq'"
    "messages mq = mq_data (mq_pool mq ! k) # messages mq'" "msg_size mq' = msg_size mq"
    "max_msgs mq' = max_msgs mq" "mq_pool mq' = mq_pool mq"
proof -
  obtain qs fs where s: "mq_shape mq qs fs hs" "messages mq = map (\<lambda>i. mq_data (mq_pool mq ! i)) qs"
    by (rule invE [OF i]) blast
  obtain k qs' where q: "qs = k # qs'" using s(1) e by (cases qs) (auto simp: mq_shape_def)
  have s': "mq_shape mq (k # qs') fs hs" using s(1) q by simp
  let ?m = "mq\<lparr>msg_queue_head := mq_next (mq_pool mq ! k),
     msg_queue_tail := (if qs' = [] then None else msg_queue_tail mq), mq_entry := mq_entry mq - 1\<rparr>"
  have sh: "mq_shape ?m qs' fs (k # hs)" using s' by (auto simp: mq_shape_def)
  show thesis
  proof (rule that [of k ?m])
    show "mq_unlink mq = Inr (k, ?m)" using e by (simp add: mq_unlink_def behead_shape [OF s'])
    show "mq_inv (k # hs) ?m" by (rule shape_inv [OF sh])
    show "messages mq = mq_data (mq_pool mq ! k) # messages ?m"
      unfolding shape_messages [OF sh] s(2) q by simp
  qed simp_all
qed

lemma free_shape:
  assumes s: "mq_shape mq qs fs hs" and k: "k \<in> set hs"
  shows "mq_shape (mq_free_node k mq) qs (k # fs) (remove1 k hs)"
proof -
  note d = s [unfolded mq_shape_def] and h = shape_hand [OF s k]
  let ?pool = "(mq_pool mq)[k := (mq_pool mq ! k)\<lparr>mq_next := msg_queue_free mq\<rparr>]"
  let ?m = "mq\<lparr>mq_pool := ?pool, msg_queue_free := Some k\<rparr>"
  have m: "mq_free_node k mq = ?m" by (simp add: mq_free_node_def mq_set_next_def)
  have p1: "mq_path ?pool (msg_queue_head mq) qs" and p2: "mq_path ?pool (Some k) (k # fs)"
    using d h(1,2,3) by (simp_all add: mq_path_upd)
  have p3: "\<forall>x \<in> set ?pool. length (mq_data x) = msg_size mq"
    using d by (intro data_all_next) simp
  have p4: "distinct (qs @ (k # fs) @ remove1 k hs)" by (rule from_hand(5) [OF h(5,6) k])
  have p5: "set (qs @ (k # fs) @ remove1 k hs) = {..<length ?pool}"
    using from_hand(6) [OF h(5,6) k] by simp
  show ?thesis unfolding m
  proof (rule mq_shapeI)
    show "mq_path (mq_pool ?m) (msg_queue_head ?m) qs" using p1 by simp
    show "mq_path (mq_pool ?m) (msg_queue_free ?m) (k # fs)" using p2 h(3) by simp
    show "\<forall>x \<in> set (mq_pool ?m). length (mq_data x) = msg_size ?m" using p3 by simp
    show "set (qs @ (k # fs) @ remove1 k hs) = {..<length (mq_pool ?m)}" using p5 by simp
  qed (use d p4 in simp_all)
qed

lemma free_ok:
  assumes i: "mq_inv hs mq" and k: "k \<in> set hs"
  shows "mq_inv (remove1 k hs) (mq_free_node k mq)" "messages (mq_free_node k mq) = messages mq"
    "\<And>h. h \<noteq> k \<Longrightarrow> mq_pool (mq_free_node k mq) ! h = mq_pool mq ! h"
    "msg_queue_free (mq_free_node k mq) = Some k"
proof -
  obtain qs fs where s: "mq_shape mq qs fs hs" "messages mq = map (\<lambda>i. mq_data (mq_pool mq ! i)) qs"
    by (rule invE [OF i]) blast
  have sh: "mq_shape (mq_free_node k mq) qs (k # fs) (remove1 k hs)" by (rule free_shape [OF s(1) k])
  have m: "mq_free_node k mq = mq\<lparr>mq_pool := (mq_pool mq)[k := (mq_pool mq ! k)\<lparr>mq_next := msg_queue_free mq\<rparr>],
      msg_queue_free := Some k\<rparr>"
    by (simp add: mq_free_node_def mq_set_next_def)
  show "mq_inv (remove1 k hs) (mq_free_node k mq)" by (rule shape_inv [OF sh])
  show "messages (mq_free_node k mq) = messages mq"
    using shape_messages [OF sh] s(2) m by simp
  show "mq_pool (mq_free_node k mq) ! x = mq_pool mq ! x" if "x \<noteq> k" for x
    using that by (simp add: m)
  show "msg_queue_free (mq_free_node k mq) = Some k" by (simp add: m)
qed

section \<open>Whole operations on the queue\<close>

text \<open>What is stored of a message: its bytes over those the node held.\<close>

lemma put_ok:
  assumes i: "mq_inv [] mq" and f: "msg_queue_free mq \<noteq> None" and sz: "sz \<le> msg_size mq" "sz \<le> length buffer"
  obtains x mq' where "mq_put buffer sz mq = Inr (True, mq')" "mq_inv [] mq'" "messages mq' = messages mq @ [x]"
    "take sz x = take sz buffer" "length x = msg_size mq" "msg_size mq' = msg_size mq" "max_msgs mq' = max_msgs mq"
proof -
  obtain k m1 where m1: "mq_alloc mq = Inr (k, m1)" "mq_inv [k] m1" "messages m1 = messages mq"
    "msg_size m1 = msg_size mq" "max_msgs m1 = max_msgs mq" "mq_pool m1 = mq_pool mq"
    by (rule alloc_ok [OF i f]) blast
  obtain qs fs where s: "mq_shape m1 qs fs [k]" by (rule invE [OF m1(2)])
  have k: "k < length (mq_pool m1)" by (rule shape_all [OF s]) simp
  then have len: "length (mq_data (mq_pool m1 ! k)) = msg_size mq" using data_len [OF s] m1(4) by simp
  let ?m2 = "mq_set_next k None m1"
  have m2: "mq_inv [k] ?m2" "messages ?m2 = messages m1"
    unfolding mq_set_next_def by (rule held_write [OF m1(2)]; simp add: len m1(4))+
  let ?x = "memcpy_at (mq_data (mq_pool m1 ! k)) 0 buffer 0 sz"
  let ?m3 = "mq_fill k buffer sz ?m2"
  have lx: "length ?x = msg_size mq" using len sz by simp
  have d2: "mq_pool ?m2 ! k = (mq_pool m1 ! k)\<lparr>mq_next := None\<rparr>" "length (mq_pool ?m2) = length (mq_pool m1)"
    "msg_size ?m2 = msg_size mq" "max_msgs ?m2 = max_msgs mq"
    using k m1(4,5) by (simp_all add: mq_set_next_def)
  have m3: "mq_inv [k] ?m3" "messages ?m3 = messages ?m2"
    unfolding mq_fill_def by (rule held_write [OF m2(1)]; use lx d2 in simp)+
  have p3: "mq_pool ?m3 ! k = \<lparr>mq_next = None, mq_data = ?x\<rparr>" "msg_size ?m3 = msg_size mq" "max_msgs ?m3 = max_msgs mq"
    using k d2 by (simp_all add: mq_fill_def)
  have nx: "mq_next (mq_pool ?m3 ! k) = None" using p3(1) by simp
  obtain m4 where m4: "mq_link k ?m3 = (True, m4)" "mq_inv (remove1 k [k]) m4"
    "messages m4 = messages ?m3 @ [mq_data (mq_pool ?m3 ! k)]" "msg_size m4 = msg_size ?m3" "max_msgs m4 = max_msgs ?m3"
    by (rule link_ok [OF m3(1) _ nx]) simp_all
  show thesis
  proof (rule that [of m4 ?x])
    show "mq_put buffer sz mq = Inr (True, m4)" using m1(1) m4(1) by (simp add: mq_put_def)
    show "messages m4 = messages mq @ [?x]" using m4(3) m3(2) m2(2) m1(3) p3(1) by simp
    show "take sz ?x = take sz buffer" using len sz by (simp add: memcpy_at_def)
  qed (use m4 lx p3 in simp_all)
qed

lemma get_ok:
  assumes i: "mq_inv [] mq" and e: "mq_entry mq \<noteq> 0"
  obtains x mq' where "mq_get sz mq = Inr (take (min sz (msg_size mq)) x, mq')" "mq_inv [] mq'"
    "messages mq = x # messages mq'" "length x = msg_size mq" "msg_size mq' = msg_size mq" "max_msgs mq' = max_msgs mq"
    "msg_queue_free mq' \<noteq> None"
proof -
  obtain k m1 where m1: "mq_unlink mq = Inr (k, m1)" "mq_inv [k] m1"
    "messages mq = mq_data (mq_pool mq ! k) # messages m1" "msg_size m1 = msg_size mq"
    "max_msgs m1 = max_msgs mq" "mq_pool m1 = mq_pool mq"
    by (rule unlink_ok [OF i e]) blast
  obtain qs fs where s: "mq_shape m1 qs fs [k]" by (rule invE [OF m1(2)])
  have k: "k < length (mq_pool m1)" by (rule shape_all [OF s]) simp
  have f: "mq_inv (remove1 k [k]) (mq_free_node k m1)" "messages (mq_free_node k m1) = messages m1"
    "msg_queue_free (mq_free_node k m1) = Some k"
    by (rule free_ok [OF m1(2)], simp)+
  show thesis
  proof (rule that [of "mq_data (mq_pool mq ! k)" "mq_free_node k m1"])
    show "mq_get sz mq = Inr (take (min sz (msg_size mq)) (mq_data (mq_pool mq ! k)), mq_free_node k m1)"
      using m1 by (simp add: mq_get_def mq_copy_out_def min_def not_le)
    show "length (mq_data (mq_pool mq ! k)) = msg_size mq" using data_len [OF s k] m1 by simp
  qed (use f m1 in \<open>simp_all add: mq_free_node_def mq_set_next_def\<close>)
qed

text \<open>Releasing all messages ends within one round per node.\<close>

lemma free_node_entry: "mq_free_node k (mq\<lparr>mq_entry := e\<rparr>) = (mq_free_node k mq)\<lparr>mq_entry := e\<rparr>"
  by (cases mq) (simp add: mq_free_node_def mq_set_next_def)

lemma flush_ok:
  assumes "mq_shape (mq\<lparr>mq_entry := length qs\<rparr>) qs fs []" "length qs < fuel"
  shows "\<exists>mq'. mq_flush_loop fuel mq = Inr mq' \<and> mq_inv [] (mq'\<lparr>mq_entry := 0\<rparr>) \<and> messages (mq'\<lparr>mq_entry := 0\<rparr>) = []
    \<and> msg_size mq' = msg_size mq \<and> max_msgs mq' = max_msgs mq"
  using assms
proof (induction qs arbitrary: mq fs fuel)
  case Nil
  then obtain n where n: "fuel = Suc n" by (cases fuel) auto
  have h: "msg_queue_head mq = None" using Nil(1) by (simp add: mq_shape_def)
  have sh: "mq_shape (mq\<lparr>mq_entry := 0\<rparr>) [] fs []" using Nil(1) by simp
  show ?case using n h shape_inv [OF sh] shape_messages [OF sh] by simp
next
  case (Cons k qs)
  obtain n where n: "fuel = Suc n" "length qs < n" using Cons.prems(2) by (cases fuel) auto
  note d = Cons.prems(1) [unfolded mq_shape_def]
  have h: "(msg_queue_head mq = None) = False" using d by simp
  let ?m = "mq\<lparr>msg_queue_head := mq_next (mq_pool mq ! k),
     msg_queue_tail := (if qs = [] then None else msg_queue_tail mq)\<rparr>"
  have b: "mq_behead mq = Inr (k, ?m)" by (rule behead_path) (use d in simp_all)
  have "mq_shape (?m\<lparr>mq_entry := length qs\<rparr>) qs fs [k]" using d by (auto simp: mq_shape_def)
  from free_shape [OF this, of k]
  have "mq_shape ((mq_free_node k ?m)\<lparr>mq_entry := length qs\<rparr>) qs (k # fs) []"
    unfolding free_node_entry by simp
  from Cons.IH [OF this n(2)] show ?case
    unfolding n(1) mq_flush_loop.simps h b by (simp add: mq_free_node_def mq_set_next_def)
qed

text \<open>A new queue has all its nodes free.\<close>

lemma free_all_ok:
  assumes "k \<le> length (mq_pool mq)" "msg_queue_free mq = None"
  shows "mq_path (mq_pool (mq_free_all k mq)) (msg_queue_free (mq_free_all k mq)) (rev [0..<k])
    \<and> length (mq_pool (mq_free_all k mq)) = length (mq_pool mq)
    \<and> map mq_data (mq_pool (mq_free_all k mq)) = map mq_data (mq_pool mq)"
  using assms
proof (induction k)
  case (Suc k)
  let ?m = "mq_free_all k mq"
  have ih: "mq_path (mq_pool ?m) (msg_queue_free ?m) (rev [0..<k])" "length (mq_pool ?m) = length (mq_pool mq)"
    "map mq_data (mq_pool ?m) = map mq_data (mq_pool mq)" using Suc by simp_all
  have "map mq_data ((mq_pool ?m)[k := (mq_pool ?m ! k)\<lparr>mq_next := msg_queue_free ?m\<rparr>]) = map mq_data (mq_pool ?m)"
    by (rule nth_equalityI) simp_all
  then show ?case using ih Suc.prems(1)
    by (simp add: mq_free_node_def mq_set_next_def mq_path_upd)
qed simp

lemma free_all_fields:
  "msg_queue_head (mq_free_all k mq) = msg_queue_head mq" "msg_queue_tail (mq_free_all k mq) = msg_queue_tail mq"
  "mq_entry (mq_free_all k mq) = mq_entry mq" "msg_size (mq_free_all k mq) = msg_size mq"
  "max_msgs (mq_free_all k mq) = max_msgs mq"
  by (induction k) (simp_all add: mq_free_node_def mq_set_next_def)

lemma mq_setup_inv:
  assumes "length blocks = unat max_n" "\<forall>b \<in> set blocks. length b = unat sz"
  shows "mq_inv [] (mqs (mq_setup n blocks sz max_n s) n)" "messages (mqs (mq_setup n blocks sz max_n s) n) = []"
proof -
  let ?start = "\<lparr>mq_pool = map (\<lambda>b. \<lparr>mq_next = None, mq_data = b\<rparr>) blocks, msg_size = unat sz, max_msgs = unat max_n,
           mq_entry = 0, msg_queue_head = None, msg_queue_tail = None, msg_queue_free = None\<rparr>"
  let ?m = "mq_free_all (unat max_n) ?start"
  have m: "mqs (mq_setup n blocks sz max_n s) n = ?m" by (simp add: mq_setup_def upd_queue_def upd_mq_def)
  have f: "mq_path (mq_pool ?m) (msg_queue_free ?m) (rev [0..<unat max_n])" "length (mq_pool ?m) = length (mq_pool ?start)"
    "map mq_data (mq_pool ?m) = map mq_data (mq_pool ?start)"
    using free_all_ok [of "unat max_n" ?start] assms(1) by simp_all
  have "mq_data ` set (mq_pool ?m) = set blocks"
    using arg_cong [OF f(3), of set] by (auto simp: image_image)
  then have dat: "\<forall>x \<in> set (mq_pool ?m). length (mq_data x) = unat sz" using assms(2) by blast
  have "unat max_n < 2 ^ LENGTH(16)" by (rule unsigned_less)
  then have "mq_shape ?m [] (rev [0..<unat max_n]) []"
    using f dat assms(1) by (intro mq_shapeI) (simp_all add: free_all_fields atLeast0LessThan)
  then show "mq_inv [] (mqs (mq_setup n blocks sz max_n s) n)" "messages (mqs (mq_setup n blocks sz max_n s) n) = []"
    unfolding m by (auto dest: shape_inv shape_messages)
qed

text \<open>The bounded queue of the interface: messages of exactly the queue's size.\<close>

definition mq_put_full :: "u8 list \<Rightarrow> msgqueue \<Rightarrow> msgqueue option" where
  "mq_put_full x mq = (if msg_queue_free mq = None then None
     else case mq_put x (length x) mq of Inr (True, mq') \<Rightarrow> Some mq' | _ \<Rightarrow> None)"

definition mq_get_full :: "msgqueue \<Rightarrow> (u8 list \<times> msgqueue) option" where
  "mq_get_full mq = (if mq_entry mq = 0 then None
     else case mq_get (msg_size mq) mq of Inr r \<Rightarrow> Some r | Inl _ \<Rightarrow> None)"

interpretation mqf: bounded_fifo "\<lambda>mq. mq_inv [] mq \<and> msg_size mq = m" messages max_msgs mq_put_full mq_get_full
    "\<lambda>x. length x = m" for m
proof
  fix mq x assume i: "mq_inv [] mq \<and> msg_size mq = m"
  then have i': "mq_inv [] mq" by simp
  obtain qs fs where s: "mq_shape mq qs fs []" "messages mq = map (\<lambda>i. mq_data (mq_pool mq ! i)) qs"
    by (rule invE [OF i']) blast
  show le: "length (messages mq) \<le> max_msgs mq" using shape_count [OF s(1)] s(2) by simp
  show "mq_put_full x mq = None" if "length (messages mq) = max_msgs mq"
    using that no_free_full [OF i'] by (simp add: mq_put_full_def)
  show "\<exists>mq'. mq_put_full x mq = Some mq' \<and> (mq_inv [] mq' \<and> msg_size mq' = m) \<and> messages mq' = messages mq @ [x]
     \<and> max_msgs mq' = max_msgs mq" if x: "length x = m" and l: "length (messages mq) < max_msgs mq"
  proof -
    have f: "msg_queue_free mq \<noteq> None" using no_free_full [OF i'] l by simp
    obtain y mq' where p: "mq_put x (length x) mq = Inr (True, mq')" "mq_inv [] mq'" "messages mq' = messages mq @ [y]"
      "take (length x) y = take (length x) x" "length y = msg_size mq" "msg_size mq' = msg_size mq" "max_msgs mq' = max_msgs mq"
      by (rule put_ok [OF i' f, of "length x" x]) (use i x in auto)
    have "y = x" using p(4,5) x i by simp
    then show ?thesis using p f i by (simp add: mq_put_full_def)
  qed
  show "mq_get_full mq = None" if "messages mq = []"
    using that length_messages [OF i'] by (simp add: mq_get_full_def)
  show "\<exists>mq'. mq_get_full mq = Some (y, mq') \<and> (mq_inv [] mq' \<and> msg_size mq' = m) \<and> messages mq' = ys
     \<and> max_msgs mq' = max_msgs mq" if c: "messages mq = y # ys" for y ys
  proof -
    have e: "mq_entry mq \<noteq> 0" using c length_messages [OF i'] by auto
    show ?thesis
      by (rule get_ok [OF i' e, of "msg_size mq"]) (use e c i in \<open>simp add: mq_get_full_def\<close>)
  qed
qed

section \<open>Correctness\<close>

definition mq_valid :: "nat \<Rightarrow> kernel \<Rightarrow> bool" where
  "mq_valid n s \<longleftrightarrow> rt_object_get_type (OMsgQueue n) s = RT_Object_Class_MessageQueue
     \<and> obj_flag (objs s (OMsgQueue n)) \<in> {RT_IPC_FLAG_FIFO, RT_IPC_FLAG_PRIO} \<and> mq_inv [] (mqs s n)"

lemma mq_valid_same: "ipc_same s' s \<Longrightarrow> mq_valid n s' = mq_valid n s"
  by (simp add: mq_valid_def rt_object_get_type_def ipc_same_def)

lemma upd_mq_fields [simp]:
  "cur (upd_mq n f s) = cur s" "lock_nest (upd_mq n f s) = lock_nest s" "irq_nest (upd_mq n f s) = irq_nest s"
  "queues (upd_mq n f s) = queues s" "objs (upd_mq n f s) = objs s" "threads (upd_mq n f s) = threads s"
  "mqs (upd_mq n f s) = (mqs s)(n := f (mqs s n))" "ready_group (upd_mq n f s) = ready_group s"
  by (simp_all add: upd_mq_def)

lemma running_upd_mq: "running (upd_mq n f s) c = running s c"
  by (simp add: running_def kinv_def upd_mq_def kinv_other_fields)

lemma ipc_same_mqs: "ipc_same s' (upd_mq n (\<lambda>_. mq) s) \<Longrightarrow> mqs s' = (mqs s)(n := mq)"
  by (simp add: ipc_same_def)

text \<open>Installing a queue and waking a waiter.\<close>

lemma mq_install_wake:
  assumes r: "running s c" and v: "mq_valid n s" and i: "mq_inv [] mq" and q: "waits_in q"
  obtains s' where "ipc_wake q (upd_mq n (\<lambda>_. mq) s) = Inr s'" "kinv s'" "mq_valid n s'" "mqs s' n = mq"
    "woke_first q s s'"
proof -
  let ?s = "upd_mq n (\<lambda>_. mq) s"
  have r1: "running ?s c" using r by (simp add: running_upd_mq)
  obtain s' where s': "ipc_wake q ?s = Inr s'" "kinv s'" "ipc_same s' ?s" "woke_first q ?s s'"
    by (rule wake_first_ok [OF r1 q]) blast
  have "mq_valid n ?s" using v i by (simp add: mq_valid_def rt_object_get_type_def)
  then have "mq_valid n s'" using mq_valid_same [OF s'(3)] by simp
  moreover have "woke_first q s s'" using s'(4) by (simp add: woke_first_def)
  ultimately show thesis using that [of s'] s' ipc_same_mqs [OF s'(3)] by simp
qed

lemma running_ctx: "running s c \<Longrightarrow> RT_DEBUG_SCHEDULER_AVAILABLE b s"
  using runningD(6) [of s c] by (simp add: RT_DEBUG_SCHEDULER_AVAILABLE_def)

text \<open>C15: sending a message.  In thread context, with the kernel invariant, on a valid message
  queue whose nodes form the list of messages and the list of free nodes, with \<open>sz\<close> bytes in the
  buffer and a timeout below the timer horizon, \<^verbatim>\<open>rt_mq_send_wait\<close> never faults and
  keeps the invariants.  A message that is too long is refused; with a free node it is the last one, its
  first bytes those of the buffer, and the first waiting receiver is woken; without one the call returns
  \<^verbatim>\<open>-RT_EFULL\<close> and changes nothing, or the caller is suspended among the senders.\<close>

theorem rt_mq_send_correct:
  assumes "running s c" "mq_valid n s" "0 < sz" "sz \<le> length buffer" "timeout < 0x7fffffff"
  shows "\<exists>r s'. rt_mq_send_wait n buffer sz timeout s = Inr (r, s') \<and> kinv s' \<and> mq_valid n s' \<and>
    (if msg_size (mqs s n) < sz then r = Return (- RT_ERROR) \<and> s' = s
     else if length (messages (mqs s n)) < max_msgs (mqs s n) then
       r = Return RT_EOK \<and> woke_first (QSuspend (OMsgQueue n)) s s' \<and>
       (\<exists>x. messages (mqs s' n) = messages (mqs s n) @ [x] \<and> take sz x = take sz buffer)
     else if timeout = 0 then r = Return (- RT_EFULL) \<and> s' = s
     else r = Blocked \<and> mqs s' = mqs s
         \<and> waiting_in (QSender (OMsgQueue n)) (obj_flag (objs s (OMsgQueue n))) c s s')"
proof -
  note d = runningD [OF assms(1)] and ctx = running_ctx [OF assms(1)]
  have ty: "rt_object_get_type (OMsgQueue n) s = RT_Object_Class_MessageQueue"
    and fl: "obj_flag (objs s (OMsgQueue n)) \<in> {RT_IPC_FLAG_FIFO, RT_IPC_FLAG_PRIO}"
    and i: "mq_inv [] (mqs s n)" using assms(2) by (simp_all add: mq_valid_def)
  have le: "length (messages (mqs s n)) \<le> max_msgs (mqs s n)"
    by (rule invE [OF i]) (use shape_count in force)
  note nf = no_free_full [OF i]
  have kv: "kinv s" using assms(1) by (simp add: running_def)
  consider (long) "msg_size (mqs s n) < sz"
    | (room) "sz \<le> msg_size (mqs s n)" "msg_queue_free (mqs s n) \<noteq> None"
    | (full) "sz \<le> msg_size (mqs s n)" "msg_queue_free (mqs s n) = None" "timeout = 0"
    | (wait) "sz \<le> msg_size (mqs s n)" "msg_queue_free (mqs s n) = None" "timeout \<noteq> 0" by force
  then show ?thesis
  proof cases
    case long
    then show ?thesis using ty ctx kv assms(2,3) by (simp add: rt_mq_send_wait_def)
  next
    case room
    obtain x mq where p: "mq_put buffer sz (mqs s n) = Inr (True, mq)" "mq_inv [] mq"
      "messages mq = messages (mqs s n) @ [x]" "take sz x = take sz buffer"
      by (rule put_ok [OF i room(2,1) assms(4)]) blast
    obtain s' where s': "ipc_wake (QSuspend (OMsgQueue n)) (upd_mq n (\<lambda>_. mq) s) = Inr s'" "kinv s'" "mq_valid n s'"
      "mqs s' n = mq" "woke_first (QSuspend (OMsgQueue n)) s s'"
      by (rule mq_install_wake [OF assms(1,2) p(2) waits_in_simps(1)]) blast
    have "rt_mq_send_wait n buffer sz timeout s = Inr (Return RT_EOK, s')"
      using room ty ctx assms(3) p(1) s'(1)
      by (auto simp: rt_mq_send_wait_def mq_send_loop_def mq_send_finish_def Let_def)
    moreover have "length (messages (mqs s n)) < max_msgs (mqs s n)" using room(2) nf le by simp
    ultimately show ?thesis using room(1) p s' by auto
  next
    case full
    then show ?thesis using nf ty ctx kv assms(2,3) by (simp add: rt_mq_send_wait_def)
  next
    case wait
    obtain s' where s': "ipc_block (QSender (OMsgQueue n)) c timeout (obj_flag (objs s (OMsgQueue n))) (reset_error c s) = Inr s'"
      "kinv s'" "ipc_same s' s" "waiting_in (QSender (OMsgQueue n)) (obj_flag (objs s (OMsgQueue n))) c s s'"
      by (rule ipc_block_waits [OF assms(1) waits_in_simps(2) fl assms(5)]) blast
    have "rt_mq_send_wait n buffer sz timeout s = Inr (Blocked, s')"
      using wait ty ctx d(7) assms(3) s'(1) by (simp add: rt_mq_send_wait_def mq_send_loop_def Let_def)
    moreover have "mq_valid n s'" using mq_valid_same [OF s'(3)] assms(2) by simp
    moreover have "mqs s' = mqs s" using s'(3) by (simp add: ipc_same_def)
    ultimately show ?thesis using s' wait nf by simp
  qed
qed

text \<open>C16: receiving a message, with the same assumptions: the oldest message leaves the queue, as
  many of its bytes as the receiver asked for (never more than the message size) are copied out, and the
  first waiting sender is woken; without a message the call returns
  \<^verbatim>\<open>-RT_ETIMEOUT\<close> and changes nothing, or the caller is suspended among the
  receivers.\<close>

theorem rt_mq_recv_correct:
  assumes "running s c" "mq_valid n s" "0 < sz" "timeout < 0x7fffffff"
  shows "\<exists>r bytes s'. rt_mq_recv n sz timeout s = Inr (r, bytes, s') \<and> kinv s' \<and> mq_valid n s' \<and>
    (case messages (mqs s n) of
       x # rest \<Rightarrow> r = Return RT_EOK \<and> bytes = Some (take (min sz (msg_size (mqs s n))) x)
         \<and> messages (mqs s' n) = rest \<and> woke_first (QSender (OMsgQueue n)) s s'
     | [] \<Rightarrow> bytes = None \<and> (if timeout = 0 then r = Return (- RT_ETIMEOUT) \<and> s' = s
         else r = Blocked \<and> mqs s' = mqs s
           \<and> waiting_in (QSuspend (OMsgQueue n)) (obj_flag (objs s (OMsgQueue n))) c s s'))"
proof -
  note d = runningD [OF assms(1)] and ctx = running_ctx [OF assms(1)]
  have ty: "rt_object_get_type (OMsgQueue n) s = RT_Object_Class_MessageQueue"
    and fl: "obj_flag (objs s (OMsgQueue n)) \<in> {RT_IPC_FLAG_FIFO, RT_IPC_FLAG_PRIO}"
    and i: "mq_inv [] (mqs s n)" using assms(2) by (simp_all add: mq_valid_def)
  have none: "messages (mqs s n) = [] \<longleftrightarrow> mq_entry (mqs s n) = 0"
    using length_messages [OF i] by (cases "messages (mqs s n)") auto
  have kv: "kinv s" using assms(1) by (simp add: running_def)
  consider (msg) "mq_entry (mqs s n) \<noteq> 0" | (none) "mq_entry (mqs s n) = 0" "timeout = 0"
    | (wait) "mq_entry (mqs s n) = 0" "timeout \<noteq> 0" by blast
  then show ?thesis
  proof cases
    case msg
    obtain x mq where p: "mq_get sz (mqs s n) = Inr (take (min sz (msg_size (mqs s n))) x, mq)" "mq_inv [] mq"
      "messages (mqs s n) = x # messages mq"
      by (rule get_ok [OF i msg, of sz]) blast
    obtain s' where s': "ipc_wake (QSender (OMsgQueue n)) (upd_mq n (\<lambda>_. mq) s) = Inr s'" "kinv s'" "mq_valid n s'"
      "mqs s' n = mq" "woke_first (QSender (OMsgQueue n)) s s'"
      by (rule mq_install_wake [OF assms(1,2) p(2) waits_in_simps(2)]) blast
    have "rt_mq_recv n sz timeout s = Inr (Return RT_EOK, Some (take (min sz (msg_size (mqs s n))) x), s')"
      using msg ty ctx assms(3) p(1) s'(1)
      by (auto simp: rt_mq_recv_def mq_recv_loop_def mq_recv_finish_def Let_def)
    then show ?thesis using p(3) s' by simp
  next
    case none
    then show ?thesis using \<open>messages (mqs s n) = [] \<longleftrightarrow> mq_entry (mqs s n) = 0\<close> ty ctx kv assms(2,3)
      by (simp add: rt_mq_recv_def)
  next
    case wait
    obtain s' where s': "ipc_block (QSuspend (OMsgQueue n)) c timeout (obj_flag (objs s (OMsgQueue n))) (reset_error c s) = Inr s'"
      "kinv s'" "ipc_same s' s" "waiting_in (QSuspend (OMsgQueue n)) (obj_flag (objs s (OMsgQueue n))) c s s'"
      by (rule ipc_block_waits [OF assms(1) waits_in_simps(1) fl assms(4)]) blast
    have "rt_mq_recv n sz timeout s = Inr (Blocked, None, s')"
      using wait ty ctx d(7) assms(3) s'(1) by (simp add: rt_mq_recv_def mq_recv_loop_def Let_def)
    moreover have "mq_valid n s'" using mq_valid_same [OF s'(3)] assms(2) by simp
    moreover have "mqs s' = mqs s" using s'(3) by (simp add: ipc_same_def)
    ultimately show ?thesis using s' wait none by simp
  qed
qed

section \<open>Examples\<close>

text \<open>A queue of two messages of four bytes, one of them in use.\<close>

definition demo_mq :: msgqueue where
  "demo_mq = \<lparr>mq_pool = [\<lparr>mq_next = None, mq_data = [1, 2, 3, 4]\<rparr>, \<lparr>mq_next = None, mq_data = [5, 6, 7, 8]\<rparr>],
     msg_size = 4, max_msgs = 2, mq_entry = 1, msg_queue_head = Some 1, msg_queue_tail = Some 1, msg_queue_free = Some 0\<rparr>"

lemma demo_mq: "mq_inv [] demo_mq" "messages demo_mq = [[5, 6, 7, 8]]"
proof -
  have s: "mq_shape demo_mq [1] [0] []" by (auto simp: mq_shape_def demo_mq_def)
  show "mq_inv [] demo_mq" by (rule shape_inv [OF s])
  show "messages demo_mq = [[5, 6, 7, 8]]" using shape_messages [OF s] by (simp add: demo_mq_def)
qed

definition demo_mqk :: kernel where
  "demo_mqk = upd_mq 0 (\<lambda>_. demo_mq) (demo_wait (QSuspend (OMsgQueue 0)) id)"

lemma demo_mqk: "running demo_mqk 1" "mq_valid 0 demo_mqk" "mqs demo_mqk 0 = demo_mq"
  "queues demo_mqk (QSuspend (OMsgQueue 0)) = [3]"
proof -
  have "running (demo_wait (QSuspend (OMsgQueue 0)) id) 1" by (rule demo_wait_running) simp_all
  then show "running demo_mqk 1" by (simp add: demo_mqk_def running_upd_mq)
  show m: "mqs demo_mqk 0 = demo_mq" by (simp add: demo_mqk_def)
  show "mq_valid 0 demo_mqk" using demo_mq(1) m
    by (simp add: mq_valid_def rt_object_get_type_def) (simp add: demo_mqk_def demo_wait_fields demo_kernel_def)
  show "queues demo_mqk (QSuspend (OMsgQueue 0)) = [3]" by (simp add: demo_mqk_def demo_wait_fields)
qed

theorem rt_mq_send_correct_witness:
  "\<exists>s' x. rt_mq_send_wait 0 [9, 9, 9] 2 0 demo_mqk = Inr (Return RT_EOK, s')
     \<and> messages (mqs s' 0) = [[5, 6, 7, 8], x] \<and> take 2 x = [9, 9]
     \<and> tstat s' 3 \<in> {RT_THREAD_READY, RT_THREAD_RUNNING}"
  using rt_mq_send_correct [of demo_mqk 1 0 2 "[9, 9, 9]" 0] demo_mqk demo_mq(2)
  by (auto simp: demo_mq_def woke_first_def numeral_2_eq_2)

theorem rt_mq_recv_correct_witness:
  "\<exists>s'. rt_mq_recv 0 2 5 demo_mqk = Inr (Return RT_EOK, Some [5, 6], s') \<and> messages (mqs s' 0) = []"
  using rt_mq_recv_correct [of demo_mqk 1 0 2 5] demo_mqk demo_mq(2)
  by (auto simp: demo_mq_def numeral_2_eq_2)

end
