(* ===== verification/MqSteps.thy ===== *)
theory MqSteps
  imports MsgQueue
begin

text \<open>
  Many senders and receivers of one message queue.  \<^verbatim>\<open>rt_mq_send_wait\<close>,
  \<^verbatim>\<open>rt_mq_urgent\<close> and \<^verbatim>\<open>rt_mq_recv\<close> re-enable interrupts while
  they copy, so their critical regions and copies interleave with those of other threads and of interrupt
  handlers.  The step relation has one rule per region; the reachable states keep every node in one place,
  and what is received is what a queue of messages would give.
\<close>

section \<open>Steps\<close>

text \<open>Where an agent (a thread or an interrupt handler) is in its call.  A receiver's last component
  is the message it unlinked, recorded for the specification only.\<close>

datatype mq_phase = Idle
  | Writing (mp_node: nat) (mp_buffer: "u8 list") (mp_size: nat) (mp_urgent: bool)
  | Written (mp_node: nat) (mp_buffer: "u8 list") (mp_size: nat) (mp_urgent: bool)
  | Reading (mp_node: nat) (mp_size: nat) (mp_msg: "u8 list")
  | Copied (mp_node: nat) (mp_bytes: "u8 list") (mp_size: nat) (mp_msg: "u8 list")

fun hand :: "mq_phase \<Rightarrow> nat option" where
  "hand Idle = None"
| "hand (Writing k _ _ _) = Some k"
| "hand (Written k _ _ _) = Some k"
| "hand (Reading k _ _) = Some k"
| "hand (Copied k _ _ _) = Some k"

text \<open>The operations of the abstract queue, in the order of the linking and unlinking regions.\<close>

datatype mq_act = PutLast "u8 list" | PutFirst "u8 list" | TakeFirst "u8 list"

fun replay :: "mq_act list \<Rightarrow> u8 list list \<Rightarrow> u8 list list option" where
  "replay [] q = Some q"
| "replay (PutLast x # as) q = replay as (q @ [x])"
| "replay (PutFirst x # as) q = replay as (x # q)"
| "replay (TakeFirst x # as) q = (case q of y # q' \<Rightarrow> if y = x then replay as q' else None | [] \<Rightarrow> None)"

record mq_sys =
  shared :: msgqueue
  phase :: "nat \<Rightarrow> mq_phase"
  hist :: "mq_act list"

definition mq_linked :: "nat \<Rightarrow> bool \<Rightarrow> msgqueue \<Rightarrow> msgqueue" where
  "mq_linked k urgent mq = snd (if urgent then mq_link_front k mq else mq_link k mq)"

inductive mq_step :: "mq_sys \<Rightarrow> mq_sys \<Rightarrow> bool" where
  take_node: "phase s a = Idle \<Longrightarrow> 0 < sz \<Longrightarrow> sz \<le> msg_size (shared s) \<Longrightarrow> sz \<le> length buffer \<Longrightarrow>
     mq_alloc (shared s) = Inr (k, mq) \<Longrightarrow>
     mq_step s (s\<lparr>shared := mq, phase := (phase s)(a := Writing k buffer sz urgent)\<rparr>)"
| fill_node: "phase s a = Writing k buffer sz urgent \<Longrightarrow>
     mq_step s (s\<lparr>shared := mq_fill k buffer sz (if urgent then shared s else mq_set_next k None (shared s)),
                  phase := (phase s)(a := Written k buffer sz urgent)\<rparr>)"
| link_node: "phase s a = Written k buffer sz urgent \<Longrightarrow>
     mq_step s (s\<lparr>shared := mq_linked k urgent (shared s), phase := (phase s)(a := Idle),
                  hist := hist s @ [(if urgent then PutFirst else PutLast) (mq_data (mq_pool (shared s) ! k))]\<rparr>)"
| unlink_node: "phase s a = Idle \<Longrightarrow> mq_entry (shared s) \<noteq> 0 \<Longrightarrow> mq_unlink (shared s) = Inr (k, mq) \<Longrightarrow>
     x = mq_data (mq_pool (shared s) ! k) \<Longrightarrow>
     mq_step s (s\<lparr>shared := mq, phase := (phase s)(a := Reading k sz x), hist := hist s @ [TakeFirst x]\<rparr>)"
| copy_node: "phase s a = Reading k sz x \<Longrightarrow>
     mq_step s (s\<lparr>phase := (phase s)(a := Copied k (mq_copy_out k sz (shared s)) sz x)\<rparr>)"
| free_node: "phase s a = Copied k bytes sz x \<Longrightarrow>
     mq_step s (s\<lparr>shared := mq_free_node k (shared s), phase := (phase s)(a := Idle)\<rparr>)"

inductive_cases mq_stepE: "mq_step s s'"

inductive mq_reach :: "msgqueue \<Rightarrow> mq_sys \<Rightarrow> bool" for q0 where
  start: "mq_reach q0 \<lparr>shared = q0, phase = (\<lambda>_. Idle), hist = []\<rparr>"
| step: "mq_reach q0 s \<Longrightarrow> mq_step s s' \<Longrightarrow> mq_reach q0 s'"

section \<open>The invariant\<close>

fun phase_ok :: "msgqueue \<Rightarrow> mq_phase \<Rightarrow> bool" where
  "phase_ok mq Idle = True"
| "phase_ok mq (Writing k buffer sz urgent) = (sz \<le> msg_size mq \<and> sz \<le> length buffer)"
| "phase_ok mq (Written k buffer sz urgent) =
     ((\<not> urgent \<longrightarrow> mq_next (mq_pool mq ! k) = None) \<and> take sz (mq_data (mq_pool mq ! k)) = take sz buffer)"
| "phase_ok mq (Reading k sz x) = (mq_data (mq_pool mq ! k) = x)"
| "phase_ok mq (Copied k bytes sz x) = (bytes = take (min sz (msg_size mq)) x)"

definition in_hands :: "(nat \<Rightarrow> mq_phase) \<Rightarrow> nat list \<Rightarrow> bool" where
  "in_hands ph hs \<longleftrightarrow> (\<forall>k. k \<in> set hs \<longleftrightarrow> (\<exists>a. hand (ph a) = Some k))
     \<and> (\<forall>a b k. hand (ph a) = Some k \<longrightarrow> hand (ph b) = Some k \<longrightarrow> a = b)"

definition mq_sys_inv :: "msgqueue \<Rightarrow> mq_sys \<Rightarrow> bool" where
  "mq_sys_inv q0 s \<longleftrightarrow> (\<exists>hs. mq_inv hs (shared s) \<and> in_hands (phase s) hs)
     \<and> (\<forall>a. phase_ok (shared s) (phase s a))
     \<and> replay (hist s) (messages q0) = Some (messages (shared s))
     \<and> msg_size (shared s) = msg_size q0"

lemma mq_sys_invI:
  "mq_inv hs (shared s) \<Longrightarrow> in_hands (phase s) hs \<Longrightarrow> (\<And>a. phase_ok (shared s) (phase s a)) \<Longrightarrow>
   replay (hist s) (messages q0) = Some (messages (shared s)) \<Longrightarrow> msg_size (shared s) = msg_size q0 \<Longrightarrow>
   mq_sys_inv q0 s"
  by (auto simp: mq_sys_inv_def)

lemma replay_append:
  "replay (as @ bs) q = (case replay as q of None \<Rightarrow> None | Some q' \<Rightarrow> replay bs q')"
  by (induction as q rule: replay.induct) (auto split: list.splits)

text \<open>A phase depends only on its own node.\<close>

lemma phase_ok_frame:
  "phase_ok mq ph \<Longrightarrow> msg_size mq' = msg_size mq \<Longrightarrow>
     (\<And>k. hand ph = Some k \<Longrightarrow> mq_pool mq' ! k = mq_pool mq ! k) \<Longrightarrow> phase_ok mq' ph"
  by (cases ph) auto

lemma hand_upd: "(\<exists>b. hand ((ph(a := p)) b) = Some j) \<longleftrightarrow> hand p = Some j \<or> (\<exists>b. b \<noteq> a \<and> hand (ph b) = Some j)"
  by (metis fun_upd_apply)

lemma in_handsD:
  assumes "in_hands ph hs"
  shows "k \<in> set hs \<longleftrightarrow> (\<exists>a. hand (ph a) = Some k)"
    "hand (ph a) = Some k \<Longrightarrow> hand (ph b) = Some k \<Longrightarrow> a = b"
  using assms unfolding in_hands_def by blast+

lemma in_hands_take:
  assumes h: "in_hands ph hs" and a: "hand (ph a) = None" and k: "k \<notin> set hs" "hand p = Some k"
  shows "in_hands (ph(a := p)) (k # hs)"
  unfolding in_hands_def hand_upd
proof (intro conjI allI impI)
  fix j
  have "hand (ph a) \<noteq> Some j" using a by simp
  then have "(\<exists>b. b \<noteq> a \<and> hand (ph b) = Some j) \<longleftrightarrow> j \<in> set hs" using in_handsD(1) [OF h, of j] by metis
  then show "j \<in> set (k # hs) \<longleftrightarrow> hand p = Some j \<or> (\<exists>b. b \<noteq> a \<and> hand (ph b) = Some j)"
    using k(2) by simp blast
next
  fix x y j assume xy: "hand ((ph(a := p)) x) = Some j" "hand ((ph(a := p)) y) = Some j"
  have nk: "hand (ph z) \<noteq> Some k" for z using in_handsD(1) [OF h, of k] k(1) by blast
  show "x = y"
  proof (cases "x = a \<or> y = a")
    case True
    then show ?thesis using xy k(2) nk by (cases "x = a"; cases "y = a") simp_all
  next
    case False
    then show ?thesis using xy in_handsD(2) [OF h, of x j y] by simp
  qed
qed

lemma in_hands_keep:
  assumes h: "in_hands ph hs" and a: "hand (ph a) = hand p"
  shows "in_hands (ph(a := p)) hs"
proof -
  have "hand ((ph(a := p)) b) = hand (ph b)" for b using a by simp
  then show ?thesis using h unfolding in_hands_def by simp
qed

lemma in_hands_give:
  assumes h: "in_hands ph hs" "distinct hs" and a: "hand (ph a) = Some k" and p: "hand p = None"
  shows "in_hands (ph(a := p)) (remove1 k hs)"
  unfolding in_hands_def hand_upd
proof (intro conjI allI impI)
  fix j
  have "(\<exists>b. b \<noteq> a \<and> hand (ph b) = Some j) \<longleftrightarrow> j \<in> set hs \<and> j \<noteq> k"
    using in_handsD(1) [OF h(1), of j] in_handsD(2) [OF h(1)] a by (metis option.inject)
  then show "j \<in> set (remove1 k hs) \<longleftrightarrow> hand p = Some j \<or> (\<exists>b. b \<noteq> a \<and> hand (ph b) = Some j)"
    using p h(2) by auto
next
  fix x y j assume "hand ((ph(a := p)) x) = Some j" "hand ((ph(a := p)) y) = Some j"
  then show "x = y" using p in_handsD(2) [OF h(1), of x j y] by (simp split: if_splits)
qed

lemma in_hands_mem: "in_hands ph hs \<Longrightarrow> hand (ph a) = Some k \<Longrightarrow> k \<in> set hs"
  by (auto simp: in_hands_def)

lemma in_hands_other: "in_hands ph hs \<Longrightarrow> hand (ph a) = Some k \<Longrightarrow> hand (ph b) = Some j \<Longrightarrow> b \<noteq> a \<Longrightarrow> j \<noteq> k"
  by (auto simp: in_hands_def)

lemma inv_distinct: "mq_inv hs mq \<Longrightarrow> distinct hs"
  by (erule invE) (simp add: mq_shape_def)

lemma inv_data_len: "mq_inv hs mq \<Longrightarrow> k \<in> set hs \<Longrightarrow> k < length (mq_pool mq) \<and> length (mq_data (mq_pool mq ! k)) = msg_size mq"
  by (erule invE) (metis Un_iff data_len shape_all)

lemma mq_step_inv:
  assumes st: "mq_step s s'" and inv: "mq_sys_inv q0 s"
  shows "mq_sys_inv q0 s'"
proof -
  obtain hs where i: "mq_inv hs (shared s)" and hh: "in_hands (phase s) hs"
    and ph: "\<And>a. phase_ok (shared s) (phase s a)"
    and rp: "replay (hist s) (messages q0) = Some (messages (shared s))"
    and ms: "msg_size (shared s) = msg_size q0" using inv by (auto simp: mq_sys_inv_def)
  from st show ?thesis
  proof cases
    case (take_node a sz buffer k mq urgent)
    have f: "msg_queue_free (shared s) \<noteq> None" using take_node(6) by (auto simp: mq_alloc_def split: option.splits)
    obtain mq' where m: "mq_alloc (shared s) = Inr (k, mq')" "mq_inv (k # hs) mq'" "messages mq' = messages (shared s)"
      "msg_size mq' = msg_size (shared s)" "mq_pool mq' = mq_pool (shared s)"
      by (rule alloc_ok [OF i f]) (use take_node(6) in auto)
    then have eq: "mq' = mq" using take_node(6) by simp
    have "k \<notin> set hs" using inv_distinct [OF m(2)] by simp
    then have "in_hands (phase s') (k # hs)" using in_hands_take [OF hh, of a k] take_node(1,2) by simp
    moreover have "phase_ok (shared s') (phase s' b)" for b
      using take_node m(4,5) eq phase_ok_frame [OF ph, of mq b] by simp
    ultimately show ?thesis using m eq take_node(1) rp ms by (intro mq_sys_invI [of "k # hs"]) simp_all
  next
    case (fill_node a k buffer sz urgent)
    have k: "k \<in> set hs" using in_hands_mem [OF hh, of a] fill_node(2) by simp
    have len: "k < length (mq_pool (shared s))" "length (mq_data (mq_pool (shared s) ! k)) = msg_size (shared s)"
      using inv_data_len [OF i k] by simp_all
    have sz: "sz \<le> msg_size (shared s)" "sz \<le> length buffer" using ph [of a] fill_node(2) by simp_all
    let ?x = "memcpy_at (mq_data (mq_pool (shared s) ! k)) 0 buffer 0 sz"
    let ?y = "if urgent then mq_pool (shared s) ! k else (mq_pool (shared s) ! k)\<lparr>mq_next := None\<rparr>"
    let ?n = "?y\<lparr>mq_data := ?x\<rparr>"
    have q: "shared s' = (shared s)\<lparr>mq_pool := (mq_pool (shared s))[k := ?n]\<rparr>"
      using fill_node(1) len(1) by (cases urgent) (simp_all add: mq_fill_def mq_set_next_def)
    have n: "length (mq_data ?n) = msg_size (shared s)" using len sz by simp
    have "phase_ok (shared s') (phase s' b)" for b
    proof (cases "b = a")
      case True
      have "take sz ?x = take sz buffer" using len sz by (simp add: memcpy_at_def)
      then show ?thesis using True fill_node(1) len(1) unfolding q by simp
    next
      case False
      have "mq_pool (shared s') ! j = mq_pool (shared s) ! j" if j: "hand (phase s b) = Some j" for j
        using in_hands_other [OF hh _ j False, of k] fill_node(2) unfolding q by simp
      moreover have "msg_size (shared s') = msg_size (shared s)" unfolding q by simp
      ultimately have "phase_ok (shared s') (phase s b)" by (intro phase_ok_frame [OF ph])
      then show ?thesis using False fill_node(1) by simp
    qed
    moreover have "in_hands (phase s') hs" using in_hands_keep [OF hh, of a] fill_node(1,2) by simp
    moreover have "mq_inv hs (shared s')" "messages (shared s') = messages (shared s)"
      unfolding q by (rule held_write [OF i k n])+
    ultimately show ?thesis using fill_node(1) rp ms q by (intro mq_sys_invI [of hs]) simp_all
  next
    case (link_node a k buffer sz urgent)
    have k: "k \<in> set hs" using in_hands_mem [OF hh, of a] link_node(2) by simp
    have nx: "\<not> urgent \<Longrightarrow> mq_next (mq_pool (shared s) ! k) = None" using ph [of a] link_node(2) by simp
    let ?x = "mq_data (mq_pool (shared s) ! k)"
    have q: "mq_inv (remove1 k hs) (shared s') \<and> msg_size (shared s') = msg_size (shared s)
       \<and> messages (shared s') = (if urgent then ?x # messages (shared s) else messages (shared s) @ [?x])
       \<and> (\<forall>h \<in> set hs. h \<noteq> k \<longrightarrow> mq_pool (shared s') ! h = mq_pool (shared s) ! h)"
    proof (cases urgent)
      case True
      show ?thesis by (rule link_front_ok [OF i k]) (use True link_node(1) in \<open>simp add: mq_linked_def\<close>)
    next
      case False
      show ?thesis by (rule link_ok [OF i k nx [OF False]]) (use False link_node(1) in \<open>simp add: mq_linked_def\<close>)
    qed
    have "phase_ok (shared s') (phase s' b)" for b
    proof (cases "b = a")
      case False
      have "mq_pool (shared s') ! j = mq_pool (shared s) ! j" if j: "hand (phase s b) = Some j" for j
        using q in_hands_mem [OF hh j] in_hands_other [OF hh _ j False] link_node(2) by simp
      then show ?thesis using False link_node(1) q phase_ok_frame [OF ph, of "shared s'" b] by simp
    qed (simp add: link_node(1))
    moreover have "in_hands (phase s') (remove1 k hs)"
      using in_hands_give [OF hh inv_distinct [OF i], of a k] link_node(1,2) by simp
    moreover have "replay (hist s') (messages q0) = Some (messages (shared s'))"
      using rp q link_node(1) by (simp add: replay_append)
    ultimately show ?thesis using q ms by (intro mq_sys_invI [of "remove1 k hs"]) simp_all
  next
    case (unlink_node a k mq x sz)
    obtain mq' where m: "mq_unlink (shared s) = Inr (k, mq')" "mq_inv (k # hs) mq'"
      "messages (shared s) = mq_data (mq_pool (shared s) ! k) # messages mq'"
      "msg_size mq' = msg_size (shared s)" "mq_pool mq' = mq_pool (shared s)"
      by (rule unlink_ok [OF i unlink_node(3)]) (use unlink_node(4) in auto)
    then have eq: "mq' = mq" using unlink_node(4) by simp
    have "k \<notin> set hs" using inv_distinct [OF m(2)] by simp
    then have "in_hands (phase s') (k # hs)" using in_hands_take [OF hh, of a k] unlink_node(1,2) by simp
    moreover have "phase_ok (shared s') (phase s' b)" for b
      using unlink_node m(4,5) eq phase_ok_frame [OF ph, of mq b] by simp
    moreover have "replay (hist s') (messages q0) = Some (messages (shared s'))"
      using rp unlink_node(1,5) m(3) eq by (simp add: replay_append)
    ultimately show ?thesis using m eq unlink_node(1) ms by (intro mq_sys_invI [of "k # hs"]) simp_all
  next
    case (copy_node a k sz x)
    have x: "mq_data (mq_pool (shared s) ! k) = x" using ph [of a] copy_node(2) by simp
    have "phase_ok (shared s') (phase s' b)" for b
      using copy_node(1) ph [of b] x by (simp add: mq_copy_out_def min_def not_le)
    moreover have "in_hands (phase s') hs" using in_hands_keep [OF hh, of a] copy_node(1,2) by simp
    ultimately show ?thesis using i copy_node(1) rp ms by (intro mq_sys_invI [of hs]) simp_all
  next
    case (free_node a k bytes sz x)
    have k: "k \<in> set hs" using in_hands_mem [OF hh, of a] free_node(2) by simp
    note f = free_ok [OF i k]
    have "phase_ok (shared s') (phase s' b)" for b
    proof (cases "b = a")
      case False
      have "mq_pool (shared s') ! j = mq_pool (shared s) ! j" if j: "hand (phase s b) = Some j" for j
        using f(3) in_hands_other [OF hh _ j False] free_node(1,2) by simp
      moreover have "msg_size (shared s') = msg_size (shared s)"
        using free_node(1) by (simp add: mq_free_node_def mq_set_next_def)
      ultimately show ?thesis using False free_node(1) phase_ok_frame [OF ph, of "shared s'" b] by simp
    qed (simp add: free_node(1))
    moreover have "in_hands (phase s') (remove1 k hs)"
      using in_hands_give [OF hh inv_distinct [OF i], of a k] free_node(1,2) by simp
    ultimately show ?thesis using f free_node(1) rp ms
      by (intro mq_sys_invI [of "remove1 k hs"]) (simp_all add: mq_free_node_def mq_set_next_def)
  qed
qed

lemma mq_reach_inv: "mq_reach q0 s \<Longrightarrow> mq_inv [] q0 \<Longrightarrow> mq_sys_inv q0 s"
proof (induction rule: mq_reach.induct)
  case start
  then show ?case by (intro mq_sys_invI [of "[]"]) (simp_all add: in_hands_def)
next
  case (step s s')
  then show ?case using mq_step_inv by blast
qed

text \<open>C14: interleaved senders and receivers.  From any well-formed message queue, after any
  interleaving of the critical regions and copies of any number of senders, urgent senders and receivers:
  no node is in two hands; the regions cannot fault (a free node can be taken, a counted message
  unlinked); the messages linked and unlinked so far, in the order of these regions, are a run of an
  abstract queue that ends with the messages now linked; and every receiver has copied a prefix of
  exactly the message it unlinked, though it copies outside the critical section.\<close>

theorem mq_interleaving_safe:
  assumes "mq_reach q0 s" "mq_inv [] q0"
  shows "(\<forall>a b k. hand (phase s a) = Some k \<longrightarrow> hand (phase s b) = Some k \<longrightarrow> a = b)
    \<and> (msg_queue_free (shared s) \<noteq> None \<longrightarrow> (\<exists>r. mq_alloc (shared s) = Inr r))
    \<and> (mq_entry (shared s) \<noteq> 0 \<longrightarrow> (\<exists>r. mq_unlink (shared s) = Inr r))
    \<and> replay (hist s) (messages q0) = Some (messages (shared s))
    \<and> (\<forall>a k bytes sz x. phase s a = Copied k bytes sz x \<longrightarrow> bytes = take (min sz (msg_size q0)) x)"
proof -
  have "mq_sys_inv q0 s" by (rule mq_reach_inv [OF assms])
  then obtain hs where i: "mq_inv hs (shared s)" "in_hands (phase s) hs" "\<And>a. phase_ok (shared s) (phase s a)"
    "replay (hist s) (messages q0) = Some (messages (shared s))" "msg_size (shared s) = msg_size q0"
    by (auto simp: mq_sys_inv_def)
  have "\<exists>r. mq_alloc (shared s) = Inr r" if "msg_queue_free (shared s) \<noteq> None"
    by (rule alloc_ok [OF i(1) that]) blast
  moreover have "\<exists>r. mq_unlink (shared s) = Inr r" if "mq_entry (shared s) \<noteq> 0"
    by (rule unlink_ok [OF i(1) that]) blast
  moreover have "bytes = take (min sz (msg_size q0)) x" if "phase s a = Copied k bytes sz x" for a k bytes sz x
    using i(3) [of a] that i(5) by simp
  ultimately show ?thesis using i(2,4) by (auto simp: in_hands_def)
qed

text \<open>A sender takes a node while a receiver holds the message it unlinked.\<close>

theorem mq_interleaving_safe_witness:
  "\<exists>s. mq_reach demo_mq s \<and> phase s 0 = Writing 0 [9, 9] 2 False \<and> phase s 1 = Copied 1 [5, 6] 2 [5, 6, 7, 8]
     \<and> replay (hist s) (messages demo_mq) = Some (messages (shared s))"
proof -
  let ?start = "\<lparr>shared = demo_mq, phase = \<lambda>_. Idle, hist = []\<rparr>"
  let ?qa = "demo_mq\<lparr>msg_queue_free := None\<rparr>"
  let ?sa = "?start\<lparr>shared := ?qa, phase := (phase ?start)(0 := Writing 0 [9, 9] 2 False)\<rparr>"
  let ?qb = "?qa\<lparr>msg_queue_head := None, msg_queue_tail := None, mq_entry := 0\<rparr>"
  let ?sb = "?sa\<lparr>shared := ?qb, phase := (phase ?sa)(1 := Reading 1 2 [5, 6, 7, 8]),
      hist := hist ?sa @ [TakeFirst [5, 6, 7, 8]]\<rparr>"
  let ?sc = "?sb\<lparr>phase := (phase ?sb)(1 := Copied 1 (mq_copy_out 1 2 (shared ?sb)) 2 [5, 6, 7, 8])\<rparr>"
  have "mq_step ?start ?sa"
    by (rule mq_step.take_node) (simp_all add: mq_alloc_def mq_node_at_def demo_mq_def)
  note ra = mq_reach.step [OF mq_reach.start [of demo_mq] this]
  have "mq_step ?sa ?sb"
    by (rule mq_step.unlink_node) (simp_all add: mq_unlink_def mq_behead_def mq_node_at_def demo_mq_def)
  note rb = mq_reach.step [OF ra this]
  have "mq_step ?sb ?sc" by (rule mq_step.copy_node) simp
  note rc = mq_reach.step [OF rb this]
  have "mq_copy_out 1 2 (shared ?sb) = [5, 6]" by (simp add: mq_copy_out_def demo_mq_def numeral_2_eq_2)
  then show ?thesis
    using mq_interleaving_safe [OF rc demo_mq(1)] rc by (intro exI [of _ ?sc]) simp
qed

end
