(* ===== verification/SmallMem.thy ===== *)
theory SmallMem
  imports Object Addr32
begin

text \<open>
  The small memory manager, \<^verbatim>\<open>rt-thread/src/mem.c\<close>: first-fit allocation in a
  heap of contiguous blocks, each with a header of three words (the pool and a used bit, the offsets of the
  next and of the previous block).  The heap is an array of words addressed by byte offset, so that headers
  and data share it; offsets and sizes are 32-bit numbers with the wrap-around written out.
\<close>

section \<open>The heap\<close>

abbreviation (input) SIZEOF_STRUCT_MEM :: nat where "SIZEOF_STRUCT_MEM \<equiv> 12"
abbreviation (input) MIN_SIZE_ALIGNED :: nat where "MIN_SIZE_ALIGNED \<equiv> 12"
abbreviation (input) MEM_MASK :: u32 where "MEM_MASK \<equiv> 0xfffffffe"

text \<open>\<open>self\<close> is the address of the control block, \<open>smem_id\<close> names its kernel object;
  \<open>heap_end\<close> and \<open>lfree\<close> are kept as offsets from \<open>heap_ptr\<close>.\<close>

record smem =
  smem_id :: nat
  self :: u32
  heap_ptr :: nat
  heap_end :: nat
  lfree :: nat
  mem_size_aligned :: nat
  mem_used :: nat
  mem_max :: nat
  heap :: "nat \<Rightarrow> u32"

definition MEM_USED :: "smem \<Rightarrow> u32" where
  "MEM_USED m = (self m AND MEM_MASK) OR 1"

definition MEM_FREED :: "smem \<Rightarrow> u32" where
  "MEM_FREED m = (self m AND MEM_MASK) OR 0"

definition it_pool :: "smem \<Rightarrow> nat \<Rightarrow> u32" where "it_pool m p = heap m p"
definition it_next :: "smem \<Rightarrow> nat \<Rightarrow> nat" where "it_next m p = unat (heap m (p + 4))"
definition it_prev :: "smem \<Rightarrow> nat \<Rightarrow> nat" where "it_prev m p = unat (heap m (p + 8))"

definition set_pool :: "nat \<Rightarrow> u32 \<Rightarrow> smem \<Rightarrow> smem" where
  "set_pool p v m = m\<lparr>heap := (heap m)(p := v)\<rparr>"
definition set_next :: "nat \<Rightarrow> nat \<Rightarrow> smem \<Rightarrow> smem" where
  "set_next p v m = m\<lparr>heap := (heap m)(p + 4 := word_of_nat v)\<rparr>"
definition set_prev :: "nat \<Rightarrow> nat \<Rightarrow> smem \<Rightarrow> smem" where
  "set_prev p v m = m\<lparr>heap := (heap m)(p + 8 := word_of_nat v)\<rparr>"

definition MEM_ISUSED :: "smem \<Rightarrow> nat \<Rightarrow> bool" where
  "MEM_ISUSED m p \<longleftrightarrow> it_pool m p AND NOT MEM_MASK \<noteq> 0"

definition MEM_POOL :: "smem \<Rightarrow> nat \<Rightarrow> u32" where
  "MEM_POOL m p = it_pool m p AND MEM_MASK"

section \<open>Operations\<close>

definition plug_holes :: "nat \<Rightarrow> smem \<Rightarrow> smem res" where
  "plug_holes mem m =
     assert_then (mem < heap_end m) (
     let nmem = it_next m mem;
         m = (if mem \<noteq> nmem \<and> \<not> MEM_ISUSED m nmem \<and> nmem \<noteq> heap_end m then
                let m = (if lfree m = nmem then m\<lparr>lfree := mem\<rparr> else m);
                    m = set_pool nmem 0 m;
                    m = set_next mem (it_next m nmem) m
                in set_prev (it_next m nmem) mem m
              else m);
         pmem = it_prev m mem
     in Inr (if pmem \<noteq> mem \<and> \<not> MEM_ISUSED m pmem then
               let m = (if lfree m = mem then m\<lparr>lfree := pmem\<rparr> else m);
                   m = set_pool mem 0 m;
                   m = set_next pmem (it_next m mem) m
               in set_prev (it_next m mem) pmem m
             else m))"

text \<open>Initialisation in the memory at \<open>begin_addr\<close> (contents \<open>mem\<close>, by offset from
  the heap's start); the control block has fourteen words.\<close>

abbreviation (input) sizeof_small_mem :: nat where "sizeof_small_mem \<equiv> 56"

definition rt_smem_init :: "nat \<Rightarrow> u8 list \<Rightarrow> nat \<Rightarrow> nat \<Rightarrow> (nat \<Rightarrow> u32) \<Rightarrow> kernel \<Rightarrow> (smem option \<times> kernel) res" where
  "rt_smem_init i name begin_addr sz mem s =
     (let small_mem = align4 begin_addr;
          start_addr = add32 small_mem sizeof_small_mem;
          begin_align = align4 start_addr;
          end_align = unat (RT_ALIGN_DOWN (word_of_nat begin_addr + word_of_nat sz) 4)
      in if end_align > 2 * SIZEOF_STRUCT_MEM \<and> end_align - 2 * SIZEOF_STRUCT_MEM \<ge> start_addr then
           let mem_size = sub32 (sub32 end_align begin_align) (2 * SIZEOF_STRUCT_MEM)
           in bind_res (rt_object_init (OMemory i) RT_Object_Class_Memory name s) (\<lambda>s.
              let m = \<lparr>smem_id = i, self = word_of_nat small_mem, heap_ptr = begin_align, heap_end = 0, lfree = 0,
                       mem_size_aligned = mem_size, mem_used = 0, mem_max = 0, heap = mem\<rparr>;
                  m = set_pool 0 (MEM_FREED m) m;
                  m = set_next 0 (add32 mem_size SIZEOF_STRUCT_MEM) m;
                  m = set_prev 0 0 m;
                  e = it_next m 0;
                  m = m\<lparr>heap_end := e\<rparr>;
                  m = set_pool e (MEM_USED m) m;
                  m = set_next e (add32 mem_size SIZEOF_STRUCT_MEM) m;
                  m = set_prev e (add32 mem_size SIZEOF_STRUCT_MEM) m
              in Inr (Some m, s))
         else Inr (None, s))"

definition smem_checked :: "smem \<Rightarrow> kernel \<Rightarrow> 'a res \<Rightarrow> 'a res" where
  "smem_checked m s r =
     assert_then (rt_object_get_type (OMemory (smem_id m)) s = RT_Object_Class_Memory) (
     assert_then (rt_object_is_systemobject (OMemory (smem_id m)) s) r)"

definition rt_smem_detach :: "smem \<Rightarrow> kernel \<Rightarrow> (int \<times> kernel) res" where
  "rt_smem_detach m s = smem_checked m s (Inr (RT_EOK, rt_object_detach (OMemory (smem_id m)) s))"

text \<open>The search for the first fit; the list of a damaged heap may be circular, hence the fuel.\<close>

fun smem_find :: "nat \<Rightarrow> nat \<Rightarrow> nat \<Rightarrow> smem \<Rightarrow> nat option res" where
  "smem_find 0 sz ptr m = Inl OutOfFuel"
| "smem_find (Suc fuel) sz ptr m =
     (if ptr \<le> mem_size_aligned m - sz then
        if \<not> MEM_ISUSED m ptr \<and> sub32 (it_next m ptr) (add32 ptr SIZEOF_STRUCT_MEM) \<ge> sz then Inr (Some ptr)
        else smem_find fuel sz (it_next m ptr) m
      else Inr None)"

fun smem_next_free :: "nat \<Rightarrow> smem \<Rightarrow> smem res" where
  "smem_next_free 0 m = Inl OutOfFuel"
| "smem_next_free (Suc fuel) m =
     (if MEM_ISUSED m (lfree m) \<and> lfree m \<noteq> heap_end m
      then smem_next_free fuel (m\<lparr>lfree := it_next m (lfree m)\<rparr>) else Inr m)"

definition account :: "nat \<Rightarrow> smem \<Rightarrow> smem" where
  "account n m =
     (let m = m\<lparr>mem_used := add32 (mem_used m) n\<rparr>
      in if mem_max m < mem_used m then m\<lparr>mem_max := mem_used m\<rparr> else m)"

text \<open>Taking the block at \<open>ptr\<close>, in two when the rest can be a block.\<close>

definition smem_carve :: "nat \<Rightarrow> nat \<Rightarrow> smem \<Rightarrow> smem" where
  "smem_carve sz ptr m =
     (let m = (if sub32 (it_next m ptr) (add32 ptr SIZEOF_STRUCT_MEM) \<ge> add32 sz (SIZEOF_STRUCT_MEM + MIN_SIZE_ALIGNED) then
           let ptr2 = add32 ptr (SIZEOF_STRUCT_MEM + sz);
               m = set_pool ptr2 (MEM_FREED m) m;
               m = set_next ptr2 (it_next m ptr) m;
               m = set_prev ptr2 ptr m;
               m = set_next ptr ptr2 m;
               m = (if it_next m ptr2 \<noteq> add32 (mem_size_aligned m) SIZEOF_STRUCT_MEM
                    then set_prev (it_next m ptr2) ptr2 m else m)
           in account (add32 sz SIZEOF_STRUCT_MEM) m
         else account (sub32 (it_next m ptr) ptr) m)
      in set_pool ptr (MEM_USED m) m)"

definition rt_smem_alloc :: "nat \<Rightarrow> smem \<Rightarrow> kernel \<Rightarrow> (nat option \<times> smem) res" where
  "rt_smem_alloc sz m s =
     (if sz = 0 then Inr (None, m)
      else smem_checked m s (
        let sz = align4 sz;
            sz = (if sz < MIN_SIZE_ALIGNED then MIN_SIZE_ALIGNED else sz);
            fuel = Suc (mem_size_aligned m)
        in if sz > mem_size_aligned m then Inr (None, m)
           else bind_res (smem_find fuel sz (lfree m) m) (\<lambda>found.
             case found of None \<Rightarrow> Inr (None, m)
             | Some ptr \<Rightarrow>
               let m = smem_carve sz ptr m
               in bind_res (if ptr = lfree m then
                      bind_res (smem_next_free fuel m) (\<lambda>m.
                        assert_then (lfree m = heap_end m \<or> \<not> MEM_ISUSED m (lfree m)) (Inr m))
                    else Inr m) (\<lambda>m.
                  assert_then (add32 (heap_ptr m + ptr) (SIZEOF_STRUCT_MEM + sz) \<le> add32 (heap_ptr m) (heap_end m)) (
                  assert_then (add32 (heap_ptr m + ptr) SIZEOF_STRUCT_MEM mod 4 = 0) (
                  assert_then ((heap_ptr m + ptr) mod 4 = 0) (
                    Inr (Some (add32 (heap_ptr m + ptr) SIZEOF_STRUCT_MEM), m)))))))) "

text \<open>Freeing, with the header at \<open>rmem\<close> minus the header size.  Only blocks of this pool
  are modelled.\<close>

definition rt_smem_free :: "nat option \<Rightarrow> smem \<Rightarrow> kernel \<Rightarrow> smem res" where
  "rt_smem_free rmem m s =
     (case rmem of None \<Rightarrow> Inr m
      | Some a \<Rightarrow>
        assert_then (a mod 4 = 0) (
        let mem = sub32 (sub32 a SIZEOF_STRUCT_MEM) (heap_ptr m)
        in assert_then (MEM_POOL m mem \<noteq> 0) (
           assert_then (MEM_ISUSED m mem) (
           if MEM_POOL m mem \<noteq> self m then Inl BadAccess
           else smem_checked m s (
             assert_then (a \<ge> heap_ptr m \<and> a < heap_ptr m + heap_end m) (
             assert_then (MEM_POOL m (it_next m mem) = self m) (
             let m = set_pool mem (MEM_FREED m) m;
                 m = (if mem < lfree m then m\<lparr>lfree := mem\<rparr> else m);
                 m = m\<lparr>mem_used := sub32 (mem_used m) (sub32 (it_next m mem) mem)\<rparr>
             in plug_holes mem m)))))))"

text \<open>\<^verbatim>\<open>rt_memcpy\<close> of whole words within the heap, from one block to another.\<close>

definition heap_copy :: "nat \<Rightarrow> nat \<Rightarrow> nat \<Rightarrow> smem \<Rightarrow> smem" where
  "heap_copy d s n m = m\<lparr>heap := \<lambda>o'. if d \<le> o' \<and> o' < d + n then heap m (s + (o' - d)) else heap m o'\<rparr>"

definition rt_smem_realloc :: "nat option \<Rightarrow> nat \<Rightarrow> smem \<Rightarrow> kernel \<Rightarrow> (nat option \<times> smem) res" where
  "rt_smem_realloc rmem newsize m s =
     smem_checked m s (
     let newsize = align4 newsize
     in if newsize > mem_size_aligned m then Inr (None, m)
        else if newsize = 0 then bind_res (rt_smem_free rmem m s) (\<lambda>m. Inr (None, m))
        else case rmem of None \<Rightarrow> rt_smem_alloc newsize m s
        | Some a \<Rightarrow>
          assert_then (a mod 4 = 0) (
          assert_then (a \<ge> heap_ptr m) (
          assert_then (a < heap_ptr m + heap_end m) (
          let ptr = sub32 (sub32 a SIZEOF_STRUCT_MEM) (heap_ptr m);
              sz = sub32 (sub32 (it_next m ptr) ptr) SIZEOF_STRUCT_MEM
          in if sz = newsize then Inr (Some a, m)
             else if add32 newsize (SIZEOF_STRUCT_MEM + 12) < sz then
               let m = m\<lparr>mem_used := sub32 (mem_used m) (sub32 sz newsize)\<rparr>;
                   ptr2 = add32 ptr (SIZEOF_STRUCT_MEM + newsize);
                   m = set_pool ptr2 (MEM_FREED m) m;
                   m = set_next ptr2 (it_next m ptr) m;
                   m = set_prev ptr2 ptr m;
                   m = set_next ptr ptr2 m;
                   m = (if it_next m ptr2 \<noteq> add32 (mem_size_aligned m) SIZEOF_STRUCT_MEM
                        then set_prev (it_next m ptr2) ptr2 m else m);
                   m = (if ptr2 < lfree m then m\<lparr>lfree := ptr2\<rparr> else m)
               in bind_res (plug_holes ptr2 m) (\<lambda>m. Inr (Some a, m))
             else bind_res (rt_smem_alloc newsize m s) (\<lambda>(nmem, m).
               case nmem of None \<Rightarrow> Inr (None, m)
               | Some b \<Rightarrow>
                 bind_res (rt_smem_free (Some a) (heap_copy (b - heap_ptr m) (a - heap_ptr m) (min sz newsize) m) s)
                   (\<lambda>m. Inr (Some b, m)))))))"

section \<open>Layouts\<close>

text \<open>The heap as the list of its blocks: size with the header, and whether it is used.\<close>

type_synonym layout = "(nat \<times> bool) list"

definition tot :: "layout \<Rightarrow> nat" where
  "tot l = sum_list (map fst l)"

lemma tot_simps [simp]: "tot [] = 0" "tot (b # l) = fst b + tot l" "tot (k @ l) = tot k + tot l"
  by (simp_all add: tot_def)

text \<open>The offset and size of the used blocks.\<close>

fun live :: "nat \<Rightarrow> layout \<Rightarrow> (nat \<times> nat) list" where
  "live p [] = []"
| "live p ((n, u) # l) = (if u then [(p, n)] else []) @ live (p + n) l"

lemma live_append [simp]: "live p (k @ l) = live p k @ live (p + tot k) l"
  by (induction k arbitrary: p) (auto simp: add.assoc)

lemma live_bounds: "(o', n) \<in> set (live p l) \<Longrightarrow> p \<le> o' \<and> o' + n \<le> p + tot l"
  by (induction l arbitrary: p) (fastforce split: if_splits)+

text \<open>Used blocks do not overlap.\<close>

lemma live_disjoint:
  "(a, n) \<in> set (live p l) \<Longrightarrow> (b, k) \<in> set (live p l) \<Longrightarrow> a = b \<and> n = k \<or> a + n \<le> b \<or> b + k \<le> a"
proof (induction l arbitrary: p)
  case (Cons x l)
  obtain m u where x: "x = (m, u)" by (cases x)
  show ?case
    using Cons.prems Cons.IH [of "p + m"] live_bounds [of a n "p + m" l] live_bounds [of b k "p + m" l]
    unfolding x by (auto split: if_splits)
qed simp

definition used_total :: "layout \<Rightarrow> nat" where
  "used_total l = sum_list (map snd (live 0 l))"

lemma sum_live_shift: "sum_list (map snd (live p l)) = sum_list (map snd (live q l))"
proof (induction l arbitrary: p q)
  case (Cons b l)
  obtain n u where "b = (n, u)" by (cases b)
  then show ?case using Cons.IH [of "p + n" "q + n"] by simp
qed simp

lemma used_total_simps [simp]:
  "used_total [] = 0" "used_total ((n, u) # l) = (if u then n else 0) + used_total l"
  "used_total (k @ l) = used_total k + used_total l"
  using sum_live_shift [of _ l 0] by (simp_all add: used_total_def)

lemma used_total_le: "used_total l \<le> tot l"
  by (induction l) auto

fun first_free :: "nat \<Rightarrow> layout \<Rightarrow> nat" where
  "first_free p [] = p"
| "first_free p ((n, u) # l) = (if u then first_free (p + n) l else p)"

lemma first_free_used: "\<forall>b \<in> set k. snd b \<Longrightarrow> first_free p (k @ l) = first_free (p + tot k) l"
  by (induction k arbitrary: p) (auto simp: add.assoc)

lemma first_free_stop: "\<exists>b \<in> set k. \<not> snd b \<Longrightarrow> first_free p (k @ l) = first_free p k"
proof (induction k arbitrary: p)
  case (Cons b k)
  obtain n u where b: "b = (n, u)" by (cases b)
  show ?case using Cons b by (cases u) simp_all
qed simp

lemma first_free_bounds: "p \<le> first_free p l \<and> first_free p l \<le> p + tot l"
proof (induction l arbitrary: p)
  case (Cons b l)
  obtain n u where "b = (n, u)" by (cases b)
  then show ?case using Cons.IH [of "p + n"] by simp
qed simp

definition good_sizes :: "layout \<Rightarrow> bool" where
  "good_sizes l \<longleftrightarrow> (\<forall>b \<in> set l. 12 < fst b \<and> fst b mod 4 = 0)"

definition coalesced :: "layout \<Rightarrow> bool" where
  "coalesced l \<longleftrightarrow> successively (\<lambda>a b. snd a \<or> snd b) l"

lemma good_sizes_simps [simp]:
  "good_sizes []" "good_sizes (b # l) \<longleftrightarrow> 12 < fst b \<and> fst b mod 4 = 0 \<and> good_sizes l"
  "good_sizes (k @ l) \<longleftrightarrow> good_sizes k \<and> good_sizes l"
  by (auto simp: good_sizes_def)

lemma good_pos: "good_sizes l \<Longrightarrow> \<forall>b \<in> set l. 0 < fst b"
  unfolding good_sizes_def by (meson less_trans zero_less_numeral)

lemma good_length: "good_sizes l \<Longrightarrow> 16 * length l \<le> tot l"
proof (induction l)
  case (Cons b l)
  have "12 < fst b \<and> fst b mod 4 = 0" using Cons.prems by simp
  then have "16 \<le> fst b" by presburger
  then show ?case using Cons by simp
qed simp

lemma good_tot_mod: "good_sizes l \<Longrightarrow> tot l mod 4 = 0"
  by (induction l) (auto simp: mod_add_eq [symmetric])

section \<open>Headers\<close>

definition hdr :: "(nat \<Rightarrow> u32) \<Rightarrow> u32 \<Rightarrow> nat \<Rightarrow> bool \<Rightarrow> nat \<Rightarrow> nat \<Rightarrow> bool" where
  "hdr h sf p u nx pv \<longleftrightarrow> h p = (if u then sf OR 1 else sf) \<and> h (p + 4) = word_of_nat nx \<and> h (p + 8) = word_of_nat pv"

fun rep :: "(nat \<Rightarrow> u32) \<Rightarrow> u32 \<Rightarrow> nat \<Rightarrow> nat \<Rightarrow> layout \<Rightarrow> bool" where
  "rep h sf q p [] = True"
| "rep h sf q p ((n, u) # l) = (hdr h sf p u (p + n) q \<and> rep h sf p (p + n) l)"

fun last_off :: "nat \<Rightarrow> nat \<Rightarrow> layout \<Rightarrow> nat" where
  "last_off q p [] = q"
| "last_off q p ((n, u) # l) = last_off p (p + n) l"

lemma rep_append: "rep h sf q p (k @ l) \<longleftrightarrow> rep h sf q p k \<and> rep h sf (last_off q p k) (p + tot k) l"
  by (induction k arbitrary: p q) (auto simp: add.assoc)

lemma last_off_append: "last_off q p (k @ l) = last_off (last_off q p k) (p + tot k) l"
  by (induction k arbitrary: p q) (auto simp: add.assoc)

text \<open>The headers of a segment depend on its words only.\<close>

lemma rep_frame:
  "rep h sf q p l \<Longrightarrow> good_sizes l \<Longrightarrow> (\<And>w. p \<le> w \<Longrightarrow> w < p + tot l \<Longrightarrow> h' w = h w) \<Longrightarrow> rep h' sf q p l"
proof (induction l arbitrary: p q)
  case (Cons b l)
  obtain n u where b: "b = (n, u)" by (cases b)
  have "rep h' sf p (p + n) l"
    by (rule Cons.IH) (use Cons.prems b in auto)
  moreover have "h' w = h w" if "p \<le> w" "w < p + 12" for w
    using Cons.prems(2) Cons.prems(3) [of w] that b by simp
  ultimately show ?case using Cons.prems(1) b by (simp add: hdr_def)
qed simp

text \<open>Changing the predecessor of a segment.\<close>

lemma rep_relink:
  assumes "rep h sf q p l" "good_sizes l" "l \<noteq> [] \<Longrightarrow> h' (p + 8) = word_of_nat q'"
    and "\<And>w. p \<le> w \<Longrightarrow> w < p + tot l \<Longrightarrow> w \<noteq> p + 8 \<Longrightarrow> h' w = h w"
  shows "rep h' sf q' p l"
proof (cases l)
  case (Cons b k)
  obtain n u where b: "b = (n, u)" by (cases b)
  have "rep h' sf p (p + n) k"
    by (rule rep_frame [of h]) (use assms Cons b in auto)
  moreover have "h' p = h p" "h' (p + 4) = h (p + 4)" using assms(2,4) Cons b by auto
  ultimately show ?thesis using assms(1,3) Cons b by (simp add: hdr_def)
qed simp

section \<open>The invariant\<close>

text \<open>The headers describe a layout.\<close>

definition smem_raw :: "smem \<Rightarrow> layout \<Rightarrow> bool" where
  "smem_raw m l \<longleftrightarrow> self m AND MEM_MASK = self m \<and> self m \<noteq> 0
     \<and> heap_end m = mem_size_aligned m + 12 \<and> tot l = heap_end m \<and> heap_ptr m mod 4 = 0
     \<and> heap_ptr m + heap_end m + 12 \<le> 2 ^ 32 \<and> 0 < heap_ptr m
     \<and> rep (heap m) (self m) 0 0 l \<and> good_sizes l
     \<and> heap m (heap_end m) = self m OR 1 \<and> heap m (heap_end m + 4) = word_of_nat (heap_end m)"

text \<open>No two neighbours are free, the search starts at the first free block, the statistics are
  right.\<close>

definition smem_inv :: "smem \<Rightarrow> layout \<Rightarrow> bool" where
  "smem_inv m l \<longleftrightarrow> smem_raw m l \<and> coalesced l \<and> lfree m = first_free 0 l \<and> mem_used m = used_total l"

lemma raw_upd: "smem_raw (m\<lparr>lfree := x\<rparr>) l = smem_raw m l" "smem_raw (m\<lparr>mem_used := y\<rparr>) l = smem_raw m l"
  by (simp_all add: smem_raw_def)

lemma raw_heap_upd: "smem_raw (m\<lparr>heap := h\<rparr>) l \<longleftrightarrow> self m AND MEM_MASK = self m \<and> self m \<noteq> 0
     \<and> heap_end m = mem_size_aligned m + 12 \<and> tot l = heap_end m \<and> heap_ptr m mod 4 = 0
     \<and> heap_ptr m + heap_end m + 12 \<le> 2 ^ 32 \<and> 0 < heap_ptr m \<and> rep h (self m) 0 0 l \<and> good_sizes l
     \<and> h (heap_end m) = self m OR 1 \<and> h (heap_end m + 4) = word_of_nat (heap_end m)"
  by (simp add: smem_raw_def)

lemma even_self:
  assumes "(sf::u32) AND MEM_MASK = sf"
  shows "sf AND 1 = 0" "(sf OR 1) AND NOT MEM_MASK = 1" "sf AND NOT MEM_MASK = 0" "(sf OR 1) AND MEM_MASK = sf"
proof -
  have n: "NOT MEM_MASK = (1 :: u32)" by simp
  have "sf AND 1 = (sf AND MEM_MASK) AND 1" using assms by simp
  also have "\<dots> = sf AND (MEM_MASK AND 1)" by (rule and.assoc)
  finally show a: "sf AND 1 = 0" by simp
  show "(sf OR 1) AND NOT MEM_MASK = 1" unfolding n using a by (simp add: bit.conj_disj_distrib2)
  show "sf AND NOT MEM_MASK = 0" unfolding n using a by simp
  show "(sf OR 1) AND MEM_MASK = sf" using assms by (simp add: bit.conj_disj_distrib2)
qed

text \<open>Reading a header.\<close>

lemma hdr_reads:
  assumes "hdr (heap m) (self m) p u nx pv" "self m AND MEM_MASK = self m"
  shows "MEM_ISUSED m p \<longleftrightarrow> u" "nx < 2 ^ 32 \<Longrightarrow> it_next m p = nx" "pv < 2 ^ 32 \<Longrightarrow> it_prev m p = pv"
    "MEM_POOL m p = self m"
  using assms even_self [OF assms(2)] unfolding hdr_def
  by (auto simp: MEM_ISUSED_def it_pool_def it_next_def it_prev_def MEM_POOL_def unat_of_small)

lemma rawD:
  assumes "smem_raw m l"
  shows "self m AND MEM_MASK = self m" "self m \<noteq> 0" "heap_end m = mem_size_aligned m + 12" "tot l = heap_end m"
    "heap_ptr m mod 4 = 0" "heap_ptr m + heap_end m + 12 \<le> 2 ^ 32" "rep (heap m) (self m) 0 0 l" "good_sizes l"
    "0 < heap_ptr m" "heap_end m < 2 ^ 32"
    "heap m (heap_end m) = self m OR 1" "heap m (heap_end m + 4) = word_of_nat (heap_end m)"
    "MEM_ISUSED m (heap_end m)" "it_next m (heap_end m) = heap_end m" "MEM_USED m = self m OR 1" "MEM_FREED m = self m"
    "length l \<le> mem_size_aligned m" "MEM_POOL m (heap_end m) = self m"
proof -
  note d = assms [unfolded smem_raw_def]
  show "self m AND MEM_MASK = self m" "self m \<noteq> 0" "heap_end m = mem_size_aligned m + 12" "tot l = heap_end m"
    "heap_ptr m mod 4 = 0" "heap_ptr m + heap_end m + 12 \<le> 2 ^ 32" "rep (heap m) (self m) 0 0 l" "good_sizes l"
    "0 < heap_ptr m"
    and h: "heap m (heap_end m) = self m OR 1" "heap m (heap_end m + 4) = word_of_nat (heap_end m)" using d by blast+
  show s: "heap_end m < 2 ^ 32" using d by simp
  note e = even_self [of "self m"]
  show "MEM_ISUSED m (heap_end m)" "MEM_POOL m (heap_end m) = self m"
    unfolding MEM_ISUSED_def it_pool_def MEM_POOL_def h using d e(2,4) by simp_all
  show "it_next m (heap_end m) = heap_end m" unfolding it_next_def h using s by (simp add: unat_of_small)
  show "MEM_USED m = self m OR 1" "MEM_FREED m = self m" using d by (simp_all add: MEM_USED_def MEM_FREED_def)
  have "16 * length l \<le> mem_size_aligned m + 12" using d good_length [of l] by simp
  then show "length l \<le> mem_size_aligned m" by (cases l) auto
qed

lemma invD:
  assumes "smem_inv m l"
  shows "self m AND MEM_MASK = self m" "self m \<noteq> 0" "heap_end m = mem_size_aligned m + 12" "tot l = heap_end m"
    "heap_ptr m mod 4 = 0" "heap_ptr m + heap_end m + 12 \<le> 2 ^ 32" "rep (heap m) (self m) 0 0 l" "good_sizes l"
    "coalesced l" "lfree m = first_free 0 l" "mem_used m = used_total l" "heap_end m < 2 ^ 32"
    "heap m (heap_end m) = self m OR 1" "heap m (heap_end m + 4) = word_of_nat (heap_end m)"
    "MEM_ISUSED m (heap_end m)" "it_next m (heap_end m) = heap_end m" "MEM_USED m = self m OR 1" "MEM_FREED m = self m"
    "length l \<le> mem_size_aligned m" "MEM_POOL m (heap_end m) = self m" "0 < heap_ptr m" "smem_raw m l"
  using assms rawD [of m l] unfolding smem_inv_def by blast+

section \<open>First fit\<close>

text \<open>Allocation on layouts: the first free block that is large enough, split when the rest can hold
  a header and the smallest data.\<close>

definition carve :: "nat \<Rightarrow> nat \<Rightarrow> layout" where
  "carve sz n = (if sz + 36 \<le> n then [(sz + 12, True), (n - sz - 12, False)] else [(n, True)])"

fun first_fit :: "nat \<Rightarrow> nat \<Rightarrow> layout \<Rightarrow> (nat \<times> layout) option" where
  "first_fit sz p [] = None"
| "first_fit sz p ((n, u) # l) =
     (if \<not> u \<and> sz + 12 \<le> n then Some (p, carve sz n @ l)
      else map_option (\<lambda>(q, k). (q, (n, u) # k)) (first_fit sz (p + n) l))"

lemma first_fit_Some:
  "first_fit sz p l = Some (q, k) \<Longrightarrow>
     \<exists>xs n ys. l = xs @ (n, False) # ys \<and> q = p + tot xs \<and> sz + 12 \<le> n \<and> k = xs @ carve sz n @ ys"
proof (induction l arbitrary: p k)
  case (Cons b l)
  obtain n u where b: "b = (n, u)" by (cases b)
  show ?case
  proof (cases "\<not> u \<and> sz + 12 \<le> n")
    case True
    then show ?thesis using Cons.prems b by (intro exI [of _ "[]"] exI [of _ n] exI [of _ l]) simp
  next
    case False
    then obtain k' where k: "first_fit sz (p + n) l = Some (q, k')" "k = (n, u) # k'" using Cons.prems b by auto
    then obtain xs m ys where "l = xs @ (m, False) # ys" "q = p + n + tot xs" "sz + 12 \<le> m" "k' = xs @ carve sz m @ ys"
      using Cons.IH by blast
    then show ?thesis using b k by (intro exI [of _ "(n, u) # xs"] exI [of _ m] exI [of _ ys]) simp
  qed
qed simp

lemma first_fit_None: "first_fit sz p l = None \<longleftrightarrow> (\<forall>n. (n, False) \<in> set l \<longrightarrow> n < sz + 12)"
proof (induction l arbitrary: p)
  case (Cons b l)
  obtain n u where b: "b = (n, u)" by (cases b)
  show ?case
  proof (cases "\<not> u \<and> sz + 12 \<le> n")
    case False
    then have "first_fit sz p (b # l) = None \<longleftrightarrow> first_fit sz (p + n) l = None" using b by auto
    then show ?thesis unfolding Cons.IH using False b by auto
  qed (use b in force)
qed simp

lemma first_fit_used:
  "\<forall>b \<in> set k. snd b \<Longrightarrow> first_fit sz p (k @ l) = map_option (\<lambda>(q, j). (q, k @ j)) (first_fit sz (p + tot k) l)"
proof (induction k arbitrary: p)
  case Nil
  then show ?case by (cases "first_fit sz p l") auto
next
  case (Cons b k)
  then show ?case by (cases b; cases "first_fit sz (p + tot (b # k)) l") (auto simp: add.assoc)
qed

text \<open>The search finds it.\<close>

lemma smem_find_ok:
  assumes s: "self m AND MEM_MASK = self m" and e: "heap_end m = mem_size_aligned m + 12" "heap_end m < 2 ^ 32"
  shows "rep (heap m) (self m) q p l \<Longrightarrow> good_sizes l \<Longrightarrow> p + tot l = heap_end m \<Longrightarrow> length l < fuel \<Longrightarrow>
    sz \<le> mem_size_aligned m \<Longrightarrow> smem_find fuel sz p m = Inr (map_option fst (first_fit sz p l))"
proof (induction l arbitrary: fuel q p)
  case Nil
  then have "\<not> p \<le> mem_size_aligned m - sz" using e(1) by simp
  then show ?case using Nil.prems(4) by (cases fuel) simp_all
next
  case (Cons b l)
  obtain n u where b: "b = (n, u)" by (cases b)
  obtain f where f: "fuel = Suc f" "length l < f" using Cons.prems(4) by (cases fuel) auto
  have h: "hdr (heap m) (self m) p u (p + n) q" "rep (heap m) (self m) p (p + n) l" using Cons.prems(1) b by simp_all
  have n: "12 < n" "p + n + tot l = heap_end m" "p + n < 2 ^ 32" using Cons.prems(2,3) b e by simp_all
  have r: "MEM_ISUSED m p \<longleftrightarrow> u" "it_next m p = p + n" using hdr_reads [OF h(1) s] n by simp_all
  have sub: "sub32 (p + n) (add32 p 12) = n - 12" using n by simp
  show ?case
  proof (cases "p \<le> mem_size_aligned m - sz")
    case True
    have ih: "smem_find f sz (p + n) m = Inr (map_option fst (first_fit sz (p + n) l))"
      by (rule Cons.IH [OF h(2) _ n(2) f(2) Cons.prems(5)]) (use Cons.prems(2) in simp)
    have c: "n - 12 \<ge> sz \<longleftrightarrow> sz + 12 \<le> n" using n(1) by arith
    show ?thesis
      using True r sub ih c by (simp add: f(1) b option.map_comp comp_def case_prod_beta)
  next
    case False
    have "k < sz + 12" if "(k, v) \<in> set ((n, u) # l)" for k v
    proof -
      have "k \<le> tot ((n, u) # l)" using that by (induction l) (auto split: if_splits)
      then show ?thesis using False n(2) e(1) by simp
    qed
    then have "first_fit sz p ((n, u) # l) = None" unfolding first_fit_None by blast
    then show ?thesis using False f(1) b by simp
  qed
qed

lemma smem_next_free_ok:
  assumes s: "self m AND MEM_MASK = self m" and e: "heap_end m < 2 ^ 32"
  shows "rep (heap m) (self m) q p l \<Longrightarrow> good_sizes l \<Longrightarrow> p + tot l = heap_end m \<Longrightarrow> length l < fuel \<Longrightarrow>
    smem_next_free fuel (m\<lparr>lfree := p\<rparr>) = Inr (m\<lparr>lfree := first_free p l\<rparr>)"
proof (induction l arbitrary: fuel q p)
  case Nil
  then show ?case by (cases fuel) simp_all
next
  case (Cons b l)
  obtain n u where b: "b = (n, u)" by (cases b)
  obtain f where f: "fuel = Suc f" "length l < f" using Cons.prems(4) by (cases fuel) auto
  have h: "hdr (heap m) (self m) p u (p + n) q" "rep (heap m) (self m) p (p + n) l" using Cons.prems(1) b by simp_all
  have n: "12 < n" "p + n + tot l = heap_end m" "p + n < 2 ^ 32" "p < heap_end m" using Cons.prems(2,3) b e by simp_all
  have r: "MEM_ISUSED (m\<lparr>lfree := p\<rparr>) p \<longleftrightarrow> u" "it_next (m\<lparr>lfree := p\<rparr>) p = p + n"
    using hdr_reads [of "m\<lparr>lfree := p\<rparr>" p u "p + n" q] h(1) s n by simp_all
  have ih: "smem_next_free f (m\<lparr>lfree := p + n\<rparr>) = Inr (m\<lparr>lfree := first_free (p + n) l\<rparr>)"
    by (rule Cons.IH [OF h(2) _ n(2) f(2)]) (use Cons.prems(2) in simp)
  show ?case using r n(4) ih by (simp add: f(1) b)
qed

section \<open>Allocation\<close>

lemma account_fields [simp]:
  "heap (account n m) = heap m" "self (account n m) = self m" "heap_end (account n m) = heap_end m"
  "lfree (account n m) = lfree m" "mem_size_aligned (account n m) = mem_size_aligned m"
  "heap_ptr (account n m) = heap_ptr m" "smem_id (account n m) = smem_id m"
  "mem_used (account n m) = add32 (mem_used m) n"
  by (simp_all add: account_def Let_def)

lemma set_fields [simp]:
  "self (set_pool p v m) = self m" "self (set_next p k m) = self m" "self (set_prev p k m) = self m"
  "heap_end (set_pool p v m) = heap_end m" "heap_end (set_next p k m) = heap_end m" "heap_end (set_prev p k m) = heap_end m"
  "lfree (set_pool p v m) = lfree m" "lfree (set_next p k m) = lfree m" "lfree (set_prev p k m) = lfree m"
  "mem_size_aligned (set_pool p v m) = mem_size_aligned m" "mem_size_aligned (set_next p k m) = mem_size_aligned m"
  "mem_size_aligned (set_prev p k m) = mem_size_aligned m"
  "mem_used (set_pool p v m) = mem_used m" "mem_used (set_next p k m) = mem_used m" "mem_used (set_prev p k m) = mem_used m"
  "heap_ptr (set_pool p v m) = heap_ptr m" "heap_ptr (set_next p k m) = heap_ptr m" "heap_ptr (set_prev p k m) = heap_ptr m"
  "smem_id (set_pool p v m) = smem_id m" "smem_id (set_next p k m) = smem_id m" "smem_id (set_prev p k m) = smem_id m"
  "heap (set_pool p v m) = (heap m)(p := v)" "heap (set_next p k m) = (heap m)(p + 4 := word_of_nat k)"
  "heap (set_prev p k m) = (heap m)(p + 8 := word_of_nat k)"
  by (simp_all add: set_pool_def set_next_def set_prev_def)

text \<open>One block of the heap, with what surrounds it.\<close>

lemma raw_block:
  assumes "smem_raw m (xs @ (n, u) # ys)" and p: "p = tot xs"
  shows "it_next m p = p + n" "MEM_ISUSED m p \<longleftrightarrow> u" "it_prev m p = last_off 0 0 xs" "MEM_POOL m p = self m"
    "12 < n" "n mod 4 = 0" "p mod 4 = 0" "p + n + tot ys = heap_end m" "p + n < 2 ^ 32"
    "ys \<noteq> [] \<longleftrightarrow> p + n \<noteq> heap_end m" "hdr (heap m) (self m) p u (p + n) (last_off 0 0 xs)"
    "rep (heap m) (self m) p (p + n) ys" "rep (heap m) (self m) 0 0 xs" "last_off 0 0 xs \<le> p"
    "ys \<noteq> [] \<Longrightarrow> p + n + 16 \<le> heap_end m"
proof -
  note d = rawD [OF assms(1)]
  have r: "rep (heap m) (self m) (last_off 0 0 xs) p ((n, u) # ys)" "rep (heap m) (self m) 0 0 xs"
    using d(7) p by (simp_all add: rep_append)
  then show h: "hdr (heap m) (self m) p u (p + n) (last_off 0 0 xs)" "rep (heap m) (self m) p (p + n) ys"
    "rep (heap m) (self m) 0 0 xs" by simp_all
  show t: "p + n + tot ys = heap_end m" using d(4) p by simp
  show lt: "p + n < 2 ^ 32" using t d(10) by simp
  have lo: "last_off q k zs \<le> k + tot zs" if "q \<le> k" for q k zs
    using that
  proof (induction zs arbitrary: q k)
    case (Cons b zs)
    obtain j v where "b = (j, v)" by (cases b)
    then show ?case using Cons.IH [of k "k + j"] by simp
  qed simp
  show l: "last_off 0 0 xs \<le> p" using lo [of 0 0 xs] p by simp
  show "it_next m p = p + n" "MEM_ISUSED m p \<longleftrightarrow> u" "it_prev m p = last_off 0 0 xs" "MEM_POOL m p = self m"
    using hdr_reads [OF h(1) d(1)] lt l by simp_all
  show "12 < n" "n mod 4 = 0" "p mod 4 = 0" using d(8) good_tot_mod p by simp_all
  show ys: "p + n + 16 \<le> heap_end m" if "ys \<noteq> []"
    using good_length [of ys] d(8) that t by (cases ys) simp_all
  show "ys \<noteq> [] \<longleftrightarrow> p + n \<noteq> heap_end m" using t ys by (cases "ys = []") force+
qed

lemma carve_heap:
  assumes i: "smem_inv m (xs @ (n, u) # ys)" and p: "p = tot xs" and sz: "sz + 12 \<le> n"
  shows "heap (smem_carve sz p m) = (if sz + 36 \<le> n then
      (let h = (heap m)(p + 12 + sz := self m, p + 12 + sz + 4 := word_of_nat (p + n), p + 12 + sz + 8 := word_of_nat p,
                  p + 4 := word_of_nat (p + 12 + sz));
           h = (if ys \<noteq> [] then h(p + n + 8 := word_of_nat (p + 12 + sz)) else h)
       in h(p := self m OR 1))
     else (heap m)(p := self m OR 1))"
    "mem_used (smem_carve sz p m) = add32 (mem_used m) (if sz + 36 \<le> n then sz + 12 else n)"
    "self (smem_carve sz p m) = self m" "heap_end (smem_carve sz p m) = heap_end m"
    "lfree (smem_carve sz p m) = lfree m" "mem_size_aligned (smem_carve sz p m) = mem_size_aligned m"
    "heap_ptr (smem_carve sz p m) = heap_ptr m" "smem_id (smem_carve sz p m) = smem_id m"
proof -
  note d = invD [OF i] and b = raw_block [OF d(22) p]
  have n: "sub32 (it_next m p) (add32 p 12) = n - 12" "sub32 (it_next m p) p = n"
    "add32 sz 12 = sz + 12" "add32 p (12 + sz) = p + 12 + sz"
    "add32 (mem_size_aligned m) 12 = heap_end m" using b(1,5,9) sz d(3,12) by simp_all
  have c: "n - 12 \<ge> add32 sz (12 + 12) \<longleftrightarrow> sz + 36 \<le> n"
  proof -
    have "sz + 24 < 2 ^ 32" using sz b(8) d(6,5,21) by simp
    then show ?thesis using sz by simp arith
  qed
  have e: "ys \<noteq> [] \<longleftrightarrow> p + n \<noteq> heap_end m" by (rule b(10))
  note u = MEM_USED_def MEM_FREED_def
  have nx: "unat (heap m (p + 4)) = p + n" using b(1) by (simp add: it_next_def)
  have wn: "unat (word_of_nat (p + n) :: u32) = p + n" by (rule unat_of_small [OF b(9)])
  show "heap (smem_carve sz p m) = (if sz + 36 \<le> n then
      (let h = (heap m)(p + 12 + sz := self m, p + 12 + sz + 4 := word_of_nat (p + n), p + 12 + sz + 8 := word_of_nat p,
                  p + 4 := word_of_nat (p + 12 + sz));
           h = (if ys \<noteq> [] then h(p + n + 8 := word_of_nat (p + 12 + sz)) else h)
       in h(p := self m OR 1))
     else (heap m)(p := self m OR 1))"
    unfolding smem_carve_def Let_def n c e
    using d(1) nx wn by (simp add: u it_next_def n(5))
  show "mem_used (smem_carve sz p m) = add32 (mem_used m) (if sz + 36 \<le> n then sz + 12 else n)"
    "self (smem_carve sz p m) = self m" "heap_end (smem_carve sz p m) = heap_end m"
    "lfree (smem_carve sz p m) = lfree m" "mem_size_aligned (smem_carve sz p m) = mem_size_aligned m"
    "heap_ptr (smem_carve sz p m) = heap_ptr m" "smem_id (smem_carve sz p m) = smem_id m"
    unfolding smem_carve_def Let_def n c by simp_all
qed

lemma carve_sizes:
  assumes "sz + 12 \<le> n" "0 < sz" "sz mod 4 = 0" "n mod 4 = 0" "12 < n"
  shows "tot (carve sz n) = n" "good_sizes (carve sz n)"
    "used_total (carve sz n) = (if sz + 36 \<le> n then sz + 12 else n)"
    "live p (carve sz n) = [(p, if sz + 36 \<le> n then sz + 12 else n)]"
proof -
  have "(n - sz - 12) mod 4 = 0" if "sz + 36 \<le> n"
  proof -
    obtain a where "n = 4 * a" using assms(4) by auto
    moreover obtain b where "sz = 4 * b" using assms(3) by auto
    ultimately have "n - sz - 12 = 4 * (a - b - 3)" using that by simp
    then show ?thesis by simp
  qed
  then show "good_sizes (carve sz n)" using assms by (auto simp: carve_def mod_add_eq [symmetric])
  show "tot (carve sz n) = n" "used_total (carve sz n) = (if sz + 36 \<le> n then sz + 12 else n)"
    "live p (carve sz n) = [(p, if sz + 36 \<le> n then sz + 12 else n)]"
    using assms by (auto simp: carve_def)
qed

lemma coalesced_carve:
  assumes "coalesced (xs @ (n, False) # ys)"
  shows "coalesced (xs @ carve sz n @ ys)"
  using assms by (auto simp: coalesced_def carve_def successively_append_iff successively_Cons)

text \<open>The words of a heap outside a block and of the header behind it.\<close>

definition same_outside :: "(nat \<Rightarrow> u32) \<Rightarrow> (nat \<Rightarrow> u32) \<Rightarrow> nat \<Rightarrow> nat \<Rightarrow> bool \<Rightarrow> bool" where
  "same_outside h' h p q behind \<longleftrightarrow> p \<le> q \<and> (\<forall>w. w < p \<or> q \<le> w \<longrightarrow> \<not> (behind \<and> w = q + 8) \<longrightarrow> h' w = h w)"

lemma same_outsideD:
  assumes "same_outside h' h p q behind"
  shows "w < p \<Longrightarrow> h' w = h w" "q \<le> w \<Longrightarrow> \<not> (behind \<and> w = q + 8) \<Longrightarrow> h' w = h w"
  using assms by (auto simp: same_outside_def)

text \<open>The data of the used blocks.\<close>

definition data_same :: "(nat \<Rightarrow> u32) \<Rightarrow> (nat \<Rightarrow> u32) \<Rightarrow> (nat \<times> nat) list \<Rightarrow> bool" where
  "data_same h' h bs \<longleftrightarrow> (\<forall>(o', n) \<in> set bs. \<forall>w. o' + 12 \<le> w \<and> w < o' + n \<longrightarrow> h' w = h w)"

lemma same_outside_data:
  assumes so: "same_outside h' h p q behind" and "tot xs \<le> p"
  shows "data_same h' h (live 0 xs @ live q ys)"
  unfolding data_same_def
proof (clarify)
  fix a n w assume a: "(a, n) \<in> set (live 0 xs @ live q ys)" and w: "a + 12 \<le> w" "w < a + n"
  show "h' w = h w"
  proof (cases "(a, n) \<in> set (live 0 xs)")
    case True
    then have "w < p" using live_bounds [of a n 0 xs] assms(2) w by simp
    then show ?thesis by (rule same_outsideD(1) [OF so])
  next
    case False
    then have "q \<le> a" using live_bounds [of a n q ys] a by simp
    then show ?thesis using same_outsideD(2) [OF so, of w] w by simp
  qed
qed

text \<open>What is around a changed block stays represented.\<close>

lemma rep_around:
  assumes "same_outside h' h p q (ys \<noteq> [])" "good_sizes xs" "good_sizes ys" "tot xs \<le> p"
  shows "rep h sf 0 0 xs \<Longrightarrow> rep h' sf 0 0 xs"
    "rep h sf v q ys \<Longrightarrow> (ys \<noteq> [] \<Longrightarrow> h' (q + 8) = word_of_nat v') \<Longrightarrow> rep h' sf v' q ys"
proof -
  show "rep h' sf 0 0 xs" if "rep h sf 0 0 xs"
    by (rule rep_frame [OF that assms(2)]) (use assms(4) in \<open>auto intro!: same_outsideD(1) [OF assms(1)]\<close>)
  show "rep h' sf v' q ys" if "rep h sf v q ys" "ys \<noteq> [] \<Longrightarrow> h' (q + 8) = word_of_nat v'"
    by (rule rep_relink [where h' = h' and q' = v', OF that(1) assms(3)])
      (use that(2) in \<open>auto intro!: same_outsideD(2) [OF assms(1)]\<close>)
qed

lemma carve_ok:
  assumes i: "smem_inv m (xs @ (n, u) # ys)" and p: "p = tot xs"
    and sz: "sz + 12 \<le> n" "0 < sz" "sz mod 4 = 0"
  shows "rep (heap (smem_carve sz p m)) (self m) 0 0 (xs @ carve sz n @ ys)"
    "same_outside (heap (smem_carve sz p m)) (heap m) p (p + n) (ys \<noteq> [])"
    "\<not> u \<Longrightarrow> mem_used (smem_carve sz p m) = used_total (xs @ carve sz n @ ys)"
    "smem_raw (smem_carve sz p m) (xs @ carve sz n @ ys)"
proof -
  note d = invD [OF i] and b = raw_block [OF d(22) p] and h = carve_heap [OF i p sz(1)]
  note cs = carve_sizes [OF sz b(6,5)]
  let ?h = "heap (smem_carve sz p m)"
  show so: "same_outside ?h (heap m) p (p + n) (ys \<noteq> [])"
    unfolding h(1) same_outside_def Let_def using sz(1) by auto
  have gs: "good_sizes xs" "good_sizes ys" and tx: "tot xs \<le> p" using d(8) p by simp_all
  note around = rep_around [OF so gs tx]
  have rx: "rep ?h (self m) 0 0 xs" by (rule around(1) [OF b(13)])
  show "mem_used (smem_carve sz p m) = used_total (xs @ carve sz n @ ys)" if "\<not> u"
  proof -
    have "used_total (xs @ (n, True) # ys) \<le> tot (xs @ (n, True) # ys)" by (rule used_total_le)
    then have "used_total xs + n + used_total ys < 2 ^ 32" using d(4,12) by simp
    then show ?thesis using h(2) d(11) cs(3) sz(1) that by simp
  qed
  have hp: "heap m (p + 8) = word_of_nat (last_off 0 0 xs)" "heap m (p + 4) = word_of_nat (p + n)"
    using b(11) by (simp_all add: hdr_def)
  show rl: "rep ?h (self m) 0 0 (xs @ carve sz n @ ys)"
  proof (cases "sz + 36 \<le> n")
    case True
    have "rep ?h (self m) (p + (sz + 12)) (p + n) ys"
      by (rule around(2) [OF b(12)]) (use True in \<open>simp add: h(1) Let_def add.commute add.left_commute\<close>)
    moreover have "hdr ?h (self m) p True (p + (sz + 12)) (last_off 0 0 xs)"
      using True hp by (simp add: hdr_def h(1) Let_def algebra_simps)
    moreover have "hdr ?h (self m) (p + (sz + 12)) False (p + n) p"
      using True by (simp add: hdr_def h(1) Let_def algebra_simps)
    ultimately show ?thesis using True rx p by (simp add: rep_append carve_def algebra_simps)
  next
    case False
    have q8: "heap m (p + n + 8) = word_of_nat p" if "ys \<noteq> []"
      using b(12) that by (cases ys) (auto simp: hdr_def)
    have "rep ?h (self m) p (p + n) ys"
      by (rule around(2) [OF b(12)]) (use False q8 in \<open>simp add: h(1)\<close>)
    moreover have "hdr ?h (self m) p True (p + n) (last_off 0 0 xs)"
      using False hp by (simp add: hdr_def h(1))
    ultimately show ?thesis using False rx p by (simp add: rep_append carve_def)
  qed
  have "?h w = heap m w" if "heap_end m \<le> w" for w
    by (rule same_outsideD(2) [OF so]) (use b(8,15) that in auto)
  then have "?h (heap_end m) = self m OR 1" "?h (heap_end m + 4) = word_of_nat (heap_end m)"
    using d(13,14) by simp_all
  then show "smem_raw (smem_carve sz p m) (xs @ carve sz n @ ys)"
    unfolding smem_raw_def using d(1,2,3,4,5,6,8,21) rl h(3-8) cs(1,2) by simp
qed

definition smem_valid :: "smem \<Rightarrow> kernel \<Rightarrow> bool" where
  "smem_valid m s \<longleftrightarrow> rt_object_get_type (OMemory (smem_id m)) s = RT_Object_Class_Memory
     \<and> rt_object_is_systemobject (OMemory (smem_id m)) s"

lemma smem_checked_valid [simp]: "smem_valid m s \<Longrightarrow> smem_checked m s r = r"
  by (simp add: smem_valid_def smem_checked_def)

text \<open>The size of the block a request gets at least.\<close>

definition request :: "nat \<Rightarrow> nat" where
  "request sz = max 12 (align4 sz)"

lemma first_free_skip:
  assumes "lf = first_free 0 l"
  obtains xs ys where "l = xs @ ys" "\<forall>b \<in> set xs. snd b" "lf = tot xs" "first_free (tot xs) ys = tot xs"
proof -
  define xs ys where "xs = takeWhile snd l" and "ys = dropWhile snd l"
  have l: "l = xs @ ys" by (simp add: xs_def ys_def)
  have u: "\<forall>b \<in> set xs. snd b" by (auto simp: xs_def dest: set_takeWhileD)
  have f: "first_free p ys = p" for p
  proof (cases ys)
    case (Cons c cs)
    then have "\<not> snd c" using hd_dropWhile [of snd l] by (simp add: ys_def)
    then show ?thesis using Cons by (cases c) simp
  qed simp
  have "lf = tot xs" using assms first_free_used [OF u, of 0 ys] f l by simp
  then show thesis using that l u f by blast
qed

lemma first_free_carved:
  assumes i: "p = first_free 0 (xs @ (n, False) # ys)" and p: "p = tot xs" and n: "\<forall>b \<in> set (xs @ (n, False) # ys). 0 < fst b"
  shows "\<forall>b \<in> set xs. snd b"
proof (rule ccontr)
  assume "\<not> (\<forall>b \<in> set xs. snd b)"
  then obtain us b vs where x: "xs = us @ b # vs" "\<not> snd b" "\<forall>c \<in> set us. snd c"
    using split_list_first_prop [of xs "\<lambda>b. \<not> snd b"] by auto
  have "first_free 0 (xs @ (n, False) # ys) = tot us"
    using x by (cases b) (simp add: first_free_used)
  moreover have "tot us < tot xs" using x n by simp
  ultimately show False using i p by simp
qed

lemma rt_smem_alloc_step:
  assumes i: "smem_inv m l" and v: "smem_valid m s" and sz: "0 < sz"
  shows "case first_fit (request sz) 0 l of
      None \<Rightarrow> rt_smem_alloc sz m s = Inr (None, m)
    | Some (p, l') \<Rightarrow> \<exists>m'. rt_smem_alloc sz m s = Inr (Some (heap_ptr m + p + 12), m') \<and> smem_inv m' l'
        \<and> heap m' = heap (smem_carve (request sz) p m) \<and> smem_id m' = smem_id m \<and> heap_ptr m' = heap_ptr m
        \<and> self m' = self m \<and> mem_size_aligned m' = mem_size_aligned m"
proof -
  let ?k = "request sz" let ?fuel = "Suc (mem_size_aligned m)"
  note d = invD [OF i]
  have k: "?k = (if align4 sz < 12 then 12 else align4 sz)" by (simp add: request_def)
  have k4: "?k mod 4 = 0" "12 \<le> ?k" and k0: "0 < ?k" using align4_mod [of sz] by (auto simp: request_def max_def)
  obtain xs ys where fs: "l = xs @ ys" "\<forall>b \<in> set xs. snd b" "lfree m = tot xs" "first_free (tot xs) ys = tot xs"
    by (rule first_free_skip [OF d(10)])
  have ry: "rep (heap m) (self m) (last_off 0 0 xs) (tot xs) ys" using d(7) fs(1) by (simp add: rep_append)
  have find: "smem_find ?fuel ?k (lfree m) m = Inr (map_option fst (first_fit ?k 0 l))" if "?k \<le> mem_size_aligned m"
  proof -
    have "smem_find ?fuel ?k (tot xs) m = Inr (map_option fst (first_fit ?k (tot xs) ys))"
      by (rule smem_find_ok [OF d(1,3,12) ry]) (use d(4,8,19) fs(1) that in simp_all)
    then show ?thesis using fs(3) first_fit_used [OF fs(2), of ?k 0 ys] fs(1)
      by (simp add: option.map_comp comp_def case_prod_beta)
  qed
  show ?thesis
  proof (cases "first_fit ?k 0 l")
    case None
    then show ?thesis using find v sz k by (simp add: rt_smem_alloc_def Let_def)
  next
    case (Some r)
    obtain p l' where r: "r = (p, l')" by (cases r)
    obtain us n vs where b: "l = us @ (n, False) # vs" "p = tot us" "?k + 12 \<le> n" "l' = us @ carve ?k n @ vs"
      using first_fit_Some [of ?k 0 l p l'] Some r by auto
    have iu: "smem_inv m (us @ (n, False) # vs)" using i b(1) by simp
    note bl = raw_block [OF invD(22) [OF iu] b(2)] and ch = carve_heap [OF iu b(2,3)] and ck = carve_ok [OF iu b(2,3) k0 k4(1)]
    let ?m = "smem_carve ?k p m"
    have le: "?k \<le> mem_size_aligned m" using bl(8) b(3) d(3) by simp
    have sizes: "tot l' = heap_end m" "good_sizes l'" "coalesced l'"
      using carve_sizes [OF b(3) k0 k4(1) bl(6,5)] d(4,8,9) b(1,4) coalesced_carve [of us n vs ?k] by simp_all
    have inv: "smem_inv (?m\<lparr>lfree := first_free 0 l'\<rparr>) l'"
      unfolding smem_inv_def raw_upd using ck(3,4) sizes b(4) by simp
    have pos: "\<forall>b \<in> set (us @ (n, False) # vs). 0 < fst b" using good_pos [OF d(8)] b(1) by simp
    have next_free: "(if p = lfree ?m then
          bind_res (smem_next_free ?fuel ?m) (\<lambda>m. assert_then (lfree m = heap_end m \<or> \<not> MEM_ISUSED m (lfree m)) (Inr m))
        else Inr ?m) = Inr (?m\<lparr>lfree := first_free 0 l'\<rparr>)"
    proof (cases "p = lfree m")
      case True
      have u: "\<forall>b \<in> set us. snd b" by (rule first_free_carved [OF _ b(2) pos]) (use True d(10) b(1) in simp)
      have "rep (heap ?m) (self ?m) (last_off 0 0 us) p (carve ?k n @ vs)"
        using ck(1) ch(3) b(2) by (simp add: rep_append)
      moreover have "length l' \<le> mem_size_aligned m"
        using invD(19) [OF inv] ch(6) by simp
      ultimately have n1: "smem_next_free ?fuel (?m\<lparr>lfree := p\<rparr>) = Inr (?m\<lparr>lfree := first_free p (carve ?k n @ vs)\<rparr>)"
        using d(1,12) ch(3,4) sizes b(2,4) by (intro smem_next_free_ok) simp_all
      have n2: "first_free 0 l' = first_free p (carve ?k n @ vs)"
        using first_free_used [OF u, of 0 "carve ?k n @ vs"] b(2,4) by simp
      have n3: "?m\<lparr>lfree := p\<rparr> = ?m" using True ch(5) by simp
      have n4: "first_free 0 l' = heap_end m \<or> \<not> MEM_ISUSED (?m\<lparr>lfree := first_free 0 l'\<rparr>) (first_free 0 l')"
      proof -
        obtain as bs where ab: "l' = as @ bs" "first_free 0 l' = tot as" "first_free (tot as) bs = tot as" "\<forall>b \<in> set as. snd b"
          by (rule first_free_skip [OF refl, of l']) blast
        show ?thesis
        proof (cases bs)
          case Nil
          then show ?thesis using ab sizes(1) by simp
        next
          case (Cons c cs)
          obtain j w where c: "c = (j, w)" by (cases c)
          have "0 < j" using sizes(2) ab(1) Cons c by simp
          then have "\<not> w" using ab(3) Cons c first_free_bounds [of "tot as + j" cs] by (auto split: if_splits)
          then show ?thesis using raw_block(2) [of "?m\<lparr>lfree := first_free 0 l'\<rparr>" as j w cs "tot as"] invD(22) [OF inv] ab Cons c by simp
        qed
      qed
      have "smem_next_free ?fuel ?m = Inr (?m\<lparr>lfree := first_free 0 l'\<rparr>)" using n1 unfolding n3 n2 .
      then show ?thesis using True ch(4,5) n4 by (simp del: smem_next_free.simps)
    next
      case False
      have "\<exists>b \<in> set us. \<not> snd b"
      proof (rule ccontr)
        assume "\<not> (\<exists>b \<in> set us. \<not> snd b)"
        then have "first_free 0 l = p" using b(1,2) by (simp add: first_free_used)
        then show False using False d(10) by simp
      qed
      then have "first_free 0 l' = lfree ?m"
        using d(10) ch(5) b(1,4) by (simp add: first_free_stop)
      then show ?thesis using False ch(5) by simp
    qed
    have addr: "add32 (heap_ptr m + p) (12 + ?k) = heap_ptr m + p + 12 + ?k" "add32 (heap_ptr m) (heap_end m) = heap_ptr m + heap_end m"
      "add32 (heap_ptr m + p) 12 = heap_ptr m + p + 12"
      using d(6,21) bl(8) b(3) by simp_all
    have al: "heap_ptr m + p + 12 + ?k \<le> heap_ptr m + heap_end m" "(heap_ptr m + p + 12) mod 4 = 0" "(heap_ptr m + p) mod 4 = 0"
      using bl(7,8) b(3) d(5) by (simp, presburger, presburger)
    have "rt_smem_alloc sz m s = Inr (Some (heap_ptr m + p + 12), ?m\<lparr>lfree := first_free 0 l'\<rparr>)"
      using sz v le find [OF le] Some r next_free addr al ch(4,7)
      by (simp add: rt_smem_alloc_def Let_def k [symmetric] del: smem_next_free.simps smem_find.simps)
    then show ?thesis using Some r inv ch(3,6,7,8) by auto
  qed
qed

section \<open>Freeing\<close>

text \<open>Two neighbours become one block.\<close>

definition merge_at :: "nat \<Rightarrow> nat \<Rightarrow> nat \<Rightarrow> smem \<Rightarrow> smem" where
  "merge_at p n k m = set_prev (p + n + k) p (set_next p (p + n + k) (set_pool (p + n) 0 m))"

lemma merge_fields [simp]:
  "self (merge_at p n k m) = self m" "heap_end (merge_at p n k m) = heap_end m" "lfree (merge_at p n k m) = lfree m"
  "mem_size_aligned (merge_at p n k m) = mem_size_aligned m" "heap_ptr (merge_at p n k m) = heap_ptr m"
  "smem_id (merge_at p n k m) = smem_id m" "mem_used (merge_at p n k m) = mem_used m"
  by (simp_all add: merge_at_def)

lemma merge_raw:
  assumes r: "smem_raw m (xs @ (n, u) # (k, v) # zs)" and p: "p = tot xs"
  shows "smem_raw (merge_at p n k m) (xs @ (n + k, u) # zs)"
    "same_outside (heap (merge_at p n k m)) (heap m) p (p + n + k) True"
proof -
  note d = rawD [OF r] and b = raw_block [OF r p]
  have r2: "smem_raw m ((xs @ [(n, u)]) @ (k, v) # zs)" using r by simp
  note c = raw_block [OF r2, of "p + n"]
  let ?h = "heap (merge_at p n k m)"
  have h: "?h = (heap m)(p + n := 0, p + 4 := word_of_nat (p + n + k), p + n + k + 8 := word_of_nat p)"
    by (simp add: merge_at_def)
  have kn: "12 < k" "12 < n" "k mod 4 = 0" "n mod 4 = 0" using c(5,6) b(5,6) p by simp_all
  show so: "same_outside ?h (heap m) p (p + n + k) True"
    unfolding same_outside_def h using kn by auto
  then have so': "same_outside ?h (heap m) p (p + n + k) (zs \<noteq> [])" if "zs \<noteq> []"
    using that by simp
  have gs: "good_sizes xs" "good_sizes zs" and tx: "tot xs \<le> p" using d(8) p by simp_all
  have rx: "rep ?h (self m) 0 0 xs"
    by (rule rep_frame [OF b(13) gs(1)]) (use p same_outsideD(1) [OF so] in simp)
  have rz: "rep ?h (self m) p (p + n + k) zs"
  proof (cases "zs = []")
    case False
    show ?thesis
      by (rule rep_around(2) [OF so' [OF False] gs tx, of _ "p + n"]) (use c(12) p in simp, simp add: h)
  qed simp
  have hd: "hdr ?h (self m) p u (p + n + k) (last_off 0 0 xs)"
    using b(11) kn unfolding hdr_def by (simp add: h)
  have e: "p + n + k + tot zs = heap_end m" using c(8) p by simp
  have en: "?h w = heap m w" if "heap_end m \<le> w" "w \<noteq> heap_end m + 8" for w
  proof (rule same_outsideD(2) [OF so])
    show "p + n + k \<le> w" using e that by simp
    show "\<not> (True \<and> w = p + n + k + 8)" using c(15) p that e good_length [OF gs(2)] by (cases zs) auto
  qed
  show "smem_raw (merge_at p n k m) (xs @ (n + k, u) # zs)"
    unfolding smem_raw_def
    using d(1,2,3,4,5,6,8,9) rx rz hd p en [of "heap_end m"] en [of "heap_end m + 4"] d(11,12) kn
      mod_add_eq [of n 4 k]
    by (simp add: rep_append algebra_simps)
qed

lemma free_raw:
  assumes r: "smem_raw m (xs @ (n, True) # ys)" and p: "p = tot xs"
  shows "smem_raw (set_pool p (self m) m) (xs @ (n, False) # ys)"
    "same_outside (heap (set_pool p (self m) m)) (heap m) p (p + n) False"
proof -
  note d = rawD [OF r] and b = raw_block [OF r p]
  let ?h = "(heap m)(p := self m)"
  show so: "same_outside (heap (set_pool p (self m) m)) (heap m) p (p + n) False"
    using b(5) by (auto simp: same_outside_def)
  have gs: "good_sizes xs" "good_sizes ys" using d(8) by simp_all
  have rx: "rep ?h (self m) 0 0 xs" by (rule rep_frame [OF b(13) gs(1)]) (use p in simp)
  have ry: "rep ?h (self m) p (p + n) ys" by (rule rep_frame [OF b(12) gs(2)]) (use b(5) in simp)
  have hd: "hdr ?h (self m) p False (p + n) (last_off 0 0 xs)" using b(11) by (simp add: hdr_def)
  have "heap_end m \<noteq> p" "heap_end m + 4 \<noteq> p" using b(5,8) by simp_all
  then show "smem_raw (set_pool p (self m) m) (xs @ (n, False) # ys)"
    unfolding smem_raw_def using d(1,2,3,4,5,6,8,9,11,12) rx ry hd p by (simp add: rep_append)
qed

text \<open>Reading after writing.\<close>

lemma it_reads:
  "it_next (set_pool q v m) x = (if x + 4 = q then unat v else it_next m x)"
  "it_next (set_next q k m) x = (if x = q then unat (word_of_nat k :: u32) else it_next m x)"
  "it_prev (set_pool q v m) x = (if x + 8 = q then unat v else it_prev m x)"
  "it_prev (set_next q k m) x = (if x + 8 = q + 4 then unat (word_of_nat k :: u32) else it_prev m x)"
  by (auto simp: it_next_def it_prev_def)

text \<open>Closing the gap behind a freed block, and the one in front of it.\<close>

definition plug_next :: "nat \<Rightarrow> smem \<Rightarrow> smem" where
  "plug_next mem m =
     (let nmem = it_next m mem
      in if mem \<noteq> nmem \<and> \<not> MEM_ISUSED m nmem \<and> nmem \<noteq> heap_end m then
           let m = (if lfree m = nmem then m\<lparr>lfree := mem\<rparr> else m);
               m = set_pool nmem 0 m;
               m = set_next mem (it_next m nmem) m
           in set_prev (it_next m nmem) mem m
         else m)"

definition plug_prev :: "nat \<Rightarrow> smem \<Rightarrow> smem" where
  "plug_prev mem m =
     (let pmem = it_prev m mem
      in if pmem \<noteq> mem \<and> \<not> MEM_ISUSED m pmem then
           let m = (if lfree m = mem then m\<lparr>lfree := pmem\<rparr> else m);
               m = set_pool mem 0 m;
               m = set_next pmem (it_next m mem) m
           in set_prev (it_next m mem) pmem m
         else m)"

lemma plug_holes_split: "plug_holes p m = assert_then (p < heap_end m) (Inr (plug_prev p (plug_next p m)))"
  unfolding plug_holes_def plug_next_def plug_prev_def by (simp add: Let_def)

lemma plug_next_eq:
  assumes r: "smem_raw m (xs @ (n, False) # ys)" and p: "p = tot xs" and lf: "lfree m \<le> p"
  shows "plug_next p m = (case ys of (k, False) # zs \<Rightarrow> merge_at p n k m | _ \<Rightarrow> m)"
proof (cases ys)
  case Nil
  then show ?thesis using raw_block(1,10) [OF r p] by (simp add: plug_next_def)
next
  case (Cons c zs)
  obtain k v where c: "c = (k, v)" by (cases c)
  have r2: "smem_raw m ((xs @ [(n, False)]) @ (k, v) # zs)" using r Cons c by simp
  have pn: "p + n = tot (xs @ [(n, False)])" using p by simp
  note b = raw_block [OF r p] and e = raw_block [OF r2 pn]
  have "p + n \<noteq> heap_end m" "p \<noteq> p + n" "lfree m \<noteq> p + n" "n \<noteq> 4" using b(5,10) Cons lf by simp_all
  moreover have "unat (word_of_nat (p + n + k) :: u32) = p + n + k" by (rule unat_of_small [OF e(9)])
  ultimately show ?thesis
    using b(1) e(1,2) Cons c by (cases v) (simp_all add: plug_next_def merge_at_def Let_def it_reads)
qed

lemma plug_prev_eq:
  assumes r: "smem_raw m (xs @ (n, False) # ys)" and p: "p = tot xs" and lf: "lfree m \<noteq> p \<or> (\<forall>b \<in> set xs. snd b)"
  shows "plug_prev p m = (if xs \<noteq> [] \<and> \<not> snd (last xs)
      then merge_at (tot (butlast xs)) (fst (last xs)) n m else m)"
proof (cases "xs = []")
  case True
  then show ?thesis using raw_block(3) [OF r p] p by (simp add: plug_prev_def)
next
  case False
  obtain ws c where x: "xs = ws @ [c]" using False by (metis append_butlast_last_id)
  obtain j v where c: "c = (j, v)" by (cases c)
  have r2: "smem_raw m (ws @ (j, v) # (n, False) # ys)" using r x c by simp
  note b = raw_block [OF r p] and e = raw_block [OF r2 refl]
  have pv: "it_prev m p = tot ws" using b(3) x c by (simp add: last_off_append)
  have pj: "p = tot ws + j" using p x c by simp
  have j: "12 < j" by (rule e(5))
  show ?thesis
  proof (cases v)
    case True
    then show ?thesis using pv e(2) x c by (simp add: plug_prev_def)
  next
    case False
    then have "lfree m \<noteq> p" using lf x c by auto
    moreover have "unat (word_of_nat (p + n) :: u32) = p + n" by (rule unat_of_small [OF b(9)])
    ultimately show ?thesis
      using False pv e(2) b(1) x c pj j by (simp add: plug_prev_def merge_at_def Let_def it_reads)
  qed
qed

text \<open>The layout after a block was freed.\<close>

definition glue_right :: "nat \<Rightarrow> layout \<Rightarrow> nat \<times> layout" where
  "glue_right n ys = (case ys of (k, False) # zs \<Rightarrow> (n + k, zs) | _ \<Rightarrow> (n, ys))"

definition glue_left :: "layout \<Rightarrow> nat \<Rightarrow> layout \<Rightarrow> layout" where
  "glue_left xs n ys = (if xs \<noteq> [] \<and> \<not> snd (last xs) then butlast xs @ (fst (last xs) + n, False) # ys
     else xs @ (n, False) # ys)"

definition freed :: "layout \<Rightarrow> nat \<Rightarrow> layout \<Rightarrow> layout" where
  "freed xs n ys = (case glue_right n ys of (n', ys') \<Rightarrow> glue_left xs n' ys')"

lemma freed_cases:
  obtains (right) k zs where "ys = (k, False) # zs" "glue_right n ys = (n + k, zs)"
    | (keep) "glue_right n ys = (n, ys)" "ys = [] \<or> snd (hd ys)"
proof (cases ys)
  case (Cons c zs)
  then show thesis using right keep by (cases c; cases "snd c") (simp_all add: glue_right_def)
qed (use keep in \<open>simp add: glue_right_def\<close>)

lemma left_cases:
  obtains (left) ws j where "xs = ws @ [(j, False)]" "glue_left xs n ys = ws @ (j + n, False) # ys"
    | (keep) "glue_left xs n ys = xs @ (n, False) # ys" "xs = [] \<or> snd (last xs)"
proof (cases "xs \<noteq> [] \<and> \<not> snd (last xs)")
  case True
  then have "xs = butlast xs @ [(fst (last xs), False)]" by (metis append_butlast_last_id prod.collapse)
  then show thesis using left True by (simp add: glue_left_def)
qed (use keep in \<open>auto simp: glue_left_def\<close>)

lemma glue_right_props:
  assumes "glue_right n ys = (n', ys')" "coalesced (xs @ (n, True) # ys)"
  shows "coalesced ys'" "ys' = [] \<or> snd (hd ys')" "used_total ys' = used_total ys" "live (p + n') ys' = live (p + n) ys"
    "n \<le> n'"
  using assms by (auto simp: glue_right_def coalesced_def successively_append_iff successively_Cons add.assoc
      split: list.splits prod.splits bool.splits)

lemma glue_left_props:
  assumes c: "coalesced xs" "coalesced ys'" "ys' = [] \<or> snd (hd ys')"
  shows "coalesced (glue_left xs n' ys')" "used_total (glue_left xs n' ys') = used_total xs + used_total ys'"
    "live 0 (glue_left xs n' ys') = live 0 xs @ live (tot xs + n') ys'"
    "(\<forall>b \<in> set xs. snd b) \<Longrightarrow> first_free 0 (glue_left xs n' ys') = tot xs"
    "(\<exists>b \<in> set xs. \<not> snd b) \<Longrightarrow> first_free 0 (glue_left xs n' ys') = first_free 0 xs"
proof -
  show "coalesced (glue_left xs n' ys')"
    by (rule left_cases [of xs n' ys']; use c in \<open>cases ys'; auto simp: coalesced_def successively_append_iff successively_Cons\<close>)
  show "used_total (glue_left xs n' ys') = used_total xs + used_total ys'"
    "live 0 (glue_left xs n' ys') = live 0 xs @ live (tot xs + n') ys'"
    by (rule left_cases [of xs n' ys']; simp add: add.assoc)+
  show "first_free 0 (glue_left xs n' ys') = tot xs" if "\<forall>b \<in> set xs. snd b"
    by (rule left_cases [of xs n' ys']) (use that in \<open>auto simp: first_free_used\<close>)
  show "first_free 0 (glue_left xs n' ys') = first_free 0 xs" if "\<exists>b \<in> set xs. \<not> snd b"
  proof (rule left_cases [of xs n' ys'])
    fix ws j assume x: "xs = ws @ [(j, False)]" "glue_left xs n' ys' = ws @ (j + n', False) # ys'"
    show ?thesis
    proof (cases "\<forall>b \<in> set ws. snd b")
      case True
      then show ?thesis using x by (simp add: first_free_used)
    next
      case False
      then show ?thesis using x by (simp add: first_free_stop)
    qed
  qed (use that in \<open>simp add: first_free_stop\<close>)
qed

lemma data_same_trans: "data_same h2 h1 bs \<Longrightarrow> data_same h1 h0 bs \<Longrightarrow> data_same h2 h0 bs"
  unfolding data_same_def by fastforce

definition kept :: "smem \<Rightarrow> smem \<Rightarrow> bool" where
  "kept m' m \<longleftrightarrow> lfree m' = lfree m \<and> mem_used m' = mem_used m \<and> heap_ptr m' = heap_ptr m \<and> self m' = self m
     \<and> smem_id m' = smem_id m \<and> mem_size_aligned m' = mem_size_aligned m \<and> heap_end m' = heap_end m"

lemma kept_simps [simp]: "kept m m" "kept (merge_at p n k m) m"
  by (simp_all add: kept_def)

lemma data_same_refl [simp]: "data_same h h bs"
  by (simp add: data_same_def case_prod_beta)

lemma plug_next_ok:
  assumes r: "smem_raw m (xs @ (n, False) # ys)" and p: "p = tot xs" and lf: "lfree m \<le> p"
    and g: "glue_right n ys = (n', ys')"
  shows "smem_raw (plug_next p m) (xs @ (n', False) # ys') \<and> kept (plug_next p m) m
    \<and> data_same (heap (plug_next p m)) (heap m) (live 0 xs @ live (p + n) ys)"
proof (rule freed_cases [of ys n])
  fix k zs assume y: "ys = (k, False) # zs" "glue_right n ys = (n + k, zs)"
  have eq: "plug_next p m = merge_at p n k m" using plug_next_eq [OF r p lf] y(1) by simp
  have r1: "smem_raw m (xs @ (n, False) # (k, False) # zs)" using r y(1) by simp
  have tx: "tot xs \<le> p" using p by simp
  note mr = merge_raw [OF r1 p]
  have "data_same (heap (merge_at p n k m)) (heap m) (live 0 xs @ live (p + n + k) zs)"
    by (rule same_outside_data [OF mr(2) tx])
  then show ?thesis using mr(1) eq y g by simp
next
  assume y: "glue_right n ys = (n, ys)" "ys = [] \<or> snd (hd ys)"
  then have "plug_next p m = m"
    using plug_next_eq [OF r p lf] by (cases ys) (auto split: bool.splits)
  then show ?thesis using y r g by simp
qed

lemma plug_prev_ok:
  assumes r: "smem_raw m (xs @ (n, False) # ys)" and p: "p = tot xs" and lf: "lfree m \<noteq> p \<or> (\<forall>b \<in> set xs. snd b)"
  shows "smem_raw (plug_prev p m) (glue_left xs n ys) \<and> kept (plug_prev p m) m
    \<and> data_same (heap (plug_prev p m)) (heap m) (live 0 xs @ live (p + n) ys)"
proof (rule left_cases [of xs n ys])
  fix ws j assume x: "xs = ws @ [(j, False)]" "glue_left xs n ys = ws @ (j + n, False) # ys"
  have eq: "plug_prev p m = merge_at (tot ws) j n m" using plug_prev_eq [OF r p lf] x(1) by simp
  have r1: "smem_raw m (ws @ (j, False) # (n, False) # ys)" using r x(1) by simp
  note mr = merge_raw [OF r1 refl]
  have "data_same (heap (merge_at (tot ws) j n m)) (heap m) (live 0 ws @ live (tot ws + j + n) ys)"
    by (rule same_outside_data [OF mr(2)]) simp
  then show ?thesis using mr(1) eq x p by simp
next
  assume x: "glue_left xs n ys = xs @ (n, False) # ys" "xs = [] \<or> snd (last xs)"
  then have "plug_prev p m = m" using plug_prev_eq [OF r p lf] by auto
  then show ?thesis using x r by simp
qed

lemma rt_smem_free_step:
  assumes i: "smem_inv m (xs @ (n, True) # ys)" and v: "smem_valid m s" and p: "p = tot xs"
  shows "\<exists>m'. rt_smem_free (Some (heap_ptr m + p + 12)) m s = Inr m' \<and> smem_inv m' (freed xs n ys)
    \<and> live 0 (freed xs n ys) = live 0 xs @ live (p + n) ys
    \<and> data_same (heap m') (heap m) (live 0 xs @ live (p + n) ys)
    \<and> heap_ptr m' = heap_ptr m \<and> smem_id m' = smem_id m \<and> self m' = self m \<and> mem_size_aligned m' = mem_size_aligned m"
proof -
  note d = invD [OF i] and b = raw_block [OF invD(22) [OF i] p]
  let ?a = "heap_ptr m + p + 12"
  obtain n' ys' where g: "glue_right n ys = (n', ys')" by (cases "glue_right n ys")
  let ?ma = "set_pool p (self m) m"
  let ?mb = "if p < lfree m then ?ma\<lparr>lfree := p\<rparr> else ?ma"
  let ?mc = "?mb\<lparr>mem_used := mem_used m - n\<rparr>"
  note fr = free_raw [OF d(22) p]
  have rc: "smem_raw ?mc (xs @ (n, False) # ys)" using fr(1) by (simp add: raw_upd)
  have lc: "lfree ?mc \<le> p" "lfree ?mc = (if p < lfree m then p else lfree m)" by simp_all
  have fc: "heap_ptr ?mc = heap_ptr m" "self ?mc = self m" "smem_id ?mc = smem_id m" "mem_used ?mc = mem_used m - n"
    "mem_size_aligned ?mc = mem_size_aligned m" "heap_end ?mc = heap_end m" "heap ?mc = heap ?ma" by simp_all
  note pn = plug_next_ok [OF rc p lc(1) g]
  let ?md = "plug_next p ?mc"
  have ld: "lfree ?md \<noteq> p \<or> (\<forall>b \<in> set xs. snd b)"
  proof (rule disjCI)
    assume "\<not> (\<forall>b \<in> set xs. snd b)"
    then have e: "\<exists>b \<in> set xs. \<not> snd b" by blast
    have "first_free 0 xs < tot xs"
    proof -
      obtain us c vs where x: "xs = us @ c # vs" "\<not> snd c" "\<forall>b \<in> set us. snd b"
        using split_list_first_prop [OF e] by auto
      then have "first_free 0 xs = tot us" by (cases c) (simp add: first_free_used)
      moreover have "0 < fst c" using good_pos [OF d(8)] x(1) by simp
      ultimately show ?thesis using x(1) by simp
    qed
    then have "lfree m < p" using d(10) first_free_stop [OF e] p by simp
    then show "lfree ?md \<noteq> p" using pn lc(2) by (simp add: kept_def)
  qed
  note pp = plug_prev_ok [OF conjunct1 [OF pn] p ld]
  let ?me = "plug_prev p ?md"
  have cx: "coalesced xs" using d(9) by (auto simp: coalesced_def successively_append_iff)
  note gr = glue_right_props [OF g d(9)]
  note gl = glue_left_props [OF cx gr(1,2), of n']
  have f: "freed xs n ys = glue_left xs n' ys'" by (simp add: freed_def g)
  have lv: "live 0 (freed xs n ys) = live 0 xs @ live (p + n) ys"
    using gl(3) gr(4) [of p] p f by simp
  have "lfree ?me = first_free 0 (glue_left xs n' ys')"
  proof (cases "\<forall>b \<in> set xs. snd b")
    case True
    then have "p < lfree m"
      using d(10) b(5) first_free_used [OF True, of 0 "(n, True) # ys"] first_free_bounds [of "p + n" ys] p by simp
    then show ?thesis using gl(4) [OF True] lc(2) pn pp p by (simp add: kept_def)
  next
    case False
    then have e: "\<exists>b \<in> set xs. \<not> snd b" by blast
    then have "lfree m = first_free 0 xs" using d(10) first_free_stop by simp
    moreover have "first_free 0 xs \<le> p" using first_free_bounds [of 0 xs] p by simp
    ultimately show ?thesis using gl(5) [OF e] lc(2) pn pp by (simp add: kept_def)
  qed
  moreover have "mem_used ?me = used_total (glue_left xs n' ys')"
    using pp pn d(11) gl(2) gr(3) by (simp add: kept_def)
  ultimately have inv: "smem_inv ?me (freed xs n ys)"
    using pp gl(1) f by (simp add: smem_inv_def)
  have lx: "live 0 xs @ live (p + n') ys' = live 0 xs @ live (p + n) ys" using gr(4) [of p] by simp
  have da: "data_same (heap ?mc) (heap m) (live 0 xs @ live (p + n) ys)"
    unfolding fc(7) by (rule same_outside_data [OF fr(2)]) (simp add: p)
  have db: "data_same (heap ?md) (heap ?mc) (live 0 xs @ live (p + n) ys)" using pn by blast
  have dc: "data_same (heap ?me) (heap ?md) (live 0 xs @ live (p + n) ys)" using pp unfolding lx by blast
  have data: "data_same (heap ?me) (heap m) (live 0 xs @ live (p + n) ys)"
    by (rule data_same_trans [OF dc data_same_trans [OF db da]])
  have code: "rt_smem_free (Some ?a) m s = Inr ?me"
  proof -
    have sub: "sub32 (sub32 ?a 12) (heap_ptr m) = p" using d(6) b(8,5) by simp
    have a4: "?a mod 4 = 0" using d(5) b(7) by presburger
    have nx: "MEM_POOL m (p + n) = self m"
    proof (cases ys)
      case Nil
      then show ?thesis using b(10) d(20) by simp
    next
      case (Cons c cs)
      have "smem_raw m ((xs @ [(n, True)]) @ c # cs)" using d(22) Cons by simp
      then show ?thesis using raw_block(4) [of m "xs @ [(n, True)]" "fst c" "snd c" cs "p + n"] p by simp
    qed
    have u1: "it_next ?ma p = p + n" using b(1) by (simp add: it_reads)
    have "used_total (xs @ (n, True) # ys) \<le> heap_end m" using used_total_le [of "xs @ (n, True) # ys"] d(4) by simp
    then have us: "sub32 (mem_used m) (sub32 (p + n) p) = mem_used m - n"
      using b(9) d(11,12) by simp
    show ?thesis
      using a4 sub b(1,2,4) d(2) v nx u1 us d(18) b(5,8)
      by (cases "p < lfree m") (simp_all add: rt_smem_free_def Let_def set_pool_def it_next_def plug_holes_split)
  qed
  show ?thesis using code inv lv data pn pp fc by (auto simp: kept_def)
qed

section \<open>Writing into a block\<close>

text \<open>The owner of a used block can write its data.\<close>

lemma rep_data:
  "rep h sf q p l \<Longrightarrow> good_sizes l \<Longrightarrow>
     (\<And>w. h' w \<noteq> h w \<Longrightarrow> \<exists>a n. (a, n) \<in> set (live p l) \<and> a + 12 \<le> w \<and> w < a + n \<or> w < p \<or> p + tot l \<le> w) \<Longrightarrow>
     rep h' sf q p l"
proof (induction l arbitrary: p q)
  case (Cons b l)
  obtain n u where b: "b = (n, u)" by (cases b)
  have n: "12 < n" using Cons.prems(2) b by simp
  have hd: "h' w = h w" if "p \<le> w" "w < p + 12" for w
  proof (rule ccontr)
    assume "h' w \<noteq> h w"
    then obtain a k where "(a, k) \<in> set (live p (b # l)) \<and> a + 12 \<le> w \<and> w < a + k \<or> w < p \<or> p + tot (b # l) \<le> w"
      using Cons.prems(3) by blast
    then show False using live_bounds [of a k p "b # l"] that n b by auto
  qed
  have "rep h' sf p (p + n) l"
  proof (rule Cons.IH)
    fix w assume "h' w \<noteq> h w"
    then obtain a k where "(a, k) \<in> set (live p (b # l)) \<and> a + 12 \<le> w \<and> w < a + k \<or> w < p \<or> p + tot (b # l) \<le> w"
      using Cons.prems(3) by blast
    then show "\<exists>a k. (a, k) \<in> set (live (p + n) l) \<and> a + 12 \<le> w \<and> w < a + k \<or> w < p + n \<or> p + n + tot l \<le> w"
      using b by (auto split: if_splits)
  qed (use Cons.prems b in simp_all)
  then show ?case using Cons.prems(1) b hd by (simp add: hdr_def)
qed simp

lemma smem_user_write:
  assumes i: "smem_inv m l"
    and w: "\<And>w. h' w \<noteq> heap m w \<Longrightarrow> \<exists>a n. (a, n) \<in> set (live 0 l) \<and> a + 12 \<le> w \<and> w < a + n"
  shows "smem_inv (m\<lparr>heap := h'\<rparr>) l"
proof -
  note d = invD [OF i]
  have "rep h' (self m) 0 0 l" by (rule rep_data [OF d(7,8)]) (use w in blast)
  moreover have he: "h' v = heap m v" if "heap_end m \<le> v" for v
  proof (rule ccontr)
    assume "h' v \<noteq> heap m v"
    then obtain a n where "(a, n) \<in> set (live 0 l)" "v < a + n" using w by blast
    then show False using live_bounds [of a n 0 l] d(4) that by simp
  qed
  moreover have "h' (heap_end m) = self m OR 1" "h' (heap_end m + 4) = word_of_nat (heap_end m)"
    using he [of "heap_end m"] he [of "heap_end m + 4"] d(13,14) by simp_all
  ultimately have "smem_raw (m\<lparr>heap := h'\<rparr>) l" unfolding raw_heap_upd using d(1-6,8,21) by blast
  then show ?thesis using d(9,10,11) by (simp add: smem_inv_def)
qed

section \<open>Correctness\<close>

text \<open>A block that nothing else overlaps.\<close>

definition apart :: "nat \<Rightarrow> nat \<Rightarrow> (nat \<times> nat) set \<Rightarrow> bool" where
  "apart p n bs \<longleftrightarrow> (\<forall>(a, k) \<in> bs. a + k \<le> p \<or> p + n \<le> a)"

lemma apart_split: "apart p n (set (live 0 xs @ live (p + n) ys))" if "p = tot xs"
  using that live_bounds [of _ _ 0 xs] live_bounds [of _ _ "p + n" ys] by (fastforce simp: apart_def)

lemma rt_smem_alloc_ok:
  assumes "smem_inv m l" "smem_valid m s" "0 < sz" "sz \<le> 2 ^ 32 - 4"
  shows "let k = max 12 (4 * ((sz + 3) div 4)) in
    case first_fit k 0 l of
      None \<Rightarrow> rt_smem_alloc sz m s = Inr (None, m) \<and> (\<forall>n. (n, False) \<in> set l \<longrightarrow> n < k + 12)
    | Some (p, l') \<Rightarrow> \<exists>m' n. rt_smem_alloc sz m s = Inr (Some (heap_ptr m + p + 12), m') \<and> smem_inv m' l'
        \<and> (heap_ptr m + p + 12) mod 4 = 0 \<and> p + n \<le> heap_end m
        \<and> k + 12 \<le> n \<and> set (live 0 l') = insert (p, n) (set (live 0 l)) \<and> apart p n (set (live 0 l))
        \<and> data_same (heap m') (heap m) (live 0 l)
        \<and> smem_id m' = smem_id m \<and> heap_ptr m' = heap_ptr m \<and> mem_size_aligned m' = mem_size_aligned m"
proof -
  have k: "max 12 (4 * ((sz + 3) div 4)) = request sz" by (simp add: request_def align4_small [OF assms(4)])
  have k4: "request sz mod 4 = 0" "0 < request sz" by (auto simp: request_def max_def)
  show ?thesis
  proof (cases "first_fit (request sz) 0 l")
    case None
    then show ?thesis using rt_smem_alloc_step [OF assms(1-3)] first_fit_None [of "request sz" 0 l] by (simp add: k Let_def)
  next
    case (Some r)
    obtain p l' where r: "r = (p, l')" by (cases r)
    obtain us n vs where b: "l = us @ (n, False) # vs" "p = tot us" "request sz + 12 \<le> n" "l' = us @ carve (request sz) n @ vs"
      using first_fit_Some [of "request sz" 0 l p l'] Some r by auto
    obtain m' where m': "rt_smem_alloc sz m s = Inr (Some (heap_ptr m + p + 12), m')" "smem_inv m' l'"
      "heap m' = heap (smem_carve (request sz) p m)"
      "smem_id m' = smem_id m" "heap_ptr m' = heap_ptr m" "mem_size_aligned m' = mem_size_aligned m"
      using rt_smem_alloc_step [OF assms(1-3)] Some r by auto
    have iu: "smem_inv m (us @ (n, False) # vs)" using assms(1) b(1) by simp
    note bl = raw_block [OF invD(22) [OF iu] b(2)] and ck = carve_ok [OF iu b(2,3) k4(2,1)]
      and cs = carve_sizes [OF b(3) k4(2,1) bl(6,5)]
    let ?n = "if request sz + 36 \<le> n then request sz + 12 else n"
    have lv: "live 0 l = live 0 us @ live (p + n) vs" "live 0 l' = live 0 us @ (p, ?n) # live (p + n) vs"
      using b cs(1,4) by simp_all
    have nn: "?n \<le> n" "request sz + 12 \<le> ?n" using b(3) by auto
    have "apart p n (set (live 0 l))" unfolding lv(1) by (rule apart_split [OF b(2)])
    then have ap: "apart p ?n (set (live 0 l))" using nn(1) unfolding apart_def by fastforce
    have "data_same (heap m') (heap m) (live 0 l)"
      unfolding lv(1) m'(3) by (rule same_outside_data [OF ck(2)]) (simp add: b(2))
    moreover have "(heap_ptr m + p + 12) mod 4 = 0" using invD(5) [OF assms(1)] bl(7) by presburger
    moreover have "p + ?n \<le> heap_end m" using bl(8) nn(1) by simp
    moreover have "set (live 0 l') = insert (p, ?n) (set (live 0 l))" using lv by auto
    ultimately show ?thesis using Some r m'(1,2,4,5,6) nn(2) ap unfolding k Let_def by auto
  qed
qed

lemma live_split: "(p, n) \<in> set (live q l) \<Longrightarrow> \<exists>xs ys. l = xs @ (n, True) # ys \<and> p = q + tot xs"
proof (induction l arbitrary: q)
  case (Cons b l)
  obtain k u where b: "b = (k, u)" by (cases b)
  show ?case
  proof (cases "u \<and> (p, n) = (q, k)")
    case True
    then show ?thesis using b by (intro exI [of _ "[]"] exI [of _ l]) simp
  next
    case False
    then have "(p, n) \<in> set (live (q + k) l)" using Cons.prems b by (auto split: if_splits)
    then obtain xs ys where "l = xs @ (n, True) # ys" "p = q + k + tot xs" using Cons.IH by blast
    then show ?thesis using b by (intro exI [of _ "b # xs"] exI [of _ ys]) simp
  qed
qed simp

lemma rt_smem_free_ok:
  assumes "smem_inv m l" "smem_valid m s" "(p, n) \<in> set (live 0 l)"
  shows "\<exists>m' l'. rt_smem_free (Some (heap_ptr m + p + 12)) m s = Inr m' \<and> smem_inv m' l'
    \<and> set (live 0 l') = set (live 0 l) - {(p, n)} \<and> mem_used m' = mem_used m - n
    \<and> data_same (heap m') (heap m) (live 0 l')
    \<and> heap_ptr m' = heap_ptr m \<and> mem_size_aligned m' = mem_size_aligned m \<and> smem_id m' = smem_id m"
proof -
  obtain xs ys where l: "l = xs @ (n, True) # ys" "p = tot xs" using live_split [OF assms(3)] by auto
  have i: "smem_inv m (xs @ (n, True) # ys)" using assms(1) l(1) by simp
  obtain m' where m': "rt_smem_free (Some (heap_ptr m + p + 12)) m s = Inr m'" "smem_inv m' (freed xs n ys)"
    "live 0 (freed xs n ys) = live 0 xs @ live (p + n) ys" "data_same (heap m') (heap m) (live 0 xs @ live (p + n) ys)"
    "heap_ptr m' = heap_ptr m" "mem_size_aligned m' = mem_size_aligned m" "smem_id m' = smem_id m"
    using rt_smem_free_step [OF i assms(2) l(2)] by blast
  have n0: "0 < n" using raw_block(5) [OF invD(22) [OF i] l(2)] by simp
  have "(p, n) \<notin> set (live 0 xs @ live (p + n) ys)"
    using live_bounds [of p n 0 xs] live_bounds [of p n "p + n" ys] n0 l(2) by auto
  then have lv: "set (live 0 (freed xs n ys)) = set (live 0 l) - {(p, n)}"
    using m'(3) l by auto
  have "mem_used m' = used_total (freed xs n ys)" by (rule invD(11) [OF m'(2)])
  also have "\<dots> = mem_used m - n"
    using invD(11) [OF i] m'(3) sum_live_shift [of "p + n" ys 0] by (simp add: used_total_def [symmetric])
      (simp add: used_total_def)
  finally show ?thesis using m' lv by metis
qed

text \<open>C30: allocation is first fit.  On a heap that represents a layout, with a request that
  can be rounded up to a multiple of four, \<^verbatim>\<open>rt_smem_alloc\<close> never faults and
  does what first fit does on the layout: it returns NULL and changes nothing exactly when no free block
  can hold the request; otherwise it returns the address of the data of the first block that can, aligned
  and inside the heap, the heap represents the new layout, the new block overlaps no other one, and the
  data of all other blocks are untouched.\<close>

theorem rt_smem_alloc_correct:
  assumes "smem_inv m l" "smem_valid m s" "0 < sz" "sz \<le> 2 ^ 32 - 4"
  shows "let k = max 12 (4 * ((sz + 3) div 4)) in
    case first_fit k 0 l of
      None \<Rightarrow> rt_smem_alloc sz m s = Inr (None, m) \<and> (\<forall>n. (n, False) \<in> set l \<longrightarrow> n < k + 12)
    | Some (p, l') \<Rightarrow> \<exists>m' n. rt_smem_alloc sz m s = Inr (Some (heap_ptr m + p + 12), m') \<and> smem_inv m' l'
        \<and> (heap_ptr m + p + 12) mod 4 = 0 \<and> p + n \<le> heap_end m
        \<and> k + 12 \<le> n \<and> set (live 0 l') = insert (p, n) (set (live 0 l)) \<and> apart p n (set (live 0 l))
        \<and> data_same (heap m') (heap m) (live 0 l)"
  using rt_smem_alloc_ok [OF assms] unfolding Let_def
  by (cases "first_fit (max 12 (4 * ((sz + 3) div 4))) 0 l") auto

text \<open>C31: freeing.  Freeing the address of a used block never faults; the heap represents a
  layout in which exactly this block is no longer used and no two neighbours are free, the statistics are
  right, and the data of all other blocks are untouched.\<close>

theorem rt_smem_free_correct:
  assumes "smem_inv m l" "smem_valid m s" "(p, n) \<in> set (live 0 l)"
  shows "\<exists>m' l'. rt_smem_free (Some (heap_ptr m + p + 12)) m s = Inr m' \<and> smem_inv m' l'
    \<and> set (live 0 l') = set (live 0 l) - {(p, n)} \<and> mem_used m' = mem_used m - n
    \<and> data_same (heap m') (heap m) (live 0 l')"
  using rt_smem_free_ok [OF assms] by blast

end
