(* ===== verification/SmallMemLife.thy ===== *)
theory SmallMemLife
  imports SmallMem
begin

text \<open>
  The life of a small-memory heap: what \<^verbatim>\<open>rt_smem_init\<close> sets up is a heap that
  satisfies the invariant of the theory SmallMem, \<^verbatim>\<open>rt_smem_realloc\<close> keeps it, and
  what happens to requests that cannot be rounded up.
\<close>

section \<open>Initialisation\<close>

lemma mult4_self:
  assumes "n < 2 ^ 32" "n mod 4 = 0"
  shows "(word_of_nat n :: u32) AND MEM_MASK = word_of_nat n"
proof -
  have "(word_of_nat n :: u32) AND NOT 3 = word_of_nat n"
  proof -
    have "unat (word_of_nat n AND NOT 3 :: u32) = unat (word_of_nat n :: u32)"
      unfolding unat_and_not_small [OF assms(1)] unat_of_small [OF assms(1)] using assms(2) by presburger
    then show ?thesis by (simp only: word_unat_eq_iff)
  qed
  then have "(word_of_nat n :: u32) AND MEM_MASK = (word_of_nat n AND NOT 3) AND MEM_MASK" by (simp only:)
  also have "\<dots> = word_of_nat n AND (NOT 3 AND MEM_MASK)" by (rule and.assoc)
  also have "(NOT 3 AND MEM_MASK :: u32) = NOT 3" by simp
  finally show ?thesis using \<open>word_of_nat n AND NOT 3 = word_of_nat n\<close> by simp
qed

lemma sub32_chain: "c + d \<le> a \<Longrightarrow> a < 2 ^ 32 \<Longrightarrow> sub32 (sub32 a c) d = a - c - d"
  by simp

text \<open>A new heap.  In memory that does not wrap around the address space and has room for
  the control block, two headers and at least one word, \<^verbatim>\<open>rt_smem_init\<close> returns a pool
  whose heap lies inside this memory, wastes at most 88 bytes of it, satisfies the invariant and consists
  of one free block; the pool object has been registered.\<close>

lemma rt_smem_init_correct:
  assumes "0 < begin_addr" "begin_addr + sz < 2 ^ 32"
    and room: "4 * ((begin_addr + 3) div 4) + 80 < 4 * ((begin_addr + sz) div 4)"
    and obj: "rt_object_init (OMemory i) RT_Object_Class_Memory name s = Inr s'"
  shows "\<exists>m. rt_smem_init i name begin_addr sz mem s = Inr (Some m, s') \<and> smem_valid m s'
    \<and> smem_inv m [(heap_end m, False)] \<and> lfree m = 0
    \<and> begin_addr + 56 \<le> heap_ptr m \<and> heap_ptr m + heap_end m + 12 \<le> begin_addr + sz
    \<and> sz < mem_size_aligned m + 88"
proof -
  define b where "b = 4 * ((begin_addr + 3) div 4)"
  define e where "e = 4 * ((begin_addr + sz) div 4)"
  have be: "b + 80 < e" "e \<le> begin_addr + sz" "begin_addr + sz < e + 4" "begin_addr \<le> b" "b < begin_addr + 4"
    "b mod 4 = 0" "e mod 4 = 0" using room unfolding b_def e_def by simp_all
  have b0: "align4 begin_addr = b" using be assms(2) by (simp add: align4_small b_def)
  have b56: "add32 b 56 = b + 56" using be assms(2) by simp
  obtain x y where xy: "b = 4 * x" "e = 4 * y" by (rule that) (simp_all only: b_def e_def)
  then have b4: "(b + 56) mod 4 = 0" by simp
  have "(4 * x + 56 + 3) div 4 = x + 14" by simp
  then have al: "align4 (b + 56) = b + 56" using be assms(2) xy by (simp add: align4_small)
  have ed: "unat (RT_ALIGN_DOWN (word_of_nat begin_addr + word_of_nat sz) 4) = e"
  proof -
    have "(word_of_nat begin_addr + word_of_nat sz :: u32) = word_of_nat (begin_addr + sz)" by simp
    then have "RT_ALIGN_DOWN (word_of_nat begin_addr + word_of_nat sz) 4 = (word_of_nat (begin_addr + sz) AND NOT 3 :: u32)"
      unfolding RT_ALIGN_DOWN_def by simp
    then show ?thesis using unat_and_not_small [OF assms(2)] by (simp only: e_def)
  qed
  have ms: "sub32 (sub32 e (b + 56)) (2 * 12) = e - b - 80" using be assms(2) by simp
  define n where "n = e - b - 68"
  have n32: "n < 2 ^ 32" "e - b - 80 = n - 12" using be assms(2) by (simp_all add: n_def)
  have n: "add32 (n - 12) 12 = n" "unat (word_of_nat n :: u32) = n" "12 < n" "b + 56 + n + 12 = e"
    using be n32 unat_of_small [OF n32(1)] by (simp, simp, simp add: n_def, simp add: n_def)
  have n4: "n mod 4 = 0"
  proof -
    have "n = 4 * (y - x - 17)" using xy by (simp add: n_def)
    then show ?thesis by simp
  qed
  let ?sf = "word_of_nat b :: u32"
  have b32: "b < 2 ^ 32" using be assms(2) by simp
  have sf: "?sf AND MEM_MASK = ?sf" by (rule mult4_self [OF b32 be(6)])
  have "unat ?sf \<noteq> 0" using b0 be assms(1) unat_of_small [OF b32] by simp
  then have sf0: "?sf \<noteq> 0" by auto
  let ?h = "mem(0 := ?sf, 4 := word_of_nat n, 8 := 0, n := ?sf OR 1, n + 4 := word_of_nat n, n + 8 := word_of_nat n)"
  let ?m = "\<lparr>smem_id = i, self = ?sf, heap_ptr = b + 56, heap_end = n, lfree = 0, mem_size_aligned = n - 12,
    mem_used = 0, mem_max = 0, heap = ?h\<rparr>"
  have "e > 2 * 12 \<and> b + 56 \<le> e - 2 * 12" using be by simp
  then have "rt_smem_init i name begin_addr sz mem s = Inr (Some ?m, s')"
    unfolding rt_smem_init_def Let_def b0 b56 al ed ms n32(2) n(1)
    using sf n obj
    by (simp add: set_pool_def set_next_def set_prev_def it_next_def MEM_FREED_def MEM_USED_def)
  moreover have "rep ?h ?sf 0 0 [(n, False)]" using n(3) by (simp add: hdr_def)
  moreover have "smem_inv ?m [(n, False)]"
    unfolding smem_inv_def smem_raw_def
    using sf sf0 be n(3,4) n4 assms(2) b4 \<open>rep ?h ?sf 0 0 [(n, False)]\<close>
    by (simp add: coalesced_def)
  moreover have "smem_valid ?m s'"
    using object_init_type [OF obj] by (simp add: smem_valid_def)
  ultimately show ?thesis using be assms(2) n(3,4) n32(2) by (intro exI [of _ ?m]) simp
qed

section \<open>Reallocation\<close>

lemma data_sameD: "data_same h' h bs \<Longrightarrow> (a, n) \<in> set bs \<Longrightarrow> a + 12 \<le> w \<Longrightarrow> w < a + n \<Longrightarrow> h' w = h w"
  by (fastforce simp: data_same_def)

lemma data_same_mono: "data_same h' h bs \<Longrightarrow> set cs \<subseteq> set bs \<Longrightarrow> data_same h' h cs"
  by (fastforce simp: data_same_def)

text \<open>The writes of the shrinking case are those of carving.\<close>

definition smem_shrink :: "nat \<Rightarrow> nat \<Rightarrow> smem \<Rightarrow> smem" where
  "smem_shrink k p m =
     (let ptr2 = add32 p (12 + k);
          m = set_pool ptr2 (MEM_FREED m) m;
          m = set_next ptr2 (it_next m p) m;
          m = set_prev ptr2 p m;
          m = set_next p ptr2 m
      in if it_next m ptr2 \<noteq> add32 (mem_size_aligned m) 12 then set_prev (it_next m ptr2) ptr2 m else m)"

lemma shrink_heap:
  assumes i: "smem_inv m (xs @ (n, True) # ys)" and p: "p = tot xs" and k: "k + 36 \<le> n"
  shows "heap (smem_shrink k p m) = heap (smem_carve k p m)" "lfree (smem_shrink k p m) = lfree m"
    "mem_used (smem_shrink k p m) = mem_used m" "self (smem_shrink k p m) = self m"
    "heap_end (smem_shrink k p m) = heap_end m" "mem_size_aligned (smem_shrink k p m) = mem_size_aligned m"
    "heap_ptr (smem_shrink k p m) = heap_ptr m" "smem_id (smem_shrink k p m) = smem_id m"
proof -
  note d = invD [OF i] and b = raw_block [OF d(22) p]
  have n: "add32 p (12 + k) = p + 12 + k" "add32 (mem_size_aligned m) 12 = heap_end m"
    using b(9) k d(3,12) by simp_all
  have e: "ys \<noteq> [] \<longleftrightarrow> p + n \<noteq> heap_end m" by (rule b(10))
  have nx: "unat (heap m (p + 4)) = p + n" using b(1) by (simp add: it_next_def)
  have wn: "unat (word_of_nat (p + n) :: u32) = p + n" by (rule unat_of_small [OF b(9)])
  have hp: "heap m p = self m OR 1" using b(11) by (simp add: hdr_def)
  have k12: "k + 12 \<le> n" using k by simp
  have "heap (smem_shrink k p m) = (let h = (heap m)(p + 12 + k := self m, p + 12 + k + 4 := word_of_nat (p + n),
      p + 12 + k + 8 := word_of_nat p, p + 4 := word_of_nat (p + 12 + k))
     in if ys \<noteq> [] then h(p + n + 8 := word_of_nat (p + 12 + k)) else h)"
    unfolding smem_shrink_def Let_def n(1) e using nx wn n(2) d(18) by (simp add: it_next_def)
  then show "heap (smem_shrink k p m) = heap (smem_carve k p m)"
    unfolding carve_heap(1) [OF i p k12] Let_def using k hp b(5) by (auto simp: fun_eq_iff)
  show "lfree (smem_shrink k p m) = lfree m"
    "mem_used (smem_shrink k p m) = mem_used m" "self (smem_shrink k p m) = self m"
    "heap_end (smem_shrink k p m) = heap_end m" "mem_size_aligned (smem_shrink k p m) = mem_size_aligned m"
    "heap_ptr (smem_shrink k p m) = heap_ptr m" "smem_id (smem_shrink k p m) = smem_id m"
    by (simp_all add: smem_shrink_def Let_def)
qed

lemma raw_cong:
  "heap m' = heap m \<Longrightarrow> self m' = self m \<Longrightarrow> heap_end m' = heap_end m \<Longrightarrow> mem_size_aligned m' = mem_size_aligned m
    \<Longrightarrow> heap_ptr m' = heap_ptr m \<Longrightarrow> smem_raw m' l = smem_raw m l"
  by (simp add: smem_raw_def)

lemma shrink_used: "smem_shrink k p (m\<lparr>mem_used := y\<rparr>) = (smem_shrink k p m)\<lparr>mem_used := y\<rparr>"
  by (simp add: smem_shrink_def set_pool_def set_next_def set_prev_def it_next_def MEM_FREED_def Let_def)

text \<open>The block is cut, the rest joins a free block behind it.\<close>

lemma smem_shrink_ok:
  assumes i: "smem_inv m (xs @ (n, True) # ys)" and p: "p = tot xs" and k: "k + 36 < n" "0 < k" "k mod 4 = 0"
    and ma: "ma = smem_shrink k p (m\<lparr>mem_used := mem_used m - (n - 12 - k)\<rparr>)"
    and mb: "mb = (if p + 12 + k < lfree ma then ma\<lparr>lfree := p + 12 + k\<rparr> else ma)"
  shows "\<exists>m' n' ys'. plug_holes (p + 12 + k) mb = Inr m' \<and> smem_inv m' (xs @ (k + 12, True) # (n', False) # ys')
    \<and> live (p + k + 12 + n') ys' = live (p + n) ys
    \<and> data_same (heap m') (heap m) (live 0 xs @ (p, k + 12) # live (p + n) ys)
    \<and> heap_ptr m' = heap_ptr m \<and> mem_size_aligned m' = mem_size_aligned m \<and> smem_id m' = smem_id m"
proof -
  note d = invD [OF i] and b = raw_block [OF d(22) p]
  have k36: "k + 36 \<le> n" and k12: "k + 12 \<le> n" using k by simp_all
  note sh = shrink_heap [OF i p k36] and ck = carve_ok [OF i p k12 k(2,3)] and cf = carve_heap [OF i p k12]
  let ?p2 = "p + 12 + k" let ?n2 = "n - k - 12" let ?xs = "xs @ [(k + 12, True)]"
  have cv: "carve k n = [(k + 12, True), (?n2, False)]" using k36 by (simp add: carve_def)
  have fb: "heap mb = heap (smem_carve k p m)" "self mb = self m" "heap_end mb = heap_end m" "mem_size_aligned mb = mem_size_aligned m"
    "heap_ptr mb = heap_ptr m" "smem_id mb = smem_id m" "mem_used mb = mem_used m - (n - 12 - k)"
    "lfree mb = (if ?p2 < lfree m then ?p2 else lfree m)"
    using sh unfolding mb ma shrink_used by simp_all
  have p2: "?p2 = tot ?xs" using p by simp
  have rb: "smem_raw mb (?xs @ (?n2, False) # ys)"
  proof -
    have "smem_raw mb l = smem_raw (smem_carve k p m) l" for l
      by (rule raw_cong) (simp_all add: fb cf(3-8))
    then show ?thesis using ck(4) unfolding cv by simp
  qed
  obtain n' ys' where g: "glue_right ?n2 ys = (n', ys')" by (cases "glue_right ?n2 ys")
  have lb: "lfree mb \<le> ?p2" unfolding fb(8) by simp
  note pn = plug_next_ok [OF rb p2 lb g]
  let ?mc = "plug_next ?p2 mb"
  have rc: "smem_raw ?mc (?xs @ (n', False) # ys')" using pn by blast
  have lc: "lfree ?mc \<noteq> ?p2 \<or> (\<forall>b \<in> set ?xs. snd b)"
  proof (rule disjCI)
    assume "\<not> (\<forall>b \<in> set ?xs. snd b)"
    then have e: "\<exists>b \<in> set xs. \<not> snd b" by auto
    have "lfree m = first_free 0 xs" using d(10) first_free_stop [OF e] by simp
    then have "lfree m \<le> p" using first_free_bounds [of 0 xs] p by simp
    then show "lfree ?mc \<noteq> ?p2" using pn fb(8) by (simp add: kept_def)
  qed
  have pe: "plug_prev ?p2 ?mc = ?mc" using plug_prev_eq [OF rc p2 lc] by simp
  have lt: "?p2 < heap_end mb" using b(8) k fb(3) by simp
  have code: "plug_holes ?p2 mb = Inr ?mc" unfolding plug_holes_split pe using lt by simp
  have co: "coalesced (xs @ (n, True) # ys)" by (rule d(9))
  have co2: "coalesced (?xs @ (?n2, True) # ys)"
    using co by (auto simp: coalesced_def successively_append_iff successively_Cons)
  note gr = glue_right_props [OF g co2]
  have "coalesced (xs @ (k + 12, True) # (n', False) # ys')"
    using co gr(1,2) by (cases ys') (auto simp: coalesced_def successively_append_iff successively_Cons)
  moreover have "lfree ?mc = first_free 0 (xs @ (k + 12, True) # (n', False) # ys')"
  proof (cases "\<forall>b \<in> set xs. snd b")
    case True
    have "lfree m = first_free (p + n) ys" using d(10) first_free_used [OF True] p by simp
    then have "?p2 < lfree m" using first_free_bounds [of "p + n" ys] k by simp
    then show ?thesis using pn fb(8) first_free_used [OF True] p by (simp add: kept_def)
  next
    case False
    then have e: "\<exists>b \<in> set xs. \<not> snd b" by blast
    have l: "lfree m = first_free 0 xs" using d(10) first_free_stop [OF e] by simp
    then have "lfree m \<le> p" using first_free_bounds [of 0 xs] p by simp
    then show ?thesis using pn fb(8) first_free_stop [OF e] l by (simp add: kept_def)
  qed
  moreover have "mem_used ?mc = used_total (xs @ (k + 12, True) # (n', False) # ys')"
    using pn fb(7) d(11) gr(3) k by (simp add: kept_def)
  ultimately have "smem_inv ?mc (xs @ (k + 12, True) # (n', False) # ys')"
    using rc by (simp add: smem_inv_def)
  moreover have lv: "live (p + k + 12 + n') ys' = live (p + n) ys"
    using gr(4) [of ?p2] k12 by (simp add: algebra_simps)
  moreover have "data_same (heap ?mc) (heap m) (live 0 xs @ (p, k + 12) # live (p + n) ys)"
  proof -
    have q: "?p2 + ?n2 = p + n" using k12 by simp
    have "data_same (heap ?mc) (heap mb) (live 0 ?xs @ live (?p2 + ?n2) ys)" using pn by blast
    then have one: "data_same (heap ?mc) (heap mb) (live 0 xs @ (p, k + 12) # live (p + n) ys)"
      unfolding q using p by simp
    have "data_same (heap mb) (heap m) (live 0 xs @ live (p + n) ys)"
      unfolding fb(1) by (rule same_outside_data [OF ck(2)]) (simp add: p)
    moreover have "heap mb w = heap m w" if "p + 12 \<le> w" "w < p + (k + 12)" for w
      unfolding fb(1) cf(1) Let_def using k36 that by auto
    ultimately have two: "data_same (heap mb) (heap m) (live 0 xs @ (p, k + 12) # live (p + n) ys)"
      unfolding data_same_def by auto
    show ?thesis by (rule data_same_trans [OF one two])
  qed
  ultimately show ?thesis using code pn fb by (auto simp: kept_def)
qed

text \<open>The whole reallocation of a used block.\<close>

lemma live_free_fits: "(\<exists>f. (f, False) \<in> set l \<and> k + 12 \<le> f) \<longleftrightarrow> first_fit k 0 l \<noteq> None"
  unfolding first_fit_None by (auto simp: not_less)

lemma rt_smem_realloc_alt:
  "rt_smem_realloc rmem newsize m s =
     smem_checked m s (
     if align4 newsize > mem_size_aligned m then Inr (None, m)
     else if align4 newsize = 0 then bind_res (rt_smem_free rmem m s) (\<lambda>m. Inr (None, m))
     else case rmem of None \<Rightarrow> rt_smem_alloc (align4 newsize) m s
     | Some a \<Rightarrow>
       assert_then (a mod 4 = 0) (
       assert_then (a \<ge> heap_ptr m) (
       assert_then (a < heap_ptr m + heap_end m) (
       let ptr = sub32 (sub32 a 12) (heap_ptr m);
           sz = sub32 (sub32 (it_next m ptr) ptr) 12
       in if sz = align4 newsize then Inr (Some a, m)
          else if add32 (align4 newsize) (12 + 12) < sz then
            let ma = smem_shrink (align4 newsize) ptr (m\<lparr>mem_used := sub32 (mem_used m) (sub32 sz (align4 newsize))\<rparr>);
                ptr2 = add32 ptr (12 + align4 newsize);
                mb = (if ptr2 < lfree ma then ma\<lparr>lfree := ptr2\<rparr> else ma)
            in bind_res (plug_holes ptr2 mb) (\<lambda>m. Inr (Some a, m))
          else bind_res (rt_smem_alloc (align4 newsize) m s) (\<lambda>(nmem, m).
            case nmem of None \<Rightarrow> Inr (None, m)
            | Some b \<Rightarrow> bind_res (rt_smem_free (Some a)
                (heap_copy (b - heap_ptr m) (a - heap_ptr m) (min sz (align4 newsize)) m) s)
                (\<lambda>m. Inr (Some b, m)))))))"
  unfolding rt_smem_realloc_def smem_shrink_def Let_def ..

lemma rt_smem_realloc_entry:
  assumes i: "smem_inv m l" and v: "smem_valid m s" and pn: "(p, n) \<in> set (live 0 l)"
    and sz: "0 < newsize" "newsize \<le> 2 ^ 32 - 4" and k: "k = 4 * ((newsize + 3) div 4)"
  shows "rt_smem_realloc (Some (heap_ptr m + p + 12)) newsize m s =
    (if k > mem_size_aligned m then Inr (None, m)
     else if n = k + 12 then Inr (Some (heap_ptr m + p + 12), m)
     else if k + 36 < n then
       let ma = smem_shrink k p (m\<lparr>mem_used := mem_used m - (n - 12 - k)\<rparr>);
           mb = (if p + 12 + k < lfree ma then ma\<lparr>lfree := p + 12 + k\<rparr> else ma)
       in bind_res (plug_holes (p + 12 + k) mb) (\<lambda>m. Inr (Some (heap_ptr m + p + 12), m))
     else bind_res (rt_smem_alloc k m s) (\<lambda>(nmem, m').
       case nmem of None \<Rightarrow> Inr (None, m')
       | Some b \<Rightarrow> bind_res (rt_smem_free (Some (heap_ptr m + p + 12))
              (heap_copy (b - heap_ptr m') (heap_ptr m + p + 12 - heap_ptr m') (min (n - 12) k) m') s)
            (\<lambda>m. Inr (Some b, m))))"
proof -
  obtain xs ys where l: "l = xs @ (n, True) # ys" "p = tot xs" using live_split [OF pn] by auto
  have i': "smem_inv m (xs @ (n, True) # ys)" using i l(1) by simp
  note d = invD [OF i'] and b = raw_block [OF invD(22) [OF i'] l(2)]
  have al: "align4 newsize = k" "k \<noteq> 0" using sz k by (simp_all add: align4_small)
  have adr: "(heap_ptr m + p + 12) mod 4 = 0" using d(5) b(7) by presburger
  have ptr: "sub32 (sub32 (heap_ptr m + p + 12) 12) (heap_ptr m) = p"
    "sub32 (sub32 (p + n) p) 12 = n - 12" using d(6) b(5,8,9) by simp_all
  have lt: "heap_ptr m + p + 12 < heap_ptr m + heap_end m" using b(5,8) by simp
  have used: "sub32 (mem_used m) (sub32 (n - 12) k) = mem_used m - (n - 12 - k)" if "k + 36 < n"
  proof -
    have "mem_used m < 2 ^ 32" "n \<le> mem_used m" using d(4,11,12) used_total_le [of "xs @ (n, True) # ys"] by simp_all
    then show ?thesis using that by simp
  qed
  have cmp: "add32 k (12 + 12) < n - 12 \<longleftrightarrow> k + 36 < n" if "k \<le> mem_size_aligned m"
    using that d(3,6,21) by simp arith
  have p2: "add32 p (12 + k) = p + 12 + k" if "k + 36 < n" using b(9) that by simp
  have hk: "plug_holes (p + 12 + k) mb = Inr m' \<Longrightarrow> heap_ptr m' = heap_ptr mb" for mb m'
    by (auto simp: plug_holes_split assert_then_def plug_prev_def plug_next_def Let_def split: if_splits)
  show ?thesis
  proof (cases "k \<le> mem_size_aligned m")
    case False
    then show ?thesis using v al by (simp add: rt_smem_realloc_def)
  next
    case True
    show ?thesis
    proof (cases "k + 36 < n")
      case sm: True
      let ?ma = "smem_shrink k p (m\<lparr>mem_used := mem_used m - (n - 12 - k)\<rparr>)"
      let ?mb = "if p + 12 + k < lfree ?ma then ?ma\<lparr>lfree := p + 12 + k\<rparr> else ?ma"
      have ne: "n - 12 \<noteq> k" using sm by simp
      have hb: "heap_ptr ?mb = heap_ptr m" by (simp add: smem_shrink_def Let_def)
      have "rt_smem_realloc (Some (heap_ptr m + p + 12)) newsize m s =
          bind_res (plug_holes (p + 12 + k) ?mb) (\<lambda>m'. Inr (Some (heap_ptr m + p + 12), m'))"
        unfolding rt_smem_realloc_alt al(1) option.case Let_def
        using v True al(2) adr lt cmp [OF True] sm b(1) used [OF sm] p2 [OF sm] ne
        by (simp add: assert_then_def ptr Let_def)
      also have "\<dots> = bind_res (plug_holes (p + 12 + k) ?mb) (\<lambda>m. Inr (Some (heap_ptr m + p + 12), m))"
        using hk [of ?mb] hb by (cases "plug_holes (p + 12 + k) ?mb") (simp_all add: bind_res_def)
      finally show ?thesis using True sm by (simp add: Let_def)
    next
      case ns: False
      have ne: "n - 12 = k \<longleftrightarrow> n = k + 12" using b(5) by auto
      show ?thesis
        unfolding rt_smem_realloc_alt al(1) option.case Let_def ptr(1) b(1) ptr(2)
        using v True al(2) adr lt cmp [OF True] ns ne by (simp add: assert_then_def)
    qed
  qed
qed

text \<open>What a successful reallocation to \<open>k\<close> bytes leaves behind: block
  \<open>(p, n)\<close> has become \<open>(q, n')\<close>, which holds the old data; everything else is
  as before.\<close>

definition moved :: "smem \<Rightarrow> layout \<Rightarrow> nat \<Rightarrow> nat \<Rightarrow> nat \<Rightarrow> smem \<Rightarrow> layout \<Rightarrow> nat \<Rightarrow> nat \<Rightarrow> bool" where
  "moved m l p n k m' l' q n' \<longleftrightarrow> smem_inv m' l' \<and> (q, n') \<notin> set (live 0 l) - {(p, n)}
     \<and> set (live 0 l') = insert (q, n') (set (live 0 l) - {(p, n)}) \<and> k + 12 \<le> n'
     \<and> (\<forall>w < min (n - 12) k. heap m' (q + 12 + w) = heap m (p + 12 + w))
     \<and> data_same (heap m') (heap m) (filter (\<lambda>b. b \<noteq> (p, n)) (live 0 l))
     \<and> heap_ptr m' = heap_ptr m \<and> mem_size_aligned m' = mem_size_aligned m \<and> smem_id m' = smem_id m"

lemma moved_stay:
  assumes "smem_inv m l" "(p, k + 12) \<in> set (live 0 l)"
  shows "moved m l p (k + 12) k m l p (k + 12)"
  using assms by (auto simp: moved_def)

lemma live_pos: "good_sizes l \<Longrightarrow> (a, n) \<in> set (live p l) \<Longrightarrow> 12 < n \<and> (n, True) \<in> set l"
  by (induction l arbitrary: p) (fastforce split: if_splits)+

lemma live_apart:
  assumes "l = xs @ (n, True) # ys" "p = tot xs" "good_sizes l"
  shows "set (live 0 xs @ live (p + n) ys) = set (live 0 l) - {(p, n)}" "(p, k) \<notin> set (live 0 l) - {(p, n)}"
proof -
  have no: "(p, k) \<notin> set (live 0 xs @ live (p + n) ys)" for k
    using live_bounds [of p k 0 xs] live_bounds [of p k "p + n" ys] live_pos [of xs p k 0] assms by auto
  then show e: "set (live 0 xs @ live (p + n) ys) = set (live 0 l) - {(p, n)}" using assms by auto
  show "(p, k) \<notin> set (live 0 l) - {(p, n)}" unfolding e [symmetric] by (rule no)
qed

lemma moved_shrink:
  assumes i: "smem_inv m l" and pn: "(p, n) \<in> set (live 0 l)" and k: "k + 36 < n" "0 < k" "k mod 4 = 0"
    and ma: "ma = smem_shrink k p (m\<lparr>mem_used := mem_used m - (n - 12 - k)\<rparr>)"
    and mb: "mb = (if p + 12 + k < lfree ma then ma\<lparr>lfree := p + 12 + k\<rparr> else ma)"
  shows "\<exists>m' l'. plug_holes (p + 12 + k) mb = Inr m' \<and> moved m l p n k m' l' p (k + 12)"
proof -
  obtain xs ys where l: "l = xs @ (n, True) # ys" "p = tot xs" using live_split [OF pn] by auto
  have i': "smem_inv m (xs @ (n, True) # ys)" using i l(1) by simp
  obtain m' n' ys' where m': "plug_holes (p + 12 + k) mb = Inr m'" "smem_inv m' (xs @ (k + 12, True) # (n', False) # ys')"
    "live (p + k + 12 + n') ys' = live (p + n) ys"
    "data_same (heap m') (heap m) (live 0 xs @ (p, k + 12) # live (p + n) ys)"
    "heap_ptr m' = heap_ptr m" "mem_size_aligned m' = mem_size_aligned m" "smem_id m' = smem_id m"
    using smem_shrink_ok [OF i' l(2) k ma mb] by blast
  note la = live_apart [OF l invD(8) [OF i]]
  let ?l = "xs @ (k + 12, True) # (n', False) # ys'"
  have lv: "live 0 ?l = live 0 xs @ (p, k + 12) # live (p + n) ys"
    using m'(3) l(2) by (simp add: add.assoc)
  have "set (live 0 ?l) = insert (p, k + 12) (set (live 0 l) - {(p, n)})"
    unfolding lv la(1) [symmetric] by auto
  moreover have "heap m' (p + 12 + w) = heap m (p + 12 + w)" if "w < k" for w
    by (rule data_sameD [OF m'(4), of p "k + 12"]) (use that in auto)
  moreover have "data_same (heap m') (heap m) (filter (\<lambda>b. b \<noteq> (p, n)) (live 0 l))"
    by (rule data_same_mono [OF m'(4)]) (use la(1) in auto)
  ultimately have "moved m l p n k m' ?l p (k + 12)"
    unfolding moved_def using m'(2,5-7) la(2) by simp
  then show ?thesis using m'(1) by blast
qed

lemma moved_copy:
  assumes i: "smem_inv m l" and v: "smem_valid m s" and pn: "(p, n) \<in> set (live 0 l)"
    and k: "0 < k" "k mod 4 = 0" "k \<le> 2 ^ 32 - 4" and ff: "first_fit (max 12 k) 0 l \<noteq> None"
  shows "\<exists>q m1 m' l' n'. rt_smem_alloc k m s = Inr (Some (heap_ptr m + q + 12), m1) \<and> heap_ptr m1 = heap_ptr m
    \<and> rt_smem_free (Some (heap_ptr m + p + 12)) (heap_copy (q + 12) (p + 12) (min (n - 12) k) m1) s = Inr m'
    \<and> moved m l p n k m' l' q n'"
proof -
  have kk: "max 12 (4 * ((k + 3) div 4)) = max 12 k" using k(2) by auto
  obtain q l1 where q: "first_fit (max 12 k) 0 l = Some (q, l1)" using ff by auto
  obtain m1 n' where m1: "rt_smem_alloc k m s = Inr (Some (heap_ptr m + q + 12), m1)" "smem_inv m1 l1"
    "max 12 k + 12 \<le> n'" "set (live 0 l1) = insert (q, n') (set (live 0 l))" "apart q n' (set (live 0 l))"
    "data_same (heap m1) (heap m) (live 0 l)" "smem_id m1 = smem_id m" "heap_ptr m1 = heap_ptr m"
    "mem_size_aligned m1 = mem_size_aligned m"
    using rt_smem_alloc_ok [OF i v k(1,3)] unfolding Let_def kk q by auto
  have n0: "12 < n" using live_pos [OF invD(8) [OF i] pn] by simp
  have off: "b + j \<le> q \<or> q + n' \<le> b" if "(b, j) \<in> set (live 0 l)" for b j
    using m1(5) that by (auto simp: apart_def)
  have qp: "(q, n') \<notin> set (live 0 l)" using off [of q n'] m1(3) by auto
  let ?n = "min (n - 12) k"
  let ?m2 = "heap_copy (q + 12) (p + 12) ?n m1"
  have m2: "?m2 = m1\<lparr>heap := heap ?m2\<rparr>" by (simp add: heap_copy_def)
  have "smem_inv (m1\<lparr>heap := heap ?m2\<rparr>) l1"
  proof (rule smem_user_write [OF m1(2)])
    fix w assume "heap ?m2 w \<noteq> heap m1 w"
    then have "q + 12 \<le> w \<and> w < q + n'" using m1(3) by (auto simp: heap_copy_def split: if_splits)
    moreover have "(q, n') \<in> set (live 0 l1)" using m1(4) by simp
    ultimately show "\<exists>a n. (a, n) \<in> set (live 0 l1) \<and> a + 12 \<le> w \<and> w < a + n" by blast
  qed
  then have i2: "smem_inv ?m2 l1" by (simp only: m2 [symmetric])
  have v2: "smem_valid ?m2 s" using v m1(7) by (simp add: smem_valid_def heap_copy_def)
  have pn1: "(p, n) \<in> set (live 0 l1)" using pn m1(4) by simp
  obtain m' l' where m': "rt_smem_free (Some (heap_ptr ?m2 + p + 12)) ?m2 s = Inr m'" "smem_inv m' l'"
    "set (live 0 l') = set (live 0 l1) - {(p, n)}" "data_same (heap m') (heap ?m2) (live 0 l')"
    "heap_ptr m' = heap_ptr ?m2" "mem_size_aligned m' = mem_size_aligned ?m2" "smem_id m' = smem_id ?m2"
    using rt_smem_free_ok [OF i2 v2 pn1] by blast
  have hp: "heap_ptr ?m2 = heap_ptr m" "mem_size_aligned ?m2 = mem_size_aligned m" "smem_id ?m2 = smem_id m"
    using m1(7-9) by (simp_all add: heap_copy_def)
  have ne: "(q, n') \<noteq> (p, n)" using qp pn by auto
  have live': "set (live 0 l') = insert (q, n') (set (live 0 l) - {(p, n)})" using m'(3) m1(4) ne by auto
  have "heap m' (q + 12 + w) = heap m (p + 12 + w)" if "w < ?n" for w
  proof -
    have "heap m' (q + 12 + w) = heap ?m2 (q + 12 + w)"
      by (rule data_sameD [OF m'(4), of q n']) (use live' that m1(3) in auto)
    also have "\<dots> = heap m1 (p + 12 + w)" using that by (simp add: heap_copy_def)
    also have "\<dots> = heap m (p + 12 + w)"
      by (rule data_sameD [OF m1(6) pn]) (use that in auto)
    finally show ?thesis .
  qed
  moreover have "data_same (heap m') (heap m) (filter (\<lambda>b. b \<noteq> (p, n)) (live 0 l))"
  proof -
    let ?f = "filter (\<lambda>b. b \<noteq> (p, n)) (live 0 l)"
    have a: "data_same (heap m') (heap ?m2) ?f" by (rule data_same_mono [OF m'(4)]) (use live' in auto)
    have c: "data_same (heap m1) (heap m) ?f" by (rule data_same_mono [OF m1(6)]) auto
    have b: "data_same (heap ?m2) (heap m1) ?f"
      unfolding data_same_def using off m1(3) by (fastforce simp: heap_copy_def)
    show ?thesis by (rule data_same_trans [OF a data_same_trans [OF b c]])
  qed
  ultimately have "moved m l p n k m' l' q n'"
    unfolding moved_def using m'(2,5,6,7) hp live' qp m1(3) by simp
  moreover have "rt_smem_free (Some (heap_ptr m + p + 12)) ?m2 s = Inr m'" using m'(1) unfolding hp(1) .
  ultimately show ?thesis using m1(1,8) by blast
qed

lemma rt_smem_realloc_ok:
  assumes "smem_inv m l" "smem_valid m s" "(p, n) \<in> set (live 0 l)" "0 < newsize" "newsize \<le> 2 ^ 32 - 4"
  shows "let k = 4 * ((newsize + 3) div 4); r = rt_smem_realloc (Some (heap_ptr m + p + 12)) newsize m s in
    if k \<le> mem_size_aligned m \<and> (n = k + 12 \<or> k + 36 < n \<or> (\<exists>f. (f, False) \<in> set l \<and> max 12 k + 12 \<le> f)) then
      \<exists>q m' l' n'. r = Inr (Some (heap_ptr m + q + 12), m') \<and> moved m l p n k m' l' q n'
        \<and> (n = k + 12 \<or> k + 36 < n \<longrightarrow> q = p)
    else r = Inr (None, m)"
proof -
  define k where "k = 4 * ((newsize + 3) div 4)"
  have k: "0 < k" "k mod 4 = 0" "k \<le> 2 ^ 32 - 4" using assms(4,5) unfolding k_def by simp_all
  note e = rt_smem_realloc_entry [OF assms k_def]
  let ?r = "rt_smem_realloc (Some (heap_ptr m + p + 12)) newsize m s"
  let ?P = "\<exists>q m' l' n'. ?r = Inr (Some (heap_ptr m + q + 12), m') \<and> moved m l p n k m' l' q n'
        \<and> (n = k + 12 \<or> k + 36 < n \<longrightarrow> q = p)"
  consider (big) "mem_size_aligned m < k" | (same) "k \<le> mem_size_aligned m" "n = k + 12"
    | (cut) "k \<le> mem_size_aligned m" "k + 36 < n"
    | (copy) "k \<le> mem_size_aligned m" "n \<noteq> k + 12" "\<not> k + 36 < n" "first_fit (max 12 k) 0 l \<noteq> None"
    | (full) "k \<le> mem_size_aligned m" "n \<noteq> k + 12" "\<not> k + 36 < n" "first_fit (max 12 k) 0 l = None"
    by linarith
  then have "if k \<le> mem_size_aligned m \<and> (n = k + 12 \<or> k + 36 < n \<or> first_fit (max 12 k) 0 l \<noteq> None) then ?P
    else ?r = Inr (None, m)"
  proof cases
    case big
    then show ?thesis using e by simp
  next
    case same
    then have "moved m l p n k m l p n" using moved_stay [OF assms(1)] assms(3) by simp
    then have ?P using e same by auto
    then show ?thesis using same by simp
  next
    case cut
    obtain m' l' where m': "plug_holes (p + 12 + k) (let ma = smem_shrink k p (m\<lparr>mem_used := mem_used m - (n - 12 - k)\<rparr>)
        in if p + 12 + k < lfree ma then ma\<lparr>lfree := p + 12 + k\<rparr> else ma) = Inr m'" "moved m l p n k m' l' p (k + 12)"
      using moved_shrink [OF assms(1,3) cut(2) k(1,2) refl refl] unfolding Let_def by blast
    have "heap_ptr m' = heap_ptr m" using m'(2) by (simp add: moved_def)
    then have "?r = Inr (Some (heap_ptr m + p + 12), m')"
      unfolding e using cut m'(1) by (simp only: Let_def not_less if_True if_False bind_res_simps) simp
    then have ?P using m'(2) by blast
    then show ?thesis using cut by simp
  next
    case copy
    obtain q m1 m' l' n' where c: "rt_smem_alloc k m s = Inr (Some (heap_ptr m + q + 12), m1)" "heap_ptr m1 = heap_ptr m"
      "rt_smem_free (Some (heap_ptr m + p + 12)) (heap_copy (q + 12) (p + 12) (min (n - 12) k) m1) s = Inr m'"
      "moved m l p n k m' l' q n'"
      using moved_copy [OF assms(1-3) k copy(4)] by blast
    have "heap_ptr m + p + 12 - heap_ptr m = p + 12" "heap_ptr m + q + 12 - heap_ptr m = q + 12" by simp_all
    then have "?r = Inr (Some (heap_ptr m + q + 12), m')" using e copy c(1-3) by simp
    then have ?P using c(4) copy by blast
    then show ?thesis using copy by simp
  next
    case full
    have kk: "max 12 (4 * ((k + 3) div 4)) = max 12 k" using k(2) by auto
    have "rt_smem_alloc k m s = Inr (None, m)"
      using rt_smem_alloc_ok [OF assms(1,2) k(1,3)] full(4) unfolding Let_def kk by simp
    then show ?thesis using e full by simp
  qed
  then show ?thesis unfolding Let_def k_def live_free_fits .
qed

text \<open>C33: reallocation.  For a used block \<open>(p, n)\<close> and a request that rounds up to
  \<open>k\<close> bytes, \<^verbatim>\<open>rt_smem_realloc\<close> never faults.  It succeeds exactly when the
  block already has this size, when it can be cut, or when first fit finds another block; then the result
  holds the old data as far as it fits, the heap represents the new layout and no other block was
  touched; a block that has the size or is cut stays where it is.  Otherwise it returns NULL and changes
  nothing, also when the request is a little smaller than the block.\<close>

theorem rt_smem_realloc_correct:
  assumes "smem_inv m l" "smem_valid m s" "(p, n) \<in> set (live 0 l)" "0 < newsize" "newsize \<le> 2 ^ 32 - 4"
  shows "let k = 4 * ((newsize + 3) div 4); r = rt_smem_realloc (Some (heap_ptr m + p + 12)) newsize m s in
    if k \<le> mem_size_aligned m \<and> (n = k + 12 \<or> k + 36 < n \<or> (\<exists>f. (f, False) \<in> set l \<and> max 12 k + 12 \<le> f)) then
      \<exists>q m' l' n'. r = Inr (Some (heap_ptr m + q + 12), m') \<and> moved m l p n k m' l' q n'
        \<and> (n = k + 12 \<or> k + 36 < n \<longrightarrow> q = p)
    else r = Inr (None, m)"
  by (rule rt_smem_realloc_ok [OF assms])

section \<open>Requests that wrap\<close>

text \<open>C34: a request within three bytes of the largest 32-bit number is rounded up to zero, so
  \<^verbatim>\<open>rt_smem_alloc\<close> does not refuse it: it hands out a block with room for fewer than
  36 bytes.\<close>

theorem rt_smem_alloc_wraps:
  assumes "smem_inv m l" "smem_valid m s" "2 ^ 32 - 4 < sz" "sz < 2 ^ 32"
    and "(f, False) \<in> set l" "24 \<le> f"
  shows "\<exists>p m' l' n. rt_smem_alloc sz m s = Inr (Some (heap_ptr m + p + 12), m') \<and> smem_inv m' l'
    \<and> (p, n) \<in> set (live 0 l') \<and> n - 12 < 36 \<and> n - 12 < sz"
proof -
  have "(sz + 3) mod 2 ^ 32 = sz + 3 - 2 ^ 32" using assms(3,4) by (simp add: mod_if)
  then have "align4 sz = 0" using assms(3,4) by (simp add: align4_eq)
  then have k: "request sz = 12" by (simp add: request_def)
  have sz0: "0 < sz" using assms(3) by simp
  obtain p l' where ff: "first_fit 12 0 l = Some (p, l')"
    using live_free_fits [of l 12] assms(5,6) by fastforce
  obtain us n vs where b: "l = us @ (n, False) # vs" "p = tot us" "12 + 12 \<le> n" "l' = us @ carve 12 n @ vs"
    using first_fit_Some [OF ff] by auto
  obtain m' where m': "rt_smem_alloc sz m s = Inr (Some (heap_ptr m + p + 12), m')" "smem_inv m' l'"
    using rt_smem_alloc_step [OF assms(1,2) sz0] ff unfolding k by auto
  have iu: "smem_inv m (us @ (n, False) # vs)" using assms(1) b(1) by simp
  note bl = raw_block [OF invD(22) [OF iu] b(2)]
  have "(12::nat) mod 4 = 0" by simp
  note cs = carve_sizes [OF b(3) _ this bl(6,5), simplified]
  let ?n = "if 48 \<le> n then 24 else n"
  have "(p, ?n) \<in> set (live 0 l')" using b cs(4) by simp
  moreover have "?n - 12 < 36 \<and> ?n - 12 < sz" using assms(3) by auto
  ultimately show ?thesis using m' by blast
qed

section \<open>Every history\<close>

text \<open>The clients own the addresses they were given; they write their own blocks and give back only
  what they own.\<close>

definition span_of :: "nat \<times> nat \<Rightarrow> nat set" where
  "span_of b = {fst b ..< fst b + snd b}"

inductive smem_reach :: "kernel \<Rightarrow> smem \<Rightarrow> smem \<Rightarrow> (nat \<times> nat) set \<Rightarrow> bool" for s m0 where
  start: "smem_reach s m0 m0 {}"
| alloc: "smem_reach s m0 m own \<Longrightarrow> 0 < sz \<Longrightarrow> sz \<le> 2 ^ 32 - 4 \<Longrightarrow> rt_smem_alloc sz m s = Inr (Some a, m')
    \<Longrightarrow> smem_reach s m0 m' (insert (a, sz) own)"
| free: "smem_reach s m0 m own \<Longrightarrow> (a, sz) \<in> own \<Longrightarrow> rt_smem_free (Some a) m s = Inr m'
    \<Longrightarrow> smem_reach s m0 m' (own - {(a, sz)})"
| realloc: "smem_reach s m0 m own \<Longrightarrow> (a, sz) \<in> own \<Longrightarrow> 0 < sz' \<Longrightarrow> sz' \<le> 2 ^ 32 - 4
    \<Longrightarrow> rt_smem_realloc (Some a) sz' m s = Inr (Some b, m') \<Longrightarrow> smem_reach s m0 m' (insert (b, sz') (own - {(a, sz)}))"
| store: "smem_reach s m0 m own \<Longrightarrow> (a, sz) \<in> own \<Longrightarrow> (\<forall>w. h w \<noteq> heap m w \<longrightarrow> heap_ptr m + w \<in> span_of (a, sz))
    \<Longrightarrow> smem_reach s m0 (m\<lparr>heap := h\<rparr>) own"

text \<open>Every owned address is the data of a block of its own.\<close>

definition owns :: "smem \<Rightarrow> layout \<Rightarrow> (nat \<times> nat) set \<Rightarrow> bool" where
  "owns m l own \<longleftrightarrow> inj_on fst own \<and> fst ` own = (\<lambda>b. heap_ptr m + fst b + 12) ` set (live 0 l)
     \<and> (\<forall>(a, sz) \<in> own. \<exists>p n. (p, n) \<in> set (live 0 l) \<and> a = heap_ptr m + p + 12 \<and> sz + 12 \<le> n)"

lemma live_inj: "good_sizes l \<Longrightarrow> (p, n) \<in> set (live 0 l) \<Longrightarrow> (p, k) \<in> set (live 0 l) \<Longrightarrow> n = k"
  using live_disjoint [of p n 0 l p k] live_pos [of l p n 0] live_pos [of l p k 0] by auto

lemma ownsE:
  assumes "owns m l own" "(a, sz) \<in> own"
  obtains p n where "(p, n) \<in> set (live 0 l)" "a = heap_ptr m + p + 12" "sz + 12 \<le> n"
  using assms unfolding owns_def by blast

lemma owns_remove:
  assumes ow: "owns m l own" "(a, sz) \<in> own" and a: "a = heap_ptr m + p + 12" and g: "good_sizes l" "(p, n) \<in> set (live 0 l)"
    and m': "set (live 0 l') = set (live 0 l) - {(p, n)}" "heap_ptr m' = heap_ptr m"
  shows "owns m' l' (own - {(a, sz)})"
proof -
  have i: "inj_on fst own" and f: "fst ` own = (\<lambda>b. heap_ptr m + fst b + 12) ` set (live 0 l)"
    using ow(1) by (auto simp: owns_def)
  have "fst ` (own - {(a, sz)}) = fst ` own - {a}"
    using inj_on_image_set_diff [OF i, of own "{(a, sz)}"] ow(2) by simp
  also have "\<dots> = (\<lambda>b. heap_ptr m + fst b + 12) ` (set (live 0 l) - {(p, n)})"
  proof -
    have "inj_on (\<lambda>b. heap_ptr m + fst b + 12) (set (live 0 l))"
      by (rule inj_onI) (auto dest: live_inj [OF g(1)])
    from inj_on_image_set_diff [OF this, of "set (live 0 l)" "{(p, n)}"] show ?thesis
      unfolding f using g(2) a by simp
  qed
  finally have im: "fst ` (own - {(a, sz)}) = (\<lambda>b. heap_ptr m' + fst b + 12) ` set (live 0 l')" using m' by simp
  have "\<exists>q k. (q, k) \<in> set (live 0 l') \<and> b = heap_ptr m' + q + 12 \<and> z + 12 \<le> k" if "(b, z) \<in> own - {(a, sz)}" for b z
  proof -
    obtain q k where q: "(q, k) \<in> set (live 0 l)" "b = heap_ptr m + q + 12" "z + 12 \<le> k"
      using ownsE [OF ow(1)] \<open>(b, z) \<in> own - {(a, sz)}\<close> by blast
    have "b \<noteq> a" using inj_onD [OF i, of "(b, z)" "(a, sz)"] that ow(2) by auto
    then have "(q, k) \<noteq> (p, n)" using q(2) a by auto
    then show ?thesis using q m' by auto
  qed
  moreover have "inj_on fst (own - {(a, sz)})" using i by (rule inj_on_subset) blast
  ultimately show ?thesis unfolding owns_def using im by blast
qed

lemma owns_insert:
  assumes ow: "owns m l own" and n: "(q, n) \<notin> set (live 0 l)" "sz + 12 \<le> n" "good_sizes l'"
    and m': "set (live 0 l') = insert (q, n) (set (live 0 l))" "heap_ptr m' = heap_ptr m"
  shows "owns m' l' (insert (heap_ptr m + q + 12, sz) own)"
proof -
  let ?a = "heap_ptr m + q + 12"
  have f: "fst ` own = (\<lambda>b. heap_ptr m + fst b + 12) ` set (live 0 l)" and i: "inj_on fst own"
    using ow by (auto simp: owns_def)
  have "?a \<notin> fst ` own"
  proof
    assume "?a \<in> fst ` own"
    then obtain k where "(q, k) \<in> set (live 0 l)" unfolding f by auto
    then have "k = n" using live_inj [OF n(3), of q k n] m'(1) by auto
    then show False using \<open>(q, k) \<in> set (live 0 l)\<close> n(1) by simp
  qed
  then have "inj_on fst (insert (?a, sz) own)" using i by (auto simp: inj_on_insert)
  moreover have "fst ` insert (?a, sz) own = (\<lambda>b. heap_ptr m' + fst b + 12) ` set (live 0 l')"
    using f m' by simp
  moreover have "\<exists>p k. (p, k) \<in> set (live 0 l') \<and> b = heap_ptr m' + p + 12 \<and> z + 12 \<le> k"
    if bz: "(b, z) \<in> insert (?a, sz) own" for b z
  proof (cases "(b, z) = (?a, sz)")
    case True
    then show ?thesis using m' n(2) by auto
  next
    case False
    then have "(b, z) \<in> own" using bz by blast
    then obtain p k where "(p, k) \<in> set (live 0 l)" "b = heap_ptr m + p + 12" "z + 12 \<le> k"
      using ownsE [OF ow] by blast
    then show ?thesis using m' by auto
  qed
  ultimately show ?thesis unfolding owns_def by blast
qed

lemma smem_reach_inv:
  assumes "smem_reach s m0 m own" "smem_inv m0 [(heap_end m0, False)]" "smem_valid m0 s"
  shows "\<exists>l. smem_inv m l \<and> smem_valid m s \<and> owns m l own \<and> heap_ptr m = heap_ptr m0 \<and> mem_size_aligned m = mem_size_aligned m0"
  using assms
proof (induction rule: smem_reach.induct)
  case start
  then show ?case by (intro exI [of _ "[(heap_end m0, False)]"]) (simp add: owns_def)
next
  case (alloc m own sz a m')
  then obtain l where l: "smem_inv m l" "smem_valid m s" "owns m l own" "heap_ptr m = heap_ptr m0"
    "mem_size_aligned m = mem_size_aligned m0" by blast
  let ?k = "max 12 (4 * ((sz + 3) div 4))"
  note ok = rt_smem_alloc_ok [OF l(1,2) alloc.hyps(2,3)]
  obtain p l' where ff: "first_fit ?k 0 l = Some (p, l')"
    using ok alloc.hyps(4) unfolding Let_def by (cases "first_fit ?k 0 l") auto
  obtain n where n: "a = heap_ptr m + p + 12" "smem_inv m' l'" "?k + 12 \<le> n"
    "set (live 0 l') = insert (p, n) (set (live 0 l))" "apart p n (set (live 0 l))"
    "smem_id m' = smem_id m" "heap_ptr m' = heap_ptr m" "mem_size_aligned m' = mem_size_aligned m"
    using ok alloc.hyps(4) ff unfolding Let_def by auto
  have "(p, n) \<notin> set (live 0 l)" using n(3,5) by (fastforce simp: apart_def)
  moreover have "sz + 12 \<le> n" using n(3) by linarith
  ultimately have "owns m' l' (insert (a, sz) own)"
    unfolding n(1) using owns_insert [OF l(3) _ _ invD(8) [OF n(2)] n(4,7)] by blast
  moreover have "smem_valid m' s" using l(2) n(6) by (simp add: smem_valid_def)
  ultimately show ?case using n(2,7,8) l(4,5) by auto
next
  case (free m own a sz m')
  then obtain l where l: "smem_inv m l" "smem_valid m s" "owns m l own" "heap_ptr m = heap_ptr m0"
    "mem_size_aligned m = mem_size_aligned m0" by blast
  obtain p n where p: "(p, n) \<in> set (live 0 l)" "a = heap_ptr m + p + 12" using ownsE [OF l(3) free.hyps(2)] by blast
  obtain l' where l': "smem_inv m' l'" "set (live 0 l') = set (live 0 l) - {(p, n)}" "heap_ptr m' = heap_ptr m"
    "mem_size_aligned m' = mem_size_aligned m" "smem_id m' = smem_id m"
    using rt_smem_free_ok [OF l(1,2) p(1)] free.hyps(3) p(2) by auto
  have "owns m' l' (own - {(a, sz)})"
    by (rule owns_remove [OF l(3) free.hyps(2) p(2) invD(8) [OF l(1)] p(1) l'(2,3)])
  moreover have "smem_valid m' s" using l(2) l'(5) by (simp add: smem_valid_def)
  ultimately show ?case using l' l(4,5) by auto
next
  case (realloc m own a sz sz' b m')
  then obtain l where l: "smem_inv m l" "smem_valid m s" "owns m l own" "heap_ptr m = heap_ptr m0"
    "mem_size_aligned m = mem_size_aligned m0" by blast
  obtain p n where p: "(p, n) \<in> set (live 0 l)" "a = heap_ptr m + p + 12" using ownsE [OF l(3) realloc.hyps(2)] by blast
  let ?k = "4 * ((sz' + 3) div 4)"
  obtain q l' n' where q: "b = heap_ptr m + q + 12" "moved m l p n ?k m' l' q n'"
    using rt_smem_realloc_ok [OF l(1,2) p(1) realloc.hyps(3,4)] realloc.hyps(5) p(2)
    by (auto simp: Let_def split: if_splits)
  note mv = q(2) [unfolded moved_def]
  obtain j where j: "set (live 0 j) = set (live 0 l) - {(p, n)}" "owns m j (own - {(a, sz)})"
  proof -
    obtain xs ys where x: "l = xs @ (n, True) # ys" "p = tot xs" using live_split [OF p(1)] by auto
    let ?j = "xs @ (n, False) # ys"
    have e: "set (live 0 ?j) = set (live 0 l) - {(p, n)}"
      using live_apart(1) [OF x invD(8) [OF l(1)]] x(2) by simp
    have "owns m ?j (own - {(a, sz)})"
      by (rule owns_remove [OF l(3) realloc.hyps(2) p(2) invD(8) [OF l(1)] p(1) e refl])
    then show thesis using that e by blast
  qed
  have nj: "(q, n') \<notin> set (live 0 j)" "sz' + 12 \<le> n'" "good_sizes l'" "set (live 0 l') = insert (q, n') (set (live 0 j))"
    using mv j(1) invD(8) by (blast, linarith, blast, blast)
  have "owns m' l' (insert (heap_ptr m + q + 12, sz') (own - {(a, sz)}))"
    by (rule owns_insert [OF j(2) nj]) (use mv in blast)
  moreover have "smem_valid m' s" using l(2) mv by (simp add: smem_valid_def)
  moreover have "smem_inv m' l'" "heap_ptr m' = heap_ptr m0" "mem_size_aligned m' = mem_size_aligned m0"
    using mv l(4,5) by simp_all
  ultimately show ?case unfolding q(1) by blast
next
  case (store m own a sz h)
  then obtain l where l: "smem_inv m l" "smem_valid m s" "owns m l own" "heap_ptr m = heap_ptr m0"
    "mem_size_aligned m = mem_size_aligned m0" by blast
  obtain p n where p: "(p, n) \<in> set (live 0 l)" "a = heap_ptr m + p + 12" "sz + 12 \<le> n"
    using ownsE [OF l(3) store.hyps(2)] by blast
  have "smem_inv (m\<lparr>heap := h\<rparr>) l"
  proof (rule smem_user_write [OF l(1)])
    fix w assume "h w \<noteq> heap m w"
    then have "heap_ptr m + w \<in> span_of (a, sz)" using store.hyps(3) by blast
    then have "p + 12 \<le> w \<and> w < p + n" using p(2,3) by (auto simp: span_of_def)
    then show "\<exists>a n. (a, n) \<in> set (live 0 l) \<and> a + 12 \<le> w \<and> w < a + n" using p(1) by blast
  qed
  moreover have "smem_valid (m\<lparr>heap := h\<rparr>) s" using l(2) by (simp add: smem_valid_def)
  moreover have "owns (m\<lparr>heap := h\<rparr>) l own" using l(3) by (simp add: owns_def)
  ultimately show ?case using l(4,5) by auto
qed

text \<open>A heap without used blocks is one free block.\<close>

lemma no_live:
  assumes "smem_inv m l" "live 0 l = []"
  shows "l = [(heap_end m, False)]"
proof -
  have free: "live p l = [] \<Longrightarrow> \<forall>b \<in> set l. \<not> snd b" for p
  proof (induction l arbitrary: p)
    case (Cons b l)
    then show ?case using Cons.IH [of "p + fst b"] by (cases b) (simp split: if_splits)
  qed simp
  have f: "\<forall>b \<in> set l. \<not> snd b" by (rule free [OF assms(2)])
  note d = invD [OF assms(1)]
  show ?thesis
  proof (cases l)
    case Nil
    then show ?thesis using d(3,4) by simp
  next
    case (Cons b k)
    have "k = []" using d(9) f Cons by (cases k) (auto simp: coalesced_def)
    then show ?thesis using Cons d(4) f by (cases b) simp
  qed
qed


section \<open>Witnesses\<close>

text \<open>A heap of 84 bytes at address 0x20000038, its pool at 0x20000000: a used block of 32 bytes,
  then a free one of 52.\<close>

definition demo_heap :: smem where
  "demo_heap = \<lparr>smem_id = 0, self = 0x20000000, heap_ptr = 0x20000038, heap_end = 84, lfree = 32,
     mem_size_aligned = 72, mem_used = 32, mem_max = 32,
     heap = (\<lambda>_. 0)(0 := 0x20000001, 4 := 32, 8 := 0, 32 := 0x20000000, 36 := 84, 40 := 0,
       84 := 0x20000001, 88 := 84, 92 := 84)\<rparr>"

definition demo_pool :: kernel where
  "demo_pool = demo_kernel\<lparr>objs := (objs demo_kernel)(OMemory 0 := \<lparr>obj_name = replicate 8 0,
     obj_type = RT_Object_Class_Memory OR RT_Object_Class_Static, obj_flag = 0\<rparr>)\<rparr>"

lemma demo_heap_inv: "smem_inv demo_heap [(32, True), (52, False)]"
  by (simp add: smem_inv_def smem_raw_def demo_heap_def hdr_def coalesced_def)

lemma demo_pool_valid: "smem_valid demo_heap demo_pool"
  by (simp add: smem_valid_def demo_pool_def demo_heap_def rt_object_get_type_def rt_object_is_systemobject_def)

lemma demo_ff: "first_fit 12 0 [(32, True), (52, False)] = Some (32, [(32, True), (24, True), (28, False)])"
  by (simp add: carve_def)

lemma demo_carve: "carve 12 52 = [(24, True), (28, False)]"
  by (simp add: carve_def)

lemma demo_heap_fields: "heap_ptr demo_heap = 0x20000038" "mem_size_aligned demo_heap = 72" "heap_end demo_heap = 84"
  "mem_used demo_heap = 32"
  by (simp_all add: demo_heap_def)

theorem rt_smem_alloc_correct_witness:
  "\<exists>m'. rt_smem_alloc 10 demo_heap demo_pool = Inr (Some 0x20000064, m')
     \<and> smem_inv m' [(32, True), (24, True), (28, False)]"
  using rt_smem_alloc_correct [OF demo_heap_inv demo_pool_valid, of 10] unfolding Let_def
  by (simp add: demo_carve demo_heap_fields) blast

theorem rt_smem_free_correct_witness:
  "\<exists>m' l'. rt_smem_free (Some 0x20000044) demo_heap demo_pool = Inr m' \<and> smem_inv m' l' \<and> set (live 0 l') = {}"
  using rt_smem_free_correct [OF demo_heap_inv demo_pool_valid, of 0 32]
  by (simp add: demo_heap_fields) blast

theorem rt_smem_realloc_correct_witness:
  "\<exists>q m' l' n'. rt_smem_realloc (Some 0x20000044) 30 demo_heap demo_pool = Inr (Some (0x20000044 + q), m')
     \<and> moved demo_heap [(32, True), (52, False)] 0 32 32 m' l' q n'"
proof -
  have e: "heap_ptr demo_heap + q + 12 = 0x20000044 + q" for q by (simp add: demo_heap_fields)
  have "\<exists>f. (f, False) \<in> set [(32, True), (52::nat, False)] \<and> max 12 32 + 12 \<le> f" by auto
  then show ?thesis
    using rt_smem_realloc_correct [OF demo_heap_inv demo_pool_valid, of 0 32 30]
    unfolding Let_def e by (simp add: demo_heap_fields)
qed

theorem rt_smem_alloc_wraps_witness:
  "\<exists>p m' l' n. rt_smem_alloc (2 ^ 32 - 1) demo_heap demo_pool = Inr (Some (0x20000044 + p), m')
     \<and> (p, n) \<in> set (live 0 l') \<and> n - 12 < 36"
proof -
  have e: "heap_ptr demo_heap + q + 12 = 0x20000044 + q" for q by (simp add: demo_heap_fields)
  show ?thesis
    using rt_smem_alloc_wraps [OF demo_heap_inv demo_pool_valid, of "2 ^ 32 - 1" 52] unfolding e by (simp, blast)
qed

lemma rt_smem_init_correct_example:
  "\<exists>m s'. rt_smem_init 1 [104, 0] 0x20000001 200 (\<lambda>_. 0) demo_kernel = Inr (Some m, s')
     \<and> smem_inv m [(heap_end m, False)] \<and> 0x20000039 \<le> heap_ptr m"
proof -
  have "schedulable demo_kernel"
    using demo_sched_inv by (auto simp: schedulable_def demo_cur demo_stat)
  then obtain s' where s': "rt_object_init (OMemory 1) RT_Object_Class_Memory [104, 0] demo_kernel = Inr s'"
    using object_init_runs [of demo_kernel RT_Object_Class_Memory "OMemory 1" "[104, 0]"]
    by (auto simp: rt_object_get_information_def) (auto simp: demo_kernel_def)
  show ?thesis
    using rt_smem_init_correct [of "0x20000001" 200, OF _ _ _ s'] by simp blast
qed

definition demo_empty :: smem where
  "demo_empty = demo_heap\<lparr>lfree := 0, mem_used := 0,
     heap := (\<lambda>_. 0)(0 := 0x20000000, 4 := 84, 8 := 0, 84 := 0x20000001, 88 := 84, 92 := 84)\<rparr>"


end
