(* ===== verification/RingBuffer.thy ===== *)
theory RingBuffer
  imports Ring KState
begin

text \<open>
  The byte ring buffer of the device drivers,
  \<^verbatim>\<open>components/drivers/ipc/ringbuffer.c\<close>.  The pool is a list of
  \<open>buffer_size\<close> bytes, the mirror bits are booleans, and the 15-bit indices are natural
  numbers, which the invariant keeps below \<open>buffer_size\<close>, so that the differences the
  code forms are never negative.
\<close>

section \<open>Operations\<close>

record ringbuffer =
  buffer_ptr :: "u8 list"
  read_mirror :: bool
  read_index :: nat
  write_mirror :: bool
  write_index :: nat
  buffer_size :: nat

datatype rb_state = RT_RINGBUFFER_EMPTY | RT_RINGBUFFER_FULL | RT_RINGBUFFER_HALFFULL

definition rt_ringbuffer_status :: "ringbuffer \<Rightarrow> rb_state" where
  "rt_ringbuffer_status rb =
     (if read_index rb = write_index rb then
        if read_mirror rb = write_mirror rb then RT_RINGBUFFER_EMPTY else RT_RINGBUFFER_FULL
      else RT_RINGBUFFER_HALFFULL)"

definition rt_ringbuffer_data_len :: "ringbuffer \<Rightarrow> nat" where
  "rt_ringbuffer_data_len rb =
     (case rt_ringbuffer_status rb of
        RT_RINGBUFFER_EMPTY \<Rightarrow> 0
      | RT_RINGBUFFER_FULL \<Rightarrow> buffer_size rb
      | RT_RINGBUFFER_HALFFULL \<Rightarrow>
          let wi = write_index rb; ri = read_index rb
          in if wi > ri then wi - ri else buffer_size rb - (ri - wi))"

definition rt_ringbuffer_space_len :: "ringbuffer \<Rightarrow> nat" where
  "rt_ringbuffer_space_len rb = buffer_size rb - rt_ringbuffer_data_len rb"

definition rt_ringbuffer_init :: "u8 list \<Rightarrow> int \<Rightarrow> ringbuffer res" where
  "rt_ringbuffer_init pool sz =
     assert_then (sz > 0) (Inr \<lparr>buffer_ptr = pool, read_mirror = False, read_index = 0,
       write_mirror = False, write_index = 0, buffer_size = nat sz - nat sz mod 4\<rparr>)"

definition rt_ringbuffer_reset :: "ringbuffer \<Rightarrow> ringbuffer" where
  "rt_ringbuffer_reset rb = rb\<lparr>read_mirror := False, read_index := 0,
     write_mirror := False, write_index := 0\<rparr>"

text \<open>The pool of \<^verbatim>\<open>rt_ringbuffer_create\<close> is what the heap returns: None when an
  allocation fails.\<close>

definition rt_ringbuffer_create :: "u8 list option \<Rightarrow> nat \<Rightarrow> ringbuffer option res" where
  "rt_ringbuffer_create pool sz =
     assert_then (sz > 0) (case pool of None \<Rightarrow> Inr None
       | Some p \<Rightarrow> bind_res (rt_ringbuffer_init p (int (sz - sz mod 4))) (\<lambda>rb. Inr (Some rb)))"

text \<open>The part the two block writes share: copy \<open>n\<close> bytes and move the write index.\<close>

definition rb_write :: "ringbuffer \<Rightarrow> u8 list \<Rightarrow> nat \<Rightarrow> ringbuffer" where
  "rb_write rb ptr n =
     (if buffer_size rb - write_index rb > n then
        rb\<lparr>buffer_ptr := memcpy_at (buffer_ptr rb) (write_index rb) ptr 0 n,
           write_index := write_index rb + n\<rparr>
      else
        let m = buffer_size rb - write_index rb
        in rb\<lparr>buffer_ptr := memcpy_at (memcpy_at (buffer_ptr rb) (write_index rb) ptr 0 m) 0 ptr m (n - m),
              write_mirror := \<not> write_mirror rb,
              write_index := n - m\<rparr>)"

definition rt_ringbuffer_put :: "ringbuffer \<Rightarrow> u8 list \<Rightarrow> nat \<Rightarrow> nat \<times> ringbuffer" where
  "rt_ringbuffer_put rb ptr n =
     (let sz = rt_ringbuffer_space_len rb
      in if sz = 0 then (0, rb)
         else let n = (if sz < n then sz else n) in (n, rb_write rb ptr n))"

definition rt_ringbuffer_put_force :: "ringbuffer \<Rightarrow> u8 list \<Rightarrow> nat \<Rightarrow> nat \<times> ringbuffer" where
  "rt_ringbuffer_put_force rb ptr n =
     (let space_length = rt_ringbuffer_space_len rb;
          ptr = (if n > buffer_size rb then drop (n - buffer_size rb) ptr else ptr);
          n = (if n > buffer_size rb then buffer_size rb else n);
          rb' = rb_write rb ptr n
      in (n, if n > space_length then
               if buffer_size rb - write_index rb > n then rb'\<lparr>read_index := write_index rb'\<rparr>
               else rb'\<lparr>read_mirror := (if write_index rb' \<le> read_index rb' then \<not> read_mirror rb'
                                       else read_mirror rb'),
                        read_index := write_index rb'\<rparr>
             else rb'))"

definition rt_ringbuffer_get :: "ringbuffer \<Rightarrow> u8 list \<Rightarrow> nat \<Rightarrow> nat \<times> u8 list \<times> ringbuffer" where
  "rt_ringbuffer_get rb ptr n =
     (let sz = rt_ringbuffer_data_len rb
      in if sz = 0 then (0, ptr, rb)
         else
           let n = (if sz < n then sz else n); m = buffer_size rb - read_index rb
           in if m > n then
                (n, memcpy_at ptr 0 (buffer_ptr rb) (read_index rb) n, rb\<lparr>read_index := read_index rb + n\<rparr>)
              else
                (n, memcpy_at (memcpy_at ptr 0 (buffer_ptr rb) (read_index rb) m) m (buffer_ptr rb) 0 (n - m),
                 rb\<lparr>read_mirror := \<not> read_mirror rb, read_index := n - m\<rparr>))"

text \<open>\<^verbatim>\<open>rt_ringbuffer_peek\<close> hands out a pointer into the pool (here its offset) and
  consumes what can be read there without going round the end.\<close>

definition rt_ringbuffer_peek :: "ringbuffer \<Rightarrow> nat \<times> nat option \<times> ringbuffer" where
  "rt_ringbuffer_peek rb =
     (let sz = rt_ringbuffer_data_len rb
      in if sz = 0 then (0, None, rb)
         else if buffer_size rb - read_index rb > sz
           then (sz, Some (read_index rb), rb\<lparr>read_index := read_index rb + sz\<rparr>)
         else (buffer_size rb - read_index rb, Some (read_index rb),
               rb\<lparr>read_mirror := \<not> read_mirror rb, read_index := 0\<rparr>))"

definition rt_ringbuffer_putchar :: "ringbuffer \<Rightarrow> u8 \<Rightarrow> nat \<times> ringbuffer" where
  "rt_ringbuffer_putchar rb ch =
     (if rt_ringbuffer_space_len rb = 0 then (0, rb)
      else
        let rb = rb\<lparr>buffer_ptr := (buffer_ptr rb)[write_index rb := ch]\<rparr>
        in (1, if write_index rb = buffer_size rb - 1
               then rb\<lparr>write_mirror := \<not> write_mirror rb, write_index := 0\<rparr>
               else rb\<lparr>write_index := write_index rb + 1\<rparr>))"

definition rt_ringbuffer_putchar_force :: "ringbuffer \<Rightarrow> u8 \<Rightarrow> nat \<times> ringbuffer" where
  "rt_ringbuffer_putchar_force rb ch =
     (let old_state = rt_ringbuffer_status rb;
          rb = rb\<lparr>buffer_ptr := (buffer_ptr rb)[write_index rb := ch]\<rparr>
      in (1, if write_index rb = buffer_size rb - 1 then
               let rb = rb\<lparr>write_mirror := \<not> write_mirror rb, write_index := 0\<rparr>
               in if old_state = RT_RINGBUFFER_FULL
                  then rb\<lparr>read_mirror := \<not> read_mirror rb, read_index := write_index rb\<rparr> else rb
             else
               let rb = rb\<lparr>write_index := write_index rb + 1\<rparr>
               in if old_state = RT_RINGBUFFER_FULL then rb\<lparr>read_index := write_index rb\<rparr> else rb))"

definition rt_ringbuffer_getchar :: "ringbuffer \<Rightarrow> u8 option \<times> ringbuffer" where
  "rt_ringbuffer_getchar rb =
     (if rt_ringbuffer_data_len rb = 0 then (None, rb)
      else (Some (buffer_ptr rb ! read_index rb),
            if read_index rb = buffer_size rb - 1
            then rb\<lparr>read_mirror := \<not> read_mirror rb, read_index := 0\<rparr>
            else rb\<lparr>read_index := read_index rb + 1\<rparr>))"

section \<open>The invariant and the bytes held\<close>

definition rb_inv :: "ringbuffer \<Rightarrow> bool" where
  "rb_inv rb \<longleftrightarrow> length (buffer_ptr rb) = buffer_size rb \<and> 0 < buffer_size rb \<and> buffer_size rb < 2 ^ 15
     \<and> read_index rb < buffer_size rb \<and> write_index rb < buffer_size rb
     \<and> (if read_mirror rb = write_mirror rb then read_index rb \<le> write_index rb
        else write_index rb \<le> read_index rb)"

definition rb_data :: "ringbuffer \<Rightarrow> u8 list" where
  "rb_data rb = ring_seg (buffer_ptr rb) (read_index rb) (rt_ringbuffer_data_len rb)"

lemma data_len_eq:
  assumes "rb_inv rb"
  shows "rt_ringbuffer_data_len rb = (if read_mirror rb = write_mirror rb
      then write_index rb - read_index rb else buffer_size rb - read_index rb + write_index rb)"
  using assms by (cases "read_mirror rb"; cases "write_mirror rb")
    (auto simp: rb_inv_def rt_ringbuffer_data_len_def rt_ringbuffer_status_def Let_def)

lemma rb_len:
  assumes "rb_inv rb"
  shows "rt_ringbuffer_data_len rb \<le> buffer_size rb"
    "write_index rb = (read_index rb + rt_ringbuffer_data_len rb) mod buffer_size rb"
    "rt_ringbuffer_space_len rb + rt_ringbuffer_data_len rb = buffer_size rb"
proof -
  show l: "rt_ringbuffer_data_len rb \<le> buffer_size rb"
    using assms by (auto simp: data_len_eq rb_inv_def)
  show "write_index rb = (read_index rb + rt_ringbuffer_data_len rb) mod buffer_size rb"
  proof (cases "read_mirror rb = write_mirror rb")
    case False
    then have "read_index rb + rt_ringbuffer_data_len rb = write_index rb + buffer_size rb"
      using assms by (simp add: data_len_eq) (simp add: rb_inv_def)
    then show ?thesis using assms by (simp add: rb_inv_def)
  qed (use assms in \<open>simp add: data_len_eq, simp add: rb_inv_def\<close>)
  show "rt_ringbuffer_space_len rb + rt_ringbuffer_data_len rb = buffer_size rb"
    using l by (simp add: rt_ringbuffer_space_len_def)
qed

lemma length_rb_data [simp]: "length (rb_data rb) = rt_ringbuffer_data_len rb"
  by (simp add: rb_data_def)

lemma data_len_index:
  "rb_inv rb \<Longrightarrow> rb_inv rb' \<Longrightarrow> buffer_size rb' = buffer_size rb \<Longrightarrow> read_index rb' = read_index rb \<Longrightarrow>
   read_mirror rb' = read_mirror rb \<Longrightarrow> write_index rb' = write_index rb \<Longrightarrow> write_mirror rb' = write_mirror rb \<Longrightarrow>
   rt_ringbuffer_data_len rb' = rt_ringbuffer_data_len rb"
  by (simp add: data_len_eq)

section \<open>Refinement of a list\<close>

text \<open>A block write of at most the whole buffer is one circular write.\<close>

lemma rb_write_buffer:
  assumes "rb_inv rb" "n \<le> buffer_size rb" "n \<le> length ptr"
  shows "buffer_ptr (rb_write rb ptr n) = ring_write (buffer_ptr rb) (write_index rb) (take n ptr)"
proof -
  have "length (buffer_ptr rb) = buffer_size rb" "write_index rb < buffer_size rb"
    using assms(1) by (simp_all add: rb_inv_def)
  then show ?thesis
    using assms ring_write_flat [of "write_index rb" n "buffer_ptr rb" ptr]
      ring_write_wrap [of "write_index rb" "buffer_ptr rb" n ptr]
    by (auto simp: rb_write_def Let_def)
qed

lemma rb_write_fields:
  "read_mirror (rb_write rb ptr n) = read_mirror rb" "read_index (rb_write rb ptr n) = read_index rb"
  "buffer_size (rb_write rb ptr n) = buffer_size rb"
  "write_mirror (rb_write rb ptr n) =
     (if buffer_size rb - write_index rb > n then write_mirror rb else \<not> write_mirror rb)"
  "write_index (rb_write rb ptr n) =
     (if buffer_size rb - write_index rb > n then write_index rb + n
      else n - (buffer_size rb - write_index rb))"
  by (simp_all add: rb_write_def Let_def)

lemma rb_write_ok:
  assumes inv: "rb_inv rb" and n: "n \<le> rt_ringbuffer_space_len rb" "n \<le> length ptr"
  shows "rb_inv (rb_write rb ptr n) \<and> rb_data (rb_write rb ptr n) = rb_data rb @ take n ptr"
proof -
  let ?rb = "rb_write rb ptr n"
  have sp: "rt_ringbuffer_space_len rb = (if read_mirror rb = write_mirror rb
      then buffer_size rb - (write_index rb - read_index rb) else read_index rb - write_index rb)"
    using inv by (auto simp: rt_ringbuffer_space_len_def data_len_eq rb_inv_def)
  have nN: "n \<le> buffer_size rb" using n rb_len(3) [OF inv] by linarith
  have b: "buffer_ptr ?rb = ring_write (buffer_ptr rb) (write_index rb) (take n ptr)"
    by (rule rb_write_buffer [OF inv nN n(2)])
  have i: "rb_inv ?rb"
    using inv n(1) sp unfolding rb_inv_def rb_write_fields b by (auto split: if_splits)
  have l: "rt_ringbuffer_data_len ?rb = rt_ringbuffer_data_len rb + n"
    unfolding data_len_eq [OF i] data_len_eq [OF inv] rb_write_fields
    using inv n(1) sp by (auto simp: rb_inv_def split: if_splits)
  have len: "length (buffer_ptr rb) = buffer_size rb" using inv by (simp add: rb_inv_def)
  have "rb_data ?rb = rb_data rb @ take n ptr"
    using ring_seg_write [of "read_index rb" "buffer_ptr rb" "rt_ringbuffer_data_len rb" "take n ptr"]
      rb_len [OF inv] inv n
    by (simp add: rb_data_def l b rb_write_fields len rb_inv_def)
  with i show ?thesis by simp
qed

lemma rt_ringbuffer_put_ok:
  assumes "rb_inv rb" "n \<le> length ptr"
  defines "k \<equiv> min n (rt_ringbuffer_space_len rb)"
  shows "fst (rt_ringbuffer_put rb ptr n) = k \<and> rb_inv (snd (rt_ringbuffer_put rb ptr n))
    \<and> rb_data (snd (rt_ringbuffer_put rb ptr n)) = rb_data rb @ take k ptr
    \<and> buffer_size (snd (rt_ringbuffer_put rb ptr n)) = buffer_size rb"
proof (cases "rt_ringbuffer_space_len rb = 0")
  case True
  then show ?thesis using assms by (simp add: rt_ringbuffer_put_def)
next
  case False
  have "(if rt_ringbuffer_space_len rb < n then rt_ringbuffer_space_len rb else n) = k"
    by (simp add: k_def)
  then show ?thesis
    using False rb_write_ok [OF assms(1), of k ptr] assms(2)
    by (simp add: rt_ringbuffer_put_def Let_def k_def rb_write_fields)
qed

text \<open>Reading.\<close>

lemma rb_consume:
  assumes inv: "rb_inv rb" and n: "n \<le> rt_ringbuffer_data_len rb"
  defines "rb' \<equiv> (if buffer_size rb - read_index rb > n then rb\<lparr>read_index := read_index rb + n\<rparr>
     else rb\<lparr>read_mirror := \<not> read_mirror rb, read_index := n - (buffer_size rb - read_index rb)\<rparr>)"
  shows "rb_inv rb' \<and> rb_data rb' = drop n (rb_data rb)"
proof -
  have i: "rb_inv rb'"
    using inv n unfolding data_len_eq [OF inv] by (auto simp: rb_inv_def rb'_def split: if_splits)
  have l: "rt_ringbuffer_data_len rb' = rt_ringbuffer_data_len rb - n"
    using inv n i unfolding data_len_eq [OF i] data_len_eq [OF inv]
    by (auto simp: rb_inv_def rb'_def split: if_splits)
  have len: "length (buffer_ptr rb) = buffer_size rb" using inv by (simp add: rb_inv_def)
  have "read_index rb' = (read_index rb + n) mod length (buffer_ptr rb)"
  proof (cases "buffer_size rb - read_index rb > n")
    case True
    then show ?thesis using inv by (simp add: rb'_def len rb_inv_def)
  next
    case False
    then have e: "read_index rb + n = (n - (buffer_size rb - read_index rb)) + buffer_size rb"
      using inv by (simp add: rb_inv_def)
    have "n - (buffer_size rb - read_index rb) < buffer_size rb"
      using i False by (simp add: rb_inv_def rb'_def)
    then have "(read_index rb + n) mod buffer_size rb = n - (buffer_size rb - read_index rb)"
      unfolding e by simp
    then show ?thesis using False by (simp add: rb'_def len)
  qed
  moreover have "buffer_ptr rb' = buffer_ptr rb" by (simp add: rb'_def)
  ultimately have "rb_data rb' = drop n (rb_data rb)"
    using n by (simp add: rb_data_def l drop_ring_seg)
  with i show ?thesis by simp
qed

lemma rb_copy_out:
  assumes inv: "rb_inv rb" and n: "n \<le> rt_ringbuffer_data_len rb" "n \<le> length ptr"
  defines "m \<equiv> buffer_size rb - read_index rb"
  shows "(if m > n then memcpy_at ptr 0 (buffer_ptr rb) (read_index rb) n
     else memcpy_at (memcpy_at ptr 0 (buffer_ptr rb) (read_index rb) m) m (buffer_ptr rb) 0 (n - m))
     = take n (rb_data rb) @ drop n ptr"
proof -
  have len: "length (buffer_ptr rb) = buffer_size rb" "read_index rb < buffer_size rb"
    using inv by (simp_all add: rb_inv_def)
  have nN: "n \<le> buffer_size rb" using n rb_len(1) [OF inv] by linarith
  have tk: "take n (rb_data rb) = ring_seg (buffer_ptr rb) (read_index rb) n"
    using n by (simp add: rb_data_def take_ring_seg)
  show ?thesis
  proof (cases "m > n")
    case True
    then show ?thesis
      using len by (simp add: tk memcpy_at_def m_def ring_seg_flat)
  next
    case False
    let ?b = "buffer_ptr rb"
    have "ring_seg ?b (read_index rb) n = ring_seg ?b (read_index rb) m @ ring_seg ?b (read_index rb + m) (n - m)"
      using ring_seg_append [of ?b "read_index rb" m "n - m"] False by simp
    moreover have "ring_seg ?b (read_index rb + m) (n - m) = ring_seg ?b 0 (n - m)"
      using ring_seg_mod [of ?b "read_index rb + m" "n - m"] len by (simp add: m_def)
    moreover have "ring_seg ?b (read_index rb) m = drop (read_index rb) ?b"
      using len by (simp add: ring_seg_flat m_def)
    moreover have "ring_seg ?b 0 (n - m) = take (n - m) ?b"
      using len nN by (simp add: ring_seg_flat)
    ultimately show ?thesis
      using False len n(2) nN unfolding tk by (simp add: memcpy_at_def m_def)
  qed
qed

lemma rt_ringbuffer_get_ok:
  assumes "rb_inv rb" "n \<le> length ptr"
  defines "k \<equiv> min n (rt_ringbuffer_data_len rb)"
  shows "\<exists>rb'. rt_ringbuffer_get rb ptr n = (k, take k (rb_data rb) @ drop k ptr, rb') \<and> rb_inv rb'
    \<and> rb_data rb' = drop k (rb_data rb) \<and> buffer_size rb' = buffer_size rb"
proof (cases "rt_ringbuffer_data_len rb = 0")
  case True
  then show ?thesis using assms by (simp add: rt_ringbuffer_get_def)
next
  case False
  have e: "(if rt_ringbuffer_data_len rb < n then rt_ringbuffer_data_len rb else n) = k"
    by (simp add: k_def)
  have k: "k \<le> rt_ringbuffer_data_len rb" "k \<le> length ptr" using assms(2) by (simp_all add: k_def)
  show ?thesis
    using False rb_consume [OF assms(1) k(1)] rb_copy_out [OF assms(1) k]
    by (auto simp: rt_ringbuffer_get_def Let_def e split: if_splits)
qed

text \<open>A forced write is a read of what is in the way, then a write.\<close>

lemma put_force_eq:
  assumes inv: "rb_inv rb" and n: "n \<le> buffer_size rb" "n > rt_ringbuffer_space_len rb"
  defines "k \<equiv> rt_ringbuffer_data_len rb + n - buffer_size rb"
  defines "rb2 \<equiv> (if buffer_size rb - read_index rb > k then rb\<lparr>read_index := read_index rb + k\<rparr>
     else rb\<lparr>read_mirror := \<not> read_mirror rb, read_index := k - (buffer_size rb - read_index rb)\<rparr>)"
  shows "rt_ringbuffer_put_force rb ptr n = (n, rb_write rb2 ptr n)"
proof -
  have sp: "rt_ringbuffer_space_len rb = buffer_size rb - rt_ringbuffer_data_len rb"
    by (simp add: rt_ringbuffer_space_len_def)
  let ?N = "buffer_size rb" let ?r = "read_index rb" let ?w = "write_index rb"
  have b: "?r < ?N" "?w < ?N" using inv by (simp_all add: rb_inv_def)
  show ?thesis
  proof (cases "read_mirror rb = write_mirror rb")
    case True
    then have l: "rt_ringbuffer_data_len rb = ?w - ?r" "?r \<le> ?w"
      using inv by (simp_all add: data_len_eq) (simp add: rb_inv_def)
    have "rb2 = rb\<lparr>read_index := read_index rb + k\<rparr>" "?r + k = n - (?N - ?w)" "\<not> ?N - ?w > n"
      "\<not> n - (?N - ?w) \<le> ?r"
      using n sp l b by (auto simp: rb2_def k_def)
    then show ?thesis using n by (simp add: rt_ringbuffer_put_force_def rb_write_def Let_def)
  next
    case False
    then have l: "rt_ringbuffer_data_len rb = ?N - ?r + ?w" "?w \<le> ?r"
      using inv by (simp_all add: data_len_eq) (simp add: rb_inv_def)
    show ?thesis
    proof (cases "?N - ?w > n")
      case True
      have "rb2 = rb\<lparr>read_index := read_index rb + k\<rparr>" "?r + k = ?w + n"
        using n sp l b True by (auto simp: rb2_def k_def)
      then show ?thesis using n True by (simp add: rt_ringbuffer_put_force_def rb_write_def Let_def)
    next
      case False
      have "rb2 = rb\<lparr>read_mirror := \<not> read_mirror rb, read_index := k - (?N - ?r)\<rparr>"
        "k - (?N - ?r) = n - (?N - ?w)" "n - (?N - ?w) \<le> ?r"
        using n sp l b False by (auto simp: rb2_def k_def)
      then show ?thesis using n False by (simp add: rt_ringbuffer_put_force_def rb_write_def Let_def)
    qed
  qed
qed

lemma put_force_small:
  assumes inv: "rb_inv rb" and n: "n \<le> buffer_size rb" "n \<le> length ptr"
  shows "\<exists>rb'. rt_ringbuffer_put_force rb ptr n = (n, rb') \<and> rb_inv rb' \<and> buffer_size rb' = buffer_size rb
    \<and> rb_data rb' = drop (rt_ringbuffer_data_len rb + n - buffer_size rb) (rb_data rb @ take n ptr)"
proof (cases "n > rt_ringbuffer_space_len rb")
  case False
  then have "rt_ringbuffer_put_force rb ptr n = (n, rb_write rb ptr n)"
    using n by (simp add: rt_ringbuffer_put_force_def Let_def)
  moreover have "rt_ringbuffer_data_len rb + n - buffer_size rb = 0"
    using rb_len(3) [OF inv] False by linarith
  ultimately show ?thesis using rb_write_ok [OF inv, of n ptr] False n by (simp add: rb_write_fields)
next
  case True
  let ?k = "rt_ringbuffer_data_len rb + n - buffer_size rb"
  let ?rb2 = "if buffer_size rb - read_index rb > ?k then rb\<lparr>read_index := read_index rb + ?k\<rparr>
     else rb\<lparr>read_mirror := \<not> read_mirror rb, read_index := ?k - (buffer_size rb - read_index rb)\<rparr>"
  have k: "?k \<le> rt_ringbuffer_data_len rb" using n by linarith
  note c = rb_consume [OF inv k]
  have l2: "rt_ringbuffer_data_len ?rb2 = rt_ringbuffer_data_len rb - ?k"
    using arg_cong [OF conjunct2 [OF c], of length] by simp
  have N2: "buffer_size ?rb2 = buffer_size rb" by simp
  have "n \<le> rt_ringbuffer_space_len ?rb2"
    using True n rb_len(3) [OF inv] unfolding rt_ringbuffer_space_len_def l2 N2 by linarith
  from rb_write_ok [OF conjunct1 [OF c] this n(2)] c
  have "rb_inv (rb_write ?rb2 ptr n)" "rb_data (rb_write ?rb2 ptr n) = drop ?k (rb_data rb) @ take n ptr"
    by simp_all
  moreover have "buffer_size (rb_write ?rb2 ptr n) = buffer_size rb" by (simp add: rb_write_fields)
  ultimately show ?thesis
    unfolding put_force_eq [OF inv n(1) True] using k by simp
qed

text \<open>The last \<open>n\<close> elements of a list.\<close>

definition lastn :: "nat \<Rightarrow> 'a list \<Rightarrow> 'a list" where
  "lastn n xs = drop (length xs - n) xs"

lemma rt_ringbuffer_put_force_ok:
  assumes inv: "rb_inv rb" and n: "n \<le> length ptr"
  shows "\<exists>rb'. rt_ringbuffer_put_force rb ptr n = (min n (buffer_size rb), rb') \<and> rb_inv rb'
    \<and> buffer_size rb' = buffer_size rb \<and> rb_data rb' = lastn (buffer_size rb) (rb_data rb @ take n ptr)"
proof (cases "n > buffer_size rb")
  case False
  then show ?thesis
    using put_force_small [OF inv _ n] n
    by (auto simp: lastn_def min_def)
next
  case True
  let ?N = "buffer_size rb" let ?p = "drop (n - ?N) ptr"
  have "rt_ringbuffer_put_force rb ptr n = rt_ringbuffer_put_force rb ?p ?N"
    using True by (simp add: rt_ringbuffer_put_force_def Let_def)
  moreover have "?N \<le> length ?p" using True n by simp
  moreover have "drop (rt_ringbuffer_data_len rb + ?N - ?N) (rb_data rb @ take ?N ?p)
      = lastn ?N (rb_data rb @ take n ptr)"
    using True n by (simp add: lastn_def take_drop min_def)
  ultimately show ?thesis
    using put_force_small [OF inv order_refl, of ?p] True by (simp add: min_def)
qed

section \<open>Single bytes\<close>

lemma putchar_eq:
  assumes "rb_inv rb" "rt_ringbuffer_space_len rb \<noteq> 0"
  shows "rt_ringbuffer_putchar rb ch = (1, rb_write rb [ch] 1)"
proof -
  have w: "write_index rb < length (buffer_ptr rb)" using assms(1) by (simp add: rb_inv_def)
  then have m: "memcpy_at (buffer_ptr rb) (write_index rb) [ch] 0 (Suc 0) = (buffer_ptr rb)[write_index rb := ch]"
    by (simp add: memcpy_at_def upd_conv_take_nth_drop)
  show ?thesis
  proof (cases "write_index rb = buffer_size rb - 1")
    case True
    then have e: "buffer_size rb - write_index rb = 1" using assms(1) by (simp add: rb_inv_def)
    then show ?thesis
      using assms(2) True m by (simp add: rt_ringbuffer_putchar_def rb_write_def Let_def)
  next
    case False
    then have "buffer_size rb - write_index rb > 1" using assms(1) by (auto simp: rb_inv_def)
    then show ?thesis
      using assms(2) False m by (simp add: rt_ringbuffer_putchar_def rb_write_def Let_def)
  qed
qed

lemma getchar_ok:
  assumes inv: "rb_inv rb" and d: "rb_data rb = c # cs"
  shows "\<exists>rb'. rt_ringbuffer_getchar rb = (Some c, rb') \<and> rb_inv rb' \<and> rb_data rb' = cs
    \<and> buffer_size rb' = buffer_size rb"
proof -
  have l: "rt_ringbuffer_data_len rb = Suc (length cs)" using arg_cong [OF d, of length] by simp
  have r: "read_index rb < buffer_size rb" "length (buffer_ptr rb) = buffer_size rb"
    using inv by (simp_all add: rb_inv_def)
  have "c = ring_seg (buffer_ptr rb) (read_index rb) (Suc (length cs)) ! 0"
    using d l by (simp add: rb_data_def)
  also have "\<dots> = buffer_ptr rb ! read_index rb" using r by (subst nth_ring_seg) simp_all
  finally have c: "c = buffer_ptr rb ! read_index rb" .
  let ?rb' = "if read_index rb = buffer_size rb - 1 then rb\<lparr>read_mirror := \<not> read_mirror rb, read_index := 0\<rparr>
     else rb\<lparr>read_index := read_index rb + 1\<rparr>"
  have eq: "(if buffer_size rb - read_index rb > 1 then rb\<lparr>read_index := read_index rb + 1\<rparr>
     else rb\<lparr>read_mirror := \<not> read_mirror rb, read_index := 1 - (buffer_size rb - read_index rb)\<rparr>) = ?rb'"
    using r by auto
  have "1 \<le> rt_ringbuffer_data_len rb" using l by simp
  from rb_consume [OF inv this] have "rb_inv ?rb' \<and> rb_data ?rb' = drop 1 (rb_data rb)"
    unfolding eq .
  then show ?thesis
    using l c d by (simp add: rt_ringbuffer_getchar_def)
qed

text \<open>The byte operations as a bounded queue.\<close>

definition rb_putc :: "u8 \<Rightarrow> ringbuffer \<Rightarrow> ringbuffer option" where
  "rb_putc ch rb = (let (n, rb') = rt_ringbuffer_putchar rb ch in if n = 0 then None else Some rb')"

definition rb_getc :: "ringbuffer \<Rightarrow> (u8 \<times> ringbuffer) option" where
  "rb_getc rb = (let (c, rb') = rt_ringbuffer_getchar rb in map_option (\<lambda>c. (c, rb')) c)"

interpretation rbf: bounded_fifo rb_inv rb_data buffer_size rb_putc rb_getc "\<lambda>_. True"
proof
  fix rb x assume inv: "rb_inv rb"
  show "length (rb_data rb) \<le> buffer_size rb" using rb_len(1) [OF inv] by simp
  show "rb_putc x rb = None" if "length (rb_data rb) = buffer_size rb"
    using that by (simp add: rb_putc_def rt_ringbuffer_putchar_def rt_ringbuffer_space_len_def)
  show "\<exists>rb'. rb_putc x rb = Some rb' \<and> rb_inv rb' \<and> rb_data rb' = rb_data rb @ [x]
     \<and> buffer_size rb' = buffer_size rb" if "length (rb_data rb) < buffer_size rb"
  proof -
    have sp: "rt_ringbuffer_space_len rb \<noteq> 0" using that by (simp add: rt_ringbuffer_space_len_def)
    then show ?thesis
      using putchar_eq [OF inv sp, of x] rb_write_ok [OF inv, of 1 "[x]"]
      by (simp add: rb_putc_def rb_write_fields)
  qed
  show "rb_getc rb = None" if "rb_data rb = []"
  proof -
    have "rt_ringbuffer_data_len rb = 0" using arg_cong [OF that, of length] by simp
    then show ?thesis by (simp add: rb_getc_def rt_ringbuffer_getchar_def)
  qed
  show "\<exists>rb'. rb_getc rb = Some (x, rb') \<and> rb_inv rb' \<and> rb_data rb' = xs \<and> buffer_size rb' = buffer_size rb"
    if "rb_data rb = x # xs" for x xs
    using getchar_ok [OF inv that] by (auto simp: rb_getc_def)
qed

section \<open>Properties\<close>

definition demo_rb :: ringbuffer where
  "demo_rb = \<lparr>buffer_ptr = [10, 11, 12, 13], read_mirror = False, read_index = 3,
     write_mirror = True, write_index = 1, buffer_size = 4\<rparr>"

lemma demo_rb: "rb_inv demo_rb" "rt_ringbuffer_data_len demo_rb = 2" "rb_data demo_rb = [13, 10]"
proof -
  show "rb_inv demo_rb" by (simp add: rb_inv_def demo_rb_def)
  show l: "rt_ringbuffer_data_len demo_rb = 2"
    by (simp add: demo_rb_def rt_ringbuffer_data_len_def rt_ringbuffer_status_def)
  show "rb_data demo_rb = [13, 10]"
    unfolding rb_data_def l by (simp add: demo_rb_def ring_seg_def upt_rec numeral_2_eq_2)
qed

text \<open>C22: the block operations of the ring buffer refine those of a list of at most
  \<open>buffer_size\<close> bytes: a put appends as many bytes as there is room for, a forced put
  appends all and keeps the last \<open>buffer_size\<close> of the result, a get takes the first bytes out into the
  caller's array and leaves the rest of that array alone; each keeps the invariant.\<close>

theorem rt_ringbuffer_refines:
  assumes "rb_inv rb" "n \<le> length ptr"
  shows "(let (k, rb') = rt_ringbuffer_put rb ptr n in
      k = min n (buffer_size rb - length (rb_data rb)) \<and> rb_inv rb'
      \<and> rb_data rb' = rb_data rb @ take k ptr)
    \<and> (let (k, rb') = rt_ringbuffer_put_force rb ptr n in
      k = min n (buffer_size rb) \<and> rb_inv rb'
      \<and> rb_data rb' = lastn (buffer_size rb) (rb_data rb @ take n ptr))
    \<and> (let (k, ptr', rb') = rt_ringbuffer_get rb ptr n in
      k = min n (length (rb_data rb)) \<and> rb_inv rb' \<and> rb_data rb' = drop k (rb_data rb)
      \<and> ptr' = take k (rb_data rb) @ drop k ptr)"
  using rt_ringbuffer_put_ok [OF assms] rt_ringbuffer_put_force_ok [OF assms] rt_ringbuffer_get_ok [OF assms]
  by (auto simp: Let_def rt_ringbuffer_space_len_def split: prod.splits)

theorem rt_ringbuffer_refines_witness:
  "rb_data (snd (rt_ringbuffer_put demo_rb [1, 2, 3] 3)) = [13, 10, 1, 2]
   \<and> rb_data (snd (rt_ringbuffer_put_force demo_rb [1, 2, 3] 3)) = [10, 1, 2, 3]"
  using rt_ringbuffer_refines [of demo_rb 3 "[1, 2, 3]"] demo_rb
  by (simp add: Let_def lastn_def split: prod.splits) (simp add: demo_rb_def numeral_2_eq_2)

text \<open>First in, first out.  Over any sequence of
  \<^verbatim>\<open>rt_ringbuffer_putchar\<close> and \<^verbatim>\<open>rt_ringbuffer_getchar\<close>
  calls, what came out followed by what is still held is what was held followed by what was accepted:
  no byte is lost, duplicated or reordered, and the invariant holds throughout.\<close>

lemma rt_ringbuffer_fifo:
  assumes "rb_inv rb"
  shows "case rbf.run ops rb of (accepted, outs, rb') \<Rightarrow>
    rb_inv rb' \<and> outs @ rb_data rb' = rb_data rb @ accepted"
proof -
  have "rbf.items ops" by (simp add: rbf.items_def)
  then show ?thesis using rbf.run_order [OF assms] by (auto split: prod.splits)
qed

lemma rt_ringbuffer_fifo_example:
  "case rbf.run [Put 1, Get, Put 2] demo_rb of (accepted, outs, rb') \<Rightarrow>
    outs @ rb_data rb' = [13, 10] @ accepted"
  using rt_ringbuffer_fifo [of demo_rb "[Put 1, Get, Put 2]"] demo_rb by (auto split: prod.splits)

text \<open>Further behaviour: initialisation, reset, the draining peek and the forced single byte.\<close>

lemma rt_ringbuffer_init_ok:
  assumes "4 \<le> sz" "sz < 2 ^ 15" "length pool = nat sz - nat sz mod 4"
  shows "\<exists>rb. rt_ringbuffer_init pool sz = Inr rb \<and> rb_inv rb \<and> rb_data rb = []"
proof -
  have "4 \<le> nat sz" "nat sz < 2 ^ 15" using assms by auto
  then have "0 < nat sz - nat sz mod 4" "nat sz - nat sz mod 4 < 2 ^ 15"
    using mod_less_divisor [of 4 "nat sz"] by linarith+
  then show ?thesis
    using assms by (simp add: rt_ringbuffer_init_def rb_inv_def rb_data_def rt_ringbuffer_data_len_def
        rt_ringbuffer_status_def)
qed

lemma rt_ringbuffer_reset_ok:
  "rb_inv rb \<Longrightarrow> rb_inv (rt_ringbuffer_reset rb) \<and> rb_data (rt_ringbuffer_reset rb) = []"
  by (simp add: rt_ringbuffer_reset_def rb_inv_def rb_data_def rt_ringbuffer_data_len_def
      rt_ringbuffer_status_def)

lemma rt_ringbuffer_peek_ok:
  assumes inv: "rb_inv rb" and d: "rb_data rb \<noteq> []"
  shows "\<exists>k off rb'. rt_ringbuffer_peek rb = (k, Some off, rb') \<and> rb_inv rb' \<and> 0 < k
    \<and> off + k \<le> buffer_size rb
    \<and> take k (drop off (buffer_ptr rb)) = take k (rb_data rb) \<and> rb_data rb' = drop k (rb_data rb)"
proof -
  let ?l = "rt_ringbuffer_data_len rb" let ?m = "buffer_size rb - read_index rb"
  have l: "?l \<noteq> 0" using d by (metis length_rb_data length_0_conv)
  have r: "read_index rb < buffer_size rb" "length (buffer_ptr rb) = buffer_size rb"
    using inv by (simp_all add: rb_inv_def)
  have tk: "take k (drop (read_index rb) (buffer_ptr rb)) = take k (rb_data rb)" if "k \<le> ?l" "k \<le> ?m" for k
  proof -
    have "ring_seg (buffer_ptr rb) (read_index rb) k = take k (drop (read_index rb) (buffer_ptr rb))"
      by (rule ring_seg_flat) (use that r in linarith)
    then show ?thesis by (simp add: rb_data_def take_ring_seg [OF that(1)])
  qed
  show ?thesis
  proof (cases "?m > ?l")
    case True
    then show ?thesis using rb_consume [OF inv order_refl] tk [of ?l] l r
      by (intro exI [of _ ?l] exI [of _ "read_index rb"]) (simp add: rt_ringbuffer_peek_def Let_def)
  next
    case False
    then have "?m \<le> ?l" by simp
    then show ?thesis using rb_consume [OF inv \<open>?m \<le> ?l\<close>] tk [of ?m] l r False
      by (intro exI [of _ ?m] exI [of _ "read_index rb"]) (simp add: rt_ringbuffer_peek_def Let_def)
  qed
qed

end
