(* ===== verification/Mutex.thy ===== *)
theory Mutex
  imports Sem
begin

text \<open>
  Mutexes with priority inheritance and ceilings, \<^verbatim>\<open>rt-thread/src/ipc.c\<close> from
  \<^verbatim>\<open>_mutex_update_priority\<close> to \<^verbatim>\<open>rt_mutex_control\<close>, and the end of a
  thread (\<^verbatim>\<open>rt_thread_detach\<close>, \<^verbatim>\<open>rt_thread_delete\<close> and
  \<^verbatim>\<open>rt_thread_control\<close> of \<^verbatim>\<open>thread.c\<close>), which drops it from the
  mutex it waits for.  A thread's \<open>pending_object\<close> is the mutex it is recorded to wait for; only
  mutexes are ever stored there.  A mutex is linked into its owner's
  \<open>taken_object_list\<close> through its own node \<^verbatim>\<open>taken_list\<close>, so unlinking
  it takes it out of whichever list it is in.
\<close>

section \<open>Operations\<close>

subsection \<open>Priorities\<close>

text \<open>The priority of a mutex is that of its first waiter, or 255 without one.\<close>

definition mutex_update_priority :: "nat \<Rightarrow> kernel \<Rightarrow> kernel" where
  "mutex_update_priority n s =
     upd_mutex n (\<lambda>m. m\<lparr>mutex_priority := (case queues s (QSuspend (OMutex n)) of
        [] \<Rightarrow> 0xff | t # _ \<Rightarrow> tprio s t)\<rparr>) s"

definition thread_get_mutex_priority :: "tid \<Rightarrow> kernel \<Rightarrow> nat" where
  "thread_get_mutex_priority t s =
     foldl (\<lambda>priority n. if priority > mutex_priority (mutexes s n) then mutex_priority (mutexes s n)
                         else priority)
       (init_priority (threads s t)) (taken_object_list (threads s t))"

text \<open>The chain of owners: the recursion goes on only when the thread could be queued again,
  which asserts that it is the running one; lemma \<open>thread_update_priority_fuel\<close> shows that
  the fuel of \<open>2\<close> the callers pass never runs out.\<close>

fun thread_update_priority :: "nat \<Rightarrow> tid \<Rightarrow> nat \<Rightarrow> kernel \<Rightarrow> kernel res" where
  "thread_update_priority 0 t priority s = Inl OutOfFuel"
| "thread_update_priority (Suc fuel) t priority s =
     bind_res (rt_thread_change_priority t priority s) (\<lambda>(_, s).
     if tstat s t = RT_THREAD_SUSPEND then
       case pending_object (threads s t) of None \<Rightarrow> Inr s
       | Some n \<Rightarrow>
         if rt_object_get_type (OMutex n) s = RT_Object_Class_Mutex then
           bind_res (ipc_list_suspend (QSuspend (OMutex n)) t (obj_flag (objs s (OMutex n)))
                       (list_remove_thread t s)) (\<lambda>s.
           let s = mutex_update_priority n s
           in case owner (mutexes s n) of None \<Rightarrow> Inl NullDeref
              | Some ow \<Rightarrow>
                let priority = thread_get_mutex_priority ow s
                in if priority \<noteq> tprio s ow then thread_update_priority fuel ow priority s
                   else Inr s)
         else Inr s
     else Inr s)"

subsection \<open>Creation and removal\<close>

definition mutex_setup :: "nat \<Rightarrow> kernel \<Rightarrow> kernel" where
  "mutex_setup n s =
     (let s = ipc_object_init (OMutex n) s;
          s = upd_mutex n (\<lambda>m. m\<lparr>owner := None, mutex_priority := 0xff, hold := 0,
                                 ceiling_priority := 0xff\<rparr>) s
      in upd_obj (OMutex n) (\<lambda>x. x\<lparr>obj_flag := RT_IPC_FLAG_PRIO\<rparr>) s)"

definition rt_mutex_init :: "nat \<Rightarrow> u8 list \<Rightarrow> u8 \<Rightarrow> kernel \<Rightarrow> (int \<times> kernel) res" where
  "rt_mutex_init n name flag s =
     bind_res (rt_object_init (OMutex n) RT_Object_Class_Mutex name s) (\<lambda>s.
       Inr (RT_EOK, mutex_setup n s))"

definition taken_remove :: "nat \<Rightarrow> kernel \<Rightarrow> kernel" where
  "taken_remove n s = s\<lparr>threads := \<lambda>t. (threads s t)
     \<lparr>taken_object_list := remove1 n (taken_object_list (threads s t))\<rparr>\<rparr>"

definition taken_insert :: "nat \<Rightarrow> tid \<Rightarrow> kernel \<Rightarrow> kernel" where
  "taken_insert n t s = upd_thread t (\<lambda>th. th\<lparr>taken_object_list := n # taken_object_list th\<rparr>) s"

definition rt_mutex_detach :: "nat \<Rightarrow> kernel \<Rightarrow> (int \<times> kernel) res" where
  "rt_mutex_detach n s =
     assert_then (rt_object_get_type (OMutex n) s = RT_Object_Class_Mutex) (
     assert_then (rt_object_is_systemobject (OMutex n) s) (
     bind_res (ipc_list_resume_all (QSuspend (OMutex n)) s) (\<lambda>s.
       Inr (RT_EOK, rt_object_detach (OMutex n) (taken_remove n s)))))"

definition rt_mutex_create :: "nat option \<Rightarrow> u8 list \<Rightarrow> u8 \<Rightarrow> kernel \<Rightarrow> (nat option \<times> kernel) res" where
  "rt_mutex_create block name flag s =
     assert_then (RT_DEBUG_NOT_IN_INTERRUPT s) (
     bind_res (rt_object_allocate (map_option OMutex block) RT_Object_Class_Mutex name s) (\<lambda>(_, s).
       case block of None \<Rightarrow> Inr (None, s) | Some n \<Rightarrow> Inr (Some n, mutex_setup n s)))"

definition rt_mutex_delete :: "nat \<Rightarrow> kernel \<Rightarrow> (int \<times> kernel) res" where
  "rt_mutex_delete n s =
     assert_then (rt_object_get_type (OMutex n) s = RT_Object_Class_Mutex) (
     assert_then (\<not> rt_object_is_systemobject (OMutex n) s) (
     assert_then (RT_DEBUG_NOT_IN_INTERRUPT s) (
     bind_res (ipc_list_resume_all (QSuspend (OMutex n)) s) (\<lambda>s.
     bind_res (rt_object_delete (OMutex n) (taken_remove n s)) (\<lambda>s. Inr (RT_EOK, s))))))"

text \<open>When the thread at the head of the waiters has left: the mutex's priority is taken again, and
  the owner's is lowered if it was the departed thread's.\<close>

definition mutex_waiter_gone :: "nat \<Rightarrow> tid \<Rightarrow> kernel \<Rightarrow> kernel res" where
  "mutex_waiter_gone n thread s =
     (case owner (mutexes s n) of None \<Rightarrow> Inl NullDeref
      | Some ow \<Rightarrow>
        let need_update = (tprio s ow = tprio s thread);
            s = mutex_update_priority n s
        in if need_update then
             let priority = thread_get_mutex_priority ow s
             in if priority \<noteq> tprio s ow then thread_update_priority 2 ow priority s else Inr s
           else Inr s)"

definition rt_mutex_drop_thread :: "nat \<Rightarrow> tid \<Rightarrow> kernel \<Rightarrow> kernel res" where
  "rt_mutex_drop_thread n thread s = mutex_waiter_gone n thread (list_remove_thread thread s)"

definition rt_mutex_setprioceiling :: "nat option \<Rightarrow> nat \<Rightarrow> kernel \<Rightarrow> nat \<times> kernel" where
  "rt_mutex_setprioceiling mutex priority s =
     (case mutex of None \<Rightarrow> (0xff, s)
      | Some n \<Rightarrow>
        if priority < RT_THREAD_PRIORITY_MAX
        then (ceiling_priority (mutexes s n), upd_mutex n (\<lambda>m. m\<lparr>ceiling_priority := priority\<rparr>) s)
        else (0xff, s))"

definition rt_mutex_getprioceiling :: "nat option \<Rightarrow> kernel \<Rightarrow> nat" where
  "rt_mutex_getprioceiling mutex s =
     (case mutex of None \<Rightarrow> 0xff | Some n \<Rightarrow> ceiling_priority (mutexes s n))"

subsection \<open>Taking and releasing\<close>

text \<open>\<^verbatim>\<open>rt_mutex_take\<close> up to the switch to another thread.\<close>

definition rt_mutex_take :: "nat \<Rightarrow> int \<Rightarrow> kernel \<Rightarrow> (int outcome \<times> kernel) res" where
  "rt_mutex_take n timeout s =
     assert_then (RT_DEBUG_SCHEDULER_AVAILABLE True s) (
     assert_then (rt_object_get_type (OMutex n) s = RT_Object_Class_Mutex) (
     case rt_thread_self s of None \<Rightarrow> Inl NullDeref
     | Some thread \<Rightarrow>
       let s = upd_thread thread (\<lambda>th. th\<lparr>error := RT_EOK\<rparr>) s
       in case owner (mutexes s n) of
            None \<Rightarrow>
              let s = upd_mutex n (\<lambda>m. m\<lparr>owner := Some thread, mutex_priority := 0xff, hold := 1\<rparr>) s;
                  ceiling = ceiling_priority (mutexes s n)
              in if ceiling \<noteq> 0xff then
                   bind_res (if ceiling < tprio s thread then thread_update_priority 2 thread ceiling s
                             else Inr s) (\<lambda>s. Inr (Return RT_EOK, s))
                 else Inr (Return RT_EOK, taken_insert n thread s)
          | Some ow \<Rightarrow>
            if ow = thread then
              if hold (mutexes s n) < 255
              then Inr (Return RT_EOK, upd_mutex n (\<lambda>m. m\<lparr>hold := hold m + 1\<rparr>) s)
              else Inr (Return (- RT_EFULL), s)
            else if timeout = 0
              then Inr (Return (- RT_ETIMEOUT), upd_thread thread (\<lambda>th. th\<lparr>error := - RT_ETIMEOUT\<rparr>) s)
            else
              let priority = tprio s thread
              in bind_res (ipc_list_suspend (QSuspend (OMutex n)) thread (obj_flag (objs s (OMutex n))) s) (\<lambda>s.
                 let s = upd_thread thread (\<lambda>th. th\<lparr>pending_object := Some n\<rparr>) s
                 in bind_res
                   (if priority < mutex_priority (mutexes s n) then
                      let s = upd_mutex n (\<lambda>m. m\<lparr>mutex_priority := priority\<rparr>) s
                      in if mutex_priority (mutexes s n) < tprio s ow
                         then thread_update_priority 2 ow priority s else Inr s
                    else Inr s) (\<lambda>s.
                 bind_res (arm_timeout thread timeout s) (\<lambda>s.
                 bind_res (rt_schedule s) (\<lambda>s. Inr (Blocked, s)))))))"

text \<open>The rest, when the thread runs again.\<close>

definition rt_mutex_take_resume :: "nat \<Rightarrow> tid \<Rightarrow> kernel \<Rightarrow> (int \<times> kernel) res" where
  "rt_mutex_take_resume n thread s =
     (if error (threads s thread) = RT_EOK then Inr (RT_EOK, s)
      else bind_res (mutex_waiter_gone n thread s) (\<lambda>s. Inr (error (threads s thread), s)))"

definition rt_mutex_trytake :: "nat \<Rightarrow> kernel \<Rightarrow> (int outcome \<times> kernel) res" where
  "rt_mutex_trytake n s = rt_mutex_take n 0 s"

text \<open>Handing the mutex to the first waiter, if any; the flag tells whether to reschedule.\<close>

definition mutex_hand_over :: "nat \<Rightarrow> bool \<Rightarrow> kernel \<Rightarrow> (bool \<times> kernel) res" where
  "mutex_hand_over n need_schedule s =
     (case queues s (QSuspend (OMutex n)) of
        [] \<Rightarrow> Inr (need_schedule, upd_mutex n (\<lambda>m. m\<lparr>owner := None, mutex_priority := 0xff\<rparr>) s)
      | next_thread # _ \<Rightarrow>
        let s = list_remove_thread next_thread s;
            s = upd_mutex n (\<lambda>m. m\<lparr>owner := Some next_thread, hold := 1\<rparr>) s;
            s = taken_insert n next_thread s;
            s = upd_thread next_thread (\<lambda>th. th\<lparr>pending_object := None\<rparr>) s
        in bind_res (rt_thread_resume next_thread s) (\<lambda>(_, s).
           Inr (True, mutex_update_priority n s)))"

definition rt_mutex_release :: "nat \<Rightarrow> kernel \<Rightarrow> (int \<times> kernel) res" where
  "rt_mutex_release n s =
     assert_then (rt_object_get_type (OMutex n) s = RT_Object_Class_Mutex) (
     assert_then (RT_DEBUG_IN_THREAD_CONTEXT s) (
     case rt_thread_self s of None \<Rightarrow> Inl NullDeref
     | Some thread \<Rightarrow>
       if owner (mutexes s n) \<noteq> Some thread
       then Inr (- RT_ERROR, upd_thread thread (\<lambda>th. th\<lparr>error := - RT_ERROR\<rparr>) s)
       else
         let s = upd_mutex n (\<lambda>m. m\<lparr>hold := (hold m + 255) mod 256\<rparr>) s
         in if hold (mutexes s n) = 0 then
              let s = taken_remove n s
              in bind_res
                (if ceiling_priority (mutexes s n) \<noteq> 0xff \<or> tprio s thread = mutex_priority (mutexes s n)
                 then bind_res (rt_thread_change_priority thread (thread_get_mutex_priority thread s) s)
                        (\<lambda>(_, s). Inr (True, s))
                 else Inr (False, s)) (\<lambda>(need_schedule, s).
              bind_res (mutex_hand_over n need_schedule s) (\<lambda>(need_schedule, s).
              bind_res (if need_schedule then rt_schedule s else Inr s) (\<lambda>s. Inr (RT_EOK, s))))
            else Inr (RT_EOK, s)))"

definition rt_mutex_control :: "nat \<Rightarrow> int \<Rightarrow> kernel \<Rightarrow> (int \<times> kernel) res" where
  "rt_mutex_control n cmd s =
     assert_then (rt_object_get_type (OMutex n) s = RT_Object_Class_Mutex) (Inr (- RT_ERROR, s))"

subsection \<open>The end of a thread\<close>

definition thread_close :: "tid \<Rightarrow> kernel \<Rightarrow> (int \<times> kernel) res" where
  "thread_close t s =
     (if tstat s t = RT_THREAD_CLOSE then Inr (RT_EOK, s)
      else
        bind_res (if tstat s t \<noteq> RT_THREAD_INIT then rt_schedule_remove_thread t s else Inr s) (\<lambda>s.
        bind_res (rt_timer_detach (TThread t) s) (\<lambda>(_, s).
        let s = upd_thread t (\<lambda>th. th\<lparr>stat := RT_THREAD_CLOSE\<rparr>) s
        in bind_res
          (case pending_object (threads s t) of None \<Rightarrow> Inr s
           | Some n \<Rightarrow>
             if rt_object_get_type (OMutex n) s = RT_Object_Class_Mutex then
               bind_res (rt_mutex_drop_thread n t s) (\<lambda>s.
                 Inr (upd_thread t (\<lambda>th. th\<lparr>pending_object := None\<rparr>) s))
             else Inr s) (\<lambda>s.
        Inr (RT_EOK, rt_thread_defunct_enqueue t s)))))"

definition rt_thread_detach :: "tid \<Rightarrow> kernel \<Rightarrow> (int \<times> kernel) res" where
  "rt_thread_detach t s =
     assert_then (rt_object_get_type (OThread t) s = RT_Object_Class_Thread) (
     assert_then (rt_object_is_systemobject (OThread t) s) (thread_close t s))"

definition rt_thread_delete :: "tid \<Rightarrow> kernel \<Rightarrow> (int \<times> kernel) res" where
  "rt_thread_delete t s =
     assert_then (rt_object_get_type (OThread t) s = RT_Object_Class_Thread) (
     assert_then (\<not> rt_object_is_systemobject (OThread t) s) (thread_close t s))"

datatype thread_cmd = CTRL_STARTUP | CTRL_CLOSE | CTRL_CHANGE_PRIORITY nat | CTRL_OTHER

definition rt_thread_control :: "tid \<Rightarrow> thread_cmd \<Rightarrow> kernel \<Rightarrow> (int \<times> kernel) res" where
  "rt_thread_control t cmd s =
     assert_then (rt_object_get_type (OThread t) s = RT_Object_Class_Thread) (
     case cmd of
       CTRL_CHANGE_PRIORITY prio \<Rightarrow> rt_thread_change_priority t prio s
     | CTRL_STARTUP \<Rightarrow> rt_thread_startup t s
     | CTRL_CLOSE \<Rightarrow>
         bind_res (if rt_object_is_systemobject (OThread t) s then rt_thread_detach t s
                   else rt_thread_delete t s) (\<lambda>(rt_err, s).
         bind_res (rt_schedule s) (\<lambda>s. Inr (rt_err, s)))
     | CTRL_OTHER \<Rightarrow> Inr (RT_EOK, s))"

section \<open>Changing a priority keeps the kernel invariant\<close>

definition set_prio :: "nat \<Rightarrow> thread \<Rightarrow> thread" where
  "set_prio p th = th\<lparr>current_priority := p, number_mask := push_bit p 1\<rparr>"

lemma set_prio_simps [simp]:
  "current_priority (set_prio p th) = p" "number_mask (set_prio p th) = push_bit p 1"
  "stat (set_prio p th) = stat th" "error (set_prio p th) = error th"
  "init_priority (set_prio p th) = init_priority th"
  "taken_object_list (set_prio p th) = taken_object_list th"
  "pending_object (set_prio p th) = pending_object th"
  "(set_prio p th)\<lparr>stat := stat th\<rparr> = set_prio p th"
  by (simp_all add: set_prio_def)

lemma change_priority_alt:
  "rt_thread_change_priority t p s =
     assert_then (rt_object_get_type (OThread t) s = RT_Object_Class_Thread) (
     if tstat s t = RT_THREAD_READY then
       bind_res (rt_schedule_remove_thread t s) (\<lambda>s.
         bind_res (rt_schedule_insert_thread t (upd_thread t (set_prio p) s)) (\<lambda>s. Inr (RT_EOK, s)))
     else Inr (RT_EOK, upd_thread t (set_prio p) s))"
  by (simp add: rt_thread_change_priority_def set_prio_def [abs_def] Let_def)

lemma stat_put_same: "stat_put (stat_get x) x = x"
  by (simp add: stat_get_def stat_put_def, rule bit_word_eqI, auto simp: bit_simps)

lemma K_prio:
  assumes k: "loose_kinv X s" and t: "t \<in> X \<or> tstat s t \<noteq> RT_THREAD_READY" and p: "p < 32"
  shows "loose_kinv X (upd_thread t (set_prio p) s)" (is "loose_kinv X ?s")
proof -
  have th: "tstat ?s u = tstat s u" "queues ?s = queues s" "ready_group ?s = ready_group s"
    "cur ?s = cur s" "timer_list ?s = timer_list s" for u
    by (simp_all add: upd_thread_def)
  have pr: "tprio ?s u = (if u = t then p else tprio s u)"
    "number_mask (threads ?s u) = (if u = t then push_bit p 1 else number_mask (threads s u))" for u
    by (simp_all add: upd_thread_def)
  have ty: "thread_typed ?s u = thread_typed s u" for u
    by (rule thread_typed_cong) (simp_all add: upd_thread_def)
  have ti: "timers_inv ?s = timers_inv s" by (rule timers_inv_cong) (simp_all add: upd_thread_def)
  have l: "loose_inv X s" using k by (simp add: loose_kinv_def)
  have "loose_inv X ?s"
    unfolding loose_inv_def queues_ok_def bitmap_ok_def wait_ok_def started_def th pr
    using l t p unfolding loose_inv_def queues_ok_def bitmap_ok_def wait_ok_def started_def
    by auto
  then show ?thesis using k unfolding loose_kinv_def started_def th ty ti by blast
qed

lemma change_priority_ok:
  assumes k: "loose_kinv {} s" and t: "started s t" and p: "p < 32"
    and c: "tstat s t = RT_THREAD_READY \<Longrightarrow> cur s \<noteq> Some t"
  obtains s' where "rt_thread_change_priority t p s = Inr (RT_EOK, s')" "loose_kinv {} s'"
    "threads s' = (threads s)(t := set_prio p (threads s t))"
    "\<And>q. \<forall>p. q \<noteq> QReady p \<Longrightarrow> queues s' q = queues s q"
    "s' = s\<lparr>threads := threads s', queues := queues s', ready_group := ready_group s'\<rparr>"
proof (cases "tstat s t = RT_THREAD_READY")
  case False
  have ty: "rt_object_get_type (OThread t) s = RT_Object_Class_Thread"
    using k t by (simp add: loose_kinv_def thread_typed_def)
  show thesis
    by (rule that [of "upd_thread t (set_prio p) s"])
      (use False ty K_prio [OF k _ p] in \<open>simp_all add: change_priority_alt upd_thread_def\<close>)
next
  case True
  have ty: "rt_object_get_type (OThread t) s = RT_Object_Class_Thread"
    using k t by (simp add: loose_kinv_def thread_typed_def)
  have p0: "tprio s t < 32" using k t by (simp add: loose_kinv_def loose_inv_def)
  have nt: "TThread t \<notin> set (timer_list s)"
    using k True by (auto simp: loose_kinv_def)
  let ?s1 = "sched_rm t s" let ?s2 = "upd_thread t (set_prio p) ?s1" let ?s3 = "sched_ins t ?s2"
  have k1: "loose_kinv {t} ?s1" using K_rm [OF k, of t] t by simp
  have k2: "loose_kinv {t} ?s2" by (rule K_prio [OF k1 _ p]) simp
  have f2: "cur ?s2 = cur s" "timer_list ?s2 = timer_list s" "tprio ?s2 t = p"
    "threads ?s2 = (threads s)(t := set_prio p (threads s t))"
    by (simp_all add: upd_thread_def)
  have k3: "loose_kinv {} ?s3"
    using K_ins [OF k2, of t] c [OF True] nt by (simp add: f2)
  have "stat_put RT_THREAD_READY (stat (threads s t)) = stat (threads s t)"
    using stat_put_same [of "stat (threads s t)"] True by simp
  then have th3: "threads ?s3 = (threads s)(t := set_prio p (threads s t))"
    by (simp add: sched_ins_frame f2)
  show thesis
  proof (rule that [of ?s3])
    show "rt_thread_change_priority t p s = Inr (RT_EOK, ?s3)"
      using True ty c [OF True] p0 p
      by (simp add: change_priority_alt remove_thread_eq insert_thread_eq f2)
    show "queues ?s3 q = queues s q" if "\<forall>p. q \<noteq> QReady p" for q
    proof -
      have "t \<notin> set (queues s q)"
      proof
        assume "t \<in> set (queues s q)"
        then show False
          using k True that unfolding loose_kinv_def loose_inv_def wait_ok_def
          by (cases q) auto
      qed
      then show ?thesis using that
        by (simp add: sched_ins_frame upd_thread_def remove1_idem)
    qed
    show "?s3 = s\<lparr>threads := threads ?s3, queues := queues ?s3, ready_group := ready_group ?s3\<rparr>"
      by (simp add: sched_ins_def sched_rm_def Let_def kdefs)
  qed (use k3 th3 in auto)
qed

text \<open>A thread whose priority may be raised without touching another mutex: it is not recorded
  as waiting for one.\<close>

definition boostable :: "kernel \<Rightarrow> tid \<Rightarrow> bool" where
  "boostable s t \<longleftrightarrow> started s t
     \<and> (tstat s t = RT_THREAD_SUSPEND \<longrightarrow> pending_object (threads s t) = None)"

lemma update_priority_eq:
  assumes "rt_thread_change_priority t p s = Inr (RT_EOK, s')"
    and "threads s' = (threads s)(t := set_prio p (threads s t))" "boostable s t"
  shows "thread_update_priority (Suc fuel) t p s = Inr s'"
  using assms by (auto simp: boostable_def split: option.splits)

text \<open>The recursion of \<^verbatim>\<open>_thread_update_priority\<close> stops at the assertion of
  \<^verbatim>\<open>rt_thread_suspend\<close> unless the thread is the one that runs; that one it reaches
  again only after raising its own mutex's owner.\<close>

lemma thread_update_priority_asserts:
  assumes "rt_thread_change_priority t p s = Inr (r, s')" "tstat s' t = RT_THREAD_SUSPEND"
    and "pending_object (threads s' t) = Some n"
    and "rt_object_get_type (OMutex n) s' = RT_Object_Class_Mutex" "cur s' \<noteq> Some t"
  shows "thread_update_priority (Suc fuel) t p s = Inl AssertFail"
  using assms
  by (simp add: ipc_list_suspend_def rt_thread_suspend_def rt_thread_self_def assert_then_def
      list_remove_thread_def bind_res_def)

section \<open>The mutex invariant\<close>

text \<open>Without ceilings: a mutex's waiters are queued by priority, its recorded priority is at
  least as urgent as any of them, a free mutex has no waiters and an owned one is held and in its
  owner's list; and every started thread runs at exactly its own priority or, when that is more urgent,
  at the most urgent of the mutexes it owns.\<close>

definition mutex_queue_ok :: "kernel \<Rightarrow> nat \<Rightarrow> bool" where
  "mutex_queue_ok s n \<longleftrightarrow> ceiling_priority (mutexes s n) = 0xff
     \<and> sorted (map (tprio s) (queues s (QSuspend (OMutex n))))
     \<and> (\<forall>w \<in> set (queues s (QSuspend (OMutex n))).
          mutex_priority (mutexes s n) \<le> tprio s w \<and> pending_object (threads s w) = Some n)
     \<and> (owner (mutexes s n) = None \<longrightarrow> queues s (QSuspend (OMutex n)) = [])
     \<and> (owner (mutexes s n) \<noteq> None \<longrightarrow> 1 \<le> hold (mutexes s n) \<and> hold (mutexes s n) \<le> 255)
     \<and> (\<forall>t. n \<in> set (taken_object_list (threads s t)) \<longleftrightarrow> owner (mutexes s n) = Some t)"

definition inherits :: "kernel \<Rightarrow> tid \<Rightarrow> bool" where
  "inherits s t \<longleftrightarrow> tprio s t = thread_get_mutex_priority t s \<and> init_priority (threads s t) < 32"

definition mutex_inv :: "kernel \<Rightarrow> bool" where
  "mutex_inv s \<longleftrightarrow> (\<forall>n. mutex_queue_ok s n) \<and> (\<forall>t. started s t \<longrightarrow> inherits s t)
     \<and> (\<forall>t. distinct (taken_object_list (threads s t)))"

definition mutex_valid :: "nat \<Rightarrow> kernel \<Rightarrow> bool" where
  "mutex_valid n s \<longleftrightarrow> rt_object_get_type (OMutex n) s = RT_Object_Class_Mutex
     \<and> obj_flag (objs s (OMutex n)) = RT_IPC_FLAG_PRIO"

lemma foldl_min_iff:
  fixes f :: "'a \<Rightarrow> nat"
  shows "foldl (\<lambda>p n. if p > f n then f n else p) i l = r \<longleftrightarrow>
    r \<le> i \<and> (\<forall>n \<in> set l. r \<le> f n) \<and> (r = i \<or> (\<exists>n \<in> set l. r = f n))"
proof (induction l arbitrary: i)
  case (Cons a l)
  show ?case by (simp add: Cons.IH del: foldl.simps(1)) (cases "f a < i"; force)
qed auto

lemma get_mutex_priority_iff:
  "thread_get_mutex_priority t s = r \<longleftrightarrow>
     r \<le> init_priority (threads s t)
     \<and> (\<forall>n \<in> set (taken_object_list (threads s t)). r \<le> mutex_priority (mutexes s n))
     \<and> (r = init_priority (threads s t)
        \<or> (\<exists>n \<in> set (taken_object_list (threads s t)). r = mutex_priority (mutexes s n)))"
  unfolding thread_get_mutex_priority_def by (rule foldl_min_iff)

lemma get_mutex_priority_cong:
  "mutexes s' = mutexes s \<Longrightarrow> taken_object_list (threads s' t) = taken_object_list (threads s t) \<Longrightarrow>
   init_priority (threads s' t) = init_priority (threads s t) \<Longrightarrow>
   thread_get_mutex_priority t s' = thread_get_mutex_priority t s"
  unfolding thread_get_mutex_priority_def by (simp only:)

lemma inherits_iff:
  "inherits s t \<longleftrightarrow> init_priority (threads s t) < 32 \<and> tprio s t \<le> init_priority (threads s t)
     \<and> (\<forall>n \<in> set (taken_object_list (threads s t)). tprio s t \<le> mutex_priority (mutexes s n))
     \<and> (tprio s t = init_priority (threads s t)
        \<or> (\<exists>n \<in> set (taken_object_list (threads s t)). tprio s t = mutex_priority (mutexes s n)))"
  unfolding inherits_def using get_mutex_priority_iff [of t s "tprio s t"] by auto

text \<open>No priority inversion: the owner is at least as urgent as every waiter.\<close>

lemma owner_no_inversion:
  assumes "mutex_inv s" "owner (mutexes s n) = Some t" "started s t"
    and "w \<in> set (queues s (QSuspend (OMutex n)))"
  shows "tprio s t \<le> tprio s w"
proof -
  have q: "mutex_queue_ok s n" and i: "inherits s t" using assms by (simp_all add: mutex_inv_def)
  have "tprio s t \<le> mutex_priority (mutexes s n)"
    using q i assms(2) by (simp add: mutex_queue_ok_def inherits_iff)
  moreover have "mutex_priority (mutexes s n) \<le> tprio s w" using q assms(4) by (simp add: mutex_queue_ok_def)
  ultimately show ?thesis by simp
qed

lemma mutex_inv_same:
  assumes inv: "mutex_inv s" and th: "\<And>t. thread_same (threads s' t) (threads s t)"
    and m: "mutexes s' = mutexes s"
    and q: "\<And>n. queues s' (QSuspend (OMutex n)) = queues s (QSuspend (OMutex n))"
    and st: "\<And>t. started s' t \<Longrightarrow> started s t"
  shows "mutex_inv s'"
proof -
  have f: "tprio s' t = tprio s t" "pending_object (threads s' t) = pending_object (threads s t)"
    "taken_object_list (threads s' t) = taken_object_list (threads s t)"
    "init_priority (threads s' t) = init_priority (threads s t)" for t
    using th [of t] by (simp_all add: thread_same_def)
  have "mutex_queue_ok s' n = mutex_queue_ok s n" for n
    by (simp add: mutex_queue_ok_def m q f cong: map_cong)
  moreover have "inherits s' t = inherits s t" for t by (simp add: inherits_iff m f)
  ultimately show ?thesis using inv st by (simp add: mutex_inv_def f)
qed

text \<open>The effect of a blocking take on the invariant: the caller joins the queue in order, the
  mutex and its owner become as urgent as the caller.\<close>

lemma mutex_inv_block:
  assumes inv: "mutex_inv s" and ow: "owner (mutexes s n) = Some ow" "ow \<noteq> c" "started s ow"
    and m: "mutexes s' = (mutexes s)(n := (mutexes s n)\<lparr>mutex_priority :=
              min (tprio s c) (mutex_priority (mutexes s n))\<rparr>)"
    and q: "queues s' (QSuspend (OMutex n)) =
              insert_when (\<lambda>u. tprio s c < tprio s u) c (queues s (QSuspend (OMutex n)))"
    and q': "\<And>k. k \<noteq> n \<Longrightarrow> queues s' (QSuspend (OMutex k)) = queues s (QSuspend (OMutex k))"
    and nq: "\<And>k. ow \<notin> set (queues s (QSuspend (OMutex k)))" "\<And>k. c \<notin> set (queues s (QSuspend (OMutex k)))"
    and p: "\<And>t. tprio s' t = (if t = ow then min (tprio s c) (tprio s ow) else tprio s t)"
    and pe: "\<And>t. pending_object (threads s' t) = (if t = c then Some n else pending_object (threads s t))"
    and th: "\<And>t. init_priority (threads s' t) = init_priority (threads s t)"
      "\<And>t. taken_object_list (threads s' t) = taken_object_list (threads s t)"
    and st: "\<And>t. started s' t \<Longrightarrow> started s t"
  shows "mutex_inv s'"
proof -
  have q0: "mutex_queue_ok s n" using inv by (simp add: mutex_inv_def)
  have pq: "tprio s' u = tprio s u" if "u \<in> insert c (set (queues s (QSuspend (OMutex k))))" for u k
    using that nq(1) [of k] ow(2) by (auto simp: p)
  have "mutex_queue_ok s' k" for k
  proof (cases "k = n")
    case False
    have "mutex_queue_ok s k" using inv by (simp add: mutex_inv_def)
    moreover have "map (tprio s') (queues s (QSuspend (OMutex k))) = map (tprio s) (queues s (QSuspend (OMutex k)))"
      using pq [of _ k] by simp
    ultimately show ?thesis
      using False nq(2) [of k] pq [of _ k]
      by (simp add: mutex_queue_ok_def m q' pe th del: map_eq_conv) auto
  next
    case True
    let ?Q = "queues s (QSuspend (OMutex n))"
    let ?Q' = "insert_when (\<lambda>u. tprio s c < tprio s u) c ?Q"
    have mp: "map (tprio s') ?Q' = map (tprio s) ?Q'" using pq [of _ n] by simp
    have "sorted (map (tprio s) ?Q')"
      using q0 by (intro sorted_insert_when) (simp_all add: mutex_queue_ok_def)
    then show ?thesis
      using True q0 ow(1) pq [of _ n] nq(2) [of n]
      by (auto simp: mutex_queue_ok_def m q mp pe th min_le_iff_disj)
  qed
  moreover have "inherits s' t" if "started s' t" for t
  proof -
    have i: "inherits s t" using inv st [OF that] by (simp add: mutex_inv_def)
    show ?thesis
    proof (cases "t = ow")
      case True
      have nt: "n \<in> set (taken_object_list (threads s ow))" using q0 ow(1) by (simp add: mutex_queue_ok_def)
      then have mp: "tprio s ow \<le> mutex_priority (mutexes s n)" using i True by (simp add: inherits_iff)
      show ?thesis
      proof (cases "tprio s c < tprio s ow")
        case True
        then have "min (tprio s c) (mutex_priority (mutexes s n)) = tprio s c" using mp by simp
        then show ?thesis using i nt True \<open>t = ow\<close> by (auto simp: inherits_iff p th m)
      next
        case False
        then have e: "min (tprio s c) (tprio s ow) = tprio s ow" by simp
        have keep: "tprio s ow = mutex_priority (mutexes s k) \<Longrightarrow> tprio s ow = mutex_priority (mutexes s' k)" for k
          using False by (auto simp: m min_def)
        have low: "tprio s ow \<le> mutex_priority (mutexes s' k)" if "tprio s ow \<le> mutex_priority (mutexes s k)" for k
          using that False by (auto simp: m)
        show ?thesis
          using i keep low unfolding inherits_iff \<open>t = ow\<close> th p e by (metis (full_types))
      qed
    next
      case False
      then have "n \<notin> set (taken_object_list (threads s t))"
        using q0 ow(1) by (auto simp: mutex_queue_ok_def)
      then show ?thesis using i False by (auto simp: inherits_iff p th m)
    qed
  qed
  ultimately show ?thesis using inv by (simp add: mutex_inv_def th)
qed

lemma thread_update_priority_fuel:
  assumes "cur s \<noteq> Some t \<or> tstat s t \<noteq> RT_THREAD_SUSPEND"
  shows "thread_update_priority (Suc fuel) t p s \<noteq> Inl OutOfFuel"
proof (cases "rt_thread_change_priority t p s")
  case (Inl f)
  then have "f \<noteq> OutOfFuel"
    by (auto simp: change_priority_alt assert_then_def rt_schedule_remove_thread_def
        rt_schedule_insert_thread_def Let_def bind_res_def split: if_splits sum.splits)
  then show ?thesis using Inl by (simp add: bind_res_def)
next
  case (Inr x)
  obtain r s' where x: "x = (r, s')" by force
  have "tstat s' t = RT_THREAD_SUSPEND \<longrightarrow> cur s' \<noteq> Some t"
    using Inr assms unfolding x
    by (auto simp: change_priority_alt assert_then_def rt_schedule_remove_thread_def
        rt_schedule_insert_thread_def Let_def bind_res_def upd_thread_def upd_queue_def list_remove_thread_def
        split: if_splits sum.splits)
  then show ?thesis
    using Inr unfolding x
    by (auto simp: ipc_list_suspend_def rt_thread_suspend_def rt_thread_self_def assert_then_def
        list_remove_thread_def bind_res_def split: option.splits)
qed

lemma ready_exists:
  assumes "loose_kinv {} s"
  shows "ready_group s \<noteq> 0 \<longleftrightarrow> (\<exists>t. tstat s t = RT_THREAD_READY)"
proof -
  have b: "bitmap_ok s" and r: "\<And>p t. t \<in> set (queues s (QReady p)) \<longleftrightarrow> tstat s t = RT_THREAD_READY \<and> tprio s t = p"
    and m: "\<And>t. started s t \<Longrightarrow> tprio s t < 32"
    using assms by (simp_all add: loose_kinv_def loose_inv_def)
  show ?thesis
  proof
    assume "ready_group s \<noteq> 0"
    then obtain p where p: "p < 32" "bit (ready_group s) p" unfolding word_nonzero_bit by blast
    then have "queues s (QReady p) \<noteq> []" using b by (simp add: bitmap_ok_def)
    then obtain t where "t \<in> set (queues s (QReady p))" by (cases "queues s (QReady p)") auto
    then show "\<exists>t. tstat s t = RT_THREAD_READY" using r by blast
  next
    assume "\<exists>t. tstat s t = RT_THREAD_READY"
    then obtain t where t: "tstat s t = RT_THREAD_READY" by blast
    then have "t \<in> set (queues s (QReady (tprio s t)))" "tprio s t < 32"
      using r m [of t] by (simp_all add: started_def)
    then have "bit (ready_group s) (tprio s t)" using b by (auto simp: bitmap_ok_def)
    then show "ready_group s \<noteq> 0" using \<open>tprio s t < 32\<close> unfolding word_nonzero_bit by blast
  qed
qed

lemma boost_ok:
  assumes k: "loose_kinv {} s" and t: "boostable s t" and p: "p < 32"
    and c: "tstat s t = RT_THREAD_READY \<Longrightarrow> cur s \<noteq> Some t"
  obtains s' where "thread_update_priority (Suc fuel) t p s = Inr s'" "loose_kinv {} s'"
    "threads s' = (threads s)(t := set_prio p (threads s t))"
    "\<And>q. \<forall>p. q \<noteq> QReady p \<Longrightarrow> queues s' q = queues s q"
    "s' = s\<lparr>threads := threads s', queues := queues s', ready_group := ready_group s'\<rparr>"
proof -
  have st: "started s t" using t by (simp add: boostable_def)
  obtain s' where s': "rt_thread_change_priority t p s = Inr (RT_EOK, s')" "loose_kinv {} s'"
    "threads s' = (threads s)(t := set_prio p (threads s t))"
    "\<And>q. \<forall>p. q \<noteq> QReady p \<Longrightarrow> queues s' q = queues s q"
    "s' = s\<lparr>threads := threads s', queues := queues s', ready_group := ready_group s'\<rparr>"
    by (rule change_priority_ok [OF k st p c]) blast+
  show thesis by (rule that [OF update_priority_eq [OF s'(1,3) t] s'(2-)])
qed

lemma upd_mutex_frame [simp]:
  "threads (upd_mutex n f s) = threads s" "queues (upd_mutex n f s) = queues s"
  "cur (upd_mutex n f s) = cur s" "ready_group (upd_mutex n f s) = ready_group s"
  "lock_nest (upd_mutex n f s) = lock_nest s" "irq_nest (upd_mutex n f s) = irq_nest s"
  "objs (upd_mutex n f s) = objs s" "timer_list (upd_mutex n f s) = timer_list s"
  "mutexes (upd_mutex n f s) = (mutexes s)(n := f (mutexes s n))"
  "loose_kinv X (upd_mutex n f s) = loose_kinv X s"
  by (simp_all add: upd_mutex_def kinv_other_fields)

text \<open>What a blocking take does between suspending the caller and arming its timer.\<close>

lemma take_boost_ok:
  assumes k: "loose_kinv {} s" and ow: "boostable s ow" and c: "tstat s ow = RT_THREAD_READY \<Longrightarrow> cur s \<noteq> Some ow"
    and p: "p < 32" and le: "tprio s ow \<le> mutex_priority (mutexes s n)"
  obtains s' where
    "(if p < mutex_priority (mutexes s n) then
        let s = upd_mutex n (\<lambda>m. m\<lparr>mutex_priority := p\<rparr>) s
        in if mutex_priority (mutexes s n) < tprio s ow then thread_update_priority 2 ow p s else Inr s
      else Inr s) = Inr s'"
    "loose_kinv {} s'"
    "\<And>t. threads s' t = (if t = ow \<and> p < tprio s ow then set_prio p (threads s t) else threads s t)"
    "mutexes s' = (mutexes s)(n := (mutexes s n)\<lparr>mutex_priority := min p (mutex_priority (mutexes s n))\<rparr>)"
    "\<And>q. \<forall>p. q \<noteq> QReady p \<Longrightarrow> queues s' q = queues s q" "cur s' = cur s" "lock_nest s' = lock_nest s"
proof (cases "p < tprio s ow")
  case True
  let ?s = "upd_mutex n (\<lambda>m. m\<lparr>mutex_priority := p\<rparr>) s"
  have b: "boostable ?s ow" using ow by (simp add: boostable_def started_def)
  have k': "loose_kinv {} ?s" using k by simp
  have c': "tstat ?s ow = RT_THREAD_READY \<Longrightarrow> cur ?s \<noteq> Some ow" using c by simp
  obtain s' where s': "thread_update_priority 2 ow p ?s = Inr s'" "loose_kinv {} s'"
    "threads s' = (threads ?s)(ow := set_prio p (threads ?s ow))"
    "\<And>q. \<forall>p. q \<noteq> QReady p \<Longrightarrow> queues s' q = queues ?s q"
    "s' = ?s\<lparr>threads := threads s', queues := queues s', ready_group := ready_group s'\<rparr>"
    unfolding numeral_2_eq_2 by (rule boost_ok [OF k' b p c']) blast+
  have "mutexes s' = mutexes ?s" "cur s' = cur ?s" "lock_nest s' = lock_nest ?s"
    by (subst s'(5), simp)+
  then show thesis
    using True le s' by (intro that [of s']) (auto simp: Let_def)
next
  case False
  show thesis
  proof (cases "p < mutex_priority (mutexes s n)")
    case True
    with False show thesis
      using k by (intro that [of "upd_mutex n (\<lambda>m. m\<lparr>mutex_priority := p\<rparr>) s"]) (auto simp: Let_def)
  next
    case False
    then have "(mutexes s n)\<lparr>mutex_priority := min p (mutex_priority (mutexes s n))\<rparr> = mutexes s n" by simp
    with False \<open>\<not> p < tprio s ow\<close> show thesis using k by (intro that [of s]) auto
  qed
qed

lemma mutex_take_block:
  assumes r: "running s c" and v: "mutex_valid n s" and inv: "mutex_inv s"
    and ow: "owner (mutexes s n) = Some ow" "ow \<noteq> c" "boostable s ow"
    and t: "timeout \<noteq> 0" "timeout < 0x7fffffff"
  obtains s' where "rt_mutex_take n timeout s = Inr (Blocked, s')" "kinv s'" "mutex_inv s'"
    "tstat s' c = RT_THREAD_SUSPEND" "ready_group s \<noteq> 0 \<Longrightarrow> runs_highest s'"
    "owner (mutexes s' n) = Some ow" "tprio s' ow = min (tprio s ow) (tprio s c)"
    "queues s' (QSuspend (OMutex n)) =
       insert_when (\<lambda>u. tprio s c < tprio s u) c (queues s (QSuspend (OMutex n)))"
proof -
  note d = runningD [OF r]
  let ?q = "QSuspend (OMutex n)"
  let ?s0 = "upd_thread c (\<lambda>th. th\<lparr>error := RT_EOK\<rparr>) s"
  have k0: "loose_kinv {} ?s0" using d(1) by (rule K_upd_other) simp_all
  have c0: "cur ?s0 = Some c" "tstat ?s0 c = RT_THREAD_RUNNING" "queues ?s0 = queues s"
    "lock_nest ?s0 = 0" "objs ?s0 = objs s" "mutexes ?s0 = mutexes s"
    "\<And>u. tstat ?s0 u = tstat s u" "\<And>u. thread_same (threads ?s0 u) (threads s u)"
    "\<And>u. tprio ?s0 u = tprio s u"
    using d by (simp_all add: upd_thread_def thread_same_def)
  have pr: "obj_flag (objs s (OMutex n)) = RT_IPC_FLAG_PRIO" "rt_object_get_type (OMutex n) s = RT_Object_Class_Mutex"
    using v by (simp_all add: mutex_valid_def)
  have q: "waits_in ?q" by simp
  obtain s1 where s1: "ipc_list_suspend ?q c RT_IPC_FLAG_PRIO ?s0 = Inr s1" "loose_kinv {} s1"
    "tstat s1 c = RT_THREAD_SUSPEND" "cur s1 = Some c"
    "queues s1 = (queues ?s0)(?q := enqueue RT_IPC_FLAG_PRIO ?s0 c (queues ?s0 ?q))" "ipc_same s1 ?s0"
    "\<And>u. u \<noteq> c \<Longrightarrow> threads s1 u = threads ?s0 u"
    by (rule ipc_list_suspend_ok [OF k0 c0(1,2) q disjI2 [OF refl]]) blast
  have sm1: "thread_same (threads s1 u) (threads s u)" for u
    using s1(6) c0(8) [of u] by (auto simp: ipc_same_def thread_same_def)
  have t1: "tstat s1 u = (if u = c then RT_THREAD_SUSPEND else tstat s u)" for u
    using s1(3,7) c0(7) [of u] by simp
  let ?s2 = "upd_thread c (\<lambda>th. th\<lparr>pending_object := Some n\<rparr>) s1"
  have k2: "loose_kinv {} ?s2" using s1(2) by (rule K_upd_other) simp_all
  have f2: "queues ?s2 = queues s1" "cur ?s2 = cur s1" "mutexes ?s2 = mutexes s" "lock_nest ?s2 = 0"
    "\<And>u. tstat ?s2 u = tstat s1 u" "\<And>u. tprio ?s2 u = tprio s u"
    "\<And>u. init_priority (threads ?s2 u) = init_priority (threads s u)"
    "\<And>u. taken_object_list (threads ?s2 u) = taken_object_list (threads s u)"
    "\<And>u. pending_object (threads ?s2 u) = (if u = c then Some n else pending_object (threads s u))"
    using s1(6) sm1 c0(4,6) by (simp_all add: upd_thread_def ipc_same_def thread_same_def)
  have cst: "started s c" using d(3) by (simp add: started_def)
  have pc: "tprio s c < 32" using d(1) cst by (simp add: loose_kinv_def loose_inv_def)
  have b2: "boostable ?s2 ow"
    using ow(2,3) by (auto simp: boostable_def started_def f2(5,9) t1)
  have cr: "tstat ?s2 ow = RT_THREAD_READY \<Longrightarrow> cur ?s2 \<noteq> Some ow" using ow(2) s1(4) by (simp add: f2)
  have le: "tprio ?s2 ow \<le> mutex_priority (mutexes ?s2 n)"
  proof -
    have "inherits s ow" "mutex_queue_ok s n" using inv ow(3) by (simp_all add: mutex_inv_def boostable_def)
    then show ?thesis using ow(1) by (simp add: inherits_iff mutex_queue_ok_def f2)
  qed
  obtain s3 where s3:
    "(if tprio s c < mutex_priority (mutexes ?s2 n) then
        let s' = upd_mutex n (\<lambda>m. m\<lparr>mutex_priority := tprio s c\<rparr>) ?s2
        in if mutex_priority (mutexes s' n) < tprio s' ow then thread_update_priority 2 ow (tprio s c) s' else Inr s'
      else Inr ?s2) = Inr s3"
    "loose_kinv {} s3"
    "\<And>t. threads s3 t = (if t = ow \<and> tprio s c < tprio ?s2 ow then set_prio (tprio s c) (threads ?s2 t) else threads ?s2 t)"
    "mutexes s3 = (mutexes ?s2)(n := (mutexes ?s2 n)\<lparr>mutex_priority := min (tprio s c) (mutex_priority (mutexes ?s2 n))\<rparr>)"
    "\<And>q. \<forall>p. q \<noteq> QReady p \<Longrightarrow> queues s3 q = queues ?s2 q" "cur s3 = cur ?s2" "lock_nest s3 = lock_nest ?s2"
    by (rule take_boost_ok [OF k2 b2 cr pc le]) blast+
  have t3: "tstat s3 u = (if u = c then RT_THREAD_SUSPEND else tstat s u)" for u
  proof -
    have "stat (threads s3 u) = stat (threads ?s2 u)" by (cases "u = ow \<and> tprio s c < tprio ?s2 ow") (simp_all add: s3(3))
    then have "tstat s3 u = tstat ?s2 u" by (rule arg_cong)
    then show ?thesis unfolding f2(5) t1 .
  qed
  obtain s4 where s4: "arm_timeout c timeout s3 = Inr s4" "loose_kinv {} s4" "threads s4 = threads s3"
    "queues s4 = queues s3" "cur s4 = cur s3"
    by (rule arm_timeout_ok [OF s3(2) _ t(2), of c]) (use t3 [of c] in simp, blast)
  have sm4: "ipc_same s4 s3" by (rule same_arm [OF s4(1)])
  have c4: "cur s4 = Some c" "tstat s4 c \<noteq> RT_THREAD_READY" "lock_nest s4 = 0"
    using s4 s3(6,7) t3 [of c] s1(4) f2 sm4 by (simp_all add: ipc_same_def)
  obtain s5 where s5: "rt_schedule s4 = Inr s5" "kinv s5" "sched_frame s4 s5"
    "lock_nest s4 = 0 \<Longrightarrow> tstat s4 c = RT_THREAD_RUNNING \<or> ready_group s4 \<noteq> 0 \<Longrightarrow> runs_highest s5"
    by (rule schedule_ok [OF s4(2) c4(1,2)]) blast
  have sm5: "ipc_same s5 s3" by (rule ipc_same_trans [OF same_sched_frame [OF s5(3)] sm4])
  have q5: "queues s5 q' = queues s3 q'" if "\<forall>p. q' \<noteq> QReady p" for q'
    using s5(3) that s4(4) unfolding sched_frame_def by metis
  have Q: "queues s5 (QSuspend (OMutex k)) =
      (if k = n then insert_when (\<lambda>u. tprio s c < tprio s u) c (queues s ?q)
       else queues s (QSuspend (OMutex k)))" for k
    using q5 [of "QSuspend (OMutex k)"] s3(5) [of "QSuspend (OMutex k)"]
    by (simp add: f2 s1(5) c0(3,9) enqueue_def)
  have f5: "tprio s5 u = tprio s3 u" "pending_object (threads s5 u) = pending_object (threads s3 u)"
    "init_priority (threads s5 u) = init_priority (threads s3 u)"
    "taken_object_list (threads s5 u) = taken_object_list (threads s3 u)" for u
    using sm5 by (simp_all add: ipc_same_def thread_same_def)
  have m5: "mutexes s5 = mutexes s3" using sm5 by (simp add: ipc_same_def)
  have p5: "tprio s5 u = (if u = ow then min (tprio s c) (tprio s ow) else tprio s u)" for u
    by (auto simp: f5 s3(3) f2)
  have st5: "started s u" if "started s5 u" for u
  proof -
    have "started s4 u" using that started_frame [OF s5(3)] by simp
    then show ?thesis using cst by (cases "u = c") (auto simp: started_def s4(3) t3)
  qed
  have nq: "c \<notin> set (queues s (QSuspend (OMutex k)))" for k
    using running_not_queued [of "{}" s c] d(1,3) by (simp add: loose_kinv_def)
  have nqo: "ow \<notin> set (queues s (QSuspend (OMutex k)))" for k
  proof
    assume w: "ow \<in> set (queues s (QSuspend (OMutex k)))"
    have "mutex_queue_ok s k" using inv by (simp add: mutex_inv_def)
    then have "pending_object (threads s ow) = Some k" using w by (simp add: mutex_queue_ok_def)
    moreover have "tstat s ow = RT_THREAD_SUSPEND" using waiter_suspended [OF d(1) _ w] by simp
    ultimately show False using ow(3) by (simp add: boostable_def)
  qed
  have "mutex_inv s5"
  proof (rule mutex_inv_block [OF inv ow(1,2), of s5])
    show "started s ow" using ow(3) by (simp add: boostable_def)
    show "mutexes s5 = (mutexes s)(n := (mutexes s n)\<lparr>mutex_priority := min (tprio s c) (mutex_priority (mutexes s n))\<rparr>)"
      by (simp add: m5 s3(4) f2)
    show "pending_object (threads s5 t) = (if t = c then Some n else pending_object (threads s t))"
      "init_priority (threads s5 t) = init_priority (threads s t)"
      "taken_object_list (threads s5 t) = taken_object_list (threads s t)" for t
      by (auto simp: f5 s3(3) f2)
  qed (use Q p5 st5 nq nqo in auto)
  moreover have "rt_mutex_take n timeout s = Inr (Blocked, s5)"
  proof -
    have "rt_mutex_take n timeout s =
      bind_res (ipc_list_suspend ?q c RT_IPC_FLAG_PRIO ?s0) (\<lambda>s'.
        let s' = upd_thread c (\<lambda>th. th\<lparr>pending_object := Some n\<rparr>) s' in
        bind_res (if tprio s c < mutex_priority (mutexes s' n) then
            let s' = upd_mutex n (\<lambda>m. m\<lparr>mutex_priority := tprio s c\<rparr>) s'
            in if mutex_priority (mutexes s' n) < tprio s' ow then thread_update_priority 2 ow (tprio s c) s' else Inr s'
          else Inr s') (\<lambda>s'. bind_res (arm_timeout c timeout s') (\<lambda>s'.
        bind_res (rt_schedule s') (\<lambda>s'. Inr (Blocked, s')))))"
      using t(1) ow(1,2) d(6,7) pr
      by (simp add: rt_mutex_take_def c0(5,6,9) Let_def)
    then show ?thesis using s1(1) s3(1) s4(1) s5(1) by (simp add: Let_def)
  qed
  moreover have "tstat s5 c = RT_THREAD_SUSPEND"
    using sched_frame_stat [OF s5(3), of RT_THREAD_SUSPEND c] t3 [of c] s4(3) by simp
  moreover have "runs_highest s5" if rg: "ready_group s \<noteq> 0"
  proof -
    obtain u where u: "tstat s u = RT_THREAD_READY" using rg ready_exists [OF d(1)] by blast
    then have "tstat s4 u = RT_THREAD_READY" using d(3) by (auto simp: s4(3) t3)
    then show ?thesis using s5(4) c4(3) ready_exists [OF s4(2)] by blast
  qed
  moreover have "owner (mutexes s5 n) = Some ow" using ow(1) by (simp add: m5 s3(4) f2)
  ultimately show thesis
    using s5(2) p5 [of ow] Q [of n] by (intro that [of s5]) (auto simp: min.commute)
qed

text \<open>The invariant while mutex \<open>n\<close> changes hands: it is in nobody's list.\<close>

definition mutex_inv_but :: "nat \<Rightarrow> kernel \<Rightarrow> bool" where
  "mutex_inv_but n s \<longleftrightarrow> (\<forall>k. k \<noteq> n \<longrightarrow> mutex_queue_ok s k) \<and> (\<forall>t. started s t \<longrightarrow> inherits s t)
     \<and> (\<forall>t. distinct (taken_object_list (threads s t)))
     \<and> (\<forall>t. n \<notin> set (taken_object_list (threads s t)))
     \<and> ceiling_priority (mutexes s n) = 0xff
     \<and> sorted (map (tprio s) (queues s (QSuspend (OMutex n))))
     \<and> (\<forall>w \<in> set (queues s (QSuspend (OMutex n))). pending_object (threads s w) = Some n)"

lemma mutex_inv_but_free:
  assumes "mutex_inv s" "owner (mutexes s n) = None"
  shows "mutex_inv_but n s" "queues s (QSuspend (OMutex n)) = []"
proof -
  have "mutex_queue_ok s n" using assms(1) by (simp add: mutex_inv_def)
  then show "queues s (QSuspend (OMutex n)) = []" using assms(2) by (simp add: mutex_queue_ok_def)
  then show "mutex_inv_but n s"
    using assms \<open>mutex_queue_ok s n\<close> by (simp add: mutex_inv_but_def mutex_inv_def mutex_queue_ok_def)
qed

lemma mutex_queue_ok_cong:
  assumes "mutex_queue_ok s k" "mutexes s' k = mutexes s k"
    and "queues s' (QSuspend (OMutex k)) = queues s (QSuspend (OMutex k))"
    and "\<And>w. w \<in> set (queues s (QSuspend (OMutex k))) \<Longrightarrow> tprio s' w = tprio s w
           \<and> pending_object (threads s' w) = pending_object (threads s w)"
    and "\<And>t. k \<in> set (taken_object_list (threads s' t)) \<longleftrightarrow> k \<in> set (taken_object_list (threads s t))"
  shows "mutex_queue_ok s' k"
proof -
  have mp: "map (tprio s') (queues s (QSuspend (OMutex k))) = map (tprio s) (queues s (QSuspend (OMutex k)))"
    using assms(4) by simp
  show ?thesis
    using assms(1,4,5) unfolding mutex_queue_ok_def assms(2,3) mp by simp
qed

lemma mutex_inv_hold:
  assumes "mutex_inv s" "1 \<le> h (mutexes s n)" "h (mutexes s n) \<le> 255"
  shows "mutex_inv (upd_mutex n (\<lambda>m. m\<lparr>hold := h m\<rparr>) s)" (is "mutex_inv ?s")
proof -
  have "mutex_queue_ok ?s k" for k
  proof -
    have "mutex_queue_ok s k" using assms(1) by (simp add: mutex_inv_def)
    then show ?thesis using assms(2,3) by (cases "k = n") (simp_all add: mutex_queue_ok_def)
  qed
  moreover have "inherits ?s t" if "started ?s t" for t
  proof -
    have i: "inherits s t" using assms(1) that by (auto simp: mutex_inv_def started_def)
    have e: "mutex_priority (mutexes ?s k) = mutex_priority (mutexes s k)" "threads ?s = threads s" for k by simp_all
    show ?thesis using i unfolding inherits_iff e .
  qed
  ultimately show ?thesis using assms(1) by (simp add: mutex_inv_def)
qed

lemma mutex_inv_give:
  assumes b: "mutex_inv_but n s"
    and m: "mutexes s' = (mutexes s)(n := m')" "ceiling_priority m' = 0xff" "owner m' = Some t" "hold m' = 1"
    and q: "\<And>k. k \<noteq> n \<Longrightarrow> queues s' (QSuspend (OMutex k)) = queues s (QSuspend (OMutex k))"
    and so: "sorted (map (tprio s) (queues s' (QSuspend (OMutex n))))"
    and w: "\<And>w. w \<in> set (queues s' (QSuspend (OMutex n))) \<Longrightarrow>
          mutex_priority m' \<le> tprio s w \<and> pending_object (threads s w) = Some n"
    and t: "started s t \<Longrightarrow> tprio s t \<le> mutex_priority m'"
    and p: "\<And>u. tprio s' u = tprio s u" "\<And>u. init_priority (threads s' u) = init_priority (threads s u)"
    and pe: "\<And>u k. u \<in> set (queues s' (QSuspend (OMutex k))) \<Longrightarrow>
          pending_object (threads s' u) = pending_object (threads s u)"
    and tk: "\<And>u. taken_object_list (threads s' u) =
          (if u = t then n # taken_object_list (threads s u) else taken_object_list (threads s u))"
    and st: "\<And>u. started s' u \<Longrightarrow> started s u"
  shows "mutex_inv s'"
proof -
  have nt: "n \<notin> set (taken_object_list (threads s u))" "distinct (taken_object_list (threads s u))" for u
    using b by (simp_all add: mutex_inv_but_def)
  have "mutex_queue_ok s' k" for k
  proof (cases "k = n")
    case True
    then show ?thesis using so w pe [of _ n] nt(1)
      by (auto simp: mutex_queue_ok_def m p tk)
  next
    case False
    have "mutex_queue_ok s k" using b False by (simp add: mutex_inv_but_def)
    then show ?thesis
      by (rule mutex_queue_ok_cong) (use False q pe [of _ k] in \<open>auto simp: m p tk\<close>)
  qed
  moreover have "inherits s' u" if "started s' u" for u
  proof -
    have i: "inherits s u" using b st [OF that] by (simp add: mutex_inv_but_def)
    have e: "mutex_priority (mutexes s' k) = mutex_priority (mutexes s k)"
      if "k \<in> set (taken_object_list (threads s u))" for k
      using that nt(1) [of u] by (auto simp: m)
    show ?thesis
      using i t st [OF that] e unfolding inherits_iff p tk by (auto simp: m(1))
  qed
  ultimately show ?thesis using nt by (simp add: mutex_inv_def tk)
qed

lemma mutex_inv_free:
  assumes b: "mutex_inv_but n s"
    and m: "mutexes s' = (mutexes s)(n := m')" "ceiling_priority m' = 0xff" "owner m' = None"
    and q: "\<And>k. queues s' (QSuspend (OMutex k)) = queues s (QSuspend (OMutex k))"
      "queues s (QSuspend (OMutex n)) = []"
    and th: "\<And>u. thread_same (threads s' u) (threads s u)"
    and st: "\<And>u. started s' u \<Longrightarrow> started s u"
  shows "mutex_inv s'"
proof -
  have f: "tprio s' t = tprio s t" "pending_object (threads s' t) = pending_object (threads s t)"
    "taken_object_list (threads s' t) = taken_object_list (threads s t)"
    "init_priority (threads s' t) = init_priority (threads s t)" for t
    using th [of t] by (simp_all add: thread_same_def)
  have nt: "n \<notin> set (taken_object_list (threads s u))" "distinct (taken_object_list (threads s u))" for u
    using b by (simp_all add: mutex_inv_but_def)
  have "mutex_queue_ok s' k" for k
  proof (cases "k = n")
    case True
    then show ?thesis using nt(1) by (simp add: mutex_queue_ok_def m q f)
  next
    case False
    have "mutex_queue_ok s k" using b False by (simp add: mutex_inv_but_def)
    then show ?thesis by (rule mutex_queue_ok_cong) (use False q in \<open>auto simp: m f\<close>)
  qed
  moreover have "inherits s' u" if "started s' u" for u
  proof -
    have i: "inherits s u" using b st [OF that] by (simp add: mutex_inv_but_def)
    have "mutex_priority (mutexes s' k) = mutex_priority (mutexes s k)"
      if "k \<in> set (taken_object_list (threads s u))" for k
      using that nt(1) [of u] by (auto simp: m)
    then show ?thesis using i unfolding inherits_iff f by auto
  qed
  ultimately show ?thesis using nt by (simp add: mutex_inv_def f)
qed

lemma taken_insert_frame [simp]:
  "mutexes (taken_insert n t s) = mutexes s" "queues (taken_insert n t s) = queues s"
  "cur (taken_insert n t s) = cur s" "lock_nest (taken_insert n t s) = lock_nest s"
  "tstat (taken_insert n t s) u = tstat s u" "tprio (taken_insert n t s) u = tprio s u"
  "ready_group (taken_insert n t s) = ready_group s" "objs (taken_insert n t s) = objs s"
  by (simp_all add: taken_insert_def upd_thread_def)

lemma K_taken_insert: "loose_kinv X s \<Longrightarrow> loose_kinv X (taken_insert n t s)"
  unfolding taken_insert_def by (rule K_upd_other) simp_all

lemma kinv_alt:
  "kinv s \<longleftrightarrow> loose_kinv {} s \<and> (\<forall>c. cur s = Some c \<longrightarrow> tstat s c \<noteq> RT_THREAD_READY)"
  by (simp only: kinv_def)

lemma mutex_take_free:
  assumes "running s c" "mutex_valid n s" "mutex_inv s" and None: "owner (mutexes s n) = None"
  shows "\<exists>s'. rt_mutex_take n timeout s = Inr (Return RT_EOK, s') \<and> kinv s' \<and> mutex_inv s'
    \<and> owner (mutexes s' n) = Some c \<and> hold (mutexes s' n) = 1"
proof -
  note d = runningD [OF assms(1)]
  have ty: "rt_object_get_type (OMutex n) s = RT_Object_Class_Mutex" using assms(2) by (simp add: mutex_valid_def)
  have ke: "loose_kinv {} (upd_thread c (\<lambda>th. th\<lparr>error := e\<rparr>) s)" for e
    using d(1) by (rule K_upd_other) simp_all
  let ?s0 = "upd_thread c (\<lambda>th. th\<lparr>error := RT_EOK\<rparr>) s"
  have f0: "threads (upd_thread c (\<lambda>th. th\<lparr>error := e\<rparr>) s) u =
      (if u = c then (threads s c)\<lparr>error := e\<rparr> else threads s u)" for u e
    by (simp add: upd_thread_def)
  have c0: "cur ?s0 = Some c" "mutexes ?s0 = mutexes s" "queues ?s0 = queues s" "\<And>u. tstat ?s0 u = tstat s u"
    using d(2) by (simp_all add: upd_thread_def)
  have i0: "mutex_inv (upd_thread c (\<lambda>th. th\<lparr>error := e\<rparr>) s)" for e
    by (rule mutex_inv_same [OF assms(3)])
      (auto simp: upd_thread_def thread_same_def started_def split: if_splits)
  have cr: "tstat s c \<noteq> RT_THREAD_READY" using d(3) by simp
  let ?m = "(mutexes s n)\<lparr>owner := Some c, mutex_priority := 0xff, hold := 1\<rparr>"
  let ?s' = "taken_insert n c (upd_mutex n (\<lambda>m. m\<lparr>owner := Some c, mutex_priority := 0xff, hold := 1\<rparr>) ?s0)"
  have o: "owner (mutexes ?s0 n) = None" using None by (simp add: c0)
  note b = mutex_inv_but_free [OF i0 o]
  have pc: "tprio s c < 32" using d(1,3) by (simp add: loose_kinv_def loose_inv_def started_def)
  have ce: "ceiling_priority (mutexes s n) = 0xff" using b(1) by (simp add: mutex_inv_but_def c0)
  have "mutex_inv ?s'"
  proof (rule mutex_inv_give [OF b(1), where m' = ?m and t = c])
    show "tprio ?s0 c \<le> mutex_priority ?m" using pc by (simp add: upd_thread_def)
  qed (use b(2) ce in \<open>auto simp: c0 taken_insert_def upd_thread_def upd_mutex_def started_def split: if_splits\<close>)
  moreover have "rt_mutex_take n timeout s = Inr (Return RT_EOK, ?s')"
    using None d(6,7) ty ce by (simp add: rt_mutex_take_def c0 Let_def)
  moreover have "kinv ?s'"
    unfolding kinv_alt using K_taken_insert [of "{}" "upd_mutex n (\<lambda>m. m\<lparr>owner := Some c, mutex_priority := 0xff, hold := 1\<rparr>) ?s0"]
      ke [of RT_EOK] cr by (simp add: c0)
  ultimately show ?thesis using None by (auto simp: c0)
qed

lemma mutex_take_own:
  assumes "running s c" "mutex_valid n s" "mutex_inv s" and own: "owner (mutexes s n) = Some c"
  shows "\<exists>r s'. rt_mutex_take n timeout s = Inr (r, s') \<and> kinv s' \<and> mutex_inv s' \<and> owner (mutexes s' n) = Some c
    \<and> (if hold (mutexes s n) < 255 then r = Return RT_EOK \<and> hold (mutexes s' n) = hold (mutexes s n) + 1
       else r = Return (- RT_EFULL) \<and> mutexes s' = mutexes s)"
proof -
  note d = runningD [OF assms(1)]
  have ty: "rt_object_get_type (OMutex n) s = RT_Object_Class_Mutex" using assms(2) by (simp add: mutex_valid_def)
  have ke: "loose_kinv {} (upd_thread c (\<lambda>th. th\<lparr>error := e\<rparr>) s)" for e
    using d(1) by (rule K_upd_other) simp_all
  let ?s0 = "upd_thread c (\<lambda>th. th\<lparr>error := RT_EOK\<rparr>) s"
  have f0: "threads (upd_thread c (\<lambda>th. th\<lparr>error := e\<rparr>) s) u =
      (if u = c then (threads s c)\<lparr>error := e\<rparr> else threads s u)" for u e
    by (simp add: upd_thread_def)
  have c0: "cur ?s0 = Some c" "mutexes ?s0 = mutexes s" "queues ?s0 = queues s" "\<And>u. tstat ?s0 u = tstat s u"
    using d(2) by (simp_all add: upd_thread_def)
  have i0: "mutex_inv (upd_thread c (\<lambda>th. th\<lparr>error := e\<rparr>) s)" for e
    by (rule mutex_inv_same [OF assms(3)])
      (auto simp: upd_thread_def thread_same_def started_def split: if_splits)
  have cr: "tstat s c \<noteq> RT_THREAD_READY" using d(3) by simp
  let ?s' = "if hold (mutexes s n) < 255 then upd_mutex n (\<lambda>m. m\<lparr>hold := hold m + 1\<rparr>) ?s0 else ?s0"
  have "rt_mutex_take n timeout s = Inr
      (if hold (mutexes s n) < 255 then Return RT_EOK else Return (- RT_EFULL), ?s')"
    using own d(6,7) ty by (simp add: rt_mutex_take_def c0 Let_def)
  moreover have "kinv ?s'" unfolding kinv_alt using ke [of RT_EOK] cr by (simp add: c0)
  moreover have "mutex_inv ?s'"
    using i0 [of RT_EOK] mutex_inv_hold [OF i0 [of RT_EOK], of "\<lambda>m. hold m + 1" n] by (simp add: c0)
  ultimately show ?thesis using own by (auto simp: c0)
qed

lemma mutex_take_poll:
  assumes "running s c" "mutex_valid n s" "mutex_inv s" and no: "owner (mutexes s n) = Some t" "t \<noteq> c"
  shows "\<exists>s'. rt_mutex_take n 0 s = Inr (Return (- RT_ETIMEOUT), s') \<and> kinv s' \<and> mutex_inv s' \<and> mutexes s' = mutexes s"
proof -
  note d = runningD [OF assms(1)]
  have ty: "rt_object_get_type (OMutex n) s = RT_Object_Class_Mutex" using assms(2) by (simp add: mutex_valid_def)
  have ke: "loose_kinv {} (upd_thread c (\<lambda>th. th\<lparr>error := e\<rparr>) s)" for e
    using d(1) by (rule K_upd_other) simp_all
  let ?s0 = "upd_thread c (\<lambda>th. th\<lparr>error := RT_EOK\<rparr>) s"
  have f0: "threads (upd_thread c (\<lambda>th. th\<lparr>error := e\<rparr>) s) u =
      (if u = c then (threads s c)\<lparr>error := e\<rparr> else threads s u)" for u e
    by (simp add: upd_thread_def)
  have c0: "cur ?s0 = Some c" "mutexes ?s0 = mutexes s" "queues ?s0 = queues s" "\<And>u. tstat ?s0 u = tstat s u"
    using d(2) by (simp_all add: upd_thread_def)
  have i0: "mutex_inv (upd_thread c (\<lambda>th. th\<lparr>error := e\<rparr>) s)" for e
    by (rule mutex_inv_same [OF assms(3)])
      (auto simp: upd_thread_def thread_same_def started_def split: if_splits)
  have cr: "tstat s c \<noteq> RT_THREAD_READY" using d(3) by simp
  let ?s' = "upd_thread c (\<lambda>th. th\<lparr>error := - RT_ETIMEOUT\<rparr>) s"
  have "rt_mutex_take n 0 s = Inr (Return (- RT_ETIMEOUT), ?s')"
    using no d(6,7) ty by (simp add: rt_mutex_take_def c0 Let_def) (simp add: upd_thread_def)
  moreover have "kinv ?s'" unfolding kinv_alt using ke [of "- RT_ETIMEOUT"] cr d(2) by (auto simp: upd_thread_def)
  ultimately show ?thesis using no i0 [of "- RT_ETIMEOUT"] by (simp add: upd_thread_def)
qed

text \<open>C7: taking a mutex.  In thread context, with the kernel and the mutex invariant, on a
  valid mutex whose owner (if another thread) is not itself recorded as waiting for a mutex,
  \<^verbatim>\<open>rt_mutex_take\<close> never faults and keeps both invariants, and: a free mutex is
  owned by the caller; the owner's hold count grows up to 255; another thread's mutex is a timeout at
  once without waiting time, and else the caller is queued by priority and suspended, the owner
  inherits the caller's priority when that is more urgent, and a most urgent thread runs.\<close>

theorem rt_mutex_take_correct:
  assumes "running s c" "mutex_valid n s" "mutex_inv s" "timeout < 0x7fffffff"
    and "\<forall>t. owner (mutexes s n) = Some t \<longrightarrow> boostable s t"
  shows "\<exists>r s'. rt_mutex_take n timeout s = Inr (r, s') \<and> kinv s' \<and> mutex_inv s' \<and>
    (case owner (mutexes s n) of
       None \<Rightarrow> r = Return RT_EOK \<and> owner (mutexes s' n) = Some c \<and> hold (mutexes s' n) = 1
     | Some t \<Rightarrow>
         owner (mutexes s' n) = Some t \<and>
         (if t = c then
            if hold (mutexes s n) < 255 then r = Return RT_EOK \<and> hold (mutexes s' n) = hold (mutexes s n) + 1
            else r = Return (- RT_EFULL) \<and> mutexes s' = mutexes s
          else if timeout = 0 then r = Return (- RT_ETIMEOUT) \<and> mutexes s' = mutexes s
          else r = Blocked \<and> tstat s' c = RT_THREAD_SUSPEND
            \<and> tprio s' t = min (tprio s t) (tprio s c)
            \<and> queues s' (QSuspend (OMutex n)) =
                insert_when (\<lambda>u. tprio s c < tprio s u) c (queues s (QSuspend (OMutex n)))
            \<and> (ready_group s \<noteq> 0 \<longrightarrow> runs_highest s')))"
proof (cases "owner (mutexes s n)")
  case None
  then show ?thesis using mutex_take_free [OF assms(1-3) None] by auto
next
  case (Some t)
  consider (own) "t = c" | (no) "t \<noteq> c" "timeout = 0" | (block) "t \<noteq> c" "timeout \<noteq> 0" by blast
  then show ?thesis
  proof cases
    case own
    then show ?thesis using mutex_take_own [OF assms(1-3), of timeout] Some by auto
  next
    case no
    then show ?thesis using mutex_take_poll [OF assms(1-3) Some no(1)] Some by auto
  next
    case block
    have bo: "boostable s t" using assms(5) Some by simp
    show ?thesis
      by (rule mutex_take_block [OF assms(1-3) Some block(1) bo block(2) assms(4)]) (use Some block in auto)
  qed
qed

text \<open>Thread \<open>t\<close> owns mutex 0 of the demonstration kernel.\<close>

definition demo_mutex :: "tid \<Rightarrow> kernel" where
  "demo_mutex t = taken_insert 0 t (upd_mutex 0 (\<lambda>m. m\<lparr>owner := Some t, hold := 1\<rparr>) demo_kernel)"

lemma demo_mutex_fields:
  "tstat (demo_mutex o1) t = tstat demo_kernel t" "tprio (demo_mutex o1) t = tprio demo_kernel t"
  "queues (demo_mutex o1) = queues demo_kernel" "cur (demo_mutex o1) = Some 1"
  "lock_nest (demo_mutex o1) = 0" "irq_nest (demo_mutex o1) = 0"
  "ready_group (demo_mutex o1) = ready_group demo_kernel"
  "mutexes (demo_mutex o1) n = \<lparr>ceiling_priority = 0xff, mutex_priority = 0xff,
     hold = (if n = 0 then 1 else 0), owner = (if n = 0 then Some o1 else None)\<rparr>"
  "taken_object_list (threads (demo_mutex o1) t) = (if t = o1 then [0] else [])"
  "init_priority (threads (demo_mutex o1) t) = tprio demo_kernel t"
  "pending_object (threads (demo_mutex o1) t) = None"
  by (simp_all add: demo_mutex_def demo_cur)
    (simp_all add: demo_kernel_def taken_insert_def upd_thread_def upd_mutex_def demo_thread_def)

lemma demo_mutex_running: "running (demo_mutex o1) 1"
proof -
  have "loose_kinv {} demo_kernel" using demo_kinv by (simp add: kinv_def)
  then have "loose_kinv {} (demo_mutex o1)" unfolding demo_mutex_def by (intro K_taken_insert) simp
  then show ?thesis by (simp add: running_def kinv_alt demo_mutex_fields demo_stat)
qed

lemma demo_mutex_inv: "mutex_inv (demo_mutex o1)"
proof -
  have "mutex_queue_ok (demo_mutex o1) k" for k
    by (auto simp: mutex_queue_ok_def demo_mutex_fields demo_queues)
  moreover have "inherits (demo_mutex o1) t" for t
    by (auto simp: inherits_iff demo_mutex_fields demo_prio)
  ultimately show ?thesis by (simp add: mutex_inv_def demo_mutex_fields)
qed

lemma demo_mutex_valid: "mutex_valid n (demo_mutex o1)"
  by (simp add: mutex_valid_def rt_object_get_type_def demo_mutex_def) (simp add: demo_kernel_def)

theorem rt_mutex_take_correct_witness:
  "\<exists>s'. rt_mutex_take 0 5 (demo_mutex 3) = Inr (Blocked, s') \<and> tprio s' 3 = 10 \<and> mutex_inv s'"
  using rt_mutex_take_correct [of "demo_mutex 3" 1 0 5] demo_mutex_running demo_mutex_valid demo_mutex_inv
  by (auto simp: demo_mutex_fields boostable_def started_def demo_stat demo_prio)

section \<open>Releasing\<close>

lemma hand_over_ok:
  assumes k: "loose_kinv {} s" and c: "cur s = Some c" "tstat s c = RT_THREAD_RUNNING"
    and b: "mutex_inv_but n s" and Q: "queues s (QSuspend (OMutex n)) = t # rest"
  obtains s' where "mutex_hand_over n need s = Inr (True, s')" "loose_kinv {} s'" "mutex_inv s'"
    "cur s' = Some c" "tstat s' c = RT_THREAD_RUNNING" "lock_nest s' = lock_nest s"
    "tstat s' t = RT_THREAD_READY" "owner (mutexes s' n) = Some t" "hold (mutexes s' n) = 1"
    "queues s' (QSuspend (OMutex n)) = rest" "\<And>u. tprio s' u = tprio s u"
proof -
  let ?q = "QSuspend (OMutex n)"
  have w: "waits_in ?q" by simp
  have st: "tstat s t = RT_THREAD_SUSPEND" using waiter_suspended [OF k w, of t] Q by simp
  have tc: "t \<noteq> c" using st c(2) by auto
  have dq: "distinct (queues s q)" for q using k by (simp add: loose_kinv_def loose_inv_def queues_ok_def)
  have nin: "t \<notin> set rest" using dq [of ?q] Q by simp
  let ?s1 = "list_remove_thread t s"
  have f1: "threads ?s1 = threads s" "cur ?s1 = cur s" "queues ?s1 = (\<lambda>q. remove1 t (queues s q))"
    "mutexes ?s1 = mutexes s" "lock_nest ?s1 = lock_nest s"
    by (simp_all add: list_remove_thread_def)
  have k1: "loose_kinv {} ?s1"
    using K_settle [OF K_unlink [OF k, of t], of t] st by (simp add: f1 started_def)
  let ?s2 = "upd_mutex n (\<lambda>m. m\<lparr>owner := Some t, hold := 1\<rparr>) ?s1"
  let ?s3 = "taken_insert n t ?s2"
  let ?s4 = "upd_thread t (\<lambda>th. th\<lparr>pending_object := None\<rparr>) ?s3"
  have k4: "loose_kinv {} ?s4"
    by (rule K_upd_other [OF K_taken_insert]) (use k1 in simp_all)
  have f4: "cur ?s4 = Some c" "queues ?s4 = queues ?s1" "lock_nest ?s4 = lock_nest s" "\<And>u. tstat ?s4 u = tstat s u"
    "mutexes ?s4 = mutexes ?s2"
    "threads ?s4 = (threads s)(t := (threads s t)\<lparr>taken_object_list := n # taken_object_list (threads s t),
       pending_object := None\<rparr>)"
    by (simp_all add: taken_insert_def upd_thread_def f1 c(1))
  have st4: "tstat ?s4 t = RT_THREAD_SUSPEND" using st unfolding f4(4) .
  obtain s5 where s5: "rt_thread_resume t ?s4 = Inr (RT_EOK, s5)" "loose_kinv {} s5"
    "tstat s5 t = (if cur ?s4 = Some t then RT_THREAD_RUNNING else RT_THREAD_READY)"
    "\<And>q. (\<forall>p. q \<noteq> QReady p) \<Longrightarrow> queues s5 q = remove1 t (queues ?s4 q)"
    "cur s5 = cur ?s4" "lock_nest s5 = lock_nest ?s4"
    "\<And>u. u \<noteq> t \<Longrightarrow> threads s5 u = threads ?s4 u"
    "threads s5 t = (threads ?s4 t)\<lparr>stat := stat (threads s5 t)\<rparr>"
    by (rule resume_ok [OF k4 st4]) blast
  have m5: "mutexes s5 = (mutexes s)(n := (mutexes s n)\<lparr>owner := Some t, hold := 1\<rparr>)"
    using same_resume [OF s5(1)] unfolding ipc_same_def f4(5) by (simp add: f1(4))
  obtain x where x: "threads s5 t = (threads ?s4 t)\<lparr>stat := x\<rparr>" using s5(8) by blast
  have th5: "threads s5 u = (if u = t then (threads s t)\<lparr>taken_object_list := n # taken_object_list (threads s t),
       pending_object := None, stat := x\<rparr> else threads s u)" for u
    using s5(7) [of u] x unfolding f4(6) by (cases "u = t") simp_all
  have sm: "current_priority (threads s5 u) = tprio s u"
     "init_priority (threads s5 u) = init_priority (threads s u)"
     "taken_object_list (threads s5 u) = (if u = t then n # taken_object_list (threads s t)
        else taken_object_list (threads s u))"
     "pending_object (threads s5 u) = (if u = t then None else pending_object (threads s u))" for u
    by (simp_all add: th5)
  have st5: "tstat s5 u = (if u = t then RT_THREAD_READY else tstat s u)" for u
    using s5(3) tc unfolding f4(1) by (cases "u = t") (simp_all add: th5)
  have q5: "queues s5 (QSuspend (OMutex k)) = (if k = n then rest else queues s (QSuspend (OMutex k)))" for k
  proof -
    have "t \<notin> set (queues s (QSuspend (OMutex k)))" if "k \<noteq> n"
      using only_in [OF k, of t ?q "QSuspend (OMutex k)"] that Q by simp
    then show ?thesis using s5(4) [of "QSuspend (OMutex k)"] Q nin unfolding f4(2) f1(3) by simp
  qed
  let ?s6 = "mutex_update_priority n s5"
  let ?m = "(mutexes s n)\<lparr>owner := Some t, hold := 1,
      mutex_priority := (case rest of [] \<Rightarrow> 0xff | u # _ \<Rightarrow> tprio s u)\<rparr>"
  have f6: "threads ?s6 = threads s5" "queues ?s6 = queues s5" "cur ?s6 = cur s5" "lock_nest ?s6 = lock_nest s5"
    "loose_kinv {} ?s6"
    using s5(2) by (simp_all add: mutex_update_priority_def)
  have m6: "mutexes ?s6 = (mutexes s)(n := ?m)"
    by (simp add: mutex_update_priority_def m5 q5 [of n, simplified] sm(1) split: list.split)
  have ce: "ceiling_priority (mutexes s n) = 0xff" and so: "sorted (map (tprio s) (t # rest))"
    and pe: "\<forall>w \<in> set (t # rest). pending_object (threads s w) = Some n"
    using b Q by (simp_all add: mutex_inv_but_def)
  have p32: "tprio s t < 32" using k st by (simp add: loose_kinv_def loose_inv_def started_def)
  have "mutex_inv ?s6"
  proof (rule mutex_inv_give [OF b m6])
    show "queues ?s6 (QSuspend (OMutex k)) = queues s (QSuspend (OMutex k))" if "k \<noteq> n" for k
      using that by (simp add: f6 q5)
    show "sorted (map (tprio s) (queues ?s6 ?q))" using so by (simp add: f6 q5)
    show "mutex_priority ?m \<le> tprio s w \<and> pending_object (threads s w) = Some n"
      if "w \<in> set (queues ?s6 ?q)" for w
      using that so pe by (cases rest) (auto simp: f6 q5)
    show "tprio s t \<le> mutex_priority ?m"
      using p32 so by (cases rest) simp_all
    show "pending_object (threads ?s6 u) = pending_object (threads s u)"
      if "u \<in> set (queues ?s6 (QSuspend (OMutex k)))" for u k
    proof -
      have "u \<noteq> t"
      proof
        assume "u = t"
        then show False using that nin only_in [OF k, of t ?q "QSuspend (OMutex k)"] Q
          by (auto simp: f6 q5 split: if_splits)
      qed
      then show ?thesis by (simp add: f6 sm)
    qed
    show "started s u" if "started ?s6 u" for u
      using that st by (auto simp: f6 started_def st5 split: if_splits)
  qed (use ce sm in \<open>simp_all add: f6\<close>)
  moreover have "mutex_hand_over n need s = Inr (True, ?s6)"
    using Q s5(1) by (simp add: mutex_hand_over_def Let_def)
  moreover have "tstat ?s6 c = RT_THREAD_RUNNING" using tc c(2) by (simp add: f6 st5)
  ultimately show thesis
    using f6 s5(5,6) f4(1,3) by (intro that [of ?s6]) (simp_all add: m6 st5 q5 sm)
qed

text \<open>The first part of a last release: the mutex leaves the owner's list and the owner falls back
  to its own priority or to what its other mutexes ask for.\<close>

lemma release_step_ok:
  assumes r: "running s c" and inv: "mutex_inv s" and ow: "owner (mutexes s n) = Some c"
  defines "s1 \<equiv> taken_remove n (upd_mutex n (\<lambda>m. m\<lparr>hold := 0\<rparr>) s)"
  obtains s2 where
    "(if ceiling_priority (mutexes s1 n) \<noteq> 0xff \<or> tprio s1 c = mutex_priority (mutexes s1 n)
      then bind_res (rt_thread_change_priority c (thread_get_mutex_priority c s1) s1) (\<lambda>(_, s). Inr (True, s))
      else Inr (False, s1)) = Inr (tprio s c = mutex_priority (mutexes s n), s2)"
    "loose_kinv {} s2" "mutex_inv_but n s2" "cur s2 = Some c" "tstat s2 c = RT_THREAD_RUNNING"
    "lock_nest s2 = 0" "\<And>k. queues s2 k = queues s k" "mutexes s2 = mutexes s1"
    "tprio s2 c = thread_get_mutex_priority c s1"
    "\<And>u. error (threads s2 u) = error (threads s u)"
proof -
  note d = runningD [OF r]
  have nt: "n \<in> set (taken_object_list (threads s t)) \<longleftrightarrow> t = c" for t
    using inv ow by (auto simp: mutex_inv_def mutex_queue_ok_def)
  have ds: "distinct (taken_object_list (threads s t))" for t using inv by (simp add: mutex_inv_def)
  have f1: "tprio s1 u = tprio s u" "tstat s1 u = tstat s u" "cur s1 = Some c" "lock_nest s1 = 0"
    "queues s1 = queues s" "init_priority (threads s1 u) = init_priority (threads s u)"
    "pending_object (threads s1 u) = pending_object (threads s u)"
    "taken_object_list (threads s1 u) = remove1 n (taken_object_list (threads s u))"
    "mutexes s1 = (mutexes s)(n := (mutexes s n)\<lparr>hold := 0\<rparr>)" "objs s1 = objs s"
    "error (threads s1 u) = error (threads s u)" for u
    using d by (simp_all add: s1_def taken_remove_def)
  have set1: "set (taken_object_list (threads s1 u)) = set (taken_object_list (threads s u)) - {n}" for u
    using ds [of u] by (simp add: f1)
  have k1: "loose_kinv {} s1"
  proof -
    have "loose_kinv {} (taken_remove n s)"
    proof -
      have e: "tprio (taken_remove n s) u = tprio s u" "tstat (taken_remove n s) u = tstat s u"
        "number_mask (threads (taken_remove n s) u) = number_mask (threads s u)" for u
        by (simp_all add: taken_remove_def)
      have "thread_typed (taken_remove n s) u = thread_typed s u" for u
        by (rule thread_typed_cong) (simp_all add: taken_remove_def)
      moreover have "timers_inv (taken_remove n s) = timers_inv s"
        by (rule timers_inv_cong) (simp_all add: taken_remove_def)
      moreover have "queues (taken_remove n s) = queues s" "ready_group (taken_remove n s) = ready_group s"
        "cur (taken_remove n s) = cur s" "timer_list (taken_remove n s) = timer_list s"
        by (simp_all add: taken_remove_def)
      ultimately show ?thesis using d(1)
        unfolding loose_kinv_def loose_inv_def queues_ok_def bitmap_ok_def wait_ok_def started_def e by simp
    qed
    moreover have "taken_remove n (upd_mutex n f s) = upd_mutex n f (taken_remove n s)" for f
      by (simp add: taken_remove_def upd_mutex_def)
    ultimately show ?thesis by (simp add: s1_def)
  qed
  let ?p = "thread_get_mutex_priority c s1"
  have ce: "ceiling_priority (mutexes s n) = 0xff" using inv by (simp add: mutex_inv_def mutex_queue_ok_def)
  have sc: "started s c" using d(3) by (simp add: started_def)
  then have ic: "inherits s c" using inv by (simp add: mutex_inv_def)
  have p: "?p \<le> init_priority (threads s c)" using get_mutex_priority_iff [of c s1 ?p] by (simp add: f1)
  then have p32: "?p < 32" using ic by (simp add: inherits_iff)
  have keep: "?p = tprio s c" if "tprio s c \<noteq> mutex_priority (mutexes s n)"
  proof -
    have "tprio s c = init_priority (threads s c)
       \<or> (\<exists>k \<in> set (taken_object_list (threads s c)). k \<noteq> n \<and> tprio s c = mutex_priority (mutexes s k))"
      using ic that unfolding inherits_iff by metis
    then show ?thesis
      using ic unfolding get_mutex_priority_iff inherits_iff set1 by (auto simp: f1)
  qed
  let ?s2 = "if tprio s c = mutex_priority (mutexes s n) then upd_thread c (set_prio ?p) s1 else s1"
  have ty: "rt_object_get_type (OThread c) s1 = RT_Object_Class_Thread"
  proof -
    have "started s1 c" using sc by (simp add: started_def f1)
    then show ?thesis using k1 by (simp add: loose_kinv_def thread_typed_def)
  qed
  have f2: "tprio ?s2 u = (if u = c then ?p else tprio s u)"
    "init_priority (threads ?s2 u) = init_priority (threads s u)"
    "pending_object (threads ?s2 u) = pending_object (threads s u)"
    "set (taken_object_list (threads ?s2 u)) = set (taken_object_list (threads s u)) - {n}"
    "distinct (taken_object_list (threads ?s2 u))"
    "tstat ?s2 u = tstat s u" "queues ?s2 = queues s" "mutexes ?s2 = mutexes s1" "cur ?s2 = Some c" "lock_nest ?s2 = 0"
    "error (threads ?s2 u) = error (threads s u)" for u
    using keep by (simp_all add: upd_thread_def f1 set_remove1_eq ds)
  show thesis
  proof (rule that [of ?s2])
    show "(if ceiling_priority (mutexes s1 n) \<noteq> 0xff \<or> tprio s1 c = mutex_priority (mutexes s1 n)
      then bind_res (rt_thread_change_priority c ?p s1) (\<lambda>(_, s). Inr (True, s))
      else Inr (False, s1)) = Inr (tprio s c = mutex_priority (mutexes s n), ?s2)"
      using ty d(3) ce by (simp add: f1 change_priority_alt)
    show "loose_kinv {} ?s2" using k1 K_prio [OF k1 _ p32, of c] d(3) by (simp add: f1)
    show "mutex_inv_but n ?s2"
    proof -
      have nq: "c \<notin> set (queues s q)" for q
        using running_not_queued [of "{}" s c] d(1,3) by (simp add: loose_kinv_def)
      have mpQ: "map (tprio ?s2) (queues s q) = map (tprio s) (queues s q)" for q
        using nq [of q] by (auto simp: f2(1))
      have "mutex_queue_ok ?s2 k" if "k \<noteq> n" for k
      proof -
        have "mutex_queue_ok s k" using inv by (simp add: mutex_inv_def)
        then show ?thesis
          by (rule mutex_queue_ok_cong)
            (use that nq [of "QSuspend (OMutex k)"] in \<open>auto simp: f2(1-4,7,8) f1(9)\<close>)
      qed
      moreover have "inherits ?s2 u" if "started ?s2 u" for u
      proof (cases "u = c")
        case True
        have e: "mutexes ?s2 = mutexes s1" "taken_object_list (threads ?s2 c) = taken_object_list (threads s1 c)"
          "init_priority (threads ?s2 c) = init_priority (threads s1 c)" by (simp_all add: upd_thread_def)
        have g: "thread_get_mutex_priority c ?s2 = ?p" by (rule get_mutex_priority_cong [OF e])
        have "init_priority (threads s c) < 32" using ic by (simp add: inherits_iff)
        then show ?thesis unfolding inherits_def True g f2(1,2) by simp
      next
        case False
        have "inherits s u" using inv that by (simp add: mutex_inv_def started_def f2(6)) blast
        moreover have "n \<notin> set (taken_object_list (threads s u))" using nt False by simp
        ultimately show ?thesis using False unfolding inherits_iff f2(1,2,4,8) by (auto simp: f1(9))
      qed
      moreover have "mutex_queue_ok s n" using inv by (simp add: mutex_inv_def)
      ultimately show ?thesis
        unfolding mutex_inv_but_def f2(7) mpQ by (simp add: f2(3,4,5,8) f1(9) mutex_queue_ok_def)
    qed
    show "tprio ?s2 c = ?p" using f2(1) [of c] by simp
  qed (use f2 d(3) in simp_all)
qed

lemma release_last_eq:
  assumes r: "running s c" and v: "mutex_valid n s" and ow: "owner (mutexes s n) = Some c"
    and h: "hold (mutexes s n) = 1"
  defines "s1 \<equiv> taken_remove n (upd_mutex n (\<lambda>m. m\<lparr>hold := 0\<rparr>) s)"
  shows "rt_mutex_release n s =
     bind_res (if ceiling_priority (mutexes s1 n) \<noteq> 0xff \<or> tprio s1 c = mutex_priority (mutexes s1 n)
       then bind_res (rt_thread_change_priority c (thread_get_mutex_priority c s1) s1) (\<lambda>(_, s). Inr (True, s))
       else Inr (False, s1)) (\<lambda>(need_schedule, s).
     bind_res (mutex_hand_over n need_schedule s) (\<lambda>(need_schedule, s).
     bind_res (if need_schedule then rt_schedule s else Inr s) (\<lambda>s. Inr (RT_EOK, s))))"
proof -
  note d = runningD [OF r]
  have u: "upd_mutex n (\<lambda>m. m\<lparr>hold := (hold m + 255) mod 256\<rparr>) s = upd_mutex n (\<lambda>m. m\<lparr>hold := 0\<rparr>) s"
    using h by (simp add: upd_mutex_def)
  have dbg: "RT_DEBUG_IN_THREAD_CONTEXT s"
    using d(6) by (simp add: RT_DEBUG_SCHEDULER_AVAILABLE_def)
  show ?thesis
    using d(7) dbg ow v unfolding rt_mutex_release_def s1_def
    by (simp add: mutex_valid_def u Let_def)
qed

lemma mutex_schedule_if:
  assumes i: "loose_kinv {} s" "mutex_inv s" "cur s = Some c" "tstat s c = RT_THREAD_RUNNING" "lock_nest s = 0"
  shows "\<exists>s'. (if b then rt_schedule s else Inr s) = Inr s' \<and> kinv s' \<and> mutex_inv s'
    \<and> mutexes s' = mutexes s \<and> tprio s' c = tprio s c
    \<and> queues s' (QSuspend (OMutex n)) = queues s (QSuspend (OMutex n))
    \<and> (\<forall>t. tstat s t \<in> {RT_THREAD_READY, RT_THREAD_RUNNING} \<longrightarrow> tstat s' t \<in> {RT_THREAD_READY, RT_THREAD_RUNNING})
    \<and> (b \<longrightarrow> runs_highest s')"
proof (cases b)
  case True
  obtain s4 where s4: "rt_schedule s = Inr s4" "kinv s4" "sched_frame s s4"
    "lock_nest s = 0 \<Longrightarrow> tstat s c = RT_THREAD_RUNNING \<or> ready_group s \<noteq> 0 \<Longrightarrow> runs_highest s4"
    by (rule schedule_ok [OF i(1,3)]) (use i(4) in auto)
  note sm = same_sched_frame [OF s4(3)]
  have q4: "queues s4 (QSuspend k) = queues s (QSuspend k)" for k
    using s4(3) by (simp add: sched_frame_def)
  have "mutex_inv s4"
  proof (rule mutex_inv_same [OF i(2)])
    show "thread_same (threads s4 t) (threads s t)" for t using sm by (simp add: ipc_same_def)
    show "started s t" if "started s4 t" for t using that started_frame [OF s4(3)] by simp
  qed (use sm q4 in \<open>simp_all add: ipc_same_def\<close>)
  moreover have "tstat s4 t \<in> {RT_THREAD_READY, RT_THREAD_RUNNING}"
    if "tstat s t \<in> {RT_THREAD_READY, RT_THREAD_RUNNING}" for t
    using sched_frame_awake [OF s4(3) that] .
  ultimately show ?thesis
    using True s4(1,2,4) i q4 sm by (intro exI [of _ s4]) (simp add: ipc_same_def thread_same_def)
next
  case False
  then show ?thesis using i by (intro exI [of _ s]) (simp add: kinv_alt)
qed

lemma mutex_release_refused:
  assumes "running s c" "mutex_valid n s" "mutex_inv s" and other: "owner (mutexes s n) \<noteq> Some c"
  shows "\<exists>s'. rt_mutex_release n s = Inr (- RT_ERROR, s') \<and> kinv s' \<and> mutex_inv s' \<and> mutexes s' = mutexes s"
proof -
  note d = runningD [OF assms(1)]
  have ty: "rt_object_get_type (OMutex n) s = RT_Object_Class_Mutex" using assms(2) by (simp add: mutex_valid_def)
  have dbg: "RT_DEBUG_IN_THREAD_CONTEXT s" using d(6) by (simp add: RT_DEBUG_SCHEDULER_AVAILABLE_def)
  let ?s' = "upd_thread c (\<lambda>th. th\<lparr>error := - RT_ERROR\<rparr>) s"
  have "rt_mutex_release n s = Inr (- RT_ERROR, ?s')"
    using other d(7) dbg ty by (simp add: rt_mutex_release_def)
  moreover have "loose_kinv {} ?s'" using d(1) by (rule K_upd_other) simp_all
  moreover have "cur ?s' = Some c" "tstat ?s' c = RT_THREAD_RUNNING" using d by (simp_all add: upd_thread_def)
  moreover have "mutex_inv ?s'"
    by (rule mutex_inv_same [OF assms(3)])
      (auto simp: upd_thread_def thread_same_def started_def split: if_splits)
  ultimately show ?thesis using other by (simp add: kinv_alt) (simp add: upd_thread_def)
qed

lemma mutex_release_nested:
  assumes "running s c" "mutex_valid n s" "mutex_inv s" and nested: "owner (mutexes s n) = Some c" "hold (mutexes s n) > 1"
  shows "\<exists>s'. rt_mutex_release n s = Inr (RT_EOK, s') \<and> kinv s' \<and> mutex_inv s'
    \<and> owner (mutexes s' n) = Some c \<and> hold (mutexes s' n) = hold (mutexes s n) - 1"
proof -
  note d = runningD [OF assms(1)]
  have ty: "rt_object_get_type (OMutex n) s = RT_Object_Class_Mutex" using assms(2) by (simp add: mutex_valid_def)
  have dbg: "RT_DEBUG_IN_THREAD_CONTEXT s" using d(6) by (simp add: RT_DEBUG_SCHEDULER_AVAILABLE_def)
  have qn: "mutex_queue_ok s n" using assms(3) by (simp add: mutex_inv_def)
  let ?s' = "upd_mutex n (\<lambda>m. m\<lparr>hold := (hold m + 255) mod 256\<rparr>) s"
  have h: "hold (mutexes s n) \<le> 255" using qn nested(1) by (simp add: mutex_queue_ok_def)
  have e: "(hold (mutexes s n) + 255) mod 256 = hold (mutexes s n) - 1"
    using nested(2) h by (simp add: mod_if)
  have "rt_mutex_release n s = Inr (RT_EOK, ?s')"
    using nested d(7) dbg ty e by (simp add: rt_mutex_release_def Let_def)
  moreover have "mutex_inv ?s'"
    by (rule mutex_inv_hold [OF assms(3), of "\<lambda>m. (hold m + 255) mod 256"]) (use e nested(2) h in simp_all)
  ultimately show ?thesis using nested d(1-3) e by (simp add: kinv_alt)
qed

lemma mutex_release_last:
  assumes "running s c" "mutex_valid n s" "mutex_inv s" and last: "owner (mutexes s n) = Some c" "hold (mutexes s n) = 1"
  shows "\<exists>s'. rt_mutex_release n s = Inr (RT_EOK, s') \<and> kinv s' \<and> mutex_inv s'
    \<and> tprio s' c = thread_get_mutex_priority c (taken_remove n s)
    \<and> (case queues s (QSuspend (OMutex n)) of
         [] \<Rightarrow> owner (mutexes s' n) = None
       | t # rest \<Rightarrow> owner (mutexes s' n) = Some t \<and> hold (mutexes s' n) = 1 \<and> queues s' (QSuspend (OMutex n)) = rest
           \<and> tstat s' t \<in> {RT_THREAD_READY, RT_THREAD_RUNNING} \<and> runs_highest s')"
proof -
  let ?s1 = "taken_remove n (upd_mutex n (\<lambda>m. m\<lparr>hold := 0\<rparr>) s)"
  obtain s2 where s2:
    "(if ceiling_priority (mutexes ?s1 n) \<noteq> 0xff \<or> tprio ?s1 c = mutex_priority (mutexes ?s1 n)
      then bind_res (rt_thread_change_priority c (thread_get_mutex_priority c ?s1) ?s1) (\<lambda>(_, s). Inr (True, s))
      else Inr (False, ?s1)) = Inr (tprio s c = mutex_priority (mutexes s n), s2)"
    "loose_kinv {} s2" "mutex_inv_but n s2" "cur s2 = Some c" "tstat s2 c = RT_THREAD_RUNNING"
    "lock_nest s2 = 0" "\<And>k. queues s2 k = queues s k" "mutexes s2 = mutexes ?s1"
    "tprio s2 c = thread_get_mutex_priority c ?s1"
    by (rule release_step_ok [OF assms(1,3) last(1)]) blast
  note eq = release_last_eq [OF assms(1,2) last, unfolded s2(1)]
  have pe: "thread_get_mutex_priority c ?s1 = thread_get_mutex_priority c (taken_remove n s)"
  proof -
    have "mutex_priority (mutexes ?s1 k) = mutex_priority (mutexes (taken_remove n s) k)" for k
      by (simp add: taken_remove_def)
    moreover have "threads ?s1 = threads (taken_remove n s)" by (simp add: taken_remove_def)
    ultimately show ?thesis unfolding thread_get_mutex_priority_def by (simp only:)
  qed
  show ?thesis
  proof (cases "queues s (QSuspend (OMutex n))")
    case Nil
    let ?s3 = "upd_mutex n (\<lambda>m. m\<lparr>owner := None, mutex_priority := 0xff\<rparr>) s2"
    have "mutex_inv ?s3"
    proof (rule mutex_inv_free [OF s2(3), where m' = "(mutexes s2 n)\<lparr>owner := None, mutex_priority := 0xff\<rparr>"])
      show "ceiling_priority ((mutexes s2 n)\<lparr>owner := None, mutex_priority := 0xff\<rparr>) = 0xff"
        using s2(3) by (simp add: mutex_inv_but_def)
    qed (use Nil s2(7) in \<open>simp_all add: started_def\<close>)
    then obtain s4 where s4: "(if tprio s c = mutex_priority (mutexes s n) then rt_schedule ?s3 else Inr ?s3) = Inr s4"
      "kinv s4" "mutex_inv s4" "mutexes s4 = mutexes ?s3" "tprio s4 c = tprio ?s3 c"
      using mutex_schedule_if [of ?s3 c "tprio s c = mutex_priority (mutexes s n)" n] s2 by auto
    have "rt_mutex_release n s = Inr (RT_EOK, s4)"
      unfolding eq using s4(1) Nil s2(7) by (simp add: mutex_hand_over_def)
    then show ?thesis using s4 last Nil s2(9) pe by simp
  next
    case (Cons t rest)
    obtain s3 where s3: "mutex_hand_over n (tprio s c = mutex_priority (mutexes s n)) s2 = Inr (True, s3)"
      "loose_kinv {} s3" "mutex_inv s3"
      "cur s3 = Some c" "tstat s3 c = RT_THREAD_RUNNING" "lock_nest s3 = lock_nest s2"
      "tstat s3 t = RT_THREAD_READY" "owner (mutexes s3 n) = Some t" "hold (mutexes s3 n) = 1"
      "queues s3 (QSuspend (OMutex n)) = rest" "\<And>u. tprio s3 u = tprio s2 u"
      by (rule hand_over_ok [OF s2(2,4,5,3)]) (use Cons s2(7) in auto)
    obtain s4 where s4: "rt_schedule s3 = Inr s4" "kinv s4" "mutex_inv s4" "mutexes s4 = mutexes s3"
      "tprio s4 c = tprio s3 c" "queues s4 (QSuspend (OMutex n)) = queues s3 (QSuspend (OMutex n))"
      "tstat s4 t \<in> {RT_THREAD_READY, RT_THREAD_RUNNING}" "runs_highest s4"
      using mutex_schedule_if [of s3 c True n] s3 s2(6) by auto
    have "rt_mutex_release n s = Inr (RT_EOK, s4)"
      unfolding eq using s4(1) s3(1) by simp
    then show ?thesis using s4 s3 last Cons s2(9) pe by simp
  qed
qed

text \<open>C8: releasing a mutex.  In thread context, with the kernel and the mutex invariant,
  \<^verbatim>\<open>rt_mutex_release\<close> never faults and keeps both invariants, and: a caller that
  does not own the mutex gets \<^verbatim>\<open>-RT_ERROR\<close> and changes nothing but its error
  number; a nested release lowers the hold count; the last release gives the caller the priority its
  own and its other mutexes' waiters ask for, and hands the mutex to the most urgent waiter, which is awake, with a
  most urgent thread running, or frees it.\<close>

theorem rt_mutex_release_correct:
  assumes "running s c" "mutex_valid n s" "mutex_inv s"
  shows "\<exists>r s'. rt_mutex_release n s = Inr (r, s') \<and> kinv s' \<and> mutex_inv s' \<and>
    (if owner (mutexes s n) \<noteq> Some c then r = - RT_ERROR \<and> mutexes s' = mutexes s
     else r = RT_EOK \<and>
       (if hold (mutexes s n) > 1
        then owner (mutexes s' n) = Some c \<and> hold (mutexes s' n) = hold (mutexes s n) - 1
        else tprio s' c = thread_get_mutex_priority c (taken_remove n s) \<and>
         (case queues s (QSuspend (OMutex n)) of
            [] \<Rightarrow> owner (mutexes s' n) = None
          | t # rest \<Rightarrow> owner (mutexes s' n) = Some t \<and> hold (mutexes s' n) = 1
              \<and> queues s' (QSuspend (OMutex n)) = rest
              \<and> tstat s' t \<in> {RT_THREAD_READY, RT_THREAD_RUNNING} \<and> runs_highest s')))"
proof -
  have "mutex_queue_ok s n" using assms(3) by (simp add: mutex_inv_def)
  then consider "owner (mutexes s n) \<noteq> Some c" | "owner (mutexes s n) = Some c" "hold (mutexes s n) > 1"
    | "owner (mutexes s n) = Some c" "hold (mutexes s n) = 1"
    by (force simp: mutex_queue_ok_def)
  then show ?thesis
  proof cases
    case 1
    then show ?thesis using mutex_release_refused [OF assms 1] by auto
  next
    case 2
    then show ?thesis using mutex_release_nested [OF assms 2] by auto
  next
    case 3
    then show ?thesis using mutex_release_last [OF assms 3] by auto
  qed
qed

theorem rt_mutex_release_correct_witness:
  "\<exists>s'. rt_mutex_release 0 (demo_mutex 1) = Inr (RT_EOK, s') \<and> owner (mutexes s' 0) = None \<and> mutex_inv s'"
  using rt_mutex_release_correct [of "demo_mutex 1" 1 0] demo_mutex_running demo_mutex_valid demo_mutex_inv
  by (auto simp: demo_mutex_fields demo_queues)

section \<open>Where the code faults\<close>

text \<open>C19: priority inheritance does not go through a chain.  When the owner of the mutex is itself
  suspended and recorded as waiting for a mutex, boosting it queues it again with
  \<^verbatim>\<open>_ipc_list_suspend\<close>, whose \<^verbatim>\<open>rt_thread_suspend\<close> asserts that the
  thread is the running one: a take by a more urgent thread ends in a failed assertion.\<close>

theorem rt_mutex_take_chain_asserts:
  assumes "running s c" "mutex_valid n s" "owner (mutexes s n) = Some t" "t \<noteq> c" "timeout \<noteq> 0"
    and "tstat s t = RT_THREAD_SUSPEND" "pending_object (threads s t) = Some k"
    and "rt_object_get_type (OMutex k) s = RT_Object_Class_Mutex"
    and "tprio s c < mutex_priority (mutexes s n)" "tprio s c < tprio s t"
  shows "rt_mutex_take n timeout s = Inl AssertFail"
proof -
  note d = runningD [OF assms(1)]
  let ?q = "QSuspend (OMutex n)"
  let ?s0 = "upd_thread c (\<lambda>th. th\<lparr>error := RT_EOK\<rparr>) s"
  have k0: "loose_kinv {} ?s0" using d(1) by (rule K_upd_other) simp_all
  have c0: "cur ?s0 = Some c" "tstat ?s0 c = RT_THREAD_RUNNING" "objs ?s0 = objs s" "mutexes ?s0 = mutexes s"
    "threads ?s0 t = threads s t" "tprio ?s0 c = tprio s c"
    using d assms(4) by (simp_all add: upd_thread_def)
  obtain s1 where s1: "ipc_list_suspend ?q c RT_IPC_FLAG_PRIO ?s0 = Inr s1" "loose_kinv {} s1"
    "cur s1 = Some c" "ipc_same s1 ?s0" "\<And>u. u \<noteq> c \<Longrightarrow> threads s1 u = threads ?s0 u"
    by (rule ipc_list_suspend_ok [OF k0 c0(1,2) _ disjI2 [OF refl], of ?q]) (simp, blast)
  let ?s2 = "upd_mutex n (\<lambda>m. m\<lparr>mutex_priority := tprio s c\<rparr>)
       (upd_thread c (\<lambda>th. th\<lparr>pending_object := Some n\<rparr>) s1)"
  have k2: "loose_kinv {} ?s2"
    using K_upd_other [OF s1(2), of "\<lambda>th. th\<lparr>pending_object := Some n\<rparr>" c] by simp
  have f2: "cur ?s2 = Some c" "threads ?s2 t = threads s t" "mutexes s1 = mutexes s"
    "rt_object_get_type (OMutex k) ?s2 = RT_Object_Class_Mutex"
    using s1(3-5) assms(4,8) c0
    by (simp_all add: upd_thread_def ipc_same_def rt_object_get_type_def upd_mutex_def)
  have pc: "tprio s c < 32" using d(1,3) by (simp add: loose_kinv_def loose_inv_def started_def)
  obtain s3 where s3: "rt_thread_change_priority t (tprio s c) ?s2 = Inr (RT_EOK, s3)"
    "threads s3 = (threads ?s2)(t := set_prio (tprio s c) (threads ?s2 t))"
    "s3 = ?s2\<lparr>threads := threads s3, queues := queues s3, ready_group := ready_group s3\<rparr>"
    by (rule change_priority_ok [OF k2 _ pc, of t]) (use assms(4,6) f2 in \<open>auto simp: started_def\<close>)
  have o3: "objs s3 = objs ?s2" "cur s3 = cur ?s2" by (subst s3(3), simp)+
  have up: "thread_update_priority 2 t (tprio s c) ?s2 = Inl AssertFail"
    unfolding numeral_2_eq_2
    by (rule thread_update_priority_asserts [OF s3(1), of k])
      (use s3(2) f2 assms(4,6,7) o3 in \<open>auto simp: rt_object_get_type_def\<close>)
  have pr: "obj_flag (objs s (OMutex n)) = RT_IPC_FLAG_PRIO" "rt_object_get_type (OMutex n) s = RT_Object_Class_Mutex"
    using assms(2) by (simp_all add: mutex_valid_def)
  have m2: "mutexes (upd_thread c (\<lambda>th. th\<lparr>pending_object := Some n\<rparr>) s1) = mutexes s"
    using f2(3) by (simp add: upd_thread_def)
  have t2: "tprio (upd_thread c (\<lambda>th. th\<lparr>pending_object := Some n\<rparr>) s1) t = tprio s t"
    using f2(2) by simp
  show ?thesis
    using assms(3-5,9,10) d(6,7) pr s1(1) up
    by (simp add: rt_mutex_take_def c0(3,4,6) Let_def m2 t2)
qed

text \<open>Thread 3 owns mutex 0 and is suspended, waiting for mutex 5.\<close>

definition demo_chain :: kernel where
  "demo_chain = (demo_mutex 3)\<lparr>threads := (threads (demo_mutex 3))
       (3 := (threads (demo_mutex 3) 3)\<lparr>stat := RT_THREAD_SUSPEND, pending_object := Some 5\<rparr>),
     queues := (queues demo_kernel)(QReady 20 := [], QSuspend (OMutex 5) := [3]),
     ready_group := push_bit 10 1 OR push_bit 31 1\<rparr>"

lemma demo_chain_running: "running demo_chain 1"
proof -
  have f: "tstat demo_chain t = (if t = 3 then RT_THREAD_SUSPEND else tstat demo_kernel t)"
    "tprio demo_chain t = tprio demo_kernel t" "number_mask (threads demo_chain t) = number_mask (threads demo_kernel t)"
    "queues demo_chain q = (if q = QReady 20 then [] else if q = QSuspend (OMutex 5) then [3] else queues demo_kernel q)"
    "cur demo_chain = Some 1" "lock_nest demo_chain = 0" "irq_nest demo_chain = 0" "timer_list demo_chain = []"
    for t q
    by (simp_all add: demo_chain_def demo_mutex_fields)
      (simp_all add: demo_mutex_def taken_insert_def upd_thread_def demo_timers)
  have "sched_inv demo_kernel" by (rule demo_sched_inv)
  then have m: "mask_ok demo_kernel" by (simp add: sched_inv_def)
  have "queues_ok demo_chain" by (simp add: queues_ok_def f demo_queues)
  moreover have "ready_ok demo_chain" by (auto simp: ready_ok_def f demo_stat demo_prio demo_queues)
  moreover have "bit (ready_group demo_chain) p \<longleftrightarrow> p = 10 \<or> p = 31" if "p < 32" for p
    using that by (auto simp: demo_chain_def bit_or_iff bit_push_one simp del: push_bit_of_1 push_bit_numeral_minus_1)
  then have "bitmap_ok demo_chain" by (auto simp: bitmap_ok_def f demo_queues)
  moreover have "wait_ok demo_chain" by (auto simp: wait_ok_def f demo_queues)
  moreover have "mask_ok demo_chain" using m by (auto simp: mask_ok_def started_def f demo_stat)
  moreover have "cur_ok demo_chain" by (simp add: cur_ok_def f demo_stat)
  ultimately have "sched_inv demo_chain" by (simp add: sched_inv_def)
  then have l: "loose_inv {} demo_chain" by (simp add: loose_inv_empty)
  have ty: "thread_typed demo_chain t = thread_typed demo_kernel t" for t
    by (rule thread_typed_cong) (simp_all add: demo_chain_def demo_mutex_def taken_insert_def upd_thread_def upd_mutex_def)
  have "timers_inv demo_chain = timers_inv demo_kernel"
    by (rule timers_inv_cong) (simp_all add: demo_chain_def demo_mutex_def taken_insert_def upd_thread_def upd_mutex_def)
  then show ?thesis
    using l demo_kinv demo_typed by (simp add: running_def kinv_alt loose_kinv_def ty f demo_stat)
qed

theorem rt_mutex_take_chain_asserts_witness: "rt_mutex_take 0 5 demo_chain = Inl AssertFail"
proof (rule rt_mutex_take_chain_asserts [OF demo_chain_running, of 0 3 5 5])
  show "mutex_valid 0 demo_chain" "rt_object_get_type (OMutex 5) demo_chain = RT_Object_Class_Mutex"
    using demo_mutex_valid [of 0 3] demo_mutex_valid [of 5 3]
    by (simp_all add: mutex_valid_def demo_chain_def rt_object_get_type_def)
qed (simp_all add: demo_chain_def demo_mutex_fields demo_prio)

text \<open>A waiter whose time is up but that has not run yet is no longer queued.  When the owner
  releases the mutex in between, the mutex has no owner, and the waiter, once it runs, reads the
  priority of \<^verbatim>\<open>mutex->owner\<close> through a NULL pointer.\<close>

lemma rt_mutex_take_timeout_orphan:
  assumes "running s c" "mutex_valid n s" "mutex_inv s" "owner (mutexes s n) = Some c"
    and "hold (mutexes s n) = 1" "queues s (QSuspend (OMutex n)) = []" "error (threads s w) \<noteq> RT_EOK"
  shows "\<exists>s'. rt_mutex_release n s = Inr (RT_EOK, s') \<and> rt_mutex_take_resume n w s' = Inl NullDeref"
proof -
  let ?s1 = "taken_remove n (upd_mutex n (\<lambda>m. m\<lparr>hold := 0\<rparr>) s)"
  let ?b = "tprio s c = mutex_priority (mutexes s n)"
  obtain s2 where s2:
    "(if ceiling_priority (mutexes ?s1 n) \<noteq> 0xff \<or> tprio ?s1 c = mutex_priority (mutexes ?s1 n)
      then bind_res (rt_thread_change_priority c (thread_get_mutex_priority c ?s1) ?s1) (\<lambda>(_, s). Inr (True, s))
      else Inr (False, ?s1)) = Inr (?b, s2)"
    "loose_kinv {} s2" "cur s2 = Some c" "tstat s2 c = RT_THREAD_RUNNING" "\<And>k. queues s2 k = queues s k"
    "\<And>u. error (threads s2 u) = error (threads s u)"
    by (rule release_step_ok [OF assms(1,3,4)]) blast
  let ?s3 = "upd_mutex n (\<lambda>m. m\<lparr>owner := None, mutex_priority := 0xff\<rparr>) s2"
  have "\<exists>s4. (if ?b then rt_schedule ?s3 else Inr ?s3) = Inr s4 \<and> error (threads s4 w) = error (threads s w)
      \<and> owner (mutexes s4 n) = None"
  proof (cases ?b)
    case True
    have k3: "loose_kinv {} ?s3" "cur ?s3 = Some c" "tstat ?s3 c \<noteq> RT_THREAD_READY" using s2 by simp_all
    obtain s4 where s4: "rt_schedule ?s3 = Inr s4" "sched_frame ?s3 s4"
      by (rule schedule_ok [OF k3]) blast
    have "mutexes s4 = mutexes ?s3" using same_sched_frame [OF s4(2)] by (simp add: ipc_same_def)
    then show ?thesis using True s4(1) sched_frame_error [OF s4(2)] s2(6) by simp
  qed (use s2(6) in simp)
  then obtain s4 where s4: "(if ?b then rt_schedule ?s3 else Inr ?s3) = Inr s4"
    "error (threads s4 w) = error (threads s w)" "owner (mutexes s4 n) = None" by blast
  have "rt_mutex_release n s = Inr (RT_EOK, s4)"
    unfolding release_last_eq [OF assms(1,2,4,5), unfolded s2(1)]
    using s4(1) assms(6) s2(5) by (simp add: mutex_hand_over_def)
  moreover have "rt_mutex_take_resume n w s4 = Inl NullDeref"
    using s4(2,3) assms(7) by (simp add: rt_mutex_take_resume_def mutex_waiter_gone_def bind_res_def)
  ultimately show ?thesis by blast
qed

lemma rt_mutex_take_timeout_orphan_example:
  "\<exists>s'. rt_mutex_release 0 (upd_thread 2 (\<lambda>th. th\<lparr>error := - RT_ETIMEOUT\<rparr>) (demo_mutex 1)) = Inr (RT_EOK, s')
     \<and> rt_mutex_take_resume 0 2 s' = Inl NullDeref"
proof (rule rt_mutex_take_timeout_orphan)
  let ?s = "upd_thread 2 (\<lambda>th. th\<lparr>error := - RT_ETIMEOUT\<rparr>) (demo_mutex 1)"
  have k: "loose_kinv {} ?s"
    by (rule K_upd_other) (use demo_mutex_running in \<open>simp_all add: running_def kinv_alt\<close>)
  then show "running ?s 1"
    using demo_mutex_running [of 1] by (auto simp: running_def kinv_alt upd_thread_def)
  show "mutex_inv ?s"
    by (rule mutex_inv_same [OF demo_mutex_inv [of 1]])
      (auto simp: upd_thread_def thread_same_def started_def split: if_splits)
  show "mutex_valid 0 ?s" using demo_mutex_valid [of 0 1]
    by (simp add: mutex_valid_def upd_thread_def rt_object_get_type_def)
qed (simp_all add: upd_thread_def demo_mutex_fields demo_queues)

end
