(* ===== verification/Pdma.thy ===== *)
theory Pdma
  imports Addr32 Pool BitUtil
begin

text \<open>
  The driver of the two peripheral DMA controllers,
  \<^verbatim>\<open>libraries/m460/rtt_port/drv_pdma.c\<close>, first part: its state, the channels and the
  pool of scatter-gather descriptors; with the functions of the vendor library it calls
  (\<^verbatim>\<open>libraries/m460/StdDriver/src/nu_pdma.c\<close>).  A register is a field, a write to it
  is an update, and the effects of the hardware on a write are those
  \<^verbatim>\<open>pdma_reg.h\<close> documents.
\<close>

section \<open>State\<close>

text \<open>A descriptor table, in the registers of a channel or in memory.  Descriptors are addressed as
  in the code: an address is a word, NULL is 0.\<close>

record dsct =
  CTL :: u32
  SA :: u32
  DA :: u32
  NEXT :: u32

record pdma_regs =
  CHCTL :: u32
  SWREQ :: u32
  INTEN :: u32
  INTSTS :: u32
  ABTSTS :: u32
  TDSTS :: u32
  ALIGN :: u32
  TOUTPSC0_7 :: u32
  TOUTPSC8_15 :: u32
  TOUTEN :: u32
  TOUTIEN :: u32
  SCATBA :: u32
  TOC :: "u32 list"
  REQSEL :: "u32 list"

datatype memctrl = eMemCtl_SrcFix_DstFix | eMemCtl_SrcFix_DstInc | eMemCtl_SrcInc_DstFix
  | eMemCtl_SrcInc_DstInc | eMemCtl_Undefined

primrec memctrl_code :: "memctrl \<Rightarrow> int" where
  "memctrl_code eMemCtl_SrcFix_DstFix = 0"
| "memctrl_code eMemCtl_SrcFix_DstInc = 1"
| "memctrl_code eMemCtl_SrcInc_DstFix = 2"
| "memctrl_code eMemCtl_SrcInc_DstInc = 3"
| "memctrl_code eMemCtl_Undefined = - 1"

datatype cbtype = eCBType_Event | eCBType_Trigger | eCBType_Disable | eCBType_Undefined

text \<open>Handlers are named by numbers, \<open>None\<close> is the NULL handler.\<close>

record chn_cb =
  m_eCBType :: cbtype
  m_pfnCBHandler :: "nat option"
  m_pvUserData :: nat
  m_u32Reserved :: u32

text \<open>\<open>m_ppsSgtbl\<close> is the array of descriptor pointers the channel owns, with its
  contents.\<close>

record pdma_chn =
  m_sCB_Event :: chn_cb
  m_sCB_Trigger :: chn_cb
  m_sCB_Disable :: chn_cb
  m_ppsSgtbl :: "u32 list option"
  m_u32WantedSGTblNum :: nat
  m_u32EventFilter :: u32
  m_u32IdleTimeout_us :: u32
  m_u32Peripheral :: u32
  m_eMemCtl :: memctrl

text \<open>\<open>sg_base\<close> is the address of \<^verbatim>\<open>nu_pdma_sgtbl_arr\<close>, \<open>dscts\<close> the
  contents of every descriptor, in that array and in the channel registers; \<open>calls\<close> records the
  trigger callbacks the driver has made.  \<open>hclk\<close> is the bus clock and \<open>reset_regs\<close> what a
  reset of the module leaves in its registers.\<close>

record pdma =
  nu_pdma_inited :: bool
  nu_pdma_chn_mask_arr :: "u32 list"
  nu_pdma_chn_arr :: "pdma_chn list"
  nu_pdma_sgtbl_token :: "u32 list"
  sg_base :: u32
  dscts :: "u32 \<Rightarrow> dsct"
  mods :: "pdma_regs list"
  calls :: "(nat \<times> nat \<times> u32) list"
  hclk :: nat
  reset_regs :: pdma_regs

abbreviation (input) PDMA_CNT :: nat where "PDMA_CNT \<equiv> 2"
abbreviation (input) PDMA_CH_MAX :: nat where "PDMA_CH_MAX \<equiv> 16"
abbreviation (input) NU_PDMA_CH_MAX :: nat where "NU_PDMA_CH_MAX \<equiv> 32"
abbreviation (input) PDMA_CH_Msk :: u32 where "PDMA_CH_Msk \<equiv> 0xFFFF"
abbreviation (input) NU_PDMA_SGTBL_POOL_SIZE :: nat where "NU_PDMA_SGTBL_POOL_SIZE \<equiv> 32"
abbreviation (input) NU_PDMA_SG_LIMITED_DISTANCE :: u32 where "NU_PDMA_SG_LIMITED_DISTANCE \<equiv> 0x10000"
abbreviation (input) NU_PDMA_SG_TBL_MAXSIZE :: nat where "NU_PDMA_SG_TBL_MAXSIZE \<equiv> 4096"
abbreviation (input) NU_PDMA_MAX_TXCNT :: u32 where "NU_PDMA_MAX_TXCNT \<equiv> 0x10000"

definition null_cb :: chn_cb where
  "null_cb = \<lparr>m_eCBType = eCBType_Event, m_pfnCBHandler = None, m_pvUserData = 0, m_u32Reserved = 0\<rparr>"

text \<open>A channel after \<^verbatim>\<open>rt_memset(.., 0x00, sizeof(nu_pdma_chn_t))\<close>.\<close>

definition chn_zero :: pdma_chn where
  "chn_zero = \<lparr>m_sCB_Event = null_cb, m_sCB_Trigger = null_cb, m_sCB_Disable = null_cb,
     m_ppsSgtbl = None, m_u32WantedSGTblNum = 0, m_u32EventFilter = 0, m_u32IdleTimeout_us = 0,
     m_u32Peripheral = 0, m_eMemCtl = eMemCtl_SrcFix_DstFix\<rparr>"

definition dsct_zero :: dsct where
  "dsct_zero = \<lparr>CTL = 0, SA = 0, DA = 0, NEXT = 0\<rparr>"

text \<open>Channel numbers: the module, the channel in it, and the address of its descriptor
  registers.\<close>

definition NU_PDMA_GET_MOD_IDX :: "int \<Rightarrow> nat" where
  "NU_PDMA_GET_MOD_IDX ch = unat (word_of_int ch :: u32) div PDMA_CH_MAX"

definition NU_PDMA_GET_MOD_CHIDX :: "int \<Rightarrow> nat" where
  "NU_PDMA_GET_MOD_CHIDX ch = unat (word_of_int ch :: u32) mod PDMA_CH_MAX"

definition dsct_reg :: "int \<Rightarrow> u32" where
  "dsct_reg ch = 0x40008000 + word_of_nat (NU_PDMA_GET_MOD_IDX ch) * 0x10000 + 16 * word_of_nat (NU_PDMA_GET_MOD_CHIDX ch)"

definition sgtbl_at :: "pdma \<Rightarrow> nat \<Rightarrow> u32" where
  "sgtbl_at p idx = sg_base p + 16 * word_of_nat idx"

section \<open>Elementary accesses\<close>

definition upd_dsct :: "u32 \<Rightarrow> (dsct \<Rightarrow> dsct) \<Rightarrow> pdma \<Rightarrow> pdma" where
  "upd_dsct a f p = p\<lparr>dscts := (dscts p)(a := f (dscts p a))\<rparr>"

definition upd_mod :: "nat \<Rightarrow> (pdma_regs \<Rightarrow> pdma_regs) \<Rightarrow> pdma \<Rightarrow> pdma" where
  "upd_mod m f p = p\<lparr>mods := (mods p)[m := f (mods p ! m)]\<rparr>"

definition chan :: "pdma \<Rightarrow> int \<Rightarrow> pdma_chn" where
  "chan p ch = nu_pdma_chn_arr p ! nat ch"

definition upd_chan :: "int \<Rightarrow> (pdma_chn \<Rightarrow> pdma_chn) \<Rightarrow> pdma \<Rightarrow> pdma" where
  "upd_chan ch f p = p\<lparr>nu_pdma_chn_arr := (nu_pdma_chn_arr p)[nat ch := f (chan p ch)]\<rparr>"

section \<open>Vendor library\<close>

definition PDMA_Open :: "nat \<Rightarrow> u32 \<Rightarrow> pdma \<Rightarrow> pdma" where
  "PDMA_Open m msk p =
     (let p = fold (\<lambda>i p. if push_bit i 1 AND msk \<noteq> 0
                   then upd_dsct (dsct_reg (int (m * PDMA_CH_MAX + i))) (CTL_update (\<lambda>_. 0)) p else p)
                [0..<PDMA_CH_MAX] p
      in upd_mod m (CHCTL_update (\<lambda>x. x OR msk)) p)"

definition PDMA_Close :: "nat \<Rightarrow> pdma \<Rightarrow> pdma" where
  "PDMA_Close m = upd_mod m (CHCTL_update (\<lambda>_. 0))"

definition PDMA_SetTransferMode :: "int \<Rightarrow> u32 \<Rightarrow> bool \<Rightarrow> u32 \<Rightarrow> pdma \<Rightarrow> pdma" where
  "PDMA_SetTransferMode ch peripheral scatter desc_addr p =
     (let m = NU_PDMA_GET_MOD_IDX ch; c = NU_PDMA_GET_MOD_CHIDX ch;
          pos = (c mod 4) * 8;
          p = upd_mod m (REQSEL_update (\<lambda>r. r[c div 4 :=
                (r ! (c div 4) AND NOT (push_bit pos 0x7f)) OR push_bit pos peripheral])) p
      in if scatter then
           let p = upd_dsct (dsct_reg ch) (CTL_update (\<lambda>x. (x AND NOT 3) OR 2)) p
           in upd_dsct (dsct_reg ch) (NEXT_update (\<lambda>_. desc_addr - SCATBA (mods p ! m))) p
         else upd_dsct (dsct_reg ch) (CTL_update (\<lambda>x. (x AND NOT 3) OR 1)) p)"

definition PDMA_DisableTimeout :: "nat \<Rightarrow> u32 \<Rightarrow> pdma \<Rightarrow> pdma" where
  "PDMA_DisableTimeout m msk = upd_mod m (TOUTEN_update (\<lambda>x. x AND NOT msk))"

definition PDMA_SetTimeOut :: "nat \<Rightarrow> nat \<Rightarrow> bool \<Rightarrow> u32 \<Rightarrow> pdma \<Rightarrow> pdma" where
  "PDMA_SetTimeOut m c on cnt p =
     (let pos = (c mod 2) * 16;
          p = upd_mod m (TOC_update (\<lambda>r. r[c div 2 :=
                (r ! (c div 2) AND NOT (push_bit pos 0xffff)) OR push_bit pos cnt])) p
      in if on then upd_mod m (TOUTEN_update (\<lambda>x. x OR push_bit c 1)) p
         else upd_mod m (TOUTEN_update (\<lambda>x. x AND NOT (push_bit c 1))) p)"

definition PDMA_Trigger :: "int \<Rightarrow> pdma \<Rightarrow> pdma" where
  "PDMA_Trigger ch p =
     (let m = NU_PDMA_GET_MOD_IDX ch; c = NU_PDMA_GET_MOD_CHIDX ch;
          pos = (c mod 4) * 8;
          req = drop_bit pos (REQSEL (mods p ! m) ! (c div 4) AND push_bit pos 0x7f)
      in if req = 0 then upd_mod m (SWREQ_update (\<lambda>_. push_bit c 1)) p else p)"

datatype pdma_int = PDMA_INT_TRANS_DONE | PDMA_INT_TEMPTY | PDMA_INT_TIMEOUT

primrec PDMA_EnableInt :: "int \<Rightarrow> pdma_int \<Rightarrow> pdma \<Rightarrow> pdma" where
  "PDMA_EnableInt ch PDMA_INT_TRANS_DONE =
     upd_mod (NU_PDMA_GET_MOD_IDX ch) (INTEN_update (\<lambda>x. x OR push_bit (NU_PDMA_GET_MOD_CHIDX ch) 1))"
| "PDMA_EnableInt ch PDMA_INT_TEMPTY = upd_dsct (dsct_reg ch) (CTL_update (\<lambda>x. x AND NOT 0x80))"
| "PDMA_EnableInt ch PDMA_INT_TIMEOUT =
     upd_mod (NU_PDMA_GET_MOD_IDX ch) (TOUTIEN_update (\<lambda>x. x OR push_bit (NU_PDMA_GET_MOD_CHIDX ch) 1))"

primrec PDMA_DisableInt :: "int \<Rightarrow> pdma_int \<Rightarrow> pdma \<Rightarrow> pdma" where
  "PDMA_DisableInt ch PDMA_INT_TRANS_DONE =
     upd_mod (NU_PDMA_GET_MOD_IDX ch) (INTEN_update (\<lambda>x. x AND NOT (push_bit (NU_PDMA_GET_MOD_CHIDX ch) 1)))"
| "PDMA_DisableInt ch PDMA_INT_TEMPTY = upd_dsct (dsct_reg ch) (CTL_update (\<lambda>x. x OR 0x80))"
| "PDMA_DisableInt ch PDMA_INT_TIMEOUT =
     upd_mod (NU_PDMA_GET_MOD_IDX ch) (TOUTIEN_update (\<lambda>x. x AND NOT (push_bit (NU_PDMA_GET_MOD_CHIDX ch) 1)))"

section \<open>Channels\<close>

text \<open>The peripherals and how their addresses advance: memory to memory, memory to peripheral,
  peripheral to memory.\<close>

definition g_nu_pdma_peripheral_ctl_pool :: "(u32 \<times> memctrl) list" where
  "g_nu_pdma_peripheral_ctl_pool =
     (0, eMemCtl_SrcInc_DstInc) #
     map (\<lambda>i. (i, eMemCtl_SrcInc_DstFix))
       [2, 4, 6, 8, 10, 12, 14, 66, 68, 89, 91, 16, 20, 30, 22, 24, 26, 28, 96, 98, 100, 102, 104, 106, 108,
        44, 79, 51, 52, 53, 54, 55, 56, 57, 59, 60, 61, 62, 63] @
     map (\<lambda>i. (i, eMemCtl_SrcFix_DstInc))
       [3, 5, 7, 9, 11, 13, 15, 67, 69, 90, 92, 17, 21, 31, 23, 25, 27, 29, 97, 99, 101, 103, 105, 107, 109,
        32, 33, 34, 35, 36, 37, 45, 80, 50, 70]"

definition nu_pdma_peripheral_set :: "u32 \<Rightarrow> nat option" where
  "nu_pdma_peripheral_set typ =
     find (\<lambda>idx. fst (g_nu_pdma_peripheral_ctl_pool ! idx) = typ) [0..<length g_nu_pdma_peripheral_ctl_pool]"

definition nu_pdma_periph_ctrl_fill :: "int \<Rightarrow> nat \<Rightarrow> pdma \<Rightarrow> pdma" where
  "nu_pdma_periph_ctrl_fill ch idx = upd_chan ch (\<lambda>c.
     c\<lparr>m_u32Peripheral := fst (g_nu_pdma_peripheral_ctl_pool ! idx),
       m_eMemCtl := snd (g_nu_pdma_peripheral_ctl_pool ! idx)\<rparr>)"

text \<open>The assertion of \<^verbatim>\<open>nu_pdma_check_is_nonallocated\<close> stops the system for a
  channel number outside the two modules.\<close>

definition nu_pdma_check_is_nonallocated :: "int \<Rightarrow> pdma \<Rightarrow> bool res" where
  "nu_pdma_check_is_nonallocated ch p =
     assert_then (NU_PDMA_GET_MOD_IDX ch < PDMA_CNT)
       (Inr (nu_pdma_chn_mask_arr p ! NU_PDMA_GET_MOD_IDX ch AND push_bit (NU_PDMA_GET_MOD_CHIDX ch) 1 = 0))"

text \<open>The module is reset (\<^verbatim>\<open>SYS_ResetModule\<close>), opened and closed; only bits 16 to
  31 of the table base register exist.\<close>

definition nu_pdma_init_mod :: "nat \<Rightarrow> pdma \<Rightarrow> pdma" where
  "nu_pdma_init_mod i p =
     (let p = p\<lparr>nu_pdma_chn_mask_arr := (nu_pdma_chn_mask_arr p)[i := NOT PDMA_CH_Msk]\<rparr>;
          p = upd_mod i (\<lambda>_. reset_regs p) p;
          p = PDMA_Close i (PDMA_Open i PDMA_CH_Msk p)
      in upd_mod i (SCATBA_update (\<lambda>_. sg_base p AND 0xFFFF0000)) p)"

definition nu_pdma_init :: "pdma \<Rightarrow> pdma" where
  "nu_pdma_init p =
     (if nu_pdma_inited p then p
      else let p = fold (\<lambda>i. upd_dsct (sgtbl_at p i) (\<lambda>_. dsct_zero)) [0..<NU_PDMA_SGTBL_POOL_SIZE] p;
               p = p\<lparr>nu_pdma_chn_arr := replicate NU_PDMA_CH_MAX chn_zero\<rparr>;
               p = fold nu_pdma_init_mod [0..<PDMA_CNT] p
           in p\<lparr>nu_pdma_sgtbl_token := [0xFFFFFFFF], nu_pdma_inited := True\<rparr>)"

definition nu_pdma_channel_enable :: "int \<Rightarrow> pdma \<Rightarrow> pdma" where
  "nu_pdma_channel_enable ch p =
     upd_mod (NU_PDMA_GET_MOD_IDX ch) (CHCTL_update (\<lambda>x. x OR push_bit (NU_PDMA_GET_MOD_CHIDX ch) 1))
       (upd_dsct (dsct_reg ch) (CTL_update (\<lambda>_. 0)) p)"

definition nu_pdma_channel_disable :: "int \<Rightarrow> pdma \<Rightarrow> pdma" where
  "nu_pdma_channel_disable ch =
     upd_mod (NU_PDMA_GET_MOD_IDX ch) (CHCTL_update (\<lambda>x. x AND NOT (push_bit (NU_PDMA_GET_MOD_CHIDX ch) 1)))"

text \<open>Writing the reset register clears the channel's enable bit; the loop waits for that.\<close>

definition nu_pdma_channel_reset :: "int \<Rightarrow> pdma \<Rightarrow> pdma" where
  "nu_pdma_channel_reset ch =
     upd_mod (NU_PDMA_GET_MOD_IDX ch) (CHCTL_update (\<lambda>x. x AND NOT (push_bit (NU_PDMA_GET_MOD_CHIDX ch) 1)))"

definition nu_pdma_channel_terminate :: "int \<Rightarrow> pdma \<Rightarrow> pdma res" where
  "nu_pdma_channel_terminate ch p =
     bind_res (nu_pdma_check_is_nonallocated ch p) (\<lambda>non.
       if non then Inr p else Inr (nu_pdma_channel_enable ch (nu_pdma_channel_reset ch p)))"

text \<open>The idle time-out: a prescaler of 3 bits and a counter of 16 bits per channel, in units of
  \<open>2 ^ 8\<close> bus clocks.  The code finds the prescaler's field by multiplying the position of the
  first channel's field, which is 0.\<close>

abbreviation (input) PDMA_TOUTPSC0_7_TOUTPSC0_Pos :: nat where "PDMA_TOUTPSC0_7_TOUTPSC0_Pos \<equiv> 0"
abbreviation (input) PDMA_TOUTPSC8_15_TOUTPSC8_Pos :: nat where "PDMA_TOUTPSC8_15_TOUTPSC8_Pos \<equiv> 0"

definition nu_pdma_timeout_set :: "int \<Rightarrow> u32 \<Rightarrow> pdma \<Rightarrow> (int \<times> pdma) res" where
  "nu_pdma_timeout_set ch us p =
     bind_res (nu_pdma_check_is_nonallocated ch p) (\<lambda>non.
     if non then Inr (- RT_EINVAL, p)
     else let m = NU_PDMA_GET_MOD_IDX ch; c = NU_PDMA_GET_MOD_CHIDX ch;
              p = upd_chan ch (m_u32IdleTimeout_us_update (\<lambda>_. us)) p
          in if us \<noteq> 0 then
               if hclk p div 256 = 0 \<or> 1000000 div (hclk p div 256) = 0 then Inl BadAccess
               else let to_clk_max = 1000000 div (hclk p div 256);
                        divider = unat us div to_clk_max div 65536;
                        cnt = unat us div to_clk_max mod 65536;
                        p = PDMA_EnableInt ch PDMA_INT_TIMEOUT (PDMA_DisableTimeout m (push_bit c 1) p);
                        cnt = (if divider > 7 then 65536 else cnt);
                        divider = (if divider > 7 then 7 else divider);
                        psc = (\<lambda>k x. (x AND NOT (push_bit k 7)) OR push_bit k (word_of_nat divider));
                        p = (if c < 8 then upd_mod m (TOUTPSC0_7_update (psc (PDMA_TOUTPSC0_7_TOUTPSC0_Pos * c))) p
                             else upd_mod m (TOUTPSC8_15_update (psc (PDMA_TOUTPSC8_15_TOUTPSC8_Pos * (c mod 8)))) p)
                    in Inr (- RT_EOK, PDMA_SetTimeOut m c True (word_of_nat cnt) p)
             else Inr (- RT_EINVAL, PDMA_DisableTimeout m (push_bit c 1) (PDMA_DisableInt ch PDMA_INT_TIMEOUT p)))"

definition nu_pdma_channel_allocate :: "u32 \<Rightarrow> pdma \<Rightarrow> (int \<times> pdma) res" where
  "nu_pdma_channel_allocate typ p =
     (let p = nu_pdma_init p
      in case nu_pdma_peripheral_set typ of
           None \<Rightarrow> Inr (- RT_ERROR, p)
         | Some ctl \<Rightarrow>
           (case find (\<lambda>j. nu_cto (nu_pdma_chn_mask_arr p ! j) < PDMA_CH_MAX) [0..<PDMA_CNT] of
              None \<Rightarrow> Inr (- RT_ERROR, p)
            | Some j \<Rightarrow>
                let c = nu_cto (nu_pdma_chn_mask_arr p ! j);
                    p = p\<lparr>nu_pdma_chn_mask_arr :=
                          (nu_pdma_chn_mask_arr p)[j := nu_pdma_chn_mask_arr p ! j OR push_bit c 1]\<rparr>;
                    ch = int (c + j * PDMA_CH_MAX);
                    p = nu_pdma_periph_ctrl_fill ch ctl (upd_chan ch (\<lambda>_. chn_zero) p)
                in bind_res (nu_pdma_channel_terminate ch p) (\<lambda>p. Inr (ch, p))))"

definition nu_pdma_channel_free :: "int \<Rightarrow> pdma \<Rightarrow> (int \<times> pdma) res" where
  "nu_pdma_channel_free ch p =
     (if \<not> nu_pdma_inited p then Inr (- RT_EINVAL, p)
      else bind_res (nu_pdma_check_is_nonallocated ch p) (\<lambda>non.
        if non then Inr (- RT_EINVAL, p)
        else if ch < int NU_PDMA_CH_MAX \<and> 0 \<le> ch then
          let m = NU_PDMA_GET_MOD_IDX ch;
              p = p\<lparr>nu_pdma_chn_mask_arr := (nu_pdma_chn_mask_arr p)[m :=
                     nu_pdma_chn_mask_arr p ! m AND NOT (push_bit (NU_PDMA_GET_MOD_CHIDX ch) 1)]\<rparr>
          in Inr (- RT_EOK, nu_pdma_channel_disable ch p)
        else Inr (- RT_EINVAL, p)))"

definition nu_pdma_filtering_set :: "int \<Rightarrow> u32 \<Rightarrow> pdma \<Rightarrow> (int \<times> pdma) res" where
  "nu_pdma_filtering_set ch evs p =
     bind_res (nu_pdma_check_is_nonallocated ch p) (\<lambda>non.
       if non then Inr (- RT_EINVAL, p)
       else Inr (- RT_EOK, upd_chan ch (m_u32EventFilter_update (\<lambda>_. evs)) p))"

definition nu_pdma_filtering_get :: "int \<Rightarrow> pdma \<Rightarrow> u32 res" where
  "nu_pdma_filtering_get ch p =
     bind_res (nu_pdma_check_is_nonallocated ch p) (\<lambda>non.
       Inr (if non then 0 else m_u32EventFilter (chan p ch)))"

text \<open>The callback of a type, and the update of one.\<close>

fun cb_of :: "cbtype \<Rightarrow> pdma_chn \<Rightarrow> chn_cb" where
  "cb_of eCBType_Event c = m_sCB_Event c"
| "cb_of eCBType_Trigger c = m_sCB_Trigger c"
| "cb_of _ c = m_sCB_Disable c"

fun cb_upd :: "cbtype \<Rightarrow> (chn_cb \<Rightarrow> chn_cb) \<Rightarrow> pdma_chn \<Rightarrow> pdma_chn" where
  "cb_upd eCBType_Event f c = c\<lparr>m_sCB_Event := f (m_sCB_Event c)\<rparr>"
| "cb_upd eCBType_Trigger f c = c\<lparr>m_sCB_Trigger := f (m_sCB_Trigger c)\<rparr>"
| "cb_upd _ f c = c\<lparr>m_sCB_Disable := f (m_sCB_Disable c)\<rparr>"

definition cb_store :: "chn_cb \<Rightarrow> chn_cb \<Rightarrow> chn_cb" where
  "cb_store new old = old\<lparr>m_pfnCBHandler := m_pfnCBHandler new, m_pvUserData := m_pvUserData new\<rparr>"

definition nu_pdma_callback_register :: "int \<Rightarrow> chn_cb option \<Rightarrow> pdma \<Rightarrow> (int \<times> pdma) res" where
  "nu_pdma_callback_register ch psChnCb p =
     (case psChnCb of None \<Rightarrow> Inl AssertFail
      | Some cb \<Rightarrow> bind_res (nu_pdma_check_is_nonallocated ch p) (\<lambda>non.
          if non \<or> m_eCBType cb = eCBType_Undefined then Inr (- RT_EINVAL, p)
          else Inr (- RT_EOK, upd_chan ch (cb_upd (m_eCBType cb) (cb_store cb)) p)))"

text \<open>Swapping a callback: the handler that was installed, the caller's structure with the old
  values, the driver with the new ones.\<close>

definition nu_pdma_callback_hijack ::
  "int \<Rightarrow> cbtype \<Rightarrow> chn_cb option \<Rightarrow> pdma \<Rightarrow> (nat option \<times> chn_cb \<times> pdma) res" where
  "nu_pdma_callback_hijack ch typ psChnCb p =
     (case psChnCb of None \<Rightarrow> Inl AssertFail
      | Some cb \<Rightarrow> bind_res (nu_pdma_check_is_nonallocated ch p) (\<lambda>non.
          if non \<or> typ = eCBType_Undefined then Inr (None, cb, p)
          else let old = cb_of typ (chan p ch)
               in Inr (m_pfnCBHandler old, cb_store old cb, upd_chan ch (cb_upd typ (cb_store cb)) p)))"

definition nu_pdma_non_transfer_count_get :: "int \<Rightarrow> pdma \<Rightarrow> nat" where
  "nu_pdma_non_transfer_count_get ch p =
     unat (drop_bit 16 (CTL (dscts p (dsct_reg ch)) AND 0xffff0000)) + 1"

definition nu_pdma_transferred_byte_get :: "int \<Rightarrow> int \<Rightarrow> pdma \<Rightarrow> int res" where
  "nu_pdma_transferred_byte_get ch len p =
     bind_res (nu_pdma_check_is_nonallocated ch p) (\<lambda>non.
       if non then Inr (- 1)
       else let w = CTL (dscts p (dsct_reg ch)) AND 0x3000;
                w = (if w = 0 then 1 else if w = 0x1000 then 2 else if w = 0x2000 then 4 else 0)
            in Inr (len - int (nu_pdma_non_transfer_count_get ch p) * w))"

definition nu_pdma_channel_memctrl_get :: "int \<Rightarrow> pdma \<Rightarrow> memctrl res" where
  "nu_pdma_channel_memctrl_get ch p =
     bind_res (nu_pdma_check_is_nonallocated ch p) (\<lambda>non.
       Inr (if non then eMemCtl_Undefined else m_eMemCtl (chan p ch)))"

definition nu_pdma_channel_memctrl_set :: "int \<Rightarrow> memctrl \<Rightarrow> pdma \<Rightarrow> (int \<times> pdma) res" where
  "nu_pdma_channel_memctrl_set ch ctl p =
     bind_res (nu_pdma_check_is_nonallocated ch p) (\<lambda>non.
       if non then Inr (- RT_EINVAL, p)
       else if memctrl_code ctl < 0 \<or> memctrl_code ctl > 3 then Inr (- RT_EINVAL, p)
       else if m_u32Peripheral (chan p ch) = 0 \<and> (ctl = eMemCtl_SrcFix_DstInc \<or> ctl = eMemCtl_SrcFix_DstFix)
         then Inr (- RT_EINVAL, p)
       else Inr (- RT_EOK, upd_chan ch (m_eMemCtl_update (\<lambda>_. ctl)) p))"

section \<open>The pool of scatter-gather descriptors\<close>

definition nu_pdma_sgtbls_token_allocate :: "pdma \<Rightarrow> (nat \<times> pdma) option" where
  "nu_pdma_sgtbls_token_allocate p =
     (case find (\<lambda>i. nu_ctz (nu_pdma_sgtbl_token p ! i) \<noteq> 32) [0..<length (nu_pdma_sgtbl_token p)] of
        None \<Rightarrow> None
      | Some i \<Rightarrow>
          let idx = nu_ctz (nu_pdma_sgtbl_token p ! i)
          in Some (idx + i * 32, p\<lparr>nu_pdma_sgtbl_token := (nu_pdma_sgtbl_token p)[i :=
               nu_pdma_sgtbl_token p ! i AND NOT (push_bit idx 1)]\<rparr>))"

text \<open>\<open>psSgtbls - &nu_pdma_sgtbl_arr[0]\<close> is the signed distance over the size of a
  descriptor, an arithmetic shift by 4.\<close>

definition sgtbl_idx :: "u32 \<Rightarrow> pdma \<Rightarrow> int" where
  "sgtbl_idx a p = sint (a - sg_base p) div 16"

definition nu_pdma_sgtbls_token_free :: "u32 \<Rightarrow> pdma \<Rightarrow> pdma res" where
  "nu_pdma_sgtbls_token_free a p =
     (let idx = sgtbl_idx a p
      in assert_then (idx \<ge> 0) (
         assert_then (idx + 1 \<le> int NU_PDMA_SGTBL_POOL_SIZE) (
         let i = nat idx
         in Inr (p\<lparr>nu_pdma_sgtbl_token := (nu_pdma_sgtbl_token p)[i div 32 :=
              nu_pdma_sgtbl_token p ! (i div 32) OR push_bit (i mod 32) 1]\<rparr>))))"

text \<open>The array of pointers the caller passes is returned with its new contents.\<close>

fun sgtbls_free_loop :: "u32 list \<Rightarrow> nat \<Rightarrow> pdma \<Rightarrow> (u32 list \<times> pdma) res" where
  "sgtbls_free_loop arr 0 p = Inr (arr, p)"
| "sgtbls_free_loop [] (Suc n) p = Inl BadAccess"
| "sgtbls_free_loop (a # arr) (Suc n) p =
     bind_res (if a \<noteq> 0 then nu_pdma_sgtbls_token_free a p else Inr p) (\<lambda>p.
     bind_res (sgtbls_free_loop arr n p) (\<lambda>(arr, p). Inr (0 # arr, p)))"

definition nu_pdma_sgtbls_free :: "u32 list \<Rightarrow> nat \<Rightarrow> pdma \<Rightarrow> (u32 list \<times> pdma) res" where
  "nu_pdma_sgtbls_free arr num p =
     assert_then (num \<le> NU_PDMA_SG_TBL_MAXSIZE) (sgtbls_free_loop arr num p)"

fun sgtbls_alloc_loop :: "nat \<Rightarrow> nat \<Rightarrow> u32 list \<Rightarrow> pdma \<Rightarrow> (int \<times> u32 list \<times> pdma) res" where
  "sgtbls_alloc_loop i 0 arr p = Inr (RT_EOK, arr, p)"
| "sgtbls_alloc_loop i (Suc n) arr p =
     (if length arr \<le> i then Inl BadAccess
      else let arr = arr[i := 0]
           in case nu_pdma_sgtbls_token_allocate p of
                None \<Rightarrow> bind_res (nu_pdma_sgtbls_free arr i p) (\<lambda>(arr, p). Inr (- RT_ERROR, arr, p))
              | Some (idx, p) \<Rightarrow> sgtbls_alloc_loop (i + 1) n (arr[i := sgtbl_at p idx]) p)"

definition nu_pdma_sgtbls_allocate :: "u32 list \<Rightarrow> nat \<Rightarrow> pdma \<Rightarrow> (int \<times> u32 list \<times> pdma) res" where
  "nu_pdma_sgtbls_allocate arr num p =
     assert_then (num \<le> NU_PDMA_SG_TBL_MAXSIZE) (sgtbls_alloc_loop 0 num arr p)"

end
