(* ===== verification/PdmaXfer.thy ===== *)
theory PdmaXfer
  imports Pdma
begin

text \<open>
  Transfers of the PDMA driver, second part of
  \<^verbatim>\<open>libraries/m460/rtt_port/drv_pdma.c\<close>: descriptors, chains of descriptors for more
  than 65536 items, scatter-gather lists; and what the controller does with them.
\<close>

section \<open>Operations\<close>

text \<open>The two output parameters keep their value for \<open>eMemCtl_Undefined\<close>.\<close>

fun nu_pdma_channel_memctrl_fill :: "memctrl \<Rightarrow> u32 \<times> u32 \<Rightarrow> u32 \<times> u32" where
  "nu_pdma_channel_memctrl_fill eMemCtl_SrcFix_DstFix _ = (0x300, 0xC00)"
| "nu_pdma_channel_memctrl_fill eMemCtl_SrcFix_DstInc _ = (0x300, 0)"
| "nu_pdma_channel_memctrl_fill eMemCtl_SrcInc_DstFix _ = (0, 0xC00)"
| "nu_pdma_channel_memctrl_fill eMemCtl_SrcInc_DstInc _ = (0, 0)"
| "nu_pdma_channel_memctrl_fill eMemCtl_Undefined io = io"

text \<open>The descriptor that is written; \<open>i32TransferCnt\<close> is a word here, a NULL
  \<open>next\<close> is 0.\<close>

definition desc_of :: "pdma_chn \<Rightarrow> u32 \<Rightarrow> u32 \<Rightarrow> u32 \<Rightarrow> u32 \<Rightarrow> u32 \<Rightarrow> u32 \<Rightarrow> bool \<Rightarrow> dsct" where
  "desc_of c scatba width src dst cnt next_desc silent =
     (let (sctl, dctl) = nu_pdma_channel_memctrl_fill (m_eMemCtl c) (0, 0);
          ctl = push_bit 16 (cnt - 1)
                OR (if width = 8 then 0 else if width = 16 then 0x1000 else 0x2000)
                OR sctl OR dctl OR 1;
          d = \<lparr>CTL = ctl, SA = src, DA = dst, NEXT = 0\<rparr>;
          d = (if m_u32Peripheral c = 0 then d\<lparr>CTL := CTL d OR 0x20\<rparr> else d\<lparr>CTL := CTL d OR 4\<rparr>);
          d = (if next_desc \<noteq> 0 then d\<lparr>CTL := (CTL d AND NOT 3) OR 2, NEXT := next_desc - scatba\<rparr> else d)
      in if silent then d\<lparr>CTL := CTL d OR 0x80\<rparr> else d)"

definition nu_pdma_desc_setup ::
  "int \<Rightarrow> u32 \<Rightarrow> u32 \<Rightarrow> u32 \<Rightarrow> u32 \<Rightarrow> u32 \<Rightarrow> u32 \<Rightarrow> bool \<Rightarrow> pdma \<Rightarrow> (int \<times> pdma) res" where
  "nu_pdma_desc_setup ch dma_desc width src dst cnt next_desc silent p =
     (if dma_desc = 0 then Inr (- RT_EINVAL, p)
      else bind_res (nu_pdma_check_is_nonallocated ch p) (\<lambda>non.
        if non then Inr (- RT_EINVAL, p)
        else if \<not> (width = 8 \<or> width = 16 \<or> width = 32) then Inr (- RT_EINVAL, p)
        else if src mod (width div 8) \<noteq> 0 \<or> dst mod (width div 8) \<noteq> 0 then Inr (- RT_EINVAL, p)
        else if cnt > NU_PDMA_MAX_TXCNT then Inr (- RT_EINVAL, p)
        else Inr (- RT_EOK, upd_dsct dma_desc (\<lambda>_.
               desc_of (chan p ch) (SCATBA (mods p ! NU_PDMA_GET_MOD_IDX ch)) width src dst cnt next_desc silent) p)))"

text \<open>A list of descriptors may be followed for ever; fuel bounds the walk.\<close>

fun nu_pdma_sgtbls_valid_loop :: "nat \<Rightarrow> u32 \<Rightarrow> u32 \<Rightarrow> pdma \<Rightarrow> int res" where
  "nu_pdma_sgtbls_valid_loop 0 head node p = Inl OutOfFuel"
| "nu_pdma_sgtbls_valid_loop (Suc n) head node p =
     (let scatba = SCATBA (mods p ! 0)
      in if node < scatba \<or> node - scatba \<ge> NU_PDMA_SG_LIMITED_DISTANCE then Inr RT_ERROR
         else let node = NEXT (dscts p node) + scatba
              in if node \<noteq> scatba \<and> node \<noteq> head then nu_pdma_sgtbls_valid_loop n head node p
                 else Inr RT_EOK)"

definition nu_pdma_sgtbls_valid :: "nat \<Rightarrow> u32 \<Rightarrow> pdma \<Rightarrow> int res" where
  "nu_pdma_sgtbls_valid n head p = nu_pdma_sgtbls_valid_loop n head head p"

definition pdma_start :: "int \<Rightarrow> u32 \<Rightarrow> u32 \<Rightarrow> u32 \<Rightarrow> pdma \<Rightarrow> pdma res" where
  "pdma_start ch peripheral head timeout p =
     (let m = NU_PDMA_GET_MOD_IDX ch;
          p = PDMA_DisableTimeout m (push_bit (NU_PDMA_GET_MOD_CHIDX ch) 1) p;
          p = PDMA_EnableInt ch PDMA_INT_TRANS_DONE p
      in bind_res (nu_pdma_timeout_set ch timeout p) (\<lambda>(_, p).
         let p = PDMA_SetTransferMode ch peripheral (NEXT (dscts p head) \<noteq> 0) head p
         in if peripheral = 0 then Inr (PDMA_Trigger ch p)
            else case m_pfnCBHandler (m_sCB_Trigger (chan p ch)) of
                   None \<Rightarrow> Inr p
                 | Some h \<Rightarrow> Inr (p\<lparr>calls := calls p @
                     [(h, m_pvUserData (m_sCB_Trigger (chan p ch)), m_u32Reserved (m_sCB_Trigger (chan p ch)))]\<rparr>)))"

definition pdma_free_sgtbls :: "int \<Rightarrow> pdma \<Rightarrow> pdma res" where
  "pdma_free_sgtbls ch p =
     (case m_ppsSgtbl (chan p ch) of
        None \<Rightarrow> Inr p
      | Some arr \<Rightarrow>
          bind_res (nu_pdma_sgtbls_free arr (m_u32WantedSGTblNum (chan p ch)) p) (\<lambda>(_, p).
          Inr (upd_chan ch (\<lambda>c. c\<lparr>m_ppsSgtbl := None, m_u32WantedSGTblNum := 0\<rparr>) p)))"

text \<open>The descriptors of a chain, from the \<open>i\<close>-th; \<open>None\<close> in the place of the
  array is the NULL pointer the loop would follow.\<close>

fun chain_setup :: "int \<Rightarrow> u32 \<Rightarrow> u32 \<Rightarrow> u32 \<Rightarrow> memctrl \<Rightarrow> u32 list option \<Rightarrow> nat \<Rightarrow> nat \<Rightarrow> u32 \<Rightarrow> u32 \<Rightarrow> pdma
    \<Rightarrow> (int \<times> pdma) res" where
  "chain_setup ch width src dst ctl arr i 0 cnt off p = Inr (RT_EOK, p)"
| "chain_setup ch width src dst ctl arr i (Suc n) cnt off p =
     (case arr of None \<Rightarrow> Inl NullDeref
      | Some sg \<Rightarrow>
        if length sg < i + Suc n then Inl BadAccess
        else let tx = (if cnt > NU_PDMA_MAX_TXCNT then NU_PDMA_MAX_TXCNT else cnt)
             in bind_res (nu_pdma_desc_setup ch (sg ! i) width
                   (if odd (memctrl_code ctl div 2) then src + off else src)
                   (if odd (memctrl_code ctl) then dst + off else dst)
                   tx (if n = 0 then 0 else sg ! (i + 1)) (n \<noteq> 0) p) (\<lambda>(ret, p).
                if ret \<noteq> RT_EOK then Inr (ret, p)
                else chain_setup ch width src dst ctl arr (i + 1) n (cnt - tx) (off + tx * width div 8) p))"

text \<open>\<open>heap\<close> is what \<^verbatim>\<open>rt_malloc_align\<close> returns: nothing, or a block with
  the contents it happens to have.\<close>

definition chain_prepare :: "int \<Rightarrow> u32 list option \<Rightarrow> u32 \<Rightarrow> pdma \<Rightarrow> (int \<times> pdma) res" where
  "chain_prepare ch heap cnt p =
     (let wanted = unat cnt div 65536 + 1
      in if m_u32WantedSGTblNum (chan p ch) = wanted then Inr (RT_EOK, p)
         else bind_res (if m_u32WantedSGTblNum (chan p ch) > 0 then pdma_free_sgtbls ch p else Inr p) (\<lambda>p.
              let p = upd_chan ch (\<lambda>c. c\<lparr>m_u32WantedSGTblNum := wanted, m_ppsSgtbl := heap\<rparr>) p
              in case heap of None \<Rightarrow> Inr (RT_ERROR, p)
                 | Some arr \<Rightarrow>
                   bind_res (nu_pdma_sgtbls_allocate arr wanted p) (\<lambda>(ret, arr, p).
                   Inr (ret, upd_chan ch (m_ppsSgtbl_update (\<lambda>_. Some arr)) p))))"

definition pdma_transfer_chain ::
  "int \<Rightarrow> u32 list option \<Rightarrow> u32 \<Rightarrow> u32 \<Rightarrow> u32 \<Rightarrow> u32 \<Rightarrow> u32 \<Rightarrow> pdma \<Rightarrow> (int \<times> pdma) res" where
  "pdma_transfer_chain ch heap width src dst cnt timeout p =
     bind_res (nu_pdma_channel_memctrl_get ch p) (\<lambda>ctl.
     bind_res (chain_prepare ch heap cnt p) (\<lambda>(ret, p).
     let fail = (\<lambda>ret p. bind_res (pdma_free_sgtbls ch p) (\<lambda>p. Inr (- ret, p)))
     in if ret \<noteq> RT_EOK then fail ret p
        else bind_res (chain_setup ch width src dst ctl (m_ppsSgtbl (chan p ch)) 0
               (m_u32WantedSGTblNum (chan p ch)) cnt 0 p) (\<lambda>(ret, p).
          if ret \<noteq> RT_EOK then fail ret p
          else case m_ppsSgtbl (chan p ch) of
                 Some (head # _) \<Rightarrow>
                   bind_res (pdma_start ch (m_u32Peripheral (chan p ch)) head timeout p) (\<lambda>p. Inr (RT_EOK, p))
               | _ \<Rightarrow> Inl NullDeref)))"

definition nu_pdma_transfer ::
  "int \<Rightarrow> u32 list option \<Rightarrow> u32 \<Rightarrow> u32 \<Rightarrow> u32 \<Rightarrow> u32 \<Rightarrow> u32 \<Rightarrow> pdma \<Rightarrow> (int \<times> pdma) res" where
  "nu_pdma_transfer ch heap width src dst cnt timeout p =
     bind_res (nu_pdma_check_is_nonallocated ch p) (\<lambda>non.
     if non then Inr (- RT_EINVAL, p)
     else if cnt = 0 then Inr (- RT_EINVAL, p)
     else if cnt > NU_PDMA_MAX_TXCNT then pdma_transfer_chain ch heap width src dst cnt timeout p
     else bind_res (nu_pdma_desc_setup ch (dsct_reg ch) width src dst cnt 0 False p) (\<lambda>(ret, p).
       if ret \<noteq> RT_EOK then Inr (- ret, p)
       else bind_res (pdma_start ch (m_u32Peripheral (chan p ch)) (dsct_reg ch) timeout p) (\<lambda>p. Inr (- RT_EOK, p))))"

definition nu_pdma_sg_transfer :: "nat \<Rightarrow> int \<Rightarrow> u32 \<Rightarrow> u32 \<Rightarrow> pdma \<Rightarrow> (int \<times> pdma) res" where
  "nu_pdma_sg_transfer n ch head timeout p =
     (if head = 0 then Inr (- RT_EINVAL, p)
      else bind_res (nu_pdma_check_is_nonallocated ch p) (\<lambda>non.
        if non then Inr (- RT_EINVAL, p)
        else bind_res (nu_pdma_sgtbls_valid n head p) (\<lambda>ret.
          if ret \<noteq> RT_EOK then Inr (- ret, p)
          else bind_res (pdma_start ch (m_u32Peripheral (chan p ch)) head timeout p) (\<lambda>p. Inr (- RT_EOK, p)))))"

section \<open>The controller\<close>

text \<open>What \<^verbatim>\<open>pdma_reg.h\<close> says the controller does.  The fields of a descriptor: the
  mode in bits 0 and 1, the width in bits 12 and 13, the fixed addresses in bits 8 to 11, the number of
  items less one in bits 16 to 31.  An item is its source, its destination and its size in bytes.\<close>

type_synonym item = "u32 \<times> u32 \<times> u32"

definition dsct_count :: "dsct \<Rightarrow> nat" where
  "dsct_count d = unat (drop_bit 16 (CTL d)) + 1"

definition dsct_bytes :: "dsct \<Rightarrow> u32" where
  "dsct_bytes d = (if CTL d AND 0x3000 = 0 then 1 else if CTL d AND 0x3000 = 0x1000 then 2 else 4)"

definition dsct_item :: "dsct \<Rightarrow> nat \<Rightarrow> item" where
  "dsct_item d k =
     (if CTL d AND 0x300 = 0x300 then SA d else SA d + word_of_nat k * dsct_bytes d,
      if CTL d AND 0xC00 = 0xC00 then DA d else DA d + word_of_nat k * dsct_bytes d,
      dsct_bytes d)"

definition dsct_moves :: "dsct \<Rightarrow> item list" where
  "dsct_moves d = map (dsct_item d) [0..<dsct_count d]"

text \<open>The items a channel moves: in basic mode those of the table in its registers; in
  scatter-gather mode that table is skipped and the one its link names, an offset of 16 bits from the table
  base, is loaded and done, and so on until a table in basic mode.  Fuel bounds the walk.\<close>

fun run_tables :: "nat \<Rightarrow> u32 \<Rightarrow> (u32 \<Rightarrow> dsct) \<Rightarrow> u32 \<Rightarrow> item list" where
  "run_tables 0 scatba mem a = []"
| "run_tables (Suc n) scatba mem a =
     (let d = mem a
      in if CTL d AND 3 = 2 then dsct_moves d @ run_tables n scatba mem (scatba + (NEXT d AND 0xFFFF))
         else if CTL d AND 3 = 1 then dsct_moves d else [])"

definition channel_moves :: "nat \<Rightarrow> int \<Rightarrow> pdma \<Rightarrow> item list" where
  "channel_moves n ch p =
     (let d = dscts p (dsct_reg ch); scatba = SCATBA (mods p ! NU_PDMA_GET_MOD_IDX ch)
      in if CTL d AND 3 = 2 then run_tables n scatba (dscts p) (scatba + (NEXT d AND 0xFFFF))
         else if CTL d AND 3 = 1 then dsct_moves d else [])"

end
