(* ===== verification/PdmaPool.thy ===== *)
theory PdmaPool
  imports Pdma
begin

text \<open>
  The two pools of the PDMA driver, channels and scatter-gather descriptors, as block pools.
\<close>

section \<open>Lowest bits\<close>

lemma nu_ctz_lowest: "x \<noteq> 0 \<Longrightarrow> lowest_set x (nu_ctz x)"
proof -
  assume "x \<noteq> 0"
  then obtain n where n: "lowest_set x n" using lowest_set_ex by blast
  then have "(LEAST n. bit x n) = n"
    unfolding lowest_set_def by (intro Least_equality) (auto simp: not_le [symmetric])
  then show ?thesis using n \<open>x \<noteq> 0\<close> by (simp add: nu_ctz_correct)
qed

lemma nu_ctz_lt: "x \<noteq> 0 \<Longrightarrow> nu_ctz x < 32"
  by (rule lowest_set_lt [OF nu_ctz_lowest])

lemma nu_ctz_32: "nu_ctz x = 32 \<longleftrightarrow> x = 0"
proof (cases "x = 0")
  case False
  then show ?thesis using nu_ctz_lt [of x] by simp
qed (simp add: nu_ctz_correct)

lemma nu_ctz_lt_iff: "n \<le> 32 \<Longrightarrow> nu_ctz x < n \<longleftrightarrow> (\<exists>i<n. bit x i)"
proof (cases "x = 0")
  case False
  assume "n \<le> 32"
  have l: "bit x (nu_ctz x)" "\<And>i. i < nu_ctz x \<Longrightarrow> \<not> bit x i"
    using nu_ctz_lowest [OF False] by (simp_all add: lowest_set_def)
  then show ?thesis by (metis not_less order_less_le_trans)
qed (simp add: nu_ctz_correct)

lemma nu_cto_lt_iff: "n \<le> 32 \<Longrightarrow> nu_cto x < n \<longleftrightarrow> (\<exists>i<n. \<not> bit x i)"
  by (auto simp: nu_cto_def nu_ctz_lt_iff bit_simps)

lemma nu_cto_bit: "nu_cto x < 32 \<Longrightarrow> \<not> bit x (nu_cto x) \<and> (\<forall>i<nu_cto x. bit x i)"
proof -
  assume a: "nu_cto x < 32"
  then have "NOT x \<noteq> 0" unfolding nu_cto_def using nu_ctz_32 by (metis less_irrefl)
  from nu_ctz_lowest [OF this] show ?thesis using a unfolding nu_cto_def lowest_set_def by (auto simp: bit_simps)
qed

section \<open>Tokens\<close>

definition sg_inv :: "pdma \<Rightarrow> bool" where
  "sg_inv p \<longleftrightarrow> length (nu_pdma_sgtbl_token p) = 1"

definition sg_free :: "pdma \<Rightarrow> nat set" where
  "sg_free p = {i. i < NU_PDMA_SGTBL_POOL_SIZE \<and> bit (nu_pdma_sgtbl_token p ! 0) i}"

definition sg_give :: "nat \<Rightarrow> pdma \<Rightarrow> pdma" where
  "sg_give i p = p\<lparr>nu_pdma_sgtbl_token := [nu_pdma_sgtbl_token p ! 0 OR push_bit i 1]\<rparr>"

definition sg_take :: "nat \<Rightarrow> pdma \<Rightarrow> pdma" where
  "sg_take i p = p\<lparr>nu_pdma_sgtbl_token := [nu_pdma_sgtbl_token p ! 0 AND NOT (push_bit i 1)]\<rparr>"

lemma finite_sg_free [simp]: "finite (sg_free p)"
  by (simp add: sg_free_def)

lemma sg_inv_give [simp]: "sg_inv (sg_give i p)" "sg_inv (sg_take i p)"
  by (simp_all add: sg_inv_def sg_give_def sg_take_def)

lemma sg_free_give [simp]: "i < 32 \<Longrightarrow> sg_free (sg_give i p) = insert i (sg_free p)"
  by (auto simp: sg_free_def sg_give_def bit_set_one simp del: push_bit_of_1)

lemma sg_free_take [simp]: "sg_free (sg_take i p) = sg_free p - {i}"
  by (auto simp: sg_free_def sg_take_def bit_clear_one simp del: push_bit_of_1)

lemma sg_inv_list: "sg_inv p \<Longrightarrow> \<exists>w. nu_pdma_sgtbl_token p = [w]"
  unfolding sg_inv_def by (cases "nu_pdma_sgtbl_token p") auto

lemma token_allocate:
  assumes "sg_inv p"
  shows "nu_pdma_sgtbls_token_allocate p =
    (if sg_free p = {} then None else Some (Min (sg_free p), sg_take (Min (sg_free p)) p))"
proof -
  obtain w where w: "nu_pdma_sgtbl_token p = [w]" using sg_inv_list assms by blast
  have f: "sg_free p = {i. i < 32 \<and> bit w i}" by (simp add: sg_free_def w)
  show ?thesis
  proof (cases "w = 0")
    case True
    then show ?thesis by (simp add: nu_pdma_sgtbls_token_allocate_def w f nu_ctz_32)
  next
    case False
    have l: "lowest_set w (nu_ctz w)" "nu_ctz w < 32" using nu_ctz_lowest nu_ctz_lt False by blast+
    then have m: "Min (sg_free p) = nu_ctz w"
      unfolding f lowest_set_def by (intro Min_eqI) (auto simp: not_less [symmetric])
    have "sg_free p \<noteq> {}" using l unfolding f lowest_set_def by auto
    then show ?thesis using False l(2) by (simp add: nu_pdma_sgtbls_token_allocate_def w m nu_ctz_32 sg_take_def Let_def del: push_bit_of_1)
  qed
qed

lemma sgtbl_idx_at: "i < 32 \<Longrightarrow> sgtbl_idx (sgtbl_at p i) p = int i"
proof -
  assume i: "i < 32"
  have "16 * word_of_nat i = (word_of_int (int (16 * i)) :: u32)" by simp
  then have "sint (16 * word_of_nat i :: u32) = signed_take_bit 31 (int (16 * i))"
    by (simp only: sint_sbintrunc') simp
  also have "\<dots> = int (16 * i)" using i by (intro signed_take_bit_int_eq_self) auto
  finally show ?thesis by (simp add: sgtbl_idx_def sgtbl_at_def)
qed

lemma token_free: "sg_inv p \<Longrightarrow> i < 32 \<Longrightarrow> nu_pdma_sgtbls_token_free (sgtbl_at p i) p = Inr (sg_give i p)"
  using sg_inv_list [of p]
  by (auto simp: nu_pdma_sgtbls_token_free_def sgtbl_idx_at sg_give_def simp del: push_bit_of_1)

text \<open>Giving a descriptor back through the driver.\<close>

definition sg_put :: "nat \<Rightarrow> pdma \<Rightarrow> pdma" where
  "sg_put i p = (case nu_pdma_sgtbls_token_free (sgtbl_at p i) p of Inl _ \<Rightarrow> p | Inr p \<Rightarrow> p)"

lemma sg_put_give: "sg_inv p \<Longrightarrow> i < 32 \<Longrightarrow> sg_put i p = sg_give i p"
  by (simp add: sg_put_def token_free)

interpretation sgp: block_pool sg_inv sg_free "\<lambda>_. {..<NU_PDMA_SGTBL_POOL_SIZE}" nu_pdma_sgtbls_token_allocate sg_put
proof (unfold_locales, goal_cases)
  case (2 p)
  then show ?case using Min_in [of "sg_free p"] by (auto simp: token_allocate)
next
  case (3 p i)
  then show ?case by (simp add: sg_put_give)
qed (simp add: token_allocate)

section \<open>Channels\<close>

lemma mod_idx_nat [simp]: "n < 2 ^ 32 \<Longrightarrow> NU_PDMA_GET_MOD_IDX (int n) = n div 16"
  by (simp add: NU_PDMA_GET_MOD_IDX_def unat_of_small)

lemma mod_chidx_nat [simp]: "n < 2 ^ 32 \<Longrightarrow> NU_PDMA_GET_MOD_CHIDX (int n) = n mod 16"
  by (simp add: NU_PDMA_GET_MOD_CHIDX_def unat_of_small)

text \<open>The driver once initialised: two modules, 32 channels, the upper half of each mask taken.\<close>

definition chan_inv :: "pdma \<Rightarrow> bool" where
  "chan_inv p \<longleftrightarrow> nu_pdma_inited p \<and> length (nu_pdma_chn_mask_arr p) = PDMA_CNT
     \<and> length (nu_pdma_chn_arr p) = NU_PDMA_CH_MAX \<and> length (mods p) = PDMA_CNT
     \<and> (\<forall>w\<in>set (nu_pdma_chn_mask_arr p). \<forall>i. 16 \<le> i \<longrightarrow> i < 32 \<longrightarrow> bit w i)"

definition chan_free :: "pdma \<Rightarrow> nat set" where
  "chan_free p = {i. i < NU_PDMA_CH_MAX \<and> \<not> bit (nu_pdma_chn_mask_arr p ! (i div PDMA_CH_MAX)) (i mod PDMA_CH_MAX)}"

lemma word_and_push_one: "(w::u32) AND push_bit n 1 = 0 \<longleftrightarrow> \<not> bit w n"
  using word_nonzero_bit [of "w AND push_bit n 1"] bit_imp_le_length [of w n]
  by (auto simp: bit_and_iff bit_push_one simp del: push_bit_of_1)

lemma check_nonallocated:
  assumes "n < 32"
  shows "nu_pdma_check_is_nonallocated (int n) p = Inr (n \<in> chan_free p)"
  using assms by (simp add: nu_pdma_check_is_nonallocated_def chan_free_def word_and_push_one div_less_iff_less_mult del: push_bit_of_1)

lemma chan_inv_masks:
  assumes "chan_inv p"
  obtains a b where "nu_pdma_chn_mask_arr p = [a, b]" "\<And>i. 16 \<le> i \<Longrightarrow> i < 32 \<Longrightarrow> bit a i" "\<And>i. 16 \<le> i \<Longrightarrow> i < 32 \<Longrightarrow> bit b i"
proof -
  have "length (nu_pdma_chn_mask_arr p) = 2" using assms by (simp add: chan_inv_def)
  then obtain a b where ab: "nu_pdma_chn_mask_arr p = [a, b]" by (auto simp: numeral_2_eq_2 length_Suc_conv)
  show thesis by (rule that [OF ab]) (use assms in \<open>simp_all add: chan_inv_def ab\<close>)
qed

lemma chan_free_masks:
  assumes "nu_pdma_chn_mask_arr p = [a, b]"
  shows "i \<in> chan_free p \<longleftrightarrow> (if i < 16 then \<not> bit a i else i < 32 \<and> \<not> bit b (i - 16))"
proof (cases "i < 16")
  case False
  show ?thesis
  proof (cases "i < 32")
    case True
    obtain k where k: "i = 16 + k" using False le_Suc_ex not_less by blast
    then have "k < 16" using True by simp
    then show ?thesis using k True by (simp add: chan_free_def assms)
  qed (use False in \<open>simp add: chan_free_def\<close>)
qed (simp add: chan_free_def assms)

text \<open>Taking a channel: its mask bit, its record, its descriptor and its enable bit.\<close>

definition chan_take :: "u32 \<times> memctrl \<Rightarrow> nat \<Rightarrow> pdma \<Rightarrow> pdma" where
  "chan_take ctl n p =
     nu_pdma_channel_enable (int n) (nu_pdma_channel_reset (int n)
       (upd_chan (int n) (\<lambda>_. chn_zero\<lparr>m_u32Peripheral := fst ctl, m_eMemCtl := snd ctl\<rparr>)
         (p\<lparr>nu_pdma_chn_mask_arr := (nu_pdma_chn_mask_arr p)[n div 16 :=
              nu_pdma_chn_mask_arr p ! (n div 16) OR push_bit (n mod 16) 1]\<rparr>)))"

lemma upd_chan_twice [simp]: "nat ch < length (nu_pdma_chn_arr p) \<Longrightarrow> upd_chan ch f (upd_chan ch g p) = upd_chan ch (f \<circ> g) p"
  by (simp add: upd_chan_def chan_def)

lemma find_first_cto:
  assumes "nu_pdma_chn_mask_arr p = [a, b]"
  shows "find (\<lambda>j. nu_cto (nu_pdma_chn_mask_arr p ! j) < PDMA_CH_MAX) [0..<PDMA_CNT] =
    (if nu_cto a < 16 then Some 0 else if nu_cto b < 16 then Some 1 else None)"
  by (simp add: assms upt_rec)

lemma channel_allocate:
  assumes i: "chan_inv p" and t: "nu_pdma_peripheral_set typ = Some k"
  shows "nu_pdma_channel_allocate typ p =
    (if chan_free p = {} then Inr (- RT_ERROR, p)
     else Inr (int (Min (chan_free p)), chan_take (g_nu_pdma_peripheral_ctl_pool ! k) (Min (chan_free p)) p))"
proof -
  obtain a b where ab: "nu_pdma_chn_mask_arr p = [a, b]" by (rule chan_inv_masks [OF i])
  note f = chan_free_masks [OF ab]
  have ini: "nu_pdma_init p = p" using i by (simp add: nu_pdma_init_def chan_inv_def)
  have go: "nu_pdma_channel_allocate typ p = Inr (int (c + 16 * j), chan_take (g_nu_pdma_peripheral_ctl_pool ! k) (c + 16 * j) p)"
    if j: "find (\<lambda>j. nu_cto (nu_pdma_chn_mask_arr p ! j) < PDMA_CH_MAX) [0..<PDMA_CNT] = Some j"
      "nu_cto (nu_pdma_chn_mask_arr p ! j) = c" "c < 16" "j < 2" for j c
  proof -
    have l: "nat (int (c + 16 * j)) < length (nu_pdma_chn_arr p)" using i j by (simp add: chan_inv_def)
    have s: "c + 16 * j < 32" using j by simp
    then have s2: "c + 16 * j < 2 ^ 32" by simp
    have d: "(c + 16 * j) div 16 = j" "(c + 16 * j) mod 16 = c" using j(3) by simp_all
    let ?p = "p\<lparr>nu_pdma_chn_mask_arr := (nu_pdma_chn_mask_arr p)[j := nu_pdma_chn_mask_arr p ! j OR push_bit c 1]\<rparr>"
    have "c + 16 * j \<notin> chan_free (upd_chan (int (c + 16 * j)) h ?p)" for h
      unfolding chan_free_def using j(3,4) d
      by (simp add: upd_chan_def ab bit_simps) (cases j, simp_all add: bit_simps)
    then show ?thesis using l s j(3)
      by (simp add: nu_pdma_channel_allocate_def ini t j(1,2) Let_def nu_pdma_periph_ctrl_fill_def mult.commute
        nu_pdma_channel_terminate_def check_nonallocated chan_take_def d comp_def del: of_nat_add of_nat_mult push_bit_of_1)
  qed
  show ?thesis
  proof (cases "nu_cto a < 16")
    case True
    then have c: "\<not> bit a (nu_cto a)" "\<forall>i<nu_cto a. bit a i" using nu_cto_bit [of a] by auto
    then have "Min (chan_free p) = nu_cto a" using True
      by (intro Min_eqI) (auto simp: f ab chan_free_def not_less [symmetric] split: if_splits)
    moreover have "chan_free p \<noteq> {}" using f [of "nu_cto a"] c True by auto
    ultimately show ?thesis using go [of 0 "nu_cto a"] True find_first_cto [OF ab] by (simp add: ab)
  next
    case False
    then have na: "\<And>i. i < 16 \<Longrightarrow> bit a i" using nu_cto_lt_iff [of 16 a] by auto
    show ?thesis
    proof (cases "nu_cto b < 16")
      case True
      then have c: "\<not> bit b (nu_cto b)" "\<forall>i<nu_cto b. bit b i" using nu_cto_bit [of b] by auto
      have "Min (chan_free p) = nu_cto b + 16 * 1"
      proof (intro Min_eqI)
        fix y assume "y \<in> chan_free p"
        then have "16 \<le> y" "\<not> bit b (y - 16)" using f [of y] na [of y] by (auto split: if_splits simp: not_less)
        then show "nu_cto b + 16 * 1 \<le> y" using c(2) by (metis add.commute le_diff_conv2 mult_1_right not_less)
      next
        show "nu_cto b + 16 * 1 \<in> chan_free p" using f [of "nu_cto b + 16"] c(1) True by simp
      qed (simp add: chan_free_def)
      moreover have "chan_free p \<noteq> {}" using f [of "nu_cto b + 16"] c True by auto
      ultimately show ?thesis using go [of 1 "nu_cto b"] False True find_first_cto [OF ab] by (simp add: ab)
    next
      case bf: False
      then have nb: "\<And>i. i < 16 \<Longrightarrow> bit b i" using nu_cto_lt_iff [of 16 b] by auto
      have "chan_free p = {}" using f na nb by (auto split: if_splits)
      then show ?thesis using False bf
        by (simp add: nu_pdma_channel_allocate_def ini t find_first_cto [OF ab])
    qed
  qed
qed

lemma upd_chan_simps [simp]:
  "nu_pdma_inited (upd_chan ch f p) = nu_pdma_inited p" "nu_pdma_chn_mask_arr (upd_chan ch f p) = nu_pdma_chn_mask_arr p"
  "length (nu_pdma_chn_arr (upd_chan ch f p)) = length (nu_pdma_chn_arr p)" "mods (upd_chan ch f p) = mods p"
  "nu_pdma_sgtbl_token (upd_chan ch f p) = nu_pdma_sgtbl_token p" "sg_base (upd_chan ch f p) = sg_base p"
  "dscts (upd_chan ch f p) = dscts p" "hclk (upd_chan ch f p) = hclk p" "calls (upd_chan ch f p) = calls p"
  by (simp_all add: upd_chan_def)

lemma upd_mod_simps [simp]:
  "nu_pdma_inited (upd_mod m g p) = nu_pdma_inited p" "nu_pdma_chn_mask_arr (upd_mod m g p) = nu_pdma_chn_mask_arr p"
  "nu_pdma_chn_arr (upd_mod m g p) = nu_pdma_chn_arr p" "length (mods (upd_mod m g p)) = length (mods p)"
  "nu_pdma_sgtbl_token (upd_mod m g p) = nu_pdma_sgtbl_token p" "sg_base (upd_mod m g p) = sg_base p"
  "dscts (upd_mod m g p) = dscts p" "hclk (upd_mod m g p) = hclk p" "calls (upd_mod m g p) = calls p"
  by (simp_all add: upd_mod_def)

lemma upd_dsct_simps [simp]:
  "nu_pdma_inited (upd_dsct a h p) = nu_pdma_inited p" "nu_pdma_chn_mask_arr (upd_dsct a h p) = nu_pdma_chn_mask_arr p"
  "nu_pdma_chn_arr (upd_dsct a h p) = nu_pdma_chn_arr p" "mods (upd_dsct a h p) = mods p"
  "nu_pdma_sgtbl_token (upd_dsct a h p) = nu_pdma_sgtbl_token p" "sg_base (upd_dsct a h p) = sg_base p"
  "dscts (upd_dsct a h p) = (dscts p)(a := h (dscts p a))" "hclk (upd_dsct a h p) = hclk p" "calls (upd_dsct a h p) = calls p"
  by (simp_all add: upd_dsct_def)

lemma chan_upd [simp]:
  "chan (upd_mod m g p) ch = chan p ch" "chan (upd_dsct a h p) ch = chan p ch"
  "nat ch < length (nu_pdma_chn_arr p) \<Longrightarrow> chan (upd_chan ch f p) ch = f (chan p ch)"
  "nat ch \<noteq> nat ch' \<Longrightarrow> chan (upd_chan ch f p) ch' = chan p ch'"
  by (simp_all add: chan_def upd_chan_def)

lemma chan_take_simps:
  "nu_pdma_chn_mask_arr (chan_take ctl n p) = (nu_pdma_chn_mask_arr p)[n div 16 :=
     nu_pdma_chn_mask_arr p ! (n div 16) OR push_bit (n mod 16) 1]"
  "nu_pdma_inited (chan_take ctl n p) = nu_pdma_inited p" "length (mods (chan_take ctl n p)) = length (mods p)"
  "length (nu_pdma_chn_arr (chan_take ctl n p)) = length (nu_pdma_chn_arr p)"
  by (simp_all add: chan_take_def nu_pdma_channel_enable_def nu_pdma_channel_reset_def del: push_bit_of_1)

text \<open>Giving a channel back.\<close>

definition chan_put :: "nat \<Rightarrow> pdma \<Rightarrow> pdma" where
  "chan_put n p = (case nu_pdma_channel_free (int n) p of Inl _ \<Rightarrow> p | Inr (_, p) \<Rightarrow> p)"

definition chan_get :: "u32 \<Rightarrow> pdma \<Rightarrow> (nat \<times> pdma) option" where
  "chan_get typ p = (case nu_pdma_channel_allocate typ p of
     Inl _ \<Rightarrow> None | Inr (ch, p) \<Rightarrow> if ch < 0 then None else Some (nat ch, p))"

lemma channel_free:
  assumes "chan_inv p" "n < 32" "n \<notin> chan_free p"
  shows "nu_pdma_channel_free (int n) p = Inr (RT_EOK, nu_pdma_channel_disable (int n)
    (p\<lparr>nu_pdma_chn_mask_arr := (nu_pdma_chn_mask_arr p)[n div 16 :=
       nu_pdma_chn_mask_arr p ! (n div 16) AND NOT (push_bit (n mod 16) 1)]\<rparr>))"
  using assms by (simp add: nu_pdma_channel_free_def check_nonallocated chan_inv_def Let_def del: push_bit_of_1)

lemma div16_mod16: "(i div 16 = n div 16 \<and> i mod 16 = n mod 16) = (i = n)" for i n :: nat
  by (metis div_mult_mod_eq)

lemma mask_set:
  assumes "chan_inv p" "n < 32" and q: "nu_pdma_chn_mask_arr q = (nu_pdma_chn_mask_arr p)[n div 16 := w]"
    and w: "\<And>k. k < 32 \<Longrightarrow> bit w k = (if k = n mod 16 then b else bit (nu_pdma_chn_mask_arr p ! (n div 16)) k)"
    and l: "nu_pdma_inited q" "length (mods q) = 2" "length (nu_pdma_chn_arr q) = 32"
  shows "chan_inv q \<and> chan_free q = (if b then chan_free p - {n} else insert n (chan_free p))"
proof (intro conjI)
  obtain a c where ab: "nu_pdma_chn_mask_arr p = [a, c]" and
    h: "\<And>i. 16 \<le> i \<Longrightarrow> i < 32 \<Longrightarrow> bit a i" "\<And>i. 16 \<le> i \<Longrightarrow> i < 32 \<Longrightarrow> bit c i"
    by (rule chan_inv_masks [OF assms(1)]) blast
  have d: "n div 16 = 0 \<or> n div 16 = 1" using assms(2) by linarith
  have m: "n mod 16 < 16" by simp
  have top: "bit w i" if "16 \<le> i" "i < 32" for i
    using w [OF that(2)] h that d m by (auto simp: ab)
  show "chan_inv q" unfolding chan_inv_def using l q d top h by (auto simp: ab)
  show "chan_free q = (if b then chan_free p - {n} else insert n (chan_free p))"
  proof (rule set_eqI)
    fix i
    have "i \<in> chan_free q \<longleftrightarrow> i < 32 \<and> (if i = n then \<not> b else i \<in> chan_free p)"
    proof (cases "i < 32")
      case True
      then have e: "i div 16 < 2" by linarith
      show ?thesis
      proof (cases "i div 16 = n div 16")
        case same: True
        have "bit (nu_pdma_chn_mask_arr q ! (i div 16)) (i mod 16) = bit w (i mod 16)"
          using same d by (auto simp: q ab)
        then show ?thesis using w [of "i mod 16"] True same div16_mod16 [of i n] by (auto simp: chan_free_def)
      next
        case False
        then have "nu_pdma_chn_mask_arr q ! (i div 16) = nu_pdma_chn_mask_arr p ! (i div 16)" by (simp add: q)
        then show ?thesis using False True by (auto simp: chan_free_def)
      qed
    qed (simp add: chan_free_def)
    moreover have "i \<in> chan_free p \<longrightarrow> i < 32" by (simp add: chan_free_def)
    ultimately show "i \<in> chan_free q \<longleftrightarrow> i \<in> (if b then chan_free p - {n} else insert n (chan_free p))"
      using assms(2) by auto
  qed
qed

lemma chan_take_ok:
  assumes "chan_inv p" "n < 32"
  shows "chan_inv (chan_take ctl n p) \<and> chan_free (chan_take ctl n p) = chan_free p - {n}"
proof -
  have m: "n mod 16 < 32" by (rule order.strict_trans [of _ 16]) simp_all
  have "chan_inv (chan_take ctl n p) \<and> chan_free (chan_take ctl n p) = (if True then chan_free p - {n} else insert n (chan_free p))"
    by (rule mask_set [OF assms chan_take_simps(1)])
      (use assms(1) in \<open>simp_all add: bit_set_one m chan_inv_def chan_take_simps del: push_bit_of_1\<close>)
  then show ?thesis by simp
qed

lemma chan_put_ok:
  assumes "chan_inv p" "n < 32" "n \<notin> chan_free p"
  shows "chan_inv (chan_put n p) \<and> chan_free (chan_put n p) = insert n (chan_free p)"
proof -
  have e: "chan_put n p = nu_pdma_channel_disable (int n) (p\<lparr>nu_pdma_chn_mask_arr := (nu_pdma_chn_mask_arr p)[n div 16 :=
       nu_pdma_chn_mask_arr p ! (n div 16) AND NOT (push_bit (n mod 16) 1)]\<rparr>)"
    by (simp add: chan_put_def channel_free [OF assms])
  have q: "nu_pdma_chn_mask_arr (chan_put n p) = (nu_pdma_chn_mask_arr p)[n div 16 :=
       nu_pdma_chn_mask_arr p ! (n div 16) AND NOT (push_bit (n mod 16) 1)]"
    by (simp add: e nu_pdma_channel_disable_def del: push_bit_of_1)
  have "chan_inv (chan_put n p) \<and> chan_free (chan_put n p) = (if False then chan_free p - {n} else insert n (chan_free p))"
    by (rule mask_set [OF assms(1,2) q])
      (use assms(1) in \<open>simp_all add: bit_clear_one e nu_pdma_channel_disable_def chan_inv_def del: push_bit_of_1\<close>)
  then show ?thesis by simp
qed

interpretation chp: block_pool chan_inv chan_free "\<lambda>_. {..<NU_PDMA_CH_MAX}" "chan_get 0" chan_put
proof -
  have t: "nu_pdma_peripheral_set 0 = Some 0" by (simp add: nu_pdma_peripheral_set_def g_nu_pdma_peripheral_ctl_pool_def upt_rec)
  note al = channel_allocate [OF _ t]
  show "block_pool chan_inv chan_free (\<lambda>_. {..<NU_PDMA_CH_MAX}) (chan_get 0) chan_put"
  proof (unfold_locales, goal_cases)
    case (2 p)
    have "finite (chan_free p)" by (simp add: chan_free_def)
    then have "Min (chan_free p) \<in> chan_free p" using 2(2) by (rule Min_in)
    moreover from this have "Min (chan_free p) < 32" by (simp add: chan_free_def)
    ultimately show ?case using 2 chan_take_ok [OF 2(1)] by (simp add: chan_get_def al)
  next
    case (3 p n)
    then show ?case using chan_put_ok [of p n] by simp
  qed (simp add: chan_get_def al)
qed

end
