(* ===== verification/PdmaMoves.thy ===== *)
theory PdmaMoves
  imports PdmaXfer PdmaPool
begin

text \<open>
  What a transfer of the PDMA driver makes the controller do: the descriptors, however many a transfer
  needs, move exactly the items asked for.
\<close>

section \<open>One descriptor\<close>

lemma bit_lt_16: "(x::u32) < 0x10000 \<Longrightarrow> bit x n \<Longrightarrow> n < 16"
proof -
  assume x: "x < 0x10000" "bit x n"
  then have "take_bit 16 (unat x) = unat x" by (simp add: take_bit_nat_eq_self_iff word_less_nat_alt)
  moreover have "bit (unat x) n" using x(2) bit_imp_le_length [OF x(2)] by (simp add: bit_unsigned_iff)
  ultimately show "n < 16" by (metis bit_take_bit_iff)
qed

lemma drop16_join: "x < 0x10000 \<Longrightarrow> lo < 0x10000 \<Longrightarrow> drop_bit 16 (push_bit 16 x OR lo :: u32) = x"
  by (rule word_bit_eqI32) (auto simp: bit_simps dest: bit_lt_16)

lemma low16_join: "m < 0x10000 \<Longrightarrow> (push_bit 16 x OR lo :: u32) AND m = lo AND m"
  by (rule word_bit_eqI32) (auto simp: bit_and_iff bit_or_iff bit_push_bit_iff dest!: bit_lt_16)

lemma push16_mode: "push_bit 16 (x::u32) AND - 4 = push_bit 16 x"
proof -
  have m: "(- 4 :: u32) = NOT (mask 2)" by (simp add: mask_eq_exp_minus_1)
  show ?thesis unfolding m by (rule word_bit_eqI32) (auto simp: bit_simps)
qed

text \<open>The low half of the control word \<^verbatim>\<open>nu_pdma_desc_setup\<close> writes.\<close>

definition ctl_low :: "pdma_chn \<Rightarrow> u32 \<Rightarrow> bool \<Rightarrow> bool \<Rightarrow> u32" where
  "ctl_low c width linked silent =
     (let (s, d) = nu_pdma_channel_memctrl_fill (m_eMemCtl c) (0, 0)
      in (if width = 8 then 0 else if width = 16 then 0x1000 else 0x2000) OR s OR d
         OR (if m_u32Peripheral c = 0 then 0x20 else 4) OR (if linked then 2 else 1) OR (if silent then 0x80 else 0))"

definition inc_src :: "memctrl \<Rightarrow> bool" where
  "inc_src ctl \<longleftrightarrow> odd (memctrl_code ctl div 2)"

definition inc_dst :: "memctrl \<Rightarrow> bool" where
  "inc_dst ctl \<longleftrightarrow> odd (memctrl_code ctl)"

lemma ctl_low_facts:
  assumes "width = 8 \<or> width = 16 \<or> width = 32"
  shows "ctl_low c width linked silent < 0x10000"
    "ctl_low c width linked silent AND 3 = (if linked then 2 else 1)"
    "ctl_low c width linked silent AND 0x3000 = (if width = 8 then 0 else if width = 16 then 0x1000 else 0x2000)"
    "ctl_low c width linked silent AND 0x300 = (if inc_src (m_eMemCtl c) then 0 else 0x300)"
    "ctl_low c width linked silent AND 0xC00 = (if inc_dst (m_eMemCtl c) then 0 else 0xC00)"
    "ctl_low c width linked silent AND 0x80 = (if silent then 0x80 else 0)"
  using assms by (cases "m_eMemCtl c"; cases "m_u32Peripheral c = 0"; cases linked; cases silent;
    auto simp: ctl_low_def inc_src_def inc_dst_def)+

lemma desc_of_CTL:
  "width = 8 \<or> width = 16 \<or> width = 32 \<Longrightarrow>
   CTL (desc_of c scatba width src dst cnt nxt silent) = push_bit 16 (cnt - 1) OR ctl_low c width (nxt \<noteq> 0) silent"
  by (cases "m_eMemCtl c"; cases "m_u32Peripheral c = 0"; cases "nxt = 0"; cases silent;
    auto simp: desc_of_def ctl_low_def bit.conj_disj_distrib2 push16_mode or.assoc)

lemma desc_of_fields [simp]:
  "SA (desc_of c scatba width src dst cnt nxt silent) = src"
  "DA (desc_of c scatba width src dst cnt nxt silent) = dst"
  "NEXT (desc_of c scatba width src dst cnt nxt silent) = (if nxt = 0 then 0 else nxt - scatba)"
  by (auto simp: desc_of_def Let_def split: prod.split)

text \<open>The items a transfer is meant to move.\<close>

definition want_item :: "memctrl \<Rightarrow> u32 \<Rightarrow> u32 \<Rightarrow> u32 \<Rightarrow> nat \<Rightarrow> item" where
  "want_item ctl width src dst k =
     (if inc_src ctl then src + word_of_nat k * (width div 8) else src,
      if inc_dst ctl then dst + word_of_nat k * (width div 8) else dst,
      width div 8)"

lemma desc_of_moves:
  assumes w: "width = 8 \<or> width = 16 \<or> width = 32" and c: "0 < cnt" "cnt \<le> 0x10000"
  shows "dsct_moves (desc_of c scatba width src dst cnt nxt silent) =
      map (want_item (m_eMemCtl c) width src dst) [0..<unat cnt]"
    "CTL (desc_of c scatba width src dst cnt nxt silent) AND 3 = (if nxt = 0 then 1 else 2)"
proof -
  let ?d = "desc_of c scatba width src dst cnt nxt silent"
  note l = ctl_low_facts [OF w, of c "nxt \<noteq> 0" silent]
  have n: "cnt - 1 < 0x10000" "unat (cnt - 1) + 1 = unat cnt"
  proof -
    have "unat (cnt - 1) = unat cnt - 1" using c(1) by (intro unat_minus_one) auto
    moreover have "0 < unat cnt" "unat cnt \<le> 65536" using c by (simp_all add: word_less_nat_alt word_le_nat_alt)
    ultimately show "cnt - 1 < 0x10000" "unat (cnt - 1) + 1 = unat cnt" by (simp_all add: word_less_nat_alt)
  qed
  have cn: "dsct_count ?d = unat cnt"
    unfolding dsct_count_def desc_of_CTL [OF w] drop16_join [OF n(1) l(1)] by (rule n(2))
  have b: "dsct_bytes ?d = width div 8"
    using w unfolding dsct_bytes_def desc_of_CTL [OF w] by (auto simp: low16_join l)
  have m: "CTL ?d AND 0x300 = 0x300 \<longleftrightarrow> \<not> inc_src (m_eMemCtl c)" "CTL ?d AND 0xC00 = 0xC00 \<longleftrightarrow> \<not> inc_dst (m_eMemCtl c)"
    unfolding desc_of_CTL [OF w] by (simp_all add: low16_join l)
  show "dsct_moves ?d = map (want_item (m_eMemCtl c) width src dst) [0..<unat cnt]"
    unfolding dsct_moves_def cn by (simp add: dsct_item_def b m want_item_def)
  show "CTL ?d AND 3 = (if nxt = 0 then 1 else 2)"
    unfolding desc_of_CTL [OF w] by (simp add: low16_join l)
qed

lemma desc_of_zero: "desc_of c scatba width src dst 0 nxt silent = desc_of c scatba width src dst 0x10000 nxt silent"
proof -
  have e: "push_bit 16 (0 - 1 :: u32) = push_bit 16 (0x10000 - 1)" by (simp add: mask_eq_exp_minus_1 word_unat_eq_iff)
  show ?thesis unfolding desc_of_def e ..
qed

lemma want_item_shift:
  "want_item ctl width (if inc_src ctl then src + word_of_nat k0 * (width div 8) else src)
     (if inc_dst ctl then dst + word_of_nat k0 * (width div 8) else dst) k = want_item ctl width src dst (k0 + k)"
  by (simp add: want_item_def ring_distribs add_ac)

lemma map_want_shift:
  "map (want_item ctl width (if inc_src ctl then src + word_of_nat k0 * (width div 8) else src)
     (if inc_dst ctl then dst + word_of_nat k0 * (width div 8) else dst)) [0..<n] = map (want_item ctl width src dst) [k0..<k0 + n]"
  by (rule nth_equalityI) (simp_all add: want_item_shift)

section \<open>Addresses\<close>

text \<open>The driver once initialised, with its descriptor array in static memory and inside one page
  of 64 KiB: the controller keeps only bits 16 to 31 of the table base.\<close>

definition sg_placed :: "pdma \<Rightarrow> bool" where
  "sg_placed p \<longleftrightarrow> 0x20000000 \<le> unat (sg_base p) \<and> unat (sg_base p) + 512 \<le> 0x40000000
     \<and> unat (sg_base p) mod 65536 + 512 \<le> 65536 \<and> 256 \<le> hclk p \<and> hclk p \<le> 200000000"

definition pdma_ok :: "pdma \<Rightarrow> bool" where
  "pdma_ok p \<longleftrightarrow> chan_inv p \<and> sg_inv p \<and> sg_placed p
     \<and> (\<forall>r\<in>set (mods p). SCATBA r = sg_base p AND 0xFFFF0000)"

lemma split16: "(x::u32) = (x AND 0xFFFF0000) + (x AND 0xFFFF)"
proof -
  have m: "(0xFFFF0000 :: u32) = NOT (mask 16)" "(0xFFFF :: u32) = mask 16"
    by (simp_all add: mask_eq_exp_minus_1 word_unat_eq_iff)
  have "(x AND NOT (mask 16)) + (x AND mask 16) = (x AND NOT (mask 16)) OR (x AND mask 16)"
    by (rule disjunctive_add) (auto simp: bit_simps)
  also have "\<dots> = x" by (rule word_bit_eqI32) (auto simp: bit_simps)
  finally show ?thesis unfolding m by simp
qed

lemma unat_low16: "unat ((x::u32) AND 0xFFFF) = unat x mod 65536"
proof -
  have m: "(0xFFFF :: u32) = mask 16" by (simp add: mask_eq_exp_minus_1)
  show ?thesis unfolding m take_bit_eq_mask [symmetric] by (simp add: unsigned_take_bit_eq take_bit_nat_def)
qed

lemma low16_id: "unat (x::u32) < 65536 \<Longrightarrow> x AND 0xFFFF = x"
  using unat_low16 [of x] by (simp add: unsigned_word_eqI)

lemma sgtbl_unat:
  assumes "sg_placed p" "i < 32"
  shows "unat (sgtbl_at p i) = unat (sg_base p) + 16 * i"
proof -
  have e: "sgtbl_at p i = word_of_nat (unat (sg_base p) + 16 * i)" by (simp add: sgtbl_at_def)
  show ?thesis unfolding e by (rule unat_of_small) (use assms in \<open>simp add: sg_placed_def\<close>)
qed

lemma sgtbl_offset:
  assumes "sg_placed p" "i < 32"
  shows "sgtbl_at p i - (sg_base p AND 0xFFFF0000) = word_of_nat (unat (sg_base p) mod 65536 + 16 * i)"
    "(sg_base p AND 0xFFFF0000) + ((sgtbl_at p i - (sg_base p AND 0xFFFF0000)) AND 0xFFFF) = sgtbl_at p i"
    "0 < i \<Longrightarrow> sgtbl_at p i - (sg_base p AND 0xFFFF0000) \<noteq> 0"
proof -
  have l: "sg_base p AND 0xFFFF = word_of_nat (unat (sg_base p) mod 65536)"
    by (simp add: word_unat_eq_iff unat_low16 unat_of_small)
  have "sgtbl_at p i = (sg_base p AND 0xFFFF0000) + (sg_base p AND 0xFFFF) + 16 * word_of_nat i"
    unfolding sgtbl_at_def by (subst split16 [of "sg_base p"]) (rule refl)
  then show o: "sgtbl_at p i - (sg_base p AND 0xFFFF0000) = word_of_nat (unat (sg_base p) mod 65536 + 16 * i)"
    unfolding l by simp
  have u: "unat (word_of_nat (unat (sg_base p) mod 65536 + 16 * i) :: u32) = unat (sg_base p) mod 65536 + 16 * i"
    by (rule unat_of_small) (use assms in \<open>simp add: sg_placed_def\<close>)
  have "unat (word_of_nat (unat (sg_base p) mod 65536 + 16 * i) :: u32) < 65536"
    unfolding u using assms by (simp add: sg_placed_def)
  from low16_id [OF this] show "(sg_base p AND 0xFFFF0000) + ((sgtbl_at p i - (sg_base p AND 0xFFFF0000)) AND 0xFFFF) = sgtbl_at p i"
    unfolding o [symmetric] by simp
  show "0 < i \<Longrightarrow> sgtbl_at p i - (sg_base p AND 0xFFFF0000) \<noteq> 0"
    unfolding o using u by (metis add_eq_0_iff_both_eq_0 mult_eq_0_iff not_gr_zero unsigned_0 zero_neq_numeral)
qed

lemma sgtbl_not_null: "sg_placed p \<Longrightarrow> i < 32 \<Longrightarrow> sgtbl_at p i \<noteq> 0"
  using sgtbl_unat [of p i] by (auto simp: sg_placed_def)

lemma sgtbl_inj: "sg_placed p \<Longrightarrow> i < 32 \<Longrightarrow> j < 32 \<Longrightarrow> sgtbl_at p i = sgtbl_at p j \<longleftrightarrow> i = j"
  using sgtbl_unat [of p i] sgtbl_unat [of p j] by (simp add: word_unat_eq_iff)

lemma dsct_reg_unat: "n < 32 \<Longrightarrow> unat (dsct_reg (int n)) = 0x40008000 + n div 16 * 0x10000 + 16 * (n mod 16)"
proof -
  assume n: "n < 32"
  have e: "dsct_reg (int n) = word_of_nat (0x40008000 + n div 16 * 0x10000 + 16 * (n mod 16))"
    using n by (simp add: dsct_reg_def)
  have "n div 16 < 2" "n mod 16 < 16" using n by auto
  then show ?thesis unfolding e by (intro unat_of_small) simp
qed

lemma dsct_reg_sgtbl: "sg_placed p \<Longrightarrow> i < 32 \<Longrightarrow> n < 32 \<Longrightarrow> dsct_reg (int n) \<noteq> sgtbl_at p i"
  using sgtbl_unat [of p i] dsct_reg_unat [of n] by (auto simp: sg_placed_def)

lemma dsct_reg_not_null: "n < 32 \<Longrightarrow> dsct_reg (int n) \<noteq> 0"
  using dsct_reg_unat [of n] by auto

section \<open>Taking descriptors\<close>

lemma fold_sg_take [simp]:
  "sg_inv p \<Longrightarrow> sg_inv (fold sg_take idxs p)" "sg_free (fold sg_take idxs p) = sg_free p - set idxs"
  "chan (fold sg_take idxs p) ch = chan p ch" "mods (fold sg_take idxs p) = mods p" "dscts (fold sg_take idxs p) = dscts p"
  "sg_base (fold sg_take idxs p) = sg_base p" "hclk (fold sg_take idxs p) = hclk p"
  "nu_pdma_chn_arr (fold sg_take idxs p) = nu_pdma_chn_arr p" "nu_pdma_chn_mask_arr (fold sg_take idxs p) = nu_pdma_chn_mask_arr p"
  "nu_pdma_inited (fold sg_take idxs p) = nu_pdma_inited p"
proof (induction idxs arbitrary: p)
  case (Cons i idxs)
  {
    case 1 then show ?case using Cons(1) [of "sg_take i p"] by simp
  next
    case 2 then show ?case using Cons(2) [of "sg_take i p"] by auto
  next
    case 3 then show ?case using Cons(3) [of "sg_take i p"] by (simp add: sg_take_def chan_def)
  next
    case 4 then show ?case using Cons(4) [of "sg_take i p"] by (simp add: sg_take_def)
  next
    case 5 then show ?case using Cons(5) [of "sg_take i p"] by (simp add: sg_take_def)
  next
    case 6 then show ?case using Cons(6) [of "sg_take i p"] by (simp add: sg_take_def)
  next
    case 7 then show ?case using Cons(7) [of "sg_take i p"] by (simp add: sg_take_def)
  next
    case 8 then show ?case using Cons(8) [of "sg_take i p"] by (simp add: sg_take_def)
  next
    case 9 then show ?case using Cons(9) [of "sg_take i p"] by (simp add: sg_take_def)
  next
    case 10 then show ?case using Cons(10) [of "sg_take i p"] by (simp add: sg_take_def)
  }
qed simp_all

lemma sgtbl_at_take [simp]: "sgtbl_at (sg_take i p) = sgtbl_at p"
  by (simp add: sgtbl_at_def sg_take_def fun_eq_iff)

text \<open>With enough free descriptors the allocation hands out that many, in ascending order.\<close>

lemma alloc_loop_ok:
  assumes "sg_inv p" "n \<le> card (sg_free p)" "i + n \<le> length arr"
  shows "\<exists>idxs. sgtbls_alloc_loop i n arr p =
      Inr (RT_EOK, take i arr @ map (sgtbl_at p) idxs @ drop (i + n) arr, fold sg_take idxs p)
    \<and> length idxs = n \<and> sorted_wrt (<) idxs \<and> set idxs \<subseteq> sg_free p"
  using assms
proof (induction n arbitrary: i arr p)
  case (Suc n)
  let ?k = "Min (sg_free p)"
  have ne: "sg_free p \<noteq> {}" using Suc(3) by auto
  have k: "?k \<in> sg_free p" using ne by simp
  have c: "n \<le> card (sg_free (sg_take ?k p))" using Suc(3) k by simp
  obtain idxs where x: "sgtbls_alloc_loop (i + 1) n (arr[i := sgtbl_at p ?k]) (sg_take ?k p) =
      Inr (RT_EOK, take (i + 1) (arr[i := sgtbl_at p ?k]) @ map (sgtbl_at p) idxs @ drop (i + 1 + n) (arr[i := sgtbl_at p ?k]),
        fold sg_take idxs (sg_take ?k p))" "length idxs = n" "sorted_wrt (<) idxs" "set idxs \<subseteq> sg_free p - {?k}"
    using Suc(1) [OF _ c, of "i + 1" "arr[i := sgtbl_at p ?k]"] Suc(2,4) by auto
  have s: "\<forall>j\<in>set idxs. ?k < j" using x(4) Min_le [of "sg_free p"] by (auto simp: le_less subset_iff)
  have t: "take (i + 1) (arr[i := sgtbl_at p ?k]) = take i arr @ [sgtbl_at p ?k]"
    using Suc(4) by (simp add: take_Suc_conv_app_nth)
  have "sgtbls_alloc_loop i (Suc n) arr p =
      Inr (RT_EOK, take i arr @ map (sgtbl_at p) (?k # idxs) @ drop (i + Suc n) arr, fold sg_take (?k # idxs) p)"
    using x(1) t Suc(2,4) ne by (simp add: token_allocate)
  then show ?case using x(2,3,4) s k by (intro exI [of _ "?k # idxs"]) auto
qed (intro exI [of _ "[]"], simp)

section \<open>Setting up a chain\<close>

lemma word_mod_add:
  fixes x y :: u32
  assumes "d = 1 \<or> d = 2 \<or> d = 4"
  shows "(x + y * d) mod d = x mod d"
proof -
  have h: "(a + b * k mod 4294967296) mod 4294967296 mod k = a mod k" if "k dvd 4294967296" for a b k :: nat
  proof -
    have "(a + b * k mod 4294967296) mod k = (a mod k + b * k mod 4294967296 mod k) mod k" by (simp add: mod_add_eq)
    then show ?thesis by (simp add: mod_mod_cancel [OF that])
  qed
  have "unat (x + y * d) mod unat d = unat x mod unat d"
    using assms h [of 2 "unat x" "unat y"] h [of 4 "unat x" "unat y"] by (auto simp: unat_word_ariths)
  then show ?thesis by (simp add: word_unat_eq_iff unat_mod)
qed

lemma desc_setup_ok:
  assumes "m < 32" "m \<notin> chan_free p" "a \<noteq> 0" "width = 8 \<or> width = 16 \<or> width = 32"
    and "src mod (width div 8) = 0" "dst mod (width div 8) = 0" "cnt \<le> 0x10000"
  shows "nu_pdma_desc_setup (int m) a width src dst cnt nxt silent p =
    Inr (RT_EOK, upd_dsct a (\<lambda>_. desc_of (chan p (int m)) (SCATBA (mods p ! (m div 16))) width src dst cnt nxt silent) p)"
proof -
  have w: "\<not> \<not> (width = 8 \<or> width = 16 \<or> width = 32)" using assms(4) by simp
  show ?thesis unfolding nu_pdma_desc_setup_def check_nonallocated [OF assms(1)] bind_res_simps if_not_P [OF w]
    using assms(1,2,3,5-7) by simp
qed


lemma desc_want:
  assumes "width = 8 \<or> width = 16 \<or> width = 32" "cnt \<le> 0x10000"
  shows "dsct_moves (desc_of c scatba width (if inc_src (m_eMemCtl c) then src + word_of_nat k0 * (width div 8) else src)
      (if inc_dst (m_eMemCtl c) then dst + word_of_nat k0 * (width div 8) else dst) cnt nxt silent) =
      map (want_item (m_eMemCtl c) width src dst) [k0..<k0 + (if cnt = 0 then 65536 else unat cnt)]"
    "CTL (desc_of c scatba width src' dst' cnt nxt silent) AND 3 = (if nxt = 0 then 1 else 2)"
proof -
  have z: "unat (0x10000 :: u32) = 65536" by simp
  show "dsct_moves (desc_of c scatba width (if inc_src (m_eMemCtl c) then src + word_of_nat k0 * (width div 8) else src)
      (if inc_dst (m_eMemCtl c) then dst + word_of_nat k0 * (width div 8) else dst) cnt nxt silent) =
      map (want_item (m_eMemCtl c) width src dst) [k0..<k0 + (if cnt = 0 then 65536 else unat cnt)]"
  proof (cases "cnt = 0")
    case True
    show ?thesis unfolding True desc_of_zero by (subst desc_of_moves(1) [OF assms(1)]) (simp_all add: map_want_shift)
  next
    case False
    then have "0 < cnt" by (simp add: word_greater_zero_iff)
    from desc_of_moves(1) [OF assms(1) this assms(2)] show ?thesis using False by (simp add: map_want_shift)
  qed
  show "CTL (desc_of c scatba width src' dst' cnt nxt silent) AND 3 = (if nxt = 0 then 1 else 2)"
  proof (cases "cnt = 0")
    case True
    show ?thesis unfolding True desc_of_zero by (rule desc_of_moves(2) [OF assms(1)]) simp_all
  next
    case False
    then have "0 < cnt" by (simp add: word_greater_zero_iff)
    from desc_of_moves(2) [OF assms(1) this assms(2)] show ?thesis .
  qed
qed

lemma aligned_shift:
  fixes width a :: u32
  assumes "width = 8 \<or> width = 16 \<or> width = 32" "a mod (width div 8) = 0" "off = word_of_nat k * (width div 8)"
  shows "(if b then a + off else a) mod (width div 8) = 0"
proof -
  have d: "width div 8 = 1 \<or> width div 8 = 2 \<or> width div 8 = 4" using assms(1) by auto
  show ?thesis unfolding assms(3) by (cases b) (simp_all only: word_mod_add [OF d] assms(2) if_True if_False)
qed

lemma chan_free_dsct [simp]: "chan_free (upd_dsct a f p) = chan_free p"
  by (simp add: chan_free_def)

text \<open>The loop of the chain, over the descriptors \<open>sg\<close> from the \<open>i\<close>-th: with \<open>k0\<close> items done
  and \<open>n\<close> full descriptors and one of \<open>r\<close> items to go, the descriptors it writes move the items from
  \<open>k0\<close>; a last descriptor of no items moves 65536.\<close>

lemma chain_setup_ok:
  assumes "m < 32" "width = 8 \<or> width = 16 \<or> width = 32"
    and "src mod (width div 8) = 0" "dst mod (width div 8) = 0" "distinct sg" "0 \<notin> set sg"
    and nx: "\<And>j. j < length sg \<Longrightarrow> scatba + ((sg ! j - scatba) AND 0xFFFF) = sg ! j"
    and "m \<notin> chan_free p" "SCATBA (mods p ! (m div 16)) = scatba" "m_eMemCtl (chan p (int m)) = ctl"
    and "length sg = i + Suc n" "unat cnt = n * 65536 + r" "r < 65536" "off = word_of_nat k0 * (width div 8)"
  shows "\<exists>q. chain_setup (int m) width src dst ctl (Some sg) i (Suc n) cnt off p = Inr (RT_EOK, q)
    \<and> q = p\<lparr>dscts := dscts q\<rparr> \<and> (\<forall>a. a \<notin> set (drop i sg) \<longrightarrow> dscts q a = dscts p a)
    \<and> (0 < n \<longrightarrow> NEXT (dscts q (sg ! i)) = sg ! (i + 1) - scatba)
    \<and> (\<forall>mem k. (\<forall>a\<in>set (drop i sg). mem a = dscts q a) \<longrightarrow>
        run_tables (Suc n + k) scatba mem (sg ! i) =
        map (want_item ctl width src dst) [k0..<k0 + n * 65536 + (if r = 0 then 65536 else r)])"
  using assms(8-)
proof (induction n arbitrary: i cnt off p k0)
  case 0
  have d: "drop i sg = [sg ! i]" using 0(4) by (simp add: Cons_nth_drop_Suc [symmetric])
  have nz: "sg ! i \<noteq> 0" using assms(6) 0(4) by (metis lessI nth_mem add_Suc_right add_0_right)
  have c: "\<not> 0x10000 < cnt" "cnt \<le> 0x10000" "cnt = 0 \<longleftrightarrow> r = 0" using 0(5,6) by (auto simp: word_less_nat_alt word_le_nat_alt unat_eq_0)
  let ?D = "desc_of (chan p (int m)) scatba width (if inc_src ctl then src + off else src) (if inc_dst ctl then dst + off else dst) cnt 0 False"
  have al: "(if inc_src ctl then src + off else src) mod (width div 8) = 0" "(if inc_dst ctl then dst + off else dst) mod (width div 8) = 0"
    by (rule aligned_shift [OF assms(2,3) 0(7)], rule aligned_shift [OF assms(2,4) 0(7)])
  have e: "chain_setup (int m) width src dst ctl (Some sg) i (Suc 0) cnt off p = Inr (RT_EOK, upd_dsct (sg ! i) (\<lambda>_. ?D) p)"
    using 0(4) c(1) desc_setup_ok [OF assms(1) 0(1) nz assms(2) al c(2)]
    by (simp add: inc_src_def inc_dst_def 0(2) Let_def)
  note w = desc_want [OF assms(2) c(2), of "chan p (int m)" scatba]
  have m: "dsct_moves ?D = map (want_item ctl width src dst) [k0..<k0 + (if r = 0 then 65536 else r)]"
  proof -
    have "(if cnt = 0 then 65536 else unat cnt) = (if r = 0 then 65536 else r)" using 0(5) c(3) by simp
    then show ?thesis using w(1) [of src k0 dst 0 False] unfolding 0(3) 0(7) by simp
  qed
  let ?q = "upd_dsct (sg ! i) (\<lambda>_. ?D) p"
  have q: "dscts ?q (sg ! i) = ?D" "?q = p\<lparr>dscts := dscts ?q\<rparr>" by (simp_all add: upd_dsct_def)
  have r: "run_tables (Suc 0 + k) scatba mem (sg ! i) = map (want_item ctl width src dst) [k0..<k0 + 0 * 65536 + (if r = 0 then 65536 else r)]"
    if "\<forall>a\<in>set (drop i sg). mem a = dscts ?q a" for mem k
    using that w(2) m unfolding d by (simp add: q(1) Let_def)
  have f: "dscts ?q a = dscts p a" if "a \<notin> set (drop i sg)" for a using that by (simp add: d)
  have "\<forall>a. a \<notin> set (drop i sg) \<longrightarrow> dscts ?q a = dscts p a" using f by blast
  then show ?case unfolding e by (intro exI [of _ ?q] conjI refl q(2) allI impI r) simp_all
next
  case (Suc n)
  have il: "i < length sg" "Suc i < length sg" using Suc(5) by simp_all
  have d: "drop i sg = sg ! i # drop (Suc i) sg" using il by (simp add: Cons_nth_drop_Suc)
  have nz: "sg ! i \<noteq> 0" "sg ! Suc i \<noteq> 0" using assms(6) il by (metis nth_mem)+
  have ni: "sg ! i \<notin> set (drop (Suc i) sg)" using assms(5) d by (metis distinct.simps(2) distinct_drop)
  let ?tx = "if 0x10000 < cnt then 0x10000 else cnt"
  have tx: "?tx = 0x10000" using Suc(6) by (cases "0x10000 < cnt") (auto simp: word_less_nat_alt word_unat_eq_iff)
  let ?D = "desc_of (chan p (int m)) scatba width (if inc_src ctl then src + off else src) (if inc_dst ctl then dst + off else dst) 0x10000 (sg ! Suc i) True"
  let ?p = "upd_dsct (sg ! i) (\<lambda>_. ?D) p"
  have al: "(if inc_src ctl then src + off else src) mod (width div 8) = 0" "(if inc_dst ctl then dst + off else dst) mod (width div 8) = 0"
    by (rule aligned_shift [OF assms(2,3) Suc(8)], rule aligned_shift [OF assms(2,4) Suc(8)])
  have u: "unat (cnt - 0x10000) = n * 65536 + r" using Suc(6) by (subst unat_sub) (simp_all add: word_le_nat_alt)
  have t: "0x10000 * width div 8 = 0x10000 * (width div 8)" using assms(2) by auto
  have o: "off + 0x10000 * width div 8 = word_of_nat (k0 + 65536) * (width div 8)"
    unfolding t Suc(8) by (simp add: distrib_right)
  have ds: "nu_pdma_desc_setup (int m) (sg ! i) width (if inc_src ctl then src + off else src) (if inc_dst ctl then dst + off else dst)
      0x10000 (sg ! Suc i) True p = Inr (RT_EOK, ?p)"
    using desc_setup_ok [OF assms(1) Suc(2) nz(1) assms(2) al, of "0x10000"] by (simp add: Suc(3))
  have e: "chain_setup (int m) width src dst ctl (Some sg) i (Suc (Suc n)) cnt off p =
      chain_setup (int m) width src dst ctl (Some sg) (Suc i) (Suc n) (cnt - 0x10000) (off + 0x10000 * width div 8) ?p"
    using Suc(5) ds by (simp add: tx Let_def inc_src_def inc_dst_def del: chain_setup.simps(2) add: chain_setup.simps(2) [of _ _ _ _ _ _ _ "Suc n"])
  obtain q where q: "chain_setup (int m) width src dst ctl (Some sg) (Suc i) (Suc n) (cnt - 0x10000) (off + 0x10000 * width div 8) ?p = Inr (RT_EOK, q)"
    "q = ?p\<lparr>dscts := dscts q\<rparr>" "\<forall>a. a \<notin> set (drop (Suc i) sg) \<longrightarrow> dscts q a = dscts ?p a"
    "\<forall>mem k. (\<forall>a\<in>set (drop (Suc i) sg). mem a = dscts q a) \<longrightarrow> run_tables (Suc n + k) scatba mem (sg ! Suc i) =
        map (want_item ctl width src dst) [k0 + 65536..<k0 + 65536 + n * 65536 + (if r = 0 then 65536 else r)]"
    using Suc(1) [of ?p "Suc i" "cnt - 0x10000", OF _ _ _ _ u Suc(7) o] Suc(2-5) by (auto simp: chan_def)
  have qi: "dscts q (sg ! i) = ?D" using q(3) ni by simp
  note w = desc_want [OF assms(2), of "0x10000" "chan p (int m)" scatba]
  have m: "dsct_moves ?D = map (want_item ctl width src dst) [k0..<k0 + 65536]"
    using w(1) [of src k0 dst "sg ! Suc i" True] unfolding Suc(4) Suc(8) by simp
  have r: "run_tables (Suc (Suc n) + k) scatba mem (sg ! i) =
      map (want_item ctl width src dst) [k0..<k0 + Suc n * 65536 + (if r = 0 then 65536 else r)]"
    if "\<forall>a\<in>set (drop i sg). mem a = dscts q a" for mem k
  proof -
    have mi: "mem (sg ! i) = ?D" "\<forall>a\<in>set (drop (Suc i) sg). mem a = dscts q a" using that qi unfolding d by auto
    let ?r = "n * 65536 + (if r = 0 then 65536 else r)"
    have e1: "[k0..<(k0 + 65536) + ?r] = [k0..<k0 + 65536] @ [k0 + 65536..<(k0 + 65536) + ?r]"
      by (rule upt_add_eq_append) simp
    have e2: "k0 + Suc n * 65536 + (if r = 0 then 65536 else r) = (k0 + 65536) + ?r" by simp
    have u: "map (want_item ctl width src dst) [k0..<k0 + Suc n * 65536 + (if r = 0 then 65536 else r)] =
      map (want_item ctl width src dst) [k0..<k0 + 65536] @ map (want_item ctl width src dst) [k0 + 65536..<(k0 + 65536) + ?r]"
      unfolding e2 e1 map_append ..
    have "run_tables (Suc n + k) scatba mem (sg ! Suc i) = map (want_item ctl width src dst) [k0 + 65536..<(k0 + 65536) + ?r]"
      using q(4) mi(2) by (simp add: add.assoc)
    then show ?thesis unfolding u using w(2) nz(2) m nx [OF il(2)]
      by (simp add: mi(1) run_tables.simps(2) [of "Suc (n + k)"] Let_def del: run_tables.simps)
  qed
  have f: "dscts q a = dscts p a" if "a \<notin> set (drop i sg)" for a using that q(3) by (simp add: d)
  have nn: "NEXT (dscts q (sg ! i)) = sg ! (i + 1) - scatba" using qi nz(2) by simp
  have qq: "q = p\<lparr>dscts := dscts q\<rparr>" using q(2) by (simp add: upd_dsct_def)
  show ?case unfolding e by (intro exI [of _ q] conjI q(1) qq allI impI f nn r) assumption+
qed

section \<open>Starting a channel\<close>

lemma SCATBA_upd_mod [simp]:
  "(\<And>r. SCATBA (f r) = SCATBA r) \<Longrightarrow> SCATBA (mods (upd_mod m f p) ! k) = SCATBA (mods p ! k)"
  by (cases "m < length (mods p)"; cases "k = m") (simp_all add: upd_mod_def list_update_beyond)

lemma chan_free_upd [simp]: "chan_free (upd_mod m f p) = chan_free p" "chan_free (upd_chan ch g p) = chan_free p"
  by (simp_all add: chan_free_def)

lemma timeout_frame [simp]:
  "dscts (PDMA_SetTimeOut m c on cnt p) = dscts p" "SCATBA (mods (PDMA_SetTimeOut m c on cnt p) ! k) = SCATBA (mods p ! k)"
  "dscts (PDMA_DisableTimeout m w p) = dscts p" "SCATBA (mods (PDMA_DisableTimeout m w p) ! k) = SCATBA (mods p ! k)"
  "chan_free (PDMA_DisableTimeout m w p) = chan_free p" "hclk (PDMA_DisableTimeout m w p) = hclk p"
  by (simp_all add: PDMA_SetTimeOut_def PDMA_DisableTimeout_def Let_def)

definition clock_ok :: "pdma \<Rightarrow> bool" where
  "clock_ok p \<longleftrightarrow> 256 \<le> hclk p \<and> hclk p \<le> 200000000"

lemma timeout_set_ok:
  assumes "m < 32" "m \<notin> chan_free p" "clock_ok p"
  obtains e q where "nu_pdma_timeout_set (int m) us p = Inr (e, q)" "dscts q = dscts p"
    "\<And>k. SCATBA (mods q ! k) = SCATBA (mods p ! k)"
proof -
  have d: "hclk p div 256 \<noteq> 0" "1000000 div (hclk p div 256) \<noteq> 0"
  proof -
    have "256 div 256 \<le> hclk p div 256" "hclk p div 256 \<le> 200000000 div 256"
      using assms(3) by (simp_all only: clock_ok_def div_le_mono)
    then show "hclk p div 256 \<noteq> 0" "1000000 div (hclk p div 256) \<noteq> 0" by (auto simp: div_eq_0_iff)
  qed
  have "\<exists>e q. nu_pdma_timeout_set (int m) us p = Inr (e, q) \<and> dscts q = dscts p \<and> (\<forall>k. SCATBA (mods q ! k) = SCATBA (mods p ! k))"
  proof (cases "us = 0")
    case True
    then show ?thesis using assms(2) by (simp add: nu_pdma_timeout_set_def check_nonallocated [OF assms(1)] Let_def)
  next
    case False
    then show ?thesis using assms(2) d
      by (simp add: nu_pdma_timeout_set_def check_nonallocated [OF assms(1)] Let_def del: push_bit_of_1)
  qed
  then show thesis using that by blast
qed

lemma mode_same: "(x::u32) AND 3 = 1 \<Longrightarrow> (x AND NOT 3) OR 1 = x"
proof -
  assume a: "x AND 3 = 1"
  have "(x AND NOT 3) OR (x AND 3) = x" unfolding bit.conj_disj_distrib [symmetric] by simp
  then show ?thesis using a by simp
qed

lemma mode_set: "((x::u32) AND NOT 3 OR 2) AND 3 = 2"
proof -
  have "(x AND NOT 3) AND 3 = 0" by (simp add: and.assoc)
  then show ?thesis by (simp add: bit.conj_disj_distrib2)
qed

lemma pdma_start_ok:
  assumes "m < 32" "m \<notin> chan_free p" "clock_ok p"
  obtains q where "pdma_start (int m) per head us p = Inr q"
    "\<And>k. SCATBA (mods q ! k) = SCATBA (mods p ! k)"
    "dscts q = (dscts p)(dsct_reg (int m) := (if NEXT (dscts p head) = 0
       then (dscts p (dsct_reg (int m)))\<lparr>CTL := (CTL (dscts p (dsct_reg (int m))) AND NOT 3) OR 1\<rparr>
       else (dscts p (dsct_reg (int m)))\<lparr>CTL := (CTL (dscts p (dsct_reg (int m))) AND NOT 3) OR 2,
              NEXT := head - SCATBA (mods p ! (m div 16))\<rparr>))"
proof -
  let ?p = "PDMA_EnableInt (int m) PDMA_INT_TRANS_DONE
    (PDMA_DisableTimeout (NU_PDMA_GET_MOD_IDX (int m)) (push_bit (NU_PDMA_GET_MOD_CHIDX (int m)) 1) p)"
  have f: "m \<notin> chan_free ?p" "clock_ok ?p" using assms(2,3) by (simp_all add: clock_ok_def)
  obtain e q where q: "nu_pdma_timeout_set (int m) us ?p = Inr (e, q)" "dscts q = dscts ?p"
    "\<And>k. SCATBA (mods q ! k) = SCATBA (mods ?p ! k)" by (rule timeout_set_ok [OF assms(1) f]) blast
  have s: "dscts q = dscts p" "\<And>k. SCATBA (mods q ! k) = SCATBA (mods p ! k)"
    using q(2,3) by simp_all
  let ?q = "PDMA_SetTransferMode (int m) per (NEXT (dscts q head) \<noteq> 0) head q"
  have mi: "NU_PDMA_GET_MOD_IDX (int m) = m div 16" using assms(1) by simp
  have t: "dscts ?q = (dscts p)(dsct_reg (int m) := (if NEXT (dscts p head) = 0
       then (dscts p (dsct_reg (int m)))\<lparr>CTL := (CTL (dscts p (dsct_reg (int m))) AND NOT 3) OR 1\<rparr>
       else (dscts p (dsct_reg (int m)))\<lparr>CTL := (CTL (dscts p (dsct_reg (int m))) AND NOT 3) OR 2,
              NEXT := head - SCATBA (mods p ! (m div 16))\<rparr>))"
    "\<And>k. SCATBA (mods ?q ! k) = SCATBA (mods p ! k)"
    by (cases "dscts p (dsct_reg (int m))"; simp add: PDMA_SetTransferMode_def Let_def s mi)+
  have tr: "dscts (PDMA_Trigger (int m) ?q) = dscts ?q" "\<And>k. SCATBA (mods (PDMA_Trigger (int m) ?q) ! k) = SCATBA (mods ?q ! k)"
    by (simp_all add: PDMA_Trigger_def Let_def)
  have "\<exists>r. pdma_start (int m) per head us p = Inr r \<and> dscts r = dscts ?q \<and> (\<forall>k. SCATBA (mods r ! k) = SCATBA (mods ?q ! k))"
    using tr by (auto simp: pdma_start_def Let_def q(1) simp del: push_bit_of_1 PDMA_EnableInt.simps split: option.split)
  then show thesis using that t by metis
qed

section \<open>Transfers\<close>

text \<open>What a transfer of \<open>cnt\<close> items needs: a channel in use, a data width, aligned addresses;
  and beyond 65536 items memory for the array of pointers and free descriptors, on a channel that holds
  none.\<close>

definition chain_len :: "u32 \<Rightarrow> nat" where
  "chain_len cnt = unat cnt div 65536 + 1"

definition xfer_ok :: "nat \<Rightarrow> u32 list option \<Rightarrow> u32 \<Rightarrow> u32 \<Rightarrow> u32 \<Rightarrow> u32 \<Rightarrow> pdma \<Rightarrow> bool" where
  "xfer_ok m heap width src dst cnt p \<longleftrightarrow>
     pdma_ok p \<and> m < NU_PDMA_CH_MAX \<and> m \<notin> chan_free p
     \<and> (width = 8 \<or> width = 16 \<or> width = 32) \<and> src mod (width div 8) = 0 \<and> dst mod (width div 8) = 0 \<and> cnt \<noteq> 0
     \<and> (0x10000 < cnt \<longrightarrow> m_u32WantedSGTblNum (chan p (int m)) = 0
          \<and> (\<exists>arr. heap = Some arr \<and> length arr = chain_len cnt) \<and> chain_len cnt \<le> card (sg_free p))"

lemma pdma_ok_parts:
  assumes "pdma_ok p"
  shows "chan_inv p" "sg_inv p" "sg_placed p" "clock_ok p" "length (mods p) = 2"
    "m < 32 \<Longrightarrow> SCATBA (mods p ! (m div 16)) = sg_base p AND 0xFFFF0000"
  using assms by (auto simp: pdma_ok_def clock_ok_def sg_placed_def chan_inv_def)

lemma basic_moves:
  assumes x: "xfer_ok m heap width src dst cnt p" and c: "cnt \<le> 0x10000"
  shows "\<exists>q. nu_pdma_transfer (int m) heap width src dst cnt us p = Inr (RT_EOK, q)
    \<and> channel_moves k (int m) q = map (want_item (m_eMemCtl (chan p (int m))) width src dst) [0..<unat cnt]"
proof -
  have h: "m < 32" "m \<notin> chan_free p" "width = 8 \<or> width = 16 \<or> width = 32" "src mod (width div 8) = 0"
    "dst mod (width div 8) = 0" "cnt \<noteq> 0" "pdma_ok p" using x by (simp_all add: xfer_ok_def)
  note ok = pdma_ok_parts [OF h(7)]
  let ?D = "desc_of (chan p (int m)) (SCATBA (mods p ! (m div 16))) width src dst cnt 0 False"
  let ?p = "upd_dsct (dsct_reg (int m)) (\<lambda>_. ?D) p"
  note ds = desc_setup_ok [OF h(1,2) dsct_reg_not_null [OF h(1)] h(3,4,5) c, of 0 False]
  have f: "m \<notin> chan_free ?p" "clock_ok ?p" using h(2) ok(4) by (simp_all add: clock_ok_def)
  obtain q where q: "pdma_start (int m) (m_u32Peripheral (chan p (int m))) (dsct_reg (int m)) us ?p = Inr q"
    "dscts q = (dscts ?p)(dsct_reg (int m) := (if NEXT (dscts ?p (dsct_reg (int m))) = 0
       then (dscts ?p (dsct_reg (int m)))\<lparr>CTL := (CTL (dscts ?p (dsct_reg (int m))) AND NOT 3) OR 1\<rparr>
       else (dscts ?p (dsct_reg (int m)))\<lparr>CTL := (CTL (dscts ?p (dsct_reg (int m))) AND NOT 3) OR 2,
              NEXT := dsct_reg (int m) - SCATBA (mods ?p ! (m div 16))\<rparr>))"
    by (rule pdma_start_ok [OF h(1) f]) blast
  have c3: "CTL ?D AND 3 = 1" using desc_want(2) [OF h(3) c, of "chan p (int m)" _ src dst 0 False] by simp
  have "dscts q (dsct_reg (int m)) = ?D\<lparr>CTL := (CTL ?D AND NOT 3) OR 1\<rparr>" using q(2) by simp
  also have "\<dots> = ?D" unfolding mode_same [OF c3] by simp
  finally have d: "dscts q (dsct_reg (int m)) = ?D" .
  have "0 < cnt" using h(6) by (simp add: word_greater_zero_iff)
  then have "channel_moves k (int m) q = map (want_item (m_eMemCtl (chan p (int m))) width src dst) [0..<unat cnt]"
    by (simp add: channel_moves_def d c3 desc_of_moves(1) [OF h(3) _ c])
  moreover have "nu_pdma_transfer (int m) heap width src dst cnt us p = Inr (RT_EOK, q)"
  proof -
    have "\<not> 0x10000 < cnt" using c by (simp add: not_less)
    then show ?thesis using h(2,6) q(1) by (simp add: nu_pdma_transfer_def check_nonallocated [OF h(1)] ds)
  qed
  ultimately show ?thesis by blast
qed

lemma sgtbls_allocate_ok:
  assumes "sg_inv p" "n \<le> card (sg_free p)" "length arr = n"
  obtains idxs where "nu_pdma_sgtbls_allocate arr n p = Inr (RT_EOK, map (sgtbl_at p) idxs, fold sg_take idxs p)"
    "length idxs = n" "sorted_wrt (<) idxs" "set idxs \<subseteq> sg_free p"
proof -
  have "card (sg_free p) \<le> 32" using card_mono [of "{..<32}" "sg_free p"] by (auto simp: sg_free_def)
  then have n: "n \<le> 4096" using assms(2) by simp
  from alloc_loop_ok [OF assms(1,2), of 0 arr] obtain idxs where
    "sgtbls_alloc_loop 0 n arr p = Inr (RT_EOK, take 0 arr @ map (sgtbl_at p) idxs @ drop (0 + n) arr, fold sg_take idxs p)"
    "length idxs = n" "sorted_wrt (<) idxs" "set idxs \<subseteq> sg_free p" using assms(3) by auto
  then show thesis using that [of idxs] n assms(3) by (simp add: nu_pdma_sgtbls_allocate_def)
qed

lemma transfer_chain_run:
  assumes "nu_pdma_channel_memctrl_get ch p = Inr ctl" "chain_prepare ch heap cnt p = Inr (RT_EOK, p2)"
    "chain_setup ch width src dst ctl (m_ppsSgtbl (chan p2 ch)) 0 (m_u32WantedSGTblNum (chan p2 ch)) cnt 0 p2 = Inr (RT_EOK, q)"
    "m_ppsSgtbl (chan q ch) = Some sg" "sg \<noteq> []" "pdma_start ch (m_u32Peripheral (chan q ch)) (sg ! 0) us q = Inr t"
  shows "pdma_transfer_chain ch heap width src dst cnt us p = Inr (RT_EOK, t)"
  using assms by (simp add: pdma_transfer_chain_def split: list.split) (cases sg; simp)

lemma chain_moves:
  assumes x: "xfer_ok m heap width src dst cnt p" and c: "0x10000 < cnt"
  shows "\<exists>q. nu_pdma_transfer (int m) heap width src dst cnt us p = Inr (RT_EOK, q)
    \<and> channel_moves (chain_len cnt + k) (int m) q = map (want_item (m_eMemCtl (chan p (int m))) width src dst)
        [0..<unat cnt + (if unat cnt mod 65536 = 0 then 65536 else 0)]"
proof -
  have h: "m < 32" "m \<notin> chan_free p" "width = 8 \<or> width = 16 \<or> width = 32" "src mod (width div 8) = 0"
    "dst mod (width div 8) = 0" "cnt \<noteq> 0" "pdma_ok p" "m_u32WantedSGTblNum (chan p (int m)) = 0"
    "chain_len cnt \<le> card (sg_free p)" using x c by (simp_all add: xfer_ok_def)
  obtain arr where arr: "heap = Some arr" "length arr = chain_len cnt" using x c by (auto simp: xfer_ok_def)
  note ok = pdma_ok_parts [OF h(7)]
  let ?ctl = "m_eMemCtl (chan p (int m))"
  let ?sb = "sg_base p AND 0xFFFF0000"
  have lc: "nat (int m) < length (nu_pdma_chn_arr p)" using ok(1) h(1) by (simp add: chan_inv_def)
  let ?p1 = "upd_chan (int m) (\<lambda>c. c\<lparr>m_u32WantedSGTblNum := chain_len cnt, m_ppsSgtbl := Some arr\<rparr>) p"
  have i1: "sg_inv ?p1" "sg_free ?p1 = sg_free p" "sgtbl_at ?p1 = sgtbl_at p"
    using ok(2) by (auto simp: sg_inv_def sg_free_def sgtbl_at_def fun_eq_iff)
  obtain idxs where al: "nu_pdma_sgtbls_allocate arr (chain_len cnt) ?p1 = Inr (RT_EOK, map (sgtbl_at p) idxs, fold sg_take idxs ?p1)"
    and ix: "length idxs = chain_len cnt" "sorted_wrt (<) idxs" "set idxs \<subseteq> sg_free p"
    using sgtbls_allocate_ok [OF i1(1), of "chain_len cnt" arr] h(9) arr(2) unfolding i1(2,3) by metis
  let ?sg = "map (sgtbl_at p) idxs"
  let ?p2 = "upd_chan (int m) (m_ppsSgtbl_update (\<lambda>_. Some ?sg)) (fold sg_take idxs ?p1)"
  have prep: "chain_prepare (int m) heap cnt p = Inr (RT_EOK, ?p2)"
    using h(8) al by (simp add: chain_prepare_def arr(1) Let_def chain_len_def)
  have c2: "m_ppsSgtbl (chan ?p2 (int m)) = Some ?sg" "m_u32WantedSGTblNum (chan ?p2 (int m)) = chain_len cnt"
    "m_eMemCtl (chan ?p2 (int m)) = ?ctl" using lc by simp_all
  have i2: "m \<notin> chan_free ?p2" "SCATBA (mods ?p2 ! (m div 16)) = ?sb" "clock_ok ?p2"
    using h(2) ok(4) ok(6) [OF h(1)] by (simp_all add: chan_free_def clock_ok_def)
  have i32: "\<And>i. i \<in> set idxs \<Longrightarrow> i < 32" using ix(3) by (auto simp: sg_free_def)
  have dx: "distinct idxs" using ix(2) by (simp add: strict_sorted_iff)
  have ds: "distinct ?sg" unfolding distinct_map
    using dx i32 sgtbl_inj [OF ok(3)] by (auto simp: inj_on_def)
  have nz: "0 \<notin> set ?sg" using i32 sgtbl_not_null [OF ok(3)] by force
  have nx: "?sb + ((?sg ! j - ?sb) AND 0xFFFF) = ?sg ! j" if "j < length ?sg" for j
    using sgtbl_offset(2) [OF ok(3) i32 [of "idxs ! j"]] that by simp
  define n where "n = unat cnt div 65536"
  have n: "chain_len cnt = Suc n" "unat cnt = n * 65536 + unat cnt mod 65536" "0 < n"
    using c by (simp_all add: chain_len_def n_def word_less_nat_alt div_greater_zero_iff)
  have ln: "length ?sg = 0 + Suc n" using ix(1) n(1) by simp
  obtain q where q: "chain_setup (int m) width src dst ?ctl (Some ?sg) 0 (Suc n) cnt 0 ?p2 = Inr (RT_EOK, q)"
    "q = ?p2\<lparr>dscts := dscts q\<rparr>" "\<forall>a. a \<notin> set (drop 0 ?sg) \<longrightarrow> dscts q a = dscts ?p2 a"
    "NEXT (dscts q (?sg ! 0)) = ?sg ! (0 + 1) - ?sb"
    "\<And>mem k. (\<forall>a\<in>set (drop 0 ?sg). mem a = dscts q a) \<Longrightarrow>
        run_tables (Suc n + k) ?sb mem (?sg ! 0) = map (want_item ?ctl width src dst)
          [0..<0 + n * 65536 + (if unat cnt mod 65536 = 0 then 65536 else unat cnt mod 65536)]"
    using chain_setup_ok [OF h(1,3,4,5) ds nz nx i2(1,2) c2(3) ln n(2), of 0 0] n(3) by auto
  obtain i0 i1 is' where is': "idxs = i0 # i1 # is'" using ix(1) n(1,3) by (cases idxs; cases "tl idxs") auto
  have hd: "?sg ! 0 = sgtbl_at p i0" "?sg ! (0 + 1) = sgtbl_at p i1" "i0 < i1" "i1 < 32"
    using is' ix(2) i32 by auto
  have nn: "NEXT (dscts q (sgtbl_at p i0)) \<noteq> 0"
    using q(4) sgtbl_offset(3) [OF ok(3) hd(4)] hd(3) unfolding hd(1,2) by simp
  have qe: "q = ?p2\<lparr>dscts := d\<rparr> \<Longrightarrow> chan q ch = chan ?p2 ch \<and> chan_free q = chan_free ?p2 \<and> mods q = mods ?p2 \<and> hclk q = hclk ?p2" for d ch
    by (simp add: chan_def chan_free_def)
  note qe = qe [OF q(2)]
  have qf: "m \<notin> chan_free q" "clock_ok q" "SCATBA (mods q ! (m div 16)) = ?sb"
    "m_ppsSgtbl (chan q (int m)) = Some ?sg" using i2 c2(1) qe by (auto simp: clock_ok_def)
  let ?r = "dsct_reg (int m)"
  obtain t where t: "pdma_start (int m) (m_u32Peripheral (chan q (int m))) (sgtbl_at p i0) us q = Inr t"
    "\<And>k. SCATBA (mods t ! k) = SCATBA (mods q ! k)"
    "dscts t = (dscts q)(?r := (if NEXT (dscts q (sgtbl_at p i0)) = 0
       then (dscts q ?r)\<lparr>CTL := (CTL (dscts q ?r) AND NOT 3) OR 1\<rparr>
       else (dscts q ?r)\<lparr>CTL := (CTL (dscts q ?r) AND NOT 3) OR 2, NEXT := sgtbl_at p i0 - SCATBA (mods q ! (m div 16))\<rparr>))"
    by (rule pdma_start_ok [OF h(1) qf(1,2)]) blast
  have tr: "CTL (dscts t ?r) AND 3 = 2" "NEXT (dscts t ?r) = sgtbl_at p i0 - ?sb"
    using nn mode_set [of "CTL (dscts q ?r)"] by (simp_all add: t(3) qf(3))
  have rn: "?r \<notin> set ?sg" using dsct_reg_sgtbl [OF ok(3) _ h(1)] i32 by auto
  have "\<forall>a\<in>set (drop 0 ?sg). dscts t a = dscts q a"
  proof
    fix a assume "a \<in> set (drop 0 ?sg)"
    then have "a \<in> set ?sg" by simp
    then have "a \<noteq> ?r" using rn by metis
    then show "dscts t a = dscts q a" unfolding t(3) by (rule fun_upd_other)
  qed
  note rt = q(5) [OF this, of k]
  have m1: "NU_PDMA_GET_MOD_IDX (int m) = m div 16" using h(1) by simp
  have nx0: "?sb + ((sgtbl_at p i0 - ?sb) AND 0xFFFF) = ?sg ! 0" unfolding hd(1) using sgtbl_offset(2) [OF ok(3), of i0] hd(3,4) by simp
  have "channel_moves (chain_len cnt + k) (int m) t = run_tables (Suc n + k) ?sb (dscts t) (?sg ! 0)"
    unfolding channel_moves_def Let_def m1 t(2) qf(3) tr nx0 n(1) by simp
  also have "\<dots> = map (want_item ?ctl width src dst) [0..<unat cnt + (if unat cnt mod 65536 = 0 then 65536 else 0)]"
  proof -
    have "0 + n * 65536 + (if unat cnt mod 65536 = 0 then 65536 else unat cnt mod 65536) =
      unat cnt + (if unat cnt mod 65536 = 0 then 65536 else 0)" using n(2) by simp
    then show ?thesis using rt by simp
  qed
  finally have mv: "channel_moves (chain_len cnt + k) (int m) t =
    map (want_item ?ctl width src dst) [0..<unat cnt + (if unat cnt mod 65536 = 0 then 65536 else 0)]" .
  have ctl: "nu_pdma_channel_memctrl_get (int m) p = Inr ?ctl"
    using h(2) by (simp add: nu_pdma_channel_memctrl_get_def check_nonallocated [OF h(1)])
  have ch: "pdma_transfer_chain (int m) heap width src dst cnt us p = Inr (RT_EOK, t)"
  proof (rule transfer_chain_run [OF ctl prep _ qf(4)])
    show "chain_setup (int m) width src dst ?ctl (m_ppsSgtbl (chan ?p2 (int m))) 0 (m_u32WantedSGTblNum (chan ?p2 (int m))) cnt 0 ?p2 =
      Inr (RT_EOK, q)" unfolding c2 by (rule q(1) [folded n(1)])
    show "?sg \<noteq> []" by (simp add: is')
    show "pdma_start (int m) (m_u32Peripheral (chan q (int m))) (?sg ! 0) us q = Inr t" unfolding hd(1) by (rule t(1))
  qed
  have "nu_pdma_transfer (int m) heap width src dst cnt us p = Inr (RT_EOK, t)"
    using c h(2,6) ch by (simp add: nu_pdma_transfer_def check_nonallocated [OF h(1)])
  then show ?thesis using mv by blast
qed

end
