(* ===== verification/PdmaIrq.thy ===== *)
theory PdmaIrq
  imports PdmaMoves
begin

text \<open>
  The interrupt handler of the PDMA driver and the memory actors, third part of
  \<^verbatim>\<open>libraries/m460/rtt_port/drv_pdma.c\<close>: events of the channels, and copies of
  memory by the controller.
\<close>

section \<open>The interrupt handler\<close>

text \<open>The status of a module when the handler starts: aborts, transfers done, misalignments,
  time-outs, one bit per channel.\<close>

record pdma_sts =
  abtsts :: u32
  tdsts :: u32
  unalignsts :: u32
  reqto_ch :: u32

definition irq_read :: "pdma_regs \<Rightarrow> pdma_sts" where
  "irq_read r = \<lparr>abtsts = ABTSTS r, tdsts = TDSTS r, unalignsts = ALIGN r,
     reqto_ch = drop_bit 8 (INTSTS r AND push_bit 8 PDMA_CH_Msk)\<rparr>"

definition allch_sts :: "pdma_sts \<Rightarrow> u32" where
  "allch_sts z = reqto_ch z OR tdsts z OR abtsts z OR unalignsts z"

text \<open>A flag is cleared by writing a one to it.  The summary bits 0 to 2 of the interrupt status
  follow the flags: the hardware clears them with the last flag.\<close>

definition irq_clear :: "nat \<Rightarrow> pdma \<Rightarrow> pdma" where
  "irq_clear m p =
     (let r = mods p ! m; intsts = INTSTS r; abt = ABTSTS r; td = TDSTS r; una = ALIGN r;
          reqto = intsts AND push_bit 8 PDMA_CH_Msk;
          p = (if intsts AND 1 \<noteq> 0 then upd_mod m (ABTSTS_update (\<lambda>x. x AND NOT abt)) p else p);
          p = (if intsts AND 2 \<noteq> 0 then upd_mod m (TDSTS_update (\<lambda>x. x AND NOT td)) p else p);
          p = (if intsts AND 4 \<noteq> 0 then upd_mod m (ALIGN_update (\<lambda>x. x AND NOT una)) p else p)
      in if reqto \<noteq> 0 then upd_mod m (INTSTS_update (\<lambda>x. x AND NOT reqto)) p else p)"

definition NU_PDMA_EVENT_ABORT :: u32 where "NU_PDMA_EVENT_ABORT = 1"
definition NU_PDMA_EVENT_TRANSFER_DONE :: u32 where "NU_PDMA_EVENT_TRANSFER_DONE = 2"
definition NU_PDMA_EVENT_ALIGNMENT :: u32 where "NU_PDMA_EVENT_ALIGNMENT = 4"
definition NU_PDMA_EVENT_TIMEOUT :: u32 where "NU_PDMA_EVENT_TIMEOUT = 8"

definition ch_event :: "pdma_sts \<Rightarrow> nat \<Rightarrow> u32" where
  "ch_event z i =
     (let msk = push_bit i 1
      in (if abtsts z AND msk \<noteq> 0 then NU_PDMA_EVENT_ABORT else 0)
         OR (if tdsts z AND msk \<noteq> 0 then NU_PDMA_EVENT_TRANSFER_DONE else 0)
         OR (if unalignsts z AND msk \<noteq> 0 then NU_PDMA_EVENT_ALIGNMENT else 0)
         OR (if reqto_ch z AND msk \<noteq> 0 then NU_PDMA_EVENT_TIMEOUT else 0))"

text \<open>A callback is a function of its user data and argument that may change the driver:
  \<open>call\<close> gives the function of each handler.\<close>

type_synonym callbacks = "nat \<Rightarrow> nat \<Rightarrow> u32 \<Rightarrow> pdma \<Rightarrow> pdma"

definition irq_serve :: "callbacks \<Rightarrow> nat \<Rightarrow> pdma_sts \<Rightarrow> nat \<Rightarrow> pdma \<Rightarrow> pdma res" where
  "irq_serve call m z i p =
     (let j = int (i + m * PDMA_CH_MAX); msk = push_bit i 1
      in if nu_pdma_chn_mask_arr p ! m AND msk = 0 then Inr p
         else case m_pfnCBHandler (m_sCB_Event (chan p j)) of
                None \<Rightarrow> Inr p
              | Some _ \<Rightarrow>
                let p = (if reqto_ch z AND msk \<noteq> 0 then PDMA_DisableTimeout m msk p else p);
                    p = (case m_pfnCBHandler (m_sCB_Disable (chan p j)) of
                           None \<Rightarrow> p
                         | Some h \<Rightarrow> call h (m_pvUserData (m_sCB_Disable (chan p j))) (m_u32Reserved (m_sCB_Disable (chan p j))) p)
                in bind_res
                     (if m_u32EventFilter (chan p j) AND ch_event z i \<noteq> 0 then
                        case m_pfnCBHandler (m_sCB_Event (chan p j)) of
                          None \<Rightarrow> Inl NullDeref
                        | Some h \<Rightarrow> Inr (call h (m_pvUserData (m_sCB_Event (chan p j))) (ch_event z i) p)
                      else Inr p) (\<lambda>p.
                   if reqto_ch z AND msk \<noteq> 0
                   then bind_res (nu_pdma_timeout_set j (m_u32IdleTimeout_us (chan p j)) p) (\<lambda>(_, p). Inr p)
                   else Inr p))"

lemma clear_lowest_less: "nu_ctz x < 16 \<Longrightarrow> unat (x AND NOT (push_bit (nu_ctz x) 1)) < unat (x::u32)"
proof -
  assume a: "nu_ctz x < 16"
  then have "x \<noteq> 0" using nu_ctz_32 [of x] by auto
  then have b: "bit x (nu_ctz x)" using nu_ctz_lowest by (simp add: lowest_set_def)
  let ?y = "x AND NOT (push_bit (nu_ctz x) 1)"
  have "\<not> bit ?y (nu_ctz x)" by (simp only: bit_clear_one) simp
  then have "?y \<noteq> x" using b by metis
  moreover have "?y \<le> x" by (metis and.commute word_and_le1)
  ultimately show ?thesis by (simp add: word_less_nat_alt [symmetric] le_less)
qed

function irq_loop :: "callbacks \<Rightarrow> nat \<Rightarrow> pdma_sts \<Rightarrow> u32 \<Rightarrow> pdma \<Rightarrow> pdma res" where
  "irq_loop call m z allch p =
     (let i = nu_ctz allch
      in if i < PDMA_CH_MAX then
           bind_res (irq_serve call m z i p) (\<lambda>p. irq_loop call m z (allch AND NOT (push_bit i 1)) p)
         else Inr p)"
  by pat_completeness auto

termination
proof (relation "measure (\<lambda>(call, m, z, allch, p). unat allch)", goal_cases)
  case (2 call m z allch p i q)
  then show ?case using clear_lowest_less [of allch] by simp
qed simp

definition PDMA_IRQHandler :: "callbacks \<Rightarrow> nat \<Rightarrow> pdma \<Rightarrow> pdma res" where
  "PDMA_IRQHandler call m p =
     (let z = irq_read (mods p ! m) in irq_loop call m z (allch_sts z) (irq_clear m p))"

text \<open>Serving a list of channels one after the other.\<close>

primrec serve_all :: "callbacks \<Rightarrow> nat \<Rightarrow> pdma_sts \<Rightarrow> nat list \<Rightarrow> pdma \<Rightarrow> pdma res" where
  "serve_all call m z [] p = Inr p"
| "serve_all call m z (i # is') p = bind_res (irq_serve call m z i p) (serve_all call m z is')"

lemma filter_lowest:
  assumes "nu_ctz x = i" "i < 16"
  shows "filter (bit (x::u32)) [0..<16] = i # filter (bit (x AND NOT (push_bit i 1))) [0..<16]"
proof -
  have "x \<noteq> 0" using assms nu_ctz_32 [of x] by auto
  then have l: "bit x i" "\<And>k. k < i \<Longrightarrow> \<not> bit x k" using nu_ctz_lowest [of x] assms(1) by (simp_all add: lowest_set_def)
  have u: "[0..<16] = [0..<i] @ i # [Suc i..<16]"
    using assms(2) by (metis le0 less_imp_le_nat upt_add_eq_append upt_conv_Cons le_add_diff_inverse)
  have e: "filter (bit x) [0..<i] = []" "filter (bit (x AND NOT (push_bit i 1))) [0..<i] = []"
    using l(2) by (auto simp: filter_empty_conv bit_clear_one simp del: push_bit_of_1)
  have r: "filter (bit (x AND NOT (push_bit i 1))) [Suc i..<16] = filter (bit x) [Suc i..<16]"
    by (rule filter_cong) (auto simp: bit_clear_one simp del: push_bit_of_1)
  have z: "\<not> bit (x AND NOT (push_bit i 1)) i" by (simp only: bit_clear_one) simp
  show ?thesis unfolding u filter_append e filter.simps r using l(1) z by simp
qed

lemma irq_loop_all: "irq_loop call m z allch p = serve_all call m z (filter (bit allch) [0..<16]) p"
proof (induction call m z allch p rule: irq_loop.induct)
  case (1 call m z allch p)
  show ?case
  proof (cases "nu_ctz allch < 16")
    case True
    have ih: "irq_loop call m z (allch AND NOT (push_bit (nu_ctz allch) 1)) q =
        serve_all call m z (filter (bit (allch AND NOT (push_bit (nu_ctz allch) 1))) [0..<16]) q" for q
      by (rule 1 [OF refl True])
    have "irq_loop call m z allch p = bind_res (irq_serve call m z (nu_ctz allch) p)
        (\<lambda>q. irq_loop call m z (allch AND NOT (push_bit (nu_ctz allch) 1)) q)"
      by (subst irq_loop.simps) (simp only: Let_def True if_True)
    also have "\<dots> = serve_all call m z (filter (bit allch) [0..<16]) p"
      unfolding ih filter_lowest [OF refl True] serve_all.simps ..
    finally show ?thesis .
  next
    case False
    then have "filter (bit allch) [0..<16] = []"
      using nu_ctz_lt_iff [of 16 allch] by (auto simp: filter_empty_conv)
    then show ?thesis using False irq_loop.simps [of call m z allch p] by (simp add: Let_def)
  qed
qed

lemma ch_event_bits:
  "ch_event z i AND NU_PDMA_EVENT_ABORT \<noteq> 0 \<longleftrightarrow> bit (abtsts z) i"
  "ch_event z i AND NU_PDMA_EVENT_TRANSFER_DONE \<noteq> 0 \<longleftrightarrow> bit (tdsts z) i"
  "ch_event z i AND NU_PDMA_EVENT_ALIGNMENT \<noteq> 0 \<longleftrightarrow> bit (unalignsts z) i"
  "ch_event z i AND NU_PDMA_EVENT_TIMEOUT \<noteq> 0 \<longleftrightarrow> bit (reqto_ch z) i"
  unfolding ch_event_def Let_def word_and_push_one NU_PDMA_EVENT_ABORT_def NU_PDMA_EVENT_TRANSFER_DONE_def
    NU_PDMA_EVENT_ALIGNMENT_def NU_PDMA_EVENT_TIMEOUT_def by auto


section \<open>Memory actors\<close>

text \<open>The actors with their channels and last results, the semaphores by their values; the
  controller works on \<open>mem\<close>.  The lock of the pool is held over a few instructions and released, so
  it adds nothing here.\<close>

record memfun =
  drv :: pdma
  actor_mask :: u32
  actor_arr :: "(int \<times> u32) list"
  actor_sem :: "nat list"
  pool_sem :: nat
  mem :: "u32 \<Rightarrow> u8"

text \<open>The handler \<^verbatim>\<open>nu_pdma_memfun_cb\<close> is number 1; its user data is the actor's
  index.  It only sets the actor's result and posts its semaphore, so it is run from the log.\<close>

definition nu_pdma_memfun_cb :: "nat \<Rightarrow> u32 \<Rightarrow> memfun \<Rightarrow> memfun" where
  "nu_pdma_memfun_cb a evs s =
     s\<lparr>actor_arr := (actor_arr s)[a := (fst (actor_arr s ! a), evs)],
       actor_sem := (actor_sem s)[a := actor_sem s ! a + 1]\<rparr>"

definition log_call :: callbacks where
  "log_call h user evs p = p\<lparr>calls := calls p @ [(h, user, evs)]\<rparr>"

definition run_calls :: "(nat \<times> nat \<times> u32) list \<Rightarrow> memfun \<Rightarrow> memfun" where
  "run_calls = fold (\<lambda>(h, user, evs) s. if h = 1 then nu_pdma_memfun_cb user evs s else s)"

definition memfun_irq :: "nat \<Rightarrow> memfun \<Rightarrow> memfun res" where
  "memfun_irq m s =
     bind_res (PDMA_IRQHandler log_call m ((drv s)\<lparr>calls := []\<rparr>)) (\<lambda>p.
     Inr (run_calls (calls p) (s\<lparr>drv := p\<lparr>calls := []\<rparr>\<rparr>)))"

text \<open>Setting up at most \<^verbatim>\<open>NU_PDMA_MEMFUN_ACTOR_MAX\<close> actors, as many as there are free
  channels; their semaphores are created empty, the pool's with one unit for each.\<close>

fun actor_init_loop :: "nat \<Rightarrow> pdma \<Rightarrow> (int list \<times> pdma) res" where
  "actor_init_loop 0 p = Inr ([], p)"
| "actor_init_loop (Suc n) p =
     bind_res (nu_pdma_channel_allocate 0 p) (\<lambda>(ch, p).
       if ch \<noteq> - RT_ERROR then bind_res (actor_init_loop n p) (\<lambda>(chs, p). Inr (ch # chs, p))
       else Inr ([], p))"

definition nu_pdma_memfun_actor_init :: "(u32 \<Rightarrow> u8) \<Rightarrow> pdma \<Rightarrow> memfun res" where
  "nu_pdma_memfun_actor_init mm p =
     bind_res (actor_init_loop 2 (nu_pdma_init p)) (\<lambda>(chs, p).
       let i = length chs
       in Inr \<lparr>drv = p, actor_mask = (if i \<noteq> 0 then NOT (push_bit i 1 - 1) else 0), actor_arr = map (\<lambda>c. (c, 0)) chs,
               actor_sem = replicate i 0, pool_sem = i, mem = mm\<rparr>)"

text \<open>Taking an actor: \<open>None\<close> is a caller that waits for one.\<close>

definition nu_pdma_memfun_employ :: "memfun \<Rightarrow> (nat \<times> memfun) option" where
  "nu_pdma_memfun_employ s =
     (if pool_sem s = 0 then None
      else let s = s\<lparr>pool_sem := pool_sem s - 1\<rparr>; idx = nu_cto (actor_mask s)
           in if idx \<noteq> 32 then Some (idx, s\<lparr>actor_mask := actor_mask s OR push_bit idx 1\<rparr>) else None)"

text \<open>\<open>hw\<close> is what happens between the start of a transfer and the interrupt that ends it: the
  controller changes memory and its registers.  \<open>None\<close> is a caller that waits for ever: the result
  of the transfer is not looked at.\<close>

definition nu_pdma_memfun ::
  "(int \<Rightarrow> memfun \<Rightarrow> memfun) \<Rightarrow> u32 list option \<Rightarrow> u32 \<Rightarrow> u32 \<Rightarrow> u32 \<Rightarrow> u32 \<Rightarrow> memctrl \<Rightarrow> memfun
    \<Rightarrow> (nat \<times> memfun) option res" where
  "nu_pdma_memfun hw heap dest src width cnt ctl s =
     (case nu_pdma_memfun_employ s of None \<Rightarrow> Inr None
      | Some (idx, s) \<Rightarrow>
        if length (actor_arr s) \<le> idx then Inl BadAccess
        else let ch = fst (actor_arr s ! idx);
                 cb = \<lparr>m_eCBType = eCBType_Event, m_pfnCBHandler = Some 1, m_pvUserData = idx, m_u32Reserved = 0\<rparr>
        in bind_res (nu_pdma_channel_memctrl_set ch ctl (drv s)) (\<lambda>(_, p).
           bind_res (nu_pdma_filtering_set ch (NU_PDMA_EVENT_ABORT OR NU_PDMA_EVENT_TRANSFER_DONE) p) (\<lambda>(_, p).
           bind_res (nu_pdma_callback_register ch (Some cb) p) (\<lambda>(_, p).
           let s = s\<lparr>actor_arr := (actor_arr s)[idx := (ch, 0)]\<rparr>
           in bind_res (nu_pdma_transfer ch heap width src dest cnt 0 p) (\<lambda>(_, p).
              bind_res (memfun_irq (NU_PDMA_GET_MOD_IDX ch) (hw ch (s\<lparr>drv := p\<rparr>))) (\<lambda>s.
              if actor_sem s ! idx = 0 then Inr None
              else let s = s\<lparr>actor_sem := (actor_sem s)[idx := actor_sem s ! idx - 1]\<rparr>;
                       res = snd (actor_arr s ! idx);
                       ret = (if res AND NU_PDMA_EVENT_TRANSFER_DONE \<noteq> 0 then unat cnt
                              else unat (cnt - word_of_nat (nu_pdma_non_transfer_count_get ch (drv s))))
                   in bind_res (if res AND NU_PDMA_EVENT_ABORT \<noteq> 0 then nu_pdma_channel_terminate ch (drv s) else Inr (drv s)) (\<lambda>p.
                      Inr (Some (ret, s\<lparr>drv := p, actor_mask := actor_mask s AND NOT (push_bit idx 1),
                                        pool_sem := pool_sem s + 1\<rparr>)))))))))"

definition nu_pdma_mempush ::
  "(int \<Rightarrow> memfun \<Rightarrow> memfun) \<Rightarrow> u32 list option \<Rightarrow> u32 \<Rightarrow> u32 \<Rightarrow> u32 \<Rightarrow> u32 \<Rightarrow> memfun
    \<Rightarrow> (nat \<times> memfun) option res" where
  "nu_pdma_mempush hw heap dest src width cnt s =
     (if width = 8 \<or> width = 16 \<or> width = 32 then nu_pdma_memfun hw heap dest src width cnt eMemCtl_SrcInc_DstFix s
      else Inr (Some (0, s)))"

text \<open>The loop over the widths 4, 2 and 1; the result is the destination, or NULL.\<close>

fun memcpy_widths ::
  "(int \<Rightarrow> memfun \<Rightarrow> memfun) \<Rightarrow> u32 list option \<Rightarrow> nat list \<Rightarrow> u32 \<Rightarrow> u32 \<Rightarrow> u32 \<Rightarrow> u32 \<Rightarrow> u32 \<Rightarrow> memfun
    \<Rightarrow> (u32 \<times> memfun) option res" where
  "memcpy_widths hw heap [] dest src cnt off rest s = Inr (Some (if cnt = off then dest else 0, s))"
| "memcpy_widths hw heap (i # is') dest src cnt off rest s =
     (let w = word_of_nat i; u32src = src + off; u32dest = dest + off
      in if rest = 0 then Inr (Some (if cnt = off then dest else 0, s))
         else if u32src mod w = u32dest mod w \<and> u32src mod w = 0 \<and> RT_ALIGN_DOWN rest w \<ge> w then
           let tx = rest div w
           in bind_res (nu_pdma_memfun hw heap u32dest u32src (w * 8) tx eMemCtl_SrcInc_DstInc s) (\<lambda>r.
              case r of None \<Rightarrow> Inr None
              | Some (n, s) \<Rightarrow>
                if n \<noteq> unat tx then Inr (Some (0, s))
                else memcpy_widths hw heap is' dest src cnt (off + tx * w) (rest - tx * w) s)
         else memcpy_widths hw heap is' dest src cnt off rest s)"

definition nu_pdma_memcpy ::
  "(int \<Rightarrow> memfun \<Rightarrow> memfun) \<Rightarrow> u32 list option \<Rightarrow> u32 \<Rightarrow> u32 \<Rightarrow> u32 \<Rightarrow> memfun \<Rightarrow> (u32 \<times> memfun) option res" where
  "nu_pdma_memcpy hw heap dest src cnt s = memcpy_widths hw heap [4, 2, 1] dest src cnt 0 cnt s"

end
