(* ===== verification/PdmaMem.thy ===== *)
theory PdmaMem
  imports PdmaIrq
begin

text \<open>
  Copies of memory by the PDMA controller, from end to end: \<^verbatim>\<open>nu_pdma_memcpy\<close>
  through the actors, the transfers, the controller and the interrupt back.
\<close>

section \<open>What a transfer leaves alone\<close>

definition chan_core :: "pdma_chn \<Rightarrow> pdma_chn" where
  "chan_core c = c\<lparr>m_u32IdleTimeout_us := 0\<rparr>"

definition flags :: "pdma_regs \<Rightarrow> u32 \<times> u32 \<times> u32 \<times> u32 \<times> u32" where
  "flags r = (SCATBA r, ABTSTS r, TDSTS r, ALIGN r, INTSTS r)"

definition pframe :: "pdma \<Rightarrow> pdma \<Rightarrow> bool" where
  "pframe p q \<longleftrightarrow> nu_pdma_inited q = nu_pdma_inited p \<and> nu_pdma_chn_mask_arr q = nu_pdma_chn_mask_arr p
     \<and> nu_pdma_sgtbl_token q = nu_pdma_sgtbl_token p \<and> sg_base q = sg_base p \<and> hclk q = hclk p
     \<and> length (nu_pdma_chn_arr q) = length (nu_pdma_chn_arr p) \<and> length (mods q) = length (mods p)
     \<and> (\<forall>ch. chan_core (chan q ch) = chan_core (chan p ch)) \<and> (\<forall>k. flags (mods q ! k) = flags (mods p ! k))"

lemma pframe_refl [simp]: "pframe p p"
  by (simp add: pframe_def)

lemma pframe_trans: "pframe p q \<Longrightarrow> pframe q r \<Longrightarrow> pframe p r"
  by (simp add: pframe_def)

lemma pframe_dsct: "pframe p (upd_dsct a f p)"
  by (simp add: pframe_def)

lemma pframe_mod: "(\<And>r. flags (f r) = flags r) \<Longrightarrow> pframe p (upd_mod m f p)"
proof -
  assume f: "\<And>r. flags (f r) = flags r"
  have "flags (mods (upd_mod m f p) ! k) = flags (mods p ! k)" for k
    by (cases "m < length (mods p)"; cases "k = m") (simp_all add: upd_mod_def list_update_beyond f)
  then show ?thesis by (simp add: pframe_def)
qed

lemma pframe_chan:
  assumes "\<And>c. chan_core (f c) = chan_core c"
  shows "pframe p (upd_chan ch f p)"
proof -
  have "chan_core (chan (upd_chan ch f p) k) = chan_core (chan p k)" for k
    by (cases "nat ch < length (nu_pdma_chn_arr p)"; cases "nat k = nat ch")
      (simp_all add: chan_def upd_chan_def list_update_beyond assms)
  then show ?thesis by (simp add: pframe_def)
qed

lemma pframe_calls: "pframe p (p\<lparr>calls := x\<rparr>)"
  by (simp add: pframe_def chan_def)

lemma pframe_timeout_set:
  assumes "nu_pdma_timeout_set ch us p = Inr (e, q)"
  shows "pframe p q"
proof -
  note ft = pframe_mod [of "TOUTEN_update _"] pframe_mod [of "TOUTIEN_update _"] pframe_mod [of "TOC_update _"]
    pframe_mod [of "TOUTPSC0_7_update _"] pframe_mod [of "TOUTPSC8_15_update _"]
  have fl: "flags (TOUTEN_update f r) = flags r" "flags (TOUTIEN_update f r) = flags r" "flags (TOC_update g r) = flags r"
    "flags (TOUTPSC0_7_update f r) = flags r" "flags (TOUTPSC8_15_update f r) = flags r" for f g r by (simp_all add: flags_def)
  have c: "pframe p (upd_chan ch (m_u32IdleTimeout_us_update (\<lambda>_. v)) p)" for v by (rule pframe_chan) (simp add: chan_core_def)
  have t: "pframe r (PDMA_SetTimeOut m k on cnt r)" for m k on cnt r
    unfolding PDMA_SetTimeOut_def Let_def by (cases on) (auto intro!: pframe_trans [OF ft(3) ft(1)] simp: fl)
  have d: "pframe r (PDMA_DisableTimeout m w r)" for m w r
    unfolding PDMA_DisableTimeout_def by (rule ft(1)) (simp add: fl)
  have i: "pframe r (PDMA_EnableInt ch PDMA_INT_TIMEOUT r)" "pframe r (PDMA_DisableInt ch PDMA_INT_TIMEOUT r)" for r
    by (auto intro: ft(2) simp: fl simp del: push_bit_of_1)
  have s: "pframe r (upd_mod m (TOUTPSC0_7_update f) r)" "pframe r (upd_mod m (TOUTPSC8_15_update f) r)" for m f r
    by (simp_all add: ft(4,5) fl)
  note I = pframe_trans [OF _ t] pframe_trans [OF _ d] pframe_trans [OF _ i(1)] pframe_trans [OF _ i(2)]
    pframe_trans [OF _ s(1)] pframe_trans [OF _ s(2)] c
  show ?thesis using assms unfolding nu_pdma_timeout_set_def
    by (auto simp: bind_res_eq_Inr Let_def simp del: PDMA_EnableInt.simps PDMA_DisableInt.simps push_bit_of_1 split: if_splits
      intro!: I)
qed

lemma pframe_start:
  assumes "pdma_start ch 0 head us p = Inr q"
  shows "pframe p q"
proof -
  have d: "pframe r (PDMA_DisableTimeout m w r)" for m w r
    unfolding PDMA_DisableTimeout_def by (rule pframe_mod) (simp add: flags_def)
  have i: "pframe r (PDMA_EnableInt ch PDMA_INT_TRANS_DONE r)" for r
    by (auto intro: pframe_mod simp: flags_def simp del: push_bit_of_1)
  have t: "pframe r (PDMA_SetTransferMode ch per sc a r)" for per sc a r
    unfolding PDMA_SetTransferMode_def Let_def
    by (auto intro!: pframe_trans [OF pframe_trans [OF pframe_mod pframe_dsct] pframe_dsct] pframe_trans [OF pframe_mod pframe_dsct] simp: flags_def)
  have g: "pframe r (PDMA_Trigger ch r)" for r
    unfolding PDMA_Trigger_def Let_def by (auto intro: pframe_mod simp: flags_def)
  from assms obtain e r where r: "nu_pdma_timeout_set ch us (PDMA_EnableInt ch PDMA_INT_TRANS_DONE
      (PDMA_DisableTimeout (NU_PDMA_GET_MOD_IDX ch) (push_bit (NU_PDMA_GET_MOD_CHIDX ch) 1) p)) = Inr (e, r)"
    "q = PDMA_Trigger ch (PDMA_SetTransferMode ch 0 (NEXT (dscts r head) \<noteq> 0) head r)"
    by (auto simp: pdma_start_def bind_res_eq_Inr Let_def simp del: PDMA_EnableInt.simps push_bit_of_1)
  show ?thesis unfolding r(2)
    by (rule pframe_trans [OF pframe_trans [OF pframe_trans [OF pframe_trans [OF d i] pframe_timeout_set [OF r(1)]] t] g])
qed

lemma pframe_transfer:
  assumes "nu_pdma_transfer ch heap width src dst cnt us p = Inr (e, q)" "cnt \<le> 0x10000" "m_u32Peripheral (chan p ch) = 0"
  shows "pframe p q"
proof -
  have n: "\<not> 0x10000 < cnt" using assms(2) by (simp add: not_less)
  have ds: "pframe p r" if "nu_pdma_desc_setup ch a w s d c nx si p = Inr (f, r)" for a w s d c nx si f r
    using that pframe_dsct by (auto simp: nu_pdma_desc_setup_def bind_res_eq_Inr split: if_splits)
  have cs: "m_u32Peripheral (chan r ch) = 0" if "pframe p r" for r
  proof -
    have "m_u32Peripheral (chan_core (chan r ch)) = m_u32Peripheral (chan_core (chan p ch))" using that by (simp add: pframe_def)
    then show ?thesis using assms(3) by (simp add: chan_core_def)
  qed
  have st: "pframe p r" if "pdma_start ch (m_u32Peripheral (chan r0 ch)) h us r0 = Inr r" "pframe p r0" for h r0 r
    using pframe_trans [OF that(2) pframe_start] that cs [OF that(2)] by simp
  show ?thesis using assms(1) n unfolding nu_pdma_transfer_def
    by (auto simp: bind_res_eq_Inr split: if_splits dest: ds intro: st)
qed

lemma pframe_ok:
  assumes "pframe p q" "pdma_ok p"
  shows "pdma_ok q" "chan_free q = chan_free p" "sg_free q = sg_free p"
proof -
  have "SCATBA (mods q ! k) = SCATBA (mods p ! k)" for k using assms(1) by (auto simp: pframe_def flags_def)
  then have "\<forall>r\<in>set (mods q). SCATBA r = sg_base q AND 0xFFFF0000"
    using assms nth_mem [of _ "mods p"] by (auto simp: in_set_conv_nth [of _ "mods q"] pframe_def pdma_ok_def)
  then show "pdma_ok q" using assms by (simp add: pdma_ok_def pframe_def chan_inv_def sg_inv_def sg_placed_def)
  show "chan_free q = chan_free p" "sg_free q = sg_free p" using assms by (simp_all add: pframe_def chan_free_def sg_free_def)
qed

section \<open>The end of a transfer\<close>

text \<open>The controller moves the items, one after the other, and raises the channel's transfer-done flag.\<close>

definition move_item :: "item \<Rightarrow> (u32 \<Rightarrow> u8) \<Rightarrow> (u32 \<Rightarrow> u8)" where
  "move_item x m = (case x of (s, d, w) \<Rightarrow> (\<lambda>a. if unat (a - d) < unat w then m (s + (a - d)) else m a))"

definition done_regs :: "nat \<Rightarrow> pdma_regs \<Rightarrow> pdma_regs" where
  "done_regs c r = r\<lparr>TDSTS := TDSTS r OR push_bit c 1, INTSTS := INTSTS r OR 2\<rparr>"

definition dma_done :: "nat \<Rightarrow> int \<Rightarrow> memfun \<Rightarrow> memfun" where
  "dma_done k ch s = s\<lparr>mem := fold move_item (channel_moves k ch (drv s)) (mem s),
     drv := upd_mod (NU_PDMA_GET_MOD_IDX ch) (done_regs (NU_PDMA_GET_MOD_CHIDX ch)) (drv s)\<rparr>"

definition idle_regs :: "pdma_regs \<Rightarrow> bool" where
  "idle_regs r \<longleftrightarrow> ABTSTS r = 0 \<and> TDSTS r = 0 \<and> ALIGN r = 0 \<and> INTSTS r AND 0xFFFF00 = 0"

lemma upd_mod_id: "(\<And>r. f r = r) \<Longrightarrow> upd_mod m f p = p"
  by (simp add: upd_mod_def)

lemma upd_mod_comp: "m < length (mods p) \<Longrightarrow> upd_mod m f (upd_mod m g p) = upd_mod m (\<lambda>r. f (g r)) p"
  by (simp add: upd_mod_def)

lemma irq_clear_done:
  assumes "r = mods q ! m" "ABTSTS r = 0" "ALIGN r = 0" "INTSTS r AND 0xFFFF00 = 0" "INTSTS r AND 2 \<noteq> 0"
  shows "irq_clear m q = upd_mod m (TDSTS_update (\<lambda>x. x AND NOT (TDSTS r))) q"
proof -
  have a: "upd_mod m (ABTSTS_update (\<lambda>x. x)) p = p" "upd_mod m (ALIGN_update (\<lambda>x. x)) p = p" for p
    by (rule upd_mod_id; simp)+
  show ?thesis using assms(2-5) by (simp add: irq_clear_def Let_def assms(1) [symmetric] a)
qed

lemma filter_single: "c < n \<Longrightarrow> filter (\<lambda>i. i = c) [0..<n] = [c]" for c n :: nat
proof -
  assume c: "c < n"
  have u: "[0..<n] = [0..<c] @ c # [Suc c..<n]"
    using c by (metis le0 less_imp_le_nat upt_add_eq_append upt_conv_Cons le_add_diff_inverse)
  have "filter (\<lambda>i. i = c) [0..<c] = []" "filter (\<lambda>i. i = c) [Suc c..<n] = []" by (auto simp: filter_empty_conv)
  then show ?thesis unfolding u by simp
qed

lemma irq_done:
  assumes "length (mods p) = 2" "m < 32" "m \<notin> chan_free p" "idle_regs (mods p ! (m div 16))"
    and h: "m_pfnCBHandler (m_sCB_Event (chan p (int m))) = Some h" "m_pvUserData (m_sCB_Event (chan p (int m))) = user"
    "m_pfnCBHandler (m_sCB_Disable (chan p (int m))) = None" "m_u32EventFilter (chan p (int m)) AND 2 \<noteq> 0"
  shows "\<exists>f. PDMA_IRQHandler log_call (m div 16) (upd_mod (m div 16) (done_regs (m mod 16)) p) =
      Inr ((upd_mod (m div 16) f p)\<lparr>calls := calls p @ [(h, user, 2)]\<rparr>)
    \<and> idle_regs (f (mods p ! (m div 16))) \<and> SCATBA (f (mods p ! (m div 16))) = SCATBA (mods p ! (m div 16))"
proof -
  let ?md = "m div 16" and ?c = "m mod 16"
  let ?R = "mods p ! ?md"
  let ?q = "upd_mod ?md (done_regs ?c) p"
  have ml: "?md < length (mods p)" using assms(1,2) by simp
  have id: "ABTSTS ?R = 0" "TDSTS ?R = 0" "ALIGN ?R = 0" "INTSTS ?R AND 0xFFFF00 = 0" using assms(4) by (simp_all add: idle_regs_def)
  have mq: "mods ?q ! ?md = done_regs ?c ?R" using ml by (simp add: upd_mod_def)
  define z where "z = irq_read (mods ?q ! ?md)"
  have z: "abtsts z = 0" "tdsts z = push_bit ?c 1" "unalignsts z = 0" "reqto_ch z = 0"
    using id by (simp_all add: z_def mq irq_read_def done_regs_def bit.conj_disj_distrib2)
  let ?f = "\<lambda>r. TDSTS_update (\<lambda>x. x AND NOT (TDSTS (done_regs ?c ?R))) (done_regs ?c r)"
  have "INTSTS (done_regs ?c ?R) AND 2 \<noteq> 0"
  proof
    assume "INTSTS (done_regs ?c ?R) AND 2 = 0"
    then have "(INTSTS ?R AND 2) OR 2 = 0" by (simp add: done_regs_def bit.conj_disj_distrib2)
    moreover have "bit ((INTSTS ?R AND 2) OR 2) 1" by (simp add: bit_or_iff)
    ultimately show False by simp
  qed
  then have cl: "irq_clear ?md ?q = upd_mod ?md ?f p"
    using irq_clear_done [of "done_regs ?c ?R" ?q ?md] id ml
    by (simp add: mq upd_mod_comp) (simp add: done_regs_def bit.conj_disj_distrib2)
  have fl: "filter (bit (allch_sts z)) [0..<16] = [?c]"
  proof -
    have b: "bit (allch_sts z) = (\<lambda>i. i = ?c \<and> i < 32)" by (auto simp: allch_sts_def z fun_eq_iff bit_push_one simp del: push_bit_of_1)
    have "filter (\<lambda>i. i = ?c \<and> i < 32) [0..<16] = filter (\<lambda>i. i = ?c) [0..<16]" by (rule filter_cong) auto
    then show ?thesis unfolding b using filter_single [of ?c 16] by simp
  qed
  have ev: "ch_event z ?c = 2"
    by (simp add: ch_event_def z Let_def NU_PDMA_EVENT_TRANSFER_DONE_def)
  have j: "int (?c + ?md * 16) = int m" by simp
  have "m \<notin> chan_free p" "?c + ?md * 16 = m" using assms(3) by simp_all
  then have mk: "nu_pdma_chn_mask_arr p ! ?md AND push_bit ?c 1 \<noteq> 0"
    using assms(2) by (simp add: chan_free_def word_and_push_one del: push_bit_of_1)
  have sv: "irq_serve log_call ?md z ?c (upd_mod ?md ?f p) = Inr ((upd_mod ?md ?f p)\<lparr>calls := calls p @ [(h, user, 2)]\<rparr>)"
    unfolding irq_serve_def Let_def j using mk h by (simp add: z(4) ev log_call_def del: push_bit_of_1)
  have "PDMA_IRQHandler log_call ?md ?q = irq_loop log_call ?md z (allch_sts z) (upd_mod ?md ?f p)"
    unfolding PDMA_IRQHandler_def Let_def cl z_def ..
  also have "\<dots> = Inr ((upd_mod ?md ?f p)\<lparr>calls := calls p @ [(h, user, 2)]\<rparr>)"
    unfolding irq_loop_all fl serve_all.simps sv by simp
  finally have "PDMA_IRQHandler log_call ?md ?q = \<dots>" .
  moreover have "idle_regs (?f ?R)" using id by (simp add: idle_regs_def done_regs_def bit.conj_disj_distrib2)
  moreover have "SCATBA (?f ?R) = SCATBA ?R" by (simp add: done_regs_def)
  ultimately show ?thesis by blast
qed

section \<open>One copy by an actor\<close>

text \<open>The state between copies: each actor has a channel of its own for memory to memory transfers, no
  actor's semaphore has a unit left, a bit is clear in the mask for each free actor and there is one.\<close>

definition actor_ok :: "pdma \<Rightarrow> int \<Rightarrow> bool" where
  "actor_ok p ch \<longleftrightarrow> 0 \<le> ch \<and> nat ch < NU_PDMA_CH_MAX \<and> nat ch \<notin> chan_free p
     \<and> m_u32Peripheral (chan p ch) = 0 \<and> m_pfnCBHandler (m_sCB_Disable (chan p ch)) = None"

definition memfun_inv :: "memfun \<Rightarrow> bool" where
  "memfun_inv s \<longleftrightarrow> pdma_ok (drv s) \<and> (\<forall>r\<in>set (mods (drv s)). idle_regs r)
     \<and> length (actor_sem s) = length (actor_arr s) \<and> (\<forall>v\<in>set (actor_sem s). v = 0)
     \<and> (\<forall>(ch, _)\<in>set (actor_arr s). actor_ok (drv s) ch)
     \<and> nu_cto (actor_mask s) < length (actor_arr s) \<and> length (actor_arr s) \<le> 32 \<and> 0 < pool_sem s"

lemma pdma_ok_chan: "pdma_ok (upd_chan ch f p) = pdma_ok p"
  by (simp add: pdma_ok_def chan_inv_def sg_inv_def sg_placed_def)

lemma pdma_ok_mod:
  assumes "pdma_ok p" "SCATBA (f (mods p ! m)) = SCATBA (mods p ! m)"
  shows "pdma_ok (upd_mod m f p)"
proof -
  have "\<forall>r\<in>set (mods (upd_mod m f p)). SCATBA r = sg_base p AND 0xFFFF0000"
  proof (cases "m < length (mods p)")
    case True
    then have "SCATBA (f (mods p ! m)) = sg_base p AND 0xFFFF0000" using assms by (simp add: pdma_ok_def)
    then show ?thesis using assms(1) set_update_subset_insert [of "mods p" m "f (mods p ! m)"] by (auto simp: upd_mod_def pdma_ok_def)
  qed (use assms(1) in \<open>simp add: upd_mod_def list_update_beyond pdma_ok_def\<close>)
  then show ?thesis using assms(1) by (simp add: pdma_ok_def chan_inv_def sg_inv_def sg_placed_def)
qed

lemma actor_ok_frame:
  assumes "pframe p q" "actor_ok p ch"
  shows "actor_ok q ch"
proof -
  have c: "chan_core (chan q ch) = chan_core (chan p ch)" using assms(1) by (simp add: pframe_def)
  have "m_u32Peripheral (chan q ch) = m_u32Peripheral (chan p ch)" "m_sCB_Disable (chan q ch) = m_sCB_Disable (chan p ch)"
    using arg_cong [OF c, of m_u32Peripheral] arg_cong [OF c, of m_sCB_Disable] by (simp_all add: chan_core_def)
  moreover have "chan_free q = chan_free p" using assms(1) by (simp add: pframe_def chan_free_def)
  ultimately show ?thesis using assms(2) by (simp add: actor_ok_def)
qed

lemma actor_ok_chan:
  assumes "\<And>c. m_u32Peripheral (f c) = m_u32Peripheral c" "\<And>c. m_sCB_Disable (f c) = m_sCB_Disable c" "actor_ok p ch"
  shows "actor_ok (upd_chan k f p) ch"
proof -
  have "chan (upd_chan k f p) ch = f (chan p ch) \<or> chan (upd_chan k f p) ch = chan p ch"
    by (cases "nat k < length (nu_pdma_chn_arr p)"; cases "nat k = nat ch") (simp_all add: chan_def upd_chan_def list_update_beyond)
  then show ?thesis using assms by (auto simp: actor_ok_def)
qed

lemma actor_ok_calls [simp]: "actor_ok (p\<lparr>calls := x\<rparr>) ch = actor_ok p ch"
  by (simp add: actor_ok_def chan_def chan_free_def)

lemma actor_ok_mod [simp]: "actor_ok (upd_mod m f p) ch = actor_ok p ch"
  by (simp add: actor_ok_def)

lemma memfun_setup:
  assumes "m < 32" "m \<notin> chan_free p" "m_u32Peripheral (chan p (int m)) = 0"
  shows "nu_pdma_channel_memctrl_set (int m) eMemCtl_SrcInc_DstInc p =
      Inr (RT_EOK, upd_chan (int m) (m_eMemCtl_update (\<lambda>_. eMemCtl_SrcInc_DstInc)) p)"
    "nu_pdma_filtering_set (int m) evs p = Inr (RT_EOK, upd_chan (int m) (m_u32EventFilter_update (\<lambda>_. evs)) p)"
    "m_eCBType cb = eCBType_Event \<Longrightarrow> nu_pdma_callback_register (int m) (Some cb) p =
      Inr (RT_EOK, upd_chan (int m) (cb_upd eCBType_Event (cb_store cb)) p)"
  using assms by (simp_all add: nu_pdma_channel_memctrl_set_def nu_pdma_filtering_set_def nu_pdma_callback_register_def
    check_nonallocated [OF assms(1)])

text \<open>The controller's part and the interrupt, as one step.\<close>

lemma dma_done_irq:
  assumes "length (mods (drv s)) = 2" "m < 32" "m \<notin> chan_free (drv s)" "idle_regs (mods (drv s) ! (m div 16))"
    and h: "m_pfnCBHandler (m_sCB_Event (chan (drv s) (int m))) = Some 1" "m_pvUserData (m_sCB_Event (chan (drv s) (int m))) = a"
    "m_pfnCBHandler (m_sCB_Disable (chan (drv s) (int m))) = None" "m_u32EventFilter (chan (drv s) (int m)) AND 2 \<noteq> 0"
  shows "\<exists>f. memfun_irq (m div 16) (dma_done k (int m) s) =
      Inr (nu_pdma_memfun_cb a 2 (s\<lparr>mem := fold move_item (channel_moves k (int m) (drv s)) (mem s),
        drv := (upd_mod (m div 16) f (drv s))\<lparr>calls := []\<rparr>\<rparr>))
    \<and> idle_regs (f (mods (drv s) ! (m div 16))) \<and> SCATBA (f (mods (drv s) ! (m div 16))) = SCATBA (mods (drv s) ! (m div 16))"
proof -
  let ?p = "(drv s)\<lparr>calls := []\<rparr>"
  have c: "chan ?p ch = chan (drv s) ch" "chan_free ?p = chan_free (drv s)" "mods ?p = mods (drv s)" for ch
    by (simp_all add: chan_def chan_free_def)
  have a2: "m_u32EventFilter (chan ?p (int m)) AND 2 \<noteq> 0" "idle_regs (mods ?p ! (m div 16))" "m \<notin> chan_free ?p" "length (mods ?p) = 2"
    using assms by (simp_all add: c)
  obtain f where f: "PDMA_IRQHandler log_call (m div 16) (upd_mod (m div 16) (done_regs (m mod 16)) ?p) =
      Inr ((upd_mod (m div 16) f ?p)\<lparr>calls := calls ?p @ [(1, a, 2)]\<rparr>)"
    "idle_regs (f (mods ?p ! (m div 16)))" "SCATBA (f (mods ?p ! (m div 16))) = SCATBA (mods ?p ! (m div 16))"
    using irq_done [OF a2(4) assms(2) a2(3) a2(2) _ _ _ a2(1)] h(1-3) by (auto simp: c)
  have d: "(upd_mod md g q)\<lparr>calls := x\<rparr> = upd_mod md g (q\<lparr>calls := x\<rparr>)" for md g q x by (simp add: upd_mod_def)
  have mi: "NU_PDMA_GET_MOD_IDX (int m) = m div 16" "NU_PDMA_GET_MOD_CHIDX (int m) = m mod 16" using assms(2) by simp_all
  have "memfun_irq (m div 16) (dma_done k (int m) s) =
      Inr (nu_pdma_memfun_cb a 2 (s\<lparr>mem := fold move_item (channel_moves k (int m) (drv s)) (mem s),
        drv := (upd_mod (m div 16) f (drv s))\<lparr>calls := []\<rparr>\<rparr>))"
    using f(1) by (simp add: memfun_irq_def dma_done_def mi d run_calls_def)
  then show ?thesis using f(2,3) by (auto simp: c)
qed

lemma idle_frame:
  assumes "pframe p q" "\<forall>r\<in>set (mods p). idle_regs r"
  shows "\<forall>r\<in>set (mods q). idle_regs r"
proof
  fix r assume "r \<in> set (mods q)"
  then obtain k where k: "k < length (mods q)" "r = mods q ! k" by (auto simp: in_set_conv_nth)
  then have "idle_regs (mods p ! k)" using assms by (simp add: pframe_def)
  moreover have "flags (mods q ! k) = flags (mods p ! k)" using assms(1) by (simp add: pframe_def)
  ultimately show "idle_regs r" using k(2) by (simp add: flags_def idle_regs_def)
qed

lemma memfun_run:
  assumes "nu_pdma_memfun_employ s = Some (a, s0)" "a < length (actor_arr s0)" "fst (actor_arr s0 ! a) = ch"
    "nu_pdma_channel_memctrl_set ch ctl (drv s0) = Inr (e1, p1)"
    "nu_pdma_filtering_set ch (NU_PDMA_EVENT_ABORT OR NU_PDMA_EVENT_TRANSFER_DONE) p1 = Inr (e2, p2)"
    "nu_pdma_callback_register ch (Some \<lparr>m_eCBType = eCBType_Event, m_pfnCBHandler = Some 1, m_pvUserData = a, m_u32Reserved = 0\<rparr>) p2 = Inr (e3, p3)"
    "nu_pdma_transfer ch heap width src dest cnt 0 p3 = Inr (e4, q)"
    "memfun_irq (NU_PDMA_GET_MOD_IDX ch) (hw ch (s0\<lparr>actor_arr := (actor_arr s0)[a := (ch, 0)], drv := q\<rparr>)) = Inr t"
    "actor_sem t ! a = 1" "snd (actor_arr t ! a) = 2"
  shows "nu_pdma_memfun hw heap dest src width cnt ctl s = Inr (Some (unat cnt,
    t\<lparr>actor_sem := (actor_sem t)[a := 0], actor_mask := actor_mask t AND NOT (push_bit a 1), pool_sem := pool_sem t + 1\<rparr>))"
  using assms by (simp add: nu_pdma_memfun_def Let_def NU_PDMA_EVENT_ABORT_def NU_PDMA_EVENT_TRANSFER_DONE_def del: push_bit_of_1)

lemma memfun_ok:
  assumes inv: "memfun_inv s" and w: "width = 8 \<or> width = 16 \<or> width = 32" "src mod (width div 8) = 0" "dest mod (width div 8) = 0"
    and c: "cnt \<noteq> 0" "cnt \<le> 0x10000"
  shows "\<exists>t. nu_pdma_memfun (dma_done k) heap dest src width cnt eMemCtl_SrcInc_DstInc s = Inr (Some (unat cnt, t))
    \<and> memfun_inv t \<and> mem t = fold move_item (map (want_item eMemCtl_SrcInc_DstInc width src dest) [0..<unat cnt]) (mem s)"
proof -
  let ?a = "nu_cto (actor_mask s)"
  have al: "?a < length (actor_arr s)" "length (actor_arr s) \<le> 32" "length (actor_sem s) = length (actor_arr s)"
    "0 < pool_sem s" "pdma_ok (drv s)" using inv by (simp_all add: memfun_inv_def)
  have s0: "actor_sem s ! ?a = 0" using inv al nth_mem [of ?a "actor_sem s"] by (auto simp: memfun_inv_def)
  obtain ch e where ce: "actor_arr s ! ?a = (ch, e)" by fastforce
  have "(ch, e) \<in> set (actor_arr s)" using al(1) ce nth_mem by metis
  then have ao: "actor_ok (drv s) ch" using inv by (auto simp: memfun_inv_def)
  define m where "m = nat ch"
  have m: "ch = int m" "m < 32" "m \<notin> chan_free (drv s)" "m_u32Peripheral (chan (drv s) (int m)) = 0"
    "m_pfnCBHandler (m_sCB_Disable (chan (drv s) (int m))) = None" using ao by (auto simp: actor_ok_def m_def)
  let ?cb = "\<lparr>m_eCBType = eCBType_Event, m_pfnCBHandler = Some 1, m_pvUserData = ?a, m_u32Reserved = 0\<rparr>"
  let ?p1 = "upd_chan (int m) (m_eMemCtl_update (\<lambda>_. eMemCtl_SrcInc_DstInc)) (drv s)"
  let ?p2 = "upd_chan (int m) (m_u32EventFilter_update (\<lambda>_. NU_PDMA_EVENT_ABORT OR NU_PDMA_EVENT_TRANSFER_DONE)) ?p1"
  let ?p3 = "upd_chan (int m) (cb_upd eCBType_Event (cb_store ?cb)) ?p2"
  have ln: "nat (int m) < length (nu_pdma_chn_arr (drv s))"
    using pdma_ok_parts(1) [OF al(5)] m(2) by (simp add: chan_inv_def)
  have cc: "cb_upd eCBType_Event (cb_store ?cb) c = c\<lparr>m_sCB_Event := cb_store ?cb (m_sCB_Event c)\<rparr>" for c by simp
  have c3: "m_eMemCtl (chan ?p3 (int m)) = eMemCtl_SrcInc_DstInc" "m_u32Peripheral (chan ?p3 (int m)) = 0"
    "m_pfnCBHandler (m_sCB_Event (chan ?p3 (int m))) = Some 1" "m_pvUserData (m_sCB_Event (chan ?p3 (int m))) = ?a"
    "m_pfnCBHandler (m_sCB_Disable (chan ?p3 (int m))) = None" "m_u32EventFilter (chan ?p3 (int m)) = 3"
    using ln m(4,5) by (simp_all add: cb_store_def NU_PDMA_EVENT_ABORT_def NU_PDMA_EVENT_TRANSFER_DONE_def)
  have o3: "pdma_ok ?p3" "m \<notin> chan_free ?p3" using al(5) m(3) by (simp_all add: pdma_ok_chan)
  have "xfer_ok m heap width src dest cnt ?p3" unfolding xfer_ok_def using o3 m(2) w c by (auto simp: not_less)
  from basic_moves [OF this c(2), of 0 k] obtain q where q: "nu_pdma_transfer (int m) heap width src dest cnt 0 ?p3 = Inr (RT_EOK, q)"
    "channel_moves k (int m) q = map (want_item eMemCtl_SrcInc_DstInc width src dest) [0..<unat cnt]" unfolding c3(1) by blast
  have fr: "pframe ?p3 q" by (rule pframe_transfer [OF q(1) c(2) c3(2)])
  have oq: "pdma_ok q" "m \<notin> chan_free q" using pframe_ok [OF fr o3(1)] o3(2) by simp_all
  have cq: "chan_core (chan q (int m)) = chan_core (chan ?p3 (int m))" using fr by (simp add: pframe_def)
  have hq: "m_pfnCBHandler (m_sCB_Event (chan q (int m))) = Some 1" "m_pvUserData (m_sCB_Event (chan q (int m))) = ?a"
    "m_pfnCBHandler (m_sCB_Disable (chan q (int m))) = None" "m_u32EventFilter (chan q (int m)) AND 2 \<noteq> 0"
    using arg_cong [OF cq, of m_sCB_Event] arg_cong [OF cq, of m_sCB_Disable] arg_cong [OF cq, of m_u32EventFilter] c3(3-6)
    by (simp_all add: chan_core_def)
  have i3: "\<forall>r\<in>set (mods ?p3). idle_regs r" using inv by (simp add: memfun_inv_def)
  have iq: "\<forall>r\<in>set (mods q). idle_regs r" by (rule idle_frame [OF fr i3])
  have l2: "length (mods q) = 2" by (rule pdma_ok_parts(5) [OF oq(1)])
  have md: "m div 16 < 2" using m(2) by simp
  have im: "idle_regs (mods q ! (m div 16))" using iq l2 md by simp
  let ?s1 = "s\<lparr>pool_sem := pool_sem s - 1, actor_mask := actor_mask s OR push_bit ?a 1, actor_arr := (actor_arr s)[?a := (ch, 0)], drv := q\<rparr>"
  from dma_done_irq [of ?s1 m ?a k] obtain f where f:
    "memfun_irq (m div 16) (dma_done k (int m) ?s1) = Inr (nu_pdma_memfun_cb ?a 2 (?s1\<lparr>mem := fold move_item (channel_moves k (int m) q) (mem s),
        drv := (upd_mod (m div 16) f q)\<lparr>calls := []\<rparr>\<rparr>))"
    "idle_regs (f (mods q ! (m div 16)))" "SCATBA (f (mods q ! (m div 16))) = SCATBA (mods q ! (m div 16))"
    using l2 m(2) oq(2) im hq by auto
  let ?p = "(upd_mod (m div 16) f q)\<lparr>calls := []\<rparr>"
  let ?t = "s\<lparr>actor_arr := (actor_arr s)[?a := (ch, 2)], drv := ?p, mem := fold move_item (channel_moves k (int m) q) (mem s)\<rparr>"
  have sm: "(actor_sem s)[?a := 0] = actor_sem s" using s0 by (metis list_update_id)
  have mk: "(actor_mask s OR push_bit ?a 1) AND NOT (push_bit ?a 1) = actor_mask s"
    using nu_cto_bit [of "actor_mask s"] al by (intro word_bit_eqI32) (auto simp: bit_simps)
  have n32: "?a \<noteq> 32" using al by simp
  have e: "nu_pdma_memfun_employ s = Some (?a, s\<lparr>pool_sem := pool_sem s - 1, actor_mask := actor_mask s OR push_bit ?a 1\<rparr>)"
    using al(4) n32 by (simp add: nu_pdma_memfun_employ_def Let_def del: push_bit_of_1)
  have mi: "NU_PDMA_GET_MOD_IDX (int m) = m div 16" using m(2) by simp
  define u where "u = nu_pdma_memfun_cb ?a 2 (?s1\<lparr>mem := fold move_item (channel_moves k (int m) q) (mem s), drv := ?p\<rparr>)"
  have u: "actor_sem u = (actor_sem s)[?a := 1]" "actor_arr u = (actor_arr s)[?a := (ch, 2)]" "drv u = ?p"
    "mem u = fold move_item (channel_moves k (int m) q) (mem s)" "actor_mask u = actor_mask s OR push_bit ?a 1" "pool_sem u = pool_sem s - 1"
    using s0 al(1) by (simp_all add: u_def nu_pdma_memfun_cb_def)
  let ?t = "u\<lparr>actor_sem := (actor_sem u)[?a := 0], actor_mask := actor_mask u AND NOT (push_bit ?a 1), pool_sem := pool_sem u + 1\<rparr>"
  have r: "nu_pdma_memfun (dma_done k) heap dest src width cnt eMemCtl_SrcInc_DstInc s = Inr (Some (unat cnt, ?t))"
  proof (rule memfun_run [OF e, of "int m" _ RT_EOK ?p1 RT_EOK ?p2 RT_EOK ?p3])
    show "nu_pdma_transfer (int m) heap width src dest cnt 0 ?p3 = Inr (RT_EOK, q)" by (rule q(1))
    show "memfun_irq (NU_PDMA_GET_MOD_IDX (int m)) (dma_done k (int m) (s\<lparr>pool_sem := pool_sem s - 1, actor_mask := actor_mask s OR push_bit ?a 1\<rparr>
        \<lparr>actor_arr := (actor_arr (s\<lparr>pool_sem := pool_sem s - 1, actor_mask := actor_mask s OR push_bit ?a 1\<rparr>))[?a := (int m, 0)], drv := q\<rparr>)) = Inr u"
      using f(1) by (simp add: mi u_def m(1) del: push_bit_of_1)
  qed (use m ln al ce u in \<open>simp_all add: memfun_setup\<close>)
  have ap: "actor_ok ?p ch'" if "(ch', e') \<in> set (actor_arr s)" for ch' e'
  proof -
    have "actor_ok (drv s) ch'" using inv that by (auto simp: memfun_inv_def)
    then have "actor_ok ?p3 ch'" by (intro actor_ok_chan) simp_all
    then show ?thesis using actor_ok_frame [OF fr] by simp
  qed
  have aq: "\<forall>(ch', e')\<in>set (actor_arr u). actor_ok ?p ch'"
    using ap set_update_subset_insert [of "actor_arr s" ?a "(ch, 2)"] \<open>(ch, e) \<in> set (actor_arr s)\<close> by (auto simp: u(2))
  have ip: "\<forall>r\<in>set (mods ?p). idle_regs r"
    using iq f(2) set_update_subset_insert [of "mods q" "m div 16" "f (mods q ! (m div 16))"] by (auto simp: upd_mod_def)
  have op: "pdma_ok ?p"
    using pdma_ok_mod [OF oq(1), of f "m div 16"] f(3) by (simp add: pdma_ok_def chan_inv_def sg_inv_def sg_placed_def)
  have "memfun_inv ?t"
    using aq ip op inv al sm mk by (auto simp: memfun_inv_def u)
  moreover have "mem ?t = fold move_item (map (want_item eMemCtl_SrcInc_DstInc width src dest) [0..<unat cnt]) (mem s)"
    by (simp add: u q(2))
  ultimately show ?thesis using r by blast
qed


end
