(* ===== verification/PdmaProps.thy ===== *)
theory PdmaProps
  imports PdmaMoves
begin

text \<open>
  What holds of the PDMA driver, and where it does not do what it means to: initialisation, transfers of
  any length, the two pools, failures, the idle time-out.
\<close>

section \<open>Initialisation\<close>

lemma fold_dsct_frame:
  "fold (\<lambda>i. upd_dsct (f i) (g i)) xs p = p\<lparr>dscts := dscts (fold (\<lambda>i. upd_dsct (f i) (g i)) xs p)\<rparr>"
proof (induction xs arbitrary: p)
  case (Cons x xs)
  show ?case using Cons [of "upd_dsct (f x) (g x) p"] by (simp add: upd_dsct_def)
qed simp

lemma PDMA_Open_frame: "\<exists>d. PDMA_Open i w p = upd_mod i (CHCTL_update (\<lambda>x. x OR w)) (p\<lparr>dscts := d\<rparr>)"
proof -
  let ?f = "\<lambda>k p. if push_bit k 1 AND w \<noteq> 0 then upd_dsct (dsct_reg (int (i * 16 + k))) (CTL_update (\<lambda>_. 0)) p else p"
  have "\<exists>d. fold ?f xs p = p\<lparr>dscts := d\<rparr>" for xs and p :: pdma
  proof (induction xs arbitrary: p)
    case (Cons x xs)
    obtain d where "fold ?f xs (?f x p) = (?f x p)\<lparr>dscts := d\<rparr>" using Cons by blast
    then show ?case by (cases "push_bit x 1 AND w \<noteq> 0") (auto simp: upd_dsct_def simp del: push_bit_of_1)
  next
    case Nil
    show ?case by (intro exI [of _ "dscts p"]) simp
  qed
  then show ?thesis unfolding PDMA_Open_def Let_def by metis
qed

lemma init_mod_facts:
  "\<exists>d. nu_pdma_init_mod i p = upd_mod i (\<lambda>_. (reset_regs p)\<lparr>CHCTL := 0, SCATBA := sg_base p AND 0xFFFF0000\<rparr>)
     (p\<lparr>nu_pdma_chn_mask_arr := (nu_pdma_chn_mask_arr p)[i := NOT 0xFFFF], dscts := d\<rparr>)" if "i < length (mods p)"
proof -
  let ?p = "upd_mod i (\<lambda>_. reset_regs p) (p\<lparr>nu_pdma_chn_mask_arr := (nu_pdma_chn_mask_arr p)[i := NOT 0xFFFF]\<rparr>)"
  obtain d where d: "PDMA_Open i 0xFFFF ?p = upd_mod i (CHCTL_update (\<lambda>x. x OR 0xFFFF)) (?p\<lparr>dscts := d\<rparr>)"
    using PDMA_Open_frame by blast
  have e: "CHCTL_update (\<lambda>_. 0) (CHCTL_update g r) = r\<lparr>CHCTL := 0\<rparr>" for g r by (cases r) simp
  show ?thesis unfolding nu_pdma_init_mod_def Let_def PDMA_Close_def using that d
    by (intro exI [of _ d]) (simp add: upd_mod_def e)
qed

lemma nu_pdma_init_form:
  assumes "\<not> nu_pdma_inited p" "length (nu_pdma_chn_mask_arr p) = 2" "length (mods p) = 2"
  obtains d where "nu_pdma_init p = p\<lparr>nu_pdma_chn_arr := replicate 32 chn_zero, nu_pdma_chn_mask_arr := [NOT 0xFFFF, NOT 0xFFFF],
    dscts := d, mods := [(reset_regs p)\<lparr>CHCTL := 0, SCATBA := sg_base p AND 0xFFFF0000\<rparr>,
      (reset_regs p)\<lparr>CHCTL := 0, SCATBA := sg_base p AND 0xFFFF0000\<rparr>],
    nu_pdma_sgtbl_token := [0xFFFFFFFF], nu_pdma_inited := True\<rparr>"
proof -
  obtain a b where ab: "nu_pdma_chn_mask_arr p = [a, b]" using assms(2) by (auto simp: numeral_2_eq_2 length_Suc_conv)
  obtain r t where rt: "mods p = [r, t]" using assms(3) by (auto simp: numeral_2_eq_2 length_Suc_conv)
  let ?d = "fold (\<lambda>i. upd_dsct (sgtbl_at p i) (\<lambda>_. dsct_zero)) [0..<32] p"
  let ?p1 = "?d\<lparr>nu_pdma_chn_arr := replicate 32 chn_zero\<rparr>"
  have p1: "?p1 = p\<lparr>dscts := dscts ?d, nu_pdma_chn_arr := replicate 32 chn_zero\<rparr>"
    by (subst fold_dsct_frame) simp
  let ?R = "(reset_regs p)\<lparr>CHCTL := 0, SCATBA := sg_base p AND 0xFFFF0000\<rparr>"
  have m1: "mods ?p1 = [r, t]" "nu_pdma_chn_mask_arr ?p1 = [a, b]" "reset_regs ?p1 = reset_regs p" "sg_base ?p1 = sg_base p"
    unfolding p1 by (simp_all add: rt ab)
  obtain d1 where d1: "nu_pdma_init_mod 0 ?p1 = ?p1\<lparr>nu_pdma_chn_mask_arr := [NOT 0xFFFF, b], dscts := d1, mods := [?R, t]\<rparr>"
    using init_mod_facts [of 0 ?p1] m1 by (auto simp: upd_mod_def)
  let ?p2 = "?p1\<lparr>nu_pdma_chn_mask_arr := [NOT 0xFFFF, b], dscts := d1, mods := [?R, t]\<rparr>"
  obtain d2 where d2: "nu_pdma_init_mod 1 ?p2 = ?p2\<lparr>nu_pdma_chn_mask_arr := [NOT 0xFFFF, NOT 0xFFFF], dscts := d2, mods := [?R, ?R]\<rparr>"
    using init_mod_facts [of 1 ?p2] m1 by (auto simp: upd_mod_def)
  have "nu_pdma_init p = p\<lparr>nu_pdma_chn_arr := replicate 32 chn_zero, nu_pdma_chn_mask_arr := [NOT 0xFFFF, NOT 0xFFFF],
      dscts := d2, mods := [?R, ?R], nu_pdma_sgtbl_token := [0xFFFFFFFF], nu_pdma_inited := True\<rparr>"
  proof -
    have "[0..<2] = [0, Suc 0]" by (simp add: upt_rec)
    then show ?thesis using assms(1) d1 d2 by (simp add: nu_pdma_init_def Let_def p1)
  qed
  then show thesis by (rule that)
qed

lemma nu_pdma_init_ok:
  assumes "\<not> nu_pdma_inited p" "length (nu_pdma_chn_mask_arr p) = 2" "length (mods p) = 2" "sg_placed p"
  shows "pdma_ok (nu_pdma_init p) \<and> chan_free (nu_pdma_init p) = {..<NU_PDMA_CH_MAX}
    \<and> sg_free (nu_pdma_init p) = {..<NU_PDMA_SGTBL_POOL_SIZE}
    \<and> (\<forall>ch. nat ch < NU_PDMA_CH_MAX \<longrightarrow> chan (nu_pdma_init p) ch = chn_zero)"
proof -
  obtain d2 where e: "nu_pdma_init p = p\<lparr>nu_pdma_chn_arr := replicate 32 chn_zero, nu_pdma_chn_mask_arr := [NOT 0xFFFF, NOT 0xFFFF],
    dscts := d2, mods := [(reset_regs p)\<lparr>CHCTL := 0, SCATBA := sg_base p AND 0xFFFF0000\<rparr>,
      (reset_regs p)\<lparr>CHCTL := 0, SCATBA := sg_base p AND 0xFFFF0000\<rparr>],
    nu_pdma_sgtbl_token := [0xFFFFFFFF], nu_pdma_inited := True\<rparr>" (is "_ = ?q")
    by (rule nu_pdma_init_form [OF assms(1-3)])
  have bits: "bit (NOT 0xFFFF :: u32) i \<longleftrightarrow> 16 \<le> i \<and> i < 32" "bit (0xFFFFFFFF :: u32) i \<longleftrightarrow> i < 32" for i
  proof -
    have m: "(0xFFFF :: u32) = mask 16" "(0xFFFFFFFF :: u32) = mask 32" by (simp_all add: mask_eq_exp_minus_1)
    show "bit (NOT 0xFFFF :: u32) i \<longleftrightarrow> 16 \<le> i \<and> i < 32" "bit (0xFFFFFFFF :: u32) i \<longleftrightarrow> i < 32"
      unfolding m by (auto simp: bit_simps)
  qed
  have n: "NOT 0xFFFF = (- 65536 :: u32)" by simp
  have b3: "bit (- 65536 :: u32) i \<longleftrightarrow> 16 \<le> i \<and> i < 32" for i using bits(1) [of i] unfolding n .
  have "sg_placed ?q" using assms(4) by (simp add: sg_placed_def)
  moreover have "chan_inv ?q"
    unfolding chan_inv_def using b3 by (intro conjI ballI allI impI) (simp_all, blast)
  moreover have "chan_free ?q = {..<32}"
  proof -
    have "i \<in> chan_free ?q \<longleftrightarrow> i < 32" for i
      using b3 [of i] b3 [of "i - 16"] by (subst chan_free_masks [of _ "NOT 0xFFFF" "NOT 0xFFFF"]) (simp, auto)
    then show ?thesis by auto
  qed
  moreover have "sg_free ?q = {..<32}"
  proof -
    have "i \<in> sg_free ?q \<longleftrightarrow> i < 32" for i using bits(2) [of i] by (simp add: sg_free_def)
    then show ?thesis by auto
  qed
  ultimately show ?thesis unfolding e by (simp add: pdma_ok_def sg_inv_def chan_def)
qed

text \<open>\<^verbatim>\<open>nu_pdma_init\<close> sets the driver up whatever state it is
  in: every channel is free and blank, every scatter-gather descriptor is free, the two modules agree on the
  table base, the upper halves of the channel masks are taken; and a second call does nothing.\<close>

lemma nu_pdma_init_correct:
  assumes "\<not> nu_pdma_inited p" "length (nu_pdma_chn_mask_arr p) = PDMA_CNT" "length (mods p) = PDMA_CNT" "sg_placed p"
  shows "pdma_ok (nu_pdma_init p) \<and> chan_free (nu_pdma_init p) = {..<NU_PDMA_CH_MAX}
    \<and> sg_free (nu_pdma_init p) = {..<NU_PDMA_SGTBL_POOL_SIZE}
    \<and> (\<forall>ch. nat ch < NU_PDMA_CH_MAX \<longrightarrow> chan (nu_pdma_init p) ch = chn_zero)
    \<and> nu_pdma_init (nu_pdma_init p) = nu_pdma_init p"
proof -
  note i = nu_pdma_init_ok [OF assms]
  then have "nu_pdma_inited (nu_pdma_init p)" by (simp add: pdma_ok_def chan_inv_def)
  then have "nu_pdma_init (nu_pdma_init p) = nu_pdma_init p" by (simp add: nu_pdma_init_def [of "nu_pdma_init p"])
  with i show ?thesis by blast
qed

section \<open>Transfers\<close>


text \<open>For more than 65536 items and a multiple of 65536 the chain has one descriptor
  too many.  It is set up for no items, which the controller reads as 65536: the transfer goes on for another
  65536 items past the end of both areas.\<close>

lemma nu_pdma_transfer_overruns:
  assumes "xfer_ok m heap width src dst cnt p" "0x10000 < cnt" "unat cnt mod 65536 = 0"
  shows "\<exists>q. nu_pdma_transfer (int m) heap width src dst cnt us p = Inr (RT_EOK, q)
    \<and> channel_moves (chain_len cnt + k) (int m) q =
        map (want_item (m_eMemCtl (chan p (int m))) width src dst) [0..<unat cnt + 65536]"
  using chain_moves [OF assms(1,2), of us k] assms(3) by simp

lemma dsct_upd:
  "CTL (d\<lparr>CTL := x\<rparr>) = x" "SA (d\<lparr>CTL := x\<rparr>) = SA d" "DA (d\<lparr>CTL := x\<rparr>) = DA d" "NEXT (d\<lparr>CTL := x\<rparr>) = NEXT d"
  by simp_all

lemma mode_moves:
  "dsct_moves (d\<lparr>CTL := (CTL d AND NOT 3) OR 1\<rparr>) = dsct_moves d" "((x::u32) AND NOT 3 OR 1) AND 3 = 1"
proof -
  have a: "(CTL d AND NOT 3 OR 1) AND 0x3000 = CTL d AND 0x3000" "(CTL d AND NOT 3 OR 1) AND 0x300 = CTL d AND 0x300"
    "(CTL d AND NOT 3 OR 1) AND 0xC00 = CTL d AND 0xC00"
    by (simp_all add: bit.conj_disj_distrib2 and.assoc)
  have m: "(3 :: u32) = mask 2" by (simp add: mask_eq_exp_minus_1)
  have b: "drop_bit 16 (CTL d AND NOT 3 OR 1) = drop_bit 16 (CTL d)"
    unfolding m by (rule word_bit_eqI32) (auto simp: bit_simps dest: bit_imp_le_length)
  have i: "dsct_bytes (d\<lparr>CTL := (CTL d AND NOT 3) OR 1\<rparr>) = dsct_bytes d" "dsct_count (d\<lparr>CTL := (CTL d AND NOT 3) OR 1\<rparr>) = dsct_count d"
    unfolding dsct_bytes_def dsct_count_def dsct_upd a b by (rule refl)+
  show "dsct_moves (d\<lparr>CTL := (CTL d AND NOT 3) OR 1\<rparr>) = dsct_moves d"
    unfolding dsct_moves_def i dsct_item_def dsct_upd a ..
  have "(x AND NOT 3) AND 3 = 0" by (simp add: and.assoc)
  then show "(x AND NOT 3 OR 1) AND 3 = 1" by (simp add: bit.conj_disj_distrib2)
qed

lemma sgtbl_in_page:
  assumes "sg_placed p" "i < 32"
  shows "sg_base p AND 0xFFFF0000 \<le> sgtbl_at p i" "sgtbl_at p i - (sg_base p AND 0xFFFF0000) < 0x10000"
proof -
  let ?s = "sg_base p AND 0xFFFF0000"
  let ?o = "word_of_nat (unat (sg_base p) mod 65536 + 16 * i) :: u32"
  have u: "unat ?o = unat (sg_base p) mod 65536 + 16 * i"
    by (rule unat_of_small) (use assms in \<open>simp add: sg_placed_def\<close>)
  note o = sgtbl_offset(1) [OF assms]
  show "sgtbl_at p i - ?s < 0x10000" unfolding o word_less_nat_alt u using assms by (simp add: sg_placed_def)
  have l: "unat (sgtbl_at p i) = unat (sg_base p) + 16 * i" by (rule sgtbl_unat [OF assms])
  have "sg_base p = ?s + word_of_nat (unat (sg_base p) mod 65536)"
    using sgtbl_offset(1) [of p 0] assms(1) by (simp add: sgtbl_at_def algebra_simps)
  show "?s \<le> sgtbl_at p i"
  proof (rule ccontr)
    assume n: "\<not> ?s \<le> sgtbl_at p i"
    have "unat (sgtbl_at p i - ?s) = unat (sg_base p) mod 65536 + 16 * i" unfolding o by (rule u)
    moreover have "unat (sgtbl_at p i - ?s) = unat (sgtbl_at p i) + 2 ^ 32 - unat ?s"
      using n by (simp add: unat_sub_if_size word_le_nat_alt word_size)
    moreover have "unat ?s \<le> unat (sg_base p)"
      by (metis and.commute word_and_le1 word_le_nat_alt)
    ultimately show False using l assms by (simp add: sg_placed_def)
  qed
qed

text \<open>A scatter-gather list of one descriptor is never loaded.
  \<^verbatim>\<open>nu_pdma_sg_transfer\<close> accepts it, reports success and starts whatever the channel's
  own registers hold: what the controller moves does not depend on the list.\<close>

lemma nu_pdma_sg_transfer_stale:
  assumes "pdma_ok p" "m < NU_PDMA_CH_MAX" "m \<notin> chan_free p" "i < NU_PDMA_SGTBL_POOL_SIZE"
    and "NEXT (dscts p (sgtbl_at p i)) = 0" "0 < n"
  shows "\<exists>q. nu_pdma_sg_transfer n (int m) (sgtbl_at p i) us p = Inr (RT_EOK, q)
    \<and> channel_moves k (int m) q = dsct_moves (dscts p (dsct_reg (int m)))"
proof -
  note ok = pdma_ok_parts [OF assms(1)]
  let ?r = "dsct_reg (int m)"
  let ?h = "sgtbl_at p i"
  have s0: "SCATBA (mods p ! 0) = sg_base p AND 0xFFFF0000" using ok(6) [of 0] by simp
  note pg = sgtbl_in_page [OF ok(3) assms(4)]
  obtain n' where n: "n = Suc n'" using assms(6) by (cases n) auto
  have v: "nu_pdma_sgtbls_valid n ?h p = Inr RT_EOK"
    using pg assms(5) by (simp add: nu_pdma_sgtbls_valid_def n s0 Let_def not_less not_le)
  obtain q where q: "pdma_start (int m) (m_u32Peripheral (chan p (int m))) ?h us p = Inr q"
    "dscts q = (dscts p)(?r := (if NEXT (dscts p ?h) = 0
       then (dscts p ?r)\<lparr>CTL := (CTL (dscts p ?r) AND NOT 3) OR 1\<rparr>
       else (dscts p ?r)\<lparr>CTL := (CTL (dscts p ?r) AND NOT 3) OR 2, NEXT := ?h - SCATBA (mods p ! (m div 16))\<rparr>))"
    by (rule pdma_start_ok [OF assms(2,3) ok(4)]) blast
  have d: "dscts q ?r = (dscts p ?r)\<lparr>CTL := (CTL (dscts p ?r) AND NOT 3) OR 1\<rparr>" using q(2) assms(5) by simp
  have "channel_moves k (int m) q = dsct_moves (dscts p ?r)"
    unfolding channel_moves_def Let_def d dsct_upd mode_moves by simp
  moreover have "nu_pdma_sg_transfer n (int m) ?h us p = Inr (RT_EOK, q)"
    using v q(1) sgtbl_not_null [OF ok(3) assms(4)] assms(3)
    by (simp add: nu_pdma_sg_transfer_def check_nonallocated [OF assms(2)])
  ultimately show ?thesis by blast
qed

section \<open>Failures\<close>

text \<open>When there is no memory for the array of a chain the transfer fails and records
  the length of the chain on the channel all the same.  The next transfer of that length finds the length
  already there, allocates nothing, and follows the NULL array: whatever memory there is by then.\<close>

lemma nu_pdma_transfer_oom:
  assumes "xfer_ok m heap width src dst cnt p" "0x10000 < cnt"
  shows "\<exists>q. nu_pdma_transfer (int m) None width src dst cnt us p = Inr (- RT_ERROR, q)
    \<and> (\<forall>heap' src' dst' us'. nu_pdma_transfer (int m) heap' width src' dst' cnt us' q = Inl NullDeref)"
proof -
  have h: "m < 32" "m \<notin> chan_free p" "cnt \<noteq> 0" "pdma_ok p" "m_u32WantedSGTblNum (chan p (int m)) = 0"
    using assms by (simp_all add: xfer_ok_def)
  have lc: "nat (int m) < length (nu_pdma_chn_arr p)"
    using pdma_ok_parts(1) [OF h(4)] h(1) by (simp add: chan_inv_def)
  define w where "w = Suc (unat cnt div 65536)"
  let ?q = "upd_chan (int m) (\<lambda>c. c\<lparr>m_u32WantedSGTblNum := w, m_ppsSgtbl := None\<rparr>) p"
  have c: "m_u32WantedSGTblNum (chan ?q (int m)) = w" "m_ppsSgtbl (chan ?q (int m)) = None" using lc by simp_all
  have f: "m \<notin> chan_free ?q" using h(2) by simp
  have g: "nu_pdma_channel_memctrl_get (int m) r = Inr (m_eMemCtl (chan r (int m)))" if "m \<notin> chan_free r" for r
    using that by (simp add: nu_pdma_channel_memctrl_get_def check_nonallocated [OF h(1)])
  have fq: "pdma_free_sgtbls (int m) ?q = Inr ?q" unfolding pdma_free_sgtbls_def c by simp
  have ns: "chain_setup (int m) width s d ctl None 0 w cnt 0 r = Inl NullDeref" for s d ctl r by (simp add: w_def)
  have p1: "chain_prepare (int m) None cnt p = Inr (RT_ERROR, ?q)" using h(5) by (simp add: chain_prepare_def Let_def w_def)
  have p2: "chain_prepare (int m) heap' cnt ?q = Inr (RT_EOK, ?q)" for heap' using c unfolding w_def by (simp add: chain_prepare_def Let_def)
  have "nu_pdma_transfer (int m) None width src dst cnt us p = Inr (- RT_ERROR, ?q)"
    using assms(2) h(2,3) by (simp add: nu_pdma_transfer_def check_nonallocated [OF h(1)] pdma_transfer_chain_def g p1 Let_def fq)
  moreover have "nu_pdma_transfer (int m) heap' width src' dst' cnt us' ?q = Inl NullDeref" for heap' src' dst' us'
    using assms(2) f h(3) by (simp add: ns nu_pdma_transfer_def check_nonallocated [OF h(1)] pdma_transfer_chain_def g p2 Let_def c
      del: upd_chan_simps)
  ultimately show ?thesis by blast
qed

text \<open>Freeing a channel that holds a chain does not give its descriptors back, and the
  next allocation that gets the channel forgets them: the pool is as short of descriptors afterwards as it was
  before, and nothing refers to them any more.\<close>

lemma nu_pdma_channel_free_leaks:
  assumes "pdma_ok p" "m < NU_PDMA_CH_MAX" "\<forall>k\<in>chan_free p. m < k" "nu_pdma_peripheral_set typ = Some k"
    "m_ppsSgtbl (chan p (int m)) = Some sg"
  shows "\<exists>q r. nu_pdma_channel_free (int m) p = Inr (RT_EOK, q) \<and> nu_pdma_channel_allocate typ q = Inr (int m, r)
    \<and> m_ppsSgtbl (chan r (int m)) = None \<and> sg_free r = sg_free p"
proof -
  note ok = pdma_ok_parts [OF assms(1)]
  have nf: "m \<notin> chan_free p" using assms(3) by auto
  let ?q = "chan_put m p"
  have fr: "nu_pdma_channel_free (int m) p = Inr (RT_EOK, ?q)"
    using channel_free [OF ok(1) assms(2) nf] by (simp add: chan_put_def)
  have q: "chan_inv ?q" "chan_free ?q = insert m (chan_free p)" using chan_put_ok [OF ok(1) assms(2) nf] by simp_all
  have "finite (chan_free p)" by (simp add: chan_free_def)
  then have mn: "Min (chan_free ?q) = m" unfolding q(2) using assms(3) by (intro Min_eqI) auto
  let ?r = "chan_take (g_nu_pdma_peripheral_ctl_pool ! k) m ?q"
  have al: "nu_pdma_channel_allocate typ ?q = Inr (int m, ?r)"
    using channel_allocate [OF q(1) assms(4)] unfolding mn unfolding q(2) by simp
  have lq: "m < length (nu_pdma_chn_arr ?q)" using q(1) assms(2) by (simp add: chan_inv_def)
  have "m_ppsSgtbl (chan ?r (int m)) = None"
    using lq by (simp add: chan_take_def nu_pdma_channel_enable_def nu_pdma_channel_reset_def chn_zero_def)
  moreover have "sg_free ?r = sg_free p"
    unfolding sg_free_def chan_put_def channel_free [OF ok(1) assms(2) nf]
    by (simp add: chan_take_def nu_pdma_channel_enable_def nu_pdma_channel_reset_def nu_pdma_channel_disable_def)
  ultimately show ?thesis using fr al by blast
qed

section \<open>The pools\<close>

text \<open>C40: clients that allocate and free DMA channels, in any order and giving back only
  what they hold, never hold a channel twice, and held and free channels together are all 32.\<close>

theorem pdma_channels_safe:
  assumes "\<not> nu_pdma_inited p" "length (nu_pdma_chn_mask_arr p) = PDMA_CNT" "length (mods p) = PDMA_CNT" "sg_placed p"
    and "chp.run ops [] (nu_pdma_init p) = (held, q)"
  shows "chan_inv q \<and> distinct held \<and> set held \<inter> chan_free q = {} \<and> set held \<union> chan_free q = {..<NU_PDMA_CH_MAX}"
proof -
  note i = nu_pdma_init_ok [OF assms(1-4)]
  have "chp.split [] (nu_pdma_init p)" using i by (simp add: chp.split_def pdma_ok_def)
  from chp.run_safe [OF this assms(5)] show ?thesis by (auto simp: chp.split_def)
qed

text \<open>The same of the scatter-gather descriptors: none is handed out twice and none is
  lost, as long as what is given back was taken.\<close>

lemma pdma_descriptors_safe:
  assumes "\<not> nu_pdma_inited p" "length (nu_pdma_chn_mask_arr p) = PDMA_CNT" "length (mods p) = PDMA_CNT" "sg_placed p"
    and "sgp.run ops [] (nu_pdma_init p) = (held, q)"
  shows "distinct held \<and> set held \<inter> sg_free q = {} \<and> set held \<union> sg_free q = {..<NU_PDMA_SGTBL_POOL_SIZE}"
proof -
  note i = nu_pdma_init_ok [OF assms(1-4)]
  have "sgp.split [] (nu_pdma_init p)" using i by (simp add: sgp.split_def pdma_ok_def)
  from sgp.run_safe [OF this assms(5)] show ?thesis by (auto simp: sgp.split_def)
qed

section \<open>The idle time-out\<close>

text \<open>The prescaler of channel \<open>c\<close> of a module: three bits at position 4 times
  \<open>c mod 8\<close> of one of two registers; its counter: 16 bits of one of eight.\<close>

definition prescaler :: "pdma_regs \<Rightarrow> nat \<Rightarrow> u32" where
  "prescaler r c = drop_bit (4 * (c mod 8)) (if c < 8 then TOUTPSC0_7 r else TOUTPSC8_15 r) AND 7"

definition toc :: "pdma_regs \<Rightarrow> nat \<Rightarrow> u32" where
  "toc r c = drop_bit (16 * (c mod 2)) (TOC r ! (c div 2)) AND 0xFFFF"

lemma bit_lt_8: "(d::u32) < 8 \<Longrightarrow> bit d n \<Longrightarrow> n < 3"
proof -
  assume d: "d < 8" "bit d n"
  then have "take_bit 3 (unat d) = unat d" by (simp add: take_bit_nat_eq_self_iff word_less_nat_alt)
  moreover have "bit (unat d) n" using d(2) bit_imp_le_length [OF d(2)] by (simp add: bit_unsigned_iff)
  ultimately show "n < 3" by (metis bit_take_bit_iff)
qed

lemma field_low:
  assumes "d < 8"
  shows "((x::u32) AND NOT 7 OR d) AND 7 = d" "4 \<le> k \<Longrightarrow> drop_bit k ((x::u32) AND NOT 7 OR d) AND 7 = drop_bit k x AND 7"
proof -
  have m: "(7::u32) = mask 3" by (simp add: mask_eq_exp_minus_1)
  show "(x AND NOT 7 OR d) AND 7 = d"
    unfolding m by (rule word_bit_eqI32) (auto simp: bit_simps dest: bit_lt_8 [OF assms])
  show "drop_bit k (x AND NOT 7 OR d) AND 7 = drop_bit k x AND 7" if "4 \<le> k"
    unfolding m by (rule word_bit_eqI32) (use that in \<open>auto simp: bit_simps dest: bit_lt_8 [OF assms] bit_imp_le_length\<close>)
qed

lemma mods_upd_mod: "m < length (mods p) \<Longrightarrow> mods (upd_mod m f p) ! m = f (mods p ! m)"
  by (simp add: upd_mod_def)

text \<open>The registers of the module after a time-out has been set, the prescaler value and the count that
  are written.\<close>

definition timeout_ticks :: "u32 \<Rightarrow> pdma \<Rightarrow> nat" where
  "timeout_ticks us p = unat us div (1000000 div (hclk p div 256))"

lemma timeout_set_regs:
  assumes ok: "pdma_ok p" and m: "m < 32" "m \<notin> chan_free p" and us: "us \<noteq> 0"
  obtains q where "nu_pdma_timeout_set (int m) us p = Inr (RT_EOK, q)"
    "TOUTPSC0_7 (mods q ! (m div 16)) = (if m mod 16 < 8
       then (TOUTPSC0_7 (mods p ! (m div 16)) AND NOT 7) OR word_of_nat (min 7 (timeout_ticks us p div 65536))
       else TOUTPSC0_7 (mods p ! (m div 16)))"
    "TOUTPSC8_15 (mods q ! (m div 16)) = (if m mod 16 < 8 then TOUTPSC8_15 (mods p ! (m div 16))
       else (TOUTPSC8_15 (mods p ! (m div 16)) AND NOT 7) OR word_of_nat (min 7 (timeout_ticks us p div 65536)))"
    "TOC (mods q ! (m div 16)) = (let r = TOC (mods p ! (m div 16)); pos = (m mod 16 mod 2) * 16;
         cnt = word_of_nat (if timeout_ticks us p div 65536 > 7 then 65536 else timeout_ticks us p mod 65536)
       in r[m mod 16 div 2 := (r ! (m mod 16 div 2) AND NOT (push_bit pos 0xffff)) OR push_bit pos cnt])"
proof -
  note par = pdma_ok_parts [OF ok]
  have d: "hclk p div 256 \<noteq> 0" "1000000 div (hclk p div 256) \<noteq> 0"
  proof -
    have "256 div 256 \<le> hclk p div 256" "hclk p div 256 \<le> 200000000 div 256"
      using par(4) by (simp_all only: clock_ok_def div_le_mono)
    then show "hclk p div 256 \<noteq> 0" "1000000 div (hclk p div 256) \<noteq> 0" by (auto simp: div_eq_0_iff)
  qed
  let ?md = "m div 16" and ?c = "m mod 16"
  have mi: "NU_PDMA_GET_MOD_IDX (int m) = ?md" "NU_PDMA_GET_MOD_CHIDX (int m) = ?c" using m(1) by simp_all
  have ml: "?md < 2" using m(1) by simp
  let ?dv = "timeout_ticks us p div 65536"
  let ?psc = "\<lambda>x. (x AND NOT (push_bit 0 7)) OR push_bit 0 (word_of_nat (if ?dv > 7 then 7 else ?dv) :: u32)"
  define p1 where "p1 = PDMA_EnableInt (int m) PDMA_INT_TIMEOUT (PDMA_DisableTimeout ?md (push_bit ?c 1)
    (upd_chan (int m) (m_u32IdleTimeout_us_update (\<lambda>_. us)) p))"
  define p2 where "p2 = (if ?c < 8 then upd_mod ?md (TOUTPSC0_7_update ?psc) p1 else upd_mod ?md (TOUTPSC8_15_update ?psc) p1)"
  define cnt :: u32 where "cnt = word_of_nat (if ?dv > 7 then 65536 else timeout_ticks us p mod 65536)"
  let ?q = "PDMA_SetTimeOut ?md ?c True cnt p2"
  have r: "nu_pdma_timeout_set (int m) us p = Inr (RT_EOK, ?q)"
    using us m(2) d by (simp add: nu_pdma_timeout_set_def check_nonallocated [OF m(1)] Let_def mi timeout_ticks_def
      p1_def p2_def cnt_def del: push_bit_of_1)
  have l: "length (mods p1) = 2" using par(5) by (simp add: p1_def PDMA_DisableTimeout_def)
  have f1: "mods p1 ! ?md = TOUTIEN_update (\<lambda>x. x OR push_bit ?c 1) (TOUTEN_update (\<lambda>x. x AND NOT (push_bit ?c 1)) (mods p ! ?md))"
    using par(5) ml by (simp add: p1_def PDMA_DisableTimeout_def mi mods_upd_mod del: push_bit_of_1)
  have f2: "mods p2 ! ?md = (if ?c < 8 then TOUTPSC0_7_update ?psc (mods p1 ! ?md) else TOUTPSC8_15_update ?psc (mods p1 ! ?md))"
    "length (mods p2) = 2" using l ml by (simp_all add: p2_def mods_upd_mod)
  have f3: "mods ?q ! ?md = TOUTEN_update (\<lambda>x. x OR push_bit ?c 1) (TOC_update (\<lambda>r. r[?c div 2 :=
      (r ! (?c div 2) AND NOT (push_bit ((?c mod 2) * 16) 0xffff)) OR push_bit ((?c mod 2) * 16) cnt]) (mods p2 ! ?md))"
    using f2(2) ml unfolding PDMA_SetTimeOut_def Let_def by (simp add: mods_upd_mod del: push_bit_of_1)
  have mn: "?psc = (\<lambda>x. (x AND NOT 7) OR word_of_nat (min 7 ?dv))"
    by (simp add: min_def fun_eq_iff)
  have "TOUTPSC0_7 (mods ?q ! ?md) = (if ?c < 8 then (TOUTPSC0_7 (mods p ! ?md) AND NOT 7) OR word_of_nat (min 7 ?dv) else TOUTPSC0_7 (mods p ! ?md))"
    unfolding f3 f2 mn f1 by simp
  moreover have "TOUTPSC8_15 (mods ?q ! ?md) = (if ?c < 8 then TOUTPSC8_15 (mods p ! ?md) else (TOUTPSC8_15 (mods p ! ?md) AND NOT 7) OR word_of_nat (min 7 ?dv))"
    unfolding f3 f2 mn f1 by simp
  moreover have "TOC (mods ?q ! ?md) = (let r = TOC (mods p ! ?md); pos = (?c mod 2) * 16
       in r[?c div 2 := (r ! (?c div 2) AND NOT (push_bit pos 0xffff)) OR push_bit pos cnt])"
    unfolding f3 f2 f1 Let_def by simp
  ultimately show thesis using that [OF r] unfolding cnt_def by (simp add: Let_def)
qed

text \<open>Setting the idle time-out of a channel that is not the first of its
  prescaler register leaves the channel's own prescaler as it is and writes the value into the prescaler of
  the first channel of the register: the field's position is computed as a multiple of 0.\<close>

lemma nu_pdma_timeout_wrong_prescaler:
  assumes "pdma_ok p" "m < NU_PDMA_CH_MAX" "m \<notin> chan_free p" "us \<noteq> 0" "m mod 8 \<noteq> 0"
  shows "\<exists>q. nu_pdma_timeout_set (int m) us p = Inr (RT_EOK, q)
    \<and> prescaler (mods q ! (m div 16)) (m mod 16) = prescaler (mods p ! (m div 16)) (m mod 16)
    \<and> prescaler (mods q ! (m div 16)) (m mod 16 - m mod 8) = word_of_nat (min 7 (timeout_ticks us p div 65536))"
proof -
  obtain q where q: "nu_pdma_timeout_set (int m) us p = Inr (RT_EOK, q)"
    "TOUTPSC0_7 (mods q ! (m div 16)) = (if m mod 16 < 8
       then (TOUTPSC0_7 (mods p ! (m div 16)) AND NOT 7) OR word_of_nat (min 7 (timeout_ticks us p div 65536))
       else TOUTPSC0_7 (mods p ! (m div 16)))"
    "TOUTPSC8_15 (mods q ! (m div 16)) = (if m mod 16 < 8 then TOUTPSC8_15 (mods p ! (m div 16))
       else (TOUTPSC8_15 (mods p ! (m div 16)) AND NOT 7) OR word_of_nat (min 7 (timeout_ticks us p div 65536)))"
    by (rule timeout_set_regs [OF assms(1-4)]) blast
  let ?c = "m mod 16"
  define d :: u32 where "d = word_of_nat (min 7 (timeout_ticks us p div 65536))"
  have d8: "d < 8" unfolding d_def word_less_nat_alt by (subst unat_of_small) simp_all
  have c8: "?c mod 8 = m mod 8" by (simp add: mod_mod_cancel)
  have k: "4 \<le> 4 * (?c mod 8)" using assms(5) unfolding c8 by simp
  have f: "?c - m mod 8 < 8 \<longleftrightarrow> ?c < 8" "(?c - m mod 8) mod 8 = 0"
  proof -
    have e: "?c = 8 * (?c div 8) + m mod 8" using mult_div_mod_eq [of 8 ?c] unfolding c8 by simp
    then have z: "?c - m mod 8 = 8 * (?c div 8)" by simp
    show "(?c - m mod 8) mod 8 = 0" unfolding z by simp
    show "?c - m mod 8 < 8 \<longleftrightarrow> ?c < 8" unfolding z using e by (cases "?c div 8") simp_all
  qed
  have "prescaler (mods q ! (m div 16)) ?c = prescaler (mods p ! (m div 16)) ?c"
    unfolding prescaler_def q(2,3) d_def [symmetric] by (simp only: field_low(2) [OF d8 k] split: if_split) simp
  moreover have "prescaler (mods q ! (m div 16)) (?c - m mod 8) = d"
    unfolding prescaler_def q(2,3) f d_def [symmetric] using field_low(1) [OF d8] by (cases "?c < 8") simp_all
  ultimately show ?thesis using q(1) unfolding d_def by blast
qed

text \<open>A time-out beyond the range of prescaler and counter is not cut to the
  largest: the count written is 65536, of which the 16 bits of the field keep 0, and for the channel of even
  number the 17th bit lands in the counter of the next channel.\<close>

lemma nu_pdma_timeout_saturates_to_zero:
  assumes "pdma_ok p" "m < NU_PDMA_CH_MAX" "m \<notin> chan_free p" "us \<noteq> 0" "8 * 65536 \<le> timeout_ticks us p"
    "even m" "length (TOC (mods p ! (m div 16))) = 8"
  shows "\<exists>q. nu_pdma_timeout_set (int m) us p = Inr (RT_EOK, q)
    \<and> toc (mods q ! (m div 16)) (m mod 16) = 0
    \<and> toc (mods q ! (m div 16)) (m mod 16 + 1) = toc (mods p ! (m div 16)) (m mod 16 + 1) OR 1"
proof -
  obtain q where q: "nu_pdma_timeout_set (int m) us p = Inr (RT_EOK, q)"
    "TOC (mods q ! (m div 16)) = (let r = TOC (mods p ! (m div 16)); pos = (m mod 16 mod 2) * 16;
         cnt = word_of_nat (if timeout_ticks us p div 65536 > 7 then 65536 else timeout_ticks us p mod 65536)
       in r[m mod 16 div 2 := (r ! (m mod 16 div 2) AND NOT (push_bit pos 0xffff)) OR push_bit pos cnt])"
    by (rule timeout_set_regs [OF assms(1-4)]) blast
  let ?c = "m mod 16"
  have e: "?c mod 2 = 0" "(?c + 1) mod 2 = 1" "(?c + 1) div 2 = ?c div 2" "?c div 2 < 8"
  proof -
    show "?c mod 2 = 0" using assms(6) by (simp add: mod_mod_cancel even_iff_mod_2_eq_zero)
    then show "(?c + 1) mod 2 = 1" "(?c + 1) div 2 = ?c div 2" by presburger+
    show "?c div 2 < 8" by simp
  qed
  have t: "7 < timeout_ticks us p div 65536" using assms(5) by simp
  define x where "x = TOC (mods p ! (m div 16)) ! (?c div 2)"
  have r: "TOC (mods q ! (m div 16)) ! (?c div 2) = (x AND NOT 0xffff) OR 0x10000"
    unfolding q(2) using e assms(7) t by (simp add: x_def Let_def)
  have m: "(0xffff :: u32) = mask 16" "(0x10000 :: u32) = push_bit 16 1" "(1 :: u32) = mask 1"
    by (simp_all add: mask_eq_exp_minus_1)
  have "toc (mods q ! (m div 16)) ?c = 0"
    unfolding toc_def e r mult_0_right drop_bit_0 m(1,2)
    by (rule word_bit_eqI32) (auto simp: bit_simps simp del: push_bit_of_1)
  moreover have "toc (mods q ! (m div 16)) (?c + 1) = toc (mods p ! (m div 16)) (?c + 1) OR 1"
    unfolding toc_def e r x_def [symmetric] m(1,2)
    by (rule word_bit_eqI32) (auto simp: bit_simps simp del: push_bit_of_1 dest: bit_imp_le_length)
  ultimately show ?thesis using q(1) by blast
qed

section \<open>Examples\<close>

text \<open>The driver at start, its descriptor array at 0x20001000; and with channel 0 in use for memory
  to memory transfers.\<close>

definition demo_regs :: pdma_regs where
  "demo_regs = \<lparr>CHCTL = 0, SWREQ = 0, INTEN = 0, INTSTS = 0, ABTSTS = 0, TDSTS = 0, ALIGN = 0, TOUTPSC0_7 = 0,
     TOUTPSC8_15 = 0, TOUTEN = 0, TOUTIEN = 0, SCATBA = 0, TOC = replicate 8 0, REQSEL = replicate 4 0\<rparr>"

definition demo_raw :: pdma where
  "demo_raw = \<lparr>nu_pdma_inited = False, nu_pdma_chn_mask_arr = [0, 0], nu_pdma_chn_arr = [], nu_pdma_sgtbl_token = [],
     sg_base = 0x20001000, dscts = \<lambda>_. dsct_zero, mods = [demo_regs, demo_regs], calls = [], hclk = 200000000,
     reset_regs = demo_regs\<rparr>"

definition demo_pdma :: pdma where
  "demo_pdma = chan_take (0, eMemCtl_SrcInc_DstInc) 0 (nu_pdma_init demo_raw)"

lemma demo_raw: "\<not> nu_pdma_inited demo_raw" "length (nu_pdma_chn_mask_arr demo_raw) = PDMA_CNT"
    "length (mods demo_raw) = PDMA_CNT" "sg_placed demo_raw"
  by (simp_all add: demo_raw_def sg_placed_def)

lemma TOC_upd_mod [simp]:
  "(\<And>r. TOC (f r) = TOC r) \<Longrightarrow> TOC (mods (upd_mod m f p) ! k) = TOC (mods p ! k)"
  by (cases "m < length (mods p)"; cases "k = m") (simp_all add: upd_mod_def list_update_beyond)

lemma chan_take_frame:
  "TOC (mods (chan_take ctl n p) ! k) = TOC (mods p ! k)"
  "sg_base (chan_take ctl n p) = sg_base p" "hclk (chan_take ctl n p) = hclk p"
  "nu_pdma_sgtbl_token (chan_take ctl n p) = nu_pdma_sgtbl_token p" "SCATBA (mods (chan_take ctl n p) ! k) = SCATBA (mods p ! k)"
  by (simp_all add: chan_take_def nu_pdma_channel_enable_def nu_pdma_channel_reset_def)

lemma pdma_ok_take:
  assumes "pdma_ok p" "n < 32"
  shows "pdma_ok (chan_take ctl n p)"
proof -
  note t = chan_take_ok [OF pdma_ok_parts(1) [OF assms(1)] assms(2), of ctl]
  have "length (mods (chan_take ctl n p)) = 2" using t by (simp add: chan_inv_def)
  then have "\<forall>r\<in>set (mods (chan_take ctl n p)). SCATBA r = sg_base p AND 0xFFFF0000"
    using assms(1) pdma_ok_parts(5) [OF assms(1)] nth_mem [of _ "mods p"]
    by (auto simp: in_set_conv_nth [of _ "mods (chan_take ctl n p)"] chan_take_frame pdma_ok_def)
  then show ?thesis using assms(1) t by (simp add: pdma_ok_def chan_take_frame sg_inv_def sg_placed_def)
qed

lemma demo_pdma:
  "pdma_ok demo_pdma" "0 \<notin> chan_free demo_pdma" "sg_free demo_pdma = {..<32}"
  "m_u32WantedSGTblNum (chan demo_pdma 0) = 0" "m_eMemCtl (chan demo_pdma 0) = eMemCtl_SrcInc_DstInc"
proof -
  note i = nu_pdma_init_ok [OF demo_raw]
  then have ok: "pdma_ok (nu_pdma_init demo_raw)" by blast
  show "pdma_ok demo_pdma" unfolding demo_pdma_def by (rule pdma_ok_take [OF ok]) simp
  show "0 \<notin> chan_free demo_pdma"
    unfolding demo_pdma_def using chan_take_ok [OF pdma_ok_parts(1) [OF ok], of 0 "(0, eMemCtl_SrcInc_DstInc)"] by simp
  show "sg_free demo_pdma = {..<32}" using i by (simp add: demo_pdma_def sg_free_def chan_take_frame)
  have "0 < length (nu_pdma_chn_arr (nu_pdma_init demo_raw))" using pdma_ok_parts(1) [OF ok] by (simp add: chan_inv_def)
  then show "m_u32WantedSGTblNum (chan demo_pdma 0) = 0" "m_eMemCtl (chan demo_pdma 0) = eMemCtl_SrcInc_DstInc"
    by (simp_all add: demo_pdma_def chan_take_def nu_pdma_channel_enable_def nu_pdma_channel_reset_def chn_zero_def)
qed

lemma nu_pdma_init_correct_example:
  "pdma_ok (nu_pdma_init demo_raw) \<and> chan_free (nu_pdma_init demo_raw) = {..<32} \<and> sg_free (nu_pdma_init demo_raw) = {..<32}"
  using nu_pdma_init_correct [OF demo_raw] by blast

lemma demo_xfer:
  assumes "cnt \<noteq> 0" "chain_len cnt \<le> 32"
  shows "xfer_ok 0 (Some (replicate (chain_len cnt) 0)) 32 0x20010000 0x20020000 cnt demo_pdma"
  using assms demo_pdma by (simp add: xfer_ok_def)


text \<open>131072 words: three descriptors, and 65536 words too many.\<close>

lemma nu_pdma_transfer_overruns_example:
  "\<exists>q. nu_pdma_transfer 0 (Some [0, 0, 0]) 32 0x20010000 0x20020000 0x20000 0 demo_pdma = Inr (RT_EOK, q)
    \<and> channel_moves 3 0 q = map (want_item eMemCtl_SrcInc_DstInc 32 0x20010000 0x20020000) [0..<196608]"
proof -
  have l: "chain_len 0x20000 = 3" by (simp add: chain_len_def)
  have x: "xfer_ok 0 (Some [0, 0, 0]) 32 0x20010000 0x20020000 0x20000 demo_pdma"
  proof -
    have "replicate 3 (0::u32) = [0, 0, 0]" by (simp add: numeral_3_eq_3)
    then show ?thesis using demo_xfer [of "0x20000"] by (simp add: l)
  qed
  have u: "unat (0x20000 :: u32) = 131072" by simp
  have c: "(0x10000 :: u32) < 0x20000" "unat (0x20000 :: u32) mod 65536 = 0" unfolding u by simp_all
  from nu_pdma_transfer_overruns [OF x c, of 0 0] show ?thesis unfolding l u by (simp add: demo_pdma del: upt_rec_numeral)
qed

lemma nu_pdma_transfer_oom_example:
  "\<exists>q. nu_pdma_transfer 0 None 32 0x20010000 0x20020000 0x10001 0 demo_pdma = Inr (- 1, q)
    \<and> nu_pdma_transfer 0 (Some [0, 0]) 32 0x20010000 0x20020000 0x10001 0 q = Inl NullDeref"
proof -
  have l: "chain_len 0x10001 = 2" by (simp add: chain_len_def)
  from nu_pdma_transfer_oom [OF demo_xfer [of "0x10001"], of 0] show ?thesis by (auto simp: l)
qed

text \<open>A list of one blank descriptor.\<close>

definition demo_list :: pdma where
  "demo_list = upd_dsct (sgtbl_at demo_pdma 5) (\<lambda>_. dsct_zero) demo_pdma"

lemma nu_pdma_sg_transfer_stale_example:
  "\<exists>q. nu_pdma_sg_transfer 1 0 (sgtbl_at demo_list 5) 0 demo_list = Inr (RT_EOK, q)
    \<and> channel_moves 1 0 q = dsct_moves (dscts demo_list (dsct_reg 0))"
proof -
  have "pdma_ok demo_list" using demo_pdma(1)
    by (simp add: demo_list_def pdma_ok_def chan_inv_def sg_inv_def sg_placed_def)
  moreover have "0 \<notin> chan_free demo_list" using demo_pdma(2) by (simp add: demo_list_def)
  moreover have "NEXT (dscts demo_list (sgtbl_at demo_list 5)) = 0" by (simp add: demo_list_def sgtbl_at_def dsct_zero_def)
  ultimately show ?thesis using nu_pdma_sg_transfer_stale [of demo_list 0 5 1 0 1] by simp
qed

text \<open>Channel 0 holds two descriptors.\<close>

definition demo_chain :: pdma where
  "demo_chain = upd_chan 0 (\<lambda>c. c\<lparr>m_ppsSgtbl := Some [0x20001000, 0x20001010], m_u32WantedSGTblNum := 2\<rparr>)
     (fold sg_take [0, 1] demo_pdma)"

lemma demo_chain:
  "pdma_ok demo_chain" "\<forall>k\<in>chan_free demo_chain. 0 < k" "sg_free demo_chain = {2..<32}"
  "m_ppsSgtbl (chan demo_chain 0) = Some [0x20001000, 0x20001010]"
proof -
  have p: "pdma_ok (upd_chan ch f p)" if "pdma_ok p" for ch f p
    using that by (simp add: pdma_ok_def chan_inv_def sg_inv_def sg_placed_def)
  have t: "pdma_ok (sg_take i p)" if "pdma_ok p" for i p
    using that by (simp add: pdma_ok_def chan_inv_def sg_inv_def sg_placed_def sg_take_def)
  show "pdma_ok demo_chain" unfolding demo_chain_def by (simp add: p t demo_pdma)
  have "0 \<notin> chan_free demo_chain" using demo_pdma(2) by (simp add: demo_chain_def chan_free_def sg_take_def)
  then show "\<forall>k\<in>chan_free demo_chain. 0 < k" by (auto intro: gr0I)
  have "sg_free demo_chain = sg_free (sg_take 1 (sg_take 0 demo_pdma))" by (simp add: demo_chain_def sg_free_def)
  also have "\<dots> = {2..<32}" by (auto simp: demo_pdma)
  finally show "sg_free demo_chain = {2..<32}" .
  have "0 < length (nu_pdma_chn_arr demo_pdma)" using pdma_ok_parts(1) [OF demo_pdma(1)] by (simp add: chan_inv_def)
  then show "m_ppsSgtbl (chan demo_chain 0) = Some [0x20001000, 0x20001010]" by (simp add: demo_chain_def sg_take_def)
qed

lemma nu_pdma_channel_free_leaks_example:
  "\<exists>q r. nu_pdma_channel_free 0 demo_chain = Inr (0, q) \<and> nu_pdma_channel_allocate 0 q = Inr (0, r)
    \<and> m_ppsSgtbl (chan r 0) = None \<and> sg_free r = {2..<32}"
proof -
  have t: "nu_pdma_peripheral_set 0 = Some 0" by (simp add: nu_pdma_peripheral_set_def g_nu_pdma_peripheral_ctl_pool_def upt_rec)
  show ?thesis using nu_pdma_channel_free_leaks [OF demo_chain(1) _ demo_chain(2) t] demo_chain(3,4) by simp
qed

theorem pdma_channels_safe_witness:
  "case chp.run [Take, Take, GiveBack 0, Take] [] (nu_pdma_init demo_raw) of (held, q) \<Rightarrow>
     distinct held \<and> set held \<union> chan_free q = {..<32}"
proof -
  obtain held q where r: "chp.run [Take, Take, GiveBack 0, Take] [] (nu_pdma_init demo_raw) = (held, q)" by fastforce
  show ?thesis using pdma_channels_safe [OF demo_raw r] unfolding r by simp
qed

lemma pdma_descriptors_safe_example:
  "case sgp.run [Take, Take, GiveBack 1, Take] [] (nu_pdma_init demo_raw) of (held, q) \<Rightarrow>
     distinct held \<and> set held \<union> sg_free q = {..<32}"
proof -
  obtain held q where r: "sgp.run [Take, Take, GiveBack 1, Take] [] (nu_pdma_init demo_raw) = (held, q)" by fastforce
  show ?thesis using pdma_descriptors_safe [OF demo_raw r] unfolding r by simp
qed

text \<open>A second channel in use; the clock is 200 MHz, a tick is a microsecond.\<close>

definition demo_two :: pdma where
  "demo_two = chan_take (4, eMemCtl_SrcInc_DstFix) 1 demo_pdma"

lemma demo_two: "pdma_ok demo_two" "1 \<notin> chan_free demo_two" "timeout_ticks us demo_two = unat us" "timeout_ticks us demo_pdma = unat us"
proof -
  show "pdma_ok demo_two" unfolding demo_two_def by (rule pdma_ok_take [OF demo_pdma(1)]) simp
  show "1 \<notin> chan_free demo_two"
    unfolding demo_two_def using chan_take_ok [OF pdma_ok_parts(1) [OF demo_pdma(1)], of 1] by simp
  have "hclk (nu_pdma_init demo_raw) = 200000000"
    by (rule nu_pdma_init_form [OF demo_raw(1-3)]) (simp add: demo_raw_def)
  then show "timeout_ticks us demo_two = unat us" "timeout_ticks us demo_pdma = unat us"
    by (simp_all add: timeout_ticks_def demo_two_def demo_pdma_def chan_take_frame)
qed

lemma nu_pdma_timeout_wrong_prescaler_example:
  "\<exists>q. nu_pdma_timeout_set 1 200000 demo_two = Inr (0, q)
    \<and> prescaler (mods q ! 0) 1 = prescaler (mods demo_two ! 0) 1 \<and> prescaler (mods q ! 0) 0 = 3"
  using nu_pdma_timeout_wrong_prescaler [OF demo_two(1) _ demo_two(2), of "200000"] by (simp add: demo_two(3))

lemma nu_pdma_timeout_saturates_to_zero_example:
  "\<exists>q. nu_pdma_timeout_set 0 600000 demo_pdma = Inr (0, q)
    \<and> toc (mods q ! 0) 0 = 0 \<and> toc (mods q ! 0) 1 = toc (mods demo_pdma ! 0) 1 OR 1"
proof -
  have "TOC (mods (nu_pdma_init demo_raw) ! 0) = replicate 8 0"
    by (rule nu_pdma_init_form [OF demo_raw(1-3)]) (simp add: demo_raw_def demo_regs_def)
  then have "length (TOC (mods demo_pdma ! (0 div 16))) = 8"
    by (simp add: demo_pdma_def chan_take_frame)
  then show ?thesis
    using nu_pdma_timeout_saturates_to_zero [OF demo_pdma(1) _ demo_pdma(2), of "600000"] by (simp add: demo_two(4))
qed

end
