(* ===== verification/PdmaCopy.thy ===== *)
theory PdmaCopy
  imports PdmaMem PdmaProps
begin

text \<open>
  \<^verbatim>\<open>nu_pdma_memcpy\<close> of \<^verbatim>\<open>drv_pdma.c\<close> copies memory: the loop over the three
  widths, each width one transfer by an actor, and the actors as they are set up at start.
\<close>

section \<open>Memory\<close>

definition mem_copy :: "u32 \<Rightarrow> u32 \<Rightarrow> nat \<Rightarrow> (u32 \<Rightarrow> u8) \<Rightarrow> (u32 \<Rightarrow> u8)" where
  "mem_copy dst src n m = (\<lambda>a. if unat (a - dst) < n then m (src + (a - dst)) else m a)"

definition apart :: "u32 \<Rightarrow> u32 \<Rightarrow> nat \<Rightarrow> bool" where
  "apart dst src n \<longleftrightarrow> (\<forall>i<n. \<forall>j<n. src + word_of_nat i \<noteq> dst + word_of_nat j)"

lemma mem_copy_0 [simp]: "mem_copy dst src 0 m = m"
  by (simp add: mem_copy_def)

lemma apart_le: "apart dst src n \<Longrightarrow> k \<le> n \<Longrightarrow> apart dst src k"
  by (auto simp: apart_def)

lemma unat_diff_wrap: "unat (x - y) = (if unat y \<le> unat x then unat x - unat y else unat x + 4294967296 - unat y)" for x y :: u32
  using unat_sub_if_size [of x y] by (simp add: word_size)

lemma off_less_iff:
  fixes b k x N :: nat
  assumes "b + k < N"
  shows "((if b \<le> x then x - b else x + N - b) < k) = (b \<le> x \<and> x < b + k)"
  using assms by auto

lemma mem_copy_append:
  assumes "apart dst src (unat o' + k)" "unat o' + k < 2 ^ 32"
  shows "mem_copy (dst + o') (src + o') k (mem_copy dst src (unat o') m) = mem_copy dst src (unat o' + k) m"
proof
  fix a
  let ?x = "unat (a - dst)"
  have d: "a - (dst + o') = (a - dst) - o'" by simp
  have u: "unat (a - (dst + o')) = (if unat o' \<le> ?x then ?x - unat o' else ?x + 4294967296 - unat o')"
    unfolding d by (rule unat_diff_wrap)
  have k: "unat o' + k < 4294967296" using assms(2) by simp
  have c: "unat (a - (dst + o')) < k \<longleftrightarrow> unat o' \<le> ?x \<and> ?x < unat o' + k"
    unfolding u by (rule off_less_iff [OF k])
  have s: "src + o' + (a - (dst + o')) = src + (a - dst)" by simp
  have r: "mem_copy dst src (unat o') m (src + (a - dst)) = m (src + (a - dst))" if "unat o' \<le> ?x" "?x < unat o' + k"
  proof -
    have "\<not> unat (src + (a - dst) - dst) < unat o'"
    proof
      assume l: "unat (src + (a - dst) - dst) < unat o'"
      have "src + word_of_nat ?x = dst + word_of_nat (unat (src + (a - dst) - dst))" by simp
      moreover have "?x < unat o' + k" "unat (src + (a - dst) - dst) < unat o' + k" using that(2) l by simp_all
      ultimately show False using assms(1) unfolding apart_def by blast
    qed
    then show ?thesis by (simp add: mem_copy_def)
  qed
  show "mem_copy (dst + o') (src + o') k (mem_copy dst src (unat o') m) a = mem_copy dst src (unat o' + k) m a"
  proof (cases "unat o' \<le> ?x \<and> ?x < unat o' + k")
    case True
    then show ?thesis using c r unfolding mem_copy_def [of "dst + o'"] s by (simp add: mem_copy_def)
  next
    case False
    then show ?thesis using c unfolding mem_copy_def [of "dst + o'"] by (auto simp: mem_copy_def)
  qed
qed

lemma move_item_copy: "move_item (s, d, w) m = mem_copy d s (unat w) m"
  by (simp add: move_item_def mem_copy_def)

lemma moves_copy:
  assumes "w = width div 8" "apart dst src (n * unat w)" "n * unat w < 2 ^ 32"
  shows "fold move_item (map (want_item eMemCtl_SrcInc_DstInc width src dst) [0..<n]) m = mem_copy dst src (n * unat w) m"
  using assms(2,3)
proof (induction n)
  case (Suc n)
  have ih: "fold move_item (map (want_item eMemCtl_SrcInc_DstInc width src dst) [0..<n]) m = mem_copy dst src (n * unat w) m"
    using Suc apart_le [of dst src "Suc n * unat w" "n * unat w"] by simp
  have o: "unat (word_of_nat n * w) = n * unat w"
  proof -
    have "word_of_nat n * w = word_of_nat (n * unat w)" by simp
    moreover have "n * unat w < 2 ^ 32" using Suc(3) by simp
    ultimately show ?thesis by (metis unat_of_small)
  qed
  have it: "want_item eMemCtl_SrcInc_DstInc width src dst n = (src + word_of_nat n * w, dst + word_of_nat n * w, w)"
    by (simp add: want_item_def inc_src_def inc_dst_def assms(1))
  have sz: "unat (word_of_nat n * w) + unat w = Suc n * unat w" unfolding o by simp
  have "fold move_item (map (want_item eMemCtl_SrcInc_DstInc width src dst) [0..<Suc n]) m =
      mem_copy (dst + word_of_nat n * w) (src + word_of_nat n * w) (unat w) (mem_copy dst src (unat (word_of_nat n * w)) m)"
    using ih by (simp add: it move_item_copy o)
  also have "\<dots> = mem_copy dst src (Suc n * unat w) m"
    using mem_copy_append [of dst src "word_of_nat n * w" "unat w" m] Suc(2,3) unfolding sz by simp
  finally show ?case .
qed simp


section \<open>The copy\<close>

lemma apart_shift:
  assumes "apart dst src (unat b + n)"
  shows "apart (dst + b) (src + b) n"
  unfolding apart_def
proof (intro allI impI notI)
  fix i j assume i: "i < n" "j < n" "src + b + word_of_nat i = dst + b + word_of_nat j"
  have "src + word_of_nat (unat b + i) = dst + word_of_nat (unat b + j)" using i(3) by (simp add: add.assoc)
  moreover have "unat b + i < unat b + n" "unat b + j < unat b + n" using i by simp_all
  ultimately show False using assms unfolding apart_def by blast
qed

lemma align_down_width:
  assumes "w = 4 \<or> w = 2 \<or> w = (1::u32)" "w \<le> RT_ALIGN_DOWN r w"
  shows "r div w \<noteq> 0"
proof
  assume "r div w = 0"
  then have r: "unat r div unat w = 0" by (metis unat_0 unat_div)
  have "RT_ALIGN_DOWN r w \<le> r" unfolding RT_ALIGN_DOWN_def by (simp add: word_and_le2)
  then have "w \<le> r" using assms(2) by simp
  then have "unat w \<le> unat r" by (simp add: word_le_nat_alt)
  moreover have "0 < unat w" using assms(1) by auto
  ultimately show False using r by (simp add: div_eq_0_iff)
qed

lemma memcpy_width_step:
  assumes w: "w = 4 \<or> w = 2 \<or> w = (1::u32)" and inv: "memfun_inv s"
    and c: "unat (b + tx * w) = unat b + unat tx * unat w" "unat b + unat tx * unat w \<le> 0x10000" "tx \<noteq> 0"
    and a: "apart dest src (unat b + unat tx * unat w)" "(src + b) mod w = 0" "(dest + b) mod w = 0"
    and m: "mem s = mem_copy dest src (unat b) M"
  shows "\<exists>t. nu_pdma_memfun (dma_done k) heap (dest + b) (src + b) (w * 8) tx eMemCtl_SrcInc_DstInc s = Inr (Some (unat tx, t))
    \<and> memfun_inv t \<and> mem t = mem_copy dest src (unat (b + tx * w)) M"
proof -
  have wd: "w * 8 div 8 = w" "w * 8 = 8 \<or> w * 8 = 16 \<or> w * 8 = 32" "1 \<le> unat w" using w by auto
  have "unat tx * 1 \<le> unat tx * unat w" by (rule mult_le_mono2 [OF wd(3)])
  then have "unat tx \<le> 65536" using c(2) by linarith
  then have t: "tx \<le> 0x10000" by (simp add: word_le_nat_alt)
  obtain t where t: "nu_pdma_memfun (dma_done k) heap (dest + b) (src + b) (w * 8) tx eMemCtl_SrcInc_DstInc s = Inr (Some (unat tx, t))"
    "memfun_inv t" "mem t = fold move_item (map (want_item eMemCtl_SrcInc_DstInc (w * 8) (src + b) (dest + b)) [0..<unat tx]) (mem s)"
    using memfun_ok [OF inv wd(2) _ _ c(3) t, of "src + b" "dest + b" k heap] a(2,3) unfolding wd(1) by blast
  have "fold move_item (map (want_item eMemCtl_SrcInc_DstInc (w * 8) (src + b) (dest + b)) [0..<unat tx]) (mem s) =
      mem_copy (dest + b) (src + b) (unat tx * unat w) (mem s)"
    using moves_copy [of w "w * 8", OF wd(1) [symmetric] apart_shift [OF a(1)]] c(2) by simp
  also have "\<dots> = mem_copy dest src (unat b + unat tx * unat w) M"
    unfolding m by (rule mem_copy_append [OF a(1)]) (use c(2) in simp)
  finally show ?thesis using t c(1) by auto
qed

lemma memcpy_widths_ok:
  assumes "set ws \<subseteq> {1, 2, 4}" "memfun_inv s" "unat b + unat rest = unat cnt" "unat cnt \<le> 0x10000"
    "apart dest src (unat cnt)" "mem s = mem_copy dest src (unat b) M" "rest = 0 \<or> ws \<noteq> [] \<and> last ws = 1"
  shows "\<exists>t. memcpy_widths (dma_done k) heap ws dest src cnt b rest s = Inr (Some (dest, t))
    \<and> memfun_inv t \<and> mem t = mem_copy dest src (unat cnt) M"
  using assms
proof (induction ws arbitrary: b rest s)
  case Nil
  then show ?case by (simp add: word_unat_eq_iff)
next
  case (Cons i ws)
  let ?w = "word_of_nat i :: u32"
  have w: "?w = 4 \<or> ?w = 2 \<or> ?w = 1" using Cons.prems(1) by auto
  show ?case
  proof (cases "rest = 0")
    case True
    then have "cnt = b" using Cons.prems(3) by (simp add: word_unat_eq_iff)
    then show ?thesis using True Cons.prems(2,6) by simp
  next
    case r0: False
    show ?thesis
    proof (cases "(src + b) mod ?w = (dest + b) mod ?w \<and> (src + b) mod ?w = 0 \<and> RT_ALIGN_DOWN rest ?w \<ge> ?w")
      case True
      let ?tx = "rest div ?w"
      have tx: "?tx \<noteq> 0" by (rule align_down_width [OF w]) (use True in simp)
      have tw: "unat (?tx * ?w) = unat ?tx * unat ?w" "unat ?tx * unat ?w \<le> unat rest"
      proof -
        show "unat ?tx * unat ?w \<le> unat rest" by (simp add: unat_div)
        then have "unat ?tx * unat ?w < 2 ^ 32" using unat_lt_32 [of rest] by simp
        then show "unat (?tx * ?w) = unat ?tx * unat ?w" by (simp add: unat_word_ariths)
      qed
      have s1: "unat b + unat ?tx * unat ?w \<le> unat cnt" using tw(2) Cons.prems(3) by simp
      have bt: "unat (b + ?tx * ?w) = unat b + unat ?tx * unat ?w"
        using s1 Cons.prems(4) unat_word_ariths(1) [of b "?tx * ?w"] tw(1) by simp
      have ad: "(src + b) mod ?w = 0" "(dest + b) mod ?w = 0" using True by metis+
      have "\<exists>t. nu_pdma_memfun (dma_done k) heap (dest + b) (src + b) (?w * 8) ?tx eMemCtl_SrcInc_DstInc s = Inr (Some (unat ?tx, t))
          \<and> memfun_inv t \<and> mem t = mem_copy dest src (unat (b + ?tx * ?w)) M"
        by (rule memcpy_width_step [OF w Cons.prems(2) bt order_trans [OF s1 Cons.prems(4)] tx apart_le [OF Cons.prems(5) s1] ad Cons.prems(6)])
      then obtain t where t: "nu_pdma_memfun (dma_done k) heap (dest + b) (src + b) (?w * 8) ?tx eMemCtl_SrcInc_DstInc s = Inr (Some (unat ?tx, t))"
        "memfun_inv t" "mem t = mem_copy dest src (unat (b + ?tx * ?w)) M" by blast
      have rr: "unat (rest - ?tx * ?w) = unat rest - unat ?tx * unat ?w"
        unfolding unat_diff_wrap [of rest "?tx * ?w"] tw(1) by (rule if_P [OF tw(2)])
      have l: "rest - ?tx * ?w = 0 \<or> ws \<noteq> [] \<and> last ws = 1"
        using Cons.prems(7) r0 by (cases "ws = []") auto
      have "\<exists>u. memcpy_widths (dma_done k) heap ws dest src cnt (b + ?tx * ?w) (rest - ?tx * ?w) t = Inr (Some (dest, u))
          \<and> memfun_inv u \<and> mem u = mem_copy dest src (unat cnt) M"
        by (rule Cons.IH) (use Cons.prems(1,3,4,5) t l bt rr tw(2) in auto)
      then show ?thesis using r0 True t(1) ad by (simp add: Let_def)
    next
      case False
      have "i \<noteq> 1"
      proof
        assume i: "i = 1"
        have "1 \<le> rest" using r0 by (simp add: word_le_nat_alt word_unat_eq_iff Suc_le_eq)
        then show False using False by (simp add: i RT_ALIGN_DOWN_def)
      qed
      then have "rest = 0 \<or> ws \<noteq> [] \<and> last ws = 1" using Cons.prems(7) r0 by (cases "ws = []") auto
      then have "\<exists>u. memcpy_widths (dma_done k) heap ws dest src cnt b rest s = Inr (Some (dest, u))
          \<and> memfun_inv u \<and> mem u = mem_copy dest src (unat cnt) M"
        by (intro Cons.IH) (use Cons.prems in auto)
      moreover have "memcpy_widths (dma_done k) heap (i # ws) dest src cnt b rest s = memcpy_widths (dma_done k) heap ws dest src cnt b rest s"
        by (simp only: memcpy_widths.simps Let_def r0 False if_False)
      ultimately show ?thesis by simp
    qed
  qed
qed


text \<open>C38: with an idle actor \<^verbatim>\<open>nu_pdma_memcpy\<close> returns the destination,
  the destination holds what the source held, no other byte of memory has changed, and the actors are as
  idle as before; whatever the alignment of the two areas, up to 65536 bytes, when these do not overlap.\<close>

theorem nu_pdma_memcpy_correct:
  assumes "memfun_inv s" "unat cnt \<le> 0x10000" "apart dest src (unat cnt)"
  shows "\<exists>t. nu_pdma_memcpy (dma_done k) heap dest src cnt s = Inr (Some (dest, t))
    \<and> memfun_inv t \<and> mem t = mem_copy dest src (unat cnt) (mem s)"
  unfolding nu_pdma_memcpy_def
  by (rule memcpy_widths_ok [OF _ assms(1) _ assms(2,3)]) simp_all

section \<open>The actors at start\<close>

lemma chan_take_mods:
  "\<exists>f. mods (chan_take ctl n p) = (mods p)[n div 16 := f (mods p ! (n div 16))] \<and> (\<forall>r. flags (f r) = flags r)" if "n < 32" "length (mods p) = 2"
  using that by (auto simp: chan_take_def nu_pdma_channel_enable_def nu_pdma_channel_reset_def upd_mod_def flags_def)

lemma chan_take_idle:
  assumes "\<forall>r\<in>set (mods p). idle_regs r" "n < 32" "length (mods p) = 2"
  shows "\<forall>r\<in>set (mods (chan_take ctl n p)). idle_regs r"
proof -
  obtain f where f: "mods (chan_take ctl n p) = (mods p)[n div 16 := f (mods p ! (n div 16))]" "\<And>r. flags (f r) = flags r"
    using chan_take_mods [OF assms(2,3), of ctl] by blast
  have "idle_regs (f (mods p ! (n div 16)))"
    using assms nth_mem [of "n div 16" "mods p"] f(2) [of "mods p ! (n div 16)"] by (auto simp: idle_regs_def flags_def)
  then show ?thesis unfolding f(1) using assms(1) set_update_subset_insert [of "mods p" "n div 16" "f (mods p ! (n div 16))"] by auto
qed

lemma chan_chan_take:
  assumes "length (nu_pdma_chn_arr p) = 32" "n < 32" "j < 32"
  shows "chan (chan_take ctl n p) (int j) =
    (if j = n then chn_zero\<lparr>m_u32Peripheral := fst ctl, m_eMemCtl := snd ctl\<rparr> else chan p (int j))"
  using assms by (simp add: chan_take_def nu_pdma_channel_enable_def nu_pdma_channel_reset_def chan_def upd_chan_def)

lemma nu_pdma_memfun_actor_init_ok:
  assumes "\<not> nu_pdma_inited p" "length (nu_pdma_chn_mask_arr p) = 2" "length (mods p) = 2" "sg_placed p" "idle_regs (reset_regs p)"
  shows "\<exists>s. nu_pdma_memfun_actor_init mm p = Inr s \<and> memfun_inv s \<and> mem s = mm"
proof -
  let ?q = "nu_pdma_init p" and ?c = "g_nu_pdma_peripheral_ctl_pool ! 0"
  note i = nu_pdma_init_ok [OF assms(1-4)]
  have t: "nu_pdma_peripheral_set 0 = Some 0" "?c = (0, eMemCtl_SrcInc_DstInc)"
    by (simp_all add: nu_pdma_peripheral_set_def g_nu_pdma_peripheral_ctl_pool_def upt_rec)
  have ok: "pdma_ok ?q" "chan_free ?q = {..<32}" using i by simp_all
  let ?r = "chan_take ?c 0 ?q" and ?s = "chan_take ?c 1 (chan_take ?c 0 ?q)"
  have o1: "pdma_ok ?r" and o2: "pdma_ok ?s" using pdma_ok_take ok(1) by simp_all
  have f1: "chan_free ?r = {..<32} - {0}" and f2: "chan_free ?s = {..<32} - {0, 1}"
    using chan_take_ok [OF pdma_ok_parts(1) [OF ok(1)], of 0 ?c] chan_take_ok [OF pdma_ok_parts(1) [OF o1], of 1 ?c] ok(2) by auto
  have mn: "Min ({..<32} - {0::nat}) = 1" by (rule Min_eqI) auto
  have m0: "Min {..<32::nat} = 0" by (rule Min_eqI) auto
  have "0 \<in> {..<32::nat}" "1 \<in> {..<32} - {0::nat}" by simp_all
  then have ne: "{..<32::nat} \<noteq> {}" "{..<32} - {0::nat} \<noteq> {}" by blast+
  have a: "nu_pdma_channel_allocate 0 ?q = Inr (0, ?r)" "nu_pdma_channel_allocate 0 ?r = Inr (1, ?s)"
    using channel_allocate [OF pdma_ok_parts(1) [OF ok(1)] t(1)] channel_allocate [OF pdma_ok_parts(1) [OF o1] t(1)]
    unfolding ok(2) f1 m0 mn using ne by simp_all
  have l: "actor_init_loop 2 ?q = Inr ([0, 1], ?s)"
    using a by (simp add: numeral_2_eq_2)
  have id: "\<forall>r\<in>set (mods ?s). idle_regs r"
  proof -
    have "\<forall>r\<in>set (mods ?q). idle_regs r"
      by (rule nu_pdma_init_form [OF assms(1-3)]) (use assms(5) in \<open>simp add: idle_regs_def\<close>)
    then have "\<forall>r\<in>set (mods ?r). idle_regs r" by (rule chan_take_idle) (use pdma_ok_parts(5) [OF ok(1)] in simp_all)
    then show ?thesis by (rule chan_take_idle) (use pdma_ok_parts(5) [OF o1] in simp_all)
  qed
  have ln: "length (nu_pdma_chn_arr ?q) = 32" "length (nu_pdma_chn_arr ?r) = 32"
    using pdma_ok_parts(1) [OF ok(1)] pdma_ok_parts(1) [OF o1] by (simp_all add: chan_inv_def)
  have ao: "actor_ok ?s 0" "actor_ok ?s 1"
    unfolding actor_ok_def f2 using chan_chan_take [OF ln(1), of 0 0 ?c] chan_chan_take [OF ln(2), of 1 0 ?c] chan_chan_take [OF ln(2), of 1 1 ?c]
    by (simp_all add: t(2) chn_zero_def null_cb_def)
  have ct: "nu_cto (NOT (push_bit 2 1 - 1)) < 2"
    unfolding nu_cto_lt_iff [of 2, simplified] by (rule exI [of _ 0]) (simp add: bit_0)
  show ?thesis using l id o2 ao ct by (simp add: nu_pdma_memfun_actor_init_def Let_def memfun_inv_def numeral_2_eq_2)
qed

text \<open>A copy of 27 bytes between word-aligned areas: six words, a half word and a byte.\<close>

definition demo_mem :: "u32 \<Rightarrow> u8" where
  "demo_mem a = ucast a"

theorem nu_pdma_memcpy_correct_witness:
  "\<exists>s t. nu_pdma_memfun_actor_init demo_mem demo_raw = Inr s
    \<and> nu_pdma_memcpy (dma_done 1) None 0x20020000 0x20010000 27 s = Inr (Some (0x20020000, t))
    \<and> mem t = mem_copy 0x20020000 0x20010000 27 demo_mem"
proof -
  have "idle_regs (reset_regs demo_raw)" by (simp add: demo_raw_def demo_regs_def idle_regs_def)
  then obtain s where s: "nu_pdma_memfun_actor_init demo_mem demo_raw = Inr s" "memfun_inv s" "mem s = demo_mem"
    using nu_pdma_memfun_actor_init_ok [of demo_raw demo_mem] demo_raw by auto
  have ap: "apart 0x20020000 0x20010000 27"
    unfolding apart_def
  proof (intro allI impI notI)
    fix i j :: nat assume h: "i < 27" "j < 27" "(0x20010000 :: u32) + word_of_nat i = 0x20020000 + word_of_nat j"
    have "unat ((0x20010000 :: u32) + word_of_nat i) = 0x20010000 + i" using h(1) by (simp add: unat_word_ariths unat_of_small)
    moreover have "unat ((0x20020000 :: u32) + word_of_nat j) = 0x20020000 + j" using h(2) by (simp add: unat_word_ariths unat_of_small)
    ultimately show False using h by simp
  qed
  show ?thesis using nu_pdma_memcpy_correct [OF s(2), of 27 "0x20020000" "0x20010000" 1 None] ap s by auto
qed

end
