(* ===== verification/DevIpc.thy ===== *)
theory DevIpc
  imports Block IpcWake
begin

text \<open>
  Synchronisation for device drivers: completions
  (\<^verbatim>\<open>rt-thread/components/drivers/ipc/completion.c\<close>) and wait queues
  (\<^verbatim>\<open>rt-thread/components/drivers/ipc/waitqueue.c\<close>).  Both are structures of the
  driver, not kernel objects: their state is passed beside the kernel.
\<close>

section \<open>Completions\<close>

text \<open>The flag of completion \<open>n\<close>, whose waiter is in
  \<open>QSuspend (OCompletion n)\<close>.\<close>

abbreviation (input) RT_COMPLETED :: u32 where "RT_COMPLETED \<equiv> 1"
abbreviation (input) RT_UNCOMPLETED :: u32 where "RT_UNCOMPLETED \<equiv> 0"

definition rt_completion_init :: "nat \<Rightarrow> kernel \<Rightarrow> u32 \<times> kernel" where
  "rt_completion_init n s = (RT_UNCOMPLETED, upd_queue (QSuspend (OCompletion n)) (\<lambda>_. []) s)"

definition rt_completion_wait :: "nat \<Rightarrow> int \<Rightarrow> u32 \<Rightarrow> kernel \<Rightarrow> (int outcome \<times> u32 \<times> kernel) res" where
  "rt_completion_wait n timeout flag s =
     assert_then (RT_DEBUG_SCHEDULER_AVAILABLE (timeout \<noteq> 0) s) (
     if flag \<noteq> RT_COMPLETED then
       assert_then (queues s (QSuspend (OCompletion n)) = []) (
       if timeout = 0 then Inr (Return (- RT_ETIMEOUT), flag, s)
       else case rt_thread_self s of None \<Rightarrow> Inl NullDeref
       | Some thread \<Rightarrow>
         bind_res (block_in (QSuspend (OCompletion n)) (\<lambda>l. l @ [thread]) thread timeout (reset_error thread s))
           (\<lambda>s. Inr (Blocked, flag, s)))
     else Inr (Return RT_EOK, RT_UNCOMPLETED, s))"

text \<open>What the waiter does when it runs again.\<close>

definition rt_completion_wait_resume :: "tid \<Rightarrow> u32 \<Rightarrow> kernel \<Rightarrow> int \<times> u32" where
  "rt_completion_wait_resume thread flag s = (error (threads s thread), RT_UNCOMPLETED)"

definition rt_completion_done :: "nat \<Rightarrow> u32 \<Rightarrow> kernel \<Rightarrow> (u32 \<times> kernel) res" where
  "rt_completion_done n flag s =
     (if flag = RT_COMPLETED then Inr (flag, s)
      else bind_res (ipc_wake (QSuspend (OCompletion n)) s) (\<lambda>s. Inr (RT_COMPLETED, s)))"

lemma completion_wait_ok:
  assumes "running s c" "queues s (QSuspend (OCompletion n)) = []" "timeout < 0x7fffffff"
  shows "\<exists>r flag' s'. rt_completion_wait n timeout flag s = Inr (r, flag', s') \<and> kinv s' \<and>
    (if flag = RT_COMPLETED then r = Return RT_EOK \<and> flag' = RT_UNCOMPLETED \<and> s' = s
     else if timeout = 0 then r = Return (- RT_ETIMEOUT) \<and> flag' = flag \<and> s' = s
     else r = Blocked \<and> flag' = flag \<and> tstat s' c = RT_THREAD_SUSPEND \<and> queues s' (QSuspend (OCompletion n)) = [c]
       \<and> (ready_group s \<noteq> 0 \<longrightarrow> runs_highest s'))"
proof -
  note d = runningD [OF assms(1)]
  have ctx: "RT_DEBUG_SCHEDULER_AVAILABLE b s" for b
    using d(6) by (simp add: RT_DEBUG_SCHEDULER_AVAILABLE_def)
  have k: "kinv s" using assms(1) by (simp add: running_def)
  show ?thesis
  proof (cases "flag \<noteq> RT_COMPLETED \<and> timeout \<noteq> 0")
    case True
    obtain s' where s': "block_in (QSuspend (OCompletion n)) (\<lambda>l. l @ [c]) c timeout (reset_error c s) = Inr s'"
      "kinv s'" "waiting_at (QSuspend (OCompletion n)) (\<lambda>l. l @ [c]) c (reset_error c s) s'"
      by (rule block_in_ok [OF running_reset_error [OF assms(1)] _ adds_ends(1) assms(3), of "QSuspend (OCompletion n)"]) simp_all
    show ?thesis
      using True s' assms(2) ctx d(7) by (simp add: rt_completion_wait_def waiting_at_def)
  qed (use assms(2) ctx k in \<open>auto simp: rt_completion_wait_def\<close>)
qed


text \<open>A thread that waited in the completion and was woken by its timer: its wait clears the flag even
  when the completion was signalled before it ran again, so the signal is lost.\<close>

lemma rt_completion_lost:
  assumes "queues s (QSuspend (OCompletion n)) = []" "flag \<noteq> RT_COMPLETED" "error (threads s w) = - RT_ETIMEOUT"
  shows "rt_completion_done n flag s = Inr (RT_COMPLETED, s)
    \<and> rt_completion_wait_resume w RT_COMPLETED s = (- RT_ETIMEOUT, RT_UNCOMPLETED)"
  using assms by (simp add: rt_completion_done_def rt_completion_wait_resume_def ipc_wake_def)

text \<open>And a thread that waits between the signal and the woken waiter's next run takes the mark, and the
  waiter succeeds all the same: two waits return \<^verbatim>\<open>RT_EOK\<close> for one signal.\<close>

lemma rt_completion_twice:
  assumes "running s c" "error (threads s w) = RT_EOK"
  shows "rt_completion_wait n timeout RT_COMPLETED s = Inr (Return RT_EOK, RT_UNCOMPLETED, s)
    \<and> rt_completion_wait_resume w RT_UNCOMPLETED s = (RT_EOK, RT_UNCOMPLETED)"
  using assms runningD [OF assms(1)]
  by (simp add: rt_completion_wait_def rt_completion_wait_resume_def RT_DEBUG_SCHEDULER_AVAILABLE_def)


section \<open>Wait queues\<close>

text \<open>A node is named by its address; \<open>wq_wakeup\<close> is its function, applied to the key.  A
  waiting thread is not linked by its own list node, so it is in no queue of the kernel.\<close>

record wq_node =
  wq_addr :: nat
  polling_thread :: tid
  wq_wakeup :: "nat \<Rightarrow> int"

record wqueue =
  wq_flag :: u32
  waiting_list :: "wq_node list"

abbreviation (input) RT_WQ_FLAG_CLEAN :: u32 where "RT_WQ_FLAG_CLEAN \<equiv> 0"
abbreviation (input) RT_WQ_FLAG_WAKEUP :: u32 where "RT_WQ_FLAG_WAKEUP \<equiv> 1"

definition rt_wqueue_init :: wqueue where
  "rt_wqueue_init = \<lparr>wq_flag = RT_WQ_FLAG_CLEAN, waiting_list = []\<rparr>"

definition rt_wqueue_add :: "wq_node \<Rightarrow> wqueue \<Rightarrow> wqueue" where
  "rt_wqueue_add node w = w\<lparr>waiting_list := waiting_list w @ [node]\<rparr>"

definition rt_wqueue_remove :: "nat \<Rightarrow> wqueue \<Rightarrow> wqueue" where
  "rt_wqueue_remove a w = w\<lparr>waiting_list := filter (\<lambda>x. wq_addr x \<noteq> a) (waiting_list w)\<rparr>"

definition wqueue_default_wake :: "nat \<Rightarrow> int" where
  "wqueue_default_wake key = 0"

fun wakeup_entry :: "nat \<Rightarrow> wq_node list \<Rightarrow> wq_node option" where
  "wakeup_entry key [] = None"
| "wakeup_entry key (e # es) = (if wq_wakeup e key = 0 then Some e else wakeup_entry key es)"

definition rt_wqueue_wakeup :: "nat \<Rightarrow> wqueue \<Rightarrow> kernel \<Rightarrow> (wqueue \<times> kernel) res" where
  "rt_wqueue_wakeup key w s =
     (let w = w\<lparr>wq_flag := RT_WQ_FLAG_WAKEUP\<rparr>
      in case wakeup_entry key (waiting_list w) of
           None \<Rightarrow> Inr (w, s)
         | Some e \<Rightarrow>
           bind_res (rt_thread_resume (polling_thread e) s) (\<lambda>(_, s).
           bind_res (rt_schedule s) (\<lambda>s. Inr (rt_wqueue_remove (wq_addr e) w, s))))"

text \<open>\<open>a\<close> is the address of the node on the waiter's stack.  The comparison
  \<^verbatim>\<open>tick != RT_WAITING_FOREVER\<close> is of the 32-bit value with all bits set.\<close>

definition wqueue_arm :: "tid \<Rightarrow> u32 \<Rightarrow> kernel \<Rightarrow> kernel res" where
  "wqueue_arm t tck s =
     (if tck \<noteq> word_of_int (- 1) then
        bind_res (rt_timer_control (TThread t) (CTRL_SET_TIME tck) s) (\<lambda>(_, s).
        bind_res (rt_timer_start (TThread t) s) (\<lambda>(_, s). Inr s))
      else Inr s)"

definition rt_wqueue_wait :: "nat \<Rightarrow> int \<Rightarrow> int \<Rightarrow> wqueue \<Rightarrow> kernel \<Rightarrow> (int outcome \<times> wqueue \<times> kernel) res" where
  "rt_wqueue_wait a condition msec w s =
     assert_then (RT_DEBUG_SCHEDULER_AVAILABLE True s) (
     let tck = rt_tick_from_millisecond msec
     in if condition \<noteq> 0 \<or> tck = 0 then Inr (Return 0, w, s)
     else case rt_thread_self s of None \<Rightarrow> Inl NullDeref
     | Some t \<Rightarrow>
       let s = reset_error t s
       in if wq_flag w = RT_WQ_FLAG_WAKEUP
          then Inr (Return (error (threads s t)), w\<lparr>wq_flag := RT_WQ_FLAG_CLEAN\<rparr>, s)
          else
            let w = rt_wqueue_add \<lparr>wq_addr = a, polling_thread = t, wq_wakeup = wqueue_default_wake\<rparr> w
            in bind_res (rt_thread_suspend t s) (\<lambda>(_, s).
               bind_res (wqueue_arm t tck s) (\<lambda>s.
               bind_res (rt_schedule s) (\<lambda>s. Inr (Blocked, w, s)))))"

definition rt_wqueue_wait_resume :: "nat \<Rightarrow> tid \<Rightarrow> wqueue \<Rightarrow> kernel \<Rightarrow> int \<times> wqueue" where
  "rt_wqueue_wait_resume a t w s = (error (threads s t), rt_wqueue_remove a (w\<lparr>wq_flag := RT_WQ_FLAG_CLEAN\<rparr>))"

text \<open>A time the timers can hold, or waiting for ever.\<close>

definition wait_time :: "u32 \<Rightarrow> bool" where
  "wait_time tck \<longleftrightarrow> tck = word_of_int (- 1) \<or> (0 < tck \<and> tck < 0x7fffffff)"

lemma wqueue_arm_eq:
  assumes "wait_time tck"
  shows "wqueue_arm t tck s = arm_timeout t (if tck = word_of_int (- 1) then - 1 else uint tck) s"
proof (cases "tck = word_of_int (- 1)")
  case False
  then have "0 < uint tck" using assms by (simp add: wait_time_def word_less_def)
  then show ?thesis using False by (simp add: wqueue_arm_def arm_timeout_def)
qed (simp add: wqueue_arm_def arm_timeout_def)

lemma wqueue_wait_ok:
  assumes "running s c" "wait_time (rt_tick_from_millisecond msec)" "wq_flag w = RT_WQ_FLAG_CLEAN"
  shows "\<exists>s'. rt_wqueue_wait a 0 msec w s =
      Inr (Blocked, w\<lparr>waiting_list := waiting_list w @ [\<lparr>wq_addr = a, polling_thread = c, wq_wakeup = wqueue_default_wake\<rparr>]\<rparr>, s')
    \<and> kinv s' \<and> tstat s' c = RT_THREAD_SUSPEND \<and> (\<forall>q. (\<forall>p. q \<noteq> QReady p) \<longrightarrow> queues s' q = queues s q)"
proof -
  note d = runningD [OF running_reset_error [OF assms(1), of c]]
  let ?n = "if rt_tick_from_millisecond msec = word_of_int (- 1) then - 1 else uint (rt_tick_from_millisecond msec)"
  have n: "?n < 0x7fffffff" using assms(2) by (auto simp: wait_time_def word_less_def)
  have nz: "rt_tick_from_millisecond msec \<noteq> 0" using assms(2) by (auto simp: wait_time_def)
  obtain s1 where s1: "rt_thread_suspend c (reset_error c s) = Inr (RT_EOK, s1)" "loose_kinv {} s1"
    "tstat s1 c = RT_THREAD_SUSPEND" "\<And>q. queues s1 q = queues (reset_error c s) q" "cur s1 = Some c"
    by (rule suspend_ok [OF d(1-3)]) blast
  obtain s2 s3 where s3: "arm_timeout c ?n s1 = Inr s2" "rt_schedule s2 = Inr s3" "kinv s3" "tstat s3 c = RT_THREAD_SUSPEND"
    "\<And>q. \<forall>p. q \<noteq> QReady p \<Longrightarrow> queues s3 q = queues s1 q"
    by (rule arm_switch_ok [OF s1(2,5,3) n]) blast
  have "rt_wqueue_wait a 0 msec w s =
      Inr (Blocked, w\<lparr>waiting_list := waiting_list w @ [\<lparr>wq_addr = a, polling_thread = c, wq_wakeup = wqueue_default_wake\<rparr>]\<rparr>, s3)"
    using s1(1) s3(1,2) assms(3) nz runningD(6,7) [OF assms(1)]
    by (simp add: rt_wqueue_wait_def Let_def rt_wqueue_add_def wqueue_arm_eq [OF assms(2)])
  then show ?thesis using s3 s1(4) by auto
qed

lemma wqueue_wakeup_ok:
  assumes "running s c" "wakeup_entry key (waiting_list w) = Some e" "tstat s (polling_thread e) = RT_THREAD_SUSPEND"
  shows "\<exists>s'. rt_wqueue_wakeup key w s = Inr (rt_wqueue_remove (wq_addr e) (w\<lparr>wq_flag := RT_WQ_FLAG_WAKEUP\<rparr>), s')
    \<and> kinv s' \<and> runs_highest s' \<and> tstat s' (polling_thread e) \<in> {RT_THREAD_READY, RT_THREAD_RUNNING}"
proof -
  note d = runningD [OF assms(1)]
  let ?t = "polling_thread e"
  have tc: "?t \<noteq> c" using assms(3) d(3) by auto
  obtain s1 where s1: "rt_thread_resume ?t s = Inr (RT_EOK, s1)" "loose_kinv {} s1"
    "tstat s1 ?t = (if cur s = Some ?t then RT_THREAD_RUNNING else RT_THREAD_READY)"
    "cur s1 = cur s" "lock_nest s1 = lock_nest s" "\<And>u. u \<noteq> ?t \<Longrightarrow> threads s1 u = threads s u"
    by (rule resume_ok [OF d(1) assms(3)]) blast
  have c1: "cur s1 = Some c" "tstat s1 c \<noteq> RT_THREAD_READY" "tstat s1 c = RT_THREAD_RUNNING"
    using s1(4,6) tc d(2,3) by auto
  obtain s2 where s2: "rt_schedule s1 = Inr s2" "kinv s2" "sched_frame s1 s2"
    "lock_nest s1 = 0 \<Longrightarrow> tstat s1 c = RT_THREAD_RUNNING \<or> ready_group s1 \<noteq> 0 \<Longrightarrow> runs_highest s2"
    by (rule schedule_ok [OF s1(2) c1(1,2)]) blast
  have "tstat s2 ?t \<in> {RT_THREAD_READY, RT_THREAD_RUNNING}" by (rule sched_frame_awake [OF s2(3)]) (simp add: s1(3))
  then show ?thesis
    using s1(1,5) s2(1,2,4) c1(3) d(4) assms(2) by (simp add: rt_wqueue_wakeup_def Let_def)
qed

text \<open>A waiter whose time is over stays in the list until it runs: a wake-up that comes in between is
  spent on it, the waiters behind it sleep on, and the waiter clears the flag that would have told the next one.\<close>

lemma wqueue_wakeup_lost:
  assumes "running s c" "wakeup_entry key (waiting_list w) = Some e" "started s (polling_thread e)"
    "tstat s (polling_thread e) \<noteq> RT_THREAD_SUSPEND"
  shows "\<exists>s'. rt_wqueue_wakeup key w s = Inr (rt_wqueue_remove (wq_addr e) (w\<lparr>wq_flag := RT_WQ_FLAG_WAKEUP\<rparr>), s')
    \<and> (\<forall>u. tstat s u = RT_THREAD_SUSPEND \<longrightarrow> tstat s' u = RT_THREAD_SUSPEND)
    \<and> wq_flag (snd (rt_wqueue_wait_resume (wq_addr e) (polling_thread e) (rt_wqueue_remove (wq_addr e) (w\<lparr>wq_flag := RT_WQ_FLAG_WAKEUP\<rparr>)) s'))
        = RT_WQ_FLAG_CLEAN"
proof -
  note d = runningD [OF assms(1)]
  have "thread_typed s (polling_thread e)" using d(1) assms(3) by (simp add: loose_kinv_def)
  then have r: "rt_thread_resume (polling_thread e) s = Inr (- RT_ERROR, s)"
    using assms(4) by (simp add: rt_thread_resume_def thread_typed_def)
  obtain s2 where s2: "rt_schedule s = Inr s2" "sched_frame s s2"
    by (rule schedule_ok [OF d(1,2)]) (use d(3) in auto)
  have "tstat s2 u = RT_THREAD_SUSPEND" if "tstat s u = RT_THREAD_SUSPEND" for u
    using sched_frame_stat [OF s2(2), of 2 u] that by simp
  then show ?thesis using r s2(1) assms(2)
    by (simp add: rt_wqueue_wakeup_def Let_def rt_wqueue_wait_resume_def rt_wqueue_remove_def)
qed

end
