(* ===== verification/Device.thy ===== *)
theory Device
  imports Block DevIpc
begin

text \<open>
  The device framework, \<^verbatim>\<open>rt-thread/src/device.c\<close>: registered devices with a
  reference count in front of the functions of a driver.  The driver's functions are a record, as the
  function pointers of \<^verbatim>\<open>struct rt_device\<close>; an absent function is None.  The locale
  \<open>device_driver\<close> states what the framework relies on; what follows for any number of users that
  open and close a device is proved in it.
\<close>

section \<open>Devices\<close>

abbreviation (input) RT_ENOSYS :: int where "RT_ENOSYS \<equiv> 6"

abbreviation (input) RT_DEVICE_FLAG_STANDALONE :: u16 where "RT_DEVICE_FLAG_STANDALONE \<equiv> 0x008"
abbreviation (input) RT_DEVICE_FLAG_ACTIVATED :: u16 where "RT_DEVICE_FLAG_ACTIVATED \<equiv> 0x010"
abbreviation (input) RT_DEVICE_OFLAG_CLOSE :: u16 where "RT_DEVICE_OFLAG_CLOSE \<equiv> 0"
abbreviation (input) RT_DEVICE_OFLAG_OPEN :: u16 where "RT_DEVICE_OFLAG_OPEN \<equiv> 0x008"
abbreviation (input) RT_DEVICE_OFLAG_MASK :: u16 where "RT_DEVICE_OFLAG_MASK \<equiv> 0xf0f"

text \<open>\<open>dev_data\<close> holds the fields a driver adds behind the common structure; a callback is
  named by a number.\<close>

record 'd device =
  dev_id :: nat
  dev_flag :: u16
  open_flag :: u16
  ref_count :: u8
  rx_indicate :: "nat option"
  tx_complete :: "nat option"
  wait_queue :: wqueue
  dev_data :: 'd

text \<open>A read is given the address of the caller's buffer and its size and returns the number it reports
  and the bytes it put there; a write is given the address and the bytes, and returns the number it reports and,
  when it blocks, what is left to send.  \<open>'a\<close> are the arguments of control commands.\<close>

type_synonym ('d, 'r) dev_call = "'d device \<Rightarrow> kernel \<Rightarrow> ('r \<times> 'd device \<times> kernel) res"

record ('d, 'a) dev_ops =
  op_init :: "('d, int) dev_call option"
  op_open :: "(u16 \<Rightarrow> ('d, int) dev_call) option"
  op_close :: "('d, int) dev_call option"
  op_read :: "(nat \<Rightarrow> u32 \<Rightarrow> nat \<Rightarrow> ('d, nat \<times> u8 list) dev_call) option"
  op_write :: "(nat \<Rightarrow> u32 \<times> u8 list \<Rightarrow> ('d, nat outcome \<times> u8 list) dev_call) option"
  op_control :: "(int \<Rightarrow> 'a \<Rightarrow> ('d, int) dev_call) option"

definition is_device :: "'d device \<Rightarrow> kernel \<Rightarrow> bool" where
  "is_device d s \<longleftrightarrow> rt_object_get_type (ODevice (dev_id d)) s = RT_Object_Class_Device"

definition rt_device_find :: "u8 list \<Rightarrow> kernel \<Rightarrow> (oid option \<times> kernel) res" where
  "rt_device_find name s = rt_object_find name RT_Object_Class_Device s"

definition rt_device_register :: "u8 list \<Rightarrow> u16 \<Rightarrow> 'd device option \<Rightarrow> kernel \<Rightarrow> (int \<times> 'd device option \<times> kernel) res" where
  "rt_device_register name flags dev s =
     (case dev of None \<Rightarrow> Inr (- RT_ERROR, dev, s)
      | Some d \<Rightarrow>
        bind_res (rt_device_find name s) (\<lambda>(found, s).
          if found \<noteq> None then Inr (- RT_ERROR, dev, s)
          else bind_res (rt_object_init (ODevice (dev_id d)) RT_Object_Class_Device name s) (\<lambda>s.
            Inr (RT_EOK, Some (d\<lparr>dev_flag := flags, ref_count := 0, open_flag := 0, wait_queue := rt_wqueue_init\<rparr>), s))))"

definition rt_device_unregister :: "'d device \<Rightarrow> kernel \<Rightarrow> (int \<times> kernel) res" where
  "rt_device_unregister d s =
     assert_then (is_device d s) (
     assert_then (rt_object_is_systemobject (ODevice (dev_id d)) s) (
       Inr (RT_EOK, rt_object_detach (ODevice (dev_id d)) s)))"

text \<open>\<open>mem\<close> is the zeroed structure in the memory that was found.\<close>

definition rt_device_create :: "nat option \<Rightarrow> 'd \<Rightarrow> 'd device option" where
  "rt_device_create mem x = (case mem of None \<Rightarrow> None
     | Some n \<Rightarrow> Some \<lparr>dev_id = n, dev_flag = 0, open_flag = 0, ref_count = 0, rx_indicate = None, tx_complete = None,
         wait_queue = \<lparr>wq_flag = 0, waiting_list = []\<rparr>, dev_data = x\<rparr>)"

definition rt_device_destroy :: "'d device \<Rightarrow> kernel \<Rightarrow> kernel res" where
  "rt_device_destroy d s =
     assert_then (is_device d s) (
     assert_then (\<not> rt_object_is_systemobject (ODevice (dev_id d)) s) (
       Inr (rt_object_detach (ODevice (dev_id d)) s)))"

definition activated :: "'d device \<Rightarrow> bool" where
  "activated d \<longleftrightarrow> dev_flag d AND RT_DEVICE_FLAG_ACTIVATED \<noteq> 0"

definition activate :: "'d device \<Rightarrow> 'd device" where
  "activate d = d\<lparr>dev_flag := dev_flag d OR RT_DEVICE_FLAG_ACTIVATED\<rparr>"

definition rt_device_init :: "('d, 'a) dev_ops \<Rightarrow> ('d, int) dev_call" where
  "rt_device_init ops d s =
     (case op_init ops of None \<Rightarrow> Inr (RT_EOK, d, s)
      | Some device_init \<Rightarrow>
        if \<not> activated d then
          bind_res (device_init d s) (\<lambda>(result, d, s).
            Inr (result, if result \<noteq> RT_EOK then d else activate d, s))
        else Inr (RT_EOK, d, s))"

text \<open>The first part of \<^verbatim>\<open>rt_device_open\<close>; a result other than
  \<^verbatim>\<open>RT_EOK\<close> is an early return.\<close>

definition open_init :: "('d, 'a) dev_ops \<Rightarrow> ('d, int) dev_call" where
  "open_init ops d s =
     (if \<not> activated d then
        bind_res (case op_init ops of None \<Rightarrow> Inr (RT_EOK, d, s) | Some device_init \<Rightarrow> device_init d s) (\<lambda>(result, d, s).
          Inr (result, if result \<noteq> RT_EOK then d else activate d, s))
      else Inr (RT_EOK, d, s))"

definition rt_device_open :: "('d, 'a) dev_ops \<Rightarrow> u16 \<Rightarrow> ('d, int) dev_call" where
  "rt_device_open ops oflag d s =
     assert_then (is_device d s) (
     bind_res (open_init ops d s) (\<lambda>(result, d, s).
       if result \<noteq> RT_EOK then Inr (result, d, s)
       else if dev_flag d AND RT_DEVICE_FLAG_STANDALONE \<noteq> 0 \<and> open_flag d AND RT_DEVICE_OFLAG_OPEN \<noteq> 0
         then Inr (- RT_EBUSY, d, s)
       else
         bind_res (case op_open ops of
             Some device_open \<Rightarrow> device_open oflag d s
           | None \<Rightarrow> Inr (RT_EOK, d\<lparr>open_flag := oflag AND RT_DEVICE_OFLAG_MASK\<rparr>, s)) (\<lambda>(result, d, s).
           if result = RT_EOK \<or> result = - RT_ENOSYS then
             let d = d\<lparr>open_flag := open_flag d OR RT_DEVICE_OFLAG_OPEN, ref_count := ref_count d + 1\<rparr>
             in assert_then (ref_count d \<noteq> 0) (Inr (result, d, s))
           else Inr (result, d, s))))"

definition rt_device_close :: "('d, 'a) dev_ops \<Rightarrow> ('d, int) dev_call" where
  "rt_device_close ops d s =
     assert_then (is_device d s) (
     if ref_count d = 0 then Inr (- RT_ERROR, d, s)
     else
       let d = d\<lparr>ref_count := ref_count d - 1\<rparr>
       in if ref_count d \<noteq> 0 then Inr (RT_EOK, d, s)
       else
         bind_res (case op_close ops of Some device_close \<Rightarrow> device_close d s | None \<Rightarrow> Inr (RT_EOK, d, s)) (\<lambda>(result, d, s).
           Inr (result, if result = RT_EOK \<or> result = - RT_ENOSYS then d\<lparr>open_flag := RT_DEVICE_OFLAG_CLOSE\<rparr> else d, s)))"

definition rt_device_read :: "('d, 'a) dev_ops \<Rightarrow> nat \<Rightarrow> u32 \<Rightarrow> nat \<Rightarrow> ('d, nat \<times> u8 list) dev_call" where
  "rt_device_read ops pos buffer sz d s =
     assert_then (is_device d s) (
     if ref_count d = 0 then Inr ((0, []), d, rt_set_errno (- RT_ERROR) s)
     else case op_read ops of Some device_read \<Rightarrow> device_read pos buffer sz d s
       | None \<Rightarrow> Inr ((0, []), d, rt_set_errno (- RT_ENOSYS) s))"

definition rt_device_write :: "('d, 'a) dev_ops \<Rightarrow> nat \<Rightarrow> u32 \<times> u8 list \<Rightarrow> ('d, nat outcome \<times> u8 list) dev_call" where
  "rt_device_write ops pos buffer d s =
     assert_then (is_device d s) (
     if ref_count d = 0 then Inr ((Return 0, snd buffer), d, rt_set_errno (- RT_ERROR) s)
     else case op_write ops of Some device_write \<Rightarrow> device_write pos buffer d s
       | None \<Rightarrow> Inr ((Return 0, snd buffer), d, rt_set_errno (- RT_ENOSYS) s))"

definition rt_device_control :: "('d, 'a) dev_ops \<Rightarrow> int \<Rightarrow> 'a \<Rightarrow> ('d, int) dev_call" where
  "rt_device_control ops cmd arg d s =
     assert_then (is_device d s) (
     case op_control ops of Some device_control \<Rightarrow> device_control cmd arg d s
       | None \<Rightarrow> Inr (- RT_ENOSYS, d, s))"

definition rt_device_set_rx_indicate :: "nat option \<Rightarrow> 'd device \<Rightarrow> kernel \<Rightarrow> (int \<times> 'd device) res" where
  "rt_device_set_rx_indicate rx_ind d s = assert_then (is_device d s) (Inr (RT_EOK, d\<lparr>rx_indicate := rx_ind\<rparr>))"

definition rt_device_set_tx_complete :: "nat option \<Rightarrow> 'd device \<Rightarrow> kernel \<Rightarrow> (int \<times> 'd device) res" where
  "rt_device_set_tx_complete tx_done d s = assert_then (is_device d s) (Inr (RT_EOK, d\<lparr>tx_complete := tx_done\<rparr>))"

section \<open>The contract of a driver\<close>

text \<open>What a driver must not touch.\<close>

definition dev_same :: "'d device \<Rightarrow> 'd device \<Rightarrow> bool" where
  "dev_same d' d \<longleftrightarrow> dev_id d' = dev_id d \<and> ref_count d' = ref_count d
     \<and> dev_flag d' AND RT_DEVICE_FLAG_STANDALONE = dev_flag d AND RT_DEVICE_FLAG_STANDALONE"

text \<open>Users that open and close in any order, and how many have it open; a close too many is refused.\<close>

datatype user_op = UOpen | UClose

fun device_users :: "('d, 'a) dev_ops \<Rightarrow> u16 \<Rightarrow> user_op list \<Rightarrow> 'd device \<Rightarrow> kernel \<Rightarrow> ('d device \<times> kernel) res" where
  "device_users ops oflag [] d s = Inr (d, s)"
| "device_users ops oflag (UOpen # us) d s = bind_res (rt_device_open ops oflag d s) (\<lambda>(_, d, s). device_users ops oflag us d s)"
| "device_users ops oflag (UClose # us) d s = bind_res (rt_device_close ops d s) (\<lambda>(_, d, s). device_users ops oflag us d s)"

fun open_count :: "user_op list \<Rightarrow> nat \<Rightarrow> nat" where
  "open_count [] n = n"
| "open_count (UOpen # us) n = open_count us (Suc n)"
| "open_count (UClose # us) n = open_count us (n - 1)"

text \<open>The driver is idle (nothing is open) or in use; \<open>K\<close> is what it needs of the kernel.  Initialising keeps it
  idle, opening (once more) succeeds, closing makes it idle.\<close>

locale device_driver =
  fixes ops :: "('d, 'a) dev_ops" and oflag :: u16 and idle :: "'d device \<Rightarrow> bool" and in_use :: "'d device \<Rightarrow> bool"
    and K :: "kernel \<Rightarrow> bool"
  assumes fields: "idle d \<Longrightarrow> idle (d\<lparr>ref_count := n, dev_flag := dev_flag d OR RT_DEVICE_FLAG_ACTIVATED\<rparr>)"
      "idle d \<Longrightarrow> idle (d\<lparr>open_flag := RT_DEVICE_OFLAG_CLOSE\<rparr>)"
      "in_use d \<Longrightarrow> in_use (d\<lparr>open_flag := open_flag d OR RT_DEVICE_OFLAG_OPEN, ref_count := n\<rparr>)"
      "in_use d \<Longrightarrow> in_use (d\<lparr>ref_count := n\<rparr>)"
    and used_active: "in_use d \<Longrightarrow> activated d"
    and init_ok: "K s \<Longrightarrow> idle d \<Longrightarrow> \<not> activated d \<Longrightarrow> op_init ops = Some f \<Longrightarrow>
      \<exists>d' s'. f d s = Inr (RT_EOK, d', s') \<and> idle d' \<and> dev_same d' d \<and> open_flag d' = open_flag d \<and> K s'"
    and open_ok: "K s \<Longrightarrow> idle d \<and> activated d \<or> in_use d \<Longrightarrow> \<exists>f d' s'. op_open ops = Some f \<and>
      f oflag d s = Inr (RT_EOK, d', s') \<and> in_use d' \<and> dev_same d' d \<and> K s'"
    and close_ok: "K s \<Longrightarrow> in_use d \<Longrightarrow> ref_count d = 0 \<Longrightarrow> \<exists>f d' s'. op_close ops = Some f \<and>
      f d s = Inr (RT_EOK, d', s') \<and> idle d' \<and> dev_same d' d \<and> K s'"
    and kernel_ok: "K s \<Longrightarrow> idle d \<or> in_use d \<Longrightarrow> is_device d s"
begin

text \<open>A device that its users share: in use exactly when somebody has it open.\<close>

definition shared :: "'d device \<Rightarrow> bool" where
  "shared d \<longleftrightarrow> dev_flag d AND RT_DEVICE_FLAG_STANDALONE = 0 \<and> (if ref_count d = 0 then idle d else in_use d)"

lemma shared_device: "K s \<Longrightarrow> shared d \<Longrightarrow> is_device d s"
  using kernel_ok by (auto simp: shared_def split: if_splits)

lemma open_shared:
  assumes "K s" "shared d" "ref_count d \<noteq> 255"
  shows "\<exists>d' s'. rt_device_open ops oflag d s = Inr (RT_EOK, d', s') \<and> K s' \<and> shared d' \<and> ref_count d' = ref_count d + 1"
proof -
  have st: "dev_flag d AND RT_DEVICE_FLAG_STANDALONE = 0" using assms(2) by (simp add: shared_def)
  have "\<exists>d1 s1. open_init ops d s = Inr (RT_EOK, d1, s1) \<and> K s1 \<and> dev_same d1 d \<and> (idle d1 \<and> activated d1 \<or> in_use d1)"
  proof (cases "activated d")
    case True
    then show ?thesis using assms(1,2) by (auto simp: open_init_def shared_def dev_same_def split: if_splits)
  next
    case False
    then have i: "idle d" using assms(2) used_active by (auto simp: shared_def split: if_splits)
    have act: "activated (activate x)" "idle x \<Longrightarrow> idle (activate x)" "dev_same x d \<Longrightarrow> dev_same (activate x) d" for x
    proof -
      have "(dev_flag x OR RT_DEVICE_FLAG_ACTIVATED) AND RT_DEVICE_FLAG_ACTIVATED = RT_DEVICE_FLAG_ACTIVATED"
        by (simp add: word_ao_absorbs)
      then show "activated (activate x)" by (simp add: activated_def activate_def)
      show "idle x \<Longrightarrow> idle (activate x)" using fields(1) [of x "ref_count x"] by (simp add: activate_def)
      have "(dev_flag x OR RT_DEVICE_FLAG_ACTIVATED) AND RT_DEVICE_FLAG_STANDALONE = dev_flag x AND RT_DEVICE_FLAG_STANDALONE"
        by (simp add: word_ao_dist)
      then show "dev_same x d \<Longrightarrow> dev_same (activate x) d" by (simp add: dev_same_def activate_def)
    qed
    show ?thesis
    proof (cases "op_init ops")
      case None
      then show ?thesis using False i assms(1) act [of d] by (auto simp: open_init_def dev_same_def)
    next
      case (Some f)
      obtain d' s' where "f d s = Inr (RT_EOK, d', s')" "idle d'" "dev_same d' d" "K s'"
        using init_ok [OF assms(1) i False Some] by blast
      then show ?thesis using False Some act [of d'] by (simp add: open_init_def)
    qed
  qed
  then obtain d1 s1 where d1: "open_init ops d s = Inr (RT_EOK, d1, s1)" "K s1" "dev_same d1 d" "idle d1 \<and> activated d1 \<or> in_use d1"
    by blast
  obtain f d2 s2 where d2: "op_open ops = Some f" "f oflag d1 s1 = Inr (RT_EOK, d2, s2)" "in_use d2" "dev_same d2 d1" "K s2"
    using open_ok [OF d1(2,4)] by blast
  let ?d = "d2\<lparr>open_flag := open_flag d2 OR RT_DEVICE_OFLAG_OPEN, ref_count := ref_count d2 + 1\<rparr>"
  have rc: "ref_count d2 = ref_count d" using d1(3) d2(4) by (simp add: dev_same_def)
  have nz: "ref_count d + 1 \<noteq> 0"
  proof
    assume "ref_count d + 1 = 0"
    then have "ref_count d = - 1" by (simp add: eq_neg_iff_add_eq_0)
    then show False using assms(3) by simp
  qed
  have "shared ?d"
    using d2(3) nz st d1(3) d2(4) fields(3) [OF d2(3)] by (simp add: shared_def rc dev_same_def)
  moreover have "rt_device_open ops oflag d s = Inr (RT_EOK, ?d, s2)"
    using shared_device [OF assms(1,2)] d1(1,3) d2(1,2) st nz by (simp add: rt_device_open_def dev_same_def rc)
  ultimately show ?thesis using d2(5) rc by auto
qed

lemma close_shared:
  assumes "K s" "shared d" "ref_count d \<noteq> 0"
  shows "\<exists>d' s'. rt_device_close ops d s = Inr (RT_EOK, d', s') \<and> K s' \<and> shared d' \<and> ref_count d' = ref_count d - 1"
proof -
  have u: "in_use d" "dev_flag d AND RT_DEVICE_FLAG_STANDALONE = 0" using assms(2,3) by (simp_all add: shared_def)
  let ?d = "d\<lparr>ref_count := ref_count d - 1\<rparr>"
  have ud: "in_use ?d" by (rule fields(4) [OF u(1)])
  show ?thesis
  proof (cases "ref_count d - 1 = 0")
    case False
    then show ?thesis using shared_device [OF assms(1,2)] assms(1,3) u(2) ud
      by (simp add: rt_device_close_def Let_def shared_def)
  next
    case True
    obtain f d' s' where f: "op_close ops = Some f" "f ?d s = Inr (RT_EOK, d', s')" "idle d'" "dev_same d' ?d" "K s'"
      using close_ok [OF assms(1) ud] True by auto
    have "shared (d'\<lparr>open_flag := RT_DEVICE_OFLAG_CLOSE\<rparr>)"
      using fields(2) [OF f(3)] f(4) u(2) True by (simp add: shared_def dev_same_def)
    then show ?thesis using shared_device [OF assms(1,2)] assms(3) True f by (simp add: rt_device_close_def Let_def dev_same_def)
  qed
qed

lemma close_unopened: "K s \<Longrightarrow> shared d \<Longrightarrow> ref_count d = 0 \<Longrightarrow> rt_device_close ops d s = Inr (- RT_ERROR, d, s)"
  using shared_device by (simp add: rt_device_close_def)

lemma users_shared:
  assumes "K s" "shared d" "unat (ref_count d) + length us < 256"
  shows "\<exists>d' s'. device_users ops oflag us d s = Inr (d', s') \<and> K s' \<and> shared d' \<and> unat (ref_count d') = open_count us (unat (ref_count d))"
  using assms
proof (induction us arbitrary: d s)
  case (Cons u us)
  let ?r = "ref_count d"
  show ?case
  proof (cases u)
    case UOpen
    have r: "?r \<noteq> 255"
    proof
      assume "?r = 255"
      then have "unat ?r = 255" by simp
      then show False using Cons.prems(3) by simp
    qed
    obtain d' s' where d': "rt_device_open ops oflag d s = Inr (RT_EOK, d', s')" "K s'" "shared d'" "ref_count d' = ?r + 1"
      using open_shared [OF Cons.prems(1,2) r] by blast
    have "unat (?r + 1) = Suc (unat ?r)" using Cons.prems(3) by (simp add: unat_word_ariths)
    then show ?thesis using Cons.IH [OF d'(2,3)] d'(1,4) Cons.prems(3) UOpen by simp
  next
    case UClose
    show ?thesis
    proof (cases "?r = 0")
      case True
      then show ?thesis
        using Cons.IH [OF Cons.prems(1,2)] Cons.prems close_unopened [OF Cons.prems(1,2) True] UClose by simp
    next
      case False
      obtain d' s' where d': "rt_device_close ops d s = Inr (RT_EOK, d', s')" "K s'" "shared d'" "ref_count d' = ?r - 1"
        using close_shared [OF Cons.prems(1,2) False] by blast
      have "unat (?r - 1) = unat ?r - 1" using False by (simp add: unat_minus_one)
      then show ?thesis using Cons.IH [OF d'(2,3)] d'(1,4) Cons.prems(3) UClose by simp
    qed
  qed
qed simp

end

end
