(* ===== verification/DataQueue.thy ===== *)
theory DataQueue
  imports Block IpcWake Ring
begin

text \<open>
  The data queue of the device drivers,
  \<^verbatim>\<open>rt-thread/components/drivers/ipc/dataqueue.c\<close>: a circular array of pairs of a
  pointer and a size, with a list of waiting writers and one of waiting readers.  The indices are 15-bit
  fields.  The notification \<^verbatim>\<open>evt_notify\<close> is the last thing a call does; the model
  returns its event, to be passed to the callback when there is one.
\<close>

section \<open>The array\<close>

record dataqueue =
  dq_magic :: u32
  dq_size :: nat
  dq_lwm :: nat
  get_index :: nat
  put_index :: nat
  is_empty :: bool
  is_full :: bool
  dq_items :: "(u32 \<times> u32) list option"

abbreviation (input) DATAQUEUE_MAGIC :: u32 where "DATAQUEUE_MAGIC \<equiv> 0xbead0e0e"
abbreviation (input) RT_DATAQUEUE_EVENT_POP :: nat where "RT_DATAQUEUE_EVENT_POP \<equiv> 1"
abbreviation (input) RT_DATAQUEUE_EVENT_PUSH :: nat where "RT_DATAQUEUE_EVENT_PUSH \<equiv> 2"
abbreviation (input) RT_DATAQUEUE_EVENT_LWM :: nat where "RT_DATAQUEUE_EVENT_LWM \<equiv> 3"

abbreviation QPop :: "nat \<Rightarrow> qid" where "QPop n \<equiv> QSuspend (ODataQueue n)"
abbreviation QPush :: "nat \<Rightarrow> qid" where "QPush n \<equiv> QSender (ODataQueue n)"

text \<open>\<open>mem\<close> is the memory the allocation returned.\<close>

definition rt_data_queue_init :: "nat \<Rightarrow> nat \<Rightarrow> nat \<Rightarrow> (u32 \<times> u32) list option \<Rightarrow> kernel \<Rightarrow> (int \<times> dataqueue \<times> kernel) res" where
  "rt_data_queue_init n sz lwm mem s =
     assert_then (sz > 0) (
     Inr (if mem = None then - RT_ENOMEM else RT_EOK,
       \<lparr>dq_magic = DATAQUEUE_MAGIC, dq_size = sz, dq_lwm = lwm, get_index = 0, put_index = 0, is_empty = True,
        is_full = False, dq_items = mem\<rparr>,
       upd_queue (QPop n) (\<lambda>_. []) (upd_queue (QPush n) (\<lambda>_. []) s)))"

definition next_index :: "nat \<Rightarrow> nat \<Rightarrow> nat" where
  "next_index sz i = (let i = Suc i mod 32768 in if i = sz then 0 else i)"

definition dq_store :: "u32 \<times> u32 \<Rightarrow> dataqueue \<Rightarrow> dataqueue res" where
  "dq_store x dq =
     (case dq_items dq of None \<Rightarrow> Inl NullDeref
      | Some xs \<Rightarrow>
        if put_index dq < length xs then
          let dq = dq\<lparr>dq_items := Some (xs[put_index dq := x])\<rparr>;
              dq = dq\<lparr>put_index := next_index (dq_size dq) (put_index dq)\<rparr>;
              dq = dq\<lparr>is_empty := False\<rparr>
          in Inr (if put_index dq = get_index dq then dq\<lparr>is_full := True\<rparr> else dq)
        else Inl BadAccess)"

definition dq_fetch :: "dataqueue \<Rightarrow> ((u32 \<times> u32) \<times> dataqueue) res" where
  "dq_fetch dq =
     (case dq_items dq of None \<Rightarrow> Inl NullDeref
      | Some xs \<Rightarrow>
        if get_index dq < length xs then
          let x = xs ! get_index dq;
              dq = dq\<lparr>get_index := next_index (dq_size dq) (get_index dq)\<rparr>;
              dq = dq\<lparr>is_full := False\<rparr>
          in Inr (x, if put_index dq = get_index dq then dq\<lparr>is_empty := True\<rparr> else dq)
        else Inl BadAccess)"

text \<open>The difference is computed in an \<^verbatim>\<open>int\<close> and returned in 16 bits.\<close>

definition dq_len :: "dataqueue \<Rightarrow> nat" where
  "dq_len dq = (if is_empty dq then 0
     else if put_index dq > get_index dq then nat ((int (put_index dq) - int (get_index dq)) mod 65536)
     else nat ((int (dq_size dq) + int (put_index dq) - int (get_index dq)) mod 65536))"

definition rt_data_queue_len :: "dataqueue \<Rightarrow> nat res" where
  "rt_data_queue_len dq = assert_then (dq_magic dq = DATAQUEUE_MAGIC) (Inr (dq_len dq))"

definition rt_data_queue_peek :: "dataqueue \<Rightarrow> (int \<times> (u32 \<times> u32) option) res" where
  "rt_data_queue_peek dq =
     assert_then (dq_magic dq = DATAQUEUE_MAGIC) (
     if is_empty dq then Inr (- RT_EEMPTY, None)
     else case dq_items dq of None \<Rightarrow> Inl NullDeref
       | Some xs \<Rightarrow> if get_index dq < length xs then Inr (RT_EOK, Some (xs ! get_index dq)) else Inl BadAccess)"

section \<open>Operations\<close>

type_synonym 'a dq_result = "int outcome \<times> 'a \<times> nat option \<times> dataqueue \<times> kernel"

definition push_finish :: "nat \<Rightarrow> u32 \<times> u32 \<Rightarrow> dataqueue \<Rightarrow> kernel \<Rightarrow> unit dq_result res" where
  "push_finish n x dq s =
     bind_res (dq_store x dq) (\<lambda>dq.
       if queues s (QPop n) \<noteq> [] then
         bind_res (rt_thread_resume (hd (queues s (QPop n))) s) (\<lambda>(_, s).
         bind_res (rt_schedule s) (\<lambda>s. Inr (Return RT_EOK, (), None, dq, s)))
       else Inr (Return RT_EOK, (), Some RT_DATAQUEUE_EVENT_PUSH, dq, s))"

text \<open>The waiting loop from its condition on.  Unlike the IPC objects of the kernel it starts again
  with the whole time each time it is woken.\<close>

definition push_loop :: "nat \<Rightarrow> u32 \<times> u32 \<Rightarrow> int \<Rightarrow> tid option \<Rightarrow> dataqueue \<Rightarrow> kernel \<Rightarrow> unit dq_result res" where
  "push_loop n x timeout thread dq s =
     (if is_full dq then
        if timeout = 0 then Inr (Return (- RT_ETIMEOUT), (), None, dq, s)
        else case thread of None \<Rightarrow> Inl NullDeref
        | Some t \<Rightarrow> bind_res (block_in (QPush n) (\<lambda>l. l @ [t]) t timeout (reset_error t s))
                      (\<lambda>s. Inr (Blocked, (), None, dq, s))
      else push_finish n x dq s)"

definition rt_data_queue_push :: "nat \<Rightarrow> u32 \<times> u32 \<Rightarrow> int \<Rightarrow> dataqueue \<Rightarrow> kernel \<Rightarrow> unit dq_result res" where
  "rt_data_queue_push n x timeout dq s =
     assert_then (dq_magic dq = DATAQUEUE_MAGIC) (
     assert_then (RT_DEBUG_SCHEDULER_AVAILABLE (timeout \<noteq> 0) s) (
     push_loop n x timeout (rt_thread_self s) dq s))"

definition rt_data_queue_push_resume :: "nat \<Rightarrow> u32 \<times> u32 \<Rightarrow> int \<Rightarrow> tid \<Rightarrow> dataqueue \<Rightarrow> kernel \<Rightarrow> unit dq_result res" where
  "rt_data_queue_push_resume n x timeout t dq s =
     (if error (threads s t) \<noteq> RT_EOK then Inr (Return (error (threads s t)), (), None, dq, s)
      else push_loop n x timeout (Some t) dq s)"

definition pop_finish :: "nat \<Rightarrow> dataqueue \<Rightarrow> kernel \<Rightarrow> (u32 \<times> u32) option dq_result res" where
  "pop_finish n dq s =
     bind_res (dq_fetch dq) (\<lambda>(x, dq).
     bind_res (rt_data_queue_len dq) (\<lambda>len.
       if len \<le> dq_lwm dq then
         bind_res (if queues s (QPush n) \<noteq> [] then
                     bind_res (rt_thread_resume (hd (queues s (QPush n))) s) (\<lambda>(_, s). rt_schedule s)
                   else Inr s)
           (\<lambda>s. Inr (Return RT_EOK, Some x, Some RT_DATAQUEUE_EVENT_LWM, dq, s))
       else Inr (Return RT_EOK, Some x, Some RT_DATAQUEUE_EVENT_POP, dq, s)))"

definition pop_loop :: "nat \<Rightarrow> int \<Rightarrow> tid option \<Rightarrow> dataqueue \<Rightarrow> kernel \<Rightarrow> (u32 \<times> u32) option dq_result res" where
  "pop_loop n timeout thread dq s =
     (if is_empty dq then
        if timeout = 0 then Inr (Return (- RT_ETIMEOUT), None, None, dq, s)
        else case thread of None \<Rightarrow> Inl NullDeref
        | Some t \<Rightarrow> bind_res (block_in (QPop n) (\<lambda>l. l @ [t]) t timeout (reset_error t s))
                      (\<lambda>s. Inr (Blocked, None, None, dq, s))
      else pop_finish n dq s)"

definition rt_data_queue_pop :: "nat \<Rightarrow> int \<Rightarrow> dataqueue \<Rightarrow> kernel \<Rightarrow> (u32 \<times> u32) option dq_result res" where
  "rt_data_queue_pop n timeout dq s =
     assert_then (dq_magic dq = DATAQUEUE_MAGIC) (
     assert_then (RT_DEBUG_SCHEDULER_AVAILABLE (timeout \<noteq> 0) s) (
     pop_loop n timeout (rt_thread_self s) dq s))"

definition rt_data_queue_pop_resume :: "nat \<Rightarrow> int \<Rightarrow> tid \<Rightarrow> dataqueue \<Rightarrow> kernel \<Rightarrow> (u32 \<times> u32) option dq_result res" where
  "rt_data_queue_pop_resume n timeout t dq s =
     (if error (threads s t) \<noteq> RT_EOK then Inr (Return (error (threads s t)), None, None, dq, s)
      else pop_loop n timeout (Some t) dq s)"

text \<open>The two loops of the reset are those of \<^verbatim>\<open>_ipc_list_resume_all\<close>.\<close>

definition rt_data_queue_reset :: "nat \<Rightarrow> dataqueue \<Rightarrow> kernel \<Rightarrow> (dataqueue \<times> kernel) res" where
  "rt_data_queue_reset n dq s =
     assert_then (dq_magic dq = DATAQUEUE_MAGIC) (
     bind_res (ipc_list_resume_all (QPop n) (rt_enter_critical s)) (\<lambda>s.
     bind_res (ipc_list_resume_all (QPush n) s) (\<lambda>s.
     bind_res (rt_exit_critical s) (\<lambda>s.
     bind_res (rt_schedule s) (\<lambda>s.
       Inr (dq\<lparr>get_index := 0, put_index := 0, is_empty := True, is_full := False\<rparr>, s))))))"

definition rt_data_queue_deinit :: "nat \<Rightarrow> dataqueue \<Rightarrow> kernel \<Rightarrow> (int \<times> dataqueue \<times> kernel) res" where
  "rt_data_queue_deinit n dq s =
     assert_then (dq_magic dq = DATAQUEUE_MAGIC) (
     bind_res (rt_data_queue_reset n dq s) (\<lambda>(dq, s).
       Inr (RT_EOK, dq\<lparr>dq_magic := 0, dq_items := None\<rparr>, s)))"

section \<open>The array holds a queue\<close>

definition dq_inv :: "dataqueue \<Rightarrow> bool" where
  "dq_inv dq \<longleftrightarrow> dq_magic dq = DATAQUEUE_MAGIC \<and> (\<exists>xs. dq_items dq = Some xs \<and> length xs = dq_size dq)
     \<and> 0 < dq_size dq \<and> dq_size dq \<le> 32767 \<and> get_index dq < dq_size dq
     \<and> dq_len dq \<le> dq_size dq \<and> put_index dq = (get_index dq + dq_len dq) mod dq_size dq
     \<and> (is_empty dq \<longleftrightarrow> dq_len dq = 0) \<and> (is_full dq \<longleftrightarrow> dq_len dq = dq_size dq)"

definition dq_contents :: "dataqueue \<Rightarrow> (u32 \<times> u32) list" where
  "dq_contents dq = ring_seg (the (dq_items dq)) (get_index dq) (dq_len dq)"

lemma length_dq_contents [simp]: "length (dq_contents dq) = dq_len dq"
  by (simp add: dq_contents_def)

lemma next_index: "i < sz \<Longrightarrow> sz \<le> 32767 \<Longrightarrow> next_index sz i = Suc i mod sz"
  by (cases "Suc i = sz") (auto simp: next_index_def Let_def)

text \<open>The length is the number of entries from the one index to the other, when the flags agree.\<close>

lemma dq_len_unique:
  assumes "get_index dq < dq_size dq" "dq_size dq \<le> 32767" "n \<le> dq_size dq"
    "put_index dq = (get_index dq + n) mod dq_size dq" "is_empty dq \<longleftrightarrow> n = 0"
  shows "dq_len dq = n"
proof (cases "n = 0")
  case False
  show ?thesis
  proof (cases "get_index dq + n < dq_size dq")
    case True
    then show ?thesis using assms False by (simp add: dq_len_def)
  next
    case wrap: False
    have "get_index dq + n - dq_size dq < dq_size dq" using assms(1,3) by simp
    then have "put_index dq = get_index dq + n - dq_size dq"
      using assms(4) wrap by (simp add: le_mod_geq)
    then have "\<not> put_index dq > get_index dq" "int (dq_size dq) + int (put_index dq) - int (get_index dq) = int n"
      using wrap assms(3) by simp_all
    then show ?thesis using assms False by (simp add: dq_len_def)
  qed
qed (use assms in \<open>simp add: dq_len_def\<close>)

lemma dq_invI:
  assumes "dq_magic dq = DATAQUEUE_MAGIC" "dq_items dq = Some xs" "length xs = dq_size dq" "dq_size dq \<le> 32767"
    "get_index dq < dq_size dq" "n \<le> dq_size dq" "put_index dq = (get_index dq + n) mod dq_size dq"
    "is_empty dq \<longleftrightarrow> n = 0" "is_full dq \<longleftrightarrow> n = dq_size dq"
  shows "dq_inv dq" "dq_len dq = n" "dq_contents dq = ring_seg xs (get_index dq) n"
proof -
  show l: "dq_len dq = n" by (rule dq_len_unique [OF assms(5,4,6,7,8)])
  show "dq_inv dq" using assms by (auto simp: dq_inv_def l)
  show "dq_contents dq = ring_seg xs (get_index dq) n" using assms(2) by (simp add: dq_contents_def l)
qed

text \<open>Storing in a queue that is not full.\<close>

lemma dq_store_ok:
  assumes i: "dq_inv dq" and f: "\<not> is_full dq"
  obtains dq' where "dq_store x dq = Inr dq'" "dq_inv dq'" "dq_contents dq' = dq_contents dq @ [x]"
    "dq_size dq' = dq_size dq" "dq_lwm dq' = dq_lwm dq"
proof -
  note d = i [unfolded dq_inv_def]
  let ?N = "dq_size dq" let ?n = "dq_len dq"
  obtain xs where xs: "dq_items dq = Some xs" "length xs = ?N" using d by blast
  have n: "?n < ?N" using d f by linarith
  have p: "put_index dq < ?N" "Suc (put_index dq) mod ?N = (get_index dq + Suc ?n) mod ?N"
    using d by (simp_all add: mod_Suc_eq)
  have full: "(get_index dq + Suc ?n) mod ?N = get_index dq \<longleftrightarrow> Suc ?n = ?N"
  proof (cases "get_index dq + Suc ?n < ?N")
    case False
    have "get_index dq + Suc ?n - ?N < ?N" using d n by linarith
    then show ?thesis using False d n by (auto simp: le_mod_geq)
  qed auto
  let ?d = "dq\<lparr>dq_items := Some (xs[put_index dq := x]), put_index := (get_index dq + Suc ?n) mod ?N, is_empty := False,
    is_full := (Suc ?n = ?N)\<rparr>"
  have nf: "is_full dq = False" using f by simp
  have ni: "next_index ?N (put_index dq) = (get_index dq + Suc ?n) mod ?N"
    using next_index [OF p(1)] p(2) d by (simp only:)
  let ?base = "dq\<lparr>dq_items := Some (xs[put_index dq := x]), put_index := (get_index dq + Suc ?n) mod ?N, is_empty := False\<rparr>"
  have "dq_store x dq = Inr (if Suc ?n = ?N then ?base\<lparr>is_full := True\<rparr> else ?base)"
    using xs p(1) full by (simp add: dq_store_def Let_def ni)
  moreover have "(if Suc ?n = ?N then ?base\<lparr>is_full := True\<rparr> else ?base) = ?d"
  proof -
    have "?base\<lparr>is_full := False\<rparr> = ?base" by (rule dataqueue.equality) (simp_all add: nf)
    then show ?thesis by (cases "Suc ?n = ?N") (simp_all only: if_True if_False simp_thms refl)
  qed
  ultimately have st: "dq_store x dq = Inr ?d" by simp
  note iv = dq_invI [of ?d "xs[put_index dq := x]" "Suc ?n"]
  have c: "dq_contents ?d = ring_seg (xs[put_index dq := x]) (get_index dq) (Suc ?n)"
    using iv(3) d xs n by simp
  have "\<dots> = ring_seg (ring_write xs ((get_index dq + ?n) mod length xs) [x]) (get_index dq) (?n + length [x])"
    using d xs p(1) by (simp add: ring_write_single)
  also have "\<dots> = ring_seg xs (get_index dq) ?n @ [x]"
    by (rule ring_seg_write) (use d xs n in simp_all)
  finally have "dq_contents ?d = dq_contents dq @ [x]" using c xs by (simp add: dq_contents_def)
  then show thesis using st iv(1) d xs n by (intro that [of ?d]) simp_all
qed

lemma dq_fetch_ok:
  assumes i: "dq_inv dq" and e: "\<not> is_empty dq"
  obtains x dq' where "dq_fetch dq = Inr (x, dq')" "dq_inv dq'" "dq_contents dq = x # dq_contents dq'"
    "dq_size dq' = dq_size dq" "dq_lwm dq' = dq_lwm dq"
proof -
  note d = i [unfolded dq_inv_def]
  let ?N = "dq_size dq"
  obtain xs where xs: "dq_items dq = Some xs" "length xs = ?N" using d by blast
  obtain k where k: "dq_len dq = Suc k" using d e by (cases "dq_len dq") auto
  let ?g = "Suc (get_index dq) mod ?N"
  have g: "?g < ?N" "(?g + k) mod ?N = put_index dq" using d k by (simp_all add: mod_add_left_eq)
  have kl: "k < ?N" using d k by linarith
  have empty: "put_index dq = ?g \<longleftrightarrow> k = 0"
  proof (cases "?g + k < ?N")
    case False
    have "?g + k - ?N < ?N" using g(1) kl by linarith
    then show ?thesis using False g kl by (auto simp: le_mod_geq)
  qed (use g in auto)
  let ?d = "dq\<lparr>get_index := ?g, is_full := False, is_empty := (k = 0)\<rparr>"
  have ne: "is_empty dq = False" using e by simp
  have ni: "next_index ?N (get_index dq) = ?g" by (rule next_index) (use d in simp_all)
  let ?base = "dq\<lparr>get_index := ?g, is_full := False\<rparr>"
  have "dq_fetch dq = Inr (xs ! get_index dq, if k = 0 then ?base\<lparr>is_empty := True\<rparr> else ?base)"
    using xs d empty by (simp add: dq_fetch_def Let_def ni)
  moreover have "(if k = 0 then ?base\<lparr>is_empty := True\<rparr> else ?base) = ?d"
  proof -
    have "?base\<lparr>is_empty := False\<rparr> = ?base" by (rule dataqueue.equality) (simp_all add: ne)
    then show ?thesis by (cases "k = 0") (simp_all only: if_True if_False simp_thms refl)
  qed
  ultimately have fe: "dq_fetch dq = Inr (xs ! get_index dq, ?d)" by simp
  note iv = dq_invI [of ?d xs k]
  have c: "dq_contents ?d = ring_seg xs ?g k" using iv(3) d xs g kl by simp
  have "ring_seg xs (get_index dq) (1 + k) = ring_seg xs (get_index dq) 1 @ ring_seg xs (get_index dq + 1) k"
    by (rule ring_seg_append)
  moreover have "ring_seg xs (get_index dq) 1 = [xs ! get_index dq]" using d xs by (simp add: ring_seg_def)
  moreover have "ring_seg xs ?g k = ring_seg xs (Suc (get_index dq)) k"
    using xs(2) ring_seg_mod [of xs "Suc (get_index dq)" k] by simp
  ultimately have "dq_contents dq = xs ! get_index dq # dq_contents ?d" using c k xs by (simp add: dq_contents_def)
  then show thesis using fe iv(1) d xs g kl by (intro that [of "xs ! get_index dq" ?d]) simp_all
qed

text \<open>The bounded queue of the interface.\<close>

definition dq_put :: "u32 \<times> u32 \<Rightarrow> dataqueue \<Rightarrow> dataqueue option" where
  "dq_put x dq = (if is_full dq then None else case dq_store x dq of Inr dq' \<Rightarrow> Some dq' | Inl _ \<Rightarrow> None)"

definition dq_get :: "dataqueue \<Rightarrow> ((u32 \<times> u32) \<times> dataqueue) option" where
  "dq_get dq = (if is_empty dq then None else case dq_fetch dq of Inr r \<Rightarrow> Some r | Inl _ \<Rightarrow> None)"

lemma dq_flags: "dq_inv dq \<Longrightarrow> is_empty dq \<longleftrightarrow> dq_contents dq = []" "dq_inv dq \<Longrightarrow> is_full dq \<longleftrightarrow> length (dq_contents dq) = dq_size dq"
  by (simp_all add: dq_inv_def dq_contents_def ring_seg_def)

interpretation dqf: bounded_fifo dq_inv dq_contents dq_size dq_put dq_get "\<lambda>_. True"
proof
  fix dq x assume i: "dq_inv dq"
  show "length (dq_contents dq) \<le> dq_size dq" using i by (simp add: dq_inv_def)
  show "dq_put x dq = None" if "length (dq_contents dq) = dq_size dq" using that dq_flags(2) [OF i] by (simp add: dq_put_def)
  show "\<exists>dq'. dq_put x dq = Some dq' \<and> dq_inv dq' \<and> dq_contents dq' = dq_contents dq @ [x] \<and> dq_size dq' = dq_size dq"
    if l: "length (dq_contents dq) < dq_size dq"
  proof -
    have f: "\<not> is_full dq" using l dq_flags(2) [OF i] by simp
    show ?thesis by (rule dq_store_ok [OF i f, of x]) (use f in \<open>simp add: dq_put_def\<close>)
  qed
  show "dq_get dq = None" if "dq_contents dq = []" using that dq_flags(1) [OF i] by (simp add: dq_get_def)
  show "\<exists>dq'. dq_get dq = Some (y, dq') \<and> dq_inv dq' \<and> dq_contents dq' = ys \<and> dq_size dq' = dq_size dq"
    if c: "dq_contents dq = y # ys" for y ys
  proof -
    have e: "\<not> is_empty dq" using c dq_flags(1) [OF i] by simp
    show ?thesis by (rule dq_fetch_ok [OF i e]) (use e c in \<open>simp add: dq_get_def\<close>)
  qed
qed

lemma data_queue_fifo:
  assumes "dq_inv dq"
  shows "case dqf.run ops dq of (accepted, outs, dq') \<Rightarrow>
    dq_inv dq' \<and> outs @ dq_contents dq' = dq_contents dq @ accepted \<and> length (dq_contents dq') \<le> dq_size dq"
proof -
  have "dqf.items ops" by (simp add: dqf.items_def)
  then show ?thesis using dqf.run_order [OF assms] by (auto split: prod.splits)
qed

lemma data_queue_init_ok:
  assumes "0 < sz" "sz \<le> 32767" "length xs = sz"
  shows "\<exists>dq s'. rt_data_queue_init n sz lwm (Some xs) s = Inr (RT_EOK, dq, s') \<and> dq_inv dq \<and> dq_contents dq = []"
  using assms by (simp add: rt_data_queue_init_def dq_inv_def dq_contents_def dq_len_def ring_seg_def)

text \<open>Past 32767 entries the 15-bit index goes round before the end of the array.\<close>

lemma next_index_wraps: "32767 < sz \<Longrightarrow> next_index sz 32767 = 0"
  by (simp add: next_index_def)

section \<open>Correctness\<close>

lemma push_finish_ok:
  assumes r: "running s c" and i: "dq_inv dq" and f: "\<not> is_full dq"
  obtains dq' s' where "push_finish n x dq s =
      Inr (Return RT_EOK, (), if queues s (QPop n) = [] then Some RT_DATAQUEUE_EVENT_PUSH else None, dq', s')"
    "kinv s'" "dq_inv dq'" "dq_contents dq' = dq_contents dq @ [x]" "woke_first (QPop n) s s'"
proof -
  obtain dq' where dq': "dq_store x dq = Inr dq'" "dq_inv dq'" "dq_contents dq' = dq_contents dq @ [x]"
    by (rule dq_store_ok [OF i f]) blast
  obtain s' where s': "ipc_wake (QPop n) s = Inr s'" "kinv s'" "woke_first (QPop n) s s'"
    by (rule wake_first_ok [OF r, of "QPop n"]) simp_all
  have "push_finish n x dq s =
      Inr (Return RT_EOK, (), if queues s (QPop n) = [] then Some RT_DATAQUEUE_EVENT_PUSH else None, dq', s')"
    using dq'(1) s'(1)
    by (cases "queues s (QPop n)") (auto simp: push_finish_def ipc_wake_def ipc_list_resume_def bind_res_eq_Inr)
  then show thesis using dq' s' that by blast
qed

lemma pop_finish_ok:
  assumes r: "running s c" and i: "dq_inv dq" and e: "\<not> is_empty dq"
  obtains x dq' s' where "pop_finish n dq s = Inr (Return RT_EOK, Some x,
        Some (if length (dq_contents dq') \<le> dq_lwm dq then RT_DATAQUEUE_EVENT_LWM else RT_DATAQUEUE_EVENT_POP), dq', s')"
    "kinv s'" "dq_inv dq'" "dq_contents dq = x # dq_contents dq'"
    "if length (dq_contents dq') \<le> dq_lwm dq then woke_first (QPush n) s s' else s' = s"
proof -
  obtain x dq' where dq': "dq_fetch dq = Inr (x, dq')" "dq_inv dq'" "dq_contents dq = x # dq_contents dq'" "dq_lwm dq' = dq_lwm dq"
    by (rule dq_fetch_ok [OF i e]) blast
  have len: "rt_data_queue_len dq' = Inr (length (dq_contents dq'))"
    using dq'(2) by (simp add: rt_data_queue_len_def dq_inv_def)
  obtain s' where s': "ipc_wake (QPush n) s = Inr s'" "kinv s'" "woke_first (QPush n) s s'"
    by (rule wake_first_ok [OF r, of "QPush n"]) simp_all
  have k: "kinv s" using r by (simp add: running_def)
  show thesis
  proof (cases "length (dq_contents dq') \<le> dq_lwm dq")
    case True
    then have "pop_finish n dq s = Inr (Return RT_EOK, Some x, Some RT_DATAQUEUE_EVENT_LWM, dq', s')"
      using dq'(1,4) len s'(1)
      by (cases "queues s (QPush n)") (auto simp: pop_finish_def ipc_wake_def ipc_list_resume_def bind_res_eq_Inr)
    then show ?thesis using True dq' s' by (intro that [of x dq' s']) simp_all
  next
    case False
    then have "pop_finish n dq s = Inr (Return RT_EOK, Some x, Some RT_DATAQUEUE_EVENT_POP, dq', s)"
      using dq'(1,4) len by (simp add: pop_finish_def)
    then show ?thesis using False dq' k by (intro that [of x dq' s]) simp_all
  qed
qed

lemma dq_block:
  assumes "running s c" "waits_in q" "timeout < 0x7fffffff"
  obtains s' where "block_in q (\<lambda>l. l @ [c]) c timeout (reset_error c s) = Inr s'" "kinv s'"
    "waiting_at q (\<lambda>l. l @ [c]) c (reset_error c s) s'"
  by (rule block_in_ok [OF running_reset_error [OF assms(1)] assms(2) adds_ends(1) assms(3)]) blast


definition demo_dq :: dataqueue where
  "demo_dq = \<lparr>dq_magic = DATAQUEUE_MAGIC, dq_size = 2, dq_lwm = 1, get_index = 1, put_index = 0, is_empty = False,
     is_full = False, dq_items = Some [(0, 0), (7, 8)]\<rparr>"


section \<open>Reset\<close>

lemma data_queue_reset_ok:
  assumes "running s c" "dq_inv dq"
  shows "\<exists>dq' s'. rt_data_queue_reset n dq s = Inr (dq', s') \<and> kinv s' \<and> dq_inv dq' \<and> dq_contents dq' = []
    \<and> queues s' (QPop n) = [] \<and> queues s' (QPush n) = [] \<and> (\<forall>t \<in> set (queues s (QPop n)). woken_error s' t)"
proof -
  note d = runningD [OF assms(1)]
  have lock: "loose_kinv {} (x\<lparr>lock_nest := k\<rparr>) = loose_kinv {} x" for x and k :: int
    by (rule kinv_fields_cong, simp_all, rule timers_inv_cong, simp_all)
  let ?s = "rt_enter_critical s"
  have k0: "loose_kinv {} ?s" using d(1) by (simp add: rt_enter_critical_def lock)
  obtain s1 where s1: "ipc_list_resume_all (QPop n) ?s = Inr s1" "loose_kinv {} s1" "queues s1 (QPop n) = []"
    "cur s1 = cur ?s" "ipc_same s1 ?s" "\<And>q'. q' \<noteq> QPop n \<Longrightarrow> \<forall>p. q' \<noteq> QReady p \<Longrightarrow> queues s1 q' = queues ?s q'"
    "\<forall>t \<in> set (queues ?s (QPop n)). woken_error s1 t"
    "\<And>c. cur ?s = Some c \<Longrightarrow> tstat ?s c \<noteq> RT_THREAD_READY \<Longrightarrow> tstat s1 c \<noteq> RT_THREAD_READY"
    by (rule ipc_list_resume_all_ok [OF k0, of "QPop n"]) auto
  obtain s2 where s2: "ipc_list_resume_all (QPush n) s1 = Inr s2" "loose_kinv {} s2" "queues s2 (QPush n) = []"
    "cur s2 = cur s1" "ipc_same s2 s1" "\<And>q'. q' \<noteq> QPush n \<Longrightarrow> \<forall>p. q' \<noteq> QReady p \<Longrightarrow> queues s2 q' = queues s1 q'"
    "\<And>t. t \<notin> set (queues s1 (QPush n)) \<Longrightarrow> threads s2 t = threads s1 t"
    "\<And>c. cur s1 = Some c \<Longrightarrow> tstat s1 c \<noteq> RT_THREAD_READY \<Longrightarrow> tstat s2 c \<noteq> RT_THREAD_READY"
    by (rule ipc_list_resume_all_ok [OF s1(2), of "QPush n"]) auto
  have l2: "lock_nest s2 = 1" using s1(5) s2(5) d(4) by (simp add: ipc_same_def rt_enter_critical_def)
  let ?s2 = "s2\<lparr>lock_nest := 0\<rparr>"
  have k2: "loose_kinv {} ?s2" using s2(2) by (simp add: lock)
  have c2: "cur ?s2 = Some c" "tstat ?s2 c \<noteq> RT_THREAD_READY"
    using s1(4,8) s2(4,8) d(2,3) by (auto simp: rt_enter_critical_def)
  obtain s3 where s3: "rt_schedule ?s2 = Inr s3" "kinv s3" "sched_frame ?s2 s3" "cur s3 \<noteq> None"
    by (rule schedule_ok [OF k2 c2]) blast
  then obtain c3 where c3: "loose_kinv {} s3" "cur s3 = Some c3" "tstat s3 c3 \<noteq> RT_THREAD_READY"
    by (auto simp: kinv_def)
  obtain s4 where s4: "rt_schedule s3 = Inr s4" "kinv s4" "sched_frame s3 s4"
    by (rule schedule_ok [OF c3]) blast
  let ?dq = "dq\<lparr>get_index := 0, put_index := 0, is_empty := True, is_full := False\<rparr>"
  have ex: "rt_exit_critical s2 = Inr s3" using l2 c2(1) s3(1) by (simp add: rt_exit_critical_def Let_def)
  have run: "rt_data_queue_reset n dq s = Inr (?dq, s4)"
    using assms(2) s1(1) s2(1) ex s4(1) by (simp add: rt_data_queue_reset_def dq_inv_def)
  have q4: "queues s4 q = queues s2 q" if "\<forall>p. q \<noteq> QReady p" for q
    using s3(3) s4(3) that unfolding sched_frame_def by simp
  have woken: "woken_error s4 t" if "t \<in> set (queues s (QPop n))" for t
  proof -
    have "woken_error s1 t" using s1(7) that by (simp add: rt_enter_critical_def)
    moreover have "t \<notin> set (queues s1 (QPush n))"
      using waiter_suspended [OF s1(2), of "QPush n" t] calculation by (auto simp: woken_error_def)
    ultimately have "woken_error ?s2 t" using s2(7) [of t] by (simp add: woken_error_def)
    then show ?thesis
      using sched_frame_awake [OF s3(3), of t] sched_frame_awake [OF s4(3), of t] sched_frame_error [OF s3(3), of t]
        sched_frame_error [OF s4(3), of t] by (auto simp: woken_error_def)
  qed
  have "dq_inv ?dq" "dq_contents ?dq = []"
    using assms(2) by (simp_all add: dq_inv_def dq_contents_def dq_len_def ring_seg_def)
  then show ?thesis using run s4(2) q4 s1(3) s2(3,6) woken by auto
qed

end
