(* ===== verification/Serial.thy ===== *)
theory Serial
  imports Device DevIpc DataQueue
begin

text \<open>
  The serial device framework, \<^verbatim>\<open>rt-thread/components/drivers/serial/serial.c\<close>,
  configured with DMA and without the POSIX layer: a device of the framework in front of the operations of a
  UART driver.  Reception is by polling, through a circular buffer that the interrupt fills or that the DMA
  controller fills; transmission by polling, by interrupt with a completion, or by DMA with a data queue.
\<close>

section \<open>Data\<close>

record serial_configure =
  baud_rate :: u32
  data_bits :: nat
  stop_bits :: nat
  parity :: nat
  bit_order :: nat
  invert :: nat
  bufsz :: nat
  flowcontrol :: nat

record rx_fifo =
  rx_buffer :: "u8 list"
  rx_put :: nat
  rx_get :: nat
  rx_full :: bool

text \<open>What \<^verbatim>\<open>serial_rx\<close> and \<^verbatim>\<open>serial_tx\<close> point to: in each mode
  a structure of its own.  The completion and the data queue have the number of the device.\<close>

datatype rx_mode = RxFifo rx_fifo | RxDma bool
datatype tx_mode = TxFifo u32 | TxDma bool dataqueue

text \<open>\<open>hw\<close> is the part of the UART driver: its registers and buffers, and the memory that
  \<^verbatim>\<open>rt_malloc\<close> serves.  An address of 0 is NULL.\<close>

record 'h serial =
  config :: serial_configure
  serial_rx :: "(nat \<times> rx_mode) option"
  serial_tx :: "(nat \<times> tx_mode) option"
  hw :: 'h

text \<open>The argument of a control command: a number, or the address of a configuration.\<close>

datatype ctrl_arg = ArgNum nat | ArgConfig serial_configure

type_synonym 'h sdev = "'h serial device"

text \<open>The functions of \<^verbatim>\<open>struct rt_uart_ops\<close> and the allocator: they read the device
  and change the driver's part.\<close>

record 'h uart_ops =
  u_configure :: "(serial_configure \<Rightarrow> 'h sdev \<Rightarrow> int \<times> 'h) option"
  u_control :: "int \<Rightarrow> ctrl_arg \<Rightarrow> 'h sdev \<Rightarrow> int \<times> 'h"
  u_putc :: "u8 \<Rightarrow> 'h sdev \<Rightarrow> int \<times> 'h"
  u_getc :: "'h sdev \<Rightarrow> int \<times> 'h"
  u_dma_transmit :: "u32 \<Rightarrow> u32 \<Rightarrow> nat \<Rightarrow> 'h sdev \<Rightarrow> nat \<times> 'h"
  u_malloc :: "nat \<Rightarrow> 'h sdev \<Rightarrow> nat \<times> 'h"
  u_free :: "nat \<Rightarrow> 'h sdev \<Rightarrow> unit \<times> 'h"
  u_items :: "nat \<Rightarrow> 'h sdev \<Rightarrow> (u32 \<times> u32) list option \<times> 'h"

abbreviation (input) RT_EIO :: int where "RT_EIO \<equiv> 8"
abbreviation (input) RT_DEVICE_FLAG_SUSPENDED :: u16 where "RT_DEVICE_FLAG_SUSPENDED \<equiv> 0x020"
abbreviation (input) RT_DEVICE_FLAG_STREAM :: u16 where "RT_DEVICE_FLAG_STREAM \<equiv> 0x040"
abbreviation (input) RT_DEVICE_FLAG_INT_RX :: u16 where "RT_DEVICE_FLAG_INT_RX \<equiv> 0x100"
abbreviation (input) RT_DEVICE_FLAG_DMA_RX :: u16 where "RT_DEVICE_FLAG_DMA_RX \<equiv> 0x200"
abbreviation (input) RT_DEVICE_FLAG_INT_TX :: u16 where "RT_DEVICE_FLAG_INT_TX \<equiv> 0x400"
abbreviation (input) RT_DEVICE_FLAG_DMA_TX :: u16 where "RT_DEVICE_FLAG_DMA_TX \<equiv> 0x800"
abbreviation (input) RT_DEVICE_CTRL_RESUME :: int where "RT_DEVICE_CTRL_RESUME \<equiv> 1"
abbreviation (input) RT_DEVICE_CTRL_SUSPEND :: int where "RT_DEVICE_CTRL_SUSPEND \<equiv> 2"
abbreviation (input) RT_DEVICE_CTRL_CONFIG :: int where "RT_DEVICE_CTRL_CONFIG \<equiv> 3"
abbreviation (input) RT_DEVICE_CTRL_CLOSE :: int where "RT_DEVICE_CTRL_CLOSE \<equiv> 4"
abbreviation (input) RT_DEVICE_CTRL_SET_INT :: int where "RT_DEVICE_CTRL_SET_INT \<equiv> 0x10"
abbreviation (input) RT_DEVICE_CTRL_CLR_INT :: int where "RT_DEVICE_CTRL_CLR_INT \<equiv> 0x11"
abbreviation (input) RT_SERIAL_DMA_RX :: nat where "RT_SERIAL_DMA_RX \<equiv> 1"
abbreviation (input) RT_SERIAL_DMA_TX :: nat where "RT_SERIAL_DMA_TX \<equiv> 2"

definition set_hw :: "'h \<Rightarrow> 'h sdev \<Rightarrow> 'h sdev" where
  "set_hw h d = d\<lparr>dev_data := (dev_data d)\<lparr>hw := h\<rparr>\<rparr>"

definition call_hw :: "('h sdev \<Rightarrow> 'r \<times> 'h) \<Rightarrow> 'h sdev \<Rightarrow> 'r \<times> 'h sdev" where
  "call_hw f d = (case f d of (r, h) \<Rightarrow> (r, set_hw h d))"

definition has_flag :: "u16 \<Rightarrow> u16 \<Rightarrow> bool" where
  "has_flag x m \<longleftrightarrow> x AND m \<noteq> 0"

definition set_flag :: "u16 \<Rightarrow> 'h sdev \<Rightarrow> 'h sdev" where
  "set_flag m d = d\<lparr>open_flag := open_flag d OR m\<rparr>"

definition clear_flag :: "u16 \<Rightarrow> 'h sdev \<Rightarrow> 'h sdev" where
  "clear_flag m d = d\<lparr>open_flag := open_flag d AND NOT m\<rparr>"

definition put_rx :: "(nat \<times> rx_mode) option \<Rightarrow> 'h sdev \<Rightarrow> 'h sdev" where
  "put_rx x d = d\<lparr>dev_data := (dev_data d)\<lparr>serial_rx := x\<rparr>\<rparr>"

definition put_tx :: "(nat \<times> tx_mode) option \<Rightarrow> 'h sdev \<Rightarrow> 'h sdev" where
  "put_tx x d = d\<lparr>dev_data := (dev_data d)\<lparr>serial_tx := x\<rparr>\<rparr>"

abbreviation the_bufsz :: "'h sdev \<Rightarrow> nat" where "the_bufsz d \<equiv> bufsz (config (dev_data d))"
abbreviation stream :: "'h sdev \<Rightarrow> bool" where "stream d \<equiv> has_flag (open_flag d) RT_DEVICE_FLAG_STREAM"

text \<open>The receive fifo, behind its assertion; a structure of the other mode is no fifo.\<close>

definition with_fifo :: "'h sdev \<Rightarrow> (nat \<Rightarrow> rx_fifo \<Rightarrow> 'r res) \<Rightarrow> 'r res" where
  "with_fifo d k = (case serial_rx (dev_data d) of None \<Rightarrow> Inl AssertFail
     | Some (p, RxFifo f) \<Rightarrow> k p f | Some (p, RxDma a) \<Rightarrow> Inl BadAccess)"

section \<open>Reception\<close>

fun serial_poll_rx :: "'h uart_ops \<Rightarrow> nat \<Rightarrow> 'h sdev \<Rightarrow> u8 list \<times> 'h sdev" where
  "serial_poll_rx u 0 d = ([], d)"
| "serial_poll_rx u (Suc n) d =
     (let (ch, d) = call_hw (u_getc u) d
      in if ch = - 1 then ([], d)
         else if stream d \<and> ch = 10 then ([word_of_int ch], d)
         else let (xs, d) = serial_poll_rx u n d in (word_of_int ch # xs, d))"

text \<open>The loops below run on the fifo alone, \<open>B\<close> is \<^verbatim>\<open>config.bufsz\<close>.\<close>

definition step_index :: "nat \<Rightarrow> nat \<Rightarrow> nat" where
  "step_index B i = (let i = Suc i mod 65536 in if i \<ge> B then 0 else i)"

fun serial_int_rx :: "nat \<Rightarrow> nat \<Rightarrow> rx_fifo \<Rightarrow> (u8 list \<times> rx_fifo) res" where
  "serial_int_rx B 0 f = Inr ([], f)"
| "serial_int_rx B (Suc n) f =
     (if rx_get f = rx_put f \<and> \<not> rx_full f then Inr ([], f)
      else if rx_get f < length (rx_buffer f) then
        let ch = rx_buffer f ! rx_get f;
            f = f\<lparr>rx_get := step_index B (rx_get f)\<rparr>;
            f = (if rx_full f then f\<lparr>rx_full := False\<rparr> else f)
        in bind_res (serial_int_rx B n f) (\<lambda>(xs, f). Inr (ch # xs, f))
      else Inl BadAccess)"

definition serial_fifo_calc_recved_len :: "nat \<Rightarrow> rx_fifo \<Rightarrow> nat" where
  "serial_fifo_calc_recved_len B f =
     (if rx_put f = rx_get f then (if \<not> rx_full f then 0 else B)
      else if rx_put f > rx_get f then rx_put f - rx_get f else B - (rx_get f - rx_put f))"

definition rt_dma_recv_update_get_index :: "nat \<Rightarrow> nat \<Rightarrow> rx_fifo \<Rightarrow> rx_fifo res" where
  "rt_dma_recv_update_get_index B len f =
     assert_then (len \<le> serial_fifo_calc_recved_len B f) (
     let f = (if rx_full f \<and> len \<noteq> 0 then f\<lparr>rx_full := False\<rparr> else f);
         g = (rx_get f + len mod 65536) mod 65536
     in Inr (f\<lparr>rx_get := if g \<ge> B then g mod B else g\<rparr>))"

definition rt_dma_recv_update_put_index :: "nat \<Rightarrow> nat \<Rightarrow> rx_fifo \<Rightarrow> rx_fifo" where
  "rt_dma_recv_update_put_index B len f =
     (let p = (rx_put f + len mod 65536) mod 65536;
          f = (if rx_get f \<le> rx_put f then
                 if p \<ge> B then
                   let f = f\<lparr>rx_put := p mod B\<rparr> in if rx_put f \<ge> rx_get f then f\<lparr>rx_full := True\<rparr> else f
                 else f\<lparr>rx_put := p\<rparr>
               else if p \<ge> rx_get f then f\<lparr>rx_put := if p \<ge> B then p mod B else p, rx_full := True\<rparr>
               else f\<lparr>rx_put := p\<rparr>)
      in if rx_full f then f\<lparr>rx_get := rx_put f\<rparr> else f)"

text \<open>\<open>buf\<close> is the address of the caller's buffer.  A length counts below $2^{31}$.\<close>

definition serial_dma_rx :: "'h uart_ops \<Rightarrow> u32 \<Rightarrow> nat \<Rightarrow> ('h serial, nat \<times> u8 list) dev_call" where
  "serial_dma_rx u buf len d s =
     assert_then (buf \<noteq> 0) (
     let B = the_bufsz d
     in if B = 0 then
       (case serial_rx (dev_data d) of None \<Rightarrow> Inl AssertFail
        | Some (p, RxFifo f) \<Rightarrow> Inl BadAccess
        | Some (p, RxDma act) \<Rightarrow>
          if \<not> act then
            let d = put_rx (Some (p, RxDma True)) d;
                d = snd (call_hw (u_dma_transmit u buf (word_of_nat len) RT_SERIAL_DMA_RX) d)
            in Inr ((len, []), d, s)
          else Inr ((0, []), d, rt_set_errno (- RT_EBUSY) s))
     else with_fifo d (\<lambda>p f.
       let fifo_recved_len = serial_fifo_calc_recved_len B f;
           recv_len = (if len < fifo_recved_len then len else fifo_recved_len);
           xs = (if rx_get f + recv_len < B then take recv_len (drop (rx_get f) (rx_buffer f))
                 else take (B - rx_get f) (drop (rx_get f) (rx_buffer f)) @ take (recv_len + rx_get f - B) (rx_buffer f))
       in bind_res (rt_dma_recv_update_get_index B recv_len f) (\<lambda>f.
            Inr ((recv_len, xs), put_rx (Some (p, RxFifo f)) d, s))))"

definition rt_serial_read :: "'h uart_ops \<Rightarrow> nat \<Rightarrow> u32 \<Rightarrow> nat \<Rightarrow> ('h serial, nat \<times> u8 list) dev_call" where
  "rt_serial_read u pos buf sz d s =
     (if sz = 0 then Inr ((0, []), d, s)
      else if has_flag (open_flag d) RT_DEVICE_FLAG_INT_RX then
        with_fifo d (\<lambda>p f. bind_res (serial_int_rx (the_bufsz d) sz f) (\<lambda>(xs, f).
          Inr ((length xs, xs), put_rx (Some (p, RxFifo f)) d, s)))
      else if has_flag (open_flag d) RT_DEVICE_FLAG_DMA_RX then serial_dma_rx u buf sz d s
      else let (xs, d) = serial_poll_rx u sz d in Inr ((length xs, xs), d, s))"

section \<open>Transmission\<close>

fun serial_poll_tx :: "'h uart_ops \<Rightarrow> u8 list \<Rightarrow> 'h sdev \<Rightarrow> 'h sdev" where
  "serial_poll_tx u [] d = d"
| "serial_poll_tx u (c # cs) d =
     (let d = (if c = 10 \<and> stream d then snd (call_hw (u_putc u 13) d) else d);
          d = snd (call_hw (u_putc u c) d)
      in serial_poll_tx u cs d)"

text \<open>One character: the result of the last \<^verbatim>\<open>putc\<close> that was made.\<close>

definition put_char :: "'h uart_ops \<Rightarrow> u8 \<Rightarrow> 'h sdev \<Rightarrow> int \<times> 'h sdev" where
  "put_char u c d =
     (if c = 10 \<and> stream d then
        let (r, d) = call_hw (u_putc u 13) d in if r = - 1 then (r, d) else call_hw (u_putc u c) d
      else call_hw (u_putc u c) d)"

lemma wait_forever_returns:
  "rt_completion_wait n (- 1) flag s = Inr (Return r, flag', s') \<Longrightarrow> flag = RT_COMPLETED \<and> flag' = RT_UNCOMPLETED \<and> s' = s"
  by (auto simp: rt_completion_wait_def assert_then_def Let_def bind_res_def split: if_splits option.splits sum.splits)

text \<open>\<open>sz\<close> is the length of the whole write, the list what is left of it.  A refused character is
  tried again after the wait, from the start of the loop.  When the caller is suspended in the wait, what is left
  is part of the result.\<close>

function (sequential) serial_int_tx :: "'h uart_ops \<Rightarrow> nat \<Rightarrow> u8 list \<Rightarrow> u32 \<Rightarrow> 'h sdev \<Rightarrow> kernel
    \<Rightarrow> ((nat outcome \<times> u8 list) \<times> u32 \<times> 'h sdev \<times> kernel) res" where
  "serial_int_tx u sz [] flag d s = Inr ((Return sz, []), flag, d, s)"
| "serial_int_tx u sz (c # cs) flag d s =
     (case put_char u c d of (r, d) \<Rightarrow>
      if r = - 1 then
        (case rt_completion_wait (dev_id d) (- 1) flag s of
           Inl e \<Rightarrow> Inl e
         | Inr (Blocked, flag, s) \<Rightarrow> Inr ((Blocked, c # cs), flag, d, s)
         | Inr (Return _, flag, s) \<Rightarrow> serial_int_tx u sz (c # cs) flag d s)
      else serial_int_tx u sz cs flag d s)"
  by pat_completeness auto
termination
  by (relation "measure (\<lambda>(u, sz, cs, flag, d, s). 2 * length cs + (if flag = RT_COMPLETED then 1 else 0))")
    (auto dest: wait_forever_returns)

text \<open>Running again: the result of the wait is not looked at.\<close>

definition serial_int_tx_resume :: "'h uart_ops \<Rightarrow> nat \<Rightarrow> tid \<Rightarrow> u8 list \<Rightarrow> u32 \<Rightarrow> 'h sdev \<Rightarrow> kernel
    \<Rightarrow> ((nat outcome \<times> u8 list) \<times> u32 \<times> 'h sdev \<times> kernel) res" where
  "serial_int_tx_resume u sz t left flag d s =
     serial_int_tx u sz left (snd (rt_completion_wait_resume t flag s)) d s"

text \<open>By DMA: the buffer is pushed as a whole, and its transfer is started when none is running.\<close>

definition dma_kick :: "'h uart_ops \<Rightarrow> u32 \<times> u32 \<Rightarrow> 'h sdev \<Rightarrow> 'h sdev" where
  "dma_kick u x d = snd (call_hw (u_dma_transmit u (fst x) (snd x) RT_SERIAL_DMA_TX) d)"

definition dma_tx_start :: "'h uart_ops \<Rightarrow> u32 \<times> u32 \<Rightarrow> 'h sdev \<Rightarrow> 'h sdev res" where
  "dma_tx_start u x d =
     (case serial_tx (dev_data d) of
        Some (p, TxDma act q) \<Rightarrow>
          if \<not> act then
            Inr (dma_kick u x (put_tx (Some (p, TxDma True q)) d))
          else Inr d
      | _ \<Rightarrow> Inl BadAccess)"

definition dma_tx_end :: "'h uart_ops \<Rightarrow> u32 \<times> u8 list \<Rightarrow> int outcome \<Rightarrow> ('h serial, nat outcome \<times> u8 list) dev_call" where
  "dma_tx_end u buffer result d s =
     (case result of
        Blocked \<Rightarrow> Inr ((Blocked, snd buffer), d, s)
      | Return result \<Rightarrow>
        if result = RT_EOK then
          bind_res (dma_tx_start u (fst buffer, word_of_nat (length (snd buffer))) d) (\<lambda>d.
            Inr ((Return (length (snd buffer)), []), d, s))
        else Inr ((Return 0, snd buffer), d, rt_set_errno result s))"

definition with_queue :: "'h sdev \<Rightarrow> (nat \<Rightarrow> bool \<Rightarrow> dataqueue \<Rightarrow> 'r res) \<Rightarrow> 'r res" where
  "with_queue d k = (case serial_tx (dev_data d) of None \<Rightarrow> Inl NullDeref
     | Some (p, TxDma a q) \<Rightarrow> k p a q | Some (p, TxFifo c) \<Rightarrow> Inl BadAccess)"

definition serial_dma_tx :: "'h uart_ops \<Rightarrow> u32 \<times> u8 list \<Rightarrow> ('h serial, nat outcome \<times> u8 list) dev_call" where
  "serial_dma_tx u buffer d s =
     with_queue d (\<lambda>p a q.
       bind_res (rt_data_queue_push (dev_id d) (fst buffer, word_of_nat (length (snd buffer))) (- 1) q s) (\<lambda>(r, _, _, q, s).
         dma_tx_end u buffer r (put_tx (Some (p, TxDma a q)) d) s))"

definition serial_dma_tx_resume :: "'h uart_ops \<Rightarrow> tid \<Rightarrow> u32 \<times> u8 list \<Rightarrow> ('h serial, nat outcome \<times> u8 list) dev_call" where
  "serial_dma_tx_resume u t buffer d s =
     with_queue d (\<lambda>p a q.
       bind_res (rt_data_queue_push_resume (dev_id d) (fst buffer, word_of_nat (length (snd buffer))) (- 1) t q s) (\<lambda>(r, _, _, q, s).
         dma_tx_end u buffer r (put_tx (Some (p, TxDma a q)) d) s))"

definition rt_serial_write :: "'h uart_ops \<Rightarrow> nat \<Rightarrow> u32 \<times> u8 list \<Rightarrow> ('h serial, nat outcome \<times> u8 list) dev_call" where
  "rt_serial_write u pos buffer d s =
     (if snd buffer = [] then Inr ((Return 0, []), d, s)
      else if has_flag (open_flag d) RT_DEVICE_FLAG_INT_TX then
        (case serial_tx (dev_data d) of None \<Rightarrow> Inl AssertFail
         | Some (p, TxDma a q) \<Rightarrow> Inl BadAccess
         | Some (p, TxFifo flag) \<Rightarrow>
           bind_res (serial_int_tx u (length (snd buffer)) (snd buffer) flag d s) (\<lambda>(r, flag, d, s).
             Inr (r, put_tx (Some (p, TxFifo flag)) d, s)))
      else if has_flag (open_flag d) RT_DEVICE_FLAG_DMA_TX then serial_dma_tx u buffer d s
      else Inr ((Return (length (snd buffer)), []), serial_poll_tx u (snd buffer) d, s))"

section \<open>Opening and closing\<close>

definition tell_hw :: "'h uart_ops \<Rightarrow> int \<Rightarrow> u16 \<Rightarrow> 'h sdev \<Rightarrow> 'h sdev" where
  "tell_hw u cmd m d = snd (call_hw (u_control u cmd (ArgNum (unat m))) d)"

definition rt_serial_init :: "'h uart_ops \<Rightarrow> ('h serial, int) dev_call" where
  "rt_serial_init u d s =
     (let d = put_tx None (put_rx None d)
      in case u_configure u of None \<Rightarrow> Inr (RT_EOK, d, s)
         | Some configure \<Rightarrow> let (r, d) = call_hw (configure (config (dev_data d))) d in Inr (r, d, s))"

text \<open>Allocating a structure, \<^verbatim>\<open>RT_ASSERT\<close> included.\<close>

definition serial_malloc :: "'h uart_ops \<Rightarrow> nat \<Rightarrow> 'h sdev \<Rightarrow> (nat \<Rightarrow> 'h sdev \<Rightarrow> 'r res) \<Rightarrow> 'r res" where
  "serial_malloc u sz d k = (let (p, d) = call_hw (u_malloc u sz) d in assert_then (p \<noteq> 0) (k p d))"

definition new_fifo :: "nat \<Rightarrow> rx_fifo" where
  "new_fifo B = \<lparr>rx_buffer = replicate B 0, rx_put = 0, rx_get = 0, rx_full = False\<rparr>"

definition open_rx :: "'h uart_ops \<Rightarrow> u16 \<Rightarrow> 'h sdev \<Rightarrow> 'h sdev res" where
  "open_rx u oflag d =
     (if serial_rx (dev_data d) = None then
        if has_flag oflag RT_DEVICE_FLAG_INT_RX then
          serial_malloc u (12 + the_bufsz d) d (\<lambda>p d.
            Inr (tell_hw u RT_DEVICE_CTRL_SET_INT RT_DEVICE_FLAG_INT_RX
              (set_flag RT_DEVICE_FLAG_INT_RX (put_rx (Some (p, RxFifo (new_fifo (the_bufsz d)))) d))))
        else if has_flag oflag RT_DEVICE_FLAG_DMA_RX then
          bind_res
            (if the_bufsz d = 0 then serial_malloc u 4 d (\<lambda>p d. Inr (put_rx (Some (p, RxDma False)) d))
             else serial_malloc u (12 + the_bufsz d) d (\<lambda>p d.
               Inr (tell_hw u RT_DEVICE_CTRL_CONFIG RT_DEVICE_FLAG_DMA_RX
                 (put_rx (Some (p, RxFifo (new_fifo (the_bufsz d)))) d))))
            (\<lambda>d. Inr (set_flag RT_DEVICE_FLAG_DMA_RX d))
        else Inr (put_rx None d)
      else Inr (if has_flag oflag RT_DEVICE_FLAG_INT_RX then set_flag RT_DEVICE_FLAG_INT_RX d
                else if has_flag oflag RT_DEVICE_FLAG_DMA_RX then set_flag RT_DEVICE_FLAG_DMA_RX d else d))"

definition open_tx :: "'h uart_ops \<Rightarrow> u16 \<Rightarrow> 'h sdev \<Rightarrow> kernel \<Rightarrow> ('h sdev \<times> kernel) res" where
  "open_tx u oflag d s =
     (if serial_tx (dev_data d) = None then
        if has_flag oflag RT_DEVICE_FLAG_INT_TX then
          serial_malloc u 12 d (\<lambda>p d.
            let (flag, s) = rt_completion_init (dev_id d) s
            in Inr (tell_hw u RT_DEVICE_CTRL_SET_INT RT_DEVICE_FLAG_INT_TX
                 (set_flag RT_DEVICE_FLAG_INT_TX (put_tx (Some (p, TxFifo flag)) d)), s))
        else if has_flag oflag RT_DEVICE_FLAG_DMA_TX then
          serial_malloc u 40 d (\<lambda>p d.
            let (items, d) = call_hw (u_items u 8) d
            in bind_res (rt_data_queue_init (dev_id d) 8 4 items s) (\<lambda>(_, q, s).
                 Inr (tell_hw u RT_DEVICE_CTRL_CONFIG RT_DEVICE_FLAG_DMA_TX
                   (set_flag RT_DEVICE_FLAG_DMA_TX (put_tx (Some (p, TxDma False q)) d)), s)))
        else Inr (put_tx None d, s)
      else Inr (if has_flag oflag RT_DEVICE_FLAG_INT_TX then set_flag RT_DEVICE_FLAG_INT_TX d
                else if has_flag oflag RT_DEVICE_FLAG_DMA_TX then set_flag RT_DEVICE_FLAG_DMA_TX d else d, s))"

definition unsupported :: "u16 \<Rightarrow> 'h sdev \<Rightarrow> u16 \<Rightarrow> bool" where
  "unsupported oflag d m \<longleftrightarrow> has_flag oflag m \<and> \<not> has_flag (dev_flag d) m"

definition rt_serial_open :: "'h uart_ops \<Rightarrow> u16 \<Rightarrow> ('h serial, int) dev_call" where
  "rt_serial_open u oflag d s =
     (if unsupported oflag d RT_DEVICE_FLAG_DMA_RX \<or> unsupported oflag d RT_DEVICE_FLAG_DMA_TX
        \<or> unsupported oflag d RT_DEVICE_FLAG_INT_RX \<or> unsupported oflag d RT_DEVICE_FLAG_INT_TX
      then Inr (- RT_EIO, d, s)
      else
        let stream_flag = (if has_flag oflag RT_DEVICE_FLAG_STREAM \<or> stream d then RT_DEVICE_FLAG_STREAM else 0);
            d = d\<lparr>open_flag := oflag AND 0xff\<rparr>
        in bind_res (open_rx u oflag d) (\<lambda>d.
           bind_res (open_tx u oflag d s) (\<lambda>(d, s).
             Inr (RT_EOK, set_flag stream_flag d, s))))"

definition close_rx :: "'h uart_ops \<Rightarrow> 'h sdev \<Rightarrow> 'h sdev res" where
  "close_rx u d =
     (if has_flag (open_flag d) RT_DEVICE_FLAG_INT_RX then
        let d = clear_flag RT_DEVICE_FLAG_INT_RX (tell_hw u RT_DEVICE_CTRL_CLR_INT RT_DEVICE_FLAG_INT_RX d)
        in case serial_rx (dev_data d) of None \<Rightarrow> Inl AssertFail
           | Some (p, x) \<Rightarrow> Inr (put_rx None (snd (call_hw (u_free u p) d)))
      else if has_flag (open_flag d) RT_DEVICE_FLAG_DMA_RX then
        let d = clear_flag RT_DEVICE_FLAG_DMA_RX (tell_hw u RT_DEVICE_CTRL_CLR_INT RT_DEVICE_FLAG_DMA_RX d)
        in case serial_rx (dev_data d) of None \<Rightarrow> Inl AssertFail
           | Some (p, x) \<Rightarrow> Inr (put_rx None (snd (call_hw (u_free u p) d)))
      else Inr d)"

definition close_tx :: "'h uart_ops \<Rightarrow> 'h sdev \<Rightarrow> kernel \<Rightarrow> ('h sdev \<times> kernel) res" where
  "close_tx u d s =
     (if has_flag (open_flag d) RT_DEVICE_FLAG_INT_TX then
        let d = clear_flag RT_DEVICE_FLAG_INT_TX (tell_hw u RT_DEVICE_CTRL_CLR_INT RT_DEVICE_FLAG_INT_TX d)
        in case serial_tx (dev_data d) of None \<Rightarrow> Inl AssertFail
           | Some (p, x) \<Rightarrow> Inr (put_tx None (snd (call_hw (u_free u p) d)), s)
      else if has_flag (open_flag d) RT_DEVICE_FLAG_DMA_TX then
        let d = clear_flag RT_DEVICE_FLAG_DMA_TX (tell_hw u RT_DEVICE_CTRL_CLR_INT RT_DEVICE_FLAG_DMA_TX d)
        in case serial_tx (dev_data d) of None \<Rightarrow> Inl AssertFail
           | Some (p, TxFifo c) \<Rightarrow> Inl BadAccess
           | Some (p, TxDma a q) \<Rightarrow>
             bind_res (rt_data_queue_deinit (dev_id d) q s) (\<lambda>(_, _, s).
               Inr (put_tx None (snd (call_hw (u_free u p) d)), s))
      else Inr (d, s))"

definition rt_serial_close :: "'h uart_ops \<Rightarrow> ('h serial, int) dev_call" where
  "rt_serial_close u d s =
     (if ref_count d > 1 then Inr (RT_EOK, d, s)
      else
        bind_res (close_rx u d) (\<lambda>d.
        bind_res (close_tx u d s) (\<lambda>(d, s).
          let d = tell_hw u RT_DEVICE_CTRL_CLOSE 0 d
          in Inr (RT_EOK, d\<lparr>dev_flag := dev_flag d AND NOT RT_DEVICE_FLAG_ACTIVATED\<rparr>, s))))"

definition rt_serial_control :: "'h uart_ops \<Rightarrow> int \<Rightarrow> ctrl_arg \<Rightarrow> ('h serial, int) dev_call" where
  "rt_serial_control u cmd arg d s =
     (if cmd = RT_DEVICE_CTRL_SUSPEND then
        Inr (RT_EOK, d\<lparr>dev_flag := dev_flag d OR RT_DEVICE_FLAG_SUSPENDED\<rparr>, s)
      else if cmd = RT_DEVICE_CTRL_RESUME then
        Inr (RT_EOK, d\<lparr>dev_flag := dev_flag d AND NOT RT_DEVICE_FLAG_SUSPENDED\<rparr>, s)
      else if cmd = RT_DEVICE_CTRL_CONFIG then
        (case arg of
           ArgNum n \<Rightarrow> if n = 0 then Inr (RT_EOK, d, s) else Inl BadAccess
         | ArgConfig c \<Rightarrow>
           if bufsz c \<noteq> the_bufsz d \<and> ref_count d \<noteq> 0 then Inr (RT_EBUSY, d, s)
           else
             let d = d\<lparr>dev_data := (dev_data d)\<lparr>config := c\<rparr>\<rparr>
             in if ref_count d \<noteq> 0 then
                  (case u_configure u of None \<Rightarrow> Inl NullDeref
                   | Some configure \<Rightarrow> Inr (RT_EOK, snd (call_hw (configure c) d), s))
                else Inr (RT_EOK, d, s))
      else let (r, d) = call_hw (u_control u cmd arg) d in Inr (r, d, s))"

definition serial_ops :: "'h uart_ops \<Rightarrow> ('h serial, ctrl_arg) dev_ops" where
  "serial_ops u = \<lparr>op_init = Some (rt_serial_init u), op_open = Some (rt_serial_open u), op_close = Some (rt_serial_close u),
     op_read = Some (rt_serial_read u), op_write = Some (rt_serial_write u), op_control = Some (rt_serial_control u)\<rparr>"

definition rt_hw_serial_register :: "u8 list \<Rightarrow> u32 \<Rightarrow> 'h sdev \<Rightarrow> kernel \<Rightarrow> (int \<times> 'h sdev option \<times> kernel) res" where
  "rt_hw_serial_register name flags d s =
     rt_device_register name (ucast flags) (Some (d\<lparr>rx_indicate := None, tx_complete := None\<rparr>)) s"

section \<open>Interrupts\<close>

definition rx_store :: "nat \<Rightarrow> u8 \<Rightarrow> rx_fifo \<Rightarrow> rx_fifo res" where
  "rx_store B ch f =
     (if rx_put f < length (rx_buffer f) then
        let f = f\<lparr>rx_buffer := (rx_buffer f)[rx_put f := ch]\<rparr>;
            f = f\<lparr>rx_put := step_index B (rx_put f)\<rparr>
        in Inr (if rx_put f = rx_get f then f\<lparr>rx_get := step_index B (rx_get f), rx_full := True\<rparr> else f)
      else Inl BadAccess)"

text \<open>The loop that empties the receiver, with fuel: \<open>rx_ind_loop_ok\<close> shows that one more than the
  characters in the receiver is enough.\<close>

fun rx_ind_loop :: "'h uart_ops \<Rightarrow> nat \<Rightarrow> 'h sdev \<Rightarrow> 'h sdev res" where
  "rx_ind_loop u 0 d = Inl OutOfFuel"
| "rx_ind_loop u (Suc n) d =
     (let (ch, d) = call_hw (u_getc u) d
      in if ch = - 1 then Inr d
         else with_fifo d (\<lambda>p f. bind_res (rx_store (the_bufsz d) (word_of_int ch) f) (\<lambda>f.
           rx_ind_loop u n (put_rx (Some (p, RxFifo f)) d))))"

text \<open>A callback runs on the device and the kernel.\<close>

type_synonym 'h callback = "nat \<Rightarrow> u32 \<Rightarrow> 'h sdev \<Rightarrow> kernel \<Rightarrow> ('h sdev \<times> kernel) res"

definition call_back :: "'h callback \<Rightarrow> nat option \<Rightarrow> u32 \<Rightarrow> 'h sdev \<Rightarrow> kernel \<Rightarrow> ('h sdev \<times> kernel) res" where
  "call_back cb f arg d s = (case f of None \<Rightarrow> Inr (d, s) | Some f \<Rightarrow> cb f arg d s)"

definition isr_rx_ind :: "'h uart_ops \<Rightarrow> 'h callback \<Rightarrow> nat \<Rightarrow> 'h sdev \<Rightarrow> kernel \<Rightarrow> ('h sdev \<times> kernel) res" where
  "isr_rx_ind u cb fuel d s =
     with_fifo d (\<lambda>_ _.
     bind_res (rx_ind_loop u fuel d) (\<lambda>d.
     with_fifo d (\<lambda>_ f.
       let rx_length = (if rx_put f \<ge> rx_get f then rx_put f - rx_get f else the_bufsz d - (rx_get f - rx_put f))
       in if rx_length \<noteq> 0 then call_back cb (rx_indicate d) (word_of_nat rx_length) d s else Inr (d, s))))"

text \<open>The pointer passed to the callback is the one that was popped; when the queue was empty it was never set.\<close>

definition isr_tx_dmadone :: "'h uart_ops \<Rightarrow> 'h callback \<Rightarrow> 'h sdev \<Rightarrow> kernel \<Rightarrow> ('h sdev \<times> kernel) res" where
  "isr_tx_dmadone u cb d s =
     with_queue d (\<lambda>p a q.
     bind_res (rt_data_queue_pop (dev_id d) 0 q s) (\<lambda>(_, last, _, q, s).
     bind_res (rt_data_queue_peek q) (\<lambda>(r, next).
       let d = (if r = RT_EOK then dma_kick u (the next) (put_tx (Some (p, TxDma True q)) d)
                else put_tx (Some (p, TxDma False q)) d)
       in if tx_complete d = None then Inr (d, s)
          else case last of None \<Rightarrow> Inl BadAccess | Some x \<Rightarrow> call_back cb (tx_complete d) (fst x) d s)))"

definition isr_rx_dmadone :: "'h callback \<Rightarrow> nat \<Rightarrow> 'h sdev \<Rightarrow> kernel \<Rightarrow> ('h sdev \<times> kernel) res" where
  "isr_rx_dmadone cb len d s =
     (if the_bufsz d = 0 then
        (case serial_rx (dev_data d) of None \<Rightarrow> Inl AssertFail
         | Some (p, RxFifo f) \<Rightarrow> Inl BadAccess
         | Some (p, RxDma act) \<Rightarrow>
           assert_then (rx_indicate d \<noteq> None) (
           bind_res (call_back cb (rx_indicate d) (word_of_nat len) d s) (\<lambda>(d, s).
             Inr (put_rx (Some (p, RxDma False)) d, s))))
      else with_fifo d (\<lambda>p f.
        let f = rt_dma_recv_update_put_index (the_bufsz d) len f;
            len = serial_fifo_calc_recved_len (the_bufsz d) f
        in call_back cb (rx_indicate d) (word_of_nat len) (put_rx (Some (p, RxFifo f)) d) s))"

definition rt_hw_serial_isr :: "'h uart_ops \<Rightarrow> 'h callback \<Rightarrow> nat \<Rightarrow> nat \<Rightarrow> 'h sdev \<Rightarrow> kernel \<Rightarrow> ('h sdev \<times> kernel) res" where
  "rt_hw_serial_isr u cb fuel event d s =
     (if event mod 256 = 1 then isr_rx_ind u cb fuel d s
      else if event mod 256 = 2 then
        (case serial_tx (dev_data d) of None \<Rightarrow> Inl AssertFail
         | Some (p, TxDma a q) \<Rightarrow> Inl BadAccess
         | Some (p, TxFifo flag) \<Rightarrow>
           bind_res (rt_completion_done (dev_id d) flag s) (\<lambda>(flag, s). Inr (put_tx (Some (p, TxFifo flag)) d, s)))
      else if event mod 256 = 3 then isr_rx_dmadone cb (event div 256) d s
      else if event mod 256 = 4 then isr_tx_dmadone u cb d s
      else Inr (d, s))"

section \<open>The receive fifo\<close>

text \<open>The bytes received and not yet read.\<close>

definition rx_contents :: "nat \<Rightarrow> rx_fifo \<Rightarrow> u8 list" where
  "rx_contents B f = ring_seg (rx_buffer f) (rx_get f) (serial_fifo_calc_recved_len B f)"

definition rx_shape :: "nat \<Rightarrow> rx_fifo \<Rightarrow> bool" where
  "rx_shape B f \<longleftrightarrow> length (rx_buffer f) = B \<and> rx_put f < B \<and> rx_get f < B \<and> B \<le> 65535"

text \<open>Filled by interrupts one entry stays free, and the flag marks that bytes were overwritten; filled by DMA
  the flag tells a full buffer from an empty one.\<close>

definition int_rx_inv :: "nat \<Rightarrow> rx_fifo \<Rightarrow> bool" where
  "int_rx_inv B f \<longleftrightarrow> rx_shape B f \<and> 2 \<le> B \<and> (rx_full f \<longrightarrow> rx_get f = Suc (rx_put f) mod B)"

definition dma_rx_inv :: "nat \<Rightarrow> rx_fifo \<Rightarrow> bool" where
  "dma_rx_inv B f \<longleftrightarrow> rx_shape B f \<and> B \<le> 32768 \<and> (rx_full f \<longrightarrow> rx_get f = rx_put f)"

definition keep_last :: "nat \<Rightarrow> 'a list \<Rightarrow> 'a list" where
  "keep_last k xs = drop (length xs - k) xs"

lemma keep_last_short: "length xs \<le> k \<Longrightarrow> keep_last k xs = xs"
  by (simp add: keep_last_def)

lemma keep_last_twice: "keep_last k (keep_last k xs @ ys) = keep_last k (xs @ ys)"
  by (cases "length xs \<le> k") (auto simp: keep_last_def add.commute)

lemma length_rx_contents [simp]: "length (rx_contents B f) = serial_fifo_calc_recved_len B f"
  by (simp add: rx_contents_def)

lemma step_index: "i < B \<Longrightarrow> B \<le> 65535 \<Longrightarrow> step_index B i = Suc i mod B"
  by (cases "Suc i = B") (auto simp: step_index_def)

text \<open>The length is determined by the two indices, when the flag tells the two extremes apart.\<close>

lemma recved_len_unique:
  assumes "rx_get f < B" "n \<le> B" "rx_put f = (rx_get f + n) mod B" "n = 0 \<Longrightarrow> \<not> rx_full f" "n = B \<Longrightarrow> rx_full f"
  shows "serial_fifo_calc_recved_len B f = n"
proof (cases "rx_get f + n < B")
  case True
  then show ?thesis using assms by (cases "n = 0") (auto simp: serial_fifo_calc_recved_len_def)
next
  case False
  then have "rx_put f = rx_get f + n - B" using assms(1-3) by (simp add: le_mod_geq)
  then show ?thesis using assms False by (cases "n = B") (auto simp: serial_fifo_calc_recved_len_def)
qed

lemma put_index_at:
  assumes "rx_shape B f"
  shows "rx_put f = (rx_get f + serial_fifo_calc_recved_len B f) mod B" "serial_fifo_calc_recved_len B f \<le> B"
  using assms by (auto simp: rx_shape_def serial_fifo_calc_recved_len_def)

lemma int_rx_len:
  assumes "int_rx_inv B f"
  shows "serial_fifo_calc_recved_len B f < B" "rx_full f \<Longrightarrow> Suc (serial_fifo_calc_recved_len B f) = B"
proof -
  have i: "rx_put f < B" "rx_get f < B" "2 \<le> B" "rx_full f \<Longrightarrow> rx_get f = Suc (rx_put f) mod B"
    using assms by (auto simp: int_rx_inv_def rx_shape_def)
  show full: "Suc (serial_fifo_calc_recved_len B f) = B" if "rx_full f"
  proof (cases "Suc (rx_put f) = B")
    case True
    then show ?thesis using i that by (auto simp: serial_fifo_calc_recved_len_def)
  next
    case False
    then have "rx_get f = Suc (rx_put f)" using i that by simp
    then show ?thesis using i by (simp add: serial_fifo_calc_recved_len_def)
  qed
  show "serial_fifo_calc_recved_len B f < B"
    using full i by (cases "rx_full f") (auto simp: serial_fifo_calc_recved_len_def)
qed

text \<open>Storing a byte: the oldest is dropped when no more fit.\<close>

lemma rx_store_ok:
  assumes i: "int_rx_inv B f"
  obtains f' where "rx_store B x f = Inr f'" "int_rx_inv B f'" "rx_contents B f' = keep_last (B - 1) (rx_contents B f @ [x])"
proof -
  let ?n = "serial_fifo_calc_recved_len B f" let ?g = "rx_get f"
  have sh: "rx_shape B f" "2 \<le> B" using i by (simp_all add: int_rx_inv_def)
  note s = sh(1) [unfolded rx_shape_def]
  note put = put_index_at [OF sh(1)]
  have n: "?n < B" by (rule int_rx_len [OF i])
  let ?buf = "(rx_buffer f)[rx_put f := x]"
  have seg: "ring_seg ?buf ?g (Suc ?n) = rx_contents B f @ [x]"
    using ring_seg_write [of ?g "rx_buffer f" ?n "[x]"] s n put(1)
    by (simp add: ring_write_single rx_contents_def)
  have p: "step_index B (rx_put f) = (?g + Suc ?n) mod B"
    using s put(1) by (simp add: step_index mod_Suc_eq)
  show thesis
  proof (cases "Suc ?n = B")
    case False
    then have nf: "\<not> rx_full f" using int_rx_len(2) [OF i] by blast
    let ?f = "f\<lparr>rx_buffer := ?buf, rx_put := step_index B (rx_put f)\<rparr>"
    have "(?g + Suc ?n) mod B \<noteq> ?g"
    proof (cases "?g + Suc ?n < B")
      case wrap: False
      then have "?g + Suc ?n - B < B" using s n by linarith
      then have "(?g + Suc ?n) mod B = ?g + Suc ?n - B" using wrap by (simp add: le_mod_geq)
      then show ?thesis using n False wrap by linarith
    qed simp
    then have run: "rx_store B x f = Inr ?f" using s p by (simp add: rx_store_def)
    have len: "serial_fifo_calc_recved_len B ?f = Suc ?n"
      by (rule recved_len_unique) (use s p n False nf in simp_all)
    have "int_rx_inv B ?f" using s sh(2) nf p by (simp add: int_rx_inv_def rx_shape_def)
    moreover have "rx_contents B ?f = keep_last (B - 1) (rx_contents B f @ [x])"
      unfolding rx_contents_def [of B ?f] len using seg n False by (simp add: keep_last_short)
    ultimately show ?thesis using run that by blast
  next
    case True
    let ?f = "f\<lparr>rx_buffer := ?buf, rx_put := step_index B (rx_put f), rx_get := step_index B ?g, rx_full := True\<rparr>"
    have pg: "step_index B (rx_put f) = ?g" using p s True by simp
    have g: "step_index B ?g = Suc ?g mod B" using s by (simp add: step_index)
    have run: "rx_store B x f = Inr ?f" using s pg by (simp add: rx_store_def)
    have gg: "?g = (Suc ?g mod B + ?n) mod B"
    proof -
      have "(Suc ?g mod B + ?n) mod B = (Suc ?g + ?n) mod B" by (simp add: mod_add_left_eq)
      also have "Suc ?g + ?n = ?g + B" using True by simp
      finally show ?thesis using s by simp
    qed
    have len: "serial_fifo_calc_recved_len B ?f = ?n"
      by (rule recved_len_unique) (use s pg g gg n sh(2) True in simp_all)
    have "int_rx_inv B ?f" using s sh(2) pg g by (simp add: int_rx_inv_def rx_shape_def)
    moreover have "rx_contents B ?f = keep_last (B - 1) (rx_contents B f @ [x])"
    proof -
      have "rx_contents B ?f = ring_seg ?buf (Suc ?g) ?n"
        unfolding rx_contents_def [of B ?f] len using g s ring_seg_mod [of ?buf "Suc ?g" ?n] by simp
      also have "\<dots> = drop 1 (ring_seg ?buf ?g (Suc ?n))" by (simp add: drop_ring_seg)
      finally show ?thesis using seg True n by (simp add: keep_last_def)
    qed
    ultimately show ?thesis using run that by blast
  qed
qed

text \<open>Reading gives the oldest bytes.\<close>

lemma serial_int_rx_ok:
  assumes "int_rx_inv B f"
  shows "\<exists>f'. serial_int_rx B n f = Inr (take n (rx_contents B f), f') \<and> int_rx_inv B f' \<and> rx_contents B f' = drop n (rx_contents B f)"
  using assms
proof (induction n arbitrary: f)
  case (Suc n)
  let ?m = "serial_fifo_calc_recved_len B f" let ?g = "rx_get f"
  have sh: "rx_shape B f" "2 \<le> B" using Suc.prems by (simp_all add: int_rx_inv_def)
  note s = sh(1) [unfolded rx_shape_def]
  show ?case
  proof (cases "rx_put f = ?g \<and> \<not> rx_full f")
    case True
    then show ?thesis using Suc.prems by (simp add: rx_contents_def serial_fifo_calc_recved_len_def)
  next
    case False
    then have m: "0 < ?m" using s by (auto simp: serial_fifo_calc_recved_len_def)
    let ?f = "f\<lparr>rx_get := step_index B ?g, rx_full := False\<rparr>"
    have g: "step_index B ?g = Suc ?g mod B" using s by (simp add: step_index)
    have mB: "?m < B" by (rule int_rx_len [OF Suc.prems])
    have pg: "(Suc ?g mod B + (?m - 1)) mod B = rx_put f"
    proof -
      have "(Suc ?g mod B + (?m - 1)) mod B = (Suc ?g + (?m - 1)) mod B" by (simp add: mod_add_left_eq)
      also have "Suc ?g + (?m - 1) = ?g + ?m" using m by simp
      finally show ?thesis using put_index_at [OF sh(1)] by simp
    qed
    have len: "serial_fifo_calc_recved_len B ?f = ?m - 1"
      by (rule recved_len_unique) (use s g pg mB in simp_all)
    have i: "int_rx_inv B ?f" using s sh(2) g by (simp add: int_rx_inv_def rx_shape_def)
    have "rx_contents B ?f = ring_seg (rx_buffer f) (Suc ?g) (?m - 1)"
      unfolding rx_contents_def len using g s ring_seg_mod [of "rx_buffer f" "Suc ?g"] by simp
    then have c: "rx_contents B f = rx_buffer f ! ?g # rx_contents B ?f"
      using m s ring_seg_append [of "rx_buffer f" ?g 1 "?m - 1"] by (simp add: rx_contents_def ring_seg_def)
    obtain f' where f': "serial_int_rx B n ?f = Inr (take n (rx_contents B ?f), f')" "int_rx_inv B f'"
      "rx_contents B f' = drop n (rx_contents B ?f)" using Suc.IH [OF i] by blast
    have eq: "?f = f\<lparr>rx_get := step_index B ?g\<rparr>" if "\<not> rx_full f"
      by (rule rx_fifo.equality) (use that in simp_all)
    have "rx_get f < length (rx_buffer f)" "\<not> (rx_get f = rx_put f \<and> \<not> rx_full f)" using False s by auto
    then have "serial_int_rx B (Suc n) f = bind_res (serial_int_rx B n ?f) (\<lambda>(xs, f'). Inr (rx_buffer f ! ?g # xs, f'))"
      by (cases "rx_full f") (simp_all add: Let_def eq)
    then show ?thesis using f' c by simp
  qed
qed simp

text \<open>The DMA controller has written \<open>ys\<close> behind the bytes in the buffer, round its end; the update of
  the indices counts them, and drops the oldest bytes that were overwritten.\<close>

lemma dma_put_index_eq:
  assumes "dma_rx_inv B f" "len \<le> B"
  shows "rt_dma_recv_update_put_index B len f =
    (let n = serial_fifo_calc_recved_len B f; p = (rx_put f + len) mod B
     in if n + len < B then f\<lparr>rx_put := p\<rparr> else f\<lparr>rx_put := p, rx_get := p, rx_full := True\<rparr>)"
proof -
  let ?n = "serial_fifo_calc_recved_len B f"
  have s: "rx_put f < B" "rx_get f < B" "rx_full f \<Longrightarrow> rx_get f = rx_put f" "B \<le> 32768"
    using assms(1) by (auto simp: dma_rx_inv_def rx_shape_def)
  have p: "(rx_put f + len mod 65536) mod 65536 = rx_put f + len" using s assms(2) by simp
  have w: "rx_put f + len \<ge> B \<Longrightarrow> (rx_put f + len) mod B = rx_put f + len - B"
    using s assms(2) by (simp add: le_mod_geq)
  note d = rt_dma_recv_update_put_index_def [of B len f, unfolded p Let_def]
  show ?thesis
  proof (cases "rx_full f")
    case True
    then have n: "\<not> ?n + len < B" using s by (simp add: serial_fifo_calc_recved_len_def)
    show ?thesis
      by (rule rx_fifo.equality) (use s(3) [OF True] True n in \<open>simp_all add: d Let_def\<close>)
  next
    case nf: False
    show ?thesis
    proof (cases "rx_get f \<le> rx_put f")
      case True
      then have n: "?n = rx_put f - rx_get f" using nf by (auto simp: serial_fifo_calc_recved_len_def)
      show ?thesis
      proof (cases "rx_put f + len \<ge> B")
        case over: True
        have "?n + len < B \<longleftrightarrow> \<not> (rx_put f + len) mod B \<ge> rx_get f"
          using n w [OF over] True over by linarith
        then show ?thesis
          by (intro rx_fifo.equality) (use True over nf in \<open>simp_all add: d Let_def\<close>)
      next
        case over: False
        have "?n + len < B" using n over by linarith
        then show ?thesis
          by (intro rx_fifo.equality) (use True over nf in \<open>simp_all add: d Let_def\<close>)
      qed
    next
      case False
      then have n: "?n = B - (rx_get f - rx_put f)" by (simp add: serial_fifo_calc_recved_len_def)
      have m: "(if rx_put f + len \<ge> B then (rx_put f + len) mod B else rx_put f + len) = (rx_put f + len) mod B" by simp
      have "?n + len < B \<longleftrightarrow> \<not> rx_put f + len \<ge> rx_get f" using n s False by linarith
      moreover have "rx_put f + len < rx_get f \<Longrightarrow> (rx_put f + len) mod B = rx_put f + len" using s by simp
      ultimately show ?thesis
        by (intro rx_fifo.equality) (use False nf in \<open>simp_all add: d m Let_def\<close>)
    qed
  qed
qed

lemma dma_put_ok:
  assumes i: "dma_rx_inv B f" and l: "length ys \<le> B"
  defines "f' \<equiv> rt_dma_recv_update_put_index B (length ys) (f\<lparr>rx_buffer := ring_write (rx_buffer f) (rx_put f) ys\<rparr>)"
  shows "dma_rx_inv B f'" "rx_contents B f' = keep_last B (rx_contents B f @ ys)"
proof -
  let ?n = "serial_fifo_calc_recved_len B f" let ?g = "rx_get f" let ?l = "length ys"
  let ?w = "f\<lparr>rx_buffer := ring_write (rx_buffer f) (rx_put f) ys\<rparr>"
  have sh: "rx_shape B f" using i by (simp add: dma_rx_inv_def)
  note s = sh [unfolded rx_shape_def]
  note put = put_index_at [OF sh]
  have iw: "dma_rx_inv B ?w" using i by (simp add: dma_rx_inv_def rx_shape_def)
  have cw: "serial_fifo_calc_recved_len B ?w = ?n" by (simp add: serial_fifo_calc_recved_len_def)
  note eq = dma_put_index_eq [OF iw l, unfolded cw Let_def]
  have p: "(rx_put f + ?l) mod B = (?g + (?n + ?l)) mod B" using put(1) by (simp add: mod_add_left_eq add.assoc)
  have "dma_rx_inv B f' \<and> rx_contents B f' = keep_last B (rx_contents B f @ ys)"
  proof (cases "?n + ?l < B")
    case True
    then have nf: "\<not> rx_full f" using i s by (auto simp: dma_rx_inv_def serial_fifo_calc_recved_len_def)
    have f': "f' = ?w\<lparr>rx_put := (rx_put f + ?l) mod B\<rparr>" using eq True by (simp add: f'_def)
    have len: "serial_fifo_calc_recved_len B f' = ?n + ?l"
      unfolding f' by (rule recved_len_unique) (use s p True nf in simp_all)
    have "rx_contents B f' = rx_contents B f @ ys"
      using ring_seg_write [of ?g "rx_buffer f" ?n ys] s put(1) True unfolding rx_contents_def len by (simp add: f')
    moreover have "dma_rx_inv B f'" using i s nf by (simp add: f' dma_rx_inv_def rx_shape_def)
    ultimately show ?thesis using True by (simp add: keep_last_short)
  next
    case False
    let ?p = "(rx_put f + ?l) mod B" let ?k = "?n + ?l - B"
    have f': "f' = ?w\<lparr>rx_put := ?p, rx_get := ?p, rx_full := True\<rparr>" using eq False by (simp add: f'_def)
    have len: "serial_fifo_calc_recved_len B f' = B" by (simp add: f' serial_fifo_calc_recved_len_def)
    let ?r = "(?g + ?k) mod B"
    have k: "?k \<le> ?n" "?n - ?k + ?l = B" using l(1) False by simp_all
    have r: "?r < B" using s by simp
    have "?g + ?k + (?n - ?k) = ?g + ?n" using k(1) by simp
    then have "(?r + (?n - ?k)) mod B = rx_put f"
      unfolding mod_add_left_eq put(1) by simp
    moreover have pr: "?p = ?r"
    proof -
      have e: "?g + (?n + ?l) = ?g + ?k + B" using False by simp
      show ?thesis unfolding p e by (rule mod_add_self2)
    qed
    ultimately have "ring_seg (ring_write (rx_buffer f) (rx_put f) ys) ?p B = ring_seg (rx_buffer f) ?r (?n - ?k) @ ys"
      using ring_seg_write [of ?r "rx_buffer f" "?n - ?k" ys] s k(2) r by simp
    moreover have "ring_seg (rx_buffer f) ?r (?n - ?k) = drop ?k (rx_contents B f)"
      using s k(1) ring_seg_mod [of "rx_buffer f" "?g + ?k" "?n - ?k"] by (simp add: rx_contents_def drop_ring_seg)
    ultimately have "rx_contents B f' = drop ?k (rx_contents B f) @ ys" unfolding rx_contents_def [of B f'] len by (simp add: f')
    moreover have "dma_rx_inv B f'" using i s by (simp add: f' dma_rx_inv_def rx_shape_def)
    ultimately show ?thesis using k(1) by (simp add: keep_last_def)
  qed
  then show "dma_rx_inv B f'" "rx_contents B f' = keep_last B (rx_contents B f @ ys)" by blast+
qed

lemma ring_seg_two:
  assumes "g < length buf" "n \<le> length buf"
  shows "(if g + n < length buf then take n (drop g buf)
    else take (length buf - g) (drop g buf) @ take (n + g - length buf) buf) = ring_seg buf g n"
proof (cases "g + n < length buf")
  case False
  let ?N = "length buf"
  have "ring_seg buf g n = ring_seg buf g (?N - g) @ ring_seg buf ?N (n - (?N - g))"
    using ring_seg_append [of buf g "?N - g" "n - (?N - g)"] False assms by simp
  also have "n - (?N - g) = n + g - ?N" using False assms by simp
  also have "ring_seg buf ?N (n + g - ?N) = ring_seg buf 0 (n + g - ?N)"
    using ring_seg_mod [of buf ?N] by simp
  also have "\<dots> = take (n + g - ?N) buf"
    using ring_seg_flat [of 0 "n + g - ?N" buf] assms by simp
  finally show ?thesis using False assms ring_seg_flat [of g "?N - g" buf] by simp
qed (simp add: ring_seg_flat)

lemma update_get_eq:
  assumes "n \<le> serial_fifo_calc_recved_len B f" "rx_get f < B" "n \<le> B" "B \<le> 32768"
  shows "rt_dma_recv_update_get_index B n f = Inr (f\<lparr>rx_get := (rx_get f + n) mod B, rx_full := (rx_full f \<and> n = 0)\<rparr>)"
proof -
  have g: "(rx_get f + n mod 65536) mod 65536 = rx_get f + n" using assms by simp
  have "(if rx_full f \<and> n \<noteq> 0 then f\<lparr>rx_full := False\<rparr> else f)\<lparr>rx_get := (rx_get f + n) mod B\<rparr>
      = f\<lparr>rx_get := (rx_get f + n) mod B, rx_full := (rx_full f \<and> n = 0)\<rparr>"
    by (rule rx_fifo.equality) auto
  moreover have "rx_get (if rx_full f \<and> n \<noteq> 0 then f\<lparr>rx_full := False\<rparr> else f) = rx_get f" by simp
  moreover have "(if rx_get f + n \<ge> B then (rx_get f + n) mod B else rx_get f + n) = (rx_get f + n) mod B" by simp
  ultimately show ?thesis using assms(1) by (simp only: rt_dma_recv_update_get_index_def Let_def g assert_then_simps)
qed

lemma update_get_ok:
  assumes i: "dma_rx_inv B f" and n: "n \<le> serial_fifo_calc_recved_len B f"
  defines "f' \<equiv> f\<lparr>rx_get := (rx_get f + n) mod B, rx_full := (rx_full f \<and> n = 0)\<rparr>"
  shows "dma_rx_inv B f'" "rx_contents B f' = drop n (rx_contents B f)"
proof -
  let ?m = "serial_fifo_calc_recved_len B f"
  have sh: "rx_shape B f" using i by (simp add: dma_rx_inv_def)
  note s = sh [unfolded rx_shape_def]
  note put = put_index_at [OF sh]
  have "dma_rx_inv B f' \<and> rx_contents B f' = drop n (rx_contents B f)"
  proof (cases "n = 0")
    case True
    have "f' = f" unfolding f'_def by (rule rx_fifo.equality) (use True s in simp_all)
    then show ?thesis using True i by simp
  next
    case False
    have sel: "rx_put f' = rx_put f" "rx_get f' = (rx_get f + n) mod B" "\<not> rx_full f'" "rx_buffer f' = rx_buffer f"
      using False by (simp_all add: f'_def)
    have e: "rx_get f + n + (?m - n) = rx_get f + ?m" using n by simp
    have len: "serial_fifo_calc_recved_len B f' = ?m - n"
    proof (rule recved_len_unique)
      show "rx_put f' = (rx_get f' + (?m - n)) mod B" unfolding sel mod_add_left_eq e by (rule put(1))
      show "rx_full f'" if "?m - n = B" using that False put(2) n by linarith
    qed (use s put(2) sel in simp_all)
    have "rx_contents B f' = drop n (rx_contents B f)"
      unfolding rx_contents_def len sel using s n ring_seg_mod [of "rx_buffer f" "rx_get f + n"] by (simp add: drop_ring_seg)
    moreover have "dma_rx_inv B f'" using i s sel by (simp add: dma_rx_inv_def rx_shape_def)
    ultimately show ?thesis by blast
  qed
  then show "dma_rx_inv B f'" "rx_contents B f' = drop n (rx_contents B f)" by blast+
qed

lemma serial_dma_rx_ok:
  assumes i: "dma_rx_inv (the_bufsz d) f" and m: "serial_rx (dev_data d) = Some (p, RxFifo f)" and b: "buf \<noteq> 0"
  shows "\<exists>f'. serial_dma_rx u buf n d s = Inr ((min n (length (rx_contents (the_bufsz d) f)), take n (rx_contents (the_bufsz d) f)),
      put_rx (Some (p, RxFifo f')) d, s) \<and> dma_rx_inv (the_bufsz d) f' \<and> rx_contents (the_bufsz d) f' = drop n (rx_contents (the_bufsz d) f)"
proof -
  let ?B = "the_bufsz d" let ?m = "serial_fifo_calc_recved_len ?B f" let ?g = "rx_get f"
  let ?r = "if n < ?m then n else ?m"
  have sh: "rx_shape ?B f" using i by (simp add: dma_rx_inv_def)
  note s = sh [unfolded rx_shape_def]
  note put = put_index_at [OF sh]
  have B: "?B \<noteq> 0" using s by auto
  have r: "?r = min n ?m" "min n ?m \<le> ?B" using put(2) by (auto simp: min_def)
  have lb: "length (rx_buffer f) = ?B" using s by blast
  have seg: "(if ?g + ?r < ?B then take ?r (drop ?g (rx_buffer f))
      else take (?B - ?g) (drop ?g (rx_buffer f)) @ take (?r + ?g - ?B) (rx_buffer f)) = ring_seg (rx_buffer f) ?g ?r"
    by (rule ring_seg_two [of ?g "rx_buffer f" ?r, unfolded lb]) (use s put(2) in simp_all)
  let ?f = "f\<lparr>rx_get := (?g + ?r) mod ?B, rx_full := (rx_full f \<and> ?r = 0)\<rparr>"
  have upd: "rt_dma_recv_update_get_index ?B ?r f = Inr ?f"
    by (rule update_get_eq) (use s i put(2) in \<open>simp_all add: dma_rx_inv_def\<close>)
  have rm: "?r \<le> ?m" by simp
  note ok = update_get_ok [OF i rm]
  have "drop ?r (rx_contents ?B f) = drop n (rx_contents ?B f)" "ring_seg (rx_buffer f) ?g ?r = take n (rx_contents ?B f)"
    by (auto simp: rx_contents_def take_ring_seg)
  moreover have "serial_dma_rx u buf n d s = Inr ((?r, ring_seg (rx_buffer f) ?g ?r), put_rx (Some (p, RxFifo ?f)) d, s)"
    using B b upd seg by (simp add: serial_dma_rx_def with_fifo_def m Let_def)
  ultimately show ?thesis using r(1) ok by auto
qed

section \<open>Receiving\<close>

lemma with_fifo_at: "serial_rx (dev_data d) = Some (p, RxFifo f) \<Longrightarrow> with_fifo d k = k p f"
  by (simp add: with_fifo_def)

lemmas dev_defs = set_hw_def put_rx_def put_tx_def set_flag_def clear_flag_def tell_hw_def call_hw_def

text \<open>The receiver holds the bytes \<open>pending\<close> and gives them one by one.\<close>

definition receives :: "'h uart_ops \<Rightarrow> ('h \<Rightarrow> u8 list) \<Rightarrow> bool" where
  "receives u pending \<longleftrightarrow> (\<forall>d. case pending (hw (dev_data d)) of
      [] \<Rightarrow> fst (u_getc u d) = - 1 \<and> pending (snd (u_getc u d)) = []
    | c # cs \<Rightarrow> fst (u_getc u d) = uint c \<and> pending (snd (u_getc u d)) = cs)"

lemma receivesD:
  assumes "receives u pending"
  shows "pending (hw (dev_data d)) = [] \<Longrightarrow> \<exists>h. u_getc u d = (- 1, h) \<and> pending h = []"
    "pending (hw (dev_data d)) = c # cs \<Longrightarrow> \<exists>h. u_getc u d = (uint c, h) \<and> pending h = cs"
  using assms unfolding receives_def by (cases "u_getc u d"; force dest!: spec [of _ d])+

lemma rx_ind_loop_ok:
  assumes "receives u pending" "serial_rx (dev_data d) = Some (p, RxFifo f)" "int_rx_inv (the_bufsz d) f"
    "length (pending (hw (dev_data d))) < fuel"
  shows "\<exists>h f'. rx_ind_loop u fuel d = Inr (set_hw h (put_rx (Some (p, RxFifo f')) d)) \<and> pending h = []
    \<and> int_rx_inv (the_bufsz d) f'
    \<and> rx_contents (the_bufsz d) f' = keep_last (the_bufsz d - 1) (rx_contents (the_bufsz d) f @ pending (hw (dev_data d)))"
  using assms(2-4)
proof (induction fuel arbitrary: d f)
  case (Suc fuel)
  let ?B = "the_bufsz d"
  show ?case
  proof (cases "pending (hw (dev_data d))")
    case Nil
    obtain h where h: "u_getc u d = (- 1, h)" "pending h = []" using receivesD(1) [OF assms(1) Nil] by blast
    have "put_rx (Some (p, RxFifo f)) d = d" using Suc.prems(1) by (simp add: put_rx_def)
    moreover have "keep_last (?B - 1) (rx_contents ?B f) = rx_contents ?B f"
      using int_rx_len(1) [OF Suc.prems(2)] by (intro keep_last_short) simp
    ultimately show ?thesis using h Nil Suc.prems(2) by (intro exI [of _ h] exI [of _ f]) (simp add: call_hw_def)
  next
    case (Cons c cs)
    obtain h where h: "u_getc u d = (uint c, h)" "pending h = cs" using receivesD(2) [OF assms(1) Cons] by blast
    obtain f1 where f1: "rx_store ?B c f = Inr f1" "int_rx_inv ?B f1"
      "rx_contents ?B f1 = keep_last (?B - 1) (rx_contents ?B f @ [c])" by (rule rx_store_ok [OF Suc.prems(2)])
    let ?d = "put_rx (Some (p, RxFifo f1)) (set_hw h d)"
    have d: "serial_rx (dev_data ?d) = Some (p, RxFifo f1)" "the_bufsz ?d = ?B" "pending (hw (dev_data ?d)) = cs"
      using h(2) by (simp_all add: dev_defs)
    obtain h2 f2 where f2: "rx_ind_loop u fuel ?d = Inr (set_hw h2 (put_rx (Some (p, RxFifo f2)) ?d))" "pending h2 = []"
      "int_rx_inv ?B f2" "rx_contents ?B f2 = keep_last (?B - 1) (rx_contents ?B f1 @ cs)"
      using Suc.IH [OF d(1)] d(2,3) f1(2) Suc.prems(3) Cons by auto
    have e: "set_hw h2 (put_rx (Some (p, RxFifo f2)) ?d) = set_hw h2 (put_rx (Some (p, RxFifo f2)) d)"
      by (simp add: dev_defs)
    have fd: "with_fifo (set_hw h d) k = k p f" "the_bufsz (set_hw h d) = ?B" for k
      using Suc.prems(1) by (simp_all add: with_fifo_def dev_defs)
    have nm: "uint c \<noteq> - 1" using uint_ge_0 [of c] by linarith
    have "rx_ind_loop u (Suc fuel) d = Inr (set_hw h2 (put_rx (Some (p, RxFifo f2)) d))"
      using h(1) f1(1) f2(1) nm by (simp add: call_hw_def fd e)
    then show ?thesis using f2(2-4) f1(3) Cons by (auto simp: keep_last_twice)
  qed
qed simp

lemma rt_serial_read_int:
  assumes "has_flag (open_flag d) RT_DEVICE_FLAG_INT_RX" "serial_rx (dev_data d) = Some (p, RxFifo f)" "int_rx_inv (the_bufsz d) f"
  shows "\<exists>f'. rt_serial_read u pos buf n d s = Inr ((min n (length (rx_contents (the_bufsz d) f)), take n (rx_contents (the_bufsz d) f)),
      put_rx (Some (p, RxFifo f')) d, s) \<and> int_rx_inv (the_bufsz d) f' \<and> rx_contents (the_bufsz d) f' = drop n (rx_contents (the_bufsz d) f)"
proof (cases "n = 0")
  case True
  have "put_rx (Some (p, RxFifo f)) d = d" using assms(2) by (simp add: put_rx_def)
  then show ?thesis using True assms(3) by (intro exI [of _ f]) (simp add: rt_serial_read_def)
next
  case False
  obtain f' where "serial_int_rx (the_bufsz d) n f = Inr (take n (rx_contents (the_bufsz d) f), f')" "int_rx_inv (the_bufsz d) f'"
    "rx_contents (the_bufsz d) f' = drop n (rx_contents (the_bufsz d) f)" using serial_int_rx_ok [OF assms(3)] by blast
  then show ?thesis using False assms by (auto simp: rt_serial_read_def with_fifo_def min.commute)
qed

text \<open>C23: receiving by interrupt.  The interrupt handler takes every byte out of the receiver; the fifo then
  holds the last \<^verbatim>\<open>bufsz - 1\<close> of the bytes that were in it and the new ones, in order,
  the callback is told how many, and a read of any size returns that many of the oldest and leaves the rest.\<close>

theorem serial_rx_order:
  assumes "receives u pending" "has_flag (open_flag d) RT_DEVICE_FLAG_INT_RX" "serial_rx (dev_data d) = Some (p, RxFifo f)"
    "int_rx_inv (the_bufsz d) f" "length (pending (hw (dev_data d))) < fuel"
  shows "\<exists>d' f'. rt_hw_serial_isr u cb fuel 1 d s =
      (if rx_contents (the_bufsz d) f' = [] then Inr (d', s)
       else call_back cb (rx_indicate d) (word_of_nat (length (rx_contents (the_bufsz d) f'))) d' s)
    \<and> serial_rx (dev_data d') = Some (p, RxFifo f') \<and> int_rx_inv (the_bufsz d) f' \<and> pending (hw (dev_data d')) = []
    \<and> rx_contents (the_bufsz d) f' = keep_last (the_bufsz d - 1) (rx_contents (the_bufsz d) f @ pending (hw (dev_data d)))
    \<and> (\<forall>n. \<exists>d2 f2. rt_serial_read u pos buf n d' s =
          Inr ((min n (length (rx_contents (the_bufsz d) f')), take n (rx_contents (the_bufsz d) f')), d2, s)
        \<and> serial_rx (dev_data d2) = Some (p, RxFifo f2) \<and> int_rx_inv (the_bufsz d) f2
        \<and> rx_contents (the_bufsz d) f2 = drop n (rx_contents (the_bufsz d) f'))"
proof -
  let ?B = "the_bufsz d"
  obtain h f' where l: "rx_ind_loop u fuel d = Inr (set_hw h (put_rx (Some (p, RxFifo f')) d))" "pending h = []" "int_rx_inv ?B f'"
    "rx_contents ?B f' = keep_last (?B - 1) (rx_contents ?B f @ pending (hw (dev_data d)))"
    using rx_ind_loop_ok [OF assms(1,3,4,5)] by blast
  let ?d = "set_hw h (put_rx (Some (p, RxFifo f')) d)"
  have d: "serial_rx (dev_data ?d) = Some (p, RxFifo f')" "the_bufsz ?d = ?B" "open_flag ?d = open_flag d"
    "rx_indicate ?d = rx_indicate d" "hw (dev_data ?d) = h" by (simp_all add: dev_defs)
  have len: "(if rx_put f' \<ge> rx_get f' then rx_put f' - rx_get f' else ?B - (rx_get f' - rx_put f')) = length (rx_contents ?B f')"
    using int_rx_len [OF l(3)] by (auto simp: serial_fifo_calc_recved_len_def split: if_splits)
  have "rt_hw_serial_isr u cb fuel 1 d s = (if rx_contents ?B f' = [] then Inr (?d, s)
       else call_back cb (rx_indicate d) (word_of_nat (length (rx_contents ?B f'))) ?d s)"
    (is "_ = ?rhs")
  proof -
    have "isr_rx_ind u cb fuel d s = ?rhs"
      unfolding isr_rx_ind_def with_fifo_at [OF assms(3)] l(1) bind_res_simps with_fifo_at [OF d(1)] d(2,4) len Let_def
      by (simp del: length_rx_contents)
    then show ?thesis by (simp add: rt_hw_serial_isr_def)
  qed
  moreover have "\<exists>d2 f2. rt_serial_read u pos buf n ?d s =
      Inr ((min n (length (rx_contents ?B f')), take n (rx_contents ?B f')), d2, s)
    \<and> serial_rx (dev_data d2) = Some (p, RxFifo f2) \<and> int_rx_inv ?B f2 \<and> rx_contents ?B f2 = drop n (rx_contents ?B f')" for n
  proof -
    have fl: "has_flag (open_flag ?d) RT_DEVICE_FLAG_INT_RX" "int_rx_inv (the_bufsz ?d) f'" using assms(2) l(3) d by simp_all
    obtain f2 where "rt_serial_read u pos buf n ?d s = Inr ((min n (length (rx_contents ?B f')), take n (rx_contents ?B f')),
      put_rx (Some (p, RxFifo f2)) ?d, s)" "int_rx_inv ?B f2" "rx_contents ?B f2 = drop n (rx_contents ?B f')"
      using rt_serial_read_int [OF fl(1) d(1) fl(2), of u pos buf n s] unfolding d by blast
    then show ?thesis by (intro exI [of _ "put_rx (Some (p, RxFifo f2)) ?d"] exI [of _ f2]) (simp add: put_rx_def)
  qed
  ultimately show ?thesis using l d by (intro exI [of _ ?d] exI [of _ f']) simp
qed

text \<open>Receiving by DMA: the controller has written \<open>ys\<close> into the buffer and reports their number.\<close>

lemma serial_dma_rx_order:
  assumes "serial_rx (dev_data d) = Some (p, RxFifo f)" "dma_rx_inv (the_bufsz d) f" "length ys \<le> the_bufsz d" "buf \<noteq> 0"
  defines "d1 \<equiv> put_rx (Some (p, RxFifo (f\<lparr>rx_buffer := ring_write (rx_buffer f) (rx_put f) ys\<rparr>))) d"
  shows "\<exists>f'. rt_hw_serial_isr u cb fuel (3 + 256 * length ys) d1 s =
      call_back cb (rx_indicate d) (word_of_nat (length (rx_contents (the_bufsz d) f'))) (put_rx (Some (p, RxFifo f')) d) s
    \<and> dma_rx_inv (the_bufsz d) f' \<and> rx_contents (the_bufsz d) f' = keep_last (the_bufsz d) (rx_contents (the_bufsz d) f @ ys)"
proof -
  let ?B = "the_bufsz d"
  let ?f = "rt_dma_recv_update_put_index ?B (length ys) (f\<lparr>rx_buffer := ring_write (rx_buffer f) (rx_put f) ys\<rparr>)"
  have B: "?B \<noteq> 0" using assms(2) by (auto simp: dma_rx_inv_def rx_shape_def)
  have e: "(3 + 256 * length ys) mod 256 = 3" "(3 + 256 * length ys) div 256 = length ys" by simp_all
  have d1: "serial_rx (dev_data d1) = Some (p, RxFifo (f\<lparr>rx_buffer := ring_write (rx_buffer f) (rx_put f) ys\<rparr>))"
    "the_bufsz d1 = ?B" "rx_indicate d1 = rx_indicate d" "put_rx x d1 = put_rx x d" for x
    by (simp_all add: d1_def put_rx_def)
  have "rt_hw_serial_isr u cb fuel (3 + 256 * length ys) d1 s =
      call_back cb (rx_indicate d) (word_of_nat (length (rx_contents ?B ?f))) (put_rx (Some (p, RxFifo ?f)) d) s"
    using B by (simp add: rt_hw_serial_isr_def e isr_rx_dmadone_def with_fifo_at [OF d1(1)] d1 Let_def)
  then show ?thesis using dma_put_ok [OF assms(2,3)] by blast
qed

section \<open>Transmitting\<close>

text \<open>The transmitter either refuses a byte, or sends it behind those sent before.\<close>

definition transmits :: "'h uart_ops \<Rightarrow> ('h \<Rightarrow> u8 list) \<Rightarrow> bool" where
  "transmits u sent \<longleftrightarrow> (\<forall>c d. sent (snd (u_putc u c d)) =
     (if fst (u_putc u c d) = - 1 then sent (hw (dev_data d)) else sent (hw (dev_data d)) @ [c]))"

definition accepts :: "'h uart_ops \<Rightarrow> bool" where
  "accepts u \<longleftrightarrow> (\<forall>c d. fst (u_putc u c d) \<noteq> - 1)"

lemma set_hw_same [simp]:
  "open_flag (set_hw h d) = open_flag d" "dev_id (set_hw h d) = dev_id d" "serial_tx (dev_data (set_hw h d)) = serial_tx (dev_data d)"
  "hw (dev_data (set_hw h d)) = h"
  by (simp_all add: set_hw_def)

lemma put_char_same:
  assumes "put_char u c d = (r, d')"
  shows "\<exists>h. d' = set_hw h d"
proof -
  have "set_hw h (set_hw h' d) = set_hw h d" for h h' by (simp add: set_hw_def)
  then show ?thesis using assms by (auto simp: put_char_def call_hw_def Let_def split: if_splits prod.splits)
qed

text \<open>With a transmitter that refuses nothing, writing by interrupt does what writing by polling does.\<close>

lemma serial_int_tx_poll:
  assumes "accepts u"
  shows "serial_int_tx u sz cs flag d s = Inr ((Return sz, []), flag, serial_poll_tx u cs d, s)"
proof (induction cs arbitrary: d)
  case (Cons c cs)
  have a: "\<exists>r h. u_putc u x e = (r, h) \<and> r \<noteq> - 1" for x e using assms by (cases "u_putc u x e") (auto simp: accepts_def dest: spec2 [of _ x e])
  obtain r1 h1 where 1: "u_putc u 13 d = (r1, h1)" "r1 \<noteq> - 1" using a by blast
  obtain r2 h2 where 2: "u_putc u c (set_hw h1 d) = (r2, h2)" "r2 \<noteq> - 1" using a by blast
  obtain r3 h3 where 3: "u_putc u c d = (r3, h3)" "r3 \<noteq> - 1" using a by blast
  show ?case using 1 2 3 Cons.IH by (cases "c = 10") (simp_all add: put_char_def call_hw_def Let_def)
qed simp

lemma serial_int_tx_sent:
  assumes "transmits u sent" "running s c" "queues s (QSuspend (OCompletion (dev_id d))) = []" "\<not> stream d \<or> 10 \<notin> set cs"
  shows "\<exists>r left flag' h s'. serial_int_tx u sz cs flag d s = Inr ((r, left), flag', set_hw h d, s') \<and> kinv s'
    \<and> (\<exists>k \<le> length cs. left = drop k cs \<and> sent h = sent (hw (dev_data d)) @ take k cs)
    \<and> (r = Return sz \<and> left = [] \<and> s' = s \<or> r = Blocked \<and> left \<noteq> [] \<and> tstat s' c = RT_THREAD_SUSPEND)"
  using assms(3,4)
proof (induction cs arbitrary: flag d)
  case Nil
  have "set_hw (hw (dev_data d)) d = d" by (simp add: set_hw_def)
  then show ?case using assms(2) 
    by (intro exI [of _ "Return sz"] exI [of _ "[]"] exI [of _ flag] exI [of _ "hw (dev_data d)"] exI [of _ s]) (simp add: running_def)
next
  case (Cons x xs)
  have step: "put_char u x e = call_hw (u_putc u x) e" if "open_flag e = open_flag d" for e
    using Cons.prems(2) that by (auto simp: put_char_def)
  have sh: "set_hw h2 (set_hw h d) = set_hw h2 d" for h h2 by (simp add: set_hw_def)
  have main: "\<exists>r left flag' h s'. serial_int_tx u sz (x # xs) flag e s = Inr ((r, left), flag', set_hw h d, s') \<and> kinv s'
      \<and> (\<exists>k \<le> length (x # xs). left = drop k (x # xs) \<and> sent h = sent (hw (dev_data e)) @ take k (x # xs))
      \<and> (r = Return sz \<and> left = [] \<and> s' = s \<or> r = Blocked \<and> left \<noteq> [] \<and> tstat s' c = RT_THREAD_SUSPEND)"
    if e: "e = set_hw g d" and again: "flag = RT_COMPLETED \<Longrightarrow> \<forall>g. \<exists>r left flag' h s'.
        serial_int_tx u sz (x # xs) RT_UNCOMPLETED (set_hw g d) s = Inr ((r, left), flag', set_hw h d, s') \<and> kinv s'
      \<and> (\<exists>k \<le> length (x # xs). left = drop k (x # xs) \<and> sent h = sent g @ take k (x # xs))
      \<and> (r = Return sz \<and> left = [] \<and> s' = s \<or> r = Blocked \<and> left \<noteq> [] \<and> tstat s' c = RT_THREAD_SUSPEND)" for e g flag
  proof -
    obtain r h where p: "u_putc u x e = (r, h)" by (cases "u_putc u x e")
    have pc: "put_char u x e = (r, set_hw h d)" using p step [of e] by (simp add: e call_hw_def sh)
    have st: "sent h = (if r = - 1 then sent (hw (dev_data e)) else sent (hw (dev_data e)) @ [x])"
      using assms(1) p unfolding transmits_def by (metis fst_conv snd_conv)
    show ?thesis
    proof (cases "r = - 1")
      case False
      obtain r2 left flag' h2 s' k where IH: "serial_int_tx u sz xs flag (set_hw h d) s = Inr ((r2, left), flag', set_hw h2 d, s')"
        "kinv s'" "k \<le> length xs" "left = drop k xs" "sent h2 = sent h @ take k xs"
        "r2 = Return sz \<and> left = [] \<and> s' = s \<or> r2 = Blocked \<and> left \<noteq> [] \<and> tstat s' c = RT_THREAD_SUSPEND"
        using Cons.IH [of "set_hw h d" flag] Cons.prems by (auto simp: sh)
      then show ?thesis using pc False st
        by (intro exI [of _ r2] exI [of _ left] exI [of _ flag'] exI [of _ h2] exI [of _ s']) (auto intro!: exI [of _ "Suc k"])
    next
      case True
      show ?thesis
      proof (cases "flag = RT_COMPLETED")
        case dn: True
        have "rt_completion_wait (dev_id d) (- 1) flag s = Inr (Return RT_EOK, RT_UNCOMPLETED, s)"
          using completion_wait_ok [OF assms(2) Cons.prems(1), of "- 1" flag] dn by auto
        then have "serial_int_tx u sz (x # xs) flag e s = serial_int_tx u sz (x # xs) RT_UNCOMPLETED (set_hw h d) s"
          using pc True by simp
        then show ?thesis using again [OF dn] st True by fastforce
      next
        case wait: False
        obtain s' where "rt_completion_wait (dev_id d) (- 1) flag s = Inr (Blocked, flag, s')" "kinv s'" "tstat s' c = RT_THREAD_SUSPEND"
          using completion_wait_ok [OF assms(2) Cons.prems(1), of "- 1" flag] wait by auto
        then show ?thesis using pc True st by (auto intro!: exI [of _ 0])
      qed
    qed
  qed
  have z: "\<exists>r left flag' h s'. serial_int_tx u sz (x # xs) RT_UNCOMPLETED (set_hw g d) s = Inr ((r, left), flag', set_hw h d, s') \<and> kinv s'
      \<and> (\<exists>k \<le> length (x # xs). left = drop k (x # xs) \<and> sent h = sent g @ take k (x # xs))
      \<and> (r = Return sz \<and> left = [] \<and> s' = s \<or> r = Blocked \<and> left \<noteq> [] \<and> tstat s' c = RT_THREAD_SUSPEND)" for g
    using main [of "set_hw g d" g RT_UNCOMPLETED] by simp
  have "d = set_hw (hw (dev_data d)) d" by (simp add: set_hw_def)
  then show ?case using main [of d "hw (dev_data d)" flag] z by simp
qed


text \<open>What polling sends: on a stream a carriage return before each line feed.\<close>

lemma serial_poll_tx_sent:
  assumes "transmits u sent" "accepts u"
  shows "\<exists>h. serial_poll_tx u cs d = set_hw h d
    \<and> sent h = sent (hw (dev_data d)) @ concat (map (\<lambda>c. if c = 10 \<and> stream d then [13, 10] else [c]) cs)"
proof (induction cs arbitrary: d)
  case Nil
  have "set_hw (hw (dev_data d)) d = d" by (simp add: set_hw_def)
  then show ?case by (intro exI [of _ "hw (dev_data d)"]) simp
next
  case (Cons c cs)
  have put: "\<exists>r h. u_putc u x e = (r, h) \<and> sent h = sent (hw (dev_data e)) @ [x]" for x e
    using assms unfolding transmits_def accepts_def by (metis prod.collapse)
  have sh: "set_hw h2 (set_hw h d) = set_hw h2 d" for h h2 by (simp add: set_hw_def)
  obtain r1 h1 where 1: "u_putc u 13 d = (r1, h1)" "sent h1 = sent (hw (dev_data d)) @ [13]" using put by blast
  obtain r2 h2 where 2: "u_putc u c (set_hw h1 d) = (r2, h2)" "sent h2 = sent h1 @ [c]"
    using put [of c "set_hw h1 d"] by auto
  obtain r3 h3 where 3: "u_putc u c d = (r3, h3)" "sent h3 = sent (hw (dev_data d)) @ [c]" using put by blast
  show ?case
  proof (cases "c = 10 \<and> stream d")
    case True
    then show ?thesis using 1 2 Cons.IH [of "set_hw h2 d"] by (auto simp: call_hw_def Let_def sh)
  next
    case False
    then show ?thesis using 3 Cons.IH [of "set_hw h3 d"] by (auto simp: call_hw_def Let_def sh)
  qed
qed

text \<open>A line feed that is refused after its carriage return was sent: the loop starts over, and the carriage
  return is sent again.\<close>

lemma serial_int_tx_cr_twice:
  assumes "transmits u sent" "running s c" "stream d"
    "u_putc u 13 d = (r1, h1)" "r1 \<noteq> - 1" "u_putc u 10 (set_hw h1 d) = (- 1, h2)"
    "u_putc u 13 (set_hw h2 d) = (r3, h3)" "r3 \<noteq> - 1" "u_putc u 10 (set_hw h3 d) = (r4, h4)" "r4 \<noteq> - 1"
  shows "serial_int_tx u sz [10] RT_COMPLETED d s = Inr ((Return sz, []), RT_UNCOMPLETED, set_hw h4 d, s)
    \<and> sent h4 = sent (hw (dev_data d)) @ [13, 13, 10]"
proof -
  have sh: "set_hw x (set_hw y d) = set_hw x d" for x y by (simp add: set_hw_def)
  have w: "rt_completion_wait (dev_id d) (- 1) RT_COMPLETED s = Inr (Return RT_EOK, RT_UNCOMPLETED, s)"
    using runningD(6) [OF assms(2)] by (simp add: rt_completion_wait_def)
  have st: "sent (snd (u_putc u c e)) = (if fst (u_putc u c e) = - 1 then sent (hw (dev_data e)) else sent (hw (dev_data e)) @ [c])"
    for c e using assms(1) unfolding transmits_def by blast
  have "sent h4 = sent (hw (dev_data d)) @ [13, 13, 10]"
    using st [of 13 d] st [of 10 "set_hw h1 d"] st [of 13 "set_hw h2 d"] st [of 10 "set_hw h3 d"] assms(4-10) by simp
  moreover have "put_char u 10 d = (- 1, set_hw h2 d)" "put_char u 10 (set_hw h2 d) = (r4, set_hw h4 d)"
    using assms(3-10) by (simp_all add: put_char_def call_hw_def Let_def sh)
  ultimately show ?thesis using w assms(10) by simp
qed

lemma data_queue_peek_ok:
  assumes "dq_inv q" "dq_contents q = y # ys"
  shows "rt_data_queue_peek q = Inr (RT_EOK, Some y)"
proof -
  obtain xs where xs: "dq_items q = Some xs" "length xs = dq_size q" using assms(1) by (auto simp: dq_inv_def)
  have "\<not> is_empty q" "get_index q < dq_size q" "dq_magic q = DATAQUEUE_MAGIC"
    using dq_flags(1) [OF assms(1)] assms by (simp_all add: dq_inv_def)
  moreover have "xs ! get_index q = y"
  proof -
    have "0 < dq_len q" using assms(2) length_dq_contents [of q] by (metis length_greater_0_conv list.distinct(1))
    then have "dq_contents q ! 0 = xs ! get_index q"
      using xs calculation(2) by (simp add: dq_contents_def nth_ring_seg)
    then show ?thesis using assms(2) by simp
  qed
  ultimately show ?thesis using xs by (simp add: rt_data_queue_peek_def)
qed

text \<open>Writing by DMA: a thread that is switched out between the push of its buffer \<open>x\<close> and the start
  of the transfer lets another push and start \<open>y\<close>.  The end of that transfer then takes \<open>x\<close> off the queue and
  starts \<open>y\<close> again; the first thread finds a transfer running, and \<open>x\<close> is never sent.\<close>

lemma serial_dma_tx_race:
  assumes "dq_inv q" "dq_contents q = [x, y]" "queues s (QPush (dev_id d)) = []" "tx_complete d = None"
    "serial_tx (dev_data d) = Some (p, TxDma False q)"
  shows "\<exists>d2 q2. dma_tx_start u y d = Inr (dma_kick u y (put_tx (Some (p, TxDma True q)) d))
    \<and> isr_tx_dmadone u cb (dma_kick u y (put_tx (Some (p, TxDma True q)) d)) s = Inr (d2, s)
    \<and> d2 = dma_kick u y (put_tx (Some (p, TxDma True q2)) (dma_kick u y (put_tx (Some (p, TxDma True q)) d)))
    \<and> dq_contents q2 = [y] \<and> dma_tx_start u x d2 = Inr d2"
proof -
  have same: "serial_tx (dev_data (dma_kick u y e)) = serial_tx (dev_data e)" "dev_id (dma_kick u y e) = dev_id e"
    "tx_complete (dma_kick u y e) = tx_complete e" for e
    by (simp_all add: dma_kick_def call_hw_def set_hw_def split: prod.splits)
  have e: "\<not> is_empty q" using dq_flags(1) [OF assms(1)] assms(2) by simp
  obtain z q2 where q2: "dq_fetch q = Inr (z, q2)" "dq_inv q2" "dq_contents q = z # dq_contents q2" "dq_lwm q2 = dq_lwm q"
    by (rule dq_fetch_ok [OF assms(1) e]) blast
  have z: "z = x" "dq_contents q2 = [y]" using q2(3) assms(2) by simp_all
  have mg: "dq_magic q = DATAQUEUE_MAGIC" "dq_magic q2 = DATAQUEUE_MAGIC" using assms(1) q2(2) by (simp_all add: dq_inv_def)
  have pop: "\<exists>ev. rt_data_queue_pop (dev_id d) 0 q s = Inr (Return RT_EOK, Some x, ev, q2, s)"
    using e q2(1) mg assms(3) z(1)
    by (simp add: rt_data_queue_pop_def pop_loop_def pop_finish_def rt_data_queue_len_def RT_DEBUG_SCHEDULER_AVAILABLE_def)
  have peek: "rt_data_queue_peek q2 = Inr (RT_EOK, Some y)"
    using data_queue_peek_ok [OF q2(2)] z(2) by simp
  let ?d1 = "dma_kick u y (put_tx (Some (p, TxDma True q)) d)"
  let ?d2 = "dma_kick u y (put_tx (Some (p, TxDma True q2)) ?d1)"
  have 1: "dma_tx_start u y d = Inr ?d1" using assms(5) by (simp add: dma_tx_start_def)
  have t1: "serial_tx (dev_data ?d1) = Some (p, TxDma True q)" "dev_id ?d1 = dev_id d" "tx_complete ?d1 = None"
    using assms(4) by (simp_all add: same put_tx_def)
  have t2: "serial_tx (dev_data ?d2) = Some (p, TxDma True q2)" "tx_complete ?d2 = None"
    using t1(3) by (simp_all add: same put_tx_def)
  have "isr_tx_dmadone u cb ?d1 s = Inr (?d2, s)"
    using pop peek t1 t2 by (auto simp: isr_tx_dmadone_def with_queue_def dma_kick_def Let_def)
  moreover have "dma_tx_start u x ?d2 = Inr ?d2" using t2 by (simp add: dma_tx_start_def)
  ultimately show ?thesis using 1 z(2) by blast
qed

section \<open>An example\<close>

text \<open>A UART that gives the bytes of a list and keeps those it was given.\<close>

definition demo_uart :: "(u8 list \<times> u8 list) uart_ops" where
  "demo_uart = \<lparr>u_configure = Some (\<lambda>_ d. (RT_EOK, hw (dev_data d))), u_control = (\<lambda>_ _ d. (RT_EOK, hw (dev_data d))),
     u_putc = (\<lambda>c d. (1, fst (hw (dev_data d)), snd (hw (dev_data d)) @ [c])),
     u_getc = (\<lambda>d. case hw (dev_data d) of ([], out) \<Rightarrow> (- 1, [], out) | (c # cs, out) \<Rightarrow> (uint c, cs, out)),
     u_dma_transmit = (\<lambda>_ _ _ d. (0, hw (dev_data d))), u_malloc = (\<lambda>_ d. (1, hw (dev_data d))),
     u_free = (\<lambda>_ d. ((), hw (dev_data d))), u_items = (\<lambda>n d. (Some (replicate n (0, 0)), hw (dev_data d)))\<rparr>"

definition demo_serial :: "(u8 list \<times> u8 list) sdev" where
  "demo_serial = \<lparr>dev_id = 0, dev_flag = 0xf00, open_flag = 0x500, ref_count = 1, rx_indicate = None, tx_complete = None,
     wait_queue = rt_wqueue_init, dev_data = \<lparr>config = \<lparr>baud_rate = 115200, data_bits = 8, stop_bits = 0, parity = 0, bit_order = 0, invert = 0,
         bufsz = 4, flowcontrol = 0\<rparr>, serial_rx = Some (1, RxFifo (new_fifo 4)), serial_tx = Some (2, TxFifo 0),
       hw = ([1, 2, 3, 4], [])\<rparr>\<rparr>"

lemma demo_uart_io: "receives demo_uart fst" "transmits demo_uart snd" "accepts demo_uart"
  by (auto simp: receives_def transmits_def accepts_def demo_uart_def split: prod.splits list.splits)

theorem serial_rx_order_witness:
  "\<exists>d' f'. rt_hw_serial_isr demo_uart (\<lambda>_ _ d s. Inr (d, s)) 10 1 demo_serial demo_kernel = Inr (d', demo_kernel)
    \<and> serial_rx (dev_data d') = Some (1, RxFifo f') \<and> rx_contents 4 f' = [2, 3, 4]"
proof -
  have B: "the_bufsz demo_serial = 4" "rx_indicate demo_serial = None" by (simp_all add: demo_serial_def)
  have "has_flag (open_flag demo_serial) RT_DEVICE_FLAG_INT_RX" by (simp add: demo_serial_def has_flag_def)
  moreover have "serial_rx (dev_data demo_serial) = Some (1, RxFifo (new_fifo 4))" by (simp add: demo_serial_def)
  moreover have "int_rx_inv (the_bufsz demo_serial) (new_fifo 4)"
    by (simp add: demo_serial_def int_rx_inv_def rx_shape_def new_fifo_def)
  moreover have "length (fst (hw (dev_data demo_serial))) < 10" by (simp add: demo_serial_def)
  moreover have "keep_last 3 (rx_contents 4 (new_fifo 4) @ fst (hw (dev_data demo_serial))) = [2, 3, 4]"
    by (simp add: rx_contents_def new_fifo_def serial_fifo_calc_recved_len_def keep_last_def demo_serial_def)
  ultimately obtain d' f' where "rt_hw_serial_isr demo_uart (\<lambda>_ _ d s. Inr (d, s)) 10 1 demo_serial demo_kernel =
      (if rx_contents 4 f' = [] then Inr (d', demo_kernel)
       else call_back (\<lambda>_ _ d s. Inr (d, s)) None (word_of_nat (length (rx_contents 4 f'))) d' demo_kernel)"
    "serial_rx (dev_data d') = Some (1, RxFifo f')" "rx_contents 4 f' = [2, 3, 4]"
    using serial_rx_order [OF demo_uart_io(1), where d = demo_serial and p = 1 and f = "new_fifo 4" and fuel = 10
        and cb = "\<lambda>_ _ d s. Inr (d, s)" and s = demo_kernel and pos = 0 and buf = 0]
    unfolding B by fastforce
  then show ?thesis by (auto simp: call_back_def)
qed


end
