(* ===== verification/SerialDev.thy ===== *)
theory SerialDev
  imports Serial
begin

text \<open>
  The serial device as a driver of the device framework: it keeps the contract of
  \<open>device_driver\<close> in every open mode, so that any number of users can open and close it.
\<close>

section \<open>Flags\<close>

lemma has_flag_bit:
  "has_flag x RT_DEVICE_FLAG_INT_RX \<longleftrightarrow> bit x 8" "has_flag x RT_DEVICE_FLAG_DMA_RX \<longleftrightarrow> bit x 9"
  "has_flag x RT_DEVICE_FLAG_INT_TX \<longleftrightarrow> bit x 10" "has_flag x RT_DEVICE_FLAG_DMA_TX \<longleftrightarrow> bit x 11"
  using and_exp_eq_0_iff_not_bit [of x 8] and_exp_eq_0_iff_not_bit [of x 9] and_exp_eq_0_iff_not_bit [of x 10]
    and_exp_eq_0_iff_not_bit [of x 11] by (simp_all add: has_flag_def)

lemma activated_bit: "activated d \<longleftrightarrow> bit (dev_flag d) 4"
  using and_exp_eq_0_iff_not_bit [of "dev_flag d" 4] by (simp add: activated_def)

lemma u16_bits:
  "bit (256 :: u16) n \<longleftrightarrow> n = 8" "bit (512 :: u16) n \<longleftrightarrow> n = 9" "bit (1024 :: u16) n \<longleftrightarrow> n = 10" "bit (2048 :: u16) n \<longleftrightarrow> n = 11"
  "bit (16 :: u16) n \<longleftrightarrow> n = 4" "bit (8 :: u16) n \<longleftrightarrow> n = 3" "bit (64 :: u16) n \<longleftrightarrow> n = 6" "bit (255 :: u16) n \<longleftrightarrow> n < 8"
proof -
  have p: "bit (2 ^ m :: u16) n \<longleftrightarrow> n = m" if "m < 16" for m using that by (auto simp: bit_exp_iff possible_bit_def)
  show "bit (256 :: u16) n \<longleftrightarrow> n = 8" "bit (512 :: u16) n \<longleftrightarrow> n = 9" "bit (1024 :: u16) n \<longleftrightarrow> n = 10" "bit (2048 :: u16) n \<longleftrightarrow> n = 11"
    "bit (16 :: u16) n \<longleftrightarrow> n = 4" "bit (8 :: u16) n \<longleftrightarrow> n = 3" "bit (64 :: u16) n \<longleftrightarrow> n = 6"
    using p [of 8] p [of 9] p [of 10] p [of 11] p [of 4] p [of 3] p [of 6] by simp_all
  have m: "(255 :: u16) = mask 8" by (simp add: mask_eq_exp_minus_1)
  show "bit (255 :: u16) n \<longleftrightarrow> n < 8" unfolding m bit_mask_iff by (auto simp: possible_bit_def)
qed

lemma cleared_bits:
  "bit (- 257 :: u16) n \<longleftrightarrow> n < 16 \<and> n \<noteq> 8" "bit (- 513 :: u16) n \<longleftrightarrow> n < 16 \<and> n \<noteq> 9" "bit (- 17 :: u16) n \<longleftrightarrow> n < 16 \<and> n \<noteq> 4"
proof -
  have m: "(- 257 :: u16) = NOT 256" "(- 513 :: u16) = NOT 512" "(- 17 :: u16) = NOT 16" by simp_all
  show "bit (- 257 :: u16) n \<longleftrightarrow> n < 16 \<and> n \<noteq> 8" "bit (- 513 :: u16) n \<longleftrightarrow> n < 16 \<and> n \<noteq> 9" "bit (- 17 :: u16) n \<longleftrightarrow> n < 16 \<and> n \<noteq> 4"
    unfolding m bit_not_iff u16_bits by (auto simp: possible_bit_def)
qed

lemmas num_bits = bit_numeral_word_iff bit_neg_numeral_word_iff

lemmas bits_of_flags = cleared_bits has_flag_bit activated_bit u16_bits bit_and_iff bit_or_iff bit_not_iff possible_bit_def

section \<open>The kernel a serial device needs\<close>

text \<open>A thread runs, the device is registered and nobody waits in it.\<close>

definition serial_kernel :: "nat \<Rightarrow> kernel \<Rightarrow> bool" where
  "serial_kernel n s \<longleftrightarrow> (\<exists>c. running s c) \<and> rt_object_get_type (ODevice n) s = RT_Object_Class_Device
     \<and> queues s (QPop n) = [] \<and> queues s (QPush n) = [] \<and> queues s (QSuspend (OCompletion n)) = []"

lemma schedule_serial_kernel:
  assumes "serial_kernel n s"
  shows "\<exists>s'. rt_schedule s = Inr s' \<and> serial_kernel n s'"
proof -
  obtain c where c: "running s c" using assms by (auto simp: serial_kernel_def)
  note d = runningD [OF c]
  obtain s' where s': "rt_schedule s = Inr s'" "kinv s'" "sched_frame s s'" "runs_highest s'"
    by (rule schedule_ok [OF d(1,2)]) (use d in auto)
  note fr = s'(3) [unfolded sched_frame_def, THEN conjunct1]
  have same: "lock_nest s' = lock_nest s" "irq_nest s' = irq_nest s" "objs s' = objs s" by (subst fr, simp)+
  have q: "queues s' q = queues s q" if "\<forall>p. q \<noteq> QReady p" for q
    using s'(3) that unfolding sched_frame_def by simp
  obtain c' where "cur s' = Some c'" "tstat s' c' = RT_THREAD_RUNNING" using s'(4) by (auto simp: runs_highest_def)
  then have "running s' c'" using s'(2) same d(4,5) by (simp add: running_def)
  then have "serial_kernel n s'" using assms q same by (auto simp: serial_kernel_def rt_object_get_type_def)
  then show ?thesis using s'(1) by blast
qed

lemma upd_queue_nil: "queues s q = [] \<Longrightarrow> upd_queue q (\<lambda>_. []) s = s"
  by (simp add: upd_queue_def fun_upd_idem)

lemma deinit_serial_kernel:
  assumes "serial_kernel n s" "dq_magic q = DATAQUEUE_MAGIC"
  shows "\<exists>q' s'. rt_data_queue_deinit n q s = Inr (RT_EOK, q', s') \<and> serial_kernel n s'"
proof -
  obtain c where c: "running s c" using assms by (auto simp: serial_kernel_def)
  note d = runningD [OF c]
  have e: "queues s (QPop n) = []" "queues s (QPush n) = []" using assms by (simp_all add: serial_kernel_def)
  let ?s = "rt_enter_critical s"
  have "ipc_list_resume_all (QPop n) ?s = Inr ?s" "ipc_list_resume_all (QPush n) ?s = Inr ?s"
    using e by (simp_all add: ipc_list_resume_all_def rt_enter_critical_def)
  moreover have "rt_exit_critical ?s = rt_schedule s"
  proof -
    have 1: "?s\<lparr>lock_nest := lock_nest ?s - 1\<rparr> = s" using d(4) by (simp add: rt_enter_critical_def)
    have 2: "s\<lparr>lock_nest := 0\<rparr> = s" using d(4) by simp
    show ?thesis unfolding rt_exit_critical_def Let_def 1 2 using d(2,4) by simp
  qed
  moreover obtain s1 where s1: "rt_schedule s = Inr s1" "serial_kernel n s1"
    using schedule_serial_kernel [OF assms(1)] by blast
  moreover obtain s2 where "rt_schedule s1 = Inr s2" "serial_kernel n s2"
    using schedule_serial_kernel [OF s1(2)] by blast
  ultimately show ?thesis using assms(2) by (simp add: rt_data_queue_deinit_def rt_data_queue_reset_def)
qed

section \<open>The contract\<close>

text \<open>The UART driver configures itself and the memory suffices.\<close>

definition serves :: "'h uart_ops \<Rightarrow> bool" where
  "serves u \<longleftrightarrow> (\<forall>sz d. fst (u_malloc u sz d) \<noteq> 0) \<and> (\<forall>sz d. \<exists>xs. fst (u_items u sz d) = Some xs)
     \<and> (\<forall>f c d. u_configure u = Some f \<longrightarrow> fst (f c d) = RT_EOK)"

text \<open>The device has the modes it is opened with.\<close>

definition supports :: "u16 \<Rightarrow> 'h sdev \<Rightarrow> bool" where
  "supports oflag d \<longleftrightarrow> (\<forall>m \<in> {RT_DEVICE_FLAG_INT_RX, RT_DEVICE_FLAG_DMA_RX, RT_DEVICE_FLAG_INT_TX, RT_DEVICE_FLAG_DMA_TX}.
     has_flag oflag m \<longrightarrow> has_flag (dev_flag d) m)"

definition serial_idle :: "'h uart_ops \<Rightarrow> u16 \<Rightarrow> nat \<Rightarrow> 'h sdev \<Rightarrow> bool" where
  "serial_idle u oflag n d \<longleftrightarrow> serves u \<and> supports oflag d \<and> dev_id d = n
     \<and> serial_rx (dev_data d) = None \<and> serial_tx (dev_data d) = None"

text \<open>In use: the structures of the two modes exist, and the flags say which they are.\<close>

definition tx_matches :: "u16 \<Rightarrow> (nat \<times> tx_mode) option \<Rightarrow> bool" where
  "tx_matches oflag x \<longleftrightarrow>
     (if bit oflag 10 then \<exists>p c. x = Some (p, TxFifo c)
      else if bit oflag 11 then \<exists>p a q. x = Some (p, TxDma a q) \<and> dq_magic q = DATAQUEUE_MAGIC
      else x = None)"

definition flags_match :: "u16 \<Rightarrow> u16 \<Rightarrow> bool" where
  "flags_match oflag f \<longleftrightarrow> (bit f 8 \<longleftrightarrow> bit oflag 8) \<and> (bit f 9 \<longleftrightarrow> bit oflag 9 \<and> \<not> bit oflag 8)
     \<and> (bit f 10 \<longleftrightarrow> bit oflag 10) \<and> (bit f 11 \<longleftrightarrow> bit oflag 11 \<and> \<not> bit oflag 10)"

definition serial_used :: "'h uart_ops \<Rightarrow> u16 \<Rightarrow> nat \<Rightarrow> 'h sdev \<Rightarrow> bool" where
  "serial_used u oflag n d \<longleftrightarrow> serves u \<and> supports oflag d \<and> dev_id d = n \<and> activated d
     \<and> (serial_rx (dev_data d) \<noteq> None \<longleftrightarrow> bit oflag 8 \<or> bit oflag 9)
     \<and> tx_matches oflag (serial_tx (dev_data d)) \<and> flags_match oflag (open_flag d)"

text \<open>What each part of an open or a close leaves alone.\<close>

definition part_same :: "'h sdev \<Rightarrow> 'h sdev \<Rightarrow> bool" where
  "part_same d' d \<longleftrightarrow> dev_id d' = dev_id d \<and> ref_count d' = ref_count d \<and> dev_flag d' = dev_flag d"

lemma part_same_refl [simp]: "part_same d d"
  by (simp add: part_same_def)

lemma hw_fields [simp]:
  "serial_rx (dev_data (set_hw h d)) = serial_rx (dev_data d)" "config (dev_data (set_hw h d)) = config (dev_data d)"
  "dev_flag (set_hw h d) = dev_flag d" "ref_count (set_hw h d) = ref_count d"
  by (simp_all add: set_hw_def)

lemma snd_call_hw: "snd (call_hw f d) = set_hw (snd (f d)) d"
  by (simp add: call_hw_def split: prod.splits)

lemma tell_fields [simp]:
  "serial_rx (dev_data (tell_hw u cmd m d)) = serial_rx (dev_data d)" "serial_tx (dev_data (tell_hw u cmd m d)) = serial_tx (dev_data d)"
  "dev_flag (tell_hw u cmd m d) = dev_flag d" "ref_count (tell_hw u cmd m d) = ref_count d"
  "open_flag (tell_hw u cmd m d) = open_flag d" "dev_id (tell_hw u cmd m d) = dev_id d"
  by (simp_all add: tell_hw_def snd_call_hw)

lemma put_fields [simp]:
  "serial_rx (dev_data (put_rx x d)) = x" "serial_tx (dev_data (put_rx x d)) = serial_tx (dev_data d)"
  "serial_rx (dev_data (put_tx y d)) = serial_rx (dev_data d)" "serial_tx (dev_data (put_tx y d)) = y"
  "dev_flag (put_rx x d) = dev_flag d" "ref_count (put_rx x d) = ref_count d" "open_flag (put_rx x d) = open_flag d" "dev_id (put_rx x d) = dev_id d"
  "dev_flag (put_tx y d) = dev_flag d" "ref_count (put_tx y d) = ref_count d" "open_flag (put_tx y d) = open_flag d" "dev_id (put_tx y d) = dev_id d"
  by (simp_all add: put_rx_def put_tx_def)

lemma flag_fields [simp]:
  "serial_rx (dev_data (set_flag m d)) = serial_rx (dev_data d)" "serial_tx (dev_data (set_flag m d)) = serial_tx (dev_data d)"
  "dev_flag (set_flag m d) = dev_flag d" "ref_count (set_flag m d) = ref_count d" "dev_id (set_flag m d) = dev_id d"
  "open_flag (set_flag m d) = open_flag d OR m"
  "serial_rx (dev_data (clear_flag m d)) = serial_rx (dev_data d)" "serial_tx (dev_data (clear_flag m d)) = serial_tx (dev_data d)"
  "dev_flag (clear_flag m d) = dev_flag d" "ref_count (clear_flag m d) = ref_count d" "dev_id (clear_flag m d) = dev_id d"
  "open_flag (clear_flag m d) = open_flag d AND NOT m"
  by (simp_all add: set_flag_def clear_flag_def)

lemma malloc_ok:
  assumes "serves u"
  obtains p h where "call_hw (u_malloc u sz) d = (p, set_hw h d)" "p \<noteq> 0"
proof -
  obtain p h where p: "u_malloc u sz d = (p, h)" by (cases "u_malloc u sz d")
  then have "p \<noteq> 0" using assms unfolding serves_def by (metis fst_conv)
  then show thesis using p that by (simp add: call_hw_def)
qed

lemma open_rx_ok:
  assumes "serves u" "serial_rx (dev_data d) \<noteq> None \<Longrightarrow> bit oflag 8 \<or> bit oflag 9"
  shows "\<exists>d'. open_rx u oflag d = Inr d' \<and> part_same d' d \<and> serial_tx (dev_data d') = serial_tx (dev_data d)
    \<and> (serial_rx (dev_data d') \<noteq> None \<longleftrightarrow> bit oflag 8 \<or> bit oflag 9)
    \<and> open_flag d' = open_flag d OR (if bit oflag 8 then 0x100 else if bit oflag 9 then 0x200 else 0)"
proof -
  obtain p h where a: "call_hw (u_malloc u (12 + the_bufsz d)) d = (p, set_hw h d)" "p \<noteq> 0" by (rule malloc_ok [OF assms(1)])
  obtain p2 h2 where b: "call_hw (u_malloc u 4) d = (p2, set_hw h2 d)" "p2 \<noteq> 0" by (rule malloc_ok [OF assms(1)])
  show ?thesis
  proof (cases "serial_rx (dev_data d)")
    case None
    then show ?thesis using a b by (simp add: open_rx_def serial_malloc_def has_flag_bit part_same_def Let_def)
  next
    case (Some x)
    then show ?thesis using assms(2) by (auto simp: open_rx_def has_flag_bit part_same_def)
  qed
qed

lemma open_tx_ok:
  assumes "serves u" "serial_kernel (dev_id d) s" "serial_tx (dev_data d) \<noteq> None \<Longrightarrow> tx_matches oflag (serial_tx (dev_data d))"
  shows "\<exists>d'. open_tx u oflag d s = Inr (d', s) \<and> part_same d' d \<and> serial_rx (dev_data d') = serial_rx (dev_data d)
    \<and> tx_matches oflag (serial_tx (dev_data d'))
    \<and> open_flag d' = open_flag d OR (if bit oflag 10 then 0x400 else if bit oflag 11 then 0x800 else 0)"
proof -
  obtain p h where a: "call_hw (u_malloc u 12) d = (p, set_hw h d)" "p \<noteq> 0" by (rule malloc_ok [OF assms(1)])
  obtain p2 h2 where b: "call_hw (u_malloc u 40) d = (p2, set_hw h2 d)" "p2 \<noteq> 0" by (rule malloc_ok [OF assms(1)])
  obtain xs h3 where i: "u_items u 8 (set_hw h2 d) = (Some xs, h3)"
    using assms(1) unfolding serves_def by (metis prod.collapse)
  have c: "rt_completion_init (dev_id d) s = (RT_UNCOMPLETED, s)"
    using assms(2) by (simp add: rt_completion_init_def serial_kernel_def upd_queue_nil)
  obtain q where q: "rt_data_queue_init (dev_id d) 8 4 (Some xs) s = Inr (RT_EOK, q, s)" "dq_magic q = DATAQUEUE_MAGIC"
    using assms(2) by (simp add: rt_data_queue_init_def serial_kernel_def upd_queue_nil)
  show ?thesis
  proof (cases "serial_tx (dev_data d)")
    case None
    then show ?thesis using a b c q i
      by (auto simp: open_tx_def serial_malloc_def has_flag_bit part_same_def Let_def tx_matches_def call_hw_def)
  next
    case (Some x)
    then show ?thesis using assms(3) by (auto simp: open_tx_def has_flag_bit part_same_def tx_matches_def)
  qed
qed

lemma close_rx_ok:
  assumes "flags_match oflag (open_flag d)" "serial_rx (dev_data d) \<noteq> None \<longleftrightarrow> bit oflag 8 \<or> bit oflag 9"
  shows "\<exists>d'. close_rx u d = Inr d' \<and> part_same d' d \<and> serial_tx (dev_data d') = serial_tx (dev_data d)
    \<and> serial_rx (dev_data d') = None
    \<and> (bit (open_flag d') 10 \<longleftrightarrow> bit (open_flag d) 10) \<and> (bit (open_flag d') 11 \<longleftrightarrow> bit (open_flag d) 11)"
proof (cases "bit oflag 8 \<or> bit oflag 9")
  case True
  then obtain p x where "serial_rx (dev_data d) = Some (p, x)" using assms(2) by auto
  then show ?thesis using assms(1) True
    by (auto simp: close_rx_def flags_match_def part_same_def Let_def snd_call_hw bits_of_flags simp del: num_bits)
next
  case False
  then have "serial_rx (dev_data d) = None" using assms(2) by blast
  then show ?thesis using False assms(1) by (simp add: close_rx_def flags_match_def part_same_def has_flag_bit)
qed

lemma close_tx_ok:
  assumes "serial_kernel (dev_id d) s" "tx_matches oflag (serial_tx (dev_data d))"
    "bit (open_flag d) 10 \<longleftrightarrow> bit oflag 10" "bit (open_flag d) 11 \<longleftrightarrow> bit oflag 11 \<and> \<not> bit oflag 10"
  shows "\<exists>d' s'. close_tx u d s = Inr (d', s') \<and> part_same d' d \<and> serial_rx (dev_data d') = serial_rx (dev_data d)
    \<and> serial_tx (dev_data d') = None \<and> serial_kernel (dev_id d) s'"
proof -
  consider (int) p c where "bit oflag 10" "serial_tx (dev_data d) = Some (p, TxFifo c)"
    | (dma) p a q where "\<not> bit oflag 10" "bit oflag 11" "serial_tx (dev_data d) = Some (p, TxDma a q)" "dq_magic q = DATAQUEUE_MAGIC"
    | (poll) "\<not> bit oflag 10" "\<not> bit oflag 11" "serial_tx (dev_data d) = None"
    using assms(2) by (auto simp: tx_matches_def split: if_splits)
  then show ?thesis
  proof cases
    case int
    then show ?thesis using assms by (simp add: close_tx_def has_flag_bit part_same_def Let_def snd_call_hw)
  next
    case dma
    obtain q' s' where "rt_data_queue_deinit (dev_id d) q s = Inr (RT_EOK, q', s')" "serial_kernel (dev_id d) s'"
      using deinit_serial_kernel [OF assms(1) dma(4)] by blast
    then show ?thesis using dma assms by (simp add: close_tx_def has_flag_bit part_same_def Let_def snd_call_hw)
  next
    case poll
    then show ?thesis using assms by (simp add: close_tx_def has_flag_bit part_same_def)
  qed
qed

lemma supports_not_unsupported:
  assumes "supports oflag d"
  shows "\<not> unsupported oflag d RT_DEVICE_FLAG_DMA_RX" "\<not> unsupported oflag d RT_DEVICE_FLAG_DMA_TX"
    "\<not> unsupported oflag d RT_DEVICE_FLAG_INT_RX" "\<not> unsupported oflag d RT_DEVICE_FLAG_INT_TX"
  using assms by (simp_all add: supports_def unsupported_def)

lemma supports_cong: "(\<forall>k > 7. bit (dev_flag d') k \<longleftrightarrow> bit (dev_flag d) k) \<Longrightarrow> supports oflag d' \<longleftrightarrow> supports oflag d"
  by (simp add: supports_def has_flag_bit)

lemma serial_open_ok:
  assumes k: "serial_kernel n s" and st: "serial_idle u oflag n d \<and> activated d \<or> serial_used u oflag n d"
  shows "\<exists>d'. rt_serial_open u oflag d s = Inr (RT_EOK, d', s) \<and> serial_used u oflag n d' \<and> dev_same d' d"
proof -
  have a: "serves u" "supports oflag d" "dev_id d = n" "activated d"
    "serial_rx (dev_data d) \<noteq> None \<Longrightarrow> bit oflag 8 \<or> bit oflag 9"
    "serial_tx (dev_data d) \<noteq> None \<Longrightarrow> tx_matches oflag (serial_tx (dev_data d))"
    using st by (auto simp: serial_idle_def serial_used_def)
  let ?d = "d\<lparr>open_flag := oflag AND 0xff\<rparr>"
  obtain d1 where d1: "open_rx u oflag ?d = Inr d1" "part_same d1 ?d" "serial_tx (dev_data d1) = serial_tx (dev_data d)"
    "serial_rx (dev_data d1) \<noteq> None \<longleftrightarrow> bit oflag 8 \<or> bit oflag 9"
    "open_flag d1 = (oflag AND 0xff) OR (if bit oflag 8 then 0x100 else if bit oflag 9 then 0x200 else 0)"
    using open_rx_ok [OF a(1), of ?d oflag] a(5) by auto
  have id: "dev_id d1 = n" using d1(2) a(3) by (simp add: part_same_def)
  obtain d2 where d2: "open_tx u oflag d1 s = Inr (d2, s)" "part_same d2 d1" "serial_rx (dev_data d2) = serial_rx (dev_data d1)"
    "tx_matches oflag (serial_tx (dev_data d2))"
    "open_flag d2 = open_flag d1 OR (if bit oflag 10 then 0x400 else if bit oflag 11 then 0x800 else 0)"
    using open_tx_ok [OF a(1), of d1 s oflag] k id a(6) d1(3) by auto
  let ?m = "if has_flag oflag RT_DEVICE_FLAG_STREAM \<or> stream d then RT_DEVICE_FLAG_STREAM else 0"
  have run: "rt_serial_open u oflag d s = Inr (RT_EOK, set_flag ?m d2, s)"
    using supports_not_unsupported [OF a(2)] d1(1) d2(1) by (simp add: rt_serial_open_def Let_def)
  have same: "part_same (set_flag ?m d2) d" using d1(2) d2(2) by (simp add: part_same_def)
  have "flags_match oflag (open_flag (set_flag ?m d2))"
    using d1(5) d2(5) by (simp add: flags_match_def bits_of_flags)
  moreover have "supports oflag (set_flag ?m d2)" "activated (set_flag ?m d2)"
    using a(2,4) same by (simp_all add: supports_def activated_def part_same_def)
  ultimately have "serial_used u oflag n (set_flag ?m d2)"
    using a(1,3) d1(4) d2(3,4) same by (simp add: serial_used_def part_same_def)
  moreover have "dev_same (set_flag ?m d2) d" using same by (simp add: part_same_def dev_same_def)
  ultimately show ?thesis using run by blast
qed

lemma serial_close_ok:
  assumes k: "serial_kernel n s" and d: "serial_used u oflag n d" and r: "ref_count d = 0"
  shows "\<exists>d' s'. rt_serial_close u d s = Inr (RT_EOK, d', s') \<and> serial_idle u oflag n d' \<and> dev_same d' d \<and> serial_kernel n s'"
proof -
  note a = d [unfolded serial_used_def]
  obtain d1 where d1: "close_rx u d = Inr d1" "part_same d1 d" "serial_tx (dev_data d1) = serial_tx (dev_data d)"
    "serial_rx (dev_data d1) = None"
    "bit (open_flag d1) 10 \<longleftrightarrow> bit (open_flag d) 10" "bit (open_flag d1) 11 \<longleftrightarrow> bit (open_flag d) 11"
    using close_rx_ok [of oflag d u] a by blast
  have id: "dev_id d1 = n" using d1(2) a by (simp add: part_same_def)
  obtain d2 s' where d2: "close_tx u d1 s = Inr (d2, s')" "part_same d2 d1" "serial_rx (dev_data d2) = None"
    "serial_tx (dev_data d2) = None" "serial_kernel n s'"
    using close_tx_ok [of d1 s oflag u] k id a d1(3-6) by (auto simp: flags_match_def)
  let ?t = "tell_hw u RT_DEVICE_CTRL_CLOSE 0 d2"
  let ?d = "?t\<lparr>dev_flag := dev_flag ?t AND NOT RT_DEVICE_FLAG_ACTIVATED\<rparr>"
  have run: "rt_serial_close u d s = Inr (RT_EOK, ?d, s')"
    using d1(1) d2(1) r by (simp add: rt_serial_close_def Let_def)
  have f: "dev_flag d2 = dev_flag d" "dev_id d2 = n" "ref_count d2 = ref_count d"
    using d1(2) d2(2) a by (simp_all add: part_same_def)
  have "supports oflag ?d" using a by (simp add: f supports_def bits_of_flags)
  then have "serial_idle u oflag n ?d" using a d2(3,4) f by (simp add: serial_idle_def)
  moreover have "dev_same ?d d"
  proof -
    have "(dev_flag d AND NOT RT_DEVICE_FLAG_ACTIVATED) AND RT_DEVICE_FLAG_STANDALONE = dev_flag d AND RT_DEVICE_FLAG_STANDALONE"
      by (rule bit_word_eqI) (auto simp: bits_of_flags simp del: num_bits)
    then show ?thesis using f a by (simp add: dev_same_def)
  qed
  ultimately show ?thesis using run d2(5) by blast
qed

interpretation serial_dev: device_driver "serial_ops u" oflag "serial_idle u oflag n" "serial_used u oflag n" "serial_kernel n"
  for u oflag n
proof
  fix d :: "'a sdev" and m s f
  have or: "supports oflag (d\<lparr>ref_count := m, dev_flag := dev_flag d OR RT_DEVICE_FLAG_ACTIVATED\<rparr>) = supports oflag d"
    by (rule supports_cong) (auto simp: bits_of_flags simp del: num_bits)
  then show "serial_idle u oflag n d \<Longrightarrow> serial_idle u oflag n (d\<lparr>ref_count := m, dev_flag := dev_flag d OR RT_DEVICE_FLAG_ACTIVATED\<rparr>)"
    by (simp add: serial_idle_def)
  show "serial_idle u oflag n d \<Longrightarrow> serial_idle u oflag n (d\<lparr>open_flag := RT_DEVICE_OFLAG_CLOSE\<rparr>)"
    by (simp add: serial_idle_def supports_def)
  show "serial_used u oflag n d \<Longrightarrow> serial_used u oflag n (d\<lparr>open_flag := open_flag d OR RT_DEVICE_OFLAG_OPEN, ref_count := m\<rparr>)"
    by (simp add: serial_used_def supports_def flags_match_def bits_of_flags)
  show "serial_used u oflag n d \<Longrightarrow> serial_used u oflag n (d\<lparr>ref_count := m\<rparr>)"
    by (simp add: serial_used_def supports_def activated_def)
  show "serial_used u oflag n d \<Longrightarrow> activated d" by (simp add: serial_used_def)
  show "serial_kernel n s \<Longrightarrow> serial_idle u oflag n d \<or> serial_used u oflag n d \<Longrightarrow> is_device d s"
    by (auto simp: serial_kernel_def serial_idle_def serial_used_def is_device_def)
  show "serial_kernel n s \<Longrightarrow> serial_idle u oflag n d \<and> activated d \<or> serial_used u oflag n d \<Longrightarrow>
      \<exists>f d' s'. op_open (serial_ops u) = Some f \<and> f oflag d s = Inr (RT_EOK, d', s') \<and> serial_used u oflag n d'
        \<and> dev_same d' d \<and> serial_kernel n s'"
    using serial_open_ok [of n s u oflag d] by (auto simp: serial_ops_def)
  show "serial_kernel n s \<Longrightarrow> serial_used u oflag n d \<Longrightarrow> ref_count d = 0 \<Longrightarrow>
      \<exists>f d' s'. op_close (serial_ops u) = Some f \<and> f d s = Inr (RT_EOK, d', s') \<and> serial_idle u oflag n d'
        \<and> dev_same d' d \<and> serial_kernel n s'"
    using serial_close_ok [of n s u oflag d] by (auto simp: serial_ops_def)
  show "\<exists>d' s'. f d s = Inr (RT_EOK, d', s') \<and> serial_idle u oflag n d' \<and> dev_same d' d \<and> open_flag d' = open_flag d \<and> serial_kernel n s'"
    if k: "serial_kernel n s" and i: "serial_idle u oflag n d" and "\<not> activated d" and f: "op_init (serial_ops u) = Some f"
  proof -
    let ?d = "put_tx None (put_rx None d)"
    have sv: "serves u" using i by (simp add: serial_idle_def)
    have keep: "serial_idle u oflag n (set_hw h ?d)" "serial_idle u oflag n ?d" for h
      using i by (simp_all add: serial_idle_def supports_def)
    show ?thesis
    proof (cases "u_configure u")
      case None
      then show ?thesis using f k keep by (auto simp: serial_ops_def rt_serial_init_def dev_same_def)
    next
      case (Some c)
      obtain h where "c (config (dev_data ?d)) ?d = (RT_EOK, h)" using sv Some unfolding serves_def by (metis prod.collapse)
      then show ?thesis using f k keep Some by (auto simp: serial_ops_def rt_serial_init_def dev_same_def call_hw_def Let_def)
    qed
  qed
qed

text \<open>The contract is for users that agree on the mode.  One more user who opens for polling takes the mode
  flags of the others away: a read no longer looks at the buffer, and the last close leaves it allocated.\<close>

lemma serial_reopen_drops_mode:
  assumes "serial_rx (dev_data d) = Some x" "serial_tx (dev_data d) = Some y"
  shows "\<exists>d'. rt_serial_open u 3 d s = Inr (RT_EOK, d', s) \<and> serial_rx (dev_data d') = Some x
    \<and> \<not> has_flag (open_flag d') RT_DEVICE_FLAG_INT_RX \<and> close_rx u d' = Inr d'"
  using assms by (auto simp: rt_serial_open_def unsupported_def has_flag_def open_rx_def open_tx_def close_rx_def set_flag_def)

section \<open>Many users\<close>


definition demo_closed :: "(u8 list \<times> u8 list) sdev" where
  "demo_closed = demo_serial\<lparr>open_flag := 0, ref_count := 0,
     dev_data := (dev_data demo_serial)\<lparr>serial_rx := None, serial_tx := None\<rparr>\<rparr>"


end
