(* ===== verification/SysInv.thy ===== *)
theory SysInv
  imports Event Mailbox MsgQueue
begin

text \<open>
  The joint invariant of the kernel between two calls, and what the elementary steps of all the
  operations keep of it: the scheduler, the clock, and the semaphores, event sets, mailboxes and message
  queues in use.
\<close>

section \<open>What a kernel operation leaves alone\<close>

definition awake :: "kernel \<Rightarrow> tid \<Rightarrow> bool" where
  "awake s u \<longleftrightarrow> tstat s u = RT_THREAD_READY \<or> tstat s u = RT_THREAD_RUNNING"

text \<open>Between interrupts every timer is ahead and belongs to a thread.\<close>

definition clock_ready :: "kernel \<Rightarrow> bool" where
  "clock_ready s \<longleftrightarrow> timer_tmp s = [] \<and> set (timer_list s) \<subseteq> range TThread \<and> (\<forall>m \<in> set (timer_list s). due s m \<noteq> 0)"

text \<open>Only threads of \<open>X\<close> fall asleep, only wait queues of \<open>Q\<close> grow.\<close>

definition calm :: "tid set \<Rightarrow> qid set \<Rightarrow> kernel \<Rightarrow> kernel \<Rightarrow> bool" where
  "calm X Q s' s \<longleftrightarrow> (clock_ready s \<longrightarrow> clock_ready s') \<and> (\<forall>u. u \<notin> X \<longrightarrow> awake s u \<longrightarrow> awake s' u)
     \<and> (\<forall>q. waits_in q \<longrightarrow> q \<notin> Q \<longrightarrow> set (queues s' q) \<subseteq> set (queues s q))"

lemma calm_refl [simp]: "calm X Q s s"
  by (simp add: calm_def)

lemma calm_trans: "calm X Q s2 s1 \<Longrightarrow> calm X Q s1 s0 \<Longrightarrow> calm X Q s2 s0"
  unfolding calm_def by blast

lemma calm_mono: "calm {} {} s' s \<Longrightarrow> calm X Q s' s"
  unfolding calm_def by blast

lemma calm_fields:
  assumes "\<And>t. tstat s' t = tstat s t \<or> awake s' t" "\<And>q. waits_in q \<Longrightarrow> set (queues s' q) \<subseteq> set (queues s q)"
    "timer_tmp s' = timer_tmp s" "timer_list s' = timer_list s" "\<And>m. due s' m = due s m"
  shows "calm X Q s' s"
  using assms unfolding calm_def clock_ready_def awake_def by metis

lemma calm_timer_stop: "rt_timer_stop m s = Inr (r, s') \<Longrightarrow> calm X Q s' s"
  using set_remove1_subset [of m "timer_list s"]
  by (auto simp: rt_timer_stop_def assert_then_eq_Inr calm_def clock_ready_def awake_def due_def split: if_splits)

lemma calm_remove: "rt_schedule_remove_thread t s = Inr s' \<Longrightarrow> calm X Q s' s"
  by (intro calm_fields)
    (auto simp: rt_schedule_remove_thread_def list_remove_thread_def Let_def due_def intro: set_remove1_subset [THEN subsetD] split: if_splits)

lemma calm_insert: "rt_schedule_insert_thread t s = Inr s' \<Longrightarrow> calm X Q s' s"
  by (intro calm_fields)
    (auto simp: rt_schedule_insert_thread_def Let_def upd_thread_def upd_queue_def awake_def due_def split: if_splits)

lemma calm_put: "v = RT_THREAD_READY \<or> v = RT_THREAD_RUNNING \<Longrightarrow> calm X Q (upd_thread t (\<lambda>th. th\<lparr>stat := stat_put v (stat th)\<rparr>) s) s"
  by (rule calm_fields) (auto simp: upd_thread_def awake_def due_def)

text \<open>What all the steps of \<^verbatim>\<open>rt_schedule\<close> keep, it keeps.\<close>

lemma schedule_keeps:
  assumes r: "rt_schedule s = Inr s'" and refl: "\<And>x. R x x" and trans: "\<And>x y z. R z y \<Longrightarrow> R y x \<Longrightarrow> R z x"
    and clear: "\<And>t x. R (upd_thread t (\<lambda>th. th\<lparr>stat := stat_clear_yield (stat th)\<rparr>) x) x"
    and run: "\<And>t x. R (upd_thread t (\<lambda>th. th\<lparr>stat := stat_put RT_THREAD_RUNNING (stat th)\<rparr>) x) x"
    and switch: "\<And>p t x. R (x\<lparr>cur_prio := p, cur := t\<rparr>) x"
    and ins: "\<And>t x y. rt_schedule_insert_thread t x = Inr y \<Longrightarrow> R y x"
    and rem: "\<And>t x y. rt_schedule_remove_thread t x = Inr y \<Longrightarrow> R y x"
  shows "R s' s"
proof (cases "lock_nest s = 0 \<and> ready_group s \<noteq> 0")
  case True
  obtain h p where h: "scheduler_get_highest_priority_thread s = Inr (h, p)"
    using r True by (auto simp: rt_schedule_def bind_res_eq_Inr)
  then obtain c where c: "cur s = Some c" using r True by (auto simp: rt_schedule_def split: option.splits)
  obtain t again where ch: "schedule_choice (threads s c) c h p = (t, again)" by fastforce
  define s1 where "s1 = (if tstat s c = RT_THREAD_RUNNING then upd_thread c (\<lambda>th. th\<lparr>stat := stat_clear_yield (stat th)\<rparr>) s else s)"
  have y: "R s1 s" using clear refl by (simp add: s1_def)
  show ?thesis
  proof (cases "t = c")
    case same: True
    then obtain s2 where s2: "rt_schedule_remove_thread c s1 = Inr s2"
      "s' = upd_thread c (\<lambda>th. th\<lparr>stat := stat_put RT_THREAD_RUNNING (stat th)\<rparr>) s2"
      using r True h c ch by (auto simp: rt_schedule_def Let_def s1_def [symmetric] bind_res_eq_Inr)
    show ?thesis unfolding s2(2) by (rule trans [OF run trans [OF rem [OF s2(1)] y]])
  next
    case False
    let ?s1 = "s1\<lparr>cur_prio := p, cur := Some t\<rparr>"
    obtain s2 s3 where s2: "(if again then rt_schedule_insert_thread c ?s1 else Inr ?s1) = Inr s2" "rt_schedule_remove_thread t s2 = Inr s3"
      "s' = upd_thread t (\<lambda>th. th\<lparr>stat := stat_put RT_THREAD_RUNNING (stat th)\<rparr>) s3"
      using r True h c ch False by (auto simp: rt_schedule_def Let_def s1_def [symmetric] bind_res_eq_Inr)
    have "R s2 ?s1" using s2(1) ins [of c ?s1 s2] refl by (cases again) auto
    then have "R s2 s" by (rule trans [OF _ trans [OF switch y]])
    then show ?thesis unfolding s2(3) by (rule trans [OF run trans [OF rem [OF s2(2)]]])
  qed
qed (use r refl in \<open>auto simp: rt_schedule_def\<close>)

lemma calm_schedule: "rt_schedule s = Inr s' \<Longrightarrow> calm X Q s' s"
proof (erule schedule_keeps)
  show "calm X Q (upd_thread t (\<lambda>th. th\<lparr>stat := stat_clear_yield (stat th)\<rparr>) x) x" for t x
    by (rule calm_fields) (auto simp: upd_thread_def due_def)
  show "calm X Q (x\<lparr>cur_prio := p, cur := t\<rparr>) x" for p t x
    by (rule calm_fields) (auto simp: due_def)
qed (auto intro: calm_trans calm_put calm_insert calm_remove)

lemma same_schedule: "rt_schedule s = Inr s' \<Longrightarrow> ipc_same s' s"
proof (erule schedule_keeps)
  show "ipc_same (x\<lparr>cur_prio := p, cur := t\<rparr>) x" for p t x by (simp add: ipc_same_def)
qed (auto intro: ipc_same_trans same_stat same_insert same_remove)

lemma calm_unlink: "calm X Q (list_remove_thread t s) s"
  using set_remove1_subset by (intro calm_fields) (auto simp: list_remove_thread_def due_def intro: set_remove1_subset [THEN subsetD])

lemma calm_error: "calm X Q (upd_thread t (\<lambda>th. th\<lparr>error := e\<rparr>) s) s"
  by (rule calm_fields) (auto simp: upd_thread_def due_def)

lemma calm_resume: "rt_thread_resume t s = Inr (r, s') \<Longrightarrow> calm X Q s' s"
  by (auto simp: rt_thread_resume_def assert_then_eq_Inr bind_res_eq_Inr Let_def split: if_splits
      dest!: calm_timer_stop [where X = X and Q = Q] calm_insert [where X = X and Q = Q] intro: calm_trans calm_unlink)

lemma calm_suspend:
  assumes "rt_thread_suspend t s = Inr (r, s')" "t \<in> X"
  shows "calm X Q s' s"
proof -
  have u: "calm X Q (upd_thread t f x) x" if "\<And>th. error (f th) = error th" for f x
    using assms(2) by (auto simp: calm_def clock_ready_def upd_thread_def awake_def due_def)
  show ?thesis using assms(1)
    by (auto simp: rt_thread_suspend_def assert_then_eq_Inr bind_res_eq_Inr Let_def split: if_splits
      dest!: calm_timer_stop [where X = X and Q = Q] calm_remove [where X = X and Q = Q] intro: calm_trans [OF _ calm_trans [OF u]])
qed

lemma calm_queue: "q \<in> Q \<Longrightarrow> calm X Q (upd_queue q f s) s"
  by (auto simp: calm_def clock_ready_def upd_queue_def awake_def due_def)

lemma calm_list_suspend: "ipc_list_suspend q t flag s = Inr s' \<Longrightarrow> t \<in> X \<Longrightarrow> q \<in> Q \<Longrightarrow> calm X Q s' s"
  by (auto simp: ipc_list_suspend_def bind_res_eq_Inr split: if_splits dest!: calm_suspend [where Q = Q]
      intro: calm_trans [OF calm_queue])

lemma calm_list_resume: "ipc_list_resume q s = Inr s' \<Longrightarrow> calm X Q s' s"
  by (auto simp: ipc_list_resume_def bind_res_eq_Inr split: list.splits dest!: calm_resume)

text \<open>Arming a thread's timer for some ticks from now.\<close>

lemma calm_set_start:
  assumes "rt_timer_control (TThread t) (CTRL_SET_TIME n) s = Inr (r, s1)" "rt_timer_start (TThread t) s1 = Inr (r', s2)" "n \<noteq> 0"
  shows "calm X Q s2 s"
proof -
  let ?s1 = "upd_timer (TThread t) (\<lambda>x. x\<lparr>timer_init_tick := n\<rparr>) s"
  have d: "due ?s1 m = due s m" "timer_list ?s1 = timer_list s" "timer_tmp ?s1 = timer_tmp s" "threads ?s1 = threads s"
      "queues ?s1 = queues s" "timer_init_tick (timers ?s1 (TThread t)) = n" for m by (simp_all add: due_def upd_timer_def)
  have "s1 = ?s1" using assms(1) by (auto simp: rt_timer_control_def assert_then_eq_Inr)
  then have "s2 = started_timer (TThread t) ?s1"
    using assms(2) by (auto simp: assert_then_eq_Inr rt_timer_start_eq rt_timer_start_def started_timer_def Let_def)
  then show ?thesis
    using assms(3) set_remove1_subset [of "TThread t" "timer_list s"]
    by (auto simp: calm_def clock_ready_def started_timer_fields d awake_def)
qed

lemma calm_arm:
  assumes "arm_timeout t timeout s = Inr s'" "timeout < 0x7fffffff"
  shows "calm X Q s' s"
proof (cases "timeout > 0")
  case True
  let ?n = "word_of_int timeout :: u32"
  have "unat ?n = nat timeout" using True assms(2) by (simp add: unat_eq_nat_uint uint_word_of_int)
  then have "?n \<noteq> 0" using True by (metis unat_0 zero_less_nat_eq less_numeral_extra(3))
  then show ?thesis using assms(1) True by (auto simp: arm_timeout_def bind_res_eq_Inr intro: calm_set_start)
qed (use assms in \<open>simp add: arm_timeout_def\<close>)

lemma calm_wake: "ipc_wake q s = Inr s' \<Longrightarrow> calm X Q s' s"
  by (auto simp: ipc_wake_def bind_res_eq_Inr split: if_splits dest!: calm_list_resume [where X = X and Q = Q]
      calm_schedule [where X = X and Q = Q] intro: calm_trans)

lemma calm_block:
  "ipc_block q t timeout flag s = Inr s' \<Longrightarrow> t \<in> X \<Longrightarrow> q \<in> Q \<Longrightarrow> timeout < 0x7fffffff \<Longrightarrow> calm X Q s' s"
  by (auto simp: ipc_block_def bind_res_eq_Inr dest!: calm_list_suspend [where X = X and Q = Q] calm_arm [where X = X and Q = Q]
      calm_schedule [where X = X and Q = Q] intro: calm_trans)


section \<open>The state between calls\<close>

text \<open>A thread runs, no ready thread is more urgent, the idle thread never sleeps, and no timer is
  overdue.\<close>

definition sys_core :: "tid \<Rightarrow> kernel \<Rightarrow> bool" where
  "sys_core idle s \<longleftrightarrow> (\<exists>c. running s c) \<and> runs_highest s \<and> awake s idle \<and> clock_ready s"

lemma sys_coreD:
  assumes "sys_core idle s" "cur s = Some c"
  shows "running s c" "runs_highest s" "awake s idle" "clock_ready s"
  using assms by (auto simp: sys_core_def running_def)

lemma sys_coreI:
  assumes "sys_core idle s" "kinv s'" "runs_highest s'" "calm X Q s' s" "idle \<notin> X" "ipc_same s' s"
  shows "sys_core idle s'"
  using assms by (auto simp: sys_core_def running_def runs_highest_def calm_def ipc_same_def)

lemma core_wake:
  assumes "sys_core idle s" "waits_in q"
  obtains s' where "ipc_wake q s = Inr s'" "sys_core idle s'" "ipc_same s' s" "calm {} {} s' s"
    "queues s' q = tl (queues s q)"
proof -
  obtain c where c: "running s c" "runs_highest s" using assms by (auto simp: sys_core_def)
  obtain s' where s': "ipc_wake q s = Inr s'" "kinv s'" "ipc_same s' s" "queues s' q = tl (queues s q)"
    "\<And>t rest. queues s q = t # rest \<Longrightarrow> tstat s' t \<in> {RT_THREAD_READY, RT_THREAD_RUNNING}
       \<and> TThread t \<notin> set (timer_list s') \<and> runs_highest s'"
    "queues s q = [] \<Longrightarrow> s' = s"
    by (rule wake_ok [OF c(1) assms(2)]) blast
  have "runs_highest s'" using s'(5,6) c(2) by (cases "queues s q") auto
  then have "sys_core idle s'"
    using sys_coreI [OF assms(1) s'(2) _ calm_wake [OF s'(1), of "{}" "{}"] _ s'(3)] by simp
  then show thesis using s' calm_wake [OF s'(1), of "{}" "{}"] by (intro that [of s'])
qed

text \<open>Somebody is ready when a thread other than the idle thread runs.\<close>

lemma core_others_ready:
  assumes "sys_core idle s" "cur s = Some c" "c \<noteq> idle"
  shows "ready_group s \<noteq> 0"
proof -
  note d = sys_coreD [OF assms(1,2)]
  have "tstat s idle \<noteq> RT_THREAD_RUNNING"
    using runningD(1) [OF d(1)] assms(2,3) by (auto simp: loose_kinv_def loose_inv_def)
  then have "tstat s idle = RT_THREAD_READY" using d(3) by (simp add: awake_def)
  moreover have b: "bitmap_ok s" "tprio s idle < 32"
    "idle \<in> set (queues s (QReady (tprio s idle)))"
    using runningD(1) [OF d(1)] calculation by (auto simp: loose_kinv_def loose_inv_def started_def)
  ultimately show ?thesis unfolding word_nonzero_bit by (metis bitmap_ok_def empty_iff empty_set)
qed

lemma core_block:
  assumes "sys_core idle s" "cur s = Some c" "c \<noteq> idle" "waits_in q"
    "flag \<in> {RT_IPC_FLAG_FIFO, RT_IPC_FLAG_PRIO}" "timeout < 0x7fffffff"
  obtains s' where "ipc_block q c timeout flag (reset_error c s) = Inr s'" "sys_core idle s'" "ipc_same s' s"
    "calm {c} {q} s' s" "tstat s' c = RT_THREAD_SUSPEND"
proof -
  note d = sys_coreD [OF assms(1,2)]
  have fl: "flag = RT_IPC_FLAG_FIFO \<or> flag = RT_IPC_FLAG_PRIO" using assms(5) by simp
  obtain s' where s': "ipc_block q c timeout flag (reset_error c s) = Inr s'" "kinv s'"
    "ipc_same s' s" "tstat s' c = RT_THREAD_SUSPEND" "ready_group s \<noteq> 0 \<Longrightarrow> runs_highest s'"
    by (rule ipc_block_ok [OF d(1) assms(4) fl assms(6)]) blast
  have "calm {c} {q} s' (reset_error c s)" by (rule calm_block [OF s'(1)]) (use assms in simp_all)
  then have cm: "calm {c} {q} s' s" by (rule calm_trans) (simp add: reset_error_def calm_error)
  have "sys_core idle s'"
    by (rule sys_coreI [OF assms(1) s'(2) s'(5) [OF core_others_ready [OF assms(1-3)]] cm _ s'(3)]) (use assms(3) in simp)
  then show thesis using s' cm by (intro that [of s'])
qed


text \<open>The objects in use are valid, and the rules between objects and waiters hold.  The map gives the
  objects in use, with the size of the messages of a message queue.\<close>

type_synonym in_use = "oid \<Rightarrow> nat option"

definition obj_ok :: "kernel \<Rightarrow> oid \<Rightarrow> nat \<Rightarrow> bool" where
  "obj_ok s i sz \<longleftrightarrow> (case i of OSem n \<Rightarrow> sem_valid n s | OEvent n \<Rightarrow> event_valid n s
     | OMailBox n \<Rightarrow> mb_valid n s | OMsgQueue n \<Rightarrow> mq_valid n s \<and> msg_size (mqs s n) = sz | _ \<Rightarrow> True)"

definition sys_data :: "in_use \<Rightarrow> kernel \<Rightarrow> bool" where
  "sys_data L s \<longleftrightarrow> sem_inv s \<and> event_inv s \<and> (\<forall>i sz. L i = Some sz \<longrightarrow> obj_ok s i sz)"

definition sys_inv :: "in_use \<Rightarrow> tid \<Rightarrow> kernel \<Rightarrow> bool" where
  "sys_inv L idle s \<longleftrightarrow> sys_core idle s \<and> sys_data L s"

lemma obj_ok_same: "ipc_same s' s \<Longrightarrow> obj_ok s' i sz = obj_ok s i sz"
  by (cases i) (simp_all add: obj_ok_def mb_valid_same mq_valid_same sem_valid_def event_valid_def ipc_same_get_type, simp_all add: ipc_same_def)

lemma sem_inv_keep:
  assumes "sem_inv s" "sems s' = sems s" "calm X Q s' s" "\<And>n. QSuspend (OSem n) \<in> Q \<Longrightarrow> sems s n = 0"
  shows "sem_inv s'"
  unfolding sem_inv_def
proof (intro allI impI)
  fix n assume n: "sems s' n \<noteq> 0"
  then have "QSuspend (OSem n) \<notin> Q" "queues s (QSuspend (OSem n)) = []"
    using assms by (auto simp: sem_inv_def)
  then show "queues s' (QSuspend (OSem n)) = []"
    using assms(3) unfolding calm_def by (metis subset_empty set_empty waits_in_simps(1))
qed

lemma event_inv_keep:
  assumes "event_inv s" "ipc_same s' s" "calm X Q s' s" "\<And>n. QSuspend (OEvent n) \<notin> Q"
  shows "event_inv s'"
  unfolding event_inv_def
proof (intro allI ballI)
  fix n t assume "t \<in> set (queues s' (QSuspend (OEvent n)))"
  then have "t \<in> set (queues s (QSuspend (OEvent n)))" using assms(3,4) unfolding calm_def by (meson subsetD waits_in_simps(1))
  then have r: "request_ok (threads s t) \<and> \<not> met (threads s t) (events s n)" using assms(1) by (simp add: event_inv_def)
  have "event_set (threads s' t) = event_set (threads s t)" "event_info (threads s' t) = event_info (threads s t)" "events s' = events s"
    using assms(2) by (simp_all add: ipc_same_def thread_same_def)
  then show "request_ok (threads s' t) \<and> \<not> met (threads s' t) (events s' n)"
    using r by (auto simp: request_ok_def met_def split: if_splits)
qed

lemma data_keep:
  assumes "sys_data L s" "ipc_same s' s" "calm X Q s' s"
    "\<And>n. QSuspend (OEvent n) \<notin> Q" "\<And>n. QSuspend (OSem n) \<in> Q \<Longrightarrow> sems s n = 0"
  shows "sys_data L s'"
  using assms sem_inv_keep [OF _ _ assms(3,5)] event_inv_keep [OF _ assms(2,3,4)] obj_ok_same [OF assms(2)]
  by (simp add: sys_data_def) (simp add: ipc_same_def)

lemma sys_keep:
  assumes "sys_inv L idle s" "sys_core idle s'" "ipc_same s' s" "calm X Q s' s"
    "\<And>n. QSuspend (OEvent n) \<notin> Q" "\<And>n. QSuspend (OSem n) \<in> Q \<Longrightarrow> sems s n = 0"
  shows "sys_inv L idle s'"
  using assms data_keep [OF _ assms(3-6)] by (simp add: sys_inv_def)

lemma sys_wake:
  assumes "sys_inv L idle s" "waits_in q"
  shows "\<exists>s'. ipc_wake q s = Inr s' \<and> sys_inv L idle s' \<and> ipc_same s' s \<and> queues s' q = tl (queues s q)"
proof -
  have c: "sys_core idle s" using assms(1) by (simp add: sys_inv_def)
  obtain s' where s': "ipc_wake q s = Inr s'" "sys_core idle s'" "ipc_same s' s" "calm {} {} s' s"
    "queues s' q = tl (queues s q)"
    by (rule core_wake [OF c assms(2)]) blast
  have "sys_inv L idle s'" by (rule sys_keep [OF assms(1) s'(2,3,4)]) simp_all
  then show ?thesis using s' by blast
qed

lemma sys_block:
  assumes "sys_inv L idle s" "cur s = Some c" "c \<noteq> idle" "waits_in q"
    "flag \<in> {RT_IPC_FLAG_FIFO, RT_IPC_FLAG_PRIO}" "timeout < 0x7fffffff"
    "\<And>n. q \<noteq> QSuspend (OEvent n)" "\<And>n. q = QSuspend (OSem n) \<Longrightarrow> sems s n = 0"
  shows "\<exists>s'. ipc_block q c timeout flag (reset_error c s) = Inr s' \<and> sys_inv L idle s'"
proof -
  have c: "sys_core idle s" using assms(1) by (simp add: sys_inv_def)
  obtain s' where s': "ipc_block q c timeout flag (reset_error c s) = Inr s'" "sys_core idle s'" "ipc_same s' s"
    "calm {c} {q} s' s"
    by (rule core_block [OF c assms(2-6)]) blast
  have "sys_inv L idle s'" by (rule sys_keep [OF assms(1) s'(2,3,4)]) (use assms(7,8) in auto)
  then show ?thesis using s' by blast
qed

text \<open>Changes the scheduler does not see.\<close>

lemma sys_core_cong:
  assumes "loose_kinv {} s' = loose_kinv {} s" "\<And>t. tstat s' t = tstat s t" "\<And>t. tprio s' t = tprio s t" "cur s' = cur s"
    "lock_nest s' = lock_nest s" "irq_nest s' = irq_nest s" "timer_tmp s' = timer_tmp s" "timer_list s' = timer_list s" "\<And>m. due s' m = due s m"
  shows "sys_core idle s' = sys_core idle s"
  using assms by (simp add: sys_core_def running_def kinv_def runs_highest_def awake_def clock_ready_def)

lemma core_fields:
  "sys_core idle (s\<lparr>sems := a\<rparr>) = sys_core idle s" "sys_core idle (s\<lparr>events := b\<rparr>) = sys_core idle s"
  "sys_core idle (upd_mbox n f s) = sys_core idle s" "sys_core idle (upd_mq n g s) = sys_core idle s"
  by (rule sys_core_cong; simp add: kinv_other_fields upd_mbox_def upd_mq_def due_def)+

lemma core_upd_thread:
  assumes "sys_core idle s" "\<And>x. stat_get (stat (f x)) = stat_get (stat x)" "\<And>x. current_priority (f x) = current_priority x"
    "\<And>x. number_mask (f x) = number_mask x"
  shows "sys_core idle (upd_thread t f s)"
proof -
  have k: "loose_kinv {} s" using assms(1) by (auto simp: sys_core_def running_def kinv_def)
  have "loose_kinv {} (upd_thread t f s)" using k by (rule K_upd_other) (simp_all add: assms)
  then show ?thesis using assms(1) k
    by (subst sys_core_cong [of _ s]) (simp_all add: upd_thread_def assms due_def)
qed

lemma sys_error:
  assumes "sys_inv L idle s"
  shows "sys_inv L idle (upd_thread t (\<lambda>th. th\<lparr>error := e\<rparr>) s)" "sys_inv L idle (reset_error t s)"
proof -
  have e: "sys_inv L idle (upd_thread t (\<lambda>th. th\<lparr>error := v\<rparr>) s)" for v
    by (rule sys_keep [OF assms _ same_stat(2) calm_error [of "{}" "{}"]])
      (use assms in \<open>auto simp: sys_inv_def intro: core_upd_thread\<close>)
  show "sys_inv L idle (upd_thread t (\<lambda>th. th\<lparr>error := e\<rparr>) s)" "sys_inv L idle (reset_error t s)"
    unfolding reset_error_def by (rule e)+
qed

lemma sys_upd_mbox:
  assumes "sys_inv L idle s" "mb_inv mb"
  shows "sys_inv L idle (upd_mbox n (\<lambda>_. mb) s)"
proof -
  have "obj_ok (upd_mbox n (\<lambda>_. mb) s) i sz" if "obj_ok s i sz" for i sz
    using that assms(2) by (cases i) (auto simp: obj_ok_def mb_valid_def mq_valid_def sem_valid_def event_valid_def rt_object_get_type_def upd_mbox_def)
  then show ?thesis using assms(1) by (simp add: sys_inv_def sys_data_def core_fields sem_inv_def event_inv_def) (simp add: upd_mbox_def)
qed

lemma sys_upd_mq:
  assumes "sys_inv L idle s" "mq_inv [] mq" "msg_size mq = msg_size (mqs s n)"
  shows "sys_inv L idle (upd_mq n (\<lambda>_. mq) s)"
proof -
  have "obj_ok (upd_mq n (\<lambda>_. mq) s) i sz" if "obj_ok s i sz" for i sz
    using that assms(2,3) by (cases i) (auto simp: obj_ok_def mb_valid_def mq_valid_def sem_valid_def event_valid_def rt_object_get_type_def upd_mq_def)
  then show ?thesis using assms(1) by (simp add: sys_inv_def sys_data_def core_fields sem_inv_def event_inv_def) (simp add: upd_mq_def)
qed


section \<open>The scheduler and the clock\<close>

lemma sys_schedule:
  assumes "sys_inv L idle s"
  shows "\<exists>s'. rt_schedule s = Inr s' \<and> sys_inv L idle s'"
proof -
  have core: "sys_core idle s" using assms by (simp add: sys_inv_def)
  then obtain c where c: "running s c" by (auto simp: sys_core_def)
  note d = runningD [OF c]
  obtain s' where s': "rt_schedule s = Inr s'" "kinv s'" "lock_nest s = 0 \<Longrightarrow>
      tstat s c = RT_THREAD_RUNNING \<or> ready_group s \<noteq> 0 \<Longrightarrow> runs_highest s'"
    by (rule schedule_ok [OF d(1,2)]) (use d in auto)
  have rh: "runs_highest s'" using s'(3) d by blast
  note k = calm_schedule [OF s'(1), of "{}" "{}"] same_schedule [OF s'(1)]
  have "sys_core idle s'" by (rule sys_coreI [OF core s'(2) rh k(1) _ k(2)]) simp
  then have "sys_inv L idle s'" by (rule sys_keep [OF assms _ k(2,1)]) simp_all
  then show ?thesis using s'(1) by blast
qed

text \<open>Changes of a thread's fields that no rule speaks of.\<close>

lemma data_cong:
  assumes "sems s' = sems s" "events s' = events s" "mboxes s' = mboxes s" "mqs s' = mqs s" "objs s' = objs s" "queues s' = queues s"
    "\<And>t. event_set (threads s' t) = event_set (threads s t)" "\<And>t. event_info (threads s' t) = event_info (threads s t)"
  shows "sys_data L s' = sys_data L s"
proof -
  have "obj_ok s' i sz = obj_ok s i sz" for i sz
    by (cases i) (simp_all add: obj_ok_def mb_valid_def mq_valid_def sem_valid_def event_valid_def rt_object_get_type_def assms)
  moreover have "request_ok (threads s' t) = request_ok (threads s t)" "met (threads s' t) v = met (threads s t) v" for t v
    by (simp_all add: request_ok_def met_def assms)
  ultimately show ?thesis by (simp add: sys_data_def sem_inv_def event_inv_def assms)
qed

lemma sys_upd_thread:
  assumes "sys_inv L idle s" "\<And>x. stat_get (stat (f x)) = stat_get (stat x)" "\<And>x. current_priority (f x) = current_priority x"
    "\<And>x. number_mask (f x) = number_mask x" "\<And>x. event_set (f x) = event_set x" "\<And>x. event_info (f x) = event_info x"
  shows "sys_inv L idle (upd_thread t f s)"
proof -
  have "sys_core idle (upd_thread t f s)" by (rule core_upd_thread) (use assms in \<open>simp_all add: sys_inv_def\<close>)
  moreover have "sys_data L (upd_thread t f s) = sys_data L s"
    by (rule data_cong) (simp_all add: upd_thread_def assms(5,6))
  ultimately show ?thesis using assms(1) by (simp add: sys_inv_def)
qed

lemma sys_yield:
  assumes "sys_inv L idle s"
  shows "\<exists>s'. rt_thread_yield s = Inr (RT_EOK, s') \<and> sys_inv L idle s'"
proof -
  obtain c where c: "cur s = Some c" using assms by (auto simp: sys_inv_def sys_core_def running_def)
  have "sys_inv L idle (upd_thread c (\<lambda>th. th\<lparr>remaining_tick := init_tick th, stat := stat th OR RT_THREAD_STAT_YIELD\<rparr>) s)"
    by (rule sys_upd_thread [OF assms]) simp_all
  from sys_schedule [OF this] show ?thesis using c by (auto simp: rt_thread_yield_def rt_thread_self_def)
qed

text \<open>Sleeping.\<close>

lemma sleep_steps:
  assumes "rt_thread_sleep n s = Inr (Blocked, s')" "cur s = Some c" "n \<noteq> 0"
  shows "calm {c} {} s' s" "ipc_same s' s"
proof -
  have su: "calm {c} {} s2 s1 \<and> ipc_same s2 s1" if "suspend_for c n s1 = Inr s2" for s1 s2
  proof -
    obtain x1 x2 x3 r1 r2 r3 where x: "rt_thread_suspend c s1 = Inr (r1, x1)"
      "rt_timer_control (TThread c) (CTRL_SET_TIME n) x1 = Inr (r2, x2)" "rt_timer_start (TThread c) x2 = Inr (r3, s2)"
      using \<open>suspend_for c n s1 = Inr s2\<close> by (auto simp: suspend_for_def bind_res_eq_Inr)
    have "calm {c} {} s2 x1" by (rule calm_set_start [OF x(2,3) assms(3)])
    moreover have "calm {c} {} x1 s1" by (rule calm_suspend [OF x(1)]) simp
    ultimately have "calm {c} {} s2 s1" by (rule calm_trans)
    moreover have "ipc_same s2 s1"
      by (rule ipc_same_trans [OF same_timer_start [OF x(3)] ipc_same_trans [OF same_timer_set [OF x(2)] same_suspend [OF x(1)]]])
    ultimately show ?thesis by blast
  qed
  obtain s1 where s1: "suspend_for c n (upd_thread c (\<lambda>th. th\<lparr>error := RT_EOK\<rparr>) s) = Inr s1" "rt_schedule s1 = Inr s'"
    using assms by (auto simp: rt_thread_sleep_def rt_thread_self_def assert_then_eq_Inr bind_res_eq_Inr split: if_splits)
  show "calm {c} {} s' s"
    by (rule calm_trans [OF calm_schedule [OF s1(2)] calm_trans [OF conjunct1 [OF su [OF s1(1)]] calm_error]])
  show "ipc_same s' s"
    by (rule ipc_same_trans [OF same_schedule [OF s1(2)] ipc_same_trans [OF conjunct2 [OF su [OF s1(1)]] same_stat(2)]])
qed

lemma sys_sleep:
  assumes "sys_inv L idle s" "cur s = Some c" "c \<noteq> idle" "n \<noteq> 0" "n < RT_TICK_HALF"
  shows "\<exists>s'. rt_thread_sleep n s = Inr (Blocked, s') \<and> sys_inv L idle s'"
proof -
  have core: "sys_core idle s" using assms(1) by (simp add: sys_inv_def)
  have c: "running s c" using core assms(2) by (auto simp: sys_core_def running_def)
  note d = runningD [OF c]
  obtain s' where s': "rt_thread_sleep n s = Inr (Blocked, s')" "kinv s'" "runs_highest s'"
    by (rule rt_thread_sleep_ok [OF d(1-5) core_others_ready [OF core assms(2,3)] assms(4,5)]) blast
  note k = sleep_steps [OF s'(1) assms(2,4)]
  have "sys_core idle s'" by (rule sys_coreI [OF core s'(2,3) k(1) _ k(2)]) (use assms(3) in simp)
  then have "sys_inv L idle s'" by (rule sys_keep [OF assms(1) _ k(2,1)]) simp_all
  then show ?thesis using s'(1) by blast
qed

section \<open>The tick\<close>

text \<open>What a run of timer callbacks keeps, beside the contract of theory Thread.\<close>

definition tick_keeps :: "kernel \<Rightarrow> kernel \<Rightarrow> bool" where
  "tick_keeps s0 s \<longleftrightarrow> lock_nest s0 = 0 \<and> runs_highest s \<and> ipc_same s s0 \<and> (\<forall>u. awake s0 u \<longrightarrow> awake s u)
     \<and> (\<forall>q. waits_in q \<longrightarrow> set (queues s q) \<subseteq> set (queues s0 q))"

lemma tick_keeps_step:
  assumes "tick_keeps s0 s" "calm {} {} s' s" "ipc_same s' s" "runs_highest s'"
  shows "tick_keeps s0 s'"
  using assms ipc_same_trans [OF assms(3)] unfolding tick_keeps_def calm_def by blast

lemma tick_keeps_frame:
  assumes "tick_keeps s0 s" "threads s' = threads s" "queues s' = queues s" "cur s' = cur s" "ipc_same s' s"
  shows "tick_keeps s0 s'"
  using assms ipc_same_trans [OF assms(5)] by (simp add: tick_keeps_def runs_highest_def awake_def)

lemma timeout_steps:
  assumes "thread_timeout t s = Inr s'"
  shows "calm X Q s' s" "ipc_same s' s"
proof -
  let ?s1 = "upd_thread t (\<lambda>th. th\<lparr>error := - RT_ETIMEOUT\<rparr>) s"
  obtain s2 where s2: "rt_schedule_insert_thread t (list_remove_thread t ?s1) = Inr s2" "rt_schedule s2 = Inr s'"
    using assms by (auto simp: thread_timeout_def assert_then_eq_Inr bind_res_eq_Inr Let_def)
  show "calm X Q s' s"
    by (rule calm_trans [OF calm_schedule [OF s2(2)] calm_trans [OF calm_insert [OF s2(1)] calm_trans [OF calm_unlink calm_error]]])
  show "ipc_same s' s"
    by (rule ipc_same_trans [OF same_schedule [OF s2(2)] ipc_same_trans [OF same_insert [OF s2(1)]
          ipc_same_trans [OF same_unlink(1) same_stat(2)]]])
qed

lemma same_fire: "ipc_same (fire m s) s" "threads (fire m s) = threads s" "queues (fire m s) = queues s" "cur (fire m s) = cur s"
  by (simp_all add: fire_def Let_def timer_remove_def deactivate_def set_timer_flag_def upd_obj_def ipc_same_def)

lemma same_finish: "ipc_same (finish m s) s" "threads (finish m s) = threads s" "queues (finish m s) = queues s" "cur (finish m s) = cur s"
  by (simp_all add: finish_def Let_def timer_remove_def deactivate_def set_timer_flag_def upd_obj_def started_timer_def
      upd_timer_def ipc_same_def)

interpretation sys_timers: timer_callbacks "timeout_call usr" "\<lambda>s. check_inv s0 s \<and> tick_keeps s0 s" for usr s0
proof
  fix s m rest
  assume I: "check_inv s0 s \<and> tick_keeps s0 s" and idle: "timers_idle s" and l: "timer_list s = m # rest" and due: "due s m = 0"
  from I obtain s' where s': "timeout_call usr (timeout_func (timers s m)) (fire m s) = Inr s'" "timer_view s' (fire m s)"
    "check_inv s0 (finish m s')"
    using thread_timers.callback [OF _ idle l due, of s0 usr] by blast
  obtain t where m: "m = TThread t" using I l by (auto simp: check_inv_def)
  have k: "loose_kinv {} s" using I by (simp add: check_inv_def kinv_def)
  have ts: "tstat s t = RT_THREAD_SUSPEND" using k l m by (simp add: loose_kinv_def)
  then have ty: "thread_typed s t" using k by (simp add: loose_kinv_def started_def)
  then have call: "thread_timeout t (fire m s) = Inr s'" using s'(1) m by (simp add: timeout_call_def thread_typed_def)
  obtain c where c: "cur s = Some c" "tstat s c = RT_THREAD_RUNNING" using I by (auto simp: tick_keeps_def runs_highest_def)
  have k1: "loose_kinv {} (fire m s)"
  proof -
    have "\<not> timer_periodic (timer_remove m s) m" using ty m by (simp add: thread_typed_def timer_periodic_def)
    then have "fire m s = (deactivate m (timer_remove m s))\<lparr>timer_tmp := [m]\<rparr>"
      using idle by (simp add: fire_def timers_idle_def Let_def)
    then show ?thesis using K_timer_stop [OF k, of m] by (simp only: loose_kinv_tmp)
  qed
  have d: "m \<notin> set (timer_list (fire m s))"
    using idle l by (simp add: fire_fields(1) timers_idle_def timers_inv_def timer_ok_def)
  have l0: "lock_nest (fire m s) = 0" using I same_fire(1) [of m s] by (simp add: tick_keeps_def ipc_same_def)
  obtain s2 where s2: "thread_timeout t (fire m s) = Inr s2" "lock_nest (fire m s) = 0 \<Longrightarrow>
      tstat (fire m s) c = RT_THREAD_RUNNING \<Longrightarrow> runs_highest s2"
    by (rule timeout_ok [OF k1, of t c]) (use ts c d m same_fire in auto)
  then have "runs_highest s'" using call c l0 same_fire by simp
  note st = timeout_steps(1) [OF call, of "{}" "{}"] timeout_steps(2) [OF call]
  have "tick_keeps s0 (fire m s)" by (rule tick_keeps_frame [OF conjunct2 [OF I] same_fire(2-4,1)])
  then have "tick_keeps s0 s'" by (rule tick_keeps_step [OF _ st \<open>runs_highest s'\<close>])
  then have "tick_keeps s0 (finish m s')" by (rule tick_keeps_frame [OF _ same_finish(2-4,1)])
  then show "\<exists>s'. timeout_call usr (timeout_func (timers s m)) (fire m s) = Inr s'
      \<and> timer_view s' (fire m s) \<and> check_inv s0 (finish m s') \<and> tick_keeps s0 (finish m s')"
    using s' by blast
qed

lemma calm_view:
  assumes "tick_keeps s s'" "clock_ready s'"
  shows "calm {} {} s' s"
  using assms by (simp add: calm_def tick_keeps_def)

text \<open>Charging the running thread's time slice.\<close>

definition charge :: "tid \<Rightarrow> kernel \<Rightarrow> kernel" where
  "charge c s = upd_thread c (\<lambda>th. th\<lparr>remaining_tick := remaining_tick th - 1\<rparr>) (s\<lparr>tick := tick s + 1\<rparr>)"

definition slice_over :: "tid \<Rightarrow> kernel \<Rightarrow> kernel" where
  "slice_over c s = upd_thread c (\<lambda>th. th\<lparr>remaining_tick := init_tick th, stat := stat th OR RT_THREAD_STAT_YIELD\<rparr>) s"

lemma tick_split:
  assumes "cur s = Some c"
  shows "rt_tick_increase call fuel s = bind_res
    (if remaining_tick (threads (charge c s) c) = 0 then rt_schedule (slice_over c (charge c s)) else Inr (charge c s))
    (rt_timer_check call fuel)"
  using assms by (simp add: rt_tick_increase_def charge_def slice_over_def Let_def)

text \<open>The kernel's part of the invariant, whatever the depth of interrupts.\<close>

definition core_any :: "tid \<Rightarrow> kernel \<Rightarrow> bool" where
  "core_any idle s \<longleftrightarrow> kinv s \<and> lock_nest s = 0 \<and> runs_highest s \<and> awake s idle \<and> clock_ready s"

lemma sys_core_any: "sys_core idle s \<longleftrightarrow> core_any idle s \<and> irq_nest s = 0"
  by (auto simp: sys_core_def core_any_def running_def runs_highest_def)

lemma charged:
  assumes "core_any idle s" "sys_data L s" "cur s = Some c" "x = charge c s \<or> x = slice_over c (charge c s)"
  shows "loose_kinv {} x" "sys_data L x" "runs_highest x" "timers_idle x" "timer_list x = timer_list s" "cur x = Some c"
    "tstat x c = RT_THREAD_RUNNING" "lock_nest x = 0" "irq_nest x = irq_nest s" "\<And>t. tstat x t = tstat s t"
    "\<And>m. due x m = due s m - 1" "timer_tmp x = []"
proof -
  note c = assms(1) [unfolded core_any_def]
  have d: "loose_kinv {} s" "cur s = Some c" "tstat s c = RT_THREAD_RUNNING" "lock_nest s = 0"
    using c assms(3) by (auto simp: kinv_def runs_highest_def)
  let ?t = "s\<lparr>tick := tick s + 1\<rparr>"
  have id: "timers_idle s" "\<forall>m \<in> set (timer_list s). due s m \<noteq> 0"
    using d(1) c by (simp_all add: loose_kinv_def clock_ready_def timers_idle_def)
  note it = timers_idle_tick [OF id]
  have k0: "loose_kinv {} ?t" using d(1) it(1) kinv_fields_cong [of ?t s "{}"] by (simp add: loose_kinv_def timers_idle_def)
  have k1: "loose_kinv {} (charge c s)" unfolding charge_def using k0 by (rule K_upd_other) simp_all
  have k2: "loose_kinv {} (slice_over c (charge c s))" unfolding slice_over_def using k1 by (rule K_upd_other) simp_all
  show "loose_kinv {} x" using assms(4) k1 k2 by blast
  have f: "timer_list x = timer_list s" "timers x = timers s" "timer_tmp x = timer_tmp s" "tick x = tick s + 1" "objs x = objs s"
    "cur x = cur s" "lock_nest x = lock_nest s" "irq_nest x = irq_nest s" "tstat x t = tstat s t" "tprio x t = tprio s t"
    "sems x = sems s" "events x = events s" "mboxes x = mboxes s" "mqs x = mqs s" "queues x = queues s"
    "event_set (threads x t) = event_set (threads s t)" "event_info (threads x t) = event_info (threads s t)" for t
    using assms(4) by (auto simp: charge_def slice_over_def upd_thread_def)
  show "sys_data L x" using assms(2) data_cong [of x s L] by (simp add: f)
  show "runs_highest x" using c by (simp add: runs_highest_def f)
  show "timers_idle x" using it(1) timers_inv_cong [of x ?t] by (simp add: timers_idle_def f)
  show "due x m = due s m - 1" for m using it(2) [of m] by (simp add: due_def f)
  show "timer_list x = timer_list s" "cur x = Some c" "tstat x c = RT_THREAD_RUNNING" "lock_nest x = 0"
    "irq_nest x = irq_nest s" "\<And>t. tstat x t = tstat s t" "timer_tmp x = []"
    using d c by (simp_all add: f clock_ready_def)
qed

lemma sys_tick:
  assumes "core_any idle s" "sys_data L s"
  shows "\<exists>s'. rt_tick_increase (timeout_call usr) (Suc (length (timer_list s))) s = Inr s' \<and> core_any idle s' \<and> sys_data L s'
    \<and> irq_nest s' = irq_nest s"
proof -
  note c0 = assms(1) [unfolded core_any_def]
  then obtain c where c: "cur s = Some c" by (auto simp: runs_highest_def)
  let ?x = "if remaining_tick (threads (charge c s) c) = 0 then slice_over c (charge c s) else charge c s"
  have "?x = charge c s \<or> ?x = slice_over c (charge c s)" by simp
  note x = charged [OF assms c this]
  have kx: "kinv ?x" using x(1,6,7) by (simp add: kinv_def)
  have tx: "tick_keeps ?x ?x" using x(3,8) by (simp add: tick_keeps_def)
  have ex: "\<exists>s1. (if remaining_tick (threads (charge c s) c) = 0 then rt_schedule (slice_over c (charge c s)) else Inr (charge c s)) = Inr s1
      \<and> kinv s1 \<and> tick_keeps ?x s1 \<and> timer_list s1 = timer_list ?x \<and> timer_tmp s1 = [] \<and> (\<forall>m. due s1 m = due ?x m)"
  proof (cases "remaining_tick (threads (charge c s) c) = 0")
    case True
    obtain s1 where s1: "rt_schedule ?x = Inr s1" "kinv s1" "sched_frame ?x s1" "lock_nest ?x = 0 \<Longrightarrow>
        tstat ?x c = RT_THREAD_RUNNING \<or> ready_group ?x \<noteq> 0 \<Longrightarrow> runs_highest s1"
      by (rule schedule_ok [OF x(1,6)]) (use x(7) in auto)
    have "runs_highest s1" using s1(4) x(7,8) by blast
    then have "tick_keeps ?x s1" by (rule tick_keeps_step [OF tx calm_schedule [OF s1(1)] same_schedule [OF s1(1)]])
    moreover have "timer_list s1 = timer_list ?x" "timer_tmp s1 = []" "due s1 m = due ?x m" for m
      using sched_frame_fields [OF s1(3)] x(12) by (simp_all add: due_def)
    ultimately show ?thesis using True s1(1,2) by simp
  qed (use kx tx x(12) in simp)
  then obtain s1 where s1: "(if remaining_tick (threads (charge c s) c) = 0 then rt_schedule (slice_over c (charge c s)) else Inr (charge c s)) = Inr s1"
    "kinv s1" "tick_keeps ?x s1" "timer_list s1 = timer_list ?x" "timer_tmp s1 = []" "\<forall>m. due s1 m = due ?x m" by blast
  have th: "set (timer_list s1) \<subseteq> range TThread" using s1(4) x(5) c0 by (simp add: clock_ready_def)
  have id1: "timers_idle s1" using s1(2,5) by (simp add: kinv_def loose_kinv_def timers_idle_def)
  have same1: "ipc_same s1 ?x" "runs_highest s1" using s1(3) by (simp_all add: tick_keeps_def)
  have "lock_nest s1 = 0" using same1(1) x(8) by (simp add: ipc_same_def)
  then have "check_inv s1 s1 \<and> tick_keeps s1 s1"
    using s1(2) th same1(2) by (auto simp: check_inv_def tick_keeps_def runs_highest_def)
  from sys_timers.check [OF this id1, of "Suc (length (timer_list s))" usr] obtain s' where
    s': "rt_timer_check (timeout_call usr) (Suc (length (timer_list s))) s1 = Inr s'" "sys_timers.after_check s1 s1 s'"
    using s1(4) x(5) by auto
  have a: "check_inv s1 s'" "tick_keeps s1 s'" "timers_idle s'"
    "set (timer_list s') = {m \<in> set (timer_list s1). due s1 m \<noteq> 0 \<or> timer_periodic s1 m}"
    "\<forall>m \<in> set (timer_list s'). due s' m = (if due s1 m = 0 then timer_init_tick (timers s1 m) else due s1 m)"
    using s'(2) by (simp_all add: sys_timers.after_check_def)
  have per: "\<not> timer_periodic s1 m" if mem: "m \<in> set (timer_list s1)" for m
  proof -
    obtain t where m: "m = TThread t" using mem th by auto
    then have "tstat s1 t = RT_THREAD_SUSPEND" using s1(2) mem by (simp add: kinv_def loose_kinv_def)
    then show ?thesis using s1(2) m by (simp add: kinv_def loose_kinv_def started_def thread_typed_def)
  qed
  have "\<forall>m \<in> set (timer_list s'). due s' m \<noteq> 0" using a(4,5) per by auto
  then have cr: "clock_ready s'" using a(1,3) by (simp add: clock_ready_def timers_idle_def check_inv_def)
  have ki: "kinv s'" using a(1) by (simp add: check_inv_def)
  have tk: "tick_keeps ?x s'"
    using s1(3) a(2) ipc_same_trans unfolding tick_keeps_def by (meson order_trans)
  have cm: "calm {} {} s' ?x" by (rule calm_view [OF tk cr])
  have sm: "ipc_same s' ?x" "runs_highest s'" using tk by (simp_all add: tick_keeps_def)
  have "awake ?x idle" using c0 by (simp only: awake_def x(10))
  then have aw: "awake s' idle" using tk by (simp add: tick_keeps_def)
  have irq: "irq_nest s' = irq_nest s" "lock_nest s' = 0" using sm(1) x(8,9) by (simp_all add: ipc_same_def)
  then have "core_any idle s'" using ki sm(2) aw cr by (simp add: core_any_def)
  moreover have "sys_data L s'" by (rule data_keep [OF x(2) sm(1) cm]) simp_all
  ultimately show ?thesis using irq s1(1) s'(1) by (auto simp: tick_split [OF c])
qed

end
