(* ===== verification/SysOps.thy ===== *)
theory SysOps
  imports SysInv
begin

text \<open>
  Every call a thread can make of the modelled services returns or switches away, and keeps the joint
  invariant of theory SysInv.
\<close>

section \<open>Semaphores\<close>

lemma sys_running:
  assumes "sys_inv L idle s" "cur s = Some c"
  shows "running s c" "RT_DEBUG_SCHEDULER_AVAILABLE b s" "rt_thread_self s = Some c"
proof -
  show r: "running s c" using assms by (auto simp: sys_inv_def sys_core_def running_def)
  show "RT_DEBUG_SCHEDULER_AVAILABLE b s" "rt_thread_self s = Some c"
    using runningD(5,6,7) [OF r] by (auto simp: RT_DEBUG_SCHEDULER_AVAILABLE_def RT_DEBUG_IN_THREAD_CONTEXT_def RT_DEBUG_NOT_IN_INTERRUPT_def)
qed

lemma sys_valid: "sys_inv L idle s \<Longrightarrow> i \<in> dom L \<Longrightarrow> \<exists>sz. L i = Some sz \<and> obj_ok s i sz"
  by (auto simp: sys_inv_def sys_data_def)

lemma sys_upd_sem:
  assumes "sys_inv L idle s" "v = 0 \<or> queues s (QSuspend (OSem n)) = []"
  shows "sys_inv L idle (s\<lparr>sems := (sems s)(n := v)\<rparr>)"
proof -
  have "obj_ok (s\<lparr>sems := a\<rparr>) i sz = obj_ok s i sz" for a i sz
    by (cases i) (simp_all add: obj_ok_def mb_valid_def mq_valid_def sem_valid_def event_valid_def rt_object_get_type_def)
  then show ?thesis using assms
    by (auto simp: sys_inv_def sys_data_def core_fields sem_inv_def event_inv_def)
qed

text \<open>A thread other than the idle thread may wait; the idle thread only polls.\<close>

definition may_wait :: "tid \<Rightarrow> tid \<Rightarrow> int \<Rightarrow> bool" where
  "may_wait idle c timeout \<longleftrightarrow> (c \<noteq> idle \<or> timeout = 0) \<and> timeout < 0x7fffffff"

lemma sys_block':
  assumes "sys_inv L idle s" "cur s = Some c" "may_wait idle c timeout" "timeout \<noteq> 0" "waits_in q"
    "flag \<in> {RT_IPC_FLAG_FIFO, RT_IPC_FLAG_PRIO}" "\<And>n. q \<noteq> QSuspend (OEvent n)" "\<And>n. q = QSuspend (OSem n) \<Longrightarrow> sems s n = 0"
  shows "\<exists>s'. ipc_block q c timeout flag (reset_error c s) = Inr s' \<and> sys_inv L idle s'"
  by (rule sys_block [OF assms(1,2) _ assms(5,6) _ assms(7,8)]) (use assms(3,4) in \<open>auto simp: may_wait_def\<close>)

lemma sys_sem_take:
  assumes "sys_inv L idle s" "cur s = Some c" "OSem n \<in> dom L" "may_wait idle c timeout"
  shows "\<exists>r s'. rt_sem_take n timeout s = Inr (r, s') \<and> sys_inv L idle s'"
proof -
  note rn = sys_running [OF assms(1,2)]
  have v: "sem_valid n s" using sys_valid [OF assms(1,3)] by (auto simp: obj_ok_def)
  then have ty: "rt_object_get_type (OSem n) s = RT_Object_Class_Semaphore"
    and fl: "obj_flag (objs s (OSem n)) \<in> {RT_IPC_FLAG_FIFO, RT_IPC_FLAG_PRIO}" by (simp_all add: sem_valid_def)
  consider "sems s n \<noteq> 0" | "sems s n = 0" "timeout = 0" | "sems s n = 0" "timeout \<noteq> 0" by blast
  then show ?thesis
  proof cases
    case 1
    then have "queues s (QSuspend (OSem n)) = []" using assms(1) by (simp add: sys_inv_def sys_data_def sem_inv_def)
    then show ?thesis using 1 ty sys_upd_sem [OF assms(1), of _ n] by (simp add: rt_sem_take_def word_gt_0)
  next
    case 3
    obtain s' where "ipc_block (QSuspend (OSem n)) c timeout (obj_flag (objs s (OSem n))) (reset_error c s) = Inr s'" "sys_inv L idle s'"
      using sys_block' [OF assms(1,2,4) 3(2) _ fl, of "QSuspend (OSem n)"] 3(1) by auto
    then show ?thesis using 3 ty rn
      by (auto simp: rt_sem_take_def reset_error_def ipc_block_def Let_def bind_res_eq_Inr upd_thread_def)
  qed (use assms(1) ty in \<open>simp add: rt_sem_take_def\<close>)
qed

lemma sys_sem_release:
  assumes "sys_inv L idle s" "OSem n \<in> dom L"
  shows "\<exists>r s'. rt_sem_release n s = Inr (r, s') \<and> sys_inv L idle s'"
proof -
  have ty: "rt_object_get_type (OSem n) s = RT_Object_Class_Semaphore"
    using sys_valid [OF assms] by (auto simp: obj_ok_def sem_valid_def)
  show ?thesis
  proof (cases "queues s (QSuspend (OSem n)) = []")
    case True
    then show ?thesis using ty assms(1) sys_upd_sem [OF assms(1), of _ n] by (auto simp: rt_sem_release_def)
  next
    case False
    obtain s' where "ipc_wake (QSuspend (OSem n)) s = Inr s'" "sys_inv L idle s'"
      using sys_wake [OF assms(1), of "QSuspend (OSem n)"] by auto
    then show ?thesis using False ty by (auto simp: rt_sem_release_def ipc_wake_def bind_res_eq_Inr)
  qed
qed

section \<open>Mailboxes\<close>

lemma sys_mb_send_loop:
  assumes "sys_inv L idle s" "cur s = Some c" "OMailBox n \<in> dom L" "may_wait idle c timeout"
  shows "\<exists>r s'. mb_send_loop n v timeout (Some c) s = Inr (r, s') \<and> sys_inv L idle s'"
proof -
  have mv: "mb_valid n s" using sys_valid [OF assms(1,3)] by (auto simp: obj_ok_def)
  then have mb: "mb_inv (mboxes s n)" and fl: "obj_flag (objs s (OMailBox n)) \<in> {RT_IPC_FLAG_FIFO, RT_IPC_FLAG_PRIO}"
    by (simp_all add: mb_valid_def)
  show ?thesis
  proof (cases "mb_entry (mboxes s n) = mb_size (mboxes s n)")
    case full: True
    show ?thesis
    proof (cases "timeout = 0")
      case True
      then show ?thesis using full sys_error(2) [OF assms(1)] by (simp add: mb_send_loop_def)
    next
      case False
      obtain s' where "ipc_block (QSender (OMailBox n)) c timeout (obj_flag (objs s (OMailBox n))) (reset_error c s) = Inr s'"
        "sys_inv L idle s'"
        using sys_block' [OF assms(1,2,4) False _ fl, of "QSender (OMailBox n)"] by auto
      then show ?thesis using full False by (simp add: mb_send_loop_def)
    qed
  next
    case room: False
    obtain mb' where mb': "mb_store v (mboxes s n) = Inr (True, mb')" "mb_inv mb'" by (rule mb_store_ok [OF mb room]) blast
    obtain s' where "ipc_wake (QSuspend (OMailBox n)) (upd_mbox n (\<lambda>_. mb') s) = Inr s'" "sys_inv L idle s'"
      using sys_wake [OF sys_upd_mbox [OF assms(1) mb'(2)], of "QSuspend (OMailBox n)"] by auto
    then show ?thesis using room mb'(1) by (simp add: mb_send_loop_def mb_send_finish_def)
  qed
qed

lemma sys_mb_recv_loop:
  assumes "sys_inv L idle s" "cur s = Some c" "OMailBox n \<in> dom L" "may_wait idle c timeout"
  shows "\<exists>r x s'. mb_recv_loop n timeout (Some c) s = Inr (r, x, s') \<and> sys_inv L idle s'"
proof -
  have mv: "mb_valid n s" using sys_valid [OF assms(1,3)] by (auto simp: obj_ok_def)
  then have mb: "mb_inv (mboxes s n)" and fl: "obj_flag (objs s (OMailBox n)) \<in> {RT_IPC_FLAG_FIFO, RT_IPC_FLAG_PRIO}"
    by (simp_all add: mb_valid_def)
  show ?thesis
  proof (cases "mb_entry (mboxes s n) = 0")
    case empty: True
    show ?thesis
    proof (cases "timeout = 0")
      case True
      then show ?thesis using empty sys_error(1) [OF sys_error(2) [OF assms(1)]] by (simp add: mb_recv_loop_def)
    next
      case False
      obtain s' where "ipc_block (QSuspend (OMailBox n)) c timeout (obj_flag (objs s (OMailBox n))) (reset_error c s) = Inr s'"
        "sys_inv L idle s'"
        using sys_block' [OF assms(1,2,4) False _ fl, of "QSuspend (OMailBox n)"] by auto
      then show ?thesis using empty False by (simp add: mb_recv_loop_def)
    qed
  next
    case mail: False
    obtain x mb' where mb': "mb_fetch (mboxes s n) = Inr (x, mb')" "mb_inv mb'" by (rule mb_fetch_ok [OF mb mail]) blast
    obtain s' where "ipc_wake (QSender (OMailBox n)) (upd_mbox n (\<lambda>_. mb') s) = Inr s'" "sys_inv L idle s'"
      using sys_wake [OF sys_upd_mbox [OF assms(1) mb'(2)], of "QSender (OMailBox n)"] by auto
    then show ?thesis using mail mb'(1) by (simp add: mb_recv_loop_def mb_recv_finish_def)
  qed
qed

lemma sys_mb_calls:
  assumes "sys_inv L idle s" "cur s = Some c" "OMailBox n \<in> dom L" "may_wait idle c timeout"
  shows "\<exists>r s'. rt_mb_send_wait n v timeout s = Inr (r, s') \<and> sys_inv L idle s'"
    "\<exists>r x s'. rt_mb_recv n timeout s = Inr (r, x, s') \<and> sys_inv L idle s'"
proof -
  have "mb_valid n s" using sys_valid [OF assms(1,3)] by (auto simp: obj_ok_def)
  then have ty: "rt_object_get_type (OMailBox n) s = RT_Object_Class_MailBox" by (simp add: mb_valid_def)
  show "\<exists>r s'. rt_mb_send_wait n v timeout s = Inr (r, s') \<and> sys_inv L idle s'"
    using ty sys_running [OF assms(1,2)] sys_mb_send_loop [OF assms] assms(1) by (simp add: rt_mb_send_wait_def)
  show "\<exists>r x s'. rt_mb_recv n timeout s = Inr (r, x, s') \<and> sys_inv L idle s'"
    using ty sys_running [OF assms(1,2)] sys_mb_recv_loop [OF assms] assms(1) by (simp add: rt_mb_recv_def)
qed

lemma sys_mb_resumes:
  assumes "sys_inv L idle s" "cur s = Some c" "OMailBox n \<in> dom L" "may_wait idle c (time_left timeout d s)"
  shows "\<exists>r s'. rt_mb_send_wait_resume n v timeout d c s = Inr (r, s') \<and> sys_inv L idle s'"
    "\<exists>r x s'. rt_mb_recv_resume n timeout d c s = Inr (r, x, s') \<and> sys_inv L idle s'"
  using sys_mb_send_loop [OF assms] sys_mb_recv_loop [OF assms] assms(1)
  by (simp_all add: rt_mb_send_wait_resume_def rt_mb_recv_resume_def)

section \<open>Message queues\<close>

lemma sys_mq_send_loop:
  assumes "sys_inv L idle s" "cur s = Some c" "OMsgQueue n \<in> dom L" "may_wait idle c timeout"
    "sz \<le> length buffer" "sz \<le> msg_size (mqs s n)"
  shows "\<exists>r s'. mq_send_loop n buffer sz timeout (Some c) s = Inr (r, s') \<and> sys_inv L idle s'"
proof -
  have mv: "mq_valid n s" using sys_valid [OF assms(1,3)] by (auto simp: obj_ok_def)
  then have mq: "mq_inv [] (mqs s n)" and fl: "obj_flag (objs s (OMsgQueue n)) \<in> {RT_IPC_FLAG_FIFO, RT_IPC_FLAG_PRIO}"
    by (simp_all add: mq_valid_def)
  show ?thesis
  proof (cases "msg_queue_free (mqs s n) = None")
    case full: True
    show ?thesis
    proof (cases "timeout = 0")
      case True
      then show ?thesis using full sys_error(2) [OF assms(1)] by (simp add: mq_send_loop_def)
    next
      case False
      obtain s' where "ipc_block (QSender (OMsgQueue n)) c timeout (obj_flag (objs s (OMsgQueue n))) (reset_error c s) = Inr s'"
        "sys_inv L idle s'"
        using sys_block' [OF assms(1,2,4) False _ fl, of "QSender (OMsgQueue n)"] by auto
      then show ?thesis using full False by (simp add: mq_send_loop_def)
    qed
  next
    case room: False
    obtain mq' where mq': "mq_put buffer sz (mqs s n) = Inr (True, mq')" "mq_inv [] mq'" "msg_size mq' = msg_size (mqs s n)"
      by (rule put_ok [OF mq room assms(6,5)]) blast
    obtain s' where "ipc_wake (QSuspend (OMsgQueue n)) (upd_mq n (\<lambda>_. mq') s) = Inr s'" "sys_inv L idle s'"
      using sys_wake [OF sys_upd_mq [OF assms(1) mq'(2,3)], of "QSuspend (OMsgQueue n)"] by auto
    then show ?thesis using room mq'(1) by (auto simp: mq_send_loop_def mq_send_finish_def)
  qed
qed

lemma sys_mq_recv_loop:
  assumes "sys_inv L idle s" "cur s = Some c" "OMsgQueue n \<in> dom L" "may_wait idle c timeout"
  shows "\<exists>r x s'. mq_recv_loop n sz timeout (Some c) s = Inr (r, x, s') \<and> sys_inv L idle s'"
proof -
  have mv: "mq_valid n s" using sys_valid [OF assms(1,3)] by (auto simp: obj_ok_def)
  then have mq: "mq_inv [] (mqs s n)" and fl: "obj_flag (objs s (OMsgQueue n)) \<in> {RT_IPC_FLAG_FIFO, RT_IPC_FLAG_PRIO}"
    by (simp_all add: mq_valid_def)
  show ?thesis
  proof (cases "mq_entry (mqs s n) = 0")
    case empty: True
    show ?thesis
    proof (cases "timeout = 0")
      case True
      then show ?thesis using empty sys_error(1) [OF sys_error(2) [OF assms(1)]] by (simp add: mq_recv_loop_def)
    next
      case False
      obtain s' where "ipc_block (QSuspend (OMsgQueue n)) c timeout (obj_flag (objs s (OMsgQueue n))) (reset_error c s) = Inr s'"
        "sys_inv L idle s'"
        using sys_block' [OF assms(1,2,4) False _ fl, of "QSuspend (OMsgQueue n)"] by auto
      then show ?thesis using empty False by (simp add: mq_recv_loop_def)
    qed
  next
    case msg: False
    obtain x mq' where mq': "mq_get sz (mqs s n) = Inr (take (min sz (msg_size (mqs s n))) x, mq')" "mq_inv [] mq'" "msg_size mq' = msg_size (mqs s n)"
      by (rule get_ok [OF mq msg]) blast
    obtain s' where "ipc_wake (QSender (OMsgQueue n)) (upd_mq n (\<lambda>_. mq') s) = Inr s'" "sys_inv L idle s'"
      using sys_wake [OF sys_upd_mq [OF assms(1) mq'(2,3)], of "QSender (OMsgQueue n)"] by auto
    then show ?thesis using msg mq'(1) by (simp add: mq_recv_loop_def mq_recv_finish_def)
  qed
qed

lemma sys_mq_calls:
  assumes "sys_inv L idle s" "cur s = Some c" "OMsgQueue n \<in> dom L" "may_wait idle c timeout" "sz \<noteq> 0"
  shows "sz \<le> length buffer \<Longrightarrow> \<exists>r s'. rt_mq_send_wait n buffer sz timeout s = Inr (r, s') \<and> sys_inv L idle s'"
    "\<exists>r x s'. rt_mq_recv n sz timeout s = Inr (r, x, s') \<and> sys_inv L idle s'"
proof -
  have "mq_valid n s" using sys_valid [OF assms(1,3)] by (auto simp: obj_ok_def)
  then have ty: "rt_object_get_type (OMsgQueue n) s = RT_Object_Class_MessageQueue" by (simp add: mq_valid_def)
  show "\<exists>r s'. rt_mq_send_wait n buffer sz timeout s = Inr (r, s') \<and> sys_inv L idle s'" if "sz \<le> length buffer"
    using ty sys_running [OF assms(1,2)] sys_mq_send_loop [OF assms(1-4) that] assms(1,5)
    by (cases "sz \<le> msg_size (mqs s n)") (simp_all add: rt_mq_send_wait_def)
  show "\<exists>r x s'. rt_mq_recv n sz timeout s = Inr (r, x, s') \<and> sys_inv L idle s'"
    using ty sys_running [OF assms(1,2)] sys_mq_recv_loop [OF assms(1-4)] assms(1,5) by (simp add: rt_mq_recv_def)
qed

lemma sys_mq_resumes:
  assumes "sys_inv L idle s" "cur s = Some c" "OMsgQueue n \<in> dom L" "may_wait idle c (time_left timeout d s)"
  shows "sz \<le> length buffer \<Longrightarrow> L (OMsgQueue n) = Some m \<Longrightarrow> sz \<le> m \<Longrightarrow>
      \<exists>r s'. rt_mq_send_wait_resume n buffer sz timeout d c s = Inr (r, s') \<and> sys_inv L idle s'"
    "\<exists>r x s'. rt_mq_recv_resume n sz timeout d c s = Inr (r, x, s') \<and> sys_inv L idle s'"
  using sys_mq_send_loop [OF assms] sys_mq_recv_loop [OF assms] assms(1) sys_valid [OF assms(1,3)]
  by (auto simp: rt_mq_send_wait_resume_def rt_mq_recv_resume_def obj_ok_def)

section \<open>Event sets\<close>

text \<open>What the walk along the waiters of an event set and a receive leave alone.\<close>

definition ev_same :: "kernel \<Rightarrow> kernel \<Rightarrow> bool" where
  "ev_same s' s \<longleftrightarrow> sems s' = sems s \<and> mboxes s' = mboxes s \<and> mqs s' = mqs s \<and> lock_nest s' = lock_nest s
     \<and> irq_nest s' = irq_nest s \<and> (\<forall>i. obj_type (objs s' i) = obj_type (objs s i))
     \<and> (\<forall>i. (\<forall>m. i \<noteq> OTimer m) \<longrightarrow> objs s' i = objs s i)"

lemma ev_same_trans: "ev_same s2 s1 \<Longrightarrow> ev_same s1 s0 \<Longrightarrow> ev_same s2 s0"
  by (simp add: ev_same_def)

lemma ev_same_ipc: "ipc_same s' s \<Longrightarrow> ev_same s' s"
  by (simp add: ev_same_def ipc_same_def)

lemma ev_same_upd: "ev_same (upd_thread t f s) s" "ev_same (s\<lparr>events := e\<rparr>) s" "ev_same s s"
  by (simp_all add: ev_same_def upd_thread_def)

lemma calm_fields2:
  "(\<And>x. stat (f x) = stat x) \<Longrightarrow> calm X Q (upd_thread t f s) s" "calm X Q (s\<lparr>events := e\<rparr>) s"
  by (rule calm_fields; simp add: upd_thread_def due_def)+

definition ev_calm :: "tid set \<Rightarrow> qid set \<Rightarrow> kernel \<Rightarrow> kernel \<Rightarrow> bool" where
  "ev_calm X Q s' s \<longleftrightarrow> calm X Q s' s \<and> ev_same s' s"

lemma ev_calm_trans: "ev_calm X Q s2 s1 \<Longrightarrow> ev_calm X Q s1 s0 \<Longrightarrow> ev_calm X Q s2 s0"
  using calm_trans ev_same_trans unfolding ev_calm_def by blast

lemma ev_calm_upd:
  "ev_calm X Q s s" "ev_calm X Q (s\<lparr>events := e\<rparr>) s" "(\<And>x. stat (f x) = stat x) \<Longrightarrow> ev_calm X Q (upd_thread t f s) s"
  by (simp_all add: ev_calm_def calm_fields2 ev_same_upd)

lemma ev_calm_resume: "rt_thread_resume t s = Inr (r, s') \<Longrightarrow> ev_calm X Q s' s"
  by (simp add: ev_calm_def calm_resume ev_same_ipc same_resume)

lemma ev_calm_schedule: "rt_schedule s = Inr s' \<Longrightarrow> ev_calm X Q s' s"
  by (simp add: ev_calm_def calm_schedule ev_same_ipc same_schedule)

lemma event_send_loop_calm:
  "event_send_loop n ts ns s = Inr (r, b, s') \<Longrightarrow> ev_calm X Q s' s"
proof (induction ts arbitrary: ns s)
  case Nil
  then show ?case by (simp add: ev_calm_upd)
next
  case (Cons t ts)
  let ?th = "threads s t"
  let ?s1 = "if event_info ?th AND RT_EVENT_FLAG_AND \<noteq> 0 then s
     else upd_thread t (\<lambda>th. th\<lparr>event_set := event_set th AND events s n\<rparr>) s"
  let ?s2 = "if event_info (threads ?s1 t) AND RT_EVENT_FLAG_CLEAR \<noteq> 0
     then ?s1\<lparr>events := (events ?s1)(n := events ?s1 n AND NOT (event_set (threads ?s1 t)))\<rparr> else ?s1"
  have two: "ev_calm X Q ?s2 s"
  proof -
    have "ev_calm X Q ?s1 s" by (simp add: ev_calm_upd)
    moreover have "ev_calm X Q ?s2 ?s1" by (simp add: ev_calm_upd)
    ultimately show ?thesis using ev_calm_trans by blast
  qed
  consider "s' = s" | ns' where "event_send_loop n ts ns' s = Inr (r, b, s')"
    | x y where "rt_thread_resume t ?s2 = Inr (x, y)" "event_send_loop n ts True y = Inr (r, b, s')"
    using Cons.prems by (auto simp: Let_def bind_res_eq_Inr split: if_splits)
  then show ?case
  proof cases
    case 1
    then show ?thesis by (simp add: ev_calm_upd)
  next
    case 2
    then show ?thesis by (rule Cons.IH)
  next
    case 3
    show ?thesis by (rule ev_calm_trans [OF Cons.IH [OF 3(2)] ev_calm_trans [OF ev_calm_resume [OF 3(1)] two]])
  qed
qed

lemma event_send_calm:
  assumes "rt_event_send n eset s = Inr (r, s')"
  shows "ev_calm X Q s' s"
proof (cases "eset = 0")
  case False
  let ?s0 = "s\<lparr>events := (events s)(n := events s n OR eset)\<rparr>"
  obtain ret need s1 where s1: "event_send_loop n (queues s (QSuspend (OEvent n))) False ?s0 = Inr (ret, need, s1)"
    "s' = s1 \<or> rt_schedule s1 = Inr s'"
    using assms False by (auto simp: rt_event_send_def assert_then_eq_Inr bind_res_eq_Inr Let_def split: option.splits if_splits)
  have "ev_calm X Q s1 s" by (rule ev_calm_trans [OF event_send_loop_calm [OF s1(1)] ev_calm_upd(2)])
  then show ?thesis using s1(2) ev_calm_trans [OF ev_calm_schedule] by blast
qed (use assms in \<open>auto simp: rt_event_send_def assert_then_eq_Inr ev_calm_upd\<close>)

lemma event_recv_calm:
  assumes "rt_event_recv n eset option timeout s = Inr (r, x, s')" "cur s = Some c" "timeout < 0x7fffffff"
  shows "if r = Blocked then ev_calm {c} {QSuspend (OEvent n)} s' s else ev_calm {} {} s' s"
proof (cases "r = Blocked")
  case True
  let ?s0 = "upd_thread c (\<lambda>th. th\<lparr>event_set := eset, event_info := option\<rparr>) (upd_thread c (\<lambda>th. th\<lparr>error := RT_EOK\<rparr>) s)"
  let ?X = "{c}" let ?Q = "{QSuspend (OEvent n)}"
  obtain s1 s2 where b: "ipc_list_suspend (QSuspend (OEvent n)) c (obj_flag (objs ?s0 (OEvent n))) ?s0 = Inr s1"
    "arm_timeout c timeout s1 = Inr s2" "rt_schedule s2 = Inr s'"
    using assms(1,2) True
    by (auto simp: rt_event_recv_def rt_thread_self_def assert_then_eq_Inr bind_res_eq_Inr Let_def split: if_splits)
  have "ev_calm ?X ?Q s1 ?s0"
    by (simp add: ev_calm_def calm_list_suspend [OF b(1)] ev_same_ipc [OF same_list_suspend [OF b(1)]])
  moreover have "ev_calm ?X ?Q ?s0 s" by (rule ev_calm_trans [OF ev_calm_upd(3) ev_calm_upd(3)]) simp_all
  ultimately have "ev_calm ?X ?Q s1 s" by (rule ev_calm_trans)
  moreover have "ev_calm ?X ?Q s2 s1"
    by (simp add: ev_calm_def calm_arm [OF b(2) assms(3)] ev_same_ipc [OF same_arm [OF b(2)]])
  ultimately have "ev_calm ?X ?Q s2 s" using ev_calm_trans by blast
  then show ?thesis using True ev_calm_trans [OF ev_calm_schedule [OF b(3)]] by simp
next
  case False
  then have "ev_calm {} {} s' s"
    using assms(1,2)
    by (auto simp: rt_event_recv_def rt_thread_self_def assert_then_eq_Inr bind_res_eq_Inr Let_def split: if_splits
        intro!: ev_calm_trans [OF ev_calm_upd(3)] ev_calm_trans [OF ev_calm_upd(2)] ev_calm_upd(1))
  then show ?thesis using False by simp
qed

lemma sys_event_end:
  assumes "sys_inv L idle s" "kinv s'" "runs_highest s'" "event_inv s'" "ev_calm X Q s' s" "idle \<notin> X"
    "\<And>n. QSuspend (OSem n) \<notin> Q"
  shows "sys_inv L idle s'"
proof -
  have "sys_core idle s'" using assms(1-3,5,6)
    by (auto simp: sys_inv_def sys_core_def running_def runs_highest_def ev_calm_def calm_def ev_same_def)
  moreover have "sem_inv s'"
    by (rule sem_inv_keep [of s _ X Q]) (use assms in \<open>auto simp: sys_inv_def sys_data_def ev_calm_def ev_same_def\<close>)
  moreover have "obj_ok s' i sz = obj_ok s i sz" for i sz
    using assms(5) by (cases i) (simp_all add: obj_ok_def ev_calm_def ev_same_def mb_valid_def mq_valid_def sem_valid_def
        event_valid_def rt_object_get_type_def)
  ultimately show ?thesis using assms(1,4) by (simp add: sys_inv_def sys_data_def)
qed

lemma sys_event_send:
  assumes "sys_inv L idle s" "cur s = Some c" "OEvent n \<in> dom L" "eset \<noteq> 0"
  shows "\<exists>s'. rt_event_send n eset s = Inr (RT_EOK, s') \<and> sys_inv L idle s'"
proof -
  have v: "event_valid n s" using sys_valid [OF assms(1,3)] by (auto simp: obj_ok_def)
  have ei: "event_inv s" "runs_highest s" using assms(1) by (simp_all add: sys_inv_def sys_data_def sys_core_def)
  obtain woken waiting left where sv: "serve (threads s) (queues s (QSuspend (OEvent n))) (events s n OR eset) = (woken, waiting, left)"
    by (cases "serve (threads s) (queues s (QSuspend (OEvent n))) (events s n OR eset)")
  from rt_event_send_ok [OF sys_running(1) [OF assms(1,2)] v ei(1) assms(4), unfolded sv]
  obtain s' where s': "rt_event_send n eset s = Inr (RT_EOK, s')" "kinv s'" "event_inv s'"
    "if woken = [] then cur s' = cur s \<and> threads s' = threads s else runs_highest s'" by auto
  have "runs_highest s'" using s'(4) ei(2) by (auto simp: runs_highest_def split: if_splits)
  then have "sys_inv L idle s'"
    by (rule sys_event_end [OF assms(1) s'(2) _ s'(3) event_send_calm [OF s'(1), of "{}" "{}"]]) simp_all
  then show ?thesis using s'(1) by blast
qed

lemma sys_event_recv:
  assumes "sys_inv L idle s" "cur s = Some c" "OEvent n \<in> dom L" "may_wait idle c timeout" "eset \<noteq> 0"
    "option AND RT_EVENT_FLAG_AND \<noteq> 0 \<or> option AND RT_EVENT_FLAG_OR \<noteq> 0"
  shows "\<exists>r x s'. rt_event_recv n eset option timeout s = Inr (r, x, s') \<and> sys_inv L idle s'"
proof -
  have v: "event_valid n s" using sys_valid [OF assms(1,3)] by (auto simp: obj_ok_def)
  have ei: "event_inv s" "runs_highest s" "sys_core idle s" using assms(1) by (simp_all add: sys_inv_def sys_data_def sys_core_def)
  have t: "timeout < 0x7fffffff" using assms(4) by (simp add: may_wait_def)
  let ?req = "(threads s c)\<lparr>event_set := eset, event_info := option\<rparr>"
  from rt_event_recv_ok [OF sys_running(1) [OF assms(1,2)] v ei(1) assms(5) t assms(6)]
  obtain r x s' where s': "rt_event_recv n eset option timeout s = Inr (r, x, s')" "kinv s'" "event_inv s'"
    "r \<noteq> Blocked \<longrightarrow> cur s' = cur s \<and> (\<forall>t. tstat s' t = tstat s t \<and> tprio s' t = tprio s t)"
    "r = Blocked \<longrightarrow> timeout \<noteq> 0 \<and> (ready_group s \<noteq> 0 \<longrightarrow> runs_highest s')"
    by (auto simp: Let_def split: if_splits)
  note ec = event_recv_calm [OF s'(1) assms(2) t]
  show ?thesis
  proof (cases "r = Blocked")
    case True
    then have ci: "c \<noteq> idle" using s'(5) assms(4) by (simp add: may_wait_def)
    have "runs_highest s'" using True s'(5) core_others_ready [OF ei(3) assms(2) ci] by simp
    then have "sys_inv L idle s'"
      by (rule sys_event_end [OF assms(1) s'(2) _ s'(3)]) (use ec True ci in \<open>auto split: if_splits\<close>)
    then show ?thesis using s'(1) by blast
  next
    case False
    have "runs_highest s'" using False s'(4) ei(2) by (auto simp: runs_highest_def)
    then have "sys_inv L idle s'"
      by (rule sys_event_end [OF assms(1) s'(2) _ s'(3), of "{}" "{}"]) (use ec False in \<open>auto split: if_splits\<close>)
    then show ?thesis using s'(1) by blast
  qed
qed

end
