(* ===== verification/System.thy ===== *)
theory System
  imports SysOps
begin

text \<open>
  The kernel as a whole: the running thread calls the scheduler, the clock, semaphores, event sets,
  mailboxes and message queues, is switched away and later goes on with a call that had blocked; the tick
  interrupt (\<^verbatim>\<open>SysTick_Handler\<close> of
  \<^verbatim>\<open>libraries/m460/rtt_port/drv_common.c\<close>) comes between any two of these.  Interrupt
  nesting is \<^verbatim>\<open>rt-thread/src/irq.c\<close>.  The copies of the message queues with interrupts
  enabled are refined in theory MqSteps.
\<close>

section \<open>Interrupts\<close>

text \<open>\<^verbatim>\<open>rt_interrupt_nest\<close> is an 8-bit counter.\<close>

definition rt_interrupt_enter :: "kernel \<Rightarrow> kernel" where
  "rt_interrupt_enter s = s\<lparr>irq_nest := (irq_nest s + 1) mod 256\<rparr>"

definition rt_interrupt_leave :: "kernel \<Rightarrow> kernel" where
  "rt_interrupt_leave s = s\<lparr>irq_nest := (irq_nest s + 255) mod 256\<rparr>"

definition rt_interrupt_get_nest :: "kernel \<Rightarrow> nat" where
  "rt_interrupt_get_nest s = irq_nest s"

definition SysTick_Handler :: "(tfun \<Rightarrow> kernel \<Rightarrow> kernel res) \<Rightarrow> nat \<Rightarrow> kernel \<Rightarrow> kernel res" where
  "SysTick_Handler call fuel s =
     bind_res (rt_tick_increase call fuel (rt_interrupt_enter s)) (\<lambda>s. Inr (rt_interrupt_leave s))"

lemma core_any_irq: "core_any idle (s\<lparr>irq_nest := k\<rparr>) = core_any idle s"
proof -
  have "loose_kinv {} (s\<lparr>irq_nest := k\<rparr>) = loose_kinv {} s"
    by (rule kinv_fields_cong, simp_all, rule timers_inv_cong, simp_all)
  then show ?thesis by (simp add: core_any_def kinv_def runs_highest_def awake_def clock_ready_def due_def)
qed

lemma data_irq: "sys_data L (s\<lparr>irq_nest := k\<rparr>) = sys_data L s"
  by (rule data_cong) simp_all

lemma sys_tick_handler:
  assumes "sys_inv L idle s"
  shows "\<exists>s'. SysTick_Handler (timeout_call usr) (Suc (length (timer_list s))) s = Inr s' \<and> sys_inv L idle s'"
proof -
  let ?s = "rt_interrupt_enter s"
  have s: "core_any idle ?s" "sys_data L ?s" "irq_nest ?s = 1" "timer_list ?s = timer_list s"
    using assms by (simp_all add: rt_interrupt_enter_def sys_inv_def sys_core_any core_any_irq data_irq)
  obtain s' where s': "rt_tick_increase (timeout_call usr) (Suc (length (timer_list s))) ?s = Inr s'"
    "core_any idle s'" "sys_data L s'" "irq_nest s' = 1"
    using sys_tick [OF s(1,2), of usr] s(3,4) by auto
  then have "sys_inv L idle (rt_interrupt_leave s')"
    by (simp add: rt_interrupt_leave_def sys_inv_def sys_core_any core_any_irq data_irq)
  then show ?thesis using s'(1) by (simp add: SysTick_Handler_def)
qed

section \<open>Calls\<close>

datatype syscall = Yield | Sleep u32
  | SemTake nat int | SemRelease nat
  | EventSend nat u32 | EventRecv nat u32 u8 int
  | MbSend nat u32 int | MbRecv nat int
  | MqSend nat "u8 list" nat int | MqRecv nat nat int

text \<open>The state after a call, or up to the point where it has switched away; the flag says which.\<close>

fun exec :: "syscall \<Rightarrow> kernel \<Rightarrow> (bool \<times> kernel) res" where
  "exec Yield s = bind_res (rt_thread_yield s) (\<lambda>(_, s). Inr (False, s))"
| "exec (Sleep n) s = bind_res (rt_thread_sleep n s) (\<lambda>(r, s). Inr (r = Blocked, s))"
| "exec (SemTake n timeout) s = bind_res (rt_sem_take n timeout s) (\<lambda>(r, s). Inr (r = Blocked, s))"
| "exec (SemRelease n) s = bind_res (rt_sem_release n s) (\<lambda>(_, s). Inr (False, s))"
| "exec (EventSend n eset) s = bind_res (rt_event_send n eset s) (\<lambda>(_, s). Inr (False, s))"
| "exec (EventRecv n eset option timeout) s =
     bind_res (rt_event_recv n eset option timeout s) (\<lambda>(r, _, s). Inr (r = Blocked, s))"
| "exec (MbSend n mail timeout) s = bind_res (rt_mb_send_wait n mail timeout s) (\<lambda>(r, s). Inr (r = Blocked, s))"
| "exec (MbRecv n timeout) s = bind_res (rt_mb_recv n timeout s) (\<lambda>(r, _, s). Inr (r = Blocked, s))"
| "exec (MqSend n buffer sz timeout) s =
     bind_res (rt_mq_send_wait n buffer sz timeout s) (\<lambda>(r, s). Inr (r = Blocked, s))"
| "exec (MqRecv n sz timeout) s = bind_res (rt_mq_recv n sz timeout s) (\<lambda>(r, _, s). Inr (r = Blocked, s))"

text \<open>What a blocked call does when its thread runs again, \<open>d\<close> being the tick at which it was
  suspended.  The rest of a semaphore's or an event set's call only computes the value it returns
  (\<open>rt_sem_take_resume\<close>, \<open>rt_event_recv_resume\<close>).\<close>

fun go_on :: "tid \<Rightarrow> syscall \<Rightarrow> u32 \<Rightarrow> kernel \<Rightarrow> (bool \<times> kernel) res" where
  "go_on t (Sleep n) d s = Inr (False, snd (rt_thread_sleep_resume t s))"
| "go_on t (MbSend n mail timeout) d s =
     bind_res (rt_mb_send_wait_resume n mail timeout d t s) (\<lambda>(r, s). Inr (r = Blocked, s))"
| "go_on t (MbRecv n timeout) d s = bind_res (rt_mb_recv_resume n timeout d t s) (\<lambda>(r, _, s). Inr (r = Blocked, s))"
| "go_on t (MqSend n buffer sz timeout) d s =
     bind_res (rt_mq_send_wait_resume n buffer sz timeout d t s) (\<lambda>(r, s). Inr (r = Blocked, s))"
| "go_on t (MqRecv n sz timeout) d s =
     bind_res (rt_mq_recv_resume n sz timeout d t s) (\<lambda>(r, _, s). Inr (r = Blocked, s))"
| "go_on t _ d s = Inr (False, s)"

text \<open>The call with the time that is left.\<close>

fun retry :: "syscall \<Rightarrow> u32 \<Rightarrow> kernel \<Rightarrow> syscall" where
  "retry (MbSend n mail timeout) d s = MbSend n mail (time_left timeout d s)"
| "retry (MbRecv n timeout) d s = MbRecv n (time_left timeout d s)"
| "retry (MqSend n buffer sz timeout) d s = MqSend n buffer sz (time_left timeout d s)"
| "retry (MqRecv n sz timeout) d s = MqRecv n sz (time_left timeout d s)"
| "retry a d s = a"

section \<open>Steps of the system\<close>

text \<open>What the kernel asks of its callers: valid objects, times below the horizon of the timers, a
  buffer of the size given, and an idle thread that does not wait.\<close>

fun allowed :: "in_use \<Rightarrow> tid \<Rightarrow> tid \<Rightarrow> syscall \<Rightarrow> bool" where
  "allowed L idle c Yield \<longleftrightarrow> True"
| "allowed L idle c (Sleep n) \<longleftrightarrow> c \<noteq> idle \<and> n \<noteq> 0 \<and> n < RT_TICK_HALF"
| "allowed L idle c (SemTake n timeout) \<longleftrightarrow> OSem n \<in> dom L \<and> may_wait idle c timeout"
| "allowed L idle c (SemRelease n) \<longleftrightarrow> OSem n \<in> dom L"
| "allowed L idle c (EventSend n eset) \<longleftrightarrow> OEvent n \<in> dom L \<and> eset \<noteq> 0"
| "allowed L idle c (EventRecv n eset option timeout) \<longleftrightarrow> OEvent n \<in> dom L \<and> may_wait idle c timeout \<and> eset \<noteq> 0
     \<and> (option AND RT_EVENT_FLAG_AND \<noteq> 0 \<or> option AND RT_EVENT_FLAG_OR \<noteq> 0)"
| "allowed L idle c (MbSend n mail timeout) \<longleftrightarrow> OMailBox n \<in> dom L \<and> may_wait idle c timeout"
| "allowed L idle c (MbRecv n timeout) \<longleftrightarrow> OMailBox n \<in> dom L \<and> may_wait idle c timeout"
| "allowed L idle c (MqSend n buffer sz timeout) \<longleftrightarrow> OMsgQueue n \<in> dom L \<and> may_wait idle c timeout \<and> sz \<noteq> 0 \<and> sz \<le> length buffer"
| "allowed L idle c (MqRecv n sz timeout) \<longleftrightarrow> OMsgQueue n \<in> dom L \<and> may_wait idle c timeout \<and> sz \<noteq> 0"

text \<open>A thread that was woken runs before its remaining time wraps: it is not kept from the processor
  for \<open>2 ^ 31\<close> ticks.\<close>

fun in_time :: "syscall \<Rightarrow> u32 \<Rightarrow> kernel \<Rightarrow> bool" where
  "in_time (MbSend n mail timeout) d s \<longleftrightarrow> time_left timeout d s < 0x7fffffff"
| "in_time (MbRecv n timeout) d s \<longleftrightarrow> time_left timeout d s < 0x7fffffff"
| "in_time (MqSend n buffer sz timeout) d s \<longleftrightarrow> time_left timeout d s < 0x7fffffff"
| "in_time (MqRecv n sz timeout) d s \<longleftrightarrow> time_left timeout d s < 0x7fffffff"
| "in_time _ d s \<longleftrightarrow> True"

text \<open>The threads' part of the state: the call a thread has to go on with, and when it was
  suspended.\<close>

record system =
  kern :: kernel
  todo :: "tid \<Rightarrow> (syscall \<times> u32) option"

definition keep_todo :: "tid \<Rightarrow> bool \<Rightarrow> syscall \<Rightarrow> system \<Rightarrow> kernel \<Rightarrow> system" where
  "keep_todo c blocked a x s = x\<lparr>kern := s, todo := (todo x)(c := if blocked then Some (a, tick (kern x)) else None)\<rparr>"

inductive sys_step :: "(nat \<Rightarrow> kernel \<Rightarrow> kernel res) \<Rightarrow> in_use \<Rightarrow> tid \<Rightarrow> system \<Rightarrow> system \<Rightarrow> bool" for usr L idle where
  call: "cur (kern x) = Some c \<Longrightarrow> todo x c = None \<Longrightarrow> allowed L idle c a \<Longrightarrow> exec a (kern x) = Inr (blocked, s) \<Longrightarrow>
     sys_step usr L idle x (keep_todo c blocked a x s)"
| continue: "cur (kern x) = Some c \<Longrightarrow> todo x c = Some (a, d) \<Longrightarrow> in_time a d (kern x) \<Longrightarrow>
     go_on c a d (kern x) = Inr (blocked, s) \<Longrightarrow>
     sys_step usr L idle x (keep_todo c blocked (retry a d (kern x)) x s)"
| ticks: "SysTick_Handler (timeout_call usr) (Suc (length (timer_list (kern x)))) (kern x) = Inr s \<Longrightarrow>
     sys_step usr L idle x (x\<lparr>kern := s\<rparr>)"

inductive_cases sys_stepE: "sys_step usr L idle x y"

section \<open>Safety\<close>

lemma exec_ok:
  assumes "sys_inv L idle s" "cur s = Some c" "allowed L idle c a"
  shows "\<exists>b s'. exec a s = Inr (b, s') \<and> sys_inv L idle s'"
proof (cases a)
  case Yield
  then show ?thesis using sys_yield [OF assms(1)] by auto
next
  case (Sleep n)
  then show ?thesis using sys_sleep [OF assms(1,2), of n] assms(3) by auto
next
  case (SemTake n timeout)
  then show ?thesis using sys_sem_take [OF assms(1,2), of n timeout] assms(3) by auto
next
  case (SemRelease n)
  then show ?thesis using sys_sem_release [OF assms(1), of n] assms(3) by auto
next
  case (EventSend n eset)
  then show ?thesis using sys_event_send [OF assms(1,2), of n eset] assms(3) by auto
next
  case (EventRecv n eset option timeout)
  then show ?thesis using sys_event_recv [OF assms(1,2), of n timeout eset option] assms(3) by auto
next
  case (MbSend n mail timeout)
  then show ?thesis using sys_mb_calls(1) [OF assms(1,2), of n timeout mail] assms(3) by auto
next
  case (MbRecv n timeout)
  then show ?thesis using sys_mb_calls(2) [OF assms(1,2), of n timeout] assms(3) by auto
next
  case (MqSend n buffer sz timeout)
  then show ?thesis using sys_mq_calls(1) [OF assms(1,2), of n timeout sz buffer] assms(3) by auto
next
  case (MqRecv n sz timeout)
  then show ?thesis using sys_mq_calls(2) [OF assms(1,2), of n timeout sz] assms(3) by auto
qed

text \<open>What is known of a call to go on with.\<close>

definition todo_ok :: "in_use \<Rightarrow> tid \<Rightarrow> tid \<Rightarrow> syscall \<Rightarrow> bool" where
  "todo_ok L idle c a \<longleftrightarrow> allowed L idle c a
     \<and> (case a of MqSend n buffer sz timeout \<Rightarrow> (\<exists>m. L (OMsgQueue n) = Some m \<and> sz \<le> m) | _ \<Rightarrow> True)"

lemma may_wait_left: "may_wait idle c timeout \<Longrightarrow> time_left timeout d s < 0x7fffffff \<Longrightarrow> may_wait idle c (time_left timeout d s)"
  by (auto simp: may_wait_def time_left_def)

lemma go_on_ok:
  assumes "sys_inv L idle s" "cur s = Some c" "todo_ok L idle c a" "in_time a d s"
  shows "\<exists>b s'. go_on c a d s = Inr (b, s') \<and> sys_inv L idle s'" "todo_ok L idle c (retry a d s)"
proof -
  show "todo_ok L idle c (retry a d s)"
    using assms(3,4) by (cases a) (simp_all add: todo_ok_def may_wait_left)
  show "\<exists>b s'. go_on c a d s = Inr (b, s') \<and> sys_inv L idle s'"
  proof (cases a)
    case (Sleep n)
    then show ?thesis using assms(1) sys_error(1) [OF assms(1)] by (auto simp: rt_thread_sleep_resume_def Let_def)
  next
    case (MbSend n mail timeout)
    then have "OMailBox n \<in> dom L" "may_wait idle c (time_left timeout d s)"
      using assms(3,4) may_wait_left by (simp_all add: todo_ok_def)
    from sys_mb_resumes(1) [OF assms(1,2) this, of mail] show ?thesis using MbSend by auto
  next
    case (MbRecv n timeout)
    then have "OMailBox n \<in> dom L" "may_wait idle c (time_left timeout d s)"
      using assms(3,4) may_wait_left by (simp_all add: todo_ok_def)
    from sys_mb_resumes(2) [OF assms(1,2) this] show ?thesis using MbRecv by auto
  next
    case (MqSend n buffer sz timeout)
    then obtain m where "OMsgQueue n \<in> dom L" "may_wait idle c (time_left timeout d s)" "sz \<le> length buffer"
      "L (OMsgQueue n) = Some m" "sz \<le> m"
      using assms(3,4) may_wait_left by (auto simp: todo_ok_def)
    from sys_mq_resumes(1) [OF assms(1,2) this] show ?thesis using MqSend by auto
  next
    case (MqRecv n sz timeout)
    then have "OMsgQueue n \<in> dom L" "may_wait idle c (time_left timeout d s)"
      using assms(3,4) may_wait_left by (simp_all add: todo_ok_def)
    from sys_mq_resumes(2) [OF assms(1,2) this, of sz] show ?thesis using MqRecv by auto
  qed (use assms(1) in auto)
qed

lemma exec_blocked:
  assumes "sys_inv L idle s" "allowed L idle c a" "exec a s = Inr (True, s')"
  shows "todo_ok L idle c a"
proof (cases a)
  case (MqSend n buffer sz timeout)
  then have "sz \<le> msg_size (mqs s n)"
    using assms(3) by (auto simp: rt_mq_send_wait_def assert_then_eq_Inr bind_res_eq_Inr split: if_splits)
  moreover obtain m where "L (OMsgQueue n) = Some m" "msg_size (mqs s n) = m"
    using MqSend assms(2) sys_valid [OF assms(1), of "OMsgQueue n"] by (auto simp: obj_ok_def)
  ultimately show ?thesis using MqSend assms(2) by (simp add: todo_ok_def)
qed (use assms(2) in \<open>simp_all add: todo_ok_def\<close>)

definition system_inv :: "in_use \<Rightarrow> tid \<Rightarrow> system \<Rightarrow> bool" where
  "system_inv L idle x \<longleftrightarrow> sys_inv L idle (kern x) \<and> (\<forall>t a d. todo x t = Some (a, d) \<longrightarrow> todo_ok L idle t a)"

lemma system_inv_keep:
  assumes "system_inv L idle x" "sys_inv L idle s" "blocked \<Longrightarrow> todo_ok L idle c a"
  shows "system_inv L idle (keep_todo c blocked a x s)"
  using assms by (auto simp: system_inv_def keep_todo_def split: if_splits)

lemma sys_step_inv:
  assumes "sys_step usr L idle x y" "system_inv L idle x"
  shows "system_inv L idle y"
  using assms(1)
proof cases
  case (call c a blocked s)
  have i: "sys_inv L idle (kern x)" using assms(2) by (simp add: system_inv_def)
  from exec_ok [OF i call(2,4)] call(5) have "sys_inv L idle s" by auto
  then show ?thesis unfolding call(1)
    by (rule system_inv_keep [OF assms(2)]) (use exec_blocked [OF i call(4)] call(5) in simp)
next
  case (continue c a d blocked s)
  have i: "sys_inv L idle (kern x)" "todo_ok L idle c a" using assms(2) continue(3) by (simp_all add: system_inv_def)
  note g = go_on_ok [OF i(1) continue(2) i(2) continue(4)]
  from g(1) continue(5) have "sys_inv L idle s" by auto
  then show ?thesis unfolding continue(1) by (rule system_inv_keep [OF assms(2)]) (rule g(2))
next
  case (ticks s)
  have "sys_inv L idle (kern x)" using assms(2) by (simp add: system_inv_def)
  from sys_tick_handler [OF this, of usr] ticks(2) have "sys_inv L idle s" by auto
  then show ?thesis unfolding ticks(1) using assms(2) by (simp add: system_inv_def)
qed

lemma sys_reach_inv:
  assumes "(sys_step usr L idle)\<^sup>*\<^sup>* x y" "system_inv L idle x"
  shows "system_inv L idle y"
  using assms by (induction rule: rtranclp_induct) (auto intro: sys_step_inv)

text \<open>C2: the kernel as a whole.  Start from a state of the joint invariant with no call pending, and
  let the running threads make any allowed calls, go on with blocked ones when they run again, and tick
  interrupts come in any order.  Then the joint invariant always holds, in particular a most urgent thread
  runs, a semaphore with units left has no waiters, nobody waits for events that are there and every mailbox
  and message queue in use is well formed; and no allowed call of the running thread, no blocked call that
  goes on and no tick interrupt fails an assertion or follows a bad pointer.\<close>

theorem kernel_safe:
  assumes "sys_inv L idle (kern x0)" "todo x0 = (\<lambda>_. None)" "(sys_step usr L idle)\<^sup>*\<^sup>* x0 x"
  shows "sys_inv L idle (kern x) \<and> runs_highest (kern x)
    \<and> (\<forall>c a. cur (kern x) = Some c \<and> todo x c = None \<and> allowed L idle c a \<longrightarrow>
         (\<exists>blocked s. exec a (kern x) = Inr (blocked, s)))
    \<and> (\<forall>c a d. cur (kern x) = Some c \<and> todo x c = Some (a, d) \<and> in_time a d (kern x) \<longrightarrow>
         (\<exists>blocked s. go_on c a d (kern x) = Inr (blocked, s)))
    \<and> (\<exists>s. SysTick_Handler (timeout_call usr) (Suc (length (timer_list (kern x)))) (kern x) = Inr s)"
proof -
  have "system_inv L idle x0" using assms(1,2) by (simp add: system_inv_def)
  from sys_reach_inv [OF assms(3) this]
  have i: "sys_inv L idle (kern x)" "\<And>t a d. todo x t = Some (a, d) \<Longrightarrow> todo_ok L idle t a"
    by (simp_all add: system_inv_def)
  have "runs_highest (kern x)" using i(1) by (simp add: sys_inv_def sys_core_def)
  moreover have "\<exists>b s. exec a (kern x) = Inr (b, s)" if "cur (kern x) = Some c" "allowed L idle c a" for c a
    using exec_ok [OF i(1) that] by blast
  moreover have "\<exists>b s. go_on c a d (kern x) = Inr (b, s)"
    if "cur (kern x) = Some c" "todo x c = Some (a, d)" "in_time a d (kern x)" for c a d
    using go_on_ok(1) [OF i(1) that(1) i(2) [OF that(2)] that(3)] by blast
  ultimately show ?thesis using i(1) sys_tick_handler [OF i(1), of usr] by blast
qed

definition demo_use :: in_use where
  "demo_use = (\<lambda>_. None)(OSem 0 := Some 0, OEvent 0 := Some 0)"

lemma demo_sys_inv: "sys_inv demo_use 0 demo_kernel"
proof -
  have "runs_highest demo_kernel" by (auto simp: runs_highest_def demo_cur demo_stat demo_prio)
  moreover have "awake demo_kernel 0" by (simp add: awake_def demo_stat)
  moreover have "clock_ready demo_kernel" by (simp add: clock_ready_def demo_kernel_def)
  ultimately have "sys_core 0 demo_kernel" using demo_running by (auto simp: sys_core_def)
  moreover have "sem_inv demo_kernel" "event_inv demo_kernel" by (simp_all add: sem_inv_def event_inv_def demo_queues)
  moreover have "sem_valid 0 demo_kernel" "event_valid 0 demo_kernel"
    by (simp_all add: sem_valid_def event_valid_def rt_object_get_type_def demo_kernel_def)
  ultimately show ?thesis by (simp add: sys_inv_def sys_data_def demo_use_def obj_ok_def)
qed

text \<open>The running thread takes the only unit of a semaphore; its next take, which is safe by the
  property, makes it wait.\<close>

theorem kernel_safe_witness:
  "\<exists>x s. (sys_step (\<lambda>_ s. Inr s) demo_use 0)\<^sup>*\<^sup>* \<lparr>kern = demo_kernel, todo = (\<lambda>_. None)\<rparr> x
     \<and> sems (kern x) 0 = 0 \<and> runs_highest (kern x) \<and> exec (SemTake 0 (- 1)) (kern x) = Inr (True, s)"
proof -
  let ?start = "\<lparr>kern = demo_kernel, todo = (\<lambda>_. None)\<rparr>"
  let ?s = "demo_kernel\<lparr>sems := (sems demo_kernel)(0 := 0)\<rparr>"
  let ?x = "keep_todo 1 False (SemTake 0 (- 1)) ?start ?s"
  have ty: "rt_object_get_type (OSem 0) demo_kernel = RT_Object_Class_Semaphore" "sems demo_kernel 0 = 1"
    by (simp_all add: rt_object_get_type_def demo_kernel_def)
  have al: "allowed demo_use 0 1 (SemTake 0 (- 1))" by (simp add: demo_use_def may_wait_def)
  have "exec (SemTake 0 (- 1)) demo_kernel = Inr (False, ?s)" using ty by (simp add: rt_sem_take_def)
  then have "sys_step (\<lambda>_ s. Inr s) demo_use 0 ?start ?x" by (intro sys_step.call) (use al demo_cur in simp_all)
  then have st: "(sys_step (\<lambda>_ s. Inr s) demo_use 0)\<^sup>*\<^sup>* ?start ?x" by blast
  have f: "kern ?x = ?s" "todo ?x 1 = None" "cur ?s = Some 1" by (simp_all add: keep_todo_def demo_cur)
  have ks: "runs_highest (kern ?x) \<and> (\<exists>b s. exec (SemTake 0 (- 1)) (kern ?x) = Inr (b, s))"
    using kernel_safe [OF _ _ st] demo_sys_inv al f(2,3) by (simp only: system.simps f(1))
  then obtain b s where b: "exec (SemTake 0 (- 1)) ?s = Inr (b, s)" using f by auto
  then have "b" by (auto simp: rt_sem_take_def assert_then_eq_Inr bind_res_eq_Inr Let_def split: option.splits)
  then show ?thesis using st ks b f by (intro exI [of _ ?x] exI [of _ s]) simp
qed

end
