(* ===== verification/Spec2Isabelle.thy ===== *)
theory Spec2Isabelle
  imports MemPool Event Mailbox MqSteps SmallMemLife RingBuffer Mutex PdmaCopy SerialDev System
begin

text \<open>
  \<^bold>\<open>RT-Thread and the Nuvoton M467 board support package.\<close>  The repository is a board
  support package: the RT-Thread 5.0 kernel (\<^verbatim>\<open>rt-thread/src\<close>,
  \<^verbatim>\<open>rt-thread/include\<close>), device-driver middleware
  (\<^verbatim>\<open>rt-thread/components\<close>), the vendor's drivers and their RT-Thread ports
  (\<^verbatim>\<open>libraries\<close>), and the board's start-up and configuration
  (\<^verbatim>\<open>board\<close>, \<^verbatim>\<open>src/rtconfig.h\<close>).  The development
  models the kernel of that configuration: one core, 32 priorities, names of 8 bytes, one list of hard
  timers, assertions on, the small memory manager as the heap; the device framework with the serial class
  and the completions, wait queues, ring buffers and data queues drivers are built from; and the driver of
  the PDMA controller, on which the other drivers' transfers and the accelerated memory copy rest.

  \<^bold>\<open>How the parts interact.\<close>  The system tick runs \<^verbatim>\<open>rt_tick_increase\<close>,
  which charges the running thread's time slice and calls the callbacks of the due timers; a thread's own
  timer wakes it with \<^verbatim>\<open>-RT_ETIMEOUT\<close>.  Waking and suspending move threads between
  the ready queues of the scheduler, the suspend lists of the IPC objects and the timer list;
  \<^verbatim>\<open>rt_schedule\<close> then picks the first thread of the most urgent queue.  The IPC
  objects are built from these moves and data of their own.  Memory pools and the heap serve the rest of the
  system.  A device is opened, read and written through the device framework, which counts its users and
  calls the functions of its driver; the serial class is such a driver, with a fifo its interrupt fills, a
  completion or a data queue for what it sends, and a UART driver behind it.  The PDMA driver turns a transfer into
  descriptors, waits on a semaphore and is woken by its interrupt handler.

  \<^bold>\<open>Modelling.\<close>  Machine integers are words at their width (\<open>u8\<close>,
  \<open>u16\<close>, \<open>u32\<close>) or natural numbers with the wrap-around written out; error
  codes are integers.  An operation that can fail an \<^verbatim>\<open>RT_ASSERT\<close>, follow a bad
  pointer or never come back returns \<open>fault + 'a\<close>: \<open>Inl AssertFail\<close>,
  \<open>Inl BadAccess\<close>.  A kernel object is named by an identifier instead of its address.  A code
  region under \<^verbatim>\<open>rt_hw_interrupt_disable\<close> is one step.  A call that blocks is
  modelled in two parts, up to and including the \<^verbatim>\<open>rt_schedule\<close> that switches away,
  and what runs when the thread is current again (definitions named \<open>\<dots>_resume\<close>); in between,
  any other operation may run on the kernel state.  Calls the kernel makes to code outside it
  (timer callbacks of users, hooks, memory from the heap for a control block) are parameters of the
  operations.

  \<^bold>\<open>Theories.\<close>

  \<^item> \<open>Prelude\<close>, \<open>Addr32\<close>: words, faults, list and bit lemmas; 32-bit
    addresses and the rounding macros of \<^verbatim>\<open>rtdef.h\<close>.
  \<^item> \<open>BitUtil\<close>: \<^verbatim>\<open>nu_bitutil.h\<close> and the three
    \<^verbatim>\<open>__rt_ffs\<close>; \<open>KService\<close>: the memory and string routines of
    \<^verbatim>\<open>kservice.c\<close> with their word-at-a-time loops, proved equal to the bytewise
    specification.
  \<^item> \<open>KState\<close>: the state of the kernel, one record (threads, objects, queues, timers,
    clock, scheduler variables, IPC data).
  \<^item> \<open>Sched\<close> (\<^verbatim>\<open>scheduler.c\<close>): the scheduler's invariant
    \<open>sched_inv\<close> (a bit of the group word for each non-empty ready queue, every queued thread
    ready at its own priority, the running thread in no queue).
  \<^item> \<open>Timer\<close> (\<^verbatim>\<open>timer.c\<close>, \<^verbatim>\<open>clock.c\<close>): the list of
    active timers, sorted by distance from the current tick; the locale \<open>timer_callbacks\<close> is the
    contract of a timer's callback and gives the end of the loop of \<^verbatim>\<open>rt_timer_check\<close>
    and its invariant; \<open>Thread\<close> interprets it on the kernel's own callbacks.
  \<^item> \<open>Object\<close> (\<^verbatim>\<open>object.c\<close>), \<open>Thread\<close>
    (\<^verbatim>\<open>thread.c\<close>, the defunct list of \<^verbatim>\<open>idle.c\<close>): the kernel
    invariant \<open>kinv\<close>, which adds to \<open>sched_inv\<close> that each thread is in at most one
    queue and that the active timers belong to suspended threads; every step of suspending, waking and
    scheduling keeps it.
  \<^item> \<open>Ipc\<close>, \<open>IpcWake\<close>, \<open>Block\<close>: the suspend lists every IPC object
    shares, and their effect on the invariant; what waiting outside IPC objects adds.
  \<^item> \<open>Sem\<close>, \<open>Mutex\<close>, \<open>Event\<close>, \<open>Mailbox\<close>,
    \<open>MsgQueue\<close> (\<^verbatim>\<open>ipc.c\<close>): for each object, every operation, the result
    on every branch, and its invariant.  \<open>Mutex\<close> holds \<open>mutex_inv\<close> (waiters sorted,
    each thread at the priority it inherits) and the end of a thread, which drops it from the mutex it
    waits for.  \<open>MqSteps\<close>: the interleavings of senders and receivers of a message queue, whose
    copies run with interrupts enabled, as an inductive step relation with an invariant on the reachable
    states.
  \<^item> \<open>Ring\<close>: circular segments and the locale \<open>bounded_fifo\<close>, interpreted by
    \<open>RingBuffer\<close> (\<^verbatim>\<open>ringbuffer.c\<close>), \<open>Mailbox\<close>,
    \<open>MsgQueue\<close> and \<open>DataQueue\<close> on their own operations.
  \<^item> \<open>DevIpc\<close> (\<^verbatim>\<open>completion.c\<close>,
    \<^verbatim>\<open>waitqueue.c\<close>), \<open>DataQueue\<close>
    (\<^verbatim>\<open>dataqueue.c\<close>): what drivers wait with; each operation on every branch.
  \<^item> \<open>Device\<close> (\<^verbatim>\<open>device.c\<close>): the device framework in front of a
    driver's functions; the locale \<open>device_driver\<close> is the contract of a driver and gives what
    holds for any sequence of users.  \<open>Serial\<close>
    (\<^verbatim>\<open>components/drivers/serial/serial.c\<close>): the serial class, its fifos as queues of
    bytes and what it sends; \<open>SerialDev\<close> interprets the contract on it.
  \<^item> \<open>Pool\<close>: the locale \<open>block_pool\<close>, interpreted by \<open>MemPool\<close>
    (\<^verbatim>\<open>mempool.c\<close>) and by \<open>PdmaPool\<close> for channels and descriptors: no block
    is handed out twice, none is lost.
  \<^item> \<open>SmallMem\<close>, \<open>SmallMemLife\<close> (\<^verbatim>\<open>mem.c\<close>): the heap as an
    array of words with its block headers in it, refined to a list of blocks; then its whole life, from the
    initialisation through any history of calls.
  \<^item> \<open>System\<close>: the kernel as a whole.  Any sequence of calls of the running threads and of tick
    interrupts (\<^verbatim>\<open>irq.c\<close>, \<^verbatim>\<open>SysTick_Handler\<close>) is a path of
    a step relation; its reachable states satisfy the joint invariant of the scheduler, the clock and the
    objects in use, and no call in them faults.  \<open>SysInv\<close> holds the invariant and what the
    elementary steps keep of it, \<open>SysOps\<close> the operations.  Mutexes are outside it, with their
    own invariant in theory \<open>Mutex\<close>.
  \<^item> \<open>Pdma\<close> (registers, configuration, channel and descriptor allocation),
    \<open>PdmaXfer\<close> (descriptors, chains, transfers), \<open>PdmaIrq\<close> (the interrupt handler),
    \<open>PdmaMem\<close> (memory actors, \<^verbatim>\<open>nu_pdma_memcpy\<close>) model
    \<^verbatim>\<open>libraries/m460/rtt_port/drv_pdma.c\<close> and the register functions of
    \<^verbatim>\<open>nu_pdma.c\<close> it calls.  \<open>PdmaPool\<close>, \<open>PdmaMoves\<close>,
    \<open>PdmaProps\<close>, \<open>PdmaCopy\<close> hold its theorems: which items the controller is made
    to move, and that the memory copy is a copy.  What the controller itself does with a descriptor is a
    specification of the hardware, in \<open>PdmaXfer\<close>.

  \<^bold>\<open>Bounds and fuel.\<close>  Loops over linked structures take fuel, and running out of it is a
  fault of its own (\<open>OutOfFuel\<close>), so that a theorem that an operation returns also says the
  fuel was enough.  \<^verbatim>\<open>rt_timer_check\<close> takes one more than the length of the timer
  list: every round takes a timer out or sees that none is due.  Waking all waiters takes one more than the
  length of the queue; flushing a message queue one more than its nodes; the searches of the heap one more
  than its bytes; the chain of priority inheritance two, because re-queueing a suspended owner asserts that it
  is the running thread.  The waiting loops of the mailbox, the message queue and the memory pool do one
  pass per run of the thread and need none.  Emptying a serial receiver takes one more than the bytes in
  it.  Everything else recurses structurally.  A relative time is less
  than \<^verbatim>\<open>RT_TICK_MAX / 2\<close>, as the code's wrapped comparison requires; theorems that
  need it say so.

  \<^bold>\<open>Not modelled.\<close>  Signals, hooks, the soft timer thread, SMP, modules and the memheap and
  slab allocators: not built, or used by nothing in the repository.  The context switch, the stack frames
  and the interrupt entry: assembly of the port; a switch is the assignment of the current thread.
  \<^verbatim>\<open>rt_vsprintf\<close>, \<^verbatim>\<open>rt_kprintf\<close> and the console: output only.
  The UART driver behind the serial class and the memory it gets are parameters.  The other device classes,
  finsh, the file systems, the network stacks, libc glue, USB, the vendor's other
  peripheral drivers and the packages for external chips: register sequences, vendored or generated code,
  or I/O whose meaning is in the hardware.
\<close>

end
